(* ===== verification/VF_Prelude.thy ===== *)
theory VF_Prelude
  imports Main "HOL-Library.Word"
begin

text \<open>
  Shared vocabulary of the VoidFrame development: the C integer types, the wrap-around of
  unsigned 64-bit and 32-bit arithmetic on values kept as natural numbers, the compiler
  builtins on words (\<open>__builtin_ctzll\<close>, \<open>__builtin_popcountll\<close>, \<open>__builtin_clzll\<close>), and the
  generic facts on lists, words and sums that several components use.
\<close>

unbundle bit_operations_syntax

named_theorems c_wrap \<open>evaluation of wrap-around arithmetic that stays in range\<close>
named_theorems bitops \<open>bit tests of the masks the code builds\<close>

type_synonym u8 = "8 word"
type_synonym u16 = "16 word"
type_synonym u32 = "32 word"
type_synonym u64 = "64 word"

section \<open>Unsigned arithmetic on natural numbers\<close>

text \<open>
  Where a \<open>uint64_t\<close> is an index or a count it is kept as a natural number below \<open>2 ^ 64\<close>,
  and the arithmetic of C is written with these operators.
\<close>

definition wrap64 :: "nat \<Rightarrow> nat" where
  "wrap64 n = n mod 18446744073709551616"

definition wrap32 :: "nat \<Rightarrow> nat" where
  "wrap32 n = n mod 4294967296"

definition sub64 :: "nat \<Rightarrow> nat \<Rightarrow> nat" where
  "sub64 a b = (a + (18446744073709551616 - b mod 18446744073709551616)) mod 18446744073709551616"

lemma wrap64_id [c_wrap]: "n < 18446744073709551616 \<Longrightarrow> wrap64 n = n"
  by (simp add: wrap64_def)

lemma wrap32_id [c_wrap]: "n < 4294967296 \<Longrightarrow> wrap32 n = n"
  by (simp add: wrap32_def)

lemma wrap64_less [simp]: "wrap64 n < 18446744073709551616"
  by (simp add: wrap64_def)

lemma wrap64_le: "wrap64 n \<le> n"
  by (simp add: wrap64_def)

lemma sub64_id [c_wrap]:
  assumes "b \<le> a" and "a < 18446744073709551616"
  shows "sub64 a b = a - b"
proof -
  have b: "b mod 18446744073709551616 = b"
    using assms by simp
  have "a + (18446744073709551616 - b) = (a - b) + 18446744073709551616"
    using assms by simp
  then have "sub64 a b = (a - b + 18446744073709551616) mod 18446744073709551616"
    by (simp only: sub64_def b)
  also have "\<dots> = (a - b) mod 18446744073709551616"
    by (rule mod_add_self2)
  also have "\<dots> = a - b"
    using assms by simp
  finally show ?thesis .
qed

lemma sub64_less [simp]: "sub64 a b < 18446744073709551616"
  by (simp add: sub64_def)

section \<open>Builtins on machine words\<close>

definition ctz :: "'a::len word \<Rightarrow> nat" where
  "ctz w = length (takeWhile (\<lambda>i. \<not> bit w i) [0..<LENGTH('a)])"

definition popcount :: "'a::len word \<Rightarrow> nat" where
  "popcount w = length (filter (bit w) [0..<LENGTH('a)])"

definition clz :: "'a::len word \<Rightarrow> nat" where
  "clz w = length (takeWhile (\<lambda>i. \<not> bit w (LENGTH('a) - 1 - i)) [0..<LENGTH('a)])"

lemma takeWhile_upt_length:
  "i < length (takeWhile P [0..<n]) \<Longrightarrow> P i"
proof -
  assume i: "i < length (takeWhile P [0..<n])"
  then have "takeWhile P [0..<n] ! i \<in> set (takeWhile P [0..<n])" by simp
  then have "P (takeWhile P [0..<n] ! i)" by (metis set_takeWhileD)
  moreover have "takeWhile P [0..<n] ! i = [0..<n] ! i" using i by (rule takeWhile_nth)
  moreover have "i < n" using i length_takeWhile_le [of P "[0..<n]"] by simp
  ultimately show "P i" by simp
qed

lemma length_takeWhile_upt_stop:
  assumes "length (takeWhile P [0..<n]) < n"
  shows "\<not> P (length (takeWhile P [0..<n]))"
proof -
  have "\<not> P ([0..<n] ! length (takeWhile P [0..<n]))"
    using assms by (intro nth_length_takeWhile) simp
  then show ?thesis using assms by simp
qed

lemma ctz_less:
  fixes w :: "'a::len word"
  assumes "w \<noteq> 0"
  shows "ctz w < LENGTH('a)"
proof (rule ccontr)
  assume "\<not> ctz w < LENGTH('a)"
  moreover have "ctz w \<le> LENGTH('a)"
    unfolding ctz_def using length_takeWhile_le [of _ "[0..<LENGTH('a)]"] by simp
  ultimately have full: "ctz w = LENGTH('a)" by simp
  have "\<not> bit w i" if "i < LENGTH('a)" for i
    using takeWhile_upt_length [of i "\<lambda>i. \<not> bit w i" "LENGTH('a)"] that full
    by (simp add: ctz_def)
  then have "w = 0" by (intro bit_word_eqI) simp
  with assms show False by simp
qed

lemma bit_ctz: "w \<noteq> 0 \<Longrightarrow> bit w (ctz w)"
  for w :: "'a::len word"
  using ctz_less [of w] length_takeWhile_upt_stop [of "\<lambda>i. \<not> bit w i" "LENGTH('a)"]
  by (simp add: ctz_def)

lemma bit_below_ctz: "i < ctz w \<Longrightarrow> \<not> bit w i"
  unfolding ctz_def by (rule takeWhile_upt_length)

lemma clz_le: "w \<noteq> 0 \<Longrightarrow> clz w < LENGTH('a)"
  for w :: "'a::len word"
proof (rule ccontr)
  assume w: "w \<noteq> 0" and no: "\<not> clz w < LENGTH('a)"
  have "\<not> bit w i" if "i < LENGTH('a)" for i
    using takeWhile_upt_length [of "LENGTH('a) - 1 - i" "\<lambda>i. \<not> bit w (LENGTH('a) - 1 - i)" "LENGTH('a)"]
      that no by (simp add: clz_def)
  then have "w = 0" by (intro bit_word_eqI) simp
  with w show False by simp
qed

lemma bit_clz: "w \<noteq> 0 \<Longrightarrow> bit w (LENGTH('a) - 1 - clz w)"
  for w :: "'a::len word"
  using clz_le [of w] length_takeWhile_upt_stop [of "\<lambda>i. \<not> bit w (LENGTH('a) - 1 - i)" "LENGTH('a)"]
  by (simp add: clz_def)

lemma bit_above_clz:
  fixes w :: "'a::len word"
  assumes "LENGTH('a) - 1 - clz w < i"
  shows "\<not> bit w i"
proof (cases "i < LENGTH('a)")
  case True
  then have "LENGTH('a) - 1 - i < clz w" using assms by linarith
  then have "\<not> bit w (LENGTH('a) - 1 - (LENGTH('a) - 1 - i))"
    unfolding clz_def by (rule takeWhile_upt_length)
  with True show ?thesis by simp
next
  case False
  then show ?thesis using bit_imp_le_length not_le by blast
qed

lemma popcount_card: "popcount w = card {i. i < LENGTH('a) \<and> bit w i}"
  for w :: "'a::len word"
proof -
  have "popcount w = card (set (filter (bit w) [0..<LENGTH('a)]))"
    unfolding popcount_def by (rule distinct_card [symmetric]) simp
  also have "set (filter (bit w) [0..<LENGTH('a)]) = {i. i < LENGTH('a) \<and> bit w i}"
    by auto
  finally show ?thesis .
qed

lemma popcount_le: "popcount w \<le> LENGTH('a)"
  for w :: "'a::len word"
  unfolding popcount_def using length_filter_le [of "bit w" "[0..<LENGTH('a)]"] by simp

lemma popcount_0 [simp]: "popcount 0 = 0"
  by (simp add: popcount_def)

section \<open>The masks of the bitmap code\<close>

lemma word_and_eq_0_iff: "w AND m = 0 \<longleftrightarrow> (\<forall>i < LENGTH('a). bit m i \<longrightarrow> \<not> bit w i)"
  for w m :: "'a::len word"
  by (auto simp: bit_eq_iff bit_and_iff)

lemma bit_single_mask [bitops]:
  "bit (push_bit b 1 :: 'a::len word) i \<longleftrightarrow> i = b \<and> i < LENGTH('a)"
  by (auto simp: bit_simps)

lemma and_single_mask_eq_0 [bitops]:
  fixes w :: "'a::len word"
  assumes "b < LENGTH('a)"
  shows "w AND 2 ^ b = 0 \<longleftrightarrow> \<not> bit w b"
  using assms by (auto simp: word_and_eq_0_iff bit_exp_iff)

lemma bit_high_mask [bitops]:
  "bit (push_bit b (NOT 0) :: 'a::len word) i \<longleftrightarrow> b \<le> i \<and> i < LENGTH('a)"
  by (auto simp: bit_simps)

lemma bit_low_mask [bitops]:
  "e < LENGTH('a) \<Longrightarrow>
   bit (drop_bit (LENGTH('a) - 1 - e) (NOT 0) :: 'a::len word) i \<longleftrightarrow> i \<le> e"
  by (auto simp: bit_simps)

lemma popcount_or_disjoint:
  fixes w m :: "'a::len word"
  assumes "w AND m = 0"
  shows "popcount (w OR m) = popcount w + popcount m"
proof -
  have "{i. i < LENGTH('a) \<and> bit (w OR m) i} =
        {i. i < LENGTH('a) \<and> bit w i} \<union> {i. i < LENGTH('a) \<and> bit m i}"
    by (auto simp: bit_or_iff)
  moreover have "{i. i < LENGTH('a) \<and> bit w i} \<inter> {i. i < LENGTH('a) \<and> bit m i} = {}"
    using assms by (auto simp: word_and_eq_0_iff)
  ultimately show ?thesis
    by (simp add: popcount_card card_Un_disjoint)
qed

lemma popcount_or_ge: "popcount w \<le> popcount (w OR m)"
  for w m :: "'a::len word"
  unfolding popcount_card by (rule card_mono) (auto simp: bit_or_iff)

lemma popcount_and_le: "popcount (w AND m) \<le> popcount w"
  for w m :: "'a::len word"
  unfolding popcount_card by (rule card_mono) (auto simp: bit_and_iff)

section \<open>Lists\<close>

lemma sum_list_map_update:
  fixes f :: "'a \<Rightarrow> nat"
  assumes "k < length xs"
  shows "sum_list (map f (xs[k := v])) + f (xs ! k) = sum_list (map f xs) + f v"
  using assms
proof (induction xs arbitrary: k)
  case Nil
  then show ?case by simp
next
  case (Cons x xs)
  then show ?case by (cases k) auto
qed

lemma nth_list_update_if: "i < length xs \<Longrightarrow> xs[k := v] ! i = (if k = i then v else xs ! i)"
  by (simp add: nth_list_update)

lemma mod_once: "a < 2 * n \<Longrightarrow> a mod n = (if a < n then a else a - n)" for a n :: nat
  by (simp add: mod_if)

lemma upt_add_Suc: "[a..<a + Suc k] = [a..<a + k] @ [a + k]"
  by simp

section \<open>Bits of natural numbers, searches and intervals\<close>

lemma not_bit_small: "x < 2 ^ n \<Longrightarrow> \<not> bit x n" for x :: nat
  by (simp add: bit_iff_odd)

lemma high_bits_zero:
  fixes x :: nat
  assumes "\<And>i. m \<le> i \<Longrightarrow> \<not> bit x i"
  shows "x < 2 ^ m"
proof -
  have "take_bit m x = x" using assms by (intro bit_eqI) (metis bit_take_bit_iff not_le)
  then show ?thesis using take_bit_nat_less_exp [of m x] by simp
qed

lemma bit_unat: "bit (unat w) n \<longleftrightarrow> bit w n" for w :: "'a::len word"
  using bit_imp_le_length [of w n] unfolding unat_eq_nat_uint bit_nat_iff bit_uint_iff by fastforce

lemma clz_bounds:
  fixes w :: "'a::len word"
  assumes "w \<noteq> 0"
  shows "2 ^ (LENGTH('a) - 1 - clz w) \<le> unat w" and "unat w < 2 ^ (LENGTH('a) - clz w)"
proof -
  have "bit (unat w) (LENGTH('a) - 1 - clz w)" using bit_clz [OF assms] by (simp add: bit_unat)
  then show "2 ^ (LENGTH('a) - 1 - clz w) \<le> unat w" using not_bit_small not_le by blast
  have "\<not> bit (unat w) i" if "LENGTH('a) - clz w \<le> i" for i
  proof -
    have "LENGTH('a) - 1 - clz w < i" using that clz_le [OF assms] by linarith
    then show ?thesis using bit_above_clz [of w i] by (simp add: bit_unat)
  qed
  then show "unat w < 2 ^ (LENGTH('a) - clz w)" by (rule high_bits_zero)
qed

lemma unset_bit_nat:
  fixes a :: nat
  assumes "bit a n"
  shows "unset_bit n a = a - 2 ^ n"
proof -
  have "a = set_bit n (unset_bit n a)" using assms by (intro bit_eqI) (auto simp: bit_simps)
  also have "\<dots> = unset_bit n a + 2 ^ n" by (simp add: set_bit_eq bit_simps)
  finally show ?thesis by simp
qed

lemma find_upt_Some:
  assumes "find P [a..<b] = Some c"
  shows "a \<le> c \<and> c < b \<and> P c \<and> (\<forall>j. a \<le> j \<longrightarrow> j < c \<longrightarrow> \<not> P j)"
proof -
  from assms obtain i where i: "i < b - a" "P (a + i)" "c = a + i" "\<forall>j < i. \<not> P (a + j)"
    by (auto simp: find_Some_iff)
  have "\<not> P j" if "a \<le> j" "j < c" for j
  proof -
    have "j - a < i" using that i(3) by linarith
    then have "\<not> P (a + (j - a))" using i(4) by blast
    with that(1) show ?thesis by simp
  qed
  with i show ?thesis by auto
qed

lemma ivl_glue: "{a..<a + s} \<union> {a + s..<a + s + t} = {a..<a + (s + t)}" for a s t :: nat
  by auto

end
