(* ===== verification/PMem.thy ===== *)
theory PMem
  imports VF_Prelude
begin

text \<open>
  The physical page allocator of \<open>mm/PMem.c\<close>: a bitmap of 64-bit words with one bit per 4 KB
  page (1 is used), a counter of used pages and a search hint.  The file's static variables are
  the record \<open>pmm\<close>; each C function is one definition over it.  The spin lock around the bodies
  is not part of the state: the bodies are the critical sections.  A pointer result is an
  address, with \<open>None\<close> for \<open>NULL\<close>.
\<close>

abbreviation PAGE_SIZE :: nat where "PAGE_SIZE \<equiv> 4096"
abbreviation HUGE_PAGE_SIZE :: nat where "HUGE_PAGE_SIZE \<equiv> 2097152"
abbreviation MAX_SUPPORTED_MEMORY :: nat where "MAX_SUPPORTED_MEMORY \<equiv> 137438953472"
abbreviation MAX_PAGES :: nat where "MAX_PAGES \<equiv> 33554432"
abbreviation LOWMEM_PAGES :: nat where "LOWMEM_PAGES \<equiv> 256"

section \<open>State and bitmap primitives\<close>

record pmm =
  allocation_count :: u64
  free_count :: u64
  huge_pages_allocated :: u64
  page_bitmap :: "u64 list option"
  bitmap_words :: nat
  total_pages :: nat
  used_pages :: nat
  next_free_hint :: nat
  low_memory_watermark :: nat
  allocation_failures :: u64

definition bmp :: "pmm \<Rightarrow> u64 list" where
  "bmp s = (case page_bitmap s of None \<Rightarrow> [] | Some b \<Rightarrow> b)"

definition set_word :: "nat \<Rightarrow> u64 \<Rightarrow> pmm \<Rightarrow> pmm" where
  "set_word w v s = s\<lparr>page_bitmap := map_option (\<lambda>b. b[w := v]) (page_bitmap s)\<rparr>"

definition MarkPageUsed :: "nat \<Rightarrow> pmm \<Rightarrow> pmm" where
  "MarkPageUsed page_idx s =
     (if total_pages s \<le> page_idx \<or> page_bitmap s = None then s
      else let word_idx = page_idx div 64; bit_idx = page_idx mod 64;
               msk = push_bit bit_idx 1 in
        if bitmap_words s \<le> word_idx then s
        else if bmp s ! word_idx AND msk = 0
          then (set_word word_idx (bmp s ! word_idx OR msk) s)
                 \<lparr>used_pages := wrap64 (used_pages s + 1)\<rparr>
          else s)"

definition MarkPageFree :: "nat \<Rightarrow> pmm \<Rightarrow> pmm" where
  "MarkPageFree page_idx s =
     (if total_pages s \<le> page_idx \<or> page_bitmap s = None then s
      else let word_idx = page_idx div 64; bit_idx = page_idx mod 64;
               msk = push_bit bit_idx 1 in
        if bitmap_words s \<le> word_idx then s
        else if bmp s ! word_idx AND msk \<noteq> 0
          then (set_word word_idx (bmp s ! word_idx AND NOT msk) s)
                 \<lparr>used_pages := sub64 (used_pages s) 1\<rparr>
          else s)"

definition IsPageFree :: "nat \<Rightarrow> pmm \<Rightarrow> bool" where
  "IsPageFree page_idx s =
     (if total_pages s \<le> page_idx \<or> page_bitmap s = None then False
      else let word_idx = page_idx div 64; bit_idx = page_idx mod 64 in
        if bitmap_words s \<le> word_idx then False
        else bmp s ! word_idx AND push_bit bit_idx 1 = 0)"

definition FindFirstFreeBit :: "u64 \<Rightarrow> int" where
  "FindFirstFreeBit word = (if word = NOT 0 then -1 else int (ctz (NOT word)))"

section \<open>Single pages\<close>

text \<open>
  \<open>scan_up\<close> is the first search loop of \<open>AllocPage\<close> (from the hint's word to the end, leaving the
  loop at a page past the end of memory), \<open>scan_wrap\<close> the second (from low memory to the hint).
\<close>

fun scan_up :: "nat list \<Rightarrow> pmm \<Rightarrow> nat option \<times> pmm" where
  "scan_up [] s = (None, s)"
| "scan_up (word_idx # ws) s =
     (let word = bmp s ! word_idx in
      if word \<noteq> NOT 0 then
        (let bit_pos = FindFirstFreeBit word in
         if 0 \<le> bit_pos then
           (let page_idx = word_idx * 64 + nat bit_pos in
            if total_pages s \<le> page_idx then (None, s)
            else if page_idx < LOWMEM_PAGES then
              scan_up ws (s\<lparr>next_free_hint := (word_idx + 1) * 64\<rparr>)
            else (Some page_idx, s))
         else scan_up ws s)
      else scan_up ws s)"

fun scan_wrap :: "nat list \<Rightarrow> pmm \<Rightarrow> nat option" where
  "scan_wrap [] s = None"
| "scan_wrap (word_idx # ws) s =
     (let word = bmp s ! word_idx in
      if word \<noteq> NOT 0 then
        (let bit_pos = FindFirstFreeBit word in
         if 0 \<le> bit_pos then
           (let page_idx = word_idx * 64 + nat bit_pos in
            if page_idx < LOWMEM_PAGES then scan_wrap ws s
            else Some page_idx)
         else scan_wrap ws s)
      else scan_wrap ws s)"

text \<open>The statements both loops run on the page they found.\<close>

definition claim_page :: "nat \<Rightarrow> pmm \<Rightarrow> nat option \<times> pmm" where
  "claim_page page_idx s =
     (let s1 = MarkPageUsed page_idx s;
          s2 = s1\<lparr>allocation_count := allocation_count s1 + 1, next_free_hint := page_idx + 1\<rparr>;
          s3 = (if total_pages s2 \<le> next_free_hint s2
                then s2\<lparr>next_free_hint := LOWMEM_PAGES\<rparr> else s2)
      in (Some (wrap64 (page_idx * PAGE_SIZE)), s3))"

definition AllocPage :: "pmm \<Rightarrow> nat option \<times> pmm" where
  "AllocPage s =
     (if page_bitmap s = None then (None, s)
      else if sub64 (total_pages s) 1 \<le> used_pages s
        then (None, s\<lparr>allocation_failures := allocation_failures s + 1\<rparr>)
      else
        let s1 = (if wrap64 (total_pages s * 9) div 10 < used_pages s \<and> low_memory_watermark s = 0
                  then s\<lparr>low_memory_watermark := used_pages s\<rparr> else s);
            s2 = (if next_free_hint s1 < LOWMEM_PAGES
                  then s1\<lparr>next_free_hint := LOWMEM_PAGES\<rparr> else s1);
            s3 = (if total_pages s2 \<le> next_free_hint s2
                  then s2\<lparr>next_free_hint := LOWMEM_PAGES\<rparr> else s2);
            start_word = next_free_hint s3 div 64
        in case scan_up [start_word..<bitmap_words s3] s3 of
             (Some page_idx, s4) \<Rightarrow> claim_page page_idx s4
           | (None, s4) \<Rightarrow>
               (case scan_wrap [LOWMEM_PAGES div 64..<start_word] s4 of
                  Some page_idx \<Rightarrow> claim_page page_idx s4
                | None \<Rightarrow> (None, s4\<lparr>allocation_failures := allocation_failures s4 + 1\<rparr>)))"

text \<open>
  \<open>FreePage\<close> prints an error and returns for a null, unaligned, out-of-range or already free
  page; the printing is not modelled.
\<close>

definition FreePage :: "nat \<Rightarrow> pmm \<Rightarrow> pmm" where
  "FreePage addr s =
     (if addr = 0 then s
      else if addr mod PAGE_SIZE \<noteq> 0 then s
      else let page_idx = addr div PAGE_SIZE in
        if total_pages s \<le> page_idx then s
        else if IsPageFree page_idx s then s
        else let s1 = MarkPageFree page_idx s;
                 s2 = s1\<lparr>free_count := free_count s1 + 1\<rparr>
             in if page_idx < next_free_hint s2 then s2\<lparr>next_free_hint := page_idx\<rparr> else s2)"

section \<open>Ranges\<close>

definition range_mask :: "nat \<Rightarrow> nat \<Rightarrow> u64" where
  "range_mask start_offset end_offset =
     drop_bit (63 - end_offset) (NOT 0) AND push_bit start_offset (NOT 0)"

definition RangeIsFree :: "nat \<Rightarrow> nat \<Rightarrow> pmm \<Rightarrow> bool" where
  "RangeIsFree start_page page_count s =
     (if total_pages s < wrap64 (start_page + page_count) then False
      else
        let end_bit = sub64 (wrap64 (start_page + page_count)) 1;
            start_word = start_page div 64; end_word = end_bit div 64;
            start_offset = start_page mod 64; end_offset = end_bit mod 64
        in if start_word = end_word
           then bmp s ! start_word AND range_mask start_offset end_offset = 0
           else if bmp s ! start_word AND push_bit start_offset (NOT 0) \<noteq> 0 then False
           else if \<not> list_all (\<lambda>w. bmp s ! w = 0) [start_word + 1..<end_word] then False
           else if bmp s ! end_word AND drop_bit (63 - end_offset) (NOT 0) \<noteq> 0 then False
           else True)"

text \<open>One \<open>before\<close>/\<open>after\<close> step on a word, with the popcount difference added to \<open>used_pages\<close>.\<close>

definition or_word :: "nat \<Rightarrow> u64 \<Rightarrow> pmm \<Rightarrow> pmm" where
  "or_word w msk s =
     (let before = bmp s ! w; after = before OR msk
      in set_word w after
           (s\<lparr>used_pages := wrap64 (used_pages s + sub64 (popcount after) (popcount before))\<rparr>))"

definition andnot_word :: "nat \<Rightarrow> u64 \<Rightarrow> pmm \<Rightarrow> pmm" where
  "andnot_word w msk s =
     (let before = bmp s ! w; after = before AND NOT msk
      in set_word w after
           (s\<lparr>used_pages := sub64 (used_pages s) (sub64 (popcount before) (popcount after))\<rparr>))"

definition fill_word :: "nat \<Rightarrow> pmm \<Rightarrow> pmm" where
  "fill_word w s =
     (let before = bmp s ! w in
      if before \<noteq> NOT 0
      then set_word w (NOT 0) (s\<lparr>used_pages := wrap64 (used_pages s + sub64 64 (popcount before))\<rparr>)
      else s)"

definition clear_word :: "nat \<Rightarrow> pmm \<Rightarrow> pmm" where
  "clear_word w s =
     (let before = bmp s ! w in
      if before \<noteq> 0
      then set_word w 0 (s\<lparr>used_pages := sub64 (used_pages s) (popcount before)\<rparr>)
      else s)"

definition RangeSetUsed :: "nat \<Rightarrow> nat \<Rightarrow> pmm \<Rightarrow> pmm" where
  "RangeSetUsed start_page page_count s =
     (let end_bit = sub64 (wrap64 (start_page + page_count)) 1;
          start_word = start_page div 64; end_word = end_bit div 64;
          start_offset = start_page mod 64; end_offset = end_bit mod 64
      in if start_word = end_word
         then or_word start_word (range_mask start_offset end_offset) s
         else
           let s1 = or_word start_word (push_bit start_offset (NOT 0)) s;
               s2 = fold fill_word [start_word + 1..<end_word] s1
           in or_word end_word (drop_bit (63 - end_offset) (NOT 0)) s2)"

definition RangeSetFree :: "nat \<Rightarrow> nat \<Rightarrow> pmm \<Rightarrow> pmm" where
  "RangeSetFree start_page page_count s =
     (let end_bit = sub64 (wrap64 (start_page + page_count)) 1;
          start_word = start_page div 64; end_word = end_bit div 64;
          start_offset = start_page mod 64; end_offset = end_bit mod 64
      in if start_word = end_word
         then andnot_word start_word (range_mask start_offset end_offset) s
         else
           let s1 = andnot_word start_word (push_bit start_offset (NOT 0)) s;
               s2 = fold clear_word [start_word + 1..<end_word] s1
           in andnot_word end_word (drop_bit (63 - end_offset) (NOT 0)) s2)"

section \<open>Huge pages\<close>

text \<open>
  The search loop of \<open>AllocHugePages\<close>.  Its guard is computed in 64-bit arithmetic, so for some
  arguments it could run for ever: \<open>None\<close> is ``does not return'', \<open>Some None\<close> ``no region''.
\<close>

partial_function (option) huge_search :: "nat \<Rightarrow> nat \<Rightarrow> pmm \<Rightarrow> nat option option" where
  "huge_search total_needed start s =
     (if wrap64 (start + total_needed) \<le> total_pages s
      then if RangeIsFree start total_needed s then Some (Some start)
           else huge_search total_needed (wrap64 (start + 512)) s
      else Some None)"

definition AllocHugePages :: "nat \<Rightarrow> pmm \<Rightarrow> (nat option \<times> pmm) option" where
  "AllocHugePages num_pages s =
     (let total_needed = wrap64 (num_pages * 512) in
      case huge_search total_needed 512 s of
        None \<Rightarrow> None
      | Some None \<Rightarrow> Some (None, s\<lparr>allocation_failures := allocation_failures s + 1\<rparr>)
      | Some (Some start) \<Rightarrow>
          (let s1 = RangeSetUsed start total_needed s;
               s2 = s1\<lparr>next_free_hint := wrap64 (start + total_needed)\<rparr>;
               s3 = (if total_pages s2 \<le> next_free_hint s2
                     then s2\<lparr>next_free_hint := LOWMEM_PAGES\<rparr> else s2)
           in Some (Some (wrap64 (start * PAGE_SIZE)),
                    s3\<lparr>huge_pages_allocated := huge_pages_allocated s3 + 1\<rparr>)))"

definition FreeHugePages :: "nat \<Rightarrow> nat \<Rightarrow> pmm \<Rightarrow> pmm" where
  "FreeHugePages addr num_pages s =
     (if addr = 0 \<or> num_pages = 0 then s
      else if addr mod HUGE_PAGE_SIZE \<noteq> 0 then s
      else
        let start_page = addr div PAGE_SIZE; total_to_free = wrap64 (num_pages * 512) in
        if total_pages s < wrap64 (start_page + total_to_free) then s
        else let s1 = RangeSetFree start_page total_to_free s
             in if start_page < next_free_hint s1 then s1\<lparr>next_free_hint := start_page\<rparr> else s1)"

section \<open>Statistics\<close>

definition GetFreeMemory :: "pmm \<Rightarrow> nat" where
  "GetFreeMemory s = wrap64 (sub64 (total_pages s) (used_pages s) * PAGE_SIZE)"

record MemoryStats =
  total_physical_bytes :: nat
  used_physical_bytes :: nat
  free_physical_bytes :: nat
  ms_allocation_count :: u64
  ms_free_count :: u64
  ms_allocation_failures :: u64
  ms_huge_pages_allocated :: u64
  fragmentation_score :: nat
  largest_free_block :: nat

text \<open>The fragment scan: (\<open>free_fragments\<close>, \<open>current_fragment\<close>, \<open>largest_fragment\<close>).\<close>

definition frag_step :: "pmm \<Rightarrow> nat \<Rightarrow> nat \<times> nat \<times> nat \<Rightarrow> nat \<times> nat \<times> nat" where
  "frag_step s i = (\<lambda>(fr, cur, largest).
     if IsPageFree i s then (fr, cur + 1, largest)
     else if 0 < cur then (fr + 1, 0, if largest < cur then cur else largest)
     else (fr, cur, largest))"

definition frag_scan :: "pmm \<Rightarrow> nat \<times> nat" where
  "frag_scan s =
     (case fold (frag_step s) [LOWMEM_PAGES..<total_pages s] (0, 0, 0) of
        (fr, cur, largest) \<Rightarrow>
          if 0 < cur then (fr + 1, if largest < cur then cur else largest) else (fr, largest))"

definition GetDetailedMemoryStats :: "pmm \<Rightarrow> MemoryStats" where
  "GetDetailedMemoryStats s =
     (let (free_fragments, largest_fragment) = frag_scan s;
          total_free_pages = sub64 (total_pages s) (used_pages s);
          score = (if 0 < total_free_pages
                   then wrap64 (free_fragments * 100) div (total_free_pages div 10 + 1) else 0)
      in \<lparr>total_physical_bytes = wrap64 (total_pages s * PAGE_SIZE),
          used_physical_bytes = wrap64 (used_pages s * PAGE_SIZE),
          free_physical_bytes = wrap64 (total_free_pages * PAGE_SIZE),
          ms_allocation_count = allocation_count s,
          ms_free_count = free_count s,
          ms_allocation_failures = allocation_failures s,
          ms_huge_pages_allocated = huge_pages_allocated s,
          fragmentation_score = (if 100 < score then 100 else score),
          largest_free_block = wrap64 (largest_fragment * PAGE_SIZE)\<rparr>)"

section \<open>Abstraction and invariant\<close>

text \<open>What the bitmap says of a page, and the set of used pages it denotes.\<close>

definition page_used :: "pmm \<Rightarrow> nat \<Rightarrow> bool" where
  "page_used s p = bit (bmp s ! (p div 64)) (p mod 64)"

definition used_set :: "pmm \<Rightarrow> nat set" where
  "used_set s = {p. p < total_pages s \<and> page_used s p}"

text \<open>
  \<open>pmm_wf\<close> ties the counter to the bitmap; \<open>pmm_inv\<close> adds that the bitmap covers the pages of
  memory and nothing behind them.
\<close>

definition pmm_wf :: "pmm \<Rightarrow> bool" where
  "pmm_wf s \<longleftrightarrow> page_bitmap s \<noteq> None \<and> length (bmp s) = bitmap_words s \<and>
     bitmap_words s \<le> 524288 \<and> used_pages s = sum_list (map popcount (bmp s))"

definition pmm_inv :: "pmm \<Rightarrow> bool" where
  "pmm_inv s \<longleftrightarrow> pmm_wf s \<and> bitmap_words s = (total_pages s + 63) div 64 \<and>
     total_pages s \<le> MAX_PAGES \<and>
     list_all (\<lambda>p. \<not> page_used s p) [total_pages s..<64 * bitmap_words s]"

subsection \<open>Frame rules\<close>

lemma set_word_simps [simp]:
  "allocation_count (set_word w v s) = allocation_count s"
  "free_count (set_word w v s) = free_count s"
  "huge_pages_allocated (set_word w v s) = huge_pages_allocated s"
  "bitmap_words (set_word w v s) = bitmap_words s"
  "total_pages (set_word w v s) = total_pages s"
  "used_pages (set_word w v s) = used_pages s"
  "next_free_hint (set_word w v s) = next_free_hint s"
  "low_memory_watermark (set_word w v s) = low_memory_watermark s"
  "allocation_failures (set_word w v s) = allocation_failures s"
  "(page_bitmap (set_word w v s) = None) = (page_bitmap s = None)"
  by (simp_all add: set_word_def)

lemma bmp_set_word [simp]: "bmp (set_word w v s) = (bmp s)[w := v]"
  by (simp add: bmp_def set_word_def split: option.split)

lemma bmp_updates [simp]:
  "bmp (s\<lparr>allocation_count := x1\<rparr>) = bmp s"
  "bmp (s\<lparr>free_count := x2\<rparr>) = bmp s"
  "bmp (s\<lparr>huge_pages_allocated := x3\<rparr>) = bmp s"
  "bmp (s\<lparr>used_pages := x4\<rparr>) = bmp s"
  "bmp (s\<lparr>next_free_hint := x5\<rparr>) = bmp s"
  "bmp (s\<lparr>low_memory_watermark := x6\<rparr>) = bmp s"
  "bmp (s\<lparr>allocation_failures := x7\<rparr>) = bmp s"
  by (simp_all add: bmp_def)

lemma page_used_updates [simp]:
  "page_used (s\<lparr>allocation_count := x1\<rparr>) = page_used s"
  "page_used (s\<lparr>free_count := x2\<rparr>) = page_used s"
  "page_used (s\<lparr>huge_pages_allocated := x3\<rparr>) = page_used s"
  "page_used (s\<lparr>used_pages := x4\<rparr>) = page_used s"
  "page_used (s\<lparr>next_free_hint := x5\<rparr>) = page_used s"
  "page_used (s\<lparr>low_memory_watermark := x6\<rparr>) = page_used s"
  "page_used (s\<lparr>allocation_failures := x7\<rparr>) = page_used s"
  by (simp_all add: page_used_def fun_eq_iff)

lemma pmm_wf_updates [simp]:
  "pmm_wf (s\<lparr>allocation_count := x1\<rparr>) = pmm_wf s"
  "pmm_wf (s\<lparr>free_count := x2\<rparr>) = pmm_wf s"
  "pmm_wf (s\<lparr>huge_pages_allocated := x3\<rparr>) = pmm_wf s"
  "pmm_wf (s\<lparr>next_free_hint := x5\<rparr>) = pmm_wf s"
  "pmm_wf (s\<lparr>low_memory_watermark := x6\<rparr>) = pmm_wf s"
  "pmm_wf (s\<lparr>allocation_failures := x7\<rparr>) = pmm_wf s"
  by (simp_all add: pmm_wf_def)

lemma pmm_inv_updates [simp]:
  "pmm_inv (s\<lparr>allocation_count := x1\<rparr>) = pmm_inv s"
  "pmm_inv (s\<lparr>free_count := x2\<rparr>) = pmm_inv s"
  "pmm_inv (s\<lparr>huge_pages_allocated := x3\<rparr>) = pmm_inv s"
  "pmm_inv (s\<lparr>next_free_hint := x5\<rparr>) = pmm_inv s"
  "pmm_inv (s\<lparr>low_memory_watermark := x6\<rparr>) = pmm_inv s"
  "pmm_inv (s\<lparr>allocation_failures := x7\<rparr>) = pmm_inv s"
  by (simp_all add: pmm_inv_def)

subsection \<open>Word steps\<close>

lemma sum_popcount_le: "sum_list (map popcount (b :: u64 list)) \<le> 64 * length b"
proof (induction b)
  case (Cons w b)
  have "popcount w \<le> 64" using popcount_le [of w] by simp
  with Cons show ?case by simp
qed simp

lemma pmm_wf_used_le: "pmm_wf s \<Longrightarrow> used_pages s \<le> 33554432"
  using sum_popcount_le [of "bmp s"] by (simp add: pmm_wf_def)

lemma wf_index: "pmm_wf s \<Longrightarrow> p < 64 * bitmap_words s \<Longrightarrow> p div 64 < length (bmp s)"
  by (simp add: pmm_wf_def less_mult_imp_div_less mult.commute)

lemma or_word_simps [simp]:
  "total_pages (or_word w m s) = total_pages s"
  "bitmap_words (or_word w m s) = bitmap_words s"
  "next_free_hint (or_word w m s) = next_free_hint s"
  "bmp (or_word w m s) = (bmp s)[w := bmp s ! w OR m]"
  by (simp_all add: or_word_def Let_def)

lemma andnot_word_simps [simp]:
  "total_pages (andnot_word w m s) = total_pages s"
  "bitmap_words (andnot_word w m s) = bitmap_words s"
  "next_free_hint (andnot_word w m s) = next_free_hint s"
  "bmp (andnot_word w m s) = (bmp s)[w := bmp s ! w AND NOT m]"
  by (simp_all add: andnot_word_def Let_def)

lemma or_word_wf:
  assumes wf: "pmm_wf s" and w: "w < bitmap_words s"
  shows "pmm_wf (or_word w m s)"
proof -
  let ?b = "bmp s ! w" and ?a = "bmp s ! w OR m"
  have ge: "popcount ?b \<le> popcount ?a" by (rule popcount_or_ge)
  have le: "popcount ?a \<le> 64" using popcount_le [of ?a] by simp
  have "sub64 (popcount ?a) (popcount ?b) = popcount ?a - popcount ?b"
    using ge le by (intro sub64_id) auto
  moreover have "sum_list (map popcount ((bmp s)[w := ?a])) + popcount ?b =
      used_pages s + popcount ?a"
    using wf w sum_list_map_update [of w "bmp s" popcount ?a] by (simp add: pmm_wf_def)
  moreover have "used_pages s + 64 < 18446744073709551616"
    using pmm_wf_used_le [OF wf] by simp
  ultimately show ?thesis
    using wf ge le by (auto simp: pmm_wf_def or_word_def Let_def wrap64_id)
qed

lemma andnot_word_wf:
  assumes wf: "pmm_wf s" and w: "w < bitmap_words s"
  shows "pmm_wf (andnot_word w m s)"
proof -
  let ?b = "bmp s ! w" and ?a = "bmp s ! w AND NOT m"
  have ge: "popcount ?a \<le> popcount ?b" by (rule popcount_and_le)
  have le: "popcount ?b \<le> 64" using popcount_le [of ?b] by simp
  have d: "sub64 (popcount ?b) (popcount ?a) = popcount ?b - popcount ?a"
    using ge le by (intro sub64_id) auto
  have s: "sum_list (map popcount ((bmp s)[w := ?a])) + popcount ?b =
      used_pages s + popcount ?a"
    using wf w sum_list_map_update [of w "bmp s" popcount ?a] by (simp add: pmm_wf_def)
  then have "popcount ?b - popcount ?a \<le> used_pages s" by linarith
  then have "sub64 (used_pages s) (popcount ?b - popcount ?a)
      = used_pages s - (popcount ?b - popcount ?a)"
    using pmm_wf_used_le [OF wf] by (intro sub64_id) auto
  with s d show ?thesis
    using wf ge by (auto simp: pmm_wf_def andnot_word_def Let_def)
qed

lemma page_used_or_word:
  assumes "pmm_wf s" and "p < 64 * bitmap_words s"
  shows "page_used (or_word w m s) p \<longleftrightarrow> page_used s p \<or> (p div 64 = w \<and> bit m (p mod 64))"
  using wf_index [OF assms]
  by (cases "w = p div 64") (auto simp: page_used_def bit_or_iff)

lemma page_used_andnot_word:
  assumes "pmm_wf s" and "p < 64 * bitmap_words s"
  shows "page_used (andnot_word w m s) p \<longleftrightarrow> page_used s p \<and> \<not> (p div 64 = w \<and> bit m (p mod 64))"
  using wf_index [OF assms]
  by (cases "w = p div 64") (auto simp: page_used_def bit_and_iff bit_not_iff)

subsection \<open>Every bitmap update is a word step\<close>

lemma popcount_full [simp]: "popcount (- 1 :: u64) = 64"
proof -
  have "{i. i < 64 \<and> bit (- 1 :: u64) i} = {0..<64}" by auto
  then show ?thesis by (simp add: popcount_card)
qed

lemma set_word_same: "w < length (bmp s) \<Longrightarrow> set_word w (bmp s ! w) s = s"
  by (cases s) (auto simp: set_word_def bmp_def split: option.splits)

lemma pmm_wf_small: "pmm_wf s \<Longrightarrow> used_pages s < 18446744073709551616"
  using pmm_wf_used_le [of s] by simp

lemma pmm_wf_length: "pmm_wf s \<Longrightarrow> length (bmp s) = bitmap_words s"
  by (simp add: pmm_wf_def)

lemma or_word_absorb:
  assumes "pmm_wf s" and "w < bitmap_words s" and "bmp s ! w OR m = bmp s ! w"
  shows "or_word w m s = s"
proof -
  have "sub64 (popcount (bmp s ! w)) (popcount (bmp s ! w)) = 0"
    using popcount_le [of "bmp s ! w"] by (simp add: sub64_id)
  then show ?thesis
    using assms pmm_wf_small [OF assms(1)] pmm_wf_length [OF assms(1)]
    by (simp add: or_word_def Let_def wrap64_id set_word_same)
qed

lemma andnot_word_absorb:
  assumes "pmm_wf s" and "w < bitmap_words s" and "bmp s ! w AND NOT m = bmp s ! w"
  shows "andnot_word w m s = s"
proof -
  have "sub64 (popcount (bmp s ! w)) (popcount (bmp s ! w)) = 0"
    using popcount_le [of "bmp s ! w"] by (simp add: sub64_id)
  then show ?thesis
    using assms pmm_wf_small [OF assms(1)] pmm_wf_length [OF assms(1)]
    by (simp add: andnot_word_def Let_def sub64_id set_word_same)
qed

lemma fill_word_eq:
  assumes "pmm_wf s" and "w < bitmap_words s"
  shows "fill_word w s = or_word w (NOT 0) s"
proof (cases "bmp s ! w = NOT 0")
  case True
  then show ?thesis using or_word_absorb [OF assms, of "NOT 0"] by (simp add: fill_word_def)
next
  case False
  then show ?thesis by (simp add: fill_word_def or_word_def Let_def)
qed

lemma clear_word_eq:
  assumes "pmm_wf s" and "w < bitmap_words s"
  shows "clear_word w s = andnot_word w (NOT 0) s"
proof (cases "bmp s ! w = 0")
  case True
  then show ?thesis using andnot_word_absorb [OF assms, of "NOT 0"] by (simp add: clear_word_def)
next
  case False
  have "sub64 (popcount (bmp s ! w)) 0 = popcount (bmp s ! w)"
    using popcount_le [of "bmp s ! w"] by (simp add: sub64_id)
  with False show ?thesis by (simp add: clear_word_def andnot_word_def Let_def)
qed

lemma popcount_single: "b < 64 \<Longrightarrow> popcount (2 ^ b :: u64) = 1"
proof -
  assume "b < 64"
  then have "{i. i < 64 \<and> bit (2 ^ b :: u64) i} = {b}" by (auto simp: bit_exp_iff)
  then show ?thesis by (simp add: popcount_card)
qed

lemma page_mask_iff [simp]: "bmp s ! (p div 64) AND 2 ^ (p mod 64) = 0 \<longleftrightarrow> \<not> page_used s p"
  by (simp add: page_used_def and_single_mask_eq_0)

lemma or_bit_set: "bit (w :: u64) b \<Longrightarrow> w OR 2 ^ b = w"
  by (intro bit_word_eqI) (auto simp: bit_or_iff bit_exp_iff)

lemma andnot_bit_clear: "\<not> bit (w :: u64) b \<Longrightarrow> w AND NOT (2 ^ b) = w"
  by (intro bit_word_eqI) (auto simp: bit_and_iff bit_not_iff bit_exp_iff)

lemma MarkPageUsed_eq:
  assumes wf: "pmm_wf s" and p: "p < total_pages s" "p div 64 < bitmap_words s"
  shows "MarkPageUsed p s = or_word (p div 64) (2 ^ (p mod 64)) s"
proof (cases "page_used s p")
  case True
  then have "or_word (p div 64) (2 ^ (p mod 64)) s = s"
    using wf p by (intro or_word_absorb) (auto simp: page_used_def intro: or_bit_set)
  with True wf p show ?thesis by (simp add: MarkPageUsed_def Let_def)
next
  case False
  then have c: "popcount (bmp s ! (p div 64) OR 2 ^ (p mod 64)) = popcount (bmp s ! (p div 64)) + 1"
    using popcount_single [of "p mod 64"] by (subst popcount_or_disjoint) simp_all
  have "sub64 (popcount (bmp s ! (p div 64)) + 1) (popcount (bmp s ! (p div 64))) = 1"
    using popcount_le [of "bmp s ! (p div 64)"] by (simp add: sub64_id)
  with False c wf p show ?thesis
    by (auto simp: MarkPageUsed_def or_word_def Let_def pmm_wf_def set_word_def)
qed

lemma MarkPageFree_eq:
  assumes wf: "pmm_wf s" and p: "p < total_pages s" "p div 64 < bitmap_words s"
  shows "MarkPageFree p s = andnot_word (p div 64) (2 ^ (p mod 64)) s"
proof (cases "page_used s p")
  case False
  then have "andnot_word (p div 64) (2 ^ (p mod 64)) s = s"
    using wf p by (intro andnot_word_absorb) (auto simp: page_used_def intro: andnot_bit_clear)
  with False wf p show ?thesis by (simp add: MarkPageFree_def Let_def)
next
  case True
  let ?w = "bmp s ! (p div 64)"
  have "?w = (?w AND NOT (2 ^ (p mod 64))) OR 2 ^ (p mod 64)"
    using True by (intro bit_word_eqI)
      (auto simp: page_used_def bit_or_iff bit_and_iff bit_not_iff bit_exp_iff)
  moreover have "(?w AND NOT (2 ^ (p mod 64))) AND 2 ^ (p mod 64) = 0"
    by (simp add: and_single_mask_eq_0 bit_and_iff bit_not_iff bit_exp_iff)
  ultimately have c: "popcount ?w = popcount (?w AND NOT (2 ^ (p mod 64))) + 1"
    using popcount_single [of "p mod 64"] popcount_or_disjoint by (metis mod_less_divisor zero_less_numeral)
  have "sub64 (popcount ?w) (popcount (?w AND NOT (2 ^ (p mod 64)))) = 1"
    using popcount_le [of ?w] c by (simp add: sub64_id)
  with True c wf p show ?thesis
    by (auto simp: MarkPageFree_def andnot_word_def Let_def pmm_wf_def set_word_def)
qed

subsection \<open>Single pages\<close>

lemma pmm_inv_wf: "pmm_inv s \<Longrightarrow> pmm_wf s"
  by (simp add: pmm_inv_def)

lemma inv_page_word: "pmm_inv s \<Longrightarrow> p < total_pages s \<Longrightarrow> p < 64 * bitmap_words s"
  by (simp add: pmm_inv_def)

lemma inv_page_word_div: "pmm_inv s \<Longrightarrow> p < total_pages s \<Longrightarrow> p div 64 < bitmap_words s"
  by (simp add: pmm_inv_def)

lemma pmm_inv_tail:
  "pmm_inv s \<Longrightarrow> total_pages s \<le> p \<Longrightarrow> p < 64 * bitmap_words s \<Longrightarrow> \<not> page_used s p"
  by (auto simp: pmm_inv_def list_all_iff)

lemma pmm_invI:
  assumes "pmm_inv s" and "pmm_wf s'" and "total_pages s' = total_pages s"
    and "bitmap_words s' = bitmap_words s"
    and "\<And>p. total_pages s \<le> p \<Longrightarrow> p < 64 * bitmap_words s \<Longrightarrow> \<not> page_used s' p"
  shows "pmm_inv s'"
  using assms by (auto simp: pmm_inv_def list_all_iff)

lemma MarkPageUsed_out: "total_pages s \<le> p \<Longrightarrow> MarkPageUsed p s = s"
  by (simp add: MarkPageUsed_def)

lemma MarkPageUsed_frame [simp]:
  "total_pages (MarkPageUsed p s) = total_pages s"
  "bitmap_words (MarkPageUsed p s) = bitmap_words s"
  "next_free_hint (MarkPageUsed p s) = next_free_hint s"
  "allocation_count (MarkPageUsed p s) = allocation_count s"
  by (simp_all add: MarkPageUsed_def Let_def)

lemma MarkPageFree_frame [simp]:
  "total_pages (MarkPageFree p s) = total_pages s"
  "bitmap_words (MarkPageFree p s) = bitmap_words s"
  "next_free_hint (MarkPageFree p s) = next_free_hint s"
  "free_count (MarkPageFree p s) = free_count s"
  by (simp_all add: MarkPageFree_def Let_def)

lemma div_mod_64_eq: "q div 64 = p div 64 \<and> q mod 64 = p mod 64 \<longleftrightarrow> q = (p :: nat)"
  by (metis div_mult_mod_eq)

lemma page_used_MarkPageUsed:
  assumes inv: "pmm_inv s" and p: "p < total_pages s" and q: "q < 64 * bitmap_words s"
  shows "page_used (MarkPageUsed p s) q \<longleftrightarrow> q = p \<or> page_used s q"
proof -
  have "bit (2 ^ (p mod 64) :: u64) (q mod 64) \<longleftrightarrow> q mod 64 = p mod 64"
    by (auto simp: bit_exp_iff)
  then show ?thesis
    using page_used_or_word [OF pmm_inv_wf [OF inv] q, of "p div 64" "2 ^ (p mod 64)"]
      MarkPageUsed_eq [OF pmm_inv_wf [OF inv] p inv_page_word_div [OF inv p]] div_mod_64_eq [of q p]
    by auto
qed

lemma page_used_MarkPageFree:
  assumes inv: "pmm_inv s" and p: "p < total_pages s" and q: "q < 64 * bitmap_words s"
  shows "page_used (MarkPageFree p s) q \<longleftrightarrow> q \<noteq> p \<and> page_used s q"
proof -
  have "bit (2 ^ (p mod 64) :: u64) (q mod 64) \<longleftrightarrow> q mod 64 = p mod 64"
    by (auto simp: bit_exp_iff)
  then show ?thesis
    using page_used_andnot_word [OF pmm_inv_wf [OF inv] q, of "p div 64" "2 ^ (p mod 64)"]
      MarkPageFree_eq [OF pmm_inv_wf [OF inv] p inv_page_word_div [OF inv p]] div_mod_64_eq [of q p]
    by auto
qed

lemma MarkPageUsed_inv [intro]:
  assumes inv: "pmm_inv s"
  shows "pmm_inv (MarkPageUsed p s)"
proof (cases "p < total_pages s")
  case True
  have "pmm_wf (MarkPageUsed p s)"
    using MarkPageUsed_eq [OF pmm_inv_wf [OF inv] True inv_page_word_div [OF inv True]]
      or_word_wf [OF pmm_inv_wf [OF inv] inv_page_word_div [OF inv True]] by simp
  then show ?thesis
    using True page_used_MarkPageUsed [OF inv True] pmm_inv_tail [OF inv]
    by (intro pmm_invI [OF inv]) auto
next
  case False
  with inv show ?thesis by (simp add: MarkPageUsed_out)
qed

lemma MarkPageFree_inv [intro]:
  assumes inv: "pmm_inv s" and p: "p < total_pages s"
  shows "pmm_inv (MarkPageFree p s)"
proof -
  have "pmm_wf (MarkPageFree p s)"
    using MarkPageFree_eq [OF pmm_inv_wf [OF inv] p inv_page_word_div [OF inv p]]
      andnot_word_wf [OF pmm_inv_wf [OF inv] inv_page_word_div [OF inv p]] by simp
  then show ?thesis
    using page_used_MarkPageFree [OF inv p] pmm_inv_tail [OF inv]
    by (intro pmm_invI [OF inv]) auto
qed

lemma used_set_MarkPageUsed:
  "pmm_inv s \<Longrightarrow> p < total_pages s \<Longrightarrow> used_set (MarkPageUsed p s) = insert p (used_set s)"
  using page_used_MarkPageUsed inv_page_word by (auto simp: used_set_def)

lemma used_set_MarkPageFree:
  "pmm_inv s \<Longrightarrow> p < total_pages s \<Longrightarrow> used_set (MarkPageFree p s) = used_set s - {p}"
  using page_used_MarkPageFree inv_page_word by (auto simp: used_set_def)

lemma used_set_updates [simp]:
  "used_set (s\<lparr>allocation_count := x1\<rparr>) = used_set s"
  "used_set (s\<lparr>free_count := x2\<rparr>) = used_set s"
  "used_set (s\<lparr>huge_pages_allocated := x3\<rparr>) = used_set s"
  "used_set (s\<lparr>next_free_hint := x5\<rparr>) = used_set s"
  "used_set (s\<lparr>low_memory_watermark := x6\<rparr>) = used_set s"
  "used_set (s\<lparr>allocation_failures := x7\<rparr>) = used_set s"
  by (simp_all add: used_set_def)

lemma IsPageFree_iff:
  assumes inv: "pmm_inv s"
  shows "IsPageFree p s \<longleftrightarrow> p < total_pages s \<and> p \<notin> used_set s"
  using inv_page_word_div [OF inv, of p] pmm_inv_wf [OF inv]
  by (auto simp: IsPageFree_def Let_def used_set_def pmm_wf_def)

subsection \<open>The counter counts the used pages\<close>

lemma word_of_page:
  "p < 64 * n \<Longrightarrow> p div 64 < n"
  "64 * n \<le> p \<Longrightarrow> p < 64 * n + 64 \<Longrightarrow> p div 64 = n \<and> p mod 64 = p - 64 * n"
  for p n :: nat
proof -
  assume "64 * n \<le> p" "p < 64 * n + 64"
  then have "p div 64 = n" by (intro div_nat_eqI) auto
  then show "p div 64 = n \<and> p mod 64 = p - 64 * n"
    using minus_mult_div_eq_mod [of p 64] by simp
qed (simp add: less_mult_imp_div_less mult.commute)

lemma bitmap_pages_snoc:
  "{p. p < 64 * length (b @ [w]) \<and> bit ((b @ [w]) ! (p div 64)) (p mod 64)} =
   {p. p < 64 * length b \<and> bit (b ! (p div 64)) (p mod 64)} \<union>
   (\<lambda>i. 64 * length b + i) ` {i. i < 64 \<and> bit w i}"
  for b :: "u64 list"
proof (intro set_eqI)
  fix p
  show "p \<in> {p. p < 64 * length (b @ [w]) \<and> bit ((b @ [w]) ! (p div 64)) (p mod 64)} \<longleftrightarrow>
        p \<in> {p. p < 64 * length b \<and> bit (b ! (p div 64)) (p mod 64)} \<union>
          (\<lambda>i. 64 * length b + i) ` {i. i < 64 \<and> bit w i}"
  proof (cases "p < 64 * length b")
    case True
    then show ?thesis using word_of_page(1) [of p "length b"] by (auto simp: nth_append)
  next
    case False
    then have "p = 64 * length b + (p - 64 * length b)" by simp
    then have "p \<in> (\<lambda>i. 64 * length b + i) ` {i. i < 64 \<and> bit w i} \<longleftrightarrow>
        p - 64 * length b < 64 \<and> bit w (p - 64 * length b)"
      by (auto simp: image_iff)
    with False word_of_page(2) [of "length b" p] show ?thesis by (auto simp: nth_append)
  qed
qed

lemma sum_popcount_card:
  "sum_list (map popcount (b :: u64 list)) =
     card {p. p < 64 * length b \<and> bit (b ! (p div 64)) (p mod 64)}"
proof (induction b rule: rev_induct)
  case Nil
  then show ?case by simp
next
  case (snoc w b)
  let ?S = "{p. p < 64 * length b \<and> bit (b ! (p div 64)) (p mod 64)}"
  let ?T = "(\<lambda>i. 64 * length b + i) ` {i. i < 64 \<and> bit w i}"
  have "card (?S \<union> ?T) = card ?S + card ?T" by (rule card_Un_disjoint) auto
  moreover have "card ?T = popcount w" by (simp add: popcount_card card_image)
  ultimately show ?case
    using snoc by (subst bitmap_pages_snoc) simp
qed

lemma used_pages_card:
  assumes inv: "pmm_inv s"
  shows "used_pages s = card (used_set s)"
proof -
  have "used_pages s = card {p. p < 64 * bitmap_words s \<and> page_used s p}"
    using pmm_inv_wf [OF inv] by (simp add: pmm_wf_def sum_popcount_card page_used_def)
  also have "{p. p < 64 * bitmap_words s \<and> page_used s p} = used_set s"
    using pmm_inv_tail [OF inv] inv_page_word [OF inv]
    by (auto simp: used_set_def intro: ccontr)
  finally show ?thesis .
qed

subsection \<open>The search of AllocPage\<close>

text \<open>The page that \<open>FindFirstFreeBit\<close> points at is free, and every page before it in its word is used.\<close>

lemma FindFirstFreeBit_page:
  assumes "word \<noteq> NOT 0"
  shows "0 \<le> FindFirstFreeBit word" and "nat (FindFirstFreeBit word) < 64"
    and "\<not> bit word (nat (FindFirstFreeBit word))"
    and "i < nat (FindFirstFreeBit word) \<Longrightarrow> bit word i"
proof -
  have nz: "NOT word \<noteq> 0" using assms by (metis bit.double_compl)
  show "0 \<le> FindFirstFreeBit word" using assms by (simp add: FindFirstFreeBit_def)
  show lt: "nat (FindFirstFreeBit word) < 64"
    using assms ctz_less [OF nz] by (simp add: FindFirstFreeBit_def)
  show "\<not> bit word (nat (FindFirstFreeBit word))"
    using assms bit_ctz [OF nz] by (simp add: FindFirstFreeBit_def bit_not_iff)
  show "bit word i" if "i < nat (FindFirstFreeBit word)"
    using that assms bit_below_ctz [of i "NOT word"] lt
    by (simp add: FindFirstFreeBit_def bit_not_iff)
qed

text \<open>
  The first loop on words above low memory: it finds the first free page of the words it visits,
  or there is none below \<open>total_pages\<close>.
\<close>

lemma scan_up_found:
  assumes "scan_up ws s = (Some p, s')" and "\<forall>w \<in> set ws. LOWMEM_PAGES div 64 \<le> w"
  shows "s' = s \<and> p < total_pages s \<and> LOWMEM_PAGES \<le> p \<and> \<not> page_used s p \<and> p div 64 \<in> set ws"
  using assms
proof (induction ws s rule: scan_up.induct)
  case (1 s)
  then show ?case by simp
next
  case (2 w ws s)
  show ?case
  proof (cases "bmp s ! w = NOT 0")
    case True
    with 2 show ?thesis by (auto simp: Let_def)
  next
    case False
    let ?p = "w * 64 + nat (FindFirstFreeBit (bmp s ! w))"
    note ff = FindFirstFreeBit_page [OF False]
    have "?p div 64 = w" "?p mod 64 = nat (FindFirstFreeBit (bmp s ! w))" using ff(2) by simp_all
    then have "\<not> page_used s ?p" using ff(3) by (simp add: page_used_def)
    moreover have "LOWMEM_PAGES \<le> ?p" using "2.prems"(2) by simp
    ultimately show ?thesis
      using False ff(1) "2.prems" \<open>?p div 64 = w\<close> by (auto simp: Let_def split: if_splits)
  qed
qed

lemma scan_up_none:
  assumes "scan_up ws s = (None, s')" and "\<forall>w \<in> set ws. LOWMEM_PAGES div 64 \<le> w" and "sorted ws"
  shows "s' = s \<and> (\<forall>p. p < total_pages s \<longrightarrow> p div 64 \<in> set ws \<longrightarrow> page_used s p)"
  using assms
proof (induction ws s rule: scan_up.induct)
  case (1 s)
  then show ?case by simp
next
  case (2 w ws s)
  show ?case
  proof (cases "bmp s ! w = NOT 0")
    case True
    then have "page_used s p" if "p div 64 = w" for p
      using that by (simp add: page_used_def)
    with True 2 show ?thesis by (auto simp: Let_def)
  next
    case False
    let ?b = "nat (FindFirstFreeBit (bmp s ! w))"
    note ff = FindFirstFreeBit_page [OF False]
    have low: "LOWMEM_PAGES \<le> w * 64 + ?b" using "2.prems"(2) by simp
    with False ff(1) "2.prems"(1) have past: "total_pages s \<le> w * 64 + ?b" and "s' = s"
      by (auto simp: Let_def split: if_splits)
    moreover have "page_used s p" if "p < total_pages s" "p div 64 \<in> set (w # ws)" for p
    proof -
      have "w \<le> p div 64" using that(2) "2.prems"(3) by auto
      moreover have "p < w * 64 + 64" using that(1) past ff(2) by linarith
      then have "p div 64 < Suc w" by (intro less_mult_imp_div_less) simp
      ultimately have "p div 64 = w" by simp
      moreover from this have "p mod 64 < ?b"
        using that(1) past div_mult_mod_eq [of p 64] by simp
      ultimately show ?thesis using ff(4) by (simp add: page_used_def)
    qed
    ultimately show ?thesis by blast
  qed
qed

lemma scan_wrap_found:
  assumes "scan_wrap ws s = Some p" and "\<forall>w \<in> set ws. LOWMEM_PAGES div 64 \<le> w"
  shows "LOWMEM_PAGES \<le> p \<and> \<not> page_used s p \<and> p div 64 \<in> set ws"
  using assms
proof (induction ws s rule: scan_wrap.induct)
  case (1 s)
  then show ?case by simp
next
  case (2 w ws s)
  show ?case
  proof (cases "bmp s ! w = NOT 0")
    case True
    with 2 show ?thesis by (auto simp: Let_def)
  next
    case False
    let ?p = "w * 64 + nat (FindFirstFreeBit (bmp s ! w))"
    note ff = FindFirstFreeBit_page [OF False]
    have "?p div 64 = w" "?p mod 64 = nat (FindFirstFreeBit (bmp s ! w))" using ff(2) by simp_all
    then have "\<not> page_used s ?p" using ff(3) by (simp add: page_used_def)
    moreover have "LOWMEM_PAGES \<le> ?p" using "2.prems"(2) by simp
    ultimately show ?thesis
      using False ff(1) "2.prems" \<open>?p div 64 = w\<close> by (auto simp: Let_def split: if_splits)
  qed
qed

lemma scan_wrap_none:
  assumes "scan_wrap ws s = None" and "\<forall>w \<in> set ws. LOWMEM_PAGES div 64 \<le> w" and "p div 64 \<in> set ws"
  shows "page_used s p"
  using assms
proof (induction ws s rule: scan_wrap.induct)
  case (1 s)
  then show ?case by simp
next
  case (2 w ws s)
  show ?case
  proof (cases "bmp s ! w = NOT 0")
    case True
    then have "page_used s q" if "q div 64 = w" for q
      using that by (simp add: page_used_def)
    with True 2 show ?thesis by (auto simp: Let_def)
  next
    case False
    note ff = FindFirstFreeBit_page [OF False]
    have "LOWMEM_PAGES \<le> w * 64 + nat (FindFirstFreeBit (bmp s ! w))" using "2.prems"(2) by simp
    with False ff(1) "2.prems"(1) show ?thesis by (auto simp: Let_def split: if_splits)
  qed
qed

text \<open>The state in which \<open>AllocPage\<close> starts its search, and the search as one function.\<close>

definition search_state :: "pmm \<Rightarrow> pmm" where
  "search_state s =
     (let s1 = (if wrap64 (total_pages s * 9) div 10 < used_pages s \<and> low_memory_watermark s = 0
                then s\<lparr>low_memory_watermark := used_pages s\<rparr> else s);
          s2 = (if next_free_hint s1 < LOWMEM_PAGES
                then s1\<lparr>next_free_hint := LOWMEM_PAGES\<rparr> else s1)
      in if total_pages s2 \<le> next_free_hint s2
         then s2\<lparr>next_free_hint := LOWMEM_PAGES\<rparr> else s2)"

definition find_page :: "pmm \<Rightarrow> nat option" where
  "find_page s =
     (let start_word = next_free_hint s div 64 in
      case scan_up [start_word..<bitmap_words s] s of
        (Some p, _) \<Rightarrow> Some p
      | (None, _) \<Rightarrow> scan_wrap [LOWMEM_PAGES div 64..<start_word] s)"

lemma search_state_frame [simp]:
  "total_pages (search_state s) = total_pages s"
  "bitmap_words (search_state s) = bitmap_words s"
  "used_pages (search_state s) = used_pages s"
  "allocation_count (search_state s) = allocation_count s"
  "page_used (search_state s) = page_used s"
  "used_set (search_state s) = used_set s"
  "pmm_inv (search_state s) = pmm_inv s"
  "LOWMEM_PAGES \<le> next_free_hint (search_state s)"
  by (simp_all add: search_state_def Let_def)

lemma search_state_hint:
  "next_free_hint (search_state s) < total_pages s \<or> next_free_hint (search_state s) = LOWMEM_PAGES"
  by (auto simp: search_state_def Let_def)

lemma find_page_Some:
  assumes hint: "LOWMEM_PAGES \<le> next_free_hint s"
      "next_free_hint s < total_pages s \<or> next_free_hint s = LOWMEM_PAGES"
    and found: "find_page s = Some p"
  shows "LOWMEM_PAGES \<le> p \<and> p < total_pages s \<and> p \<notin> used_set s"
proof (cases "scan_up [next_free_hint s div 64..<bitmap_words s] s")
  case (Pair r s')
  have low: "LOWMEM_PAGES div 64 \<le> next_free_hint s div 64" using hint(1) by (rule div_le_mono)
  show ?thesis
  proof (cases r)
    case (Some q)
    with Pair found have "scan_up [next_free_hint s div 64..<bitmap_words s] s = (Some p, s')"
      by (simp add: find_page_def)
    from scan_up_found [OF this] low show ?thesis by (auto simp: used_set_def)
  next
    case None
    with Pair found have w: "scan_wrap [LOWMEM_PAGES div 64..<next_free_hint s div 64] s = Some p"
      by (simp add: find_page_def)
    from scan_wrap_found [OF w] have p: "LOWMEM_PAGES \<le> p" "\<not> page_used s p"
      "p div 64 < next_free_hint s div 64" "4 \<le> p div 64" by auto
    have "p < next_free_hint s" using p(3) by (metis div_le_mono linorder_not_less)
    moreover have "next_free_hint s < total_pages s" using p(3,4) hint(2) by auto
    ultimately have "p < total_pages s" by simp
    with p show ?thesis by (simp add: used_set_def)
  qed
qed

lemma find_page_None:
  assumes inv: "pmm_inv s" and hint: "LOWMEM_PAGES \<le> next_free_hint s"
    and none: "find_page s = None" and p: "LOWMEM_PAGES \<le> p" "p < total_pages s"
  shows "p \<in> used_set s"
proof -
  have low: "LOWMEM_PAGES div 64 \<le> next_free_hint s div 64" "LOWMEM_PAGES div 64 \<le> p div 64"
    using hint p(1) by (auto intro: div_le_mono)
  obtain s' where up: "scan_up [next_free_hint s div 64..<bitmap_words s] s = (None, s')"
    and wrap: "scan_wrap [LOWMEM_PAGES div 64..<next_free_hint s div 64] s = None"
    using none by (auto simp: find_page_def Let_def split: prod.splits option.splits)
  have "p div 64 < bitmap_words s" using inv_page_word_div [OF inv p(2)] .
  then consider "p div 64 \<in> set [next_free_hint s div 64..<bitmap_words s]"
    | "p div 64 \<in> set [LOWMEM_PAGES div 64..<next_free_hint s div 64]"
    using low(2) by fastforce
  then have "page_used s p"
  proof cases
    case 1
    with scan_up_none [OF up] low(1) p(2) show ?thesis by auto
  next
    case 2
    with scan_wrap_none [OF wrap] show ?thesis by auto
  qed
  with p(2) show ?thesis by (simp add: used_set_def)
qed

lemma AllocPage_unfold:
  assumes inv: "pmm_inv s"
  shows "AllocPage s =
     (if sub64 (total_pages s) 1 \<le> used_pages s
      then (None, s\<lparr>allocation_failures := allocation_failures s + 1\<rparr>)
      else case find_page (search_state s) of
        Some p \<Rightarrow> claim_page p (search_state s)
      | None \<Rightarrow> (None, (search_state s)\<lparr>allocation_failures := allocation_failures (search_state s) + 1\<rparr>))"
proof -
  let ?t = "search_state s"
  have low: "\<forall>w \<in> set [next_free_hint ?t div 64..<bitmap_words ?t]. LOWMEM_PAGES div 64 \<le> w"
    using div_le_mono [OF search_state_frame(8), of 64 s] by auto
  obtain r s' where up: "scan_up [next_free_hint ?t div 64..<bitmap_words ?t] ?t = (r, s')"
    by fastforce
  have s': "s' = ?t"
    using scan_up_found [of _ ?t] scan_up_none [of _ ?t] up low by (cases r) auto
  have pb: "(page_bitmap s = None) = False" using inv by (simp add: pmm_inv_def pmm_wf_def)
  have "AllocPage s =
     (if sub64 (total_pages s) 1 \<le> used_pages s
      then (None, s\<lparr>allocation_failures := allocation_failures s + 1\<rparr>)
      else case scan_up [next_free_hint ?t div 64..<bitmap_words ?t] ?t of
             (Some page_idx, s4) \<Rightarrow> claim_page page_idx s4
           | (None, s4) \<Rightarrow>
               (case scan_wrap [LOWMEM_PAGES div 64..<next_free_hint ?t div 64] s4 of
                  Some page_idx \<Rightarrow> claim_page page_idx s4
                | None \<Rightarrow> (None, s4\<lparr>allocation_failures := allocation_failures s4 + 1\<rparr>)))"
    by (simp only: AllocPage_def search_state_def Let_def pb if_False)
  then show ?thesis
    unfolding find_page_def Let_def up s' by (cases r) simp_all
qed

lemma claim_page_spec:
  assumes inv: "pmm_inv s" and p: "p < total_pages s"
  shows "fst (claim_page p s) = Some (p * PAGE_SIZE)"
    and "pmm_inv (snd (claim_page p s))"
    and "used_set (snd (claim_page p s)) = insert p (used_set s)"
    and "total_pages (snd (claim_page p s)) = total_pages s"
proof -
  have "p * PAGE_SIZE < 18446744073709551616" using inv p by (simp add: pmm_inv_def)
  then show "fst (claim_page p s) = Some (p * PAGE_SIZE)"
    by (simp add: claim_page_def Let_def wrap64_id)
  show "pmm_inv (snd (claim_page p s))"
    using MarkPageUsed_inv [OF inv] by (simp add: claim_page_def Let_def)
  show "used_set (snd (claim_page p s)) = insert p (used_set s)"
    using used_set_MarkPageUsed [OF inv p] by (simp add: claim_page_def Let_def)
  show "total_pages (snd (claim_page p s)) = total_pages s"
    by (simp add: claim_page_def Let_def)
qed

lemma AllocPage_cases:
  assumes inv: "pmm_inv s"
  obtains (found) p where "AllocPage s = claim_page p (search_state s)"
      and "LOWMEM_PAGES \<le> p" and "p < total_pages s" and "p \<notin> used_set s"
      and "used_pages s + 1 < total_pages s"
  | (full) "fst (AllocPage s) = None" and "pmm_inv (snd (AllocPage s))"
      and "used_set (snd (AllocPage s)) = used_set s"
      and "total_pages (snd (AllocPage s)) = total_pages s"
      and "total_pages s \<le> used_pages s + 1 \<or> {LOWMEM_PAGES..<total_pages s} \<subseteq> used_set s"
proof (cases "sub64 (total_pages s) 1 \<le> used_pages s")
  case True
  have "total_pages s \<le> used_pages s + 1"
  proof (cases "total_pages s = 0")
    case False
    then have "sub64 (total_pages s) 1 = total_pages s - 1"
      using inv by (intro sub64_id) (auto simp: pmm_inv_def)
    with True show ?thesis by simp
  qed simp
  with True inv show ?thesis by (intro full) (simp_all add: AllocPage_unfold)
next
  case False
  show ?thesis
  proof (cases "find_page (search_state s)")
    case (Some p)
    have p: "LOWMEM_PAGES \<le> p \<and> p < total_pages s \<and> p \<notin> used_set s"
      using find_page_Some [OF _ _ Some] search_state_hint [of s] by auto
    then have "sub64 (total_pages s) 1 = total_pages s - 1"
      using inv by (intro sub64_id) (auto simp: pmm_inv_def)
    with False have "used_pages s + 1 < total_pages s" by simp
    with False Some inv p show ?thesis by (intro found [of p]) (auto simp: AllocPage_unfold)
  next
    case None
    have "{LOWMEM_PAGES..<total_pages s} \<subseteq> used_set s"
      using find_page_None [OF _ _ None] inv by auto
    with False None inv show ?thesis by (intro full) (auto simp: AllocPage_unfold)
  qed
qed

subsection \<open>Ranges\<close>

text \<open>The first and last words of a range and what the masks select.\<close>

lemma bit_range_mask [bitops]:
  "e < 64 \<Longrightarrow> bit (range_mask a e) i \<longleftrightarrow> a \<le> i \<and> i \<le> e"
  by (auto simp: range_mask_def bit_simps)

lemma bit_end_mask [bitops]: "e < 64 \<Longrightarrow> bit (drop_bit (63 - e) (NOT 0) :: u64) i \<longleftrightarrow> i \<le> e"
  by (auto simp: bit_simps)

lemma bit_start_mask [bitops]: "bit (push_bit a (NOT 0) :: u64) i \<longleftrightarrow> a \<le> i \<and> i < 64"
  by (auto simp: bit_simps)

lemma word_order:
  fixes A B Q x y z :: nat
  assumes "x < 64" "y < 64" "z < 64"
  shows "64 * A + x \<le> 64 * Q + z \<longleftrightarrow> A < Q \<or> (A = Q \<and> x \<le> z)"
  using assms by linarith

lemma page_le_iff: "a \<le> q \<longleftrightarrow> a div 64 < q div 64 \<or> (a div 64 = q div 64 \<and> a mod 64 \<le> q mod 64)"
  for a q :: nat
  using word_order [of "a mod 64" 0 "q mod 64" "a div 64" "q div 64"] by simp

lemma in_range_words:
  fixes a b q :: nat
  assumes "a div 64 < b div 64"
  shows "(q div 64 = a div 64 \<and> a mod 64 \<le> q mod 64) \<or> (a div 64 < q div 64 \<and> q div 64 < b div 64) \<or>
         (q div 64 = b div 64 \<and> q mod 64 \<le> b mod 64) \<longleftrightarrow> a \<le> q \<and> q \<le> b"
  using assms by (auto simp: page_le_iff [of a q] page_le_iff [of q b])

lemma in_range_same_word:
  fixes a b q :: nat
  assumes "a div 64 = b div 64"
  shows "q div 64 = a div 64 \<and> a mod 64 \<le> q mod 64 \<and> q mod 64 \<le> b mod 64 \<longleftrightarrow> a \<le> q \<and> q \<le> b"
  using assms by (auto simp: page_le_iff [of a q] page_le_iff [of q b])

lemma fold_or_word:
  assumes "pmm_wf s" and "\<forall>w \<in> set ws. w < bitmap_words s"
  shows "pmm_wf (fold fill_word ws s) \<and> bitmap_words (fold fill_word ws s) = bitmap_words s \<and>
         total_pages (fold fill_word ws s) = total_pages s \<and>
         next_free_hint (fold fill_word ws s) = next_free_hint s \<and>
         (\<forall>q < 64 * bitmap_words s.
            page_used (fold fill_word ws s) q \<longleftrightarrow> page_used s q \<or> q div 64 \<in> set ws)"
  using assms
proof (induction ws arbitrary: s)
  case (Cons w ws)
  then have w: "w < bitmap_words s" by simp
  have "pmm_wf (fill_word w s)" using or_word_wf [OF Cons.prems(1) w] fill_word_eq [OF Cons.prems(1) w] by simp
  from Cons.IH [OF this] Cons.prems show ?case
    using page_used_or_word [OF Cons.prems(1)] by (auto simp: fill_word_eq [OF Cons.prems(1) w])
qed simp

lemma fold_andnot_word:
  assumes "pmm_wf s" and "\<forall>w \<in> set ws. w < bitmap_words s"
  shows "pmm_wf (fold clear_word ws s) \<and> bitmap_words (fold clear_word ws s) = bitmap_words s \<and>
         total_pages (fold clear_word ws s) = total_pages s \<and>
         next_free_hint (fold clear_word ws s) = next_free_hint s \<and>
         (\<forall>q < 64 * bitmap_words s.
            page_used (fold clear_word ws s) q \<longleftrightarrow> page_used s q \<and> q div 64 \<notin> set ws)"
  using assms
proof (induction ws arbitrary: s)
  case (Cons w ws)
  then have w: "w < bitmap_words s" by simp
  have "pmm_wf (clear_word w s)" using andnot_word_wf [OF Cons.prems(1) w] clear_word_eq [OF Cons.prems(1) w] by simp
  from Cons.IH [OF this] Cons.prems show ?case
    using page_used_andnot_word [OF Cons.prems(1)] by (auto simp: clear_word_eq [OF Cons.prems(1) w])
qed simp

lemma range_end:
  assumes "pmm_inv s" and "start + n \<le> total_pages s" and "0 < n"
  shows "wrap64 (start + n) = start + n" and "sub64 (wrap64 (start + n)) 1 = start + n - 1"
    and "(start + n - 1) div 64 < bitmap_words s" and "start div 64 \<le> (start + n - 1) div 64"
proof -
  have "start + n < 18446744073709551616" using assms by (simp add: pmm_inv_def)
  then show w: "wrap64 (start + n) = start + n" by (rule wrap64_id)
  show "sub64 (wrap64 (start + n)) 1 = start + n - 1"
    unfolding w using assms(3) \<open>start + n < _\<close> by (intro sub64_id) auto
  show "(start + n - 1) div 64 < bitmap_words s" using assms by (intro inv_page_word_div) auto
  show "start div 64 \<le> (start + n - 1) div 64" using assms(3) by (intro div_le_mono) auto
qed

text \<open>A masked test of a bitmap word, said of pages.\<close>

lemma and_word_pages:
  "bmp s ! w AND m = 0 \<longleftrightarrow> (\<forall>q. q div 64 = w \<and> bit m (q mod 64) \<longrightarrow> \<not> page_used s q)"
proof
  assume "bmp s ! w AND m = 0"
  then show "\<forall>q. q div 64 = w \<and> bit m (q mod 64) \<longrightarrow> \<not> page_used s q"
    by (auto simp: word_and_eq_0_iff page_used_def)
next
  assume a: "\<forall>q. q div 64 = w \<and> bit m (q mod 64) \<longrightarrow> \<not> page_used s q"
  show "bmp s ! w AND m = 0"
    unfolding word_and_eq_0_iff
  proof (intro allI impI)
    fix i assume "i < LENGTH(64)" "bit m i"
    with a [rule_format, of "w * 64 + i"] show "\<not> bit (bmp s ! w) i"
      by (simp add: page_used_def)
  qed
qed

lemma zero_word_pages: "bmp s ! w = 0 \<longleftrightarrow> (\<forall>q. q div 64 = w \<longrightarrow> \<not> page_used s q)"
  using and_word_pages [of s w "NOT 0"] by simp

lemma RangeIsFree_correct:
  assumes inv: "pmm_inv s" and r: "start + n \<le> total_pages s" "0 < n"
  shows "RangeIsFree start n s \<longleftrightarrow> {start..<start + n} \<inter> used_set s = {}"
proof -
  let ?e = "start + n - 1"
  note re = range_end [OF inv r]
  have "RangeIsFree start n s \<longleftrightarrow> (\<forall>q. start \<le> q \<and> q \<le> ?e \<longrightarrow> \<not> page_used s q)"
  proof (cases "start div 64 = ?e div 64")
    case True
    then show ?thesis
      unfolding RangeIsFree_def Let_def re(2) in_range_same_word [OF True, symmetric]
      using r re(1) by (simp add: and_word_pages bit_range_mask conj_assoc)
  next
    case False
    then have lt: "start div 64 < ?e div 64" using re(4) by simp
    have first: "bmp s ! (start div 64) AND push_bit (start mod 64) (NOT 0) = 0 \<longleftrightarrow>
        (\<forall>q. q div 64 = start div 64 \<and> start mod 64 \<le> q mod 64 \<longrightarrow> \<not> page_used s q)"
      by (simp only: and_word_pages bit_start_mask) simp
    have middle: "list_all (\<lambda>w. bmp s ! w = 0) [start div 64 + 1..<?e div 64] \<longleftrightarrow>
        (\<forall>q. start div 64 < q div 64 \<and> q div 64 < ?e div 64 \<longrightarrow> \<not> page_used s q)"
      by (auto simp: list_all_iff zero_word_pages Suc_le_eq)
    have last: "bmp s ! (?e div 64) AND drop_bit (63 - ?e mod 64) (NOT 0) = 0 \<longleftrightarrow>
        (\<forall>q. q div 64 = ?e div 64 \<and> q mod 64 \<le> ?e mod 64 \<longrightarrow> \<not> page_used s q)"
      by (simp only: and_word_pages bit_end_mask mod_less_divisor zero_less_numeral)
    have "RangeIsFree start n s \<longleftrightarrow>
        bmp s ! (start div 64) AND push_bit (start mod 64) (NOT 0) = 0 \<and>
        list_all (\<lambda>w. bmp s ! w = 0) [start div 64 + 1..<?e div 64] \<and>
        bmp s ! (?e div 64) AND drop_bit (63 - ?e mod 64) (NOT 0) = 0"
      unfolding RangeIsFree_def Let_def re(2) using r re(1) False by simp
    then show ?thesis
      unfolding first middle last in_range_words [OF lt, symmetric] by blast
  qed
  moreover have "q \<le> ?e \<longleftrightarrow> q < start + n" for q using r(2) by auto
  ultimately show ?thesis using r(1) by (auto simp: used_set_def disjoint_iff)
qed

lemma RangeSetUsed_words:
  assumes wf: "pmm_wf s" and e: "sub64 (wrap64 (start + n)) 1 = e"
    and le: "start div 64 \<le> e div 64" and w: "e div 64 < bitmap_words s"
  shows "pmm_wf (RangeSetUsed start n s) \<and> total_pages (RangeSetUsed start n s) = total_pages s \<and>
    bitmap_words (RangeSetUsed start n s) = bitmap_words s \<and>
    (\<forall>q < 64 * bitmap_words s.
       page_used (RangeSetUsed start n s) q \<longleftrightarrow> page_used s q \<or> (start \<le> q \<and> q \<le> e))"
proof (cases "start div 64 = e div 64")
  case True
  then have "RangeSetUsed start n s = or_word (start div 64) (range_mask (start mod 64) (e mod 64)) s"
    unfolding RangeSetUsed_def Let_def e by (simp only: simp_thms if_True)
  then show ?thesis
    using or_word_wf [OF wf] w True page_used_or_word [OF wf]
    by (auto simp: bit_range_mask in_range_same_word [OF True, symmetric])
next
  case False
  then have lt: "start div 64 < e div 64" using le by simp
  define s1 where "s1 = or_word (start div 64) (push_bit (start mod 64) (NOT 0)) s"
  define s2 where "s2 = fold fill_word [start div 64 + 1..<e div 64] s1"
  have t: "RangeSetUsed start n s = or_word (e div 64) (drop_bit (63 - e mod 64) (NOT 0)) s2"
    unfolding RangeSetUsed_def Let_def e s2_def s1_def using False by (simp only: if_False)
  have wf1: "pmm_wf s1" and b1: "bitmap_words s1 = bitmap_words s" "total_pages s1 = total_pages s"
    using or_word_wf [OF wf] lt w by (simp_all add: s1_def)
  have s2: "pmm_wf s2" "bitmap_words s2 = bitmap_words s" "total_pages s2 = total_pages s"
    "\<forall>q < 64 * bitmap_words s. page_used s2 q \<longleftrightarrow>
       page_used s1 q \<or> (start div 64 < q div 64 \<and> q div 64 < e div 64)"
    using fold_or_word [OF wf1, of "[start div 64 + 1..<e div 64]"] w b1
    by (auto simp: s2_def Suc_le_eq)
  have "page_used (RangeSetUsed start n s) q \<longleftrightarrow> page_used s q \<or> (start \<le> q \<and> q \<le> e)"
    if q: "q < 64 * bitmap_words s" for q
  proof -
    have u1: "page_used s1 q \<longleftrightarrow> page_used s q \<or> (q div 64 = start div 64 \<and> start mod 64 \<le> q mod 64)"
      unfolding s1_def page_used_or_word [OF wf q] bit_start_mask by simp
    have u3: "page_used (or_word (e div 64) (drop_bit (63 - e mod 64) (NOT 0)) s2) q \<longleftrightarrow>
        page_used s2 q \<or> (q div 64 = e div 64 \<and> q mod 64 \<le> e mod 64)"
      unfolding page_used_or_word [OF s2(1), unfolded s2(2), OF q] by (subst bit_end_mask) simp_all
    show ?thesis
      unfolding t u3 s2(4) [rule_format, OF q] u1 in_range_words [OF lt, symmetric] by blast
  qed
  then show ?thesis
    using or_word_wf [OF s2(1)] w s2 by (auto simp: t)
qed

lemma RangeSetUsed_correct:
  assumes inv: "pmm_inv s" and r: "start + n \<le> total_pages s" "0 < n"
  shows "pmm_wf (RangeSetUsed start n s)"
    and "total_pages (RangeSetUsed start n s) = total_pages s"
    and "bitmap_words (RangeSetUsed start n s) = bitmap_words s"
    and "q < 64 * bitmap_words s \<Longrightarrow>
      page_used (RangeSetUsed start n s) q \<longleftrightarrow> page_used s q \<or> (start \<le> q \<and> q < start + n)"
proof -
  note re = range_end [OF inv r]
  have "q \<le> start + n - 1 \<longleftrightarrow> q < start + n" using r(2) by auto
  with RangeSetUsed_words [OF pmm_inv_wf [OF inv] re(2,4,3)]
  show "pmm_wf (RangeSetUsed start n s)"
    "total_pages (RangeSetUsed start n s) = total_pages s"
    "bitmap_words (RangeSetUsed start n s) = bitmap_words s"
    "q < 64 * bitmap_words s \<Longrightarrow>
      page_used (RangeSetUsed start n s) q \<longleftrightarrow> page_used s q \<or> (start \<le> q \<and> q < start + n)"
    by auto
qed

lemma RangeSetFree_words:
  assumes wf: "pmm_wf s" and e: "sub64 (wrap64 (start + n)) 1 = e"
    and le: "start div 64 \<le> e div 64" and w: "e div 64 < bitmap_words s"
  shows "pmm_wf (RangeSetFree start n s) \<and> total_pages (RangeSetFree start n s) = total_pages s \<and>
    bitmap_words (RangeSetFree start n s) = bitmap_words s \<and>
    (\<forall>q < 64 * bitmap_words s.
       page_used (RangeSetFree start n s) q \<longleftrightarrow> page_used s q \<and> \<not> (start \<le> q \<and> q \<le> e))"
proof (cases "start div 64 = e div 64")
  case True
  then have "RangeSetFree start n s = andnot_word (start div 64) (range_mask (start mod 64) (e mod 64)) s"
    unfolding RangeSetFree_def Let_def e by (simp only: simp_thms if_True)
  then show ?thesis
    using andnot_word_wf [OF wf] w True page_used_andnot_word [OF wf]
    by (auto simp: bit_range_mask in_range_same_word [OF True, symmetric])
next
  case False
  then have lt: "start div 64 < e div 64" using le by simp
  define s1 where "s1 = andnot_word (start div 64) (push_bit (start mod 64) (NOT 0)) s"
  define s2 where "s2 = fold clear_word [start div 64 + 1..<e div 64] s1"
  have t: "RangeSetFree start n s = andnot_word (e div 64) (drop_bit (63 - e mod 64) (NOT 0)) s2"
    unfolding RangeSetFree_def Let_def e s2_def s1_def using False by (simp only: if_False)
  have wf1: "pmm_wf s1" and b1: "bitmap_words s1 = bitmap_words s" "total_pages s1 = total_pages s"
    using andnot_word_wf [OF wf] lt w by (simp_all add: s1_def)
  have s2: "pmm_wf s2" "bitmap_words s2 = bitmap_words s" "total_pages s2 = total_pages s"
    "\<forall>q < 64 * bitmap_words s. page_used s2 q \<longleftrightarrow>
       page_used s1 q \<and> \<not> (start div 64 < q div 64 \<and> q div 64 < e div 64)"
    using fold_andnot_word [OF wf1, of "[start div 64 + 1..<e div 64]"] w b1
    by (auto simp: s2_def Suc_le_eq)
  have "page_used (RangeSetFree start n s) q \<longleftrightarrow> page_used s q \<and> \<not> (start \<le> q \<and> q \<le> e)"
    if q: "q < 64 * bitmap_words s" for q
  proof -
    have u1: "page_used s1 q \<longleftrightarrow> page_used s q \<and> \<not> (q div 64 = start div 64 \<and> start mod 64 \<le> q mod 64)"
      unfolding s1_def page_used_andnot_word [OF wf q] bit_start_mask by simp
    have u3: "page_used (andnot_word (e div 64) (drop_bit (63 - e mod 64) (NOT 0)) s2) q \<longleftrightarrow>
        page_used s2 q \<and> \<not> (q div 64 = e div 64 \<and> q mod 64 \<le> e mod 64)"
      unfolding page_used_andnot_word [OF s2(1), unfolded s2(2), OF q] by (subst bit_end_mask) simp_all
    show ?thesis
      unfolding t u3 s2(4) [rule_format, OF q] u1 in_range_words [OF lt, symmetric] by blast
  qed
  then show ?thesis
    using andnot_word_wf [OF s2(1)] w s2 by (auto simp: t)
qed

lemma RangeSetFree_correct:
  assumes inv: "pmm_inv s" and r: "start + n \<le> total_pages s" "0 < n"
  shows "pmm_wf (RangeSetFree start n s)"
    and "total_pages (RangeSetFree start n s) = total_pages s"
    and "bitmap_words (RangeSetFree start n s) = bitmap_words s"
    and "q < 64 * bitmap_words s \<Longrightarrow>
      page_used (RangeSetFree start n s) q \<longleftrightarrow> page_used s q \<and> \<not> (start \<le> q \<and> q < start + n)"
proof -
  note re = range_end [OF inv r]
  have "q \<le> start + n - 1 \<longleftrightarrow> q < start + n" using r(2) by auto
  with RangeSetFree_words [OF pmm_inv_wf [OF inv] re(2,4,3)]
  show "pmm_wf (RangeSetFree start n s)"
    "total_pages (RangeSetFree start n s) = total_pages s"
    "bitmap_words (RangeSetFree start n s) = bitmap_words s"
    "q < 64 * bitmap_words s \<Longrightarrow>
      page_used (RangeSetFree start n s) q \<longleftrightarrow> page_used s q \<and> \<not> (start \<le> q \<and> q < start + n)"
    by auto
qed

lemma RangeSetUsed_inv:
  assumes "pmm_inv s" and "start + n \<le> total_pages s" and "0 < n"
  shows "pmm_inv (RangeSetUsed start n s)"
    and "used_set (RangeSetUsed start n s) = used_set s \<union> {start..<start + n}"
proof -
  note c = RangeSetUsed_correct [OF assms]
  show "pmm_inv (RangeSetUsed start n s)"
    using c(4) pmm_inv_tail [OF assms(1)] assms(2)
    by (intro pmm_invI [OF assms(1) c(1-3)]) auto
  show "used_set (RangeSetUsed start n s) = used_set s \<union> {start..<start + n}"
    using c(2,4) inv_page_word [OF assms(1)] assms(2) by (auto simp: used_set_def)
qed

lemma RangeSetFree_inv:
  assumes "pmm_inv s" and "start + n \<le> total_pages s" and "0 < n"
  shows "pmm_inv (RangeSetFree start n s)"
    and "used_set (RangeSetFree start n s) = used_set s - {start..<start + n}"
proof -
  note c = RangeSetFree_correct [OF assms]
  show "pmm_inv (RangeSetFree start n s)"
    using c(4) pmm_inv_tail [OF assms(1)]
    by (intro pmm_invI [OF assms(1) c(1-3)]) auto
  show "used_set (RangeSetFree start n s) = used_set s - {start..<start + n}"
    using c(2,4) inv_page_word [OF assms(1)] by (auto simp: used_set_def)
qed

subsection \<open>The huge page search\<close>

definition huge_region_free :: "nat \<Rightarrow> nat \<Rightarrow> pmm \<Rightarrow> bool" where
  "huge_region_free needed p s \<longleftrightarrow>
     p + needed \<le> total_pages s \<and> {p..<p + needed} \<inter> used_set s = {}"

lemma huge_search_correct:
  assumes inv: "pmm_inv s" and needed: "0 < needed" "needed < 9223372036854775808"
    and start: "start \<le> total_pages s + 512" and al: "512 dvd start"
  shows "\<exists>r. huge_search needed start s = Some r \<and>
    (case r of
       Some p \<Rightarrow> start \<le> p \<and> 512 dvd p \<and> huge_region_free needed p s
     | None \<Rightarrow> \<forall>p. start \<le> p \<longrightarrow> 512 dvd p \<longrightarrow> \<not> huge_region_free needed p s)"
  using start al
proof (induction "total_pages s + 512 - start" arbitrary: start rule: less_induct)
  case less
  have small: "start + needed < 18446744073709551616" "start + 512 < 18446744073709551616"
    using less.prems(1) needed(2) inv by (simp_all add: pmm_inv_def)
  show ?case
  proof (cases "start + needed \<le> total_pages s")
    case False
    then have "\<not> huge_region_free needed p s" if "start \<le> p" for p
      using that by (simp add: huge_region_free_def)
    with False small show ?thesis
      by (subst huge_search.simps) (auto simp: wrap64_id)
  next
    case fits: True
    have free: "RangeIsFree start needed s \<longleftrightarrow> huge_region_free needed start s"
      using RangeIsFree_correct [OF inv fits needed(1)] fits by (simp add: huge_region_free_def)
    show ?thesis
    proof (cases "huge_region_free needed start s")
      case True
      with fits free small less.prems(2) show ?thesis
        by (subst huge_search.simps) (simp add: wrap64_id)
    next
      case False
      have "total_pages s + 512 - (start + 512) < total_pages s + 512 - start"
        using fits needed(1) by simp
      then obtain r where r: "huge_search needed (start + 512) s = Some r"
        "case r of Some p \<Rightarrow> start + 512 \<le> p \<and> 512 dvd p \<and> huge_region_free needed p s
         | None \<Rightarrow> \<forall>p. start + 512 \<le> p \<longrightarrow> 512 dvd p \<longrightarrow> \<not> huge_region_free needed p s"
        using less.hyps [of "start + 512"] fits less.prems(2) by fastforce
      have "start + 512 \<le> p" if "start \<le> p" "512 dvd p" "p \<noteq> start" for p
        using that less.prems(2) by (auto simp: dvd_def)
      then have "case r of Some p \<Rightarrow> start \<le> p \<and> 512 dvd p \<and> huge_region_free needed p s
         | None \<Rightarrow> \<forall>p. start \<le> p \<longrightarrow> 512 dvd p \<longrightarrow> \<not> huge_region_free needed p s"
        using r(2) False by (cases r) auto
      with r(1) fits False free small show ?thesis
        by (subst huge_search.simps) (simp add: wrap64_id)
    qed
  qed
qed

lemma AllocHugePages_correct:
  assumes inv: "pmm_inv s" and n: "0 < n" "n < 18014398509481984"
  shows "\<exists>r s'. AllocHugePages n s = Some (r, s') \<and> pmm_inv s' \<and> total_pages s' = total_pages s \<and>
    (case r of
       Some a \<Rightarrow> \<exists>p. a = p * PAGE_SIZE \<and> 512 \<le> p \<and> 512 dvd p \<and>
                  huge_region_free (n * 512) p s \<and> used_set s' = used_set s \<union> {p..<p + n * 512}
     | None \<Rightarrow> used_set s' = used_set s \<and>
                (\<forall>p. 512 \<le> p \<longrightarrow> 512 dvd p \<longrightarrow> \<not> huge_region_free (n * 512) p s))"
proof -
  have w: "wrap64 (n * 512) = n * 512" using n by (intro wrap64_id) simp
  obtain r where r: "huge_search (n * 512) 512 s = Some r"
    "case r of Some p \<Rightarrow> 512 \<le> p \<and> 512 dvd p \<and> huge_region_free (n * 512) p s
     | None \<Rightarrow> \<forall>p. 512 \<le> p \<longrightarrow> 512 dvd p \<longrightarrow> \<not> huge_region_free (n * 512) p s"
    using huge_search_correct [OF inv, of "n * 512" 512] n by auto
  show ?thesis
  proof (cases r)
    case None
    with r inv show ?thesis by (simp add: AllocHugePages_def Let_def w)
  next
    case (Some p)
    with r(2) have p: "512 \<le> p" "512 dvd p" "huge_region_free (n * 512) p s" by simp_all
    then have fits: "p + n * 512 \<le> total_pages s" by (simp add: huge_region_free_def)
    have addr: "wrap64 (p * PAGE_SIZE) = p * PAGE_SIZE"
      using fits inv n by (intro wrap64_id) (simp add: pmm_inv_def)
    note u = RangeSetUsed_inv [OF inv fits] RangeSetUsed_correct(2) [OF inv fits]
    show ?thesis
      using r(1) Some p u n addr by (simp add: AllocHugePages_def Let_def w)
  qed
qed

lemma FreeHugePages_cases:
  assumes inv: "pmm_inv s" and n: "n < 18014398509481984" and a: "a < 18446744073709551616"
  shows "pmm_inv (FreeHugePages a n s)"
    and "used_set (FreeHugePages a n s) =
      (if a \<noteq> 0 \<and> n \<noteq> 0 \<and> a mod HUGE_PAGE_SIZE = 0 \<and> a div PAGE_SIZE + n * 512 \<le> total_pages s
       then used_set s - {a div PAGE_SIZE..<a div PAGE_SIZE + n * 512} else used_set s)"
proof -
  have w: "wrap64 (n * 512) = n * 512" using n by (intro wrap64_id) simp
  have w2: "wrap64 (a div PAGE_SIZE + n * 512) = a div PAGE_SIZE + n * 512"
    using n a by (intro wrap64_id) linarith
  show "pmm_inv (FreeHugePages a n s)"
    using RangeSetFree_inv(1) [OF inv, of "a div PAGE_SIZE" "n * 512"] inv
    by (auto simp: FreeHugePages_def Let_def w w2)
  show "used_set (FreeHugePages a n s) =
      (if a \<noteq> 0 \<and> n \<noteq> 0 \<and> a mod HUGE_PAGE_SIZE = 0 \<and> a div PAGE_SIZE + n * 512 \<le> total_pages s
       then used_set s - {a div PAGE_SIZE..<a div PAGE_SIZE + n * 512} else used_set s)"
    using RangeSetFree_inv(2) [OF inv, of "a div PAGE_SIZE" "n * 512"]
    by (auto simp: FreeHugePages_def Let_def w w2)
qed

subsection \<open>FreePage\<close>

lemma FreePage_inv: "pmm_inv s \<Longrightarrow> pmm_inv (FreePage a s)"
  using MarkPageFree_inv by (auto simp: FreePage_def Let_def)

lemma FreePage_used_set:
  assumes inv: "pmm_inv s"
  shows "used_set (FreePage a s) =
    (if a \<noteq> 0 \<and> a mod PAGE_SIZE = 0 then used_set s - {a div PAGE_SIZE} else used_set s)"
proof (cases "a div PAGE_SIZE < total_pages s")
  case True
  then show ?thesis
    using used_set_MarkPageFree [OF inv True] IsPageFree_iff [OF inv, of "a div PAGE_SIZE"]
    by (auto simp: FreePage_def Let_def)
next
  case False
  then have "a div PAGE_SIZE \<notin> used_set s" by (simp add: used_set_def)
  with False show ?thesis by (simp add: FreePage_def Let_def)
qed

lemma FreePage_total [simp]: "total_pages (FreePage a s) = total_pages s"
  by (simp add: FreePage_def Let_def)

subsection \<open>AllocPage as a whole\<close>

lemma AllocPage_Some:
  assumes inv: "pmm_inv s" and res: "AllocPage s = (Some a, s')"
  shows "pmm_inv s'" and "total_pages s' = total_pages s"
    and "\<exists>p. a = p * PAGE_SIZE \<and> LOWMEM_PAGES \<le> p \<and> p < total_pages s \<and> p \<notin> used_set s \<and>
           used_set s' = insert p (used_set s)"
proof -
  have "pmm_inv s' \<and> total_pages s' = total_pages s \<and>
    (\<exists>p. a = p * PAGE_SIZE \<and> LOWMEM_PAGES \<le> p \<and> p < total_pages s \<and> p \<notin> used_set s \<and>
         used_set s' = insert p (used_set s))"
    using inv
  proof (cases rule: AllocPage_cases)
    case (found p)
    then have "claim_page p (search_state s) = (Some a, s')" using res by simp
    then show ?thesis
      using claim_page_spec [of "search_state s" p] search_state_frame [of s] inv found(2-4) by auto
  next
    case full
    with res show ?thesis by simp
  qed
  then show "pmm_inv s'" and "total_pages s' = total_pages s"
    and "\<exists>p. a = p * PAGE_SIZE \<and> LOWMEM_PAGES \<le> p \<and> p < total_pages s \<and> p \<notin> used_set s \<and>
           used_set s' = insert p (used_set s)"
    by simp_all
qed

lemma AllocPage_None:
  assumes inv: "pmm_inv s" and res: "AllocPage s = (None, s')"
  shows "pmm_inv s'" and "total_pages s' = total_pages s" and "used_set s' = used_set s"
    and "total_pages s \<le> used_pages s + 1 \<or> {LOWMEM_PAGES..<total_pages s} \<subseteq> used_set s"
proof -
  have "pmm_inv s' \<and> total_pages s' = total_pages s \<and>
    used_set s' = used_set s \<and>
    (total_pages s \<le> used_pages s + 1 \<or> {LOWMEM_PAGES..<total_pages s} \<subseteq> used_set s)"
    using inv
  proof (cases rule: AllocPage_cases)
    case (found p)
    then have "claim_page p (search_state s) = (None, s')" using res by simp
    then show ?thesis
      using claim_page_spec [of "search_state s" p] search_state_frame [of s] inv found(2-4) by auto
  next
    case full
    with res show ?thesis by simp
  qed
  then show "pmm_inv s'" and "total_pages s' = total_pages s" and "used_set s' = used_set s"
    and "total_pages s \<le> used_pages s + 1 \<or> {LOWMEM_PAGES..<total_pages s} \<subseteq> used_set s"
    by simp_all
qed

lemma AllocPage_inv:
  assumes inv: "pmm_inv s"
  shows "pmm_inv (snd (AllocPage s)) \<and> total_pages (snd (AllocPage s)) = total_pages s"
proof (cases "AllocPage s")
  case (Pair r s')
  then show ?thesis
    using AllocPage_Some(1,2) [OF inv] AllocPage_None(1,2) [OF inv] by (cases r) simp_all
qed

lemma AllocPage_None_iff:
  assumes inv: "pmm_inv s"
  shows "fst (AllocPage s) = None \<longleftrightarrow>
    total_pages s \<le> used_pages s + 1 \<or> {LOWMEM_PAGES..<total_pages s} \<subseteq> used_set s"
proof
  assume "fst (AllocPage s) = None"
  then show "total_pages s \<le> used_pages s + 1 \<or> {LOWMEM_PAGES..<total_pages s} \<subseteq> used_set s"
    using AllocPage_None(4) [OF inv, of "snd (AllocPage s)"] by (simp add: prod_eq_iff)
next
  assume *: "total_pages s \<le> used_pages s + 1 \<or> {LOWMEM_PAGES..<total_pages s} \<subseteq> used_set s"
  show "fst (AllocPage s) = None"
    using inv
  proof (cases rule: AllocPage_cases)
    case (found p)
    then have "p \<in> {LOWMEM_PAGES..<total_pages s}" by simp
    with found * show ?thesis by auto
  qed simp
qed

section \<open>The interface of a page allocator\<close>

text \<open>
  What the clients of the physical allocator (the page tables, the kernel heap, the stacks of
  processes) rely on: a page handed out is aligned, is not page zero and was not in use, and freeing
  it undoes exactly that.
\<close>

fun alloc_many :: "('s \<Rightarrow> nat option \<times> 's) \<Rightarrow> nat \<Rightarrow> 's \<Rightarrow> nat list \<times> 's" where
  "alloc_many alloc 0 s = ([], s)"
| "alloc_many alloc (Suc n) s =
     (case alloc s of
        (None, s') \<Rightarrow> ([], s')
      | (Some a, s') \<Rightarrow> (let (as, s'') = alloc_many alloc n s' in (a # as, s'')))"

locale page_allocator =
  fixes alloc :: "'s \<Rightarrow> nat option \<times> 's"
    and free :: "nat \<Rightarrow> 's \<Rightarrow> 's"
    and used :: "'s \<Rightarrow> nat set"
    and ok :: "'s \<Rightarrow> bool"
  assumes alloc_some: "ok s \<Longrightarrow> alloc s = (Some a, s') \<Longrightarrow>
      ok s' \<and> 0 < a \<and> a mod PAGE_SIZE = 0 \<and> a div PAGE_SIZE \<notin> used s \<and>
      used s' = insert (a div PAGE_SIZE) (used s)"
    and alloc_none: "ok s \<Longrightarrow> alloc s = (None, s') \<Longrightarrow> ok s' \<and> used s' = used s"
    and free_used: "ok s \<Longrightarrow> 0 < a \<Longrightarrow> a mod PAGE_SIZE = 0 \<Longrightarrow>
      ok (free a s) \<and> used (free a s) = used s - {a div PAGE_SIZE}"
begin

lemma alloc_many_spec:
  assumes "ok s" and "alloc_many alloc n s = (as, s')"
  shows "ok s' \<and> distinct (map (\<lambda>a. a div PAGE_SIZE) as) \<and>
    (\<forall>a \<in> set as. 0 < a \<and> a mod PAGE_SIZE = 0 \<and> a div PAGE_SIZE \<notin> used s) \<and>
    used s' = used s \<union> (\<lambda>a. a div PAGE_SIZE) ` set as"
  using assms
proof (induction n arbitrary: s as)
  case (Suc n)
  show ?case
  proof (cases "alloc s")
    case (Pair r s1)
    show ?thesis
    proof (cases r)
      case None
      with Pair Suc.prems alloc_none [OF Suc.prems(1)] show ?thesis by auto
    next
      case (Some a)
      note a = alloc_some [OF Suc.prems(1) Pair [unfolded Some]]
      obtain as1 where as1: "alloc_many alloc n s1 = (as1, s')" "as = a # as1"
        using Pair Some Suc.prems(2) by (auto split: prod.splits)
      from Suc.IH [OF _ as1(1)] a as1(2) show ?thesis by auto
    qed
  qed
qed simp

lemma free_all_spec:
  assumes "ok s" and "\<forall>a \<in> set as. 0 < a \<and> a mod PAGE_SIZE = 0"
  shows "ok (fold free as s) \<and> used (fold free as s) = used s - (\<lambda>a. a div PAGE_SIZE) ` set as"
  using assms
proof (induction as arbitrary: s)
  case (Cons a as)
  then have "ok (free a s) \<and> used (free a s) = used s - {a div PAGE_SIZE}"
    by (intro free_used) auto
  with Cons.IH [of "free a s"] Cons.prems(2) show ?case by auto
qed simp

lemma alloc_many_free_all:
  assumes "ok s" and "alloc_many alloc n s = (as, s')"
  shows "used (fold free as s') = used s"
  using alloc_many_spec [OF assms] free_all_spec [of s' as] by auto

end

interpretation pm: page_allocator AllocPage FreePage used_set pmm_inv
proof
  fix s a s' assume inv: "pmm_inv s" and res: "AllocPage s = (Some a, s')"
  from AllocPage_Some(3) [OF this] obtain p where "a = p * PAGE_SIZE" "LOWMEM_PAGES \<le> p"
    "p \<notin> used_set s" "used_set s' = insert p (used_set s)" by blast
  then show "pmm_inv s' \<and> 0 < a \<and> a mod PAGE_SIZE = 0 \<and> a div PAGE_SIZE \<notin> used_set s \<and>
      used_set s' = insert (a div PAGE_SIZE) (used_set s)"
    using AllocPage_Some(1) [OF inv res] by simp
next
  fix s s' assume "pmm_inv s" and "AllocPage s = (None, s')"
  then show "pmm_inv s' \<and> used_set s' = used_set s" using AllocPage_None by blast
next
  fix s and a :: nat assume "pmm_inv s" "0 < a" "a mod PAGE_SIZE = 0"
  then show "pmm_inv (FreePage a s) \<and> used_set (FreePage a s) = used_set s - {a div PAGE_SIZE}"
    using FreePage_inv FreePage_used_set by simp
qed

section \<open>Runs of the allocator\<close>

inductive pmm_step :: "pmm \<Rightarrow> pmm \<Rightarrow> bool" where
  alloc: "pmm_step s (snd (AllocPage s))"
| free: "pmm_step s (FreePage a s)"
| huge: "\<lbrakk>0 < n; n < 18014398509481984; AllocHugePages n s = Some (r, s')\<rbrakk> \<Longrightarrow> pmm_step s s'"
| free_huge: "\<lbrakk>n < 18014398509481984; a < 18446744073709551616\<rbrakk> \<Longrightarrow> pmm_step s (FreeHugePages a n s)"

lemma FreeHugePages_total:
  assumes inv: "pmm_inv s" and n: "n < 18014398509481984" and a: "a < 18446744073709551616"
  shows "total_pages (FreeHugePages a n s) = total_pages s"
proof -
  have w: "wrap64 (n * 512) = n * 512" using n by (intro wrap64_id) simp
  have w2: "wrap64 (a div PAGE_SIZE + n * 512) = a div PAGE_SIZE + n * 512"
    using n a by (intro wrap64_id) linarith
  show ?thesis
    using RangeSetFree_correct(2) [OF inv, of "a div PAGE_SIZE" "n * 512"]
    by (auto simp: FreeHugePages_def Let_def w w2)
qed

lemma pmm_step_inv: "pmm_step s s' \<Longrightarrow> pmm_inv s \<Longrightarrow> pmm_inv s' \<and> total_pages s' = total_pages s"
proof (induction rule: pmm_step.induct)
  case (alloc s)
  then show ?case by (rule AllocPage_inv)
next
  case (huge n s r s')
  then show ?case using AllocHugePages_correct [of s n] by auto
next
  case (free_huge n a s)
  then show ?case
    using FreeHugePages_cases(1) [of s n a] FreeHugePages_total [of s n a] by simp
qed (simp add: FreePage_inv)

lemma pmm_steps_inv:
  "pmm_step\<^sup>*\<^sup>* s s' \<Longrightarrow> pmm_inv s \<Longrightarrow> pmm_inv s' \<and> total_pages s' = total_pages s"
  by (induction rule: rtranclp_induct) (use pmm_step_inv in auto)

section \<open>The statistics scan\<close>

definition free_run :: "pmm \<Rightarrow> nat \<Rightarrow> nat \<Rightarrow> bool" where
  "free_run s a n \<longleftrightarrow> LOWMEM_PAGES \<le> a \<and> (\<forall>p. a \<le> p \<and> p < a + n \<longrightarrow> IsPageFree p s)"

lemma free_run_last:
  "\<lbrakk>free_run s a n; a + n \<le> Suc i; \<not> IsPageFree i s\<rbrakk> \<Longrightarrow> n = 0 \<or> a + n \<le> i"
  by (cases n) (auto simp: free_run_def le_Suc_eq)

definition frag_inv :: "pmm \<Rightarrow> nat \<Rightarrow> nat \<Rightarrow> nat \<Rightarrow> bool" where
  "frag_inv s i cur largest \<longleftrightarrow>
     (\<exists>a. a + cur = i \<and> free_run s a cur \<and> (LOWMEM_PAGES < a \<longrightarrow> \<not> IsPageFree (a - 1) s)) \<and>
     (\<exists>a. free_run s a largest \<and> a + largest \<le> i) \<and>
     (\<forall>a n. free_run s a n \<longrightarrow> a + n \<le> i \<longrightarrow> n \<le> max largest cur)"

lemma frag_invI:
  assumes "a + cur = i" and "free_run s a cur" and "LOWMEM_PAGES < a \<longrightarrow> \<not> IsPageFree (a - 1) s"
    and "free_run s b largest" and "b + largest \<le> i"
    and "\<And>c n. free_run s c n \<Longrightarrow> c + n \<le> i \<Longrightarrow> n \<le> max largest cur"
  shows "frag_inv s i cur largest"
  unfolding frag_inv_def using assms by blast

lemma frag_inv_free:
  assumes "frag_inv s i cur largest" and free: "IsPageFree i s"
  shows "frag_inv s (Suc i) (cur + 1) largest"
proof -
  from assms obtain a where a: "a + cur = i" "free_run s a cur" "LOWMEM_PAGES < a \<longrightarrow> \<not> IsPageFree (a - 1) s"
    and all: "\<And>b n. free_run s b n \<Longrightarrow> b + n \<le> i \<Longrightarrow> n \<le> max largest cur"
    unfolding frag_inv_def by blast
  obtain c where c: "free_run s c largest" "c + largest \<le> i"
    using assms(1) unfolding frag_inv_def by blast
  have "free_run s a (cur + 1)"
    using a free unfolding free_run_def by (metis add.assoc add_Suc_right less_Suc_eq Suc_eq_plus1)
  moreover have "n \<le> max largest (cur + 1)" if run: "free_run s b n" "b + n \<le> Suc i" for b n
  proof (rule ccontr)
    assume no: "\<not> n \<le> max largest (cur + 1)"
    have "\<not> b + n \<le> i" using all [OF run(1)] no by linarith
    then have "b + n = Suc i" using run(2) by simp
    with no a(1) have "b \<le> a - 1" "a - 1 < b + n" "b < a" by linarith+
    moreover from this run(1) a(3) have "LOWMEM_PAGES < a" unfolding free_run_def by linarith
    ultimately show False using run(1) a(3) unfolding free_run_def by blast
  qed
  ultimately show ?thesis
    using a(1,3) c by (intro frag_invI [of a _ _ _ c]) auto
qed

lemma frag_inv_used:
  assumes inv: "frag_inv s i cur largest" and used: "\<not> IsPageFree i s" and i: "LOWMEM_PAGES \<le> i"
  shows "frag_inv s (Suc i) 0 (max largest cur)"
proof -
  obtain a where a: "free_run s a (max largest cur)" "a + max largest cur \<le> i"
    using inv unfolding frag_inv_def by (cases "largest \<le> cur") (auto simp: max_def)
  have "n \<le> max (max largest cur) 0" if "free_run s b n" "b + n \<le> Suc i" for b n
    using free_run_last [OF that used] inv that(1) unfolding frag_inv_def by auto
  moreover have "free_run s (Suc i) 0" using i by (auto simp: free_run_def)
  ultimately show ?thesis
    using used a by (intro frag_invI [of "Suc i" _ _ _ a]) auto
qed

lemma frag_fold:
  assumes "fold (frag_step s) [LOWMEM_PAGES..<LOWMEM_PAGES + k] (0, 0, 0) = (fr, cur, largest)"
  shows "frag_inv s (LOWMEM_PAGES + k) cur largest"
  using assms
proof (induction k arbitrary: fr cur largest)
  case 0
  then show ?case by (auto simp: frag_inv_def free_run_def)
next
  case (Suc k)
  obtain fr' cur' l' where prev:
    "fold (frag_step s) [LOWMEM_PAGES..<LOWMEM_PAGES + k] (0, 0, 0) = (fr', cur', l')"
    by (cases "fold (frag_step s) [LOWMEM_PAGES..<LOWMEM_PAGES + k] (0, 0, 0)")
  have "frag_step s (LOWMEM_PAGES + k) (fr', cur', l') = (fr, cur, largest)"
    using Suc.prems unfolding upt_add_Suc fold_append o_apply prev by simp
  then have "IsPageFree (LOWMEM_PAGES + k) s \<and> cur = cur' + 1 \<and> largest = l' \<or>
      \<not> IsPageFree (LOWMEM_PAGES + k) s \<and> cur = 0 \<and> largest = max l' cur'"
    by (auto simp: frag_step_def max_def split: if_splits)
  then show ?case
    using frag_inv_free [OF Suc.IH [OF prev]] frag_inv_used [OF Suc.IH [OF prev]] by auto
qed

lemma frag_scan_largest:
  assumes "LOWMEM_PAGES \<le> total_pages s"
  shows "(\<exists>a. free_run s a (snd (frag_scan s)) \<and> a + snd (frag_scan s) \<le> total_pages s) \<and>
    (\<forall>a n. free_run s a n \<longrightarrow> a + n \<le> total_pages s \<longrightarrow> n \<le> snd (frag_scan s))"
proof -
  obtain fr cur largest where f:
    "fold (frag_step s) [LOWMEM_PAGES..<total_pages s] (0, 0, 0) = (fr, cur, largest)"
    by (cases "fold (frag_step s) [LOWMEM_PAGES..<total_pages s] (0, 0, 0)")
  have t: "LOWMEM_PAGES + (total_pages s - LOWMEM_PAGES) = total_pages s" using assms by simp
  have inv: "frag_inv s (total_pages s) cur largest"
    using frag_fold [of s "total_pages s - LOWMEM_PAGES"] f unfolding t by blast
  have "snd (frag_scan s) = max largest cur" using f by (simp add: frag_scan_def max_def)
  moreover have "\<exists>a. free_run s a (max largest cur) \<and> a + max largest cur \<le> total_pages s"
    using inv unfolding frag_inv_def by (cases "largest \<le> cur") (auto simp: max_def)
  ultimately show ?thesis using inv unfolding frag_inv_def by simp
qed

section \<open>Properties\<close>

text \<open>A machine of 300 pages whose first megabyte is reserved, for the witnesses below.\<close>

definition demo_pmm :: pmm where
  "demo_pmm = \<lparr>allocation_count = 0, free_count = 0, huge_pages_allocated = 0,
     page_bitmap = Some [-1, -1, -1, -1, 0], bitmap_words = 5, total_pages = 300, used_pages = 256,
     next_free_hint = 256, low_memory_watermark = 0, allocation_failures = 0\<rparr>"

lemma demo_pmm_inv: "pmm_inv demo_pmm"
proof -
  have "bmp demo_pmm = [-1, -1, -1, -1, 0]" by (simp add: bmp_def demo_pmm_def)
  moreover have "list_all (\<lambda>p. \<not> page_used demo_pmm p) [300..<320]"
    unfolding list_all_iff
  proof
    fix p :: nat assume "p \<in> set [300..<320]"
    then have "p div 64 = 4" by auto
    then show "\<not> page_used demo_pmm p" by (simp add: page_used_def calculation)
  qed
  ultimately show ?thesis
    by (simp add: pmm_inv_def pmm_wf_def popcount_full) (simp add: demo_pmm_def)
qed

lemma empty_words_pages:
  assumes inv: "pmm_inv s" and t: "576 \<le> total_pages s" and free: "{448..<576} \<inter> used_set s = {}"
  shows "bmp s ! 7 = 0" and "bmp s ! 8 = 0"
proof -
  have "\<not> page_used s q" if "448 \<le> q" "q < 576" for q
    using free t that by (auto simp: used_set_def)
  moreover have "q div 64 = 7 \<Longrightarrow> 448 \<le> q \<and> q < 576" "q div 64 = 8 \<Longrightarrow> 448 \<le> q \<and> q < 576" for q :: nat
    by linarith+
  ultimately show "bmp s ! 7 = 0" and "bmp s ! 8 = 0" unfolding zero_word_pages by blast+
qed

lemma full_mask: "(mask 64 :: u64) = - 1"
  by (rule bit_word_eqI) (simp add: bit_mask_iff)

lemma RangeSetUsed_empty_range:
  assumes inv: "pmm_inv s" and t: "576 \<le> total_pages s"
  shows "used_set (RangeSetUsed 512 0 s) = used_set s \<union> {448..<576}"
proof -
  have b: "8 < bitmap_words s" using inv t by (simp add: pmm_inv_def)
  have e: "sub64 512 (Suc 0) = 511" by (simp add: sub64_id)
  have "RangeSetUsed 512 0 s = or_word 7 (NOT 0) (or_word 8 (NOT 0) s)"
    by (simp add: RangeSetUsed_def wrap64_id e Let_def full_mask)
  moreover have "page_used (or_word 7 (NOT 0) (or_word 8 (NOT 0) s)) q \<longleftrightarrow>
      page_used s q \<or> q div 64 = 7 \<or> q div 64 = 8" if "q < total_pages s" for q
    using page_used_or_word [OF or_word_wf [OF pmm_inv_wf [OF inv] b, of "NOT 0"], of q 7 "NOT 0"]
      page_used_or_word [OF pmm_inv_wf [OF inv], of q 8 "NOT 0"] inv_page_word [OF inv that]
    by auto
  moreover have "q div 64 = 7 \<or> q div 64 = 8 \<longleftrightarrow> 448 \<le> q \<and> q < 576" for q :: nat
    by linarith
  ultimately show ?thesis using t by (auto simp: used_set_def)
qed

text \<open>
  C2: AllocPage on any consistent allocator.  It returns either the page-aligned address of a page
  at or above 1 MB that was free, and then exactly this page becomes used, or NULL, and then nothing
  becomes used; it returns NULL exactly when at most one page is left or when no page above 1 MB is
  free.  The allocator stays consistent.
\<close>

theorem AllocPage_correct:
  assumes "pmm_inv s"
  shows "case AllocPage s of
      (Some a, s') \<Rightarrow> pmm_inv s' \<and> total_pages s' = total_pages s \<and>
        (\<exists>p. a = p * PAGE_SIZE \<and> LOWMEM_PAGES \<le> p \<and> p < total_pages s \<and> p \<notin> used_set s \<and>
             used_set s' = insert p (used_set s)) \<and> used_pages s + 1 < total_pages s
    | (None, s') \<Rightarrow> pmm_inv s' \<and> total_pages s' = total_pages s \<and> used_set s' = used_set s \<and>
        (total_pages s \<le> used_pages s + 1 \<or> {LOWMEM_PAGES..<total_pages s} \<subseteq> used_set s)"
proof (cases "AllocPage s")
  case (Pair r s')
  show ?thesis
  proof (cases r)
    case None
    with Pair AllocPage_None [OF assms] show ?thesis by simp
  next
    case (Some a)
    with Pair AllocPage_Some [OF assms, of a s'] AllocPage_None_iff [OF assms] show ?thesis by simp
  qed
qed

theorem AllocPage_correct_witness:
  "pmm_inv demo_pmm \<and>
   (case AllocPage demo_pmm of
      (Some a, s') \<Rightarrow> pmm_inv s' \<and> total_pages s' = 300 \<and>
        (\<exists>p. a = p * PAGE_SIZE \<and> LOWMEM_PAGES \<le> p \<and> p < 300 \<and> p \<notin> used_set demo_pmm \<and>
             used_set s' = insert p (used_set demo_pmm))
    | (None, s') \<Rightarrow> pmm_inv s' \<and> total_pages s' = 300 \<and> used_set s' = used_set demo_pmm \<and>
        (total_pages demo_pmm \<le> used_pages demo_pmm + 1 \<or> {LOWMEM_PAGES..<300} \<subseteq> used_set demo_pmm))"
proof -
  have "total_pages demo_pmm = 300" by (simp add: demo_pmm_def)
  with AllocPage_correct [OF demo_pmm_inv] demo_pmm_inv show ?thesis
    by (auto split: prod.splits option.splits)
qed

text \<open>
  C11: AllocHugePages, for every count from 1 to \<open>2 ^ 54 - 1\<close>, always returns (for larger counts the
  number of pages, or its sum with a page number, wraps around).  A non-NULL result is the address of a 2 MB aligned region of \<open>n * 512\<close> pages inside memory, all free before and all used
  after, nothing else changed; NULL is returned only when no such region exists.
\<close>

theorem AllocHugePages_total:
  assumes "pmm_inv s" and "0 < n" and "n < 18014398509481984"
  shows "\<exists>r s'. AllocHugePages n s = Some (r, s') \<and> pmm_inv s' \<and> total_pages s' = total_pages s \<and>
    (case r of
       Some a \<Rightarrow> \<exists>p. a = p * PAGE_SIZE \<and> 512 \<le> p \<and> 512 dvd p \<and>
                  huge_region_free (n * 512) p s \<and> used_set s' = used_set s \<union> {p..<p + n * 512}
     | None \<Rightarrow> used_set s' = used_set s \<and>
                (\<forall>p. 512 \<le> p \<longrightarrow> 512 dvd p \<longrightarrow> \<not> huge_region_free (n * 512) p s))"
  using assms by (rule AllocHugePages_correct)

theorem AllocHugePages_total_witness:
  "pmm_inv demo_pmm \<and> (\<exists>s'. AllocHugePages 3 demo_pmm = Some (None, s') \<and> used_set s' = used_set demo_pmm)"
proof -
  obtain r s' where r: "AllocHugePages 3 demo_pmm = Some (r, s')"
    "case r of Some a \<Rightarrow> \<exists>p. 512 \<le> p \<and> huge_region_free (3 * 512) p demo_pmm
       | None \<Rightarrow> used_set s' = used_set demo_pmm"
    using AllocHugePages_total [OF demo_pmm_inv, of 3] by (fastforce split: option.splits)
  moreover have "\<not> huge_region_free (3 * 512) p demo_pmm" for p
    by (simp add: huge_region_free_def demo_pmm_def)
  ultimately show ?thesis using demo_pmm_inv by (cases r) auto
qed

text \<open>
  C12: the masked word loops of RangeIsFree, RangeSetUsed and RangeSetFree agree with the
  page-by-page reference: the first answers whether no page of the range is used, the others add or
  remove exactly the pages of the range, and \<open>used_pages\<close> stays the number of used pages.
\<close>

theorem range_operations_exact:
  assumes "pmm_inv s" and "start + n \<le> total_pages s" and "0 < n"
  shows "(RangeIsFree start n s \<longleftrightarrow> {start..<start + n} \<inter> used_set s = {}) \<and>
    used_set (RangeSetUsed start n s) = used_set s \<union> {start..<start + n} \<and>
    used_set (RangeSetFree start n s) = used_set s - {start..<start + n} \<and>
    used_pages (RangeSetUsed start n s) = card (used_set s \<union> {start..<start + n}) \<and>
    used_pages (RangeSetFree start n s) = card (used_set s - {start..<start + n})"
  using RangeIsFree_correct [OF assms] RangeSetUsed_inv [OF assms] RangeSetFree_inv [OF assms]
    used_pages_card by metis

theorem range_operations_exact_witness:
  "used_set (RangeSetUsed 250 40 demo_pmm) = used_set demo_pmm \<union> {250..<290} \<and>
   used_set (RangeSetFree 250 40 demo_pmm) = used_set demo_pmm - {250..<290}"
  using range_operations_exact [OF demo_pmm_inv, of 250 40] by (simp add: demo_pmm_def)

text \<open>
  C18: any number of successive AllocPage calls yields distinct pages, none of them in use before,
  and handing all of them to FreePage in any order of the list restores the set of used pages.
\<close>

theorem AllocPage_many_roundtrip:
  assumes "pmm_inv s" and "alloc_many AllocPage n s = (as, s')"
  shows "distinct (map (\<lambda>a. a div PAGE_SIZE) as) \<and>
    (\<lambda>a. a div PAGE_SIZE) ` set as \<inter> used_set s = {} \<and>
    used_set s' = used_set s \<union> (\<lambda>a. a div PAGE_SIZE) ` set as \<and>
    pmm_inv (fold FreePage as s') \<and> used_set (fold FreePage as s') = used_set s"
  using pm.alloc_many_spec [OF assms] pm.alloc_many_free_all [OF assms] pm.free_all_spec [of s' as]
  by auto

theorem AllocPage_many_roundtrip_witness:
  "pmm_inv demo_pmm \<and>
   (\<exists>as s'. alloc_many AllocPage 5 demo_pmm = (as, s') \<and> distinct (map (\<lambda>a. a div PAGE_SIZE) as) \<and>
      used_set (fold FreePage as s') = used_set demo_pmm)"
proof -
  obtain as s' where "alloc_many AllocPage 5 demo_pmm = (as, s')" by force
  with AllocPage_many_roundtrip [OF demo_pmm_inv this] demo_pmm_inv show ?thesis by blast
qed

text \<open>
  GetDetailedMemoryStats reports the true size of the largest free block: there is a run of that
  many free pages above 1 MB, and no longer run exists; the free byte count is the number of pages
  not in use.
\<close>

theorem GetDetailedMemoryStats_exact:
  assumes "pmm_inv s" and "LOWMEM_PAGES \<le> total_pages s"
  shows "\<exists>n a. largest_free_block (GetDetailedMemoryStats s) = n * PAGE_SIZE \<and>
      free_run s a n \<and> a + n \<le> total_pages s \<and>
      (\<forall>b m. free_run s b m \<and> b + m \<le> total_pages s \<longrightarrow> m \<le> n) \<and>
      free_physical_bytes (GetDetailedMemoryStats s) = (total_pages s - card (used_set s)) * PAGE_SIZE \<and>
      fragmentation_score (GetDetailedMemoryStats s) \<le> 100"
proof -
  obtain a where a: "free_run s a (snd (frag_scan s))" "a + snd (frag_scan s) \<le> total_pages s"
    and max: "\<And>b m. free_run s b m \<Longrightarrow> b + m \<le> total_pages s \<Longrightarrow> m \<le> snd (frag_scan s)"
    using frag_scan_largest [OF assms(2)] by blast
  have small: "total_pages s \<le> MAX_PAGES" using assms(1) by (simp add: pmm_inv_def)
  have le: "used_pages s \<le> total_pages s"
    unfolding used_pages_card [OF assms(1)] used_set_def
    using card_mono [of "{..<total_pages s}" "{p. p < total_pages s \<and> page_used s p}"] by auto
  have "sub64 (total_pages s) (used_pages s) = total_pages s - used_pages s"
    using le small by (intro sub64_id) auto
  then have "largest_free_block (GetDetailedMemoryStats s) = snd (frag_scan s) * PAGE_SIZE"
    "free_physical_bytes (GetDetailedMemoryStats s) = (total_pages s - used_pages s) * PAGE_SIZE"
    "fragmentation_score (GetDetailedMemoryStats s) \<le> 100"
    using a(2) small by (simp_all add: GetDetailedMemoryStats_def case_prod_beta wrap64_id Let_def)
  with a max show ?thesis unfolding used_pages_card [OF assms(1)] by blast
qed

theorem GetDetailedMemoryStats_exact_witness:
  "LOWMEM_PAGES \<le> total_pages demo_pmm \<and> pmm_inv demo_pmm \<and>
   (\<exists>n a. largest_free_block (GetDetailedMemoryStats demo_pmm) = n * PAGE_SIZE \<and>
      free_run demo_pmm a n \<and> a + n \<le> total_pages demo_pmm)"
proof -
  have "LOWMEM_PAGES \<le> total_pages demo_pmm" by (simp add: demo_pmm_def)
  with GetDetailedMemoryStats_exact [OF demo_pmm_inv this] demo_pmm_inv show ?thesis by blast
qed

text \<open>
  AllocHugePages with a count of zero does not return NULL.  On a machine with pages 448 to 575
  free it returns the address 2 MB and marks these 128 pages, which precede and follow that address,
  as used; FreeHugePages with the same arguments then frees none of them.
\<close>

theorem AllocHugePages_zero_leaks:
  assumes "pmm_inv s" and "576 \<le> total_pages s" and "{448..<576} \<inter> used_set s = {}"
  shows "\<exists>s'. AllocHugePages 0 s = Some (Some HUGE_PAGE_SIZE, s') \<and>
    used_set s' = used_set s \<union> {448..<576} \<and> FreeHugePages HUGE_PAGE_SIZE 0 s' = s'"
proof -
  have e: "sub64 512 (Suc 0) = 511" by (simp add: sub64_id)
  have t: "512 \<le> total_pages s" using assms(2) by simp
  have "RangeIsFree 512 0 s"
    using empty_words_pages [OF assms] t by (simp add: RangeIsFree_def wrap64_id e Let_def full_mask)
  then have "huge_search 0 512 s = Some (Some 512)"
    using t by (subst huge_search.simps) (simp add: wrap64_id)
  then have "\<exists>s'. AllocHugePages 0 s = Some (Some HUGE_PAGE_SIZE, s') \<and>
      used_set s' = used_set (RangeSetUsed 512 0 s)"
    by (simp add: AllocHugePages_def Let_def wrap64_id)
  then show ?thesis
    unfolding RangeSetUsed_empty_range [OF assms(1,2)] by (auto simp: FreeHugePages_def)
qed

theorem AllocHugePages_zero_leaks_witness:
  "\<exists>s s'. pmm_inv s \<and> AllocHugePages 0 s = Some (Some HUGE_PAGE_SIZE, s') \<and> used_set s' = {448..<576}"
proof -
  let ?s = "\<lparr>allocation_count = 0, free_count = 0, huge_pages_allocated = 0,
     page_bitmap = Some (replicate 9 0), bitmap_words = 9, total_pages = 576, used_pages = 0,
     next_free_hint = 256, low_memory_watermark = 0, allocation_failures = 0\<rparr> :: pmm"
  have free: "\<not> page_used ?s p" if "p < 576" for p
    using that by (simp add: page_used_def bmp_def less_mult_imp_div_less)
  then have "pmm_inv ?s" by (simp add: pmm_inv_def pmm_wf_def bmp_def)
  moreover have "used_set ?s = {}" using free by (auto simp: used_set_def)
  ultimately show ?thesis using AllocHugePages_zero_leaks [of ?s] by fastforce
qed

end
