(* ===== verification/PMemInit.thy ===== *)
theory PMemInit
  imports PMem
begin

text \<open>
  Boot-time initialisation of the physical memory manager (\<open>MemoryInit\<close> of \<open>src/mm/PMem.c\<close>): the
  walk over the Multiboot2 tags, the reservation of pages, and the exact set of pages that is in use
  when the allocator starts, followed by the invariant over all runs from boot.
\<close>

section \<open>Boot-time initialisation\<close>

text \<open>
  \<open>MemoryInit\<close> walks the Multiboot2 tags twice, first for the highest available address, then to
  reserve regions.  The tags are read from physical memory, here a function from addresses to
  bytes that is the same in both passes: the bitmap the function clears in between (at 16 MB)
  is taken not to overlap the boot information.  \<open>mb_entries\<close> is the walk both passes make,
  collecting the memory map entries in order; \<open>None\<close> is a walk that faults (entry size 0) or
  does not end.
\<close>

definition rd32 :: "(nat \<Rightarrow> u8) \<Rightarrow> nat \<Rightarrow> nat" where
  "rd32 mem a = unat (mem a) + 256 * unat (mem (a + 1)) + 65536 * unat (mem (a + 2)) +
     16777216 * unat (mem (a + 3))"

definition rd64 :: "(nat \<Rightarrow> u8) \<Rightarrow> nat \<Rightarrow> nat" where
  "rd64 mem a = rd32 mem a + 4294967296 * rd32 mem (a + 4)"

record MultibootMmapEntry =
  me_addr :: nat
  me_len :: nat
  me_type :: nat

definition read_entry :: "(nat \<Rightarrow> u8) \<Rightarrow> nat \<Rightarrow> MultibootMmapEntry" where
  "read_entry mem a = \<lparr>me_addr = rd64 mem a, me_len = rd64 mem (a + 8), me_type = rd32 mem (a + 16)\<rparr>"

definition tag_entries :: "(nat \<Rightarrow> u8) \<Rightarrow> nat \<Rightarrow> MultibootMmapEntry list option" where
  "tag_entries mem tag =
     (let size = rd32 mem (tag + 4); entry_size = rd32 mem (tag + 8) in
      if entry_size = 0 then None
      else let n = sub64 size 16 div entry_size in
        if 4294967296 \<le> n then None
        else Some (map (\<lambda>i. read_entry mem (tag + 16 + wrap32 (i * entry_size))) [0..<n]))"

partial_function (option) mb_entries ::
  "(nat \<Rightarrow> u8) \<Rightarrow> nat \<Rightarrow> MultibootMmapEntry list \<Rightarrow> MultibootMmapEntry list option" where
  "mb_entries mem tag acc =
     (if rd32 mem tag = 0 then Some acc
      else if rd32 mem tag = 6
        then (case tag_entries mem tag of
                None \<Rightarrow> None
              | Some es \<Rightarrow> mb_entries mem (tag + wrap32 (rd32 mem (tag + 4) + 7) div 8 * 8) (acc @ es))
        else mb_entries mem (tag + wrap32 (rd32 mem (tag + 4) + 7) div 8 * 8) acc)"

definition max_physical_address :: "MultibootMmapEntry list \<Rightarrow> nat" where
  "max_physical_address es =
     fold (\<lambda>e m. if me_type e = 1
                  then (let end_addr = wrap64 (me_addr e + me_len e)
                        in if m < end_addr then end_addr else m)
                  else m) es 0"

partial_function (option) reserve_region :: "nat \<Rightarrow> nat \<Rightarrow> pmm \<Rightarrow> pmm option" where
  "reserve_region current_addr end_addr s =
     (if current_addr < end_addr
      then reserve_region (wrap64 (current_addr + PAGE_SIZE)) end_addr
             (if current_addr div PAGE_SIZE < total_pages s
              then MarkPageUsed (current_addr div PAGE_SIZE) s else s)
      else Some s)"

fun reserve_entries :: "MultibootMmapEntry list \<Rightarrow> pmm \<Rightarrow> pmm option" where
  "reserve_entries [] s = Some s"
| "reserve_entries (e # es) s =
     (if me_type e = 1 then reserve_entries es s
      else case reserve_region (me_addr e) (wrap64 (me_addr e + me_len e)) s of
             None \<Rightarrow> None
           | Some s' \<Rightarrow> reserve_entries es s')"

definition mark_pages :: "nat \<Rightarrow> nat \<Rightarrow> pmm \<Rightarrow> pmm" where
  "mark_pages a b s = fold MarkPageUsed [a..<b] s"

definition init_entries ::
  "MultibootMmapEntry list \<Rightarrow> nat \<Rightarrow> nat \<Rightarrow> nat \<Rightarrow> nat \<Rightarrow> pmm \<Rightarrow> (int \<times> pmm) option" where
  "init_entries es total_multiboot_size multiboot_info_addr kernel_start_addr kernel_end_addr s =
     (let total0 = wrap64 (max_physical_address es + PAGE_SIZE - 1) div PAGE_SIZE;
          total = (if MAX_PAGES < total0 then MAX_PAGES else total0);
          words = (total + 63) div 64;
          bitmap_size_bytes = words * 8;
          bitmap_start = 0x1000000;
          identity_limit = (if MAX_SUPPORTED_MEMORY < total * PAGE_SIZE
                            then MAX_SUPPORTED_MEMORY else total * PAGE_SIZE);
          s1 = s\<lparr>used_pages := 0, allocation_failures := 0, total_pages := total,
                 bitmap_words := words\<rparr>
      in if identity_limit < bitmap_start + bitmap_size_bytes then Some (-1, s1)
         else case reserve_entries es (s1\<lparr>page_bitmap := Some (replicate words 0)\<rparr>) of
                None \<Rightarrow> None
              | Some s2 \<Rightarrow>
                  (let s3 = mark_pages 0 LOWMEM_PAGES s2;
                       s4 = mark_pages (bitmap_start div PAGE_SIZE)
                              ((bitmap_start + bitmap_size_bytes + PAGE_SIZE - 1) div PAGE_SIZE) s3;
                       s5 = mark_pages (kernel_start_addr div PAGE_SIZE)
                              (wrap64 (kernel_end_addr + PAGE_SIZE - 1) div PAGE_SIZE) s4;
                       s6 = mark_pages (multiboot_info_addr div PAGE_SIZE)
                              (wrap32 (multiboot_info_addr + total_multiboot_size + PAGE_SIZE - 1)
                                 div PAGE_SIZE) s5
                   in Some (0, s6)))"

definition MemoryInit :: "(nat \<Rightarrow> u8) \<Rightarrow> nat \<Rightarrow> nat \<Rightarrow> nat \<Rightarrow> pmm \<Rightarrow> (int \<times> pmm) option" where
  "MemoryInit mem multiboot_info_addr kernel_start_addr kernel_end_addr s =
     (case mb_entries mem (wrap32 (multiboot_info_addr + 8)) [] of
        None \<Rightarrow> None
      | Some es \<Rightarrow> init_entries es (rd32 mem multiboot_info_addr) multiboot_info_addr
                     kernel_start_addr kernel_end_addr s)"

subsection \<open>What initialisation reserves\<close>

definition entry_pages :: "MultibootMmapEntry \<Rightarrow> nat set" where
  "entry_pages e = {(me_addr e + k * PAGE_SIZE) div PAGE_SIZE | k. k * PAGE_SIZE < me_len e}"

lemma used_set_mark_total:
  "pmm_inv s \<Longrightarrow> used_set (MarkPageUsed p s) = used_set s \<union> ({p} \<inter> {..<total_pages s})"
  using used_set_MarkPageUsed [of s p] MarkPageUsed_out [of s p] by (cases "p < total_pages s") auto

lemma fold_mark_pages:
  assumes "pmm_inv s"
  shows "pmm_inv (fold MarkPageUsed ps s) \<and> total_pages (fold MarkPageUsed ps s) = total_pages s \<and>
    used_set (fold MarkPageUsed ps s) = used_set s \<union> (set ps \<inter> {..<total_pages s})"
  using assms
proof (induction ps arbitrary: s)
  case (Cons p ps)
  from Cons.IH [OF MarkPageUsed_inv [OF Cons.prems, of p]] show ?case
    using used_set_mark_total [OF Cons.prems, of p] by auto
qed simp

lemma mark_pages_spec:
  assumes "pmm_inv s"
  shows "pmm_inv (mark_pages a b s)" and "total_pages (mark_pages a b s) = total_pages s"
    and "used_set (mark_pages a b s) = used_set s \<union> ({a..<b} \<inter> {..<total_pages s})"
  using fold_mark_pages [OF assms, of "[a..<b]"] by (simp_all add: mark_pages_def)

lemma reserve_region_spec:
  assumes "pmm_inv s" and "end_addr + PAGE_SIZE \<le> 18446744073709551616"
  shows "\<exists>s'. reserve_region cur end_addr s = Some s' \<and> pmm_inv s' \<and> total_pages s' = total_pages s \<and>
    used_set s' = used_set s \<union>
      ({(cur + k * PAGE_SIZE) div PAGE_SIZE | k. cur + k * PAGE_SIZE < end_addr} \<inter> {..<total_pages s})"
  using assms
proof (induction "end_addr - cur" arbitrary: cur s rule: less_induct)
  case less
  let ?pages = "\<lambda>c. {(c + k * PAGE_SIZE) div PAGE_SIZE | k. c + k * PAGE_SIZE < end_addr}"
  show ?case
  proof (cases "cur < end_addr")
    case False
    then have "?pages cur = {}" by auto
    with False less.prems(1) show ?thesis by (subst reserve_region.simps) auto
  next
    case True
    let ?p = "cur div PAGE_SIZE"
    let ?s = "if ?p < total_pages s then MarkPageUsed ?p s else s"
    have eq: "?s = MarkPageUsed ?p s" by (simp add: MarkPageUsed_out)
    have pages: "?pages cur = insert ?p (?pages (cur + PAGE_SIZE))"
    proof (intro set_eqI iffI)
      fix q assume "q \<in> ?pages cur"
      then obtain k where k: "q = (cur + k * PAGE_SIZE) div PAGE_SIZE" "cur + k * PAGE_SIZE < end_addr"
        by auto
      show "q \<in> insert ?p (?pages (cur + PAGE_SIZE))"
      proof (cases k)
        case (Suc j)
        with k show ?thesis by (auto intro!: exI [of _ j])
      qed (use k in simp)
    next
      fix q assume "q \<in> insert ?p (?pages (cur + PAGE_SIZE))"
      then show "q \<in> ?pages cur"
      proof
        assume "q = ?p"
        with True show ?thesis by (auto intro!: exI [of _ 0])
      next
        assume "q \<in> ?pages (cur + PAGE_SIZE)"
        then obtain k where "q = (cur + PAGE_SIZE + k * PAGE_SIZE) div PAGE_SIZE"
          "cur + PAGE_SIZE + k * PAGE_SIZE < end_addr" by auto
        then show ?thesis by (auto intro!: exI [of _ "Suc k"])
      qed
    qed
    have w: "wrap64 (cur + PAGE_SIZE) = cur + PAGE_SIZE"
      using True less.prems(2) by (intro wrap64_id) simp
    have "end_addr - (cur + PAGE_SIZE) < end_addr - cur" using True by simp
    from less.hyps [OF this MarkPageUsed_inv [OF less.prems(1)] less.prems(2)] obtain s' where
      s': "reserve_region (cur + PAGE_SIZE) end_addr (MarkPageUsed ?p s) = Some s'" "pmm_inv s'"
        "total_pages s' = total_pages (MarkPageUsed ?p s)"
        "used_set s' = used_set (MarkPageUsed ?p s) \<union>
           (?pages (cur + PAGE_SIZE) \<inter> {..<total_pages (MarkPageUsed ?p s)})"
      by blast
    have "reserve_region cur end_addr s = Some s'"
      using True s'(1) by (subst reserve_region.simps) (simp only: if_True w eq)
    moreover have "used_set s' = used_set s \<union> (?pages cur \<inter> {..<total_pages s})"
      unfolding s'(4) pages used_set_mark_total [OF less.prems(1)] MarkPageUsed_frame(1) by blast
    ultimately show ?thesis using s'(2,3) by (auto simp only: MarkPageUsed_frame)
  qed
qed

lemma reserve_entries_spec:
  assumes "pmm_inv s"
    and "list_all (\<lambda>e. me_type e \<noteq> 1 \<longrightarrow> me_addr e + me_len e + PAGE_SIZE \<le> 18446744073709551616) es"
  shows "\<exists>s'. reserve_entries es s = Some s' \<and> pmm_inv s' \<and> total_pages s' = total_pages s \<and>
    used_set s' = used_set s \<union>
      ((\<Union>e \<in> {e \<in> set es. me_type e \<noteq> 1}. entry_pages e) \<inter> {..<total_pages s})"
  using assms
proof (induction es arbitrary: s)
  case (Cons e es)
  show ?case
  proof (cases "me_type e = 1")
    case True
    then have "{x \<in> set (e # es). me_type x \<noteq> 1} = {x \<in> set es. me_type x \<noteq> 1}" by auto
    with Cons.IH [OF Cons.prems(1)] Cons.prems(2) True show ?thesis by simp
  next
    case False
    have bound: "me_addr e + me_len e + PAGE_SIZE \<le> 18446744073709551616"
      using False Cons.prems(2) by simp
    then have w: "wrap64 (me_addr e + me_len e) = me_addr e + me_len e"
      by (intro wrap64_id) simp
    have pages: "{(me_addr e + k * PAGE_SIZE) div PAGE_SIZE | k.
        me_addr e + k * PAGE_SIZE < me_addr e + me_len e} = entry_pages e"
      by (simp add: entry_pages_def)
    obtain s1 where s1: "reserve_region (me_addr e) (me_addr e + me_len e) s = Some s1" "pmm_inv s1"
      "total_pages s1 = total_pages s"
      "used_set s1 = used_set s \<union> (entry_pages e \<inter> {..<total_pages s})"
      using reserve_region_spec [OF Cons.prems(1) bound, of "me_addr e"] unfolding pages by blast
    obtain s2 where s2: "reserve_entries es s1 = Some s2" "pmm_inv s2"
      "total_pages s2 = total_pages s1"
      "used_set s2 = used_set s1 \<union>
        ((\<Union>e \<in> {e \<in> set es. me_type e \<noteq> 1}. entry_pages e) \<inter> {..<total_pages s1})"
      using Cons.IH [OF s1(2)] Cons.prems(2) by (auto simp del: UN_simps)
    have "{x \<in> set (e # es). me_type x \<noteq> 1} = insert e {x \<in> set es. me_type x \<noteq> 1}"
      using False by auto
    then have "used_set s2 = used_set s \<union>
        ((\<Union>x \<in> {x \<in> set (e # es). me_type x \<noteq> 1}. entry_pages x) \<inter> {..<total_pages s})"
      unfolding s2(4) s1(3,4) by auto
    with False s1 s2 w show ?thesis by simp
  qed
qed simp

definition fresh_bitmap :: "nat \<Rightarrow> pmm \<Rightarrow> pmm" where
  "fresh_bitmap tp s =
     s\<lparr>used_pages := 0, allocation_failures := 0, total_pages := tp,
       bitmap_words := (tp + 63) div 64, page_bitmap := Some (replicate ((tp + 63) div 64) 0)\<rparr>"

lemma fresh_bitmap_inv:
  assumes "tp \<le> MAX_PAGES"
  shows "pmm_inv (fresh_bitmap tp s)" and "used_set (fresh_bitmap tp s) = {}"
    and "total_pages (fresh_bitmap tp s) = tp"
proof -
  have b: "bmp (fresh_bitmap tp s) = replicate ((tp + 63) div 64) 0"
    by (simp add: bmp_def fresh_bitmap_def)
  have z: "\<not> page_used (fresh_bitmap tp s) p" if "p < 64 * ((tp + 63) div 64)" for p
  proof -
    have "p div 64 < (tp + 63) div 64" using that by (simp add: less_mult_imp_div_less mult.commute)
    then show ?thesis by (simp add: page_used_def b)
  qed
  have "(tp + 63) div 64 \<le> 524288"
    using assms by linarith
  then show "pmm_inv (fresh_bitmap tp s)"
    using z assms b by (auto simp: pmm_inv_def pmm_wf_def list_all_iff) (simp_all add: fresh_bitmap_def)
  have "p < 64 * ((tp + 63) div 64)" if "p < tp" for p using that by linarith
  then show "used_set (fresh_bitmap tp s) = {}"
    using z by (auto simp: used_set_def) (simp add: fresh_bitmap_def)
  show "total_pages (fresh_bitmap tp s) = tp" by (simp add: fresh_bitmap_def)
qed

definition detected_pages :: "MultibootMmapEntry list \<Rightarrow> nat" where
  "detected_pages es = min MAX_PAGES (wrap64 (max_physical_address es + 4095) div PAGE_SIZE)"

definition boot_pages :: "MultibootMmapEntry list \<Rightarrow> nat \<Rightarrow> nat \<Rightarrow> nat \<Rightarrow> nat \<Rightarrow> nat set" where
  "boot_pages es mbsize mbi ks ke =
     {0..<LOWMEM_PAGES} \<union>
     {4096..<(0x1000000 + (detected_pages es + 63) div 64 * 8 + 4095) div PAGE_SIZE} \<union>
     {ks div PAGE_SIZE..<wrap64 (ke + 4095) div PAGE_SIZE} \<union>
     {mbi div PAGE_SIZE..<wrap32 (mbi + mbsize + 4095) div PAGE_SIZE}"

lemma init_entries_unfold:
  "init_entries es mbsize mbi ks ke s =
     (let words = (detected_pages es + 63) div 64 in
      if detected_pages es * PAGE_SIZE < 0x1000000 + words * 8
      then Some (-1, s\<lparr>used_pages := 0, allocation_failures := 0, total_pages := detected_pages es,
                       bitmap_words := words\<rparr>)
      else case reserve_entries es (fresh_bitmap (detected_pages es) s) of
             None \<Rightarrow> None
           | Some s2 \<Rightarrow> Some (0,
               mark_pages (mbi div PAGE_SIZE) (wrap32 (mbi + mbsize + 4095) div PAGE_SIZE)
                (mark_pages (ks div PAGE_SIZE) (wrap64 (ke + 4095) div PAGE_SIZE)
                  (mark_pages 4096 ((0x1000000 + words * 8 + 4095) div PAGE_SIZE)
                    (mark_pages 0 LOWMEM_PAGES s2)))))"
proof -
  let ?t = "wrap64 (max_physical_address es + PAGE_SIZE - 1) div PAGE_SIZE"
  have t: "(if MAX_PAGES < ?t then MAX_PAGES else ?t) = detected_pages es"
    by (simp add: detected_pages_def min_def add.commute)
  have le: "detected_pages es \<le> MAX_PAGES" by (simp add: detected_pages_def)
  have lim: "(if MAX_SUPPORTED_MEMORY < detected_pages es * PAGE_SIZE then MAX_SUPPORTED_MEMORY
     else detected_pages es * PAGE_SIZE) = detected_pages es * PAGE_SIZE"
    using le by simp
  have up: "x + PAGE_SIZE - 1 = x + 4095" for x :: nat by simp
  have base: "16777216 div PAGE_SIZE = (4096 :: nat)" by simp
  show ?thesis
    unfolding init_entries_def Let_def t lim
    unfolding up base
    by (simp add: fresh_bitmap_def add.assoc)
qed

lemma init_entries_spec:
  assumes fits: "0x1000000 + (detected_pages es + 63) div 64 * 8 \<le> detected_pages es * PAGE_SIZE"
    and bounds: "list_all (\<lambda>e. me_type e \<noteq> 1 \<longrightarrow>
                   me_addr e + me_len e + PAGE_SIZE \<le> 18446744073709551616) es"
  shows "\<exists>s'. init_entries es mbsize mbi ks ke s = Some (0, s') \<and> pmm_inv s' \<and>
    total_pages s' = detected_pages es \<and>
    used_set s' = (boot_pages es mbsize mbi ks ke \<union>
      (\<Union>e \<in> {e \<in> set es. me_type e \<noteq> 1}. entry_pages e)) \<inter> {..<detected_pages es}"
proof -
  have le: "detected_pages es \<le> MAX_PAGES" by (simp add: detected_pages_def)
  obtain s2 where s2: "reserve_entries es (fresh_bitmap (detected_pages es) s) = Some s2" "pmm_inv s2"
    "total_pages s2 = detected_pages es"
    "used_set s2 = (\<Union>e \<in> {e \<in> set es. me_type e \<noteq> 1}. entry_pages e) \<inter> {..<detected_pages es}"
    using reserve_entries_spec [OF fresh_bitmap_inv(1) [OF le, of s] bounds]
    unfolding fresh_bitmap_inv(2,3) [OF le]
    by (metis (no_types, lifting) sup_bot_left)
  define s3 where "s3 = mark_pages 0 LOWMEM_PAGES s2"
  define s4 where "s4 = mark_pages 4096 ((0x1000000 + (detected_pages es + 63) div 64 * 8 + 4095) div PAGE_SIZE) s3"
  define s5 where "s5 = mark_pages (ks div PAGE_SIZE) (wrap64 (ke + 4095) div PAGE_SIZE) s4"
  define s6 where "s6 = mark_pages (mbi div PAGE_SIZE) (wrap32 (mbi + mbsize + 4095) div PAGE_SIZE) s5"
  note m3 = mark_pages_spec [OF s2(2), of 0 LOWMEM_PAGES, folded s3_def]
  note m4 = mark_pages_spec [OF m3(1), of 4096
    "(0x1000000 + (detected_pages es + 63) div 64 * 8 + 4095) div PAGE_SIZE", folded s4_def]
  note m5 = mark_pages_spec [OF m4(1), of "ks div PAGE_SIZE" "wrap64 (ke + 4095) div PAGE_SIZE", folded s5_def]
  note m6 = mark_pages_spec [OF m5(1), of "mbi div PAGE_SIZE" "wrap32 (mbi + mbsize + 4095) div PAGE_SIZE",
    folded s6_def]
  have "init_entries es mbsize mbi ks ke s = Some (0, s6)"
    unfolding init_entries_unfold Let_def s6_def s5_def s4_def s3_def s2(1) option.case
    using fits by simp
  moreover have "used_set s6 = (boot_pages es mbsize mbi ks ke \<union>
      (\<Union>e \<in> {e \<in> set es. me_type e \<noteq> 1}. entry_pages e)) \<inter> {..<detected_pages es}"
    unfolding m6(3) m5(2,3) m4(2,3) m3(2,3) s2(3,4) boot_pages_def by blast
  ultimately show ?thesis
    using m6(1,2) m5(2) m4(2) m3(2) s2(3) by (metis (no_types, lifting))
qed

section \<open>Properties\<close>

text \<open>
  A boot information block for the witnesses: 32 MB of memory, and a reserved region of one page's
  length that starts in the middle of page \<open>0x1900\<close>.
\<close>

definition demo_mbi :: "u8 list" where
  "demo_mbi =
     [80, 0, 0, 0, 0, 0, 0, 0,
      6, 0, 0, 0, 64, 0, 0, 0, 24, 0, 0, 0, 0, 0, 0, 0,
      0, 0, 0, 0, 0, 0, 0, 0, 0, 0, 0, 2, 0, 0, 0, 0, 1, 0, 0, 0, 0, 0, 0, 0,
      0, 8, 0x90, 1, 0, 0, 0, 0, 0, 0x10, 0, 0, 0, 0, 0, 0, 2, 0, 0, 0, 0, 0, 0, 0,
      0, 0, 0, 0, 8, 0, 0, 0]"

definition demo_mem :: "nat \<Rightarrow> u8" where
  "demo_mem a = (if 65536 \<le> a \<and> a < 65616 then demo_mbi ! (a - 65536) else 0)"

definition demo_entries :: "MultibootMmapEntry list" where
  "demo_entries = [\<lparr>me_addr = 0, me_len = 0x2000000, me_type = 1\<rparr>,
                   \<lparr>me_addr = 0x1900800, me_len = 0x1000, me_type = 2\<rparr>]"

lemma demo_walk: "mb_entries demo_mem (wrap32 (65536 + 8)) [] = Some demo_entries"
proof -
  have r: "rd32 demo_mem 65544 = 6" "rd32 demo_mem 65548 = 64" "rd32 demo_mem 65552 = 24"
    "rd32 demo_mem 65608 = 0" "rd64 demo_mem 65560 = 0" "rd64 demo_mem 65568 = 0x2000000"
    "rd32 demo_mem 65576 = 1" "rd64 demo_mem 65584 = 0x1900800" "rd64 demo_mem 65592 = 0x1000"
    "rd32 demo_mem 65600 = 2"
    by (simp_all add: rd64_def rd32_def demo_mem_def demo_mbi_def)
  have u: "[0..<2] = [0, 1 :: nat]" by (simp add: upt_rec)
  have "tag_entries demo_mem 65544 = Some demo_entries"
    by (simp add: tag_entries_def r sub64_id wrap32_id Let_def u read_entry_def demo_entries_def)
  then show ?thesis
    by (subst mb_entries.simps, subst mb_entries.simps) (simp add: r wrap32_id)
qed

lemma demo_detected: "detected_pages demo_entries = 8192"
  by (simp add: detected_pages_def max_physical_address_def demo_entries_def wrap64_id Let_def)

lemma demo_fits:
  "0x1000000 + (detected_pages demo_entries + 63) div 64 * 8 \<le> detected_pages demo_entries * PAGE_SIZE"
  by (simp add: demo_detected)

lemma demo_bounds:
  "list_all (\<lambda>e. me_type e \<noteq> 1 \<longrightarrow> me_addr e + me_len e + PAGE_SIZE \<le> 18446744073709551616) demo_entries"
  by (simp add: demo_entries_def)


text \<open>
  C19: boot-time initialisation.  When the tag walk ends with the memory map \<open>es\<close>, the bitmap fits
  below the detected memory and no reserved region ends within a page of \<open>2 ^ 64\<close>, MemoryInit
  succeeds with a consistent allocator whose used pages are exactly: the first megabyte, the bitmap,
  the kernel image, the boot information, and for each reserved entry the pages reached from its
  start in steps of 4096 bytes.
\<close>

theorem MemoryInit_exact:
  assumes "mb_entries mem (wrap32 (mbi + 8)) [] = Some es"
    and "0x1000000 + (detected_pages es + 63) div 64 * 8 \<le> detected_pages es * PAGE_SIZE"
    and "list_all (\<lambda>e. me_type e \<noteq> 1 \<longrightarrow> me_addr e + me_len e + PAGE_SIZE \<le> 18446744073709551616) es"
  shows "\<exists>s'. MemoryInit mem mbi ks ke s = Some (0, s') \<and> pmm_inv s' \<and>
    total_pages s' = detected_pages es \<and>
    used_set s' = (boot_pages es (rd32 mem mbi) mbi ks ke \<union>
      (\<Union>e \<in> {e \<in> set es. me_type e \<noteq> 1}. entry_pages e)) \<inter> {..<detected_pages es}"
  unfolding MemoryInit_def assms(1) option.case by (rule init_entries_spec [OF assms(2,3)])

theorem MemoryInit_exact_witness:
  "\<exists>s'. MemoryInit demo_mem 65536 0x100000 0x200000 demo_pmm = Some (0, s') \<and> pmm_inv s' \<and>
    total_pages s' = 8192 \<and> 0x1900 \<in> used_set s' \<and> 0x1901 \<notin> used_set s'"
proof -
  have pages: "entry_pages \<lparr>me_addr = 0x1900800, me_len = 0x1000, me_type = 2\<rparr> = {0x1900}"
    by (auto simp: entry_pages_def)
  have reserved: "{e \<in> set demo_entries. me_type e \<noteq> 1} =
      {\<lparr>me_addr = 0x1900800, me_len = 0x1000, me_type = 2\<rparr>}"
    by (auto simp: demo_entries_def)
  have "rd32 demo_mem 65536 = 80" by (simp add: rd32_def demo_mem_def demo_mbi_def)
  then have "0x1901 \<notin> boot_pages demo_entries (rd32 demo_mem 65536) 65536 0x100000 0x200000"
    by (simp add: boot_pages_def demo_detected wrap64_id wrap32_id)
  with MemoryInit_exact [OF demo_walk demo_fits demo_bounds,
      where ks = "0x100000" and ke = "0x200000" and s = demo_pmm] pages
  show ?thesis unfolding demo_detected reserved by auto
qed



end
