(* ===== verification/Sched_Shared.thy ===== *)
theory Sched_Shared
  imports VF_Prelude
begin

text \<open>
  The types the schedulers and the message queues share (\<open>src/kernel/sched/Shared.h\<close>): process
  states, termination reasons and privilege levels.
\<close>

datatype ProcessState =
    PROC_TERMINATED | PROC_READY | PROC_RUNNING | PROC_BLOCKED | PROC_ZOMBIE | PROC_DYING

datatype TerminationReason = TERM_NORMAL | TERM_KILLED | TERM_CRASHED | TERM_SECURITY | TERM_RESOURCE

abbreviation (input) "PROC_PRIV_SYSTEM \<equiv> (0 :: nat)"
abbreviation (input) "PROC_PRIV_NORM \<equiv> (1 :: nat)"
abbreviation (input) "PROC_PRIV_RESTRICTED \<equiv> (2 :: nat)"

end
