(* ===== verification/Ipc.thy ===== *)
theory Ipc
  imports Sched_Shared "HOL-Library.Multiset"
begin

text \<open>
  Message queues between processes (\<open>src/kernel/ipc/Ipc.c\<close>).  A queue is the C structure: 32
  message slots, the \<open>head\<close>, \<open>tail\<close> and \<open>count\<close> of a ring buffer, a counter of evicted
  messages and a bitmap of the priorities present.  The operations are the bodies of the critical
  sections; the abstraction \<open>qlist\<close> is the list of messages from head to tail, on which
  every operation has a one-line specification.
\<close>

section \<open>Data\<close>

datatype IpcMessageType =
    IPC_TYPE_DATA | IPC_TYPE_NOTIFICATION | IPC_TYPE_REQUEST | IPC_TYPE_RESPONSE
  | IPC_TYPE_SIGNAL | IPC_TYPE_BROADCAST | IPC_TYPE_URGENT

datatype IpcPriority = IPC_PRIORITY_LOW | IPC_PRIORITY_NORMAL | IPC_PRIORITY_HIGH | IPC_PRIORITY_URGENT

primrec prio_val :: "IpcPriority \<Rightarrow> nat" where
  "prio_val IPC_PRIORITY_LOW = 0"
| "prio_val IPC_PRIORITY_NORMAL = 1"
| "prio_val IPC_PRIORITY_HIGH = 2"
| "prio_val IPC_PRIORITY_URGENT = 3"

lemma prio_val_inj: "prio_val p = prio_val q \<Longrightarrow> p = q"
  by (cases p; cases q) simp_all

lemma prio_val_less [simp]: "prio_val p < 4"
  by (cases p) simp_all

text \<open>The comparisons of the enumeration in C are those of its values.\<close>

instantiation IpcPriority :: linorder
begin

definition less_eq_IpcPriority :: "IpcPriority \<Rightarrow> IpcPriority \<Rightarrow> bool" where
  "less_eq_IpcPriority p q \<longleftrightarrow> prio_val p \<le> prio_val q"

definition less_IpcPriority :: "IpcPriority \<Rightarrow> IpcPriority \<Rightarrow> bool" where
  "less_IpcPriority p q \<longleftrightarrow> prio_val p < prio_val q"

instance
  by standard (auto simp: less_eq_IpcPriority_def less_IpcPriority_def intro: prio_val_inj)

end

datatype IpcResult =
    IPC_SUCCESS | IPC_ERROR_QUEUE_FULL | IPC_ERROR_NO_PROCESS | IPC_ERROR_INVALID_MSG
  | IPC_ERROR_TIMEOUT | IPC_ERROR_INTERRUPTED

abbreviation "MAX_MESSAGES \<equiv> (32 :: nat)"
abbreviation "IPC_MAX_PAYLOAD \<equiv> (512 :: nat)"

record IpcMessage =
  sender_pid :: u32
  sequence_id :: u32
  msg_type :: IpcMessageType
  priority :: IpcPriority
  timestamp :: u64
  msg_size :: nat
  payload :: "u8 list"

record MessageQueue =
  messages :: "IpcMessage list"
  q_head :: nat
  q_tail :: nat
  q_count :: nat
  dropped_count :: u32
  priority_bitmap :: u32

text \<open>The fields of a process control block that the message system reads and writes.\<close>

record ipc_pcb =
  ipc_pid :: u32
  ipc_state :: ProcessState
  ipc_queue :: MessageQueue

section \<open>Operations on one queue\<close>

definition slot_idx :: "MessageQueue \<Rightarrow> nat \<Rightarrow> nat" where
  "slot_idx q i = (q_head q + i) mod MAX_MESSAGES"

definition update_priority_bitmap :: "IpcPriority \<Rightarrow> u32 \<Rightarrow> u32" where
  "update_priority_bitmap p b = b OR push_bit (prio_val p) 1"

definition recompute_bitmap :: "MessageQueue \<Rightarrow> MessageQueue" where
  "recompute_bitmap q =
     q\<lparr>priority_bitmap :=
        fold (\<lambda>i b. update_priority_bitmap (priority (messages q ! slot_idx q i)) b) [0..<q_count q] 0\<rparr>"

definition get_highest_priority :: "MessageQueue \<Rightarrow> nat" where
  "get_highest_priority q =
     (if priority_bitmap q = 0 then prio_val IPC_PRIORITY_NORMAL
      else unat (of_nat (clz (priority_bitmap q)) XOR (31 :: u32)))"

definition find_priority_message :: "IpcPriority \<Rightarrow> MessageQueue \<Rightarrow> nat" where
  "find_priority_message min_priority q =
     fst (fold (\<lambda>i (best_idx, best_priority, oldest_time).
             let idx = slot_idx q i; msg = messages q ! idx in
             if min_priority \<le> priority msg \<and>
                (best_priority < priority msg \<or>
                 priority msg = best_priority \<and> timestamp msg < oldest_time)
             then (idx, priority msg, timestamp msg)
             else (best_idx, best_priority, oldest_time))
           [0..<q_count q] (q_head q, IPC_PRIORITY_LOW, - 1))"

text \<open>The slot to evict from a full queue, with its priority.\<close>

definition find_lowest :: "MessageQueue \<Rightarrow> nat \<times> IpcPriority" where
  "find_lowest q =
     fold (\<lambda>i (drop_idx, lowest).
             let idx = slot_idx q i in
             if priority (messages q ! idx) < lowest then (idx, priority (messages q ! idx))
             else (drop_idx, lowest))
          [0..<q_count q] (q_head q, IPC_PRIORITY_URGENT)"

text \<open>The slot a message is written to, and the queue with its indices advanced; \<open>None\<close> if full.\<close>

definition choose_dest :: "IpcMessage \<Rightarrow> MessageQueue \<Rightarrow> (nat \<times> MessageQueue) option" where
  "choose_dest msg q =
     (if MAX_MESSAGES \<le> q_count q then
        if IPC_PRIORITY_LOW < priority msg then
          let (drop_idx, lowest) = find_lowest q in
          if lowest < priority msg then Some (drop_idx, q\<lparr>dropped_count := dropped_count q + 1\<rparr>)
          else None
        else None
      else Some (q_tail q, q\<lparr>q_tail := (q_tail q + 1) mod MAX_MESSAGES, q_count := q_count q + 1\<rparr>))"

definition enqueue :: "IpcMessage \<Rightarrow> u64 \<Rightarrow> u32 \<Rightarrow> MessageQueue \<Rightarrow> MessageQueue option" where
  "enqueue msg ticks seq q =
     (case choose_dest msg q of
        None \<Rightarrow> None
      | Some (dest, q1) \<Rightarrow>
          Some (recompute_bitmap
            (q1\<lparr>messages := (messages q1)[dest := msg\<lparr>timestamp := ticks, sequence_id := seq\<rparr>]\<rparr>)))"

text \<open>
  Removal of slot \<open>i\<close> moves the messages between the head and \<open>i\<close> up by one slot.  The first
  loop is the one of \<open>IpcReceiveMessage\<close>, which walks indices downward until it meets the head;
  the second the counted loop of \<open>IpcReceiveMessageType\<close>.
\<close>

partial_function (option) shift_to_head :: "nat \<Rightarrow> nat \<Rightarrow> IpcMessage list \<Rightarrow> IpcMessage list option" where
  "shift_to_head hd_idx i ms =
     (if i = hd_idx then Some ms
      else let prev = wrap32 (wrap32 (i + 4294967295) + MAX_MESSAGES) mod MAX_MESSAGES
           in shift_to_head hd_idx prev (ms[i := ms ! prev]))"

primrec shift_gap :: "nat \<Rightarrow> nat \<Rightarrow> IpcMessage list \<Rightarrow> IpcMessage list" where
  "shift_gap hd_idx 0 ms = ms"
| "shift_gap hd_idx (Suc j) ms =
     shift_gap hd_idx j
       (ms[(hd_idx + Suc j) mod MAX_MESSAGES := ms ! ((hd_idx + Suc j - 1) mod MAX_MESSAGES)])"

definition drop_head :: "MessageQueue \<Rightarrow> MessageQueue" where
  "drop_head q = recompute_bitmap
     (q\<lparr>q_head := (q_head q + 1) mod MAX_MESSAGES, q_count := q_count q - 1\<rparr>)"

text \<open>
  One pass of the receive loops: \<open>Some (Some (msg, q))\<close> is a message taken, \<open>Some None\<close> an
  attempt that found nothing, after which the process marks itself blocked and tries again.
\<close>

definition receive_pass :: "MessageQueue \<Rightarrow> (IpcMessage \<times> MessageQueue) option option" where
  "receive_pass q =
     (if 0 < q_count q then
        let msg_idx = find_priority_message IPC_PRIORITY_LOW q;
            msg = messages q ! msg_idx
        in case (if msg_idx \<noteq> q_head q then shift_to_head (q_head q) msg_idx (messages q)
                 else Some (messages q)) of
             None \<Rightarrow> None
           | Some ms \<Rightarrow> Some (Some (msg, drop_head (q\<lparr>messages := ms\<rparr>)))
      else Some None)"

definition receive_type_pass :: "IpcMessageType \<Rightarrow> MessageQueue \<Rightarrow> (IpcMessage \<times> MessageQueue) option" where
  "receive_type_pass ty q =
     (case find (\<lambda>i. msg_type (messages q ! slot_idx q i) = ty) [0..<q_count q] of
        None \<Rightarrow> None
      | Some i \<Rightarrow> Some (messages q ! slot_idx q i,
                      drop_head (q\<lparr>messages := shift_gap (q_head q) i (messages q)\<rparr>)))"

definition has_message_type :: "IpcMessageType \<Rightarrow> MessageQueue \<Rightarrow> bool" where
  "has_message_type ty q =
     list_ex (\<lambda>i. msg_type (messages q ! slot_idx q i) = ty) [0..<q_count q]"

definition flush_queue :: "MessageQueue \<Rightarrow> MessageQueue" where
  "flush_queue q = q\<lparr>q_head := 0, q_tail := 0, q_count := 0, priority_bitmap := 0\<rparr>"

section \<open>The system calls\<close>

text \<open>
  The state of all processes as the message system sees it: the control blocks by table slot, the
  slot of the running process, and the global sequence counter.  The scheduler's search for a PID is
  the argument \<open>lookup\<close> (\<open>GetCurrentProcessByPID\<close>), the clock the argument \<open>ticks\<close>.
\<close>

record ipc_sys =
  pcbs :: "nat \<Rightarrow> ipc_pcb"
  current :: nat
  next_sequence_id :: u32

definition upd_pcb :: "nat \<Rightarrow> (ipc_pcb \<Rightarrow> ipc_pcb) \<Rightarrow> ipc_sys \<Rightarrow> ipc_sys" where
  "upd_pcb k f s = s\<lparr>pcbs := (pcbs s)(k := f (pcbs s k))\<rparr>"

definition IpcSendMessage ::
  "(ipc_sys \<Rightarrow> u32 \<Rightarrow> nat option) \<Rightarrow> u64 \<Rightarrow> u32 \<Rightarrow> IpcMessage option \<Rightarrow> ipc_sys \<Rightarrow> IpcResult \<times> ipc_sys" where
  "IpcSendMessage lookup ticks target_pid msg s =
     (case msg of
        None \<Rightarrow> (IPC_ERROR_INVALID_MSG, s)
      | Some m \<Rightarrow>
          (case lookup s target_pid of
             None \<Rightarrow> (IPC_ERROR_NO_PROCESS, s)
           | Some k \<Rightarrow>
               (case enqueue m ticks (next_sequence_id s) (ipc_queue (pcbs s k)) of
                  None \<Rightarrow> (IPC_ERROR_QUEUE_FULL, s)
                | Some q \<Rightarrow>
                    (IPC_SUCCESS,
                     upd_pcb k (\<lambda>p. p\<lparr>ipc_queue := q,
                         ipc_state := (if ipc_state p = PROC_BLOCKED then PROC_READY else ipc_state p)\<rparr>)
                       (s\<lparr>next_sequence_id := next_sequence_id s + 1\<rparr>)))))"

definition le32 :: "u32 \<Rightarrow> u8 list" where
  "le32 w = [ucast w, ucast (drop_bit 8 w), ucast (drop_bit 16 w), ucast (drop_bit 24 w)]"

definition fill_payload :: "u8 list \<Rightarrow> u8 list" where
  "fill_payload bs = take IPC_MAX_PAYLOAD (bs @ replicate IPC_MAX_PAYLOAD 0)"

definition IpcSendRequest ::
  "(ipc_sys \<Rightarrow> u32 \<Rightarrow> nat option) \<Rightarrow> u64 \<Rightarrow> u32 \<Rightarrow> u8 list option \<Rightarrow> nat \<Rightarrow> bool \<Rightarrow> ipc_sys \<Rightarrow>
     IpcResult \<times> u32 option \<times> ipc_sys" where
  "IpcSendRequest lookup ticks target_pid request_data sz has_id s =
     (case request_data of
        None \<Rightarrow> (IPC_ERROR_INVALID_MSG, None, s)
      | Some bs \<Rightarrow>
          if IPC_MAX_PAYLOAD - 8 < sz \<or> \<not> has_id then (IPC_ERROR_INVALID_MSG, None, s)
          else
            let rid = next_sequence_id s;
                s1 = s\<lparr>next_sequence_id := next_sequence_id s + 1\<rparr>;
                msg = \<lparr>sender_pid = ipc_pid (pcbs s (current s)), sequence_id = 0,
                       msg_type = IPC_TYPE_REQUEST, priority = IPC_PRIORITY_NORMAL, timestamp = 0,
                       msg_size = sz + 8,
                       payload = fill_payload (le32 rid @ le32 0 @ take sz bs)\<rparr>;
                (r, s2) = IpcSendMessage lookup ticks target_pid (Some msg) s1
            in (r, Some rid, s2))"

definition IpcSendResponse ::
  "(ipc_sys \<Rightarrow> u32 \<Rightarrow> nat option) \<Rightarrow> u64 \<Rightarrow> u32 \<Rightarrow> u32 \<Rightarrow> u8 list option \<Rightarrow> nat \<Rightarrow> u32 \<Rightarrow> ipc_sys \<Rightarrow>
     IpcResult \<times> ipc_sys" where
  "IpcSendResponse lookup ticks target_pid request_id response_data sz status s =
     (if IPC_MAX_PAYLOAD - 8 < sz then (IPC_ERROR_INVALID_MSG, s)
      else
        let body = (case response_data of Some bs \<Rightarrow> take sz bs | None \<Rightarrow> []);
            msg = \<lparr>sender_pid = ipc_pid (pcbs s (current s)), sequence_id = 0,
                   msg_type = IPC_TYPE_RESPONSE, priority = IPC_PRIORITY_HIGH, timestamp = 0,
                   msg_size = sz + 8,
                   payload = fill_payload (le32 request_id @ le32 status @ body)\<rparr>
        in IpcSendMessage lookup ticks target_pid (Some msg) s)"

text \<open>
  A pass of the receive loops of the running process.  \<open>Some (Some msg, s)\<close> is the call
  returning \<open>IPC_SUCCESS\<close> with the message in the buffer; \<open>Some (None, s)\<close> a pass that blocks
  the process, after which the loop continues from \<open>s\<close>.
\<close>

definition IpcReceiveMessage :: "ipc_sys \<Rightarrow> (IpcMessage option \<times> ipc_sys) option" where
  "IpcReceiveMessage s =
     (case receive_pass (ipc_queue (pcbs s (current s))) of
        None \<Rightarrow> None
      | Some (Some (m, q)) \<Rightarrow> Some (Some m, upd_pcb (current s) (\<lambda>p. p\<lparr>ipc_queue := q\<rparr>) s)
      | Some None \<Rightarrow> Some (None, upd_pcb (current s) (\<lambda>p. p\<lparr>ipc_state := PROC_BLOCKED\<rparr>) s))"

definition IpcReceiveMessageType :: "IpcMessageType \<Rightarrow> ipc_sys \<Rightarrow> IpcMessage option \<times> ipc_sys" where
  "IpcReceiveMessageType ty s =
     (case receive_type_pass ty (ipc_queue (pcbs s (current s))) of
        Some (m, q) \<Rightarrow> (Some m, upd_pcb (current s) (\<lambda>p. p\<lparr>ipc_queue := q\<rparr>) s)
      | None \<Rightarrow> (None, upd_pcb (current s) (\<lambda>p. p\<lparr>ipc_state := PROC_BLOCKED\<rparr>) s))"

definition IpcGetQueueCount :: "ipc_sys \<Rightarrow> nat" where
  "IpcGetQueueCount s = q_count (ipc_queue (pcbs s (current s)))"

definition IpcHasMessages :: "ipc_sys \<Rightarrow> bool" where
  "IpcHasMessages s = (0 < IpcGetQueueCount s)"

definition IpcHasMessageType :: "IpcMessageType \<Rightarrow> ipc_sys \<Rightarrow> bool" where
  "IpcHasMessageType ty s = has_message_type ty (ipc_queue (pcbs s (current s)))"

definition IpcFlushQueue :: "ipc_sys \<Rightarrow> ipc_sys" where
  "IpcFlushQueue s = upd_pcb (current s) (\<lambda>p. p\<lparr>ipc_queue := flush_queue (ipc_queue p)\<rparr>) s"

section \<open>The queue as a list\<close>

definition qlist :: "MessageQueue \<Rightarrow> IpcMessage list" where
  "qlist q = map (\<lambda>i. messages q ! slot_idx q i) [0..<q_count q]"

definition bitmap_of :: "IpcMessage list \<Rightarrow> u32" where
  "bitmap_of xs = fold (\<lambda>m b. update_priority_bitmap (priority m) b) xs 0"

definition q_wf :: "MessageQueue \<Rightarrow> bool" where
  "q_wf q \<longleftrightarrow> length (messages q) = MAX_MESSAGES \<and> q_head q < MAX_MESSAGES \<and>
     q_count q \<le> MAX_MESSAGES \<and> q_tail q = (q_head q + q_count q) mod MAX_MESSAGES"

definition q_inv :: "MessageQueue \<Rightarrow> bool" where
  "q_inv q \<longleftrightarrow> q_wf q \<and> priority_bitmap q = bitmap_of (qlist q)"

lemma q_inv_wf: "q_inv q \<Longrightarrow> q_wf q"
  by (simp add: q_inv_def)

lemma length_qlist [simp]: "length (qlist q) = q_count q"
  by (simp add: qlist_def)

lemma nth_qlist: "i < q_count q \<Longrightarrow> qlist q ! i = messages q ! slot_idx q i"
  by (simp add: qlist_def)

lemma qlist_updates [simp]:
  "qlist (q\<lparr>priority_bitmap := b\<rparr>) = qlist q"
  "qlist (q\<lparr>dropped_count := d\<rparr>) = qlist q"
  "qlist (q\<lparr>q_tail := t\<rparr>) = qlist q"
  by (simp_all add: qlist_def slot_idx_def)

lemma recompute_bitmap_eq: "recompute_bitmap q = q\<lparr>priority_bitmap := bitmap_of (qlist q)\<rparr>"
  by (simp add: recompute_bitmap_def bitmap_of_def qlist_def fold_map o_def)

lemma q_wf_bitmap [simp]: "q_wf (q\<lparr>priority_bitmap := b\<rparr>) = q_wf q"
  by (simp add: q_wf_def)

lemma recompute_bitmap_inv [simp]:
  "q_inv (recompute_bitmap q) = q_wf q" "qlist (recompute_bitmap q) = qlist q"
  by (simp_all add: recompute_bitmap_eq q_inv_def)

lemma slot_idx_less [simp]: "slot_idx q i < MAX_MESSAGES"
  by (simp add: slot_idx_def)

lemma slot_idx_inj:
  assumes "q_head q < MAX_MESSAGES" "i < MAX_MESSAGES" "j < MAX_MESSAGES"
  shows "slot_idx q i = slot_idx q j \<longleftrightarrow> i = j"
  unfolding slot_idx_def using assms by (auto simp: mod_once split: if_splits)

lemma qlist_update:
  assumes "q_wf q" and "k < q_count q"
  shows "qlist (q\<lparr>messages := (messages q)[slot_idx q k := m]\<rparr>) = (qlist q)[k := m]"
proof (rule nth_equalityI)
  fix i assume "i < length (qlist (q\<lparr>messages := (messages q)[slot_idx q k := m]\<rparr>))"
  then have i: "i < q_count q" by simp
  have "slot_idx q i = slot_idx q k \<longleftrightarrow> i = k"
    using assms i by (intro slot_idx_inj) (auto simp: q_wf_def)
  with i assms show "qlist (q\<lparr>messages := (messages q)[slot_idx q k := m]\<rparr>) ! i = (qlist q)[k := m] ! i"
    by (auto simp: nth_qlist slot_idx_def q_wf_def nth_list_update)
qed simp

lemma qlist_append:
  assumes "q_wf q" and "q_count q < MAX_MESSAGES"
  shows "qlist (q\<lparr>q_tail := t, q_count := q_count q + 1,
      messages := (messages q)[q_tail q := m]\<rparr>) = qlist q @ [m]"
proof (rule nth_equalityI)
  let ?q = "q\<lparr>q_tail := t, q_count := q_count q + 1, messages := (messages q)[q_tail q := m]\<rparr>"
  fix i assume "i < length (qlist ?q)"
  then have i: "i < q_count q + 1" by simp
  have tail: "q_tail q = slot_idx q (q_count q)" using assms by (simp add: q_wf_def slot_idx_def)
  have "slot_idx q i = slot_idx q (q_count q) \<longleftrightarrow> i = q_count q"
    using assms i by (intro slot_idx_inj) (auto simp: q_wf_def)
  moreover have "slot_idx ?q i = slot_idx q i" by (simp add: slot_idx_def)
  ultimately show "qlist ?q ! i = (qlist q @ [m]) ! i"
    using i assms tail by (auto simp: nth_qlist nth_append nth_list_update q_wf_def)
qed simp

subsection \<open>The eviction search\<close>

text \<open>The first message of the least priority.\<close>

definition lowest_index :: "IpcMessage list \<Rightarrow> nat \<Rightarrow> bool" where
  "lowest_index xs k \<longleftrightarrow> k < length xs \<and> (\<forall>i < length xs. priority (xs ! k) \<le> priority (xs ! i)) \<and>
     (\<forall>i < k. priority (xs ! k) < priority (xs ! i))"

lemma prio_le_urgent [simp]: "p \<le> IPC_PRIORITY_URGENT" "\<not> IPC_PRIORITY_URGENT < p"
  by (cases p; simp add: less_eq_IpcPriority_def less_IpcPriority_def)+

lemma find_lowest_spec:
  assumes "q_wf q" and "0 < q_count q"
  shows "\<exists>k. lowest_index (qlist q) k \<and> find_lowest q = (slot_idx q k, priority (qlist q ! k))"
proof -
  let ?step = "\<lambda>i (drop_idx, lowest).
     let idx = slot_idx q i in
     if priority (messages q ! idx) < lowest then (idx, priority (messages q ! idx)) else (drop_idx, lowest)"
  have "n \<le> q_count q \<Longrightarrow>
      (\<exists>k < n. fold ?step [0..<n] (q_head q, IPC_PRIORITY_URGENT) = (slot_idx q k, priority (qlist q ! k)) \<and>
        (\<forall>i < n. priority (qlist q ! k) \<le> priority (qlist q ! i)) \<and>
        (\<forall>i < k. priority (qlist q ! k) < priority (qlist q ! i)))"
    if "0 < n" for n
    using that
  proof (induction n)
    case (Suc n)
    show ?case
    proof (cases "n = 0")
      case True
      have "slot_idx q 0 = q_head q" using assms by (simp add: slot_idx_def q_wf_def)
      with True Suc.prems show ?thesis
        by (auto simp: Let_def nth_qlist order.antisym not_less)
    next
      case False
      with Suc obtain k where k: "k < n"
        "fold ?step [0..<n] (q_head q, IPC_PRIORITY_URGENT) = (slot_idx q k, priority (qlist q ! k))"
        "\<forall>i < n. priority (qlist q ! k) \<le> priority (qlist q ! i)"
        "\<forall>i < k. priority (qlist q ! k) < priority (qlist q ! i)" by auto
      show ?thesis
      proof (cases "priority (qlist q ! n) < priority (qlist q ! k)")
        case True
        with k Suc.prems show ?thesis
          by (intro exI [of _ n]) (auto simp: Let_def nth_qlist less_Suc_eq intro: less_imp_le order.strict_trans2)
      next
        case False
        with k Suc.prems show ?thesis
          by (intro exI [of _ k]) (auto simp: Let_def nth_qlist less_Suc_eq not_less)
      qed
    qed
  qed simp
  from this [of "q_count q"] assms(2) show ?thesis
    by (auto simp: lowest_index_def find_lowest_def)
qed

subsection \<open>The receive search\<close>

text \<open>The message of the highest priority that was sent first, and among equals the one nearest the head.\<close>

definition before :: "IpcMessage \<Rightarrow> IpcMessage \<Rightarrow> bool" where
  "before m n \<longleftrightarrow> priority n < priority m \<or> priority m = priority n \<and> timestamp m < timestamp n"

definition best_index :: "IpcMessage list \<Rightarrow> nat \<Rightarrow> bool" where
  "best_index xs k \<longleftrightarrow> k < length xs \<and> (\<forall>i < length xs. \<not> before (xs ! i) (xs ! k)) \<and>
     (\<forall>i < k. before (xs ! k) (xs ! i))"

lemma before_trans: "before a b \<Longrightarrow> \<not> before c b \<Longrightarrow> before a c"
  by (auto simp: before_def)

lemma before_asym: "before a b \<Longrightarrow> \<not> before b a"
  by (auto simp: before_def)

lemma prio_low_le [simp]: "IPC_PRIORITY_LOW \<le> p"
  by (simp add: less_eq_IpcPriority_def)

lemma prio_not_low: "\<not> IPC_PRIORITY_LOW < p \<Longrightarrow> p = IPC_PRIORITY_LOW"
  by (simp add: order.antisym not_less)

lemma word_max_not_less: "\<not> x < - 1 \<Longrightarrow> x = - 1" for x :: u64
  by (meson linorder_neqE_linordered_idom not_less word_order.extremum_unique order.strict_iff_order
      word_order.extremum)

lemma find_priority_message_spec:
  assumes "q_wf q" and "0 < q_count q"
  shows "\<exists>k. best_index (qlist q) k \<and> find_priority_message IPC_PRIORITY_LOW q = slot_idx q k"
proof -
  let ?step = "\<lambda>i (best_idx, best_priority, oldest_time).
     let idx = slot_idx q i; msg = messages q ! idx in
     if IPC_PRIORITY_LOW \<le> priority msg \<and>
        (best_priority < priority msg \<or> priority msg = best_priority \<and> timestamp msg < oldest_time)
     then (idx, priority msg, timestamp msg) else (best_idx, best_priority, oldest_time)"
  have "\<exists>k < n. fold ?step [0..<n] (q_head q, IPC_PRIORITY_LOW, - 1) =
          (slot_idx q k, priority (qlist q ! k), timestamp (qlist q ! k)) \<and>
        (\<forall>i < n. \<not> before (qlist q ! i) (qlist q ! k)) \<and> (\<forall>i < k. before (qlist q ! k) (qlist q ! i))"
    if "0 < n" "n \<le> q_count q" for n
    using that
  proof (induction n)
    case (Suc n)
    show ?case
    proof (cases "n = 0")
      case True
      have "slot_idx q 0 = q_head q" using assms by (simp add: slot_idx_def q_wf_def)
      with True Suc.prems show ?thesis
        using prio_not_low [of "priority (messages q ! q_head q)"]
          word_max_not_less [of "timestamp (messages q ! q_head q)"]
        by (auto simp: Let_def nth_qlist before_def)
    next
      case False
      with Suc obtain k where k: "k < n"
        "fold ?step [0..<n] (q_head q, IPC_PRIORITY_LOW, - 1) =
          (slot_idx q k, priority (qlist q ! k), timestamp (qlist q ! k))"
        "\<forall>i < n. \<not> before (qlist q ! i) (qlist q ! k)"
        "\<forall>i < k. before (qlist q ! k) (qlist q ! i)" by auto
      have n: "qlist q ! n = messages q ! slot_idx q n" using Suc.prems by (simp add: nth_qlist)
      have step: "fold ?step [0..<Suc n] (q_head q, IPC_PRIORITY_LOW, - 1) =
          (if before (qlist q ! n) (qlist q ! k)
           then (slot_idx q n, priority (qlist q ! n), timestamp (qlist q ! n))
           else (slot_idx q k, priority (qlist q ! k), timestamp (qlist q ! k)))"
        using k(2) n by (simp add: Let_def before_def)
      show ?thesis
      proof (cases "before (qlist q ! n) (qlist q ! k)")
        case True
        then have better: "\<forall>i < n. before (qlist q ! n) (qlist q ! i)" using k(3) before_trans by blast
        have "\<forall>i < Suc n. \<not> before (qlist q ! i) (qlist q ! n)"
          using better before_asym less_Suc_eq by metis
        with True better show ?thesis unfolding step by (intro exI [of _ n]) simp
      next
        case False
        then have "\<forall>i < Suc n. \<not> before (qlist q ! i) (qlist q ! k)" using k(3) less_Suc_eq by metis
        with False k(1,4) show ?thesis unfolding step by (intro exI [of _ k]) simp
      qed
    qed
  qed simp
  from this [of "q_count q"] assms(2) obtain k where
    "k < q_count q" "fold ?step [0..<q_count q] (q_head q, IPC_PRIORITY_LOW, - 1) =
       (slot_idx q k, priority (qlist q ! k), timestamp (qlist q ! k))"
    "best_index (qlist q) k"
    by (auto simp: best_index_def)
  then show ?thesis by (auto simp: find_priority_message_def)
qed

subsection \<open>Closing the gap\<close>

lemma shift_gap_length [simp]: "length (shift_gap h k ms) = length ms"
  by (induction k arbitrary: ms) simp_all

lemma ring_inj:
  "\<lbrakk>h < MAX_MESSAGES; i < MAX_MESSAGES; j < MAX_MESSAGES\<rbrakk> \<Longrightarrow>
   (h + i) mod MAX_MESSAGES = (h + j) mod MAX_MESSAGES \<longleftrightarrow> i = j"
  by (auto simp: mod_once split: if_splits)

lemma shift_gap_nth:
  assumes "length ms = MAX_MESSAGES" and "h < MAX_MESSAGES" and "k < MAX_MESSAGES" and "i < MAX_MESSAGES"
  shows "shift_gap h k ms ! ((h + i) mod MAX_MESSAGES) =
    ms ! ((h + (if 0 < i \<and> i \<le> k then i - 1 else i)) mod MAX_MESSAGES)"
  using assms
proof (induction k arbitrary: ms)
  case (Suc k)
  let ?ms = "ms[(h + Suc k) mod MAX_MESSAGES := ms ! ((h + k) mod MAX_MESSAGES)]"
  have upd: "?ms ! ((h + j) mod MAX_MESSAGES) =
      (if j = Suc k then ms ! ((h + k) mod MAX_MESSAGES) else ms ! ((h + j) mod MAX_MESSAGES))"
    if "j < MAX_MESSAGES" for j
    using that Suc.prems ring_inj [of h j "Suc k"] by (auto simp: nth_list_update)
  have "shift_gap h (Suc k) ms = shift_gap h k ?ms" by simp
  moreover have "shift_gap h k ?ms ! ((h + i) mod MAX_MESSAGES) =
      ?ms ! ((h + (if 0 < i \<and> i \<le> k then i - 1 else i)) mod MAX_MESSAGES)"
    using Suc.prems by (intro Suc.IH) auto
  ultimately show ?case
    using Suc.prems(4) upd [of "if 0 < i \<and> i \<le> k then i - 1 else i"] by (auto simp: le_Suc_eq)
qed simp

lemma prev_slot:
  assumes "h < MAX_MESSAGES" and "Suc k < MAX_MESSAGES"
  shows "wrap32 (wrap32 ((h + Suc k) mod MAX_MESSAGES + 4294967295) + MAX_MESSAGES) mod MAX_MESSAGES =
    (h + k) mod MAX_MESSAGES"
proof (cases "(h + Suc k) mod MAX_MESSAGES = 0")
  case True
  then have "h + Suc k = MAX_MESSAGES" using assms by (auto simp: mod_once split: if_splits)
  then have "h + k = 31" by simp
  with True show ?thesis by (simp add: wrap32_def)
next
  case False
  then obtain j where j: "(h + Suc k) mod MAX_MESSAGES = Suc j" by (cases "(h + Suc k) mod MAX_MESSAGES") auto
  have "Suc j < MAX_MESSAGES" unfolding j [symmetric] by simp
  moreover have "(h + k) mod MAX_MESSAGES = j"
    using j assms by (auto simp: mod_once split: if_splits)
  ultimately show ?thesis unfolding j by (simp add: wrap32_def)
qed

lemma shift_to_head_eq:
  assumes "h < MAX_MESSAGES" and "k < MAX_MESSAGES"
  shows "shift_to_head h ((h + k) mod MAX_MESSAGES) ms = Some (shift_gap h k ms)"
  using assms
proof (induction k arbitrary: ms)
  case 0
  then show ?case by (subst shift_to_head.simps) simp
next
  case (Suc k)
  have "(h + Suc k) mod MAX_MESSAGES \<noteq> h"
    using Suc.prems ring_inj [of h "Suc k" 0] by simp
  then show ?case
    using Suc.IH Suc.prems prev_slot [OF Suc.prems]
    by (subst shift_to_head.simps) (simp add: Let_def)
qed

lemma remove_at:
  assumes "q_wf q" and "k < q_count q"
  shows "qlist (drop_head (q\<lparr>messages := shift_gap (q_head q) k (messages q)\<rparr>)) =
      take k (qlist q) @ drop (Suc k) (qlist q)"
    and "q_inv (drop_head (q\<lparr>messages := shift_gap (q_head q) k (messages q)\<rparr>))"
proof -
  let ?ms = "shift_gap (q_head q) k (messages q)"
  let ?q = "q\<lparr>messages := ?ms, q_head := (q_head q + 1) mod MAX_MESSAGES, q_count := q_count q - 1\<rparr>"
  have wf: "length (messages q) = MAX_MESSAGES" "q_head q < MAX_MESSAGES" "q_count q \<le> MAX_MESSAGES"
    using assms(1) by (simp_all add: q_wf_def)
  have eq: "drop_head (q\<lparr>messages := ?ms\<rparr>) = recompute_bitmap ?q" by (simp add: drop_head_def)
  have "qlist ?q = take k (qlist q) @ drop (Suc k) (qlist q)"
  proof (rule nth_equalityI)
    fix i assume "i < length (qlist ?q)"
    then have i: "i < q_count q - 1" by simp
    have "slot_idx ?q i = (q_head q + Suc i) mod MAX_MESSAGES"
      by (simp add: slot_idx_def mod_simps)
    then have "qlist ?q ! i = ?ms ! ((q_head q + Suc i) mod MAX_MESSAGES)"
      using i by (simp add: nth_qlist)
    also have "\<dots> = messages q ! slot_idx q (if i < k then i else Suc i)"
      using shift_gap_nth [OF wf(1,2), of k "Suc i"] i wf assms(2) by (auto simp: slot_idx_def)
    also have "\<dots> = (take k (qlist q) @ drop (Suc k) (qlist q)) ! i"
      using i assms(2) by (auto simp: nth_append nth_qlist min_def)
    finally show "qlist ?q ! i = (take k (qlist q) @ drop (Suc k) (qlist q)) ! i" .
  qed (use assms(2) in auto)
  then show "qlist (drop_head (q\<lparr>messages := ?ms\<rparr>)) = take k (qlist q) @ drop (Suc k) (qlist q)"
    by (simp add: eq)
  have "q_wf ?q" using assms by (cases "q_count q") (auto simp: q_wf_def mod_simps)
  then show "q_inv (drop_head (q\<lparr>messages := ?ms\<rparr>))" by (simp add: eq)
qed

subsection \<open>The operations on the list of messages\<close>

text \<open>What sending means on the list: append, or replace the first message of the least priority.\<close>

definition send_list :: "IpcMessage \<Rightarrow> IpcMessage list \<Rightarrow> IpcMessage list option \<Rightarrow> bool" where
  "send_list m xs r \<longleftrightarrow>
     (if length xs < MAX_MESSAGES then r = Some (xs @ [m])
      else if \<exists>x \<in> set xs. priority x < priority m
      then \<exists>k. lowest_index xs k \<and> r = Some (xs[k := m])
      else r = None)"

lemma lowest_index_exists_iff:
  "lowest_index xs k \<Longrightarrow> (\<exists>x \<in> set xs. priority x < p) \<longleftrightarrow> priority (xs ! k) < p"
  unfolding lowest_index_def by (metis in_set_conv_nth order.strict_trans1)

lemma stamp_priority [simp]: "priority (m\<lparr>timestamp := t, sequence_id := s\<rparr>) = priority m"
  by simp

lemma enqueue_spec:
  assumes "q_inv q"
  shows "send_list (m\<lparr>timestamp := t, sequence_id := sq\<rparr>) (qlist q) (map_option qlist (enqueue m t sq q))"
    and "enqueue m t sq q = Some q' \<Longrightarrow> q_inv q' \<and>
      dropped_count q' = (if q_count q < MAX_MESSAGES then dropped_count q else dropped_count q + 1)"
proof -
  let ?m = "m\<lparr>timestamp := t, sequence_id := sq\<rparr>"
  have wf: "q_wf q" using assms by (rule q_inv_wf)
  have "send_list ?m (qlist q) (map_option qlist (enqueue m t sq q)) \<and>
    (\<forall>q'. enqueue m t sq q = Some q' \<longrightarrow> q_inv q' \<and>
      dropped_count q' = (if q_count q < MAX_MESSAGES then dropped_count q else dropped_count q + 1))"
  proof (cases "q_count q < MAX_MESSAGES")
    case True
    let ?q = "q\<lparr>q_tail := (q_tail q + 1) mod MAX_MESSAGES, q_count := q_count q + 1,
      messages := (messages q)[q_tail q := ?m]\<rparr>"
    have "enqueue m t sq q = Some (recompute_bitmap ?q)"
      using True by (simp add: enqueue_def choose_dest_def)
    moreover have "q_wf ?q" using wf True by (auto simp: q_wf_def mod_simps)
    ultimately show ?thesis
      using True qlist_append [OF wf True] by (simp add: send_list_def recompute_bitmap_eq q_inv_def)
  next
    case False
    obtain k where k: "lowest_index (qlist q) k" "find_lowest q = (slot_idx q k, priority (qlist q ! k))"
      using find_lowest_spec [OF wf] False by auto
    have kc: "k < q_count q" using k(1) by (simp add: lowest_index_def)
    let ?q = "q\<lparr>dropped_count := dropped_count q + 1, messages := (messages q)[slot_idx q k := ?m]\<rparr>"
    have "enqueue m t sq q =
        (if priority (qlist q ! k) < priority m then Some (recompute_bitmap ?q) else None)"
      using False k(2) order.strict_trans1 [OF prio_low_le, of "priority (qlist q ! k)" "priority m"]
      by (auto simp: enqueue_def choose_dest_def)
    moreover have "q_wf ?q" using wf by (simp add: q_wf_def)
    moreover have "qlist ?q = (qlist q)[k := ?m]"
      using qlist_update [OF wf kc] by (simp add: qlist_def slot_idx_def)
    moreover have "send_list ?m (qlist q)
        (if priority (qlist q ! k) < priority m then Some ((qlist q)[k := ?m]) else None)"
      using False k(1) lowest_index_exists_iff [OF k(1), of "priority m"] by (auto simp: send_list_def)
    ultimately show ?thesis using False by (auto simp: recompute_bitmap_eq q_inv_def)
  qed
  then show "send_list ?m (qlist q) (map_option qlist (enqueue m t sq q))"
    and "enqueue m t sq q = Some q' \<Longrightarrow> q_inv q' \<and>
      dropped_count q' = (if q_count q < MAX_MESSAGES then dropped_count q else dropped_count q + 1)"
    by blast+
qed

lemma receive_pass_spec:
  assumes "q_inv q"
  shows "if qlist q = [] then receive_pass q = Some None
    else \<exists>k q'. best_index (qlist q) k \<and> receive_pass q = Some (Some (qlist q ! k, q')) \<and> q_inv q' \<and>
           dropped_count q' = dropped_count q \<and> qlist q' = take k (qlist q) @ drop (Suc k) (qlist q)"
proof (cases "q_count q = 0")
  case True
  then have "qlist q = []" by (simp add: qlist_def)
  with True show ?thesis by (simp add: receive_pass_def)
next
  case False
  have wf: "q_wf q" using assms by (rule q_inv_wf)
  obtain k where k: "best_index (qlist q) k" "find_priority_message IPC_PRIORITY_LOW q = slot_idx q k"
    using find_priority_message_spec [OF wf] False by auto
  have kc: "k < q_count q" using k(1) by (simp add: best_index_def)
  have h: "q_head q < MAX_MESSAGES" "k < MAX_MESSAGES" using wf kc by (auto simp: q_wf_def)
  let ?q = "drop_head (q\<lparr>messages := shift_gap (q_head q) k (messages q)\<rparr>)"
  have "k = 0" if "slot_idx q k = q_head q"
    using that h ring_inj [of "q_head q" k 0] by (simp add: slot_idx_def)
  then have "(if slot_idx q k \<noteq> q_head q then shift_to_head (q_head q) (slot_idx q k) (messages q)
      else Some (messages q)) = Some (shift_gap (q_head q) k (messages q))"
    using shift_to_head_eq [OF h] by (auto simp: slot_idx_def)
  then have "receive_pass q = Some (Some (qlist q ! k, ?q))"
    using False k(2) kc by (simp add: receive_pass_def Let_def nth_qlist)
  moreover have "qlist q \<noteq> []" using False by (simp add: qlist_def)
  moreover have "dropped_count ?q = dropped_count q" by (simp add: drop_head_def recompute_bitmap_def)
  ultimately show ?thesis using k(1) remove_at [OF wf kc] by auto
qed

lemma receive_type_pass_spec:
  assumes "q_inv q"
  shows "case receive_type_pass ty q of
      None \<Rightarrow> \<forall>m \<in> set (qlist q). msg_type m \<noteq> ty
    | Some (m, q') \<Rightarrow> \<exists>k < length (qlist q). m = qlist q ! k \<and> msg_type m = ty \<and>
        (\<forall>i < k. msg_type (qlist q ! i) \<noteq> ty) \<and> q_inv q' \<and> dropped_count q' = dropped_count q \<and>
        qlist q' = take k (qlist q) @ drop (Suc k) (qlist q)"
proof (cases "find (\<lambda>i. msg_type (messages q ! slot_idx q i) = ty) [0..<q_count q]")
  case None
  then have "receive_type_pass ty q = None" by (simp add: receive_type_pass_def)
  moreover have "\<forall>m \<in> set (qlist q). msg_type m \<noteq> ty" using None by (auto simp: find_None_iff qlist_def)
  ultimately show ?thesis by simp
next
  case (Some k)
  then have k: "k < q_count q" "msg_type (qlist q ! k) = ty" "\<forall>i < k. msg_type (qlist q ! i) \<noteq> ty"
    by (auto simp: find_Some_iff nth_qlist)
  have "dropped_count (drop_head (q\<lparr>messages := ms\<rparr>)) = dropped_count q" for ms
    by (simp add: drop_head_def recompute_bitmap_def)
  with Some k remove_at [OF q_inv_wf [OF assms] k(1)] show ?thesis
    by (auto simp: receive_type_pass_def nth_qlist)
qed

lemma flush_queue_spec:
  "q_inv q \<Longrightarrow> q_inv (flush_queue q) \<and> qlist (flush_queue q) = []"
  by (simp add: q_inv_def q_wf_def flush_queue_def qlist_def bitmap_of_def)

subsection \<open>The priority bitmap\<close>

lemma bit_bitmap_of: "bit (bitmap_of xs) n \<longleftrightarrow> (\<exists>m \<in> set xs. prio_val (priority m) = n)"
proof -
  have "bit (fold (\<lambda>m b. update_priority_bitmap (priority m) b) xs b0) n \<longleftrightarrow>
      bit b0 n \<or> (\<exists>m \<in> set xs. prio_val (priority m) = n)" for b0
  proof (induction xs arbitrary: b0)
    case (Cons m xs)
    have "prio_val (priority m) < 32" using prio_val_less [of "priority m"] by linarith
    then show ?case
      unfolding fold_simps o_apply Cons.IH by (auto simp: update_priority_bitmap_def bit_or_iff bit_exp_iff)
  qed simp
  from this [of 0] show ?thesis by (simp add: bitmap_of_def)
qed

lemma get_highest_priority_spec:
  assumes "q_inv q" and "qlist q \<noteq> []"
  shows "\<exists>m \<in> set (qlist q). get_highest_priority q = prio_val (priority m) \<and>
    (\<forall>n \<in> set (qlist q). priority n \<le> priority m)"
proof -
  let ?w = "priority_bitmap q"
  have bits: "bit ?w n \<longleftrightarrow> (\<exists>m \<in> set (qlist q). prio_val (priority m) = n)" for n
    using assms(1) by (simp add: q_inv_def bit_bitmap_of)
  from assms(2) obtain m0 where "m0 \<in> set (qlist q)" by (meson list.set_sel(1))
  then have "bit ?w (prio_val (priority m0))" using bits by blast
  then have nz: "?w \<noteq> 0" by auto
  let ?c = "clz ?w"
  obtain m where m: "m \<in> set (qlist q)" "prio_val (priority m) = 31 - ?c"
    using bit_clz [OF nz] bits by auto
  have "?c < 32" using clz_le [OF nz] by simp
  then have "?c \<in> {28, 29, 30, 31}" using m(2) prio_val_less [of "priority m"] by auto
  then have "unat (of_nat ?c XOR (31 :: u32)) = 31 - ?c" by auto
  moreover have "priority n \<le> priority m" if "n \<in> set (qlist q)" for n
  proof (rule ccontr)
    assume "\<not> priority n \<le> priority m"
    then have "31 - ?c < prio_val (priority n)" using m(2) by (simp add: less_eq_IpcPriority_def)
    then have "\<not> bit ?w (prio_val (priority n))" using bit_above_clz [of ?w] by simp
    with bits that show False by blast
  qed
  ultimately show ?thesis using m nz by (intro bexI [of _ m]) (simp_all add: get_highest_priority_def)
qed

section \<open>Mailboxes\<close>

text \<open>
  The interface the system relies on: a send appends its message or overwrites one, counting the
  overwrite; a receive takes one message out.  Whatever the order of calls, no message is lost
  except those counted, and none is delivered twice.
\<close>

datatype ('a, 's) mbox_op = MSend 'a | MRecv 's

fun mbox_run ::
  "('a \<Rightarrow> 'q \<Rightarrow> 'q option) \<Rightarrow> ('a \<Rightarrow> 'm) \<Rightarrow> ('s \<Rightarrow> 'q \<Rightarrow> ('m \<times> 'q) option) \<Rightarrow>
   ('a, 's) mbox_op list \<Rightarrow> 'q \<Rightarrow> 'm list \<times> 'm list \<times> 'q" where
  "mbox_run send stamp recv [] q = ([], [], q)"
| "mbox_run send stamp recv (MSend a # ops) q =
     (case send a q of
        None \<Rightarrow> mbox_run send stamp recv ops q
      | Some q1 \<Rightarrow> (let (sent, received, q') = mbox_run send stamp recv ops q1
                   in (stamp a # sent, received, q')))"
| "mbox_run send stamp recv (MRecv sel # ops) q =
     (case recv sel q of
        None \<Rightarrow> mbox_run send stamp recv ops q
      | Some (m, q1) \<Rightarrow> (let (sent, received, q') = mbox_run send stamp recv ops q1
                        in (sent, m # received, q')))"

locale mailbox =
  fixes send :: "'a \<Rightarrow> 'q \<Rightarrow> 'q option"
    and stamp :: "'a \<Rightarrow> 'm"
    and recv :: "'s \<Rightarrow> 'q \<Rightarrow> ('m \<times> 'q) option"
    and contents :: "'q \<Rightarrow> 'm list"
    and evicted :: "'q \<Rightarrow> u32"
    and invar :: "'q \<Rightarrow> bool"
  assumes send_some: "invar q \<Longrightarrow> send a q = Some q' \<Longrightarrow>
      invar q' \<and> (contents q' = contents q @ [stamp a] \<and> evicted q' = evicted q \<or>
        (\<exists>k < length (contents q). contents q' = (contents q)[k := stamp a]) \<and> evicted q' = evicted q + 1)"
    and recv_some: "invar q \<Longrightarrow> recv sel q = Some (m, q') \<Longrightarrow>
      invar q' \<and> evicted q' = evicted q \<and>
      (\<exists>k < length (contents q). m = contents q ! k \<and>
         contents q' = take k (contents q) @ drop (Suc k) (contents q))"
begin

lemma run_conserves:
  assumes "invar q" and "mbox_run send stamp recv ops q = (sent, received, q')"
  shows "invar q' \<and> (\<exists>lost. mset sent + mset (contents q) = mset received + lost + mset (contents q') \<and>
           of_nat (size lost) = evicted q' - evicted q)"
  using assms
proof (induction ops arbitrary: q sent received)
  case Nil
  then show ?case by simp
next
  case (Cons op ops)
  show ?case
  proof (cases op)
    case (MSend a)
    show ?thesis
    proof (cases "send a q")
      case None
      with MSend Cons show ?thesis by simp
    next
      case (Some q1)
      obtain sent1 where r: "mbox_run send stamp recv ops q1 = (sent1, received, q')" "sent = stamp a # sent1"
        using Cons.prems(2) MSend Some by (auto split: prod.splits)
      note s = send_some [OF Cons.prems(1) Some]
      obtain lost where l: "invar q'"
        "mset sent1 + mset (contents q1) = mset received + lost + mset (contents q')"
        "of_nat (size lost) = evicted q' - evicted q1"
        using Cons.IH [OF _ r(1)] s by blast
      from s show ?thesis
      proof (elim conjE disjE exE)
        assume "contents q1 = contents q @ [stamp a]" "evicted q1 = evicted q"
        with l r(2) show ?thesis by (intro conjI exI [of _ lost]) auto
      next
        fix k assume k: "k < length (contents q)" "contents q1 = (contents q)[k := stamp a]"
          and e: "evicted q1 = evicted q + 1"
        have "add_mset (contents q ! k) (mset (contents q1)) = add_mset (stamp a) (mset (contents q))"
          using k by (simp add: mset_update)
        with l(2) r(2) have "mset sent + mset (contents q) =
            mset received + add_mset (contents q ! k) lost + mset (contents q')"
          by (metis (no_types, lifting) mset.simps(2) union_mset_add_mset_left union_mset_add_mset_right)
        moreover have "of_nat (size (add_mset (contents q ! k) lost)) = evicted q' - evicted q"
          using l(3) e by simp
        ultimately show ?thesis using l(1) by blast
      qed
    qed
  next
    case (MRecv sel)
    show ?thesis
    proof (cases "recv sel q")
      case None
      with MRecv Cons show ?thesis by simp
    next
      case (Some mq)
      obtain m q1 where mq: "mq = (m, q1)" by force
      obtain received1 where r: "mbox_run send stamp recv ops q1 = (sent, received1, q')" "received = m # received1"
        using Cons.prems(2) MRecv Some mq by (auto split: prod.splits)
      note s = recv_some [OF Cons.prems(1) Some [unfolded mq]]
      then obtain k where k: "k < length (contents q)" "m = contents q ! k"
        "contents q1 = take k (contents q) @ drop (Suc k) (contents q)" by blast
      have "mset (contents q) = add_mset m (mset (contents q1))"
        unfolding k(2,3) using k(1) by (metis id_take_nth_drop mset.simps(2) mset_append union_mset_add_mset_right)
      with Cons.IH [OF _ r(1)] s r(2) show ?thesis by auto
    qed
  qed
qed

end

definition receive_sel :: "IpcMessageType option \<Rightarrow> MessageQueue \<Rightarrow> (IpcMessage \<times> MessageQueue) option" where
  "receive_sel sel q =
     (case sel of None \<Rightarrow> Option.bind (receive_pass q) id | Some ty \<Rightarrow> receive_type_pass ty q)"

definition stamped :: "IpcMessage \<times> u64 \<times> u32 \<Rightarrow> IpcMessage" where
  "stamped = (\<lambda>(m, t, sq). m\<lparr>timestamp := t, sequence_id := sq\<rparr>)"

definition enqueue3 :: "IpcMessage \<times> u64 \<times> u32 \<Rightarrow> MessageQueue \<Rightarrow> MessageQueue option" where
  "enqueue3 = (\<lambda>(m, t, sq). enqueue m t sq)"

interpretation mq: mailbox enqueue3 stamped receive_sel qlist dropped_count q_inv
proof
  fix q a q' assume inv: "q_inv q" and s: "enqueue3 a q = Some q'"
  obtain m t sq where a: "a = (m, t, sq)" by (cases a)
  with s have e: "enqueue m t sq q = Some q'" by (simp add: enqueue3_def)
  from enqueue_spec(1) [OF inv, where m = m and t = t and sq = sq] e enqueue_spec(2) [OF inv e]
  show "q_inv q' \<and> (qlist q' = qlist q @ [stamped a] \<and> dropped_count q' = dropped_count q \<or>
        (\<exists>k < length (qlist q). qlist q' = (qlist q)[k := stamped a]) \<and> dropped_count q' = dropped_count q + 1)"
    by (auto simp: a stamped_def send_list_def lowest_index_def split: if_splits)
next
  fix q sel m q' assume inv: "q_inv q" and r: "receive_sel sel q = Some (m, q')"
  show "q_inv q' \<and> dropped_count q' = dropped_count q \<and>
      (\<exists>k < length (qlist q). m = qlist q ! k \<and> qlist q' = take k (qlist q) @ drop (Suc k) (qlist q))"
  proof (cases sel)
    case None
    with r receive_pass_spec [OF inv] show ?thesis
      by (auto simp: receive_sel_def best_index_def split: if_splits)
  next
    case (Some ty)
    with r receive_type_pass_spec [OF inv, of ty] show ?thesis by (auto simp: receive_sel_def)
  qed
qed

section \<open>All processes\<close>

definition sys_inv :: "ipc_sys \<Rightarrow> bool" where
  "sys_inv s \<longleftrightarrow> (\<forall>k. q_inv (ipc_queue (pcbs s k)))"

text \<open>
  What a process is waiting for: \<open>waits k = None\<close> when process \<open>k\<close> is in no receive call,
  \<open>Some None\<close> while it is in the loop of \<open>IpcReceiveMessage\<close>, and \<open>Some (Some ty)\<close> while it is in the
  loop of \<open>IpcReceiveMessageType\<close> for the type \<open>ty\<close>.  It records the call whose loop runs and is not
  read by the code.
\<close>

type_synonym waits = "nat \<Rightarrow> IpcMessageType option option"

definition wanted :: "IpcMessageType option \<Rightarrow> IpcMessage \<Rightarrow> bool" where
  "wanted sel m = (case sel of None \<Rightarrow> True | Some ty \<Rightarrow> msg_type m = ty)"

definition blocked_ok :: "ipc_sys \<Rightarrow> waits \<Rightarrow> bool" where
  "blocked_ok s w \<longleftrightarrow> (\<forall>k. ipc_state (pcbs s k) = PROC_BLOCKED \<longrightarrow>
     (\<exists>sel. w k = Some sel \<and> (\<forall>m \<in> set (qlist (ipc_queue (pcbs s k))). \<not> wanted sel m)))"

lemma sys_inv_upd:
  "sys_inv s \<Longrightarrow> q_inv (ipc_queue (f (pcbs s k))) \<Longrightarrow> sys_inv (upd_pcb k f s)"
  by (simp add: sys_inv_def upd_pcb_def)

lemma best_index_nonempty: "best_index xs k \<Longrightarrow> xs \<noteq> []"
  by (auto simp: best_index_def)

lemma IpcReceiveMessage_cases:
  assumes "sys_inv s"
  obtains (empty) "qlist (ipc_queue (pcbs s (current s))) = []"
      and "IpcReceiveMessage s = Some (None, upd_pcb (current s) (\<lambda>p. p\<lparr>ipc_state := PROC_BLOCKED\<rparr>) s)"
  | (msg) k q' where "best_index (qlist (ipc_queue (pcbs s (current s)))) k" and "q_inv q'"
      and "qlist q' = take k (qlist (ipc_queue (pcbs s (current s)))) @
             drop (Suc k) (qlist (ipc_queue (pcbs s (current s))))"
      and "IpcReceiveMessage s = Some (Some (qlist (ipc_queue (pcbs s (current s))) ! k),
             upd_pcb (current s) (\<lambda>p. p\<lparr>ipc_queue := q'\<rparr>) s)"
proof (cases "qlist (ipc_queue (pcbs s (current s))) = []")
  case True
  with receive_pass_spec [of "ipc_queue (pcbs s (current s))"] assms show ?thesis
    by (intro empty) (simp_all add: IpcReceiveMessage_def sys_inv_def)
next
  case False
  with receive_pass_spec [of "ipc_queue (pcbs s (current s))"] assms obtain k q' where
    "best_index (qlist (ipc_queue (pcbs s (current s)))) k"
    "receive_pass (ipc_queue (pcbs s (current s))) = Some (Some (qlist (ipc_queue (pcbs s (current s))) ! k, q'))"
    "q_inv q'" "qlist q' = take k (qlist (ipc_queue (pcbs s (current s)))) @
       drop (Suc k) (qlist (ipc_queue (pcbs s (current s))))"
    by (auto simp: sys_inv_def)
  then show ?thesis by (intro msg [of k q']) (simp_all add: IpcReceiveMessage_def)
qed

lemma IpcSendMessage_cases:
  assumes "sys_inv s"
  obtains (error) "snd (IpcSendMessage lookup t pid msg s) = s"
  | (sent) k q' where "q_inv q'"
      and "snd (IpcSendMessage lookup t pid msg s) =
        upd_pcb k (\<lambda>p. p\<lparr>ipc_queue := q',
            ipc_state := (if ipc_state p = PROC_BLOCKED then PROC_READY else ipc_state p)\<rparr>)
          (s\<lparr>next_sequence_id := next_sequence_id s + 1\<rparr>)"
proof (cases msg)
  case None
  then show ?thesis by (intro error) (simp add: IpcSendMessage_def)
next
  case (Some m)
  show ?thesis
  proof (cases "lookup s pid")
    case None
    with Some show ?thesis by (intro error) (simp add: IpcSendMessage_def)
  next
    case (Some k)
    have inv: "q_inv (ipc_queue (pcbs s k))" using assms by (simp add: sys_inv_def)
    show ?thesis
    proof (cases "enqueue m t (next_sequence_id s) (ipc_queue (pcbs s k))")
      case None
      with Some \<open>msg = Some m\<close> show ?thesis by (intro error) (simp add: IpcSendMessage_def)
    next
      case (Some q')
      with \<open>lookup s pid = Some k\<close> \<open>msg = Some m\<close> enqueue_spec(2) [OF inv Some]
      show ?thesis by (intro sent [of q' k]) (simp_all add: IpcSendMessage_def)
    qed
  qed
qed

lemma IpcReceiveMessageType_cases:
  assumes "sys_inv s"
  obtains (none) "\<forall>m \<in> set (qlist (ipc_queue (pcbs s (current s)))). msg_type m \<noteq> ty"
      and "IpcReceiveMessageType ty s = (None, upd_pcb (current s) (\<lambda>p. p\<lparr>ipc_state := PROC_BLOCKED\<rparr>) s)"
  | (msg) m q' where "m \<in> set (qlist (ipc_queue (pcbs s (current s))))" and "msg_type m = ty" and "q_inv q'"
      and "IpcReceiveMessageType ty s = (Some m, upd_pcb (current s) (\<lambda>p. p\<lparr>ipc_queue := q'\<rparr>) s)"
proof -
  let ?q = "ipc_queue (pcbs s (current s))"
  have inv: "q_inv ?q" using assms by (simp add: sys_inv_def)
  show thesis
  proof (cases "receive_type_pass ty ?q")
    case None
    with receive_type_pass_spec [OF inv, of ty] show ?thesis
      by (intro none) (simp_all add: IpcReceiveMessageType_def)
  next
    case (Some r)
    obtain m q' where r: "r = (m, q')" by (cases r)
    with Some receive_type_pass_spec [OF inv, of ty] have "m \<in> set (qlist ?q)" "msg_type m = ty" "q_inv q'"
      using nth_mem by fastforce+
    with Some r show ?thesis by (intro msg [of m q']) (simp_all add: IpcReceiveMessageType_def)
  qed
qed

text \<open>One pass of the receive call that asks for \<open>sel\<close>.\<close>

definition ipc_receive :: "IpcMessageType option \<Rightarrow> ipc_sys \<Rightarrow> (IpcMessage option \<times> ipc_sys) option" where
  "ipc_receive sel s = (case sel of None \<Rightarrow> IpcReceiveMessage s | Some ty \<Rightarrow> Some (IpcReceiveMessageType ty s))"

lemma ipc_receive_cases:
  assumes "sys_inv s" and "ipc_receive sel s = Some (r, s')"
  obtains (none) "\<forall>m \<in> set (qlist (ipc_queue (pcbs s (current s)))). \<not> wanted sel m" and "r = None"
      and "s' = upd_pcb (current s) (\<lambda>p. p\<lparr>ipc_state := PROC_BLOCKED\<rparr>) s"
  | (msg) m q' where "m \<in> set (qlist (ipc_queue (pcbs s (current s))))" and "wanted sel m" and "q_inv q'"
      and "r = Some m" and "s' = upd_pcb (current s) (\<lambda>p. p\<lparr>ipc_queue := q'\<rparr>) s"
proof (cases sel)
  case None
  from assms(1) show thesis
  proof (cases rule: IpcReceiveMessage_cases)
    case empty
    with None assms(2) show ?thesis by (intro none) (simp_all add: ipc_receive_def)
  next
    case (msg k q')
    then have "qlist (ipc_queue (pcbs s (current s))) ! k \<in> set (qlist (ipc_queue (pcbs s (current s))))"
      by (auto simp: best_index_def)
    with msg None assms(2) show ?thesis by (intro that(2)) (auto simp: ipc_receive_def wanted_def)
  qed
next
  case (Some ty)
  from assms(1) show thesis
    by (cases rule: IpcReceiveMessageType_cases [where ty = ty])
      (use Some assms(2) that in \<open>auto simp: ipc_receive_def wanted_def\<close>)
qed

text \<open>
  The interleavings of the system: any process sends a message, a request or a response, the running
  process makes a pass of its receive loop or flushes its queue, the scheduler switches processes and
  changes states other than to blocked.  A receive call stays in its loop until it has a message: a
  process whose last pass found nothing makes passes of the same call only, and does not flush.
\<close>

inductive ipc_step :: "(ipc_sys \<Rightarrow> u32 \<Rightarrow> nat option) \<Rightarrow> ipc_sys \<times> waits \<Rightarrow> ipc_sys \<times> waits \<Rightarrow> bool"
  for lookup where
  send: "ipc_step lookup (s, w) (snd (IpcSendMessage lookup ticks pid msg s), w)"
| request: "ipc_step lookup (s, w) (snd (snd (IpcSendRequest lookup ticks pid data sz has_id s)), w)"
| respond: "ipc_step lookup (s, w) (snd (IpcSendResponse lookup ticks pid rid data sz status s), w)"
| receive: "w (current s) = None \<or> w (current s) = Some sel \<Longrightarrow> ipc_receive sel s = Some (r, s') \<Longrightarrow>
    ipc_step lookup (s, w) (s', w(current s := (case r of None \<Rightarrow> Some sel | Some m \<Rightarrow> None)))"
| flush: "w (current s) = None \<Longrightarrow> ipc_step lookup (s, w) (IpcFlushQueue s, w)"
| switch: "ipc_step lookup (s, w) (s\<lparr>current := k\<rparr>, w)"
| sched: "st \<noteq> PROC_BLOCKED \<Longrightarrow> ipc_step lookup (s, w) (upd_pcb k (\<lambda>p. p\<lparr>ipc_state := st\<rparr>) s, w)"

lemma IpcSendMessage_inv:
  assumes "sys_inv s" and "blocked_ok s w"
  shows "sys_inv (snd (IpcSendMessage lookup ticks pid msg s)) \<and> blocked_ok (snd (IpcSendMessage lookup ticks pid msg s)) w"
  using assms(1)
  by (cases rule: IpcSendMessage_cases [where lookup = lookup and t = ticks and pid = pid and msg = msg])
    (use assms in \<open>auto simp: sys_inv_def blocked_ok_def upd_pcb_def\<close>)

lemma IpcSendRequest_inv:
  assumes "sys_inv s" and "blocked_ok s w"
  shows "sys_inv (snd (snd (IpcSendRequest lookup ticks pid data sz has_id s)))
    \<and> blocked_ok (snd (snd (IpcSendRequest lookup ticks pid data sz has_id s))) w"
proof -
  have "sys_inv (s\<lparr>next_sequence_id := i\<rparr>)" "blocked_ok (s\<lparr>next_sequence_id := i\<rparr>) w" for i
    using assms by (simp_all add: sys_inv_def blocked_ok_def)
  then show ?thesis
    using assms IpcSendMessage_inv [of "s\<lparr>next_sequence_id := next_sequence_id s + 1\<rparr>" w]
    by (auto simp: IpcSendRequest_def Let_def case_prod_beta split: option.split)
qed

lemma IpcSendResponse_inv:
  assumes "sys_inv s" and "blocked_ok s w"
  shows "sys_inv (snd (IpcSendResponse lookup ticks pid rid data sz status s))
    \<and> blocked_ok (snd (IpcSendResponse lookup ticks pid rid data sz status s)) w"
  using assms IpcSendMessage_inv [OF assms] by (auto simp: IpcSendResponse_def Let_def)

lemma ipc_receive_inv:
  assumes inv: "sys_inv s" "blocked_ok s w" and w: "w (current s) = None \<or> w (current s) = Some sel"
    and r: "ipc_receive sel s = Some (r, s')"
  shows "sys_inv s' \<and> blocked_ok s' (w(current s := (case r of None \<Rightarrow> Some sel | Some m \<Rightarrow> None)))"
  using inv(1) r
proof (cases rule: ipc_receive_cases)
  case none
  with inv show ?thesis by (auto simp: sys_inv_def blocked_ok_def upd_pcb_def)
next
  case (msg m q')
  then have "ipc_state (pcbs s (current s)) \<noteq> PROC_BLOCKED" using inv(2) w by (auto simp: blocked_ok_def)
  with msg inv show ?thesis by (auto simp: sys_inv_def blocked_ok_def upd_pcb_def)
qed

lemma ipc_step_inv:
  "ipc_step lookup sw sw' \<Longrightarrow> sys_inv (fst sw) \<Longrightarrow> blocked_ok (fst sw) (snd sw) \<Longrightarrow>
     sys_inv (fst sw') \<and> blocked_ok (fst sw') (snd sw')"
proof (induction rule: ipc_step.induct)
  case (receive w s sel r s')
  then show ?case using ipc_receive_inv [of s w sel r s'] by (simp only: fst_conv snd_conv)
next
  case (flush w s)
  then show ?case
    using flush_queue_spec by (auto simp: sys_inv_def blocked_ok_def upd_pcb_def IpcFlushQueue_def)
qed (simp_all add: IpcSendMessage_inv IpcSendRequest_inv IpcSendResponse_inv,
  auto simp: sys_inv_def blocked_ok_def upd_pcb_def)

lemma ipc_steps_inv:
  "(ipc_step lookup)\<^sup>*\<^sup>* sw sw' \<Longrightarrow> sys_inv (fst sw) \<Longrightarrow> blocked_ok (fst sw) (snd sw) \<Longrightarrow>
     sys_inv (fst sw') \<and> blocked_ok (fst sw') (snd sw')"
  by (induction rule: rtranclp_induct) (use ipc_step_inv in auto)

lemma has_message_type_iff: "has_message_type ty q \<longleftrightarrow> (\<exists>m \<in> set (qlist q). msg_type m = ty)"
  by (auto simp: has_message_type_def list_ex_iff qlist_def)

section \<open>Properties\<close>

text \<open>A queue whose two messages straddle the end of the ring, and a system of idle processes.\<close>

definition demo_msg :: "IpcPriority \<Rightarrow> u64 \<Rightarrow> IpcMessage" where
  "demo_msg p t = \<lparr>sender_pid = 1, sequence_id = 0, msg_type = IPC_TYPE_DATA, priority = p,
     timestamp = t, msg_size = 0, payload = replicate IPC_MAX_PAYLOAD 0\<rparr>"

definition demo_queue :: MessageQueue where
  "demo_queue = \<lparr>messages = (replicate 32 (demo_msg IPC_PRIORITY_LOW 0))[31 := demo_msg IPC_PRIORITY_LOW 5,
       0 := demo_msg IPC_PRIORITY_HIGH 7],
     q_head = 31, q_tail = 1, q_count = 2, dropped_count = 0, priority_bitmap = 5\<rparr>"

definition demo_sys :: ipc_sys where
  "demo_sys = \<lparr>pcbs = (\<lambda>k. \<lparr>ipc_pid = of_nat k, ipc_state = PROC_READY, ipc_queue = demo_queue\<rparr>),
     current = 1, next_sequence_id = 1\<rparr>"

lemma demo_qlist: "qlist demo_queue = [demo_msg IPC_PRIORITY_LOW 5, demo_msg IPC_PRIORITY_HIGH 7]"
  by (simp add: qlist_def demo_queue_def slot_idx_def upt_rec)

lemma demo_queue_inv: "q_inv demo_queue"
proof -
  have "bitmap_of (qlist demo_queue) = 5"
    by (simp add: demo_qlist bitmap_of_def update_priority_bitmap_def demo_msg_def)
  then show ?thesis by (simp add: q_inv_def) (simp add: q_wf_def demo_queue_def)
qed

lemma demo_sys_inv: "sys_inv demo_sys" "\<forall>k. ipc_state (pcbs demo_sys k) \<noteq> PROC_BLOCKED"
  using demo_queue_inv by (simp_all add: sys_inv_def demo_sys_def)

text \<open>
  C21: IpcSendMessage on every path.  A missing message and an unknown PID are reported and change
  nothing.  Otherwise the message, stamped with the clock and the next sequence number, is appended
  to the receiver's queue, or if the queue is full it replaces the first message of the least
  priority present, provided that priority is lower than its own; if not, the call reports a full
  queue and changes nothing.  On success a blocked receiver becomes ready and nothing else in the
  system changes.
\<close>

theorem IpcSendMessage_correct:
  assumes "sys_inv s"
  shows "case (msg, lookup s pid) of
      (None, _) \<Rightarrow> IpcSendMessage lookup t pid msg s = (IPC_ERROR_INVALID_MSG, s)
    | (Some m, None) \<Rightarrow> IpcSendMessage lookup t pid msg s = (IPC_ERROR_NO_PROCESS, s)
    | (Some m, Some k) \<Rightarrow>
        (\<exists>r. send_list (m\<lparr>timestamp := t, sequence_id := next_sequence_id s\<rparr>) (qlist (ipc_queue (pcbs s k)))
               (map_option qlist r) \<and>
           (case r of
              None \<Rightarrow> IpcSendMessage lookup t pid msg s = (IPC_ERROR_QUEUE_FULL, s)
            | Some q \<Rightarrow> q_inv q \<and> IpcSendMessage lookup t pid msg s =
                (IPC_SUCCESS,
                 s\<lparr>next_sequence_id := next_sequence_id s + 1,
                   pcbs := (pcbs s)(k := (pcbs s k)\<lparr>ipc_queue := q,
                     ipc_state := (if ipc_state (pcbs s k) = PROC_BLOCKED then PROC_READY
                                   else ipc_state (pcbs s k))\<rparr>)\<rparr>)))"
proof (cases msg)
  case None
  then show ?thesis by (simp add: IpcSendMessage_def)
next
  case msg: (Some m)
  show ?thesis
  proof (cases "lookup s pid")
    case None
    with msg show ?thesis by (simp add: IpcSendMessage_def)
  next
    case (Some k)
    have inv: "q_inv (ipc_queue (pcbs s k))" using assms by (simp add: sys_inv_def)
    note e = enqueue_spec [OF inv, where m = m and t = t and sq = "next_sequence_id s"]
    from e(1) msg Some show ?thesis
      by (cases "enqueue m t (next_sequence_id s) (ipc_queue (pcbs s k))")
        (use e(2) in \<open>auto simp: IpcSendMessage_def upd_pcb_def intro!: exI
           [of _ "enqueue m t (next_sequence_id s) (ipc_queue (pcbs s k))"]\<close>)
  qed
qed

theorem IpcSendMessage_correct_witness:
  "\<exists>q. sys_inv demo_sys \<and> q_inv q \<and>
     qlist q = qlist demo_queue @ [demo_msg IPC_PRIORITY_LOW 9\<lparr>sequence_id := 1\<rparr>] \<and>
     fst (IpcSendMessage (\<lambda>s pid. Some 3) 9 7 (Some (demo_msg IPC_PRIORITY_LOW 0)) demo_sys) = IPC_SUCCESS"
  using IpcSendMessage_correct [OF demo_sys_inv(1), where msg = "Some (demo_msg IPC_PRIORITY_LOW 0)" and
      lookup = "\<lambda>s pid. Some 3" and pid = 7 and t = 9]
    demo_sys_inv(1)
  by (auto simp: send_list_def demo_sys_def demo_qlist demo_msg_def split: option.splits)

text \<open>
  C22: a pass of IpcReceiveMessage always ends.  If the running process has messages it delivers the
  one of highest priority, the earliest sent among those, and removes exactly it, keeping the order
  of the rest; if it has none, the process becomes blocked and nothing else changes.
\<close>

theorem IpcReceiveMessage_correct:
  assumes "sys_inv s"
  shows "if qlist (ipc_queue (pcbs s (current s))) = []
    then IpcReceiveMessage s =
      Some (None, s\<lparr>pcbs := (pcbs s)(current s := (pcbs s (current s))\<lparr>ipc_state := PROC_BLOCKED\<rparr>)\<rparr>)
    else \<exists>k q. best_index (qlist (ipc_queue (pcbs s (current s)))) k \<and> q_inv q \<and>
      qlist q = take k (qlist (ipc_queue (pcbs s (current s)))) @
                drop (Suc k) (qlist (ipc_queue (pcbs s (current s)))) \<and>
      IpcReceiveMessage s = Some (Some (qlist (ipc_queue (pcbs s (current s))) ! k),
        s\<lparr>pcbs := (pcbs s)(current s := (pcbs s (current s))\<lparr>ipc_queue := q\<rparr>)\<rparr>)"
  using assms
proof (cases rule: IpcReceiveMessage_cases)
  case empty
  then show ?thesis by (simp add: upd_pcb_def)
next
  case (msg k q')
  then have "qlist (ipc_queue (pcbs s (current s))) \<noteq> []" using best_index_nonempty by blast
  with msg show ?thesis by (auto simp: upd_pcb_def)
qed

theorem IpcReceiveMessage_correct_witness:
  "sys_inv demo_sys \<and> (\<exists>s'. IpcReceiveMessage demo_sys = Some (Some (demo_msg IPC_PRIORITY_HIGH 7), s'))"
proof -
  have q: "ipc_queue (pcbs demo_sys (current demo_sys)) = demo_queue" by (simp add: demo_sys_def)
  have "\<not> best_index (qlist demo_queue) 0"
    by (auto simp: best_index_def demo_qlist before_def demo_msg_def less_IpcPriority_def)
  then have "k = 1" if "best_index (qlist demo_queue) k" for k
    using that by (cases k) (auto simp: best_index_def demo_qlist)
  moreover have "qlist demo_queue ! 1 = demo_msg IPC_PRIORITY_HIGH 7" "qlist demo_queue \<noteq> []"
    by (simp_all add: demo_qlist)
  ultimately show ?thesis
    using IpcReceiveMessage_correct [OF demo_sys_inv(1)] demo_sys_inv(1) unfolding q by auto
qed

text \<open>
  C4: conservation.  For every sequence of sends and receives, by priority or by type, on a queue,
  the messages accepted together with those present at the start are exactly those received,
  those still queued, and those evicted; the evicted ones are counted by \<open>dropped_count\<close>, up to the
  wrap-around of that 32-bit counter.
\<close>

theorem queue_conserves_messages:
  assumes "q_inv q" and "mbox_run enqueue3 stamped receive_sel ops q = (sent, received, q')"
  shows "q_inv q' \<and> (\<exists>lost. mset sent + mset (qlist q) = mset received + lost + mset (qlist q') \<and>
    of_nat (size lost) = dropped_count q' - dropped_count q)"
  using assms by (rule mq.run_conserves)

theorem queue_conserves_messages_witness:
  "\<exists>sent received q' lost. q_inv demo_queue \<and>
     mbox_run enqueue3 stamped receive_sel [MSend (demo_msg IPC_PRIORITY_HIGH 0, 9, 4), MRecv None, MRecv None]
       demo_queue = (sent, received, q') \<and>
     mset sent + mset (qlist demo_queue) = mset received + lost + mset (qlist q')"
proof -
  obtain sent received q' where
    "mbox_run enqueue3 stamped receive_sel [MSend (demo_msg IPC_PRIORITY_HIGH 0, 9, 4), MRecv None, MRecv None]
       demo_queue = (sent, received, q')" by (meson prod_cases3)
  with queue_conserves_messages [OF demo_queue_inv this] demo_queue_inv show ?thesis by blast
qed

text \<open>
  C23: no lost wake-up.  From a state in which no process is blocked or in a receive call, however
  sends, requests, responses, passes of both receive calls, flushes and scheduling decisions
  interleave, a process that is blocked is in a receive call, and its queue holds nothing that call
  would take: the queue is empty if the process waits in \<open>IpcReceiveMessage\<close>, and holds no message
  of the type it waits for if it waits in \<open>IpcReceiveMessageType\<close>.  Every queue stays consistent.
\<close>

theorem blocked_process_has_no_messages:
  assumes "(ipc_step lookup)\<^sup>*\<^sup>* (s, \<lambda>_. None) (s', w)" and "sys_inv s" and "\<forall>k. ipc_state (pcbs s k) \<noteq> PROC_BLOCKED"
    and "ipc_state (pcbs s' k) = PROC_BLOCKED"
  shows "q_inv (ipc_queue (pcbs s' k)) \<and> (case w k of
      None \<Rightarrow> False
    | Some None \<Rightarrow> q_count (ipc_queue (pcbs s' k)) = 0
    | Some (Some ty) \<Rightarrow> \<not> has_message_type ty (ipc_queue (pcbs s' k)))"
proof -
  have "blocked_ok s (\<lambda>_. None)" using assms(3) by (simp add: blocked_ok_def)
  with ipc_steps_inv [OF assms(1)] assms(2) have inv: "sys_inv s'" "blocked_ok s' w" by simp_all
  then obtain sel where sel: "w k = Some sel" "\<forall>m \<in> set (qlist (ipc_queue (pcbs s' k))). \<not> wanted sel m"
    using assms(4) by (auto simp: blocked_ok_def)
  have "q_count (ipc_queue (pcbs s' k)) = 0" if "sel = None"
    using sel(2) that length_qlist [of "ipc_queue (pcbs s' k)"]
    by (cases "qlist (ipc_queue (pcbs s' k))") (auto simp: wanted_def)
  with inv(1) sel show ?thesis
    by (auto simp: sys_inv_def wanted_def has_message_type_iff split: option.splits)
qed

text \<open>Process 1 has two data messages and waits for a response: it blocks, and keeps both.\<close>

theorem blocked_process_has_no_messages_witness:
  "\<exists>s' w. (ipc_step (\<lambda>s pid. None))\<^sup>*\<^sup>* (demo_sys, \<lambda>_. None) (s', w) \<and> ipc_state (pcbs s' 1) = PROC_BLOCKED \<and>
     w 1 = Some (Some IPC_TYPE_RESPONSE) \<and> q_count (ipc_queue (pcbs s' 1)) = 2 \<and>
     \<not> has_message_type IPC_TYPE_RESPONSE (ipc_queue (pcbs s' 1))"
proof -
  let ?s = "upd_pcb 1 (\<lambda>p. p\<lparr>ipc_state := PROC_BLOCKED\<rparr>) demo_sys"
  let ?w = "(\<lambda>_. None)(1 := Some (Some IPC_TYPE_RESPONSE)) :: waits"
  have c: "current demo_sys = 1" by (simp add: demo_sys_def)
  from demo_sys_inv(1) have "ipc_receive (Some IPC_TYPE_RESPONSE) demo_sys = Some (None, ?s)"
    by (cases rule: IpcReceiveMessageType_cases [where ty = IPC_TYPE_RESPONSE])
      (use demo_qlist c in \<open>auto simp: ipc_receive_def demo_sys_def demo_msg_def\<close>)
  then have "ipc_step (\<lambda>s pid. None) (demo_sys, \<lambda>_. None) (?s, ?w)"
    using ipc_step.receive [of "\<lambda>_. None" demo_sys "Some IPC_TYPE_RESPONSE" None ?s] c by simp
  then have steps: "(ipc_step (\<lambda>s pid. None))\<^sup>*\<^sup>* (demo_sys, \<lambda>_. None) (?s, ?w)" by (rule r_into_rtranclp)
  have b: "ipc_state (pcbs ?s 1) = PROC_BLOCKED" "q_count (ipc_queue (pcbs ?s 1)) = 2"
    by (simp_all add: upd_pcb_def demo_sys_def demo_queue_def)
  from blocked_process_has_no_messages [OF steps demo_sys_inv b(1)]
  have "\<not> has_message_type IPC_TYPE_RESPONSE (ipc_queue (pcbs ?s 1))" by simp
  with steps b show ?thesis by (intro exI [of _ ?s] exI [of _ ?w]) simp
qed

text \<open>
  The priority bitmap is exact, and get_highest_priority reads from it the highest priority among
  the queued messages.
\<close>

theorem get_highest_priority_exact:
  assumes "q_inv q" and "qlist q \<noteq> []"
  shows "(\<forall>p. bit (priority_bitmap q) (prio_val p) \<longleftrightarrow> (\<exists>m \<in> set (qlist q). priority m = p)) \<and>
    (\<exists>m \<in> set (qlist q). get_highest_priority q = prio_val (priority m) \<and>
       (\<forall>n \<in> set (qlist q). priority n \<le> priority m))"
proof -
  have "bit (priority_bitmap q) (prio_val p) \<longleftrightarrow> (\<exists>m \<in> set (qlist q). priority m = p)" for p
    using assms(1) prio_val_inj by (auto simp: q_inv_def bit_bitmap_of)
  then show ?thesis using get_highest_priority_spec [OF assms] by blast
qed

theorem get_highest_priority_exact_witness:
  "bit (priority_bitmap demo_queue) 2 \<and> get_highest_priority demo_queue = 2"
proof -
  have "qlist demo_queue \<noteq> []" by (simp add: demo_qlist)
  note ex = get_highest_priority_exact [OF demo_queue_inv this, unfolded demo_qlist]
  have "bit (priority_bitmap demo_queue) (prio_val IPC_PRIORITY_HIGH)"
    using ex [THEN conjunct1, rule_format, of IPC_PRIORITY_HIGH] by (simp add: demo_msg_def)
  moreover have "get_highest_priority demo_queue = 2"
    using ex by (auto simp: demo_msg_def less_eq_IpcPriority_def)
  ultimately show ?thesis by simp
qed

end
