(* ===== verification/Linked.thy ===== *)
theory Linked
  imports VF_Prelude
begin

text \<open>
  Linked structures of the kernel as lists.  Pointers are \<open>nat option\<close> (an index into a pool of
  nodes, \<open>None\<close> for NULL), a pointer field of the nodes is a function.  \<open>seg f p xs q\<close> says that
  following \<open>f\<close> from \<open>p\<close> visits exactly \<open>xs\<close> and ends at \<open>q\<close>; \<open>dseg\<close> is the same for a doubly
  linked list, with \<open>r\<close> the predecessor of the first node and \<open>r'\<close> the last node.
\<close>

section \<open>Singly linked segments\<close>

primrec seg :: "(nat \<Rightarrow> nat option) \<Rightarrow> nat option \<Rightarrow> nat list \<Rightarrow> nat option \<Rightarrow> bool" where
  "seg f p [] q \<longleftrightarrow> p = q"
| "seg f p (x # xs) q \<longleftrightarrow> p = Some x \<and> seg f (f x) xs q"

lemma seg_append: "seg f p (xs @ ys) q \<longleftrightarrow> (\<exists>r. seg f p xs r \<and> seg f r ys q)"
  by (induction xs arbitrary: p) auto

lemma seg_frame: "\<lbrakk>seg f p xs q; \<And>x. x \<in> set xs \<Longrightarrow> g x = f x\<rbrakk> \<Longrightarrow> seg g p xs q"
  by (induction xs arbitrary: p) auto

lemma seg_upd [simp]: "n \<notin> set xs \<Longrightarrow> seg (f(n := v)) p xs q = seg f p xs q"
  by (induction xs arbitrary: p) auto

lemma seg_None_iff: "seg f None xs None \<longleftrightarrow> xs = []"
  by (cases xs) auto

lemma seg_Some: "seg f (Some x) xs None \<Longrightarrow> \<exists>ys. xs = x # ys \<and> seg f (f x) ys None"
  by (cases xs) auto

lemma seg_set_last:
  "\<lbrakk>seg f p (xs @ [y]) q; distinct (xs @ [y])\<rbrakk> \<Longrightarrow> seg (f(y := v)) p (xs @ [y]) v"
  by (simp add: seg_append)

text \<open>Unlinking a node from the middle of a singly linked list.\<close>

lemma seg_unlink:
  assumes "seg f p (xs @ n # ys) None" and "distinct (xs @ n # ys)"
  shows "xs = [] \<Longrightarrow> seg f (f n) ys None"
    and "xs \<noteq> [] \<Longrightarrow> seg (f(last xs := f n)) p (xs @ ys) None"
proof -
  from assms(1) have s: "seg f p xs (Some n)" "seg f (f n) ys None" by (auto simp: seg_append)
  then show "xs = [] \<Longrightarrow> seg f (f n) ys None" by simp
  assume "xs \<noteq> []"
  then obtain zs z where xs: "xs = zs @ [z]" by (metis append_butlast_last_id)
  have "seg (f(z := f n)) p (zs @ [z]) (f n)"
    using s(1) assms(2) unfolding xs by (intro seg_set_last) auto
  moreover have "seg (f(z := f n)) (f n) ys None" using s(2) assms(2) xs by simp
  ultimately show "seg (f(last xs := f n)) p (xs @ ys) None"
    unfolding xs by (auto simp: seg_append)
qed

section \<open>Doubly linked segments\<close>

primrec dseg :: "(nat \<Rightarrow> nat option) \<Rightarrow> (nat \<Rightarrow> nat option) \<Rightarrow> nat option \<Rightarrow> nat option \<Rightarrow> nat list \<Rightarrow>
    nat option \<Rightarrow> nat option \<Rightarrow> bool" where
  "dseg nx pv r p [] r' q \<longleftrightarrow> p = q \<and> r = r'"
| "dseg nx pv r p (x # xs) r' q \<longleftrightarrow> p = Some x \<and> pv x = r \<and> dseg nx pv (Some x) (nx x) xs r' q"

lemma dseg_append:
  "dseg nx pv r p (xs @ ys) r' q \<longleftrightarrow> (\<exists>r1 p1. dseg nx pv r p xs r1 p1 \<and> dseg nx pv r1 p1 ys r' q)"
  by (induction xs arbitrary: r p) auto

lemma dseg_upd [simp]:
  "n \<notin> set xs \<Longrightarrow> dseg (nx(n := v)) pv r p xs r' q = dseg nx pv r p xs r' q"
  "n \<notin> set xs \<Longrightarrow> dseg nx (pv(n := v)) r p xs r' q = dseg nx pv r p xs r' q"
  by (induction xs arbitrary: r p) auto

definition dlist :: "(nat \<Rightarrow> nat option) \<Rightarrow> (nat \<Rightarrow> nat option) \<Rightarrow> nat option \<Rightarrow> nat list \<Rightarrow> bool" where
  "dlist nx pv p xs \<longleftrightarrow> (\<exists>r'. dseg nx pv None p xs r' None)"

lemma dlist_Nil [simp]: "dlist nx pv p [] \<longleftrightarrow> p = None"
  by (simp add: dlist_def)

lemma dlist_head: "dlist nx pv p (x # xs) \<Longrightarrow> p = Some x \<and> pv x = None"
  by (auto simp: dlist_def)

lemma dlist_None_iff: "dlist nx pv None xs \<longleftrightarrow> xs = []"
  by (cases xs) (auto simp: dlist_def)

lemma dlist_upd [simp]:
  "n \<notin> set xs \<Longrightarrow> dlist (nx(n := v)) pv p xs = dlist nx pv p xs"
  "n \<notin> set xs \<Longrightarrow> dlist nx (pv(n := v)) p xs = dlist nx pv p xs"
  by (simp_all add: dlist_def)

text \<open>Pushing a node in front: the old head gets the new node as its predecessor.\<close>

lemma dlist_push:
  assumes "dlist nx pv p xs" and "n \<notin> set xs" and "distinct xs"
  shows "dlist (nx(n := p)) (case p of None \<Rightarrow> pv(n := None) | Some m \<Rightarrow> (pv(n := None))(m := Some n))
    (Some n) (n # xs)"
proof (cases xs)
  case Nil
  with assms show ?thesis by (simp add: dlist_def)
next
  case (Cons m ys)
  with assms(1) have p: "p = Some m" by (simp add: dlist_head)
  from assms(1) Cons obtain r' where d: "dseg nx pv (Some m) (nx m) ys r' None"
    by (auto simp: dlist_def)
  have "n \<notin> set ys" "m \<notin> set ys" "m \<noteq> n" using assms(2,3) Cons by auto
  then show ?thesis using d p Cons by (auto simp: dlist_def intro!: exI [of _ r'])
qed

text \<open>Unlinking a node: its neighbours are joined.\<close>

lemma dlist_unlink:
  assumes "dlist nx pv p (xs @ n # ys)" and "distinct (xs @ n # ys)"
  defines "nx' \<equiv> (case pv n of None \<Rightarrow> nx | Some m \<Rightarrow> nx(m := nx n))"
    and "pv' \<equiv> (case nx n of None \<Rightarrow> pv | Some m \<Rightarrow> pv(m := pv n))"
  shows "dlist nx' pv' (case pv n of None \<Rightarrow> nx n | Some m \<Rightarrow> p) (xs @ ys)"
    and "pv n = None \<longleftrightarrow> xs = []"
    and "\<And>m. pv n = Some m \<Longrightarrow> m \<in> set xs" and "\<And>m. nx n = Some m \<Longrightarrow> m \<in> set ys"
proof -
  from assms(1) obtain r r' where d: "dseg nx pv None p xs r (Some n)" "pv n = r"
    "dseg nx pv (Some n) (nx n) ys r' None"
    by (auto simp: dlist_def dseg_append)
  have tail: "\<exists>r''. dseg nx pv' r (nx n) ys r'' None"
  proof (cases ys)
    case Nil
    with d(3) show ?thesis by simp
  next
    case (Cons m zs)
    with d(3) have "nx n = Some m" "dseg nx pv (Some m) (nx m) zs r' None" by auto
    moreover have "m \<notin> set zs" using assms(2) Cons by auto
    ultimately show ?thesis using d(2) Cons by (auto simp: pv'_def)
  qed
  show next_in: "\<And>m. nx n = Some m \<Longrightarrow> m \<in> set ys" using d(3) by (cases ys) auto
  have r: "r = (if xs = [] then None else Some (last xs))"
  proof (cases xs rule: rev_cases)
    case (snoc zs z)
    with d(1) show ?thesis by (auto simp: dseg_append)
  qed (use d(1) in simp)
  then show "pv n = None \<longleftrightarrow> xs = []" and "\<And>m. pv n = Some m \<Longrightarrow> m \<in> set xs"
    using d(2) by (auto split: if_splits)
  have pv_xs: "dseg nx pv' None p xs r (Some n)"
  proof (cases "nx n")
    case (Some m)
    then have "m \<notin> set xs" using next_in [of m] assms(2) by auto
    with Some d(1) show ?thesis by (simp add: pv'_def)
  qed (use d(1) in \<open>simp add: pv'_def\<close>)
  show "dlist nx' pv' (case pv n of None \<Rightarrow> nx n | Some m \<Rightarrow> p) (xs @ ys)"
  proof (cases xs rule: rev_cases)
    case Nil
    with d(2) r tail show ?thesis by (simp add: dlist_def nx'_def)
  next
    case (snoc zs z)
    with r have rz: "r = Some z" by simp
    have "dseg nx pv' None p zs (pv' z) (Some z)" using pv_xs snoc by (auto simp: dseg_append)
    moreover have "z \<notin> set zs" "z \<notin> set ys" using assms(2) snoc by auto
    ultimately have "dseg (nx(z := nx n)) pv' None p (zs @ [z]) (Some z) (nx n)"
      by (auto simp: dseg_append)
    moreover have "\<exists>r''. dseg (nx(z := nx n)) pv' (Some z) (nx n) ys r'' None"
      using tail rz \<open>z \<notin> set ys\<close> by simp
    ultimately show ?thesis
      using d(2) rz snoc by (auto simp: dlist_def nx'_def dseg_append)
  qed
qed

lemma dseg_unique:
  "dseg nx pv r p xs r1 None \<Longrightarrow> dseg nx pv r p ys r2 None \<Longrightarrow> xs = ys"
proof (induction xs arbitrary: r p ys)
  case Nil
  then show ?case by (cases ys) auto
next
  case (Cons x xs)
  then show ?case by (cases ys) auto
qed

end
