(* ===== verification/Buddy.thy ===== *)
theory Buddy
  imports Linked
begin

text \<open>
  The buddy allocator for virtual address ranges
  (\<open>src/mm/dynamic/cpp/BuddyAllocator.cpp\<close>).  The nodes of the static pool are indices below
  2048, and each pointer or integer field of the nodes is a function on them; the free lists are
  doubly linked, the chains of the hash table and of unused nodes singly linked.  The
  abstraction is the set of free blocks (address, order) and the number of unused nodes.
\<close>

section \<open>State\<close>

abbreviation "BUDDY_PAGE \<equiv> (4096 :: nat)"
abbreviation "BUDDY_MIN_ORDER \<equiv> (12 :: nat)"
abbreviation "BUDDY_NUM_ORDERS \<equiv> (19 :: nat)"
abbreviation "HASH_TABLE_SIZE \<equiv> (4096 :: nat)"
abbreviation "MAX_BUDDY_NODES \<equiv> (2048 :: nat)"

record BuddyAllocator =
  free_lists :: "nat \<Rightarrow> nat option"
  hash_table :: "nat \<Rightarrow> nat option"
  node_head :: "nat option"
  nd_base :: "nat \<Rightarrow> nat"
  nd_size :: "nat \<Rightarrow> nat"
  nd_next :: "nat \<Rightarrow> nat option"
  nd_prev :: "nat \<Rightarrow> nat option"
  nd_hnext :: "nat \<Rightarrow> nat option"

definition HashAddress :: "nat \<Rightarrow> nat" where
  "HashAddress a = wrap32 (wrap64 (a div 4096 * 2654435761)) mod HASH_TABLE_SIZE"

definition GetOrder :: "nat \<Rightarrow> nat" where
  "GetOrder sz =
     (if sz \<le> BUDDY_PAGE then 0 else 64 - clz (of_nat (sz - 1) :: u64) - BUDDY_MIN_ORDER)"

definition OrderToSize :: "nat \<Rightarrow> nat" where
  "OrderToSize order = 2 ^ (order + BUDDY_MIN_ORDER)"

section \<open>Nodes\<close>

definition InitBuddyNodePool :: "BuddyAllocator \<Rightarrow> BuddyAllocator" where
  "InitBuddyNodePool A =
     A\<lparr>node_head := Some 0,
       nd_next := (\<lambda>i. if i < MAX_BUDDY_NODES - 1 then Some (i + 1)
                       else if i = MAX_BUDDY_NODES - 1 then None else nd_next A i)\<rparr>"

definition AllocBuddyNode :: "BuddyAllocator \<Rightarrow> nat option \<times> BuddyAllocator" where
  "AllocBuddyNode A =
     (case node_head A of
        None \<Rightarrow> (None, A)
      | Some n \<Rightarrow> (Some n, A\<lparr>node_head := nd_next A n\<rparr>))"

definition ReleaseBuddyNode :: "nat \<Rightarrow> BuddyAllocator \<Rightarrow> BuddyAllocator" where
  "ReleaseBuddyNode n A = A\<lparr>nd_next := (nd_next A)(n := node_head A), node_head := Some n\<rparr>"

section \<open>Free blocks\<close>

definition AddFreeBlock :: "nat \<Rightarrow> nat \<Rightarrow> BuddyAllocator \<Rightarrow> BuddyAllocator" where
  "AddFreeBlock a order A =
     (if BUDDY_NUM_ORDERS \<le> order then A
      else case AllocBuddyNode A of
          (None, A1) \<Rightarrow> A1
        | (Some n, A1) \<Rightarrow>
            let A2 = A1\<lparr>nd_base := (nd_base A1)(n := a), nd_size := (nd_size A1)(n := OrderToSize order),
                        nd_prev := (nd_prev A1)(n := None), nd_hnext := (nd_hnext A1)(n := None)\<rparr>;
                A3 = A2\<lparr>nd_next := (nd_next A2)(n := free_lists A2 order)\<rparr>;
                A4 = (case free_lists A3 order of
                        None \<Rightarrow> A3
                      | Some m \<Rightarrow> A3\<lparr>nd_prev := (nd_prev A3)(m := Some n)\<rparr>);
                A5 = A4\<lparr>free_lists := (free_lists A4)(order := Some n)\<rparr>;
                h = HashAddress a;
                A6 = A5\<lparr>nd_hnext := (nd_hnext A5)(n := hash_table A5 h)\<rparr>
            in A6\<lparr>hash_table := (hash_table A6)(h := Some n)\<rparr>)"

text \<open>The search along a hash chain; \<open>None\<close> would be a cyclic chain.\<close>

partial_function (option) find_chain ::
  "BuddyAllocator \<Rightarrow> nat \<Rightarrow> nat \<Rightarrow> nat option \<Rightarrow> nat option option" where
  "find_chain A a sz cur =
     (if cur = None then Some None
      else if nd_base A (the cur) = a \<and> nd_size A (the cur) = sz then Some cur
      else find_chain A a sz (nd_hnext A (the cur)))"

definition FindFreeBlock :: "nat \<Rightarrow> nat \<Rightarrow> BuddyAllocator \<Rightarrow> nat option option" where
  "FindFreeBlock a order A = find_chain A a (OrderToSize order) (hash_table A (HashAddress a))"

partial_function (option) unlink_hash ::
  "nat \<Rightarrow> nat \<Rightarrow> nat option \<Rightarrow> nat option \<Rightarrow> BuddyAllocator \<Rightarrow> BuddyAllocator option" where
  "unlink_hash n h prev_h curr_h A =
     (if curr_h = None then Some A
      else if curr_h = Some n
      then Some (case prev_h of
                   Some p \<Rightarrow> A\<lparr>nd_hnext := (nd_hnext A)(p := nd_hnext A n)\<rparr>
                 | None \<Rightarrow> A\<lparr>hash_table := (hash_table A)(h := nd_hnext A n)\<rparr>)
      else unlink_hash n h curr_h (nd_hnext A (the curr_h)) A)"

definition RemoveFreeBlock :: "nat \<Rightarrow> nat \<Rightarrow> BuddyAllocator \<Rightarrow> BuddyAllocator option" where
  "RemoveFreeBlock n order A =
     (let A1 = (case nd_prev A n of
                  Some p \<Rightarrow> A\<lparr>nd_next := (nd_next A)(p := nd_next A n)\<rparr>
                | None \<Rightarrow> A\<lparr>free_lists := (free_lists A)(order := nd_next A n)\<rparr>);
          A2 = (case nd_next A1 n of
                  Some m \<Rightarrow> A1\<lparr>nd_prev := (nd_prev A1)(m := nd_prev A1 n)\<rparr>
                | None \<Rightarrow> A1);
          h = HashAddress (nd_base A2 n)
      in map_option (ReleaseBuddyNode n) (unlink_hash n h None (hash_table A2 h) A2))"

section \<open>The allocator\<close>

fun fitting_order :: "nat \<Rightarrow> nat \<Rightarrow> nat" where
  "fitting_order 0 remaining = 0"
| "fitting_order (Suc order) remaining =
     (if remaining < OrderToSize (Suc order) then fitting_order order remaining else Suc order)"

lemma fitting_order_fits: "BUDDY_PAGE \<le> remaining \<Longrightarrow> OrderToSize (fitting_order k remaining) \<le> remaining"
  by (induction k) (auto simp: OrderToSize_def)

lemma fitting_order_le: "fitting_order k remaining \<le> k"
  by (induction k) (auto intro: le_SucI)

function carve :: "nat \<Rightarrow> nat \<Rightarrow> BuddyAllocator \<Rightarrow> BuddyAllocator" where
  "carve a remaining A =
     (if BUDDY_PAGE \<le> remaining
      then let order = fitting_order (BUDDY_NUM_ORDERS - 1) remaining
           in carve (wrap64 (a + OrderToSize order)) (remaining - OrderToSize order) (AddFreeBlock a order A)
      else A)"
  by pat_completeness auto
termination
proof (relation "measure (\<lambda>(a, remaining, A). remaining)")
  fix a remaining :: nat and A :: BuddyAllocator and order
  assume "BUDDY_PAGE \<le> remaining"
  then have "0 < remaining" "0 < OrderToSize order" by (auto simp: OrderToSize_def)
  then show "((wrap64 (a + OrderToSize order), remaining - OrderToSize order, AddFreeBlock a order A),
      (a, remaining, A)) \<in> measure (\<lambda>(a, remaining, A). remaining)" by simp
qed simp

declare carve.simps [simp del]

definition BuddyAllocator_Create :: "nat \<Rightarrow> nat \<Rightarrow> BuddyAllocator \<Rightarrow> BuddyAllocator" where
  "BuddyAllocator_Create start sz A =
     carve start sz
       (InitBuddyNodePool (A\<lparr>free_lists := (\<lambda>i. None), hash_table := (\<lambda>i. None)\<rparr>))"

text \<open>
  The region the virtual memory manager hands over at start-up (\<open>VMM::init\<close> of
  \<open>src/mm/VMem.cpp\<close>): from \<open>VIRT_ADDR_SPACE_LOW_START\<close> to the end of the lower half.
\<close>

definition init_virtual_ranges :: "BuddyAllocator \<Rightarrow> BuddyAllocator" where
  "init_virtual_ranges A = BuddyAllocator_Create 0x1000 (0x7FFFFFFFFFFF - 0x1000 + 1) A"

text \<open>The splitting loop of an allocation.\<close>

fun split_down :: "nat \<Rightarrow> nat \<Rightarrow> nat \<Rightarrow> BuddyAllocator \<Rightarrow> BuddyAllocator" where
  "split_down a order 0 A = A"
| "split_down a order (Suc c) A =
     (if order < Suc c
      then split_down a order c (AddFreeBlock (wrap64 (a + OrderToSize c)) c A)
      else A)"

definition BuddyAllocator_Allocate :: "nat \<Rightarrow> BuddyAllocator \<Rightarrow> (nat \<times> BuddyAllocator) option" where
  "BuddyAllocator_Allocate sz A =
     (let order = GetOrder sz in
      if BUDDY_NUM_ORDERS \<le> order then Some (0, A)
      else case find (\<lambda>c. free_lists A c \<noteq> None) [order..<BUDDY_NUM_ORDERS] of
          None \<Rightarrow> Some (0, A)
        | Some c \<Rightarrow>
            (case free_lists A c of
               None \<Rightarrow> Some (0, A)
             | Some n \<Rightarrow>
                 (case RemoveFreeBlock n c A of
                    None \<Rightarrow> None
                  | Some A1 \<Rightarrow> let a = nd_base A1 n in Some (a, split_down a order c A1))))"

function merge_up :: "nat \<Rightarrow> nat \<Rightarrow> BuddyAllocator \<Rightarrow> (nat \<times> nat \<times> BuddyAllocator) option" where
  "merge_up a order A =
     (if order < BUDDY_NUM_ORDERS - 1
      then let buddy_addr = a XOR OrderToSize order in
           case FindFreeBlock buddy_addr order A of
             None \<Rightarrow> None
           | Some None \<Rightarrow> Some (a, order, A)
           | Some (Some n) \<Rightarrow>
               (case RemoveFreeBlock n order A of
                  None \<Rightarrow> None
                | Some A1 \<Rightarrow> merge_up (if buddy_addr < a then buddy_addr else a) (order + 1) A1)
      else Some (a, order, A))"
  by pat_completeness auto
termination by (relation "measure (\<lambda>(a, order, A). BUDDY_NUM_ORDERS - order)") auto

declare merge_up.simps [simp del]

definition BuddyAllocator_Free :: "nat \<Rightarrow> nat \<Rightarrow> BuddyAllocator \<Rightarrow> BuddyAllocator option" where
  "BuddyAllocator_Free a sz A =
     (let order = GetOrder sz in
      if BUDDY_NUM_ORDERS \<le> order then Some A
      else map_option (\<lambda>(a', order', A'). AddFreeBlock a' order' A') (merge_up a order A))"

section \<open>The data structure\<close>

text \<open>
  \<open>buddy_rep A FL HL PL\<close>: the free list of order \<open>o\<close> links the nodes \<open>FL o\<close>, the chain of bucket \<open>h\<close>
  the nodes \<open>HL h\<close>, and the unused nodes are \<open>PL\<close>; a node in use carries the size of its order and
  is on the chain of its address.
\<close>

definition buddy_rep :: "BuddyAllocator \<Rightarrow> (nat \<Rightarrow> nat list) \<Rightarrow> (nat \<Rightarrow> nat list) \<Rightarrow> nat list \<Rightarrow> bool" where
  "buddy_rep A FL HL PL \<longleftrightarrow>
     (\<forall>k < BUDDY_NUM_ORDERS. dlist (nd_next A) (nd_prev A) (free_lists A k) (FL k) \<and> distinct (FL k) \<and>
        (\<forall>n \<in> set (FL k). nd_size A n = OrderToSize k \<and> n \<notin> set PL \<and> n < MAX_BUDDY_NODES)) \<and>
     seg (nd_next A) (node_head A) PL None \<and> distinct PL \<and> (\<forall>n \<in> set PL. n < MAX_BUDDY_NODES) \<and>
     (\<forall>h. seg (nd_hnext A) (hash_table A h) (HL h) None \<and> distinct (HL h) \<and>
        (\<forall>n. n \<in> set (HL h) \<longleftrightarrow>
           HashAddress (nd_base A n) = h \<and> (\<exists>k < BUDDY_NUM_ORDERS. n \<in> set (FL k))))"

lemma OrderToSize_inj [simp]: "OrderToSize j = OrderToSize k \<longleftrightarrow> j = k"
  by (simp add: OrderToSize_def)

lemma OrderToSize_pos [simp]: "0 < OrderToSize k"
  by (simp add: OrderToSize_def)

lemma rep_dlist:
  assumes "buddy_rep A FL HL PL" and "k < BUDDY_NUM_ORDERS"
  shows "dlist (nd_next A) (nd_prev A) (free_lists A k) (FL k)" and "distinct (FL k)"
    and "n \<in> set (FL k) \<Longrightarrow> nd_size A n = OrderToSize k"
    and "n \<in> set (FL k) \<Longrightarrow> n \<notin> set PL" and "n \<in> set (FL k) \<Longrightarrow> n < MAX_BUDDY_NODES"
  using assms by (auto simp: buddy_rep_def)

lemma rep_pool:
  assumes "buddy_rep A FL HL PL"
  shows "seg (nd_next A) (node_head A) PL None" and "distinct PL"
    and "n \<in> set PL \<Longrightarrow> n < MAX_BUDDY_NODES"
  using assms by (auto simp: buddy_rep_def)

lemma rep_hash:
  assumes "buddy_rep A FL HL PL"
  shows "seg (nd_hnext A) (hash_table A h) (HL h) None" and "distinct (HL h)"
    and "n \<in> set (HL h) \<longleftrightarrow> HashAddress (nd_base A n) = h \<and> (\<exists>k < BUDDY_NUM_ORDERS. n \<in> set (FL k))"
  using assms by (auto simp: buddy_rep_def)

lemma rep_orders_disjoint:
  "\<lbrakk>buddy_rep A FL HL PL; j < BUDDY_NUM_ORDERS; k < BUDDY_NUM_ORDERS; n \<in> set (FL j); n \<in> set (FL k)\<rbrakk> \<Longrightarrow> j = k"
  using rep_dlist(3) OrderToSize_inj by metis

lemma AddFreeBlock_fields:
  assumes "node_head A = Some n" and "k < BUDDY_NUM_ORDERS"
  shows "nd_next (AddFreeBlock a k A) = (nd_next A)(n := free_lists A k)"
    and "nd_prev (AddFreeBlock a k A) =
      (case free_lists A k of None \<Rightarrow> (nd_prev A)(n := None) | Some m \<Rightarrow> ((nd_prev A)(n := None))(m := Some n))"
    and "nd_hnext (AddFreeBlock a k A) = (nd_hnext A)(n := hash_table A (HashAddress a))"
    and "nd_base (AddFreeBlock a k A) = (nd_base A)(n := a)"
    and "nd_size (AddFreeBlock a k A) = (nd_size A)(n := OrderToSize k)"
    and "free_lists (AddFreeBlock a k A) = (free_lists A)(k := Some n)"
    and "hash_table (AddFreeBlock a k A) = (hash_table A)(HashAddress a := Some n)"
    and "node_head (AddFreeBlock a k A) = nd_next A n"
  using assms by (simp_all add: AddFreeBlock_def AllocBuddyNode_def Let_def split: option.split)

lemma AddFreeBlock_empty: "node_head A = None \<Longrightarrow> AddFreeBlock a k A = A"
  by (simp add: AddFreeBlock_def AllocBuddyNode_def)

lemma AddFreeBlock_rep:
  fixes a :: nat
  assumes r: "buddy_rep A FL HL (n # PL)" and k: "k < BUDDY_NUM_ORDERS"
  defines "h \<equiv> HashAddress a"
  shows "buddy_rep (AddFreeBlock a k A) (FL(k := n # FL k)) (HL(h := n # HL h)) PL"
proof -
  have head: "node_head A = Some n" using rep_pool(1) [OF r] by simp
  note f = AddFreeBlock_fields [OF head k, of a]
  have notin: "n \<notin> set (FL j)" if "j < BUDDY_NUM_ORDERS" for j using rep_dlist(4) [OF r that] by auto
  have nPL: "n \<notin> set PL" using rep_pool(2) [OF r] by simp
  have hd_in: "m \<in> set (FL k)" if "free_lists A k = Some m" for m
    using rep_dlist(1) [OF r k] that by (cases "FL k") (auto dest: dlist_head)
  have dl: "dlist (nd_next (AddFreeBlock a k A)) (nd_prev (AddFreeBlock a k A))
      (free_lists (AddFreeBlock a k A) j) ((FL(k := n # FL k)) j)" if j: "j < BUDDY_NUM_ORDERS" for j
  proof (cases "j = k")
    case True
    with dlist_push [OF rep_dlist(1) [OF r k] notin [OF k] rep_dlist(2) [OF r k]] show ?thesis
      by (simp add: f)
  next
    case False
    have "m \<notin> set (FL j)" if "free_lists A k = Some m" for m
      using hd_in [OF that] rep_orders_disjoint [OF r j k] False by blast
    with False rep_dlist(1) [OF r j] notin [OF j] show ?thesis
      by (auto simp: f split: option.split)
  qed
  have nHL: "n \<notin> set (HL g)" for g using notin rep_hash(3) [OF r] by blast
  have hs: "seg (nd_hnext (AddFreeBlock a k A)) (hash_table (AddFreeBlock a k A) g)
      ((HL(h := n # HL h)) g) None \<and> distinct ((HL(h := n # HL h)) g)" for g
    using rep_hash(1,2) [OF r] nHL by (auto simp: f h_def)
  have mem: "m \<in> set ((HL(h := n # HL h)) g) \<longleftrightarrow> HashAddress (nd_base (AddFreeBlock a k A) m) = g \<and>
      (\<exists>j < BUDDY_NUM_ORDERS. m \<in> set ((FL(k := n # FL k)) j))" for m g
  proof (cases "m = n")
    case True
    have "n \<in> set ((FL(k := n # FL k)) k)" by simp
    with True k nHL [of g] show ?thesis by (auto simp: f h_def)
  next
    case False
    then have "m \<in> set ((FL(k := n # FL k)) j) \<longleftrightarrow> m \<in> set (FL j)" for j by simp
    with False rep_hash(3) [OF r, of m g] show ?thesis by (auto simp: f)
  qed
  show ?thesis
    unfolding buddy_rep_def
  proof (intro conjI allI impI ballI)
    fix j m assume "j < BUDDY_NUM_ORDERS" "m \<in> set ((FL(k := n # FL k)) j)"
    then show "nd_size (AddFreeBlock a k A) m = OrderToSize j" "m \<notin> set PL" "m < MAX_BUDDY_NODES"
      using notin nPL rep_dlist(3-5) [OF r, of j m] rep_pool(3) [OF r, of n]
      by (auto simp: f split: if_splits)
  next
    show "seg (nd_next (AddFreeBlock a k A)) (node_head (AddFreeBlock a k A)) PL None"
      using rep_pool(1) [OF r] nPL by (simp add: f)
  qed (use dl hs mem notin rep_dlist(2) [OF r] rep_pool(2,3) [OF r] in auto)
qed

lemma find_chain_eq:
  "seg (nd_hnext A) cur xs None \<Longrightarrow>
   find_chain A a sz cur = Some (find (\<lambda>n. nd_base A n = a \<and> nd_size A n = sz) xs)"
proof (induction xs arbitrary: cur)
  case Nil
  then show ?case by (subst find_chain.simps) simp
next
  case (Cons x xs)
  then show ?case by (subst find_chain.simps) auto
qed

lemma FindFreeBlock_rep:
  assumes r: "buddy_rep A FL HL PL" and k: "k < BUDDY_NUM_ORDERS"
  shows "\<exists>res. FindFreeBlock a k A = Some res \<and>
    (case res of None \<Rightarrow> \<forall>n \<in> set (FL k). nd_base A n \<noteq> a
     | Some n \<Rightarrow> n \<in> set (FL k) \<and> nd_base A n = a)"
proof -
  let ?xs = "HL (HashAddress a)"
  let ?P = "\<lambda>n. nd_base A n = a \<and> nd_size A n = OrderToSize k"
  have eq: "FindFreeBlock a k A = Some (find ?P ?xs)"
    using find_chain_eq [OF rep_hash(1) [OF r]] by (simp add: FindFreeBlock_def)
  have in_xs: "n \<in> set ?xs \<and> ?P n \<longleftrightarrow> n \<in> set (FL k) \<and> nd_base A n = a" for n
    using rep_hash(3) [OF r, of n "HashAddress a"] rep_dlist(3) [OF r] k by (metis OrderToSize_inj)
  show ?thesis
  proof (cases "find ?P ?xs")
    case None
    then have "\<forall>n \<in> set ?xs. \<not> ?P n" by (simp add: find_None_iff)
    with None eq in_xs show ?thesis by auto
  next
    case (Some n)
    then have "n \<in> set ?xs \<and> ?P n" by (auto simp: find_Some_iff)
    with Some eq in_xs show ?thesis by auto
  qed
qed

lemma unlink_hash_eq:
  assumes "seg (nd_hnext A) cur (zs @ n # ys) None" and "n \<notin> set zs"
  shows "unlink_hash n h prev_h cur A =
    Some (case (if zs = [] then prev_h else Some (last zs)) of
            None \<Rightarrow> A\<lparr>hash_table := (hash_table A)(h := nd_hnext A n)\<rparr>
          | Some p \<Rightarrow> A\<lparr>nd_hnext := (nd_hnext A)(p := nd_hnext A n)\<rparr>)"
  using assms
proof (induction zs arbitrary: cur prev_h)
  case Nil
  then show ?case by (subst unlink_hash.simps) simp
next
  case (Cons z zs)
  then have cur: "cur = Some z" "z \<noteq> n" "seg (nd_hnext A) (nd_hnext A z) (zs @ n # ys) None" by auto
  have "unlink_hash n h prev_h cur A = unlink_hash n h (Some z) (nd_hnext A z) A"
    using cur by (subst unlink_hash.simps) simp
  also have "\<dots> = Some (case (if zs = [] then Some z else Some (last zs)) of
            None \<Rightarrow> A\<lparr>hash_table := (hash_table A)(h := nd_hnext A n)\<rparr>
          | Some p \<Rightarrow> A\<lparr>nd_hnext := (nd_hnext A)(p := nd_hnext A n)\<rparr>)"
    using Cons.IH [OF cur(3), of "Some z"] Cons.prems(2) by simp
  finally show ?case by simp
qed

definition detach :: "nat \<Rightarrow> nat \<Rightarrow> BuddyAllocator \<Rightarrow> BuddyAllocator" where
  "detach n k A = A\<lparr>
     free_lists := (case nd_prev A n of None \<Rightarrow> (free_lists A)(k := nd_next A n) | Some m \<Rightarrow> free_lists A),
     nd_next := (case nd_prev A n of None \<Rightarrow> nd_next A | Some m \<Rightarrow> (nd_next A)(m := nd_next A n)),
     nd_prev := (case nd_next A n of None \<Rightarrow> nd_prev A | Some m \<Rightarrow> (nd_prev A)(m := nd_prev A n))\<rparr>"

lemma RemoveFreeBlock_unfold:
  assumes "nd_prev A n \<noteq> Some n"
  shows "RemoveFreeBlock n k A = map_option (ReleaseBuddyNode n)
    (unlink_hash n (HashAddress (nd_base A n)) None (hash_table A (HashAddress (nd_base A n))) (detach n k A))"
  using assms
  by (cases "nd_prev A n"; cases "nd_next A n")
    (simp_all add: RemoveFreeBlock_def detach_def Let_def fun_upd_idem)

lemma RemoveFreeBlock_rep:
  assumes r: "buddy_rep A FL HL PL" and k: "k < BUDDY_NUM_ORDERS" and n: "n \<in> set (FL k)"
  defines "h \<equiv> HashAddress (nd_base A n)"
  shows "\<exists>A'. RemoveFreeBlock n k A = Some A' \<and> nd_base A' = nd_base A \<and>
    buddy_rep A' (FL(k := remove1 n (FL k))) (HL(h := remove1 n (HL h))) (n # PL)"
proof -
  obtain xs ys where fl: "FL k = xs @ n # ys" "n \<notin> set xs" using n by (meson split_list_first)
  note dl = rep_dlist(1) [OF r k, unfolded fl(1)] rep_dlist(2) [OF r k, unfolded fl(1)]
  note u = dlist_unlink [OF dl]
  have rem: "remove1 n (FL k) = xs @ ys" using fl by (simp add: remove1_append)
  have nprev: "nd_prev A n \<noteq> Some n" using u(3) [of n] fl(2) by auto
  have "n \<in> set (HL h)" using rep_hash(3) [OF r] n k h_def by blast
  then obtain us vs where hl: "HL h = us @ n # vs" "n \<notin> set us" by (meson split_list_first)
  have hrem: "remove1 n (HL h) = us @ vs" using hl by (simp add: remove1_append)
  let ?D = "detach n k A"
  let ?E = "case (if us = [] then None else Some (last us)) of
            None \<Rightarrow> ?D\<lparr>hash_table := (hash_table ?D)(h := nd_hnext ?D n)\<rparr>
          | Some p \<Rightarrow> ?D\<lparr>nd_hnext := (nd_hnext ?D)(p := nd_hnext ?D n)\<rparr>"
  let ?A = "ReleaseBuddyNode n ?E"
  have "seg (nd_hnext ?D) (hash_table A h) (us @ n # vs) None"
    using rep_hash(1) [OF r, of h] hl by (simp add: detach_def)
  from unlink_hash_eq [OF this hl(2), of h None] have res: "RemoveFreeBlock n k A = Some ?A"
    using RemoveFreeBlock_unfold [OF nprev, of k] by (simp add: h_def)
  have base: "nd_base ?A = nd_base A" and sz: "nd_size ?A = nd_size A"
    and prev: "nd_prev ?A = nd_prev ?D" and next_: "nd_next ?A = (nd_next ?D)(n := node_head A)"
    and fr: "free_lists ?A = free_lists ?D" and head: "node_head ?A = Some n"
    by (cases "us = []"; simp add: ReleaseBuddyNode_def detach_def)+
  have in_k: "m \<in> set (FL k)" if "nd_prev A n = Some m \<or> nd_next A n = Some m" for m
    using that u(3,4) fl(1) by auto
  have frame: "dlist (nd_next ?D) (nd_prev ?D) (free_lists ?D j) (FL j)"
    if j: "j < BUDDY_NUM_ORDERS" "j \<noteq> k" for j
  proof -
    have "m \<notin> set (FL j)" if "nd_prev A n = Some m \<or> nd_next A n = Some m" for m
      using in_k [OF that] rep_orders_disjoint [OF r j(1) k] j(2) by blast
    then show ?thesis using rep_dlist(1) [OF r j(1)] j(2) by (auto simp: detach_def split: option.split)
  qed
  have own: "dlist (nd_next ?D) (nd_prev ?D) (free_lists ?D k) (xs @ ys)"
    using u(1) by (auto simp: detach_def split: option.splits)
  have n_only: "n \<notin> set (FL j)" if "j < BUDDY_NUM_ORDERS" "j \<noteq> k" for j
    using rep_orders_disjoint [OF r that(1) k] n that(2) by blast
  have n_rem: "n \<notin> set (xs @ ys)" using dl(2) by simp
  have dl': "dlist (nd_next ?A) (nd_prev ?A) (free_lists ?A j) ((FL(k := xs @ ys)) j)"
    if j: "j < BUDDY_NUM_ORDERS" for j
    unfolding next_ prev fr using frame [OF j] own n_only [OF j] n_rem by (cases "j = k") simp_all
  have pool: "seg (nd_next ?A) (Some n) (n # PL) None"
  proof -
    have "m \<notin> set PL" if "nd_prev A n = Some m" for m using in_k that rep_dlist(4) [OF r k] by blast
    then have "seg (nd_next ?D) (node_head A) PL None"
      using rep_pool(1) [OF r] by (auto simp: detach_def split: option.split)
    moreover have "n \<notin> set PL" using rep_dlist(4) [OF r k n] .
    ultimately show ?thesis unfolding next_ by simp
  qed
  have hs: "seg (nd_hnext ?A) (hash_table ?A g) ((HL(h := us @ vs)) g) None" for g
  proof -
    note un = seg_unlink [OF rep_hash(1) [OF r, of h, unfolded hl(1)] rep_hash(2) [OF r, of h, unfolded hl(1)]]
    have other: "last us \<notin> set (HL g)" if "g \<noteq> h" "us \<noteq> []"
    proof -
      have "last us \<in> set (HL h)" using that(2) hl(1) by simp
      then show ?thesis using rep_hash(3) [OF r] that(1) by auto
    qed
    show ?thesis
    proof (cases "us = []")
      case True
      with un(1) rep_hash(1) [OF r, of g] show ?thesis by (simp add: ReleaseBuddyNode_def detach_def)
    next
      case False
      with un(2) [OF False] rep_hash(1) [OF r, of g] other show ?thesis
        by (simp add: ReleaseBuddyNode_def detach_def)
    qed
  qed
  have mem: "m \<in> set ((HL(h := us @ vs)) g) \<longleftrightarrow>
      HashAddress (nd_base ?A m) = g \<and> (\<exists>j < BUDDY_NUM_ORDERS. m \<in> set ((FL(k := xs @ ys)) j))" for m g
  proof (cases "m = n")
    case True
    have "n \<notin> set ((HL(h := us @ vs)) g)"
      using rep_hash(2) [OF r, of h] rep_hash(3) [OF r, of n g] hl h_def by auto
    with True n_rem n_only show ?thesis by auto
  next
    case False
    then have "m \<in> set ((HL(h := us @ vs)) g) \<longleftrightarrow> m \<in> set (HL g)" using hl by auto
    moreover have "m \<in> set ((FL(k := xs @ ys)) j) \<longleftrightarrow> m \<in> set (FL j)" for j using False fl by auto
    ultimately show ?thesis using rep_hash(3) [OF r, of m g] by (simp add: base)
  qed
  have hd: "distinct ((HL(h := us @ vs)) g)" for g
    using rep_hash(2) [OF r, of g] rep_hash(2) [OF r, of h] hl by auto
  have "buddy_rep ?A (FL(k := xs @ ys)) (HL(h := us @ vs)) (n # PL)"
    unfolding buddy_rep_def
  proof (intro conjI allI impI ballI)
    fix j m assume "j < BUDDY_NUM_ORDERS" "m \<in> set ((FL(k := xs @ ys)) j)"
    then show "nd_size ?A m = OrderToSize j" "m \<notin> set (n # PL)" "m < MAX_BUDDY_NODES"
      using rep_dlist(3-5) [OF r, of j m] n_rem n_only [of j] fl(1)
      by (auto simp: sz split: if_splits)
  next
    fix j assume "j < BUDDY_NUM_ORDERS"
    then show "distinct ((FL(k := xs @ ys)) j)" using rep_dlist(2) [OF r, of j] dl(2) by auto
  next
    show "seg (nd_next ?A) (node_head ?A) (n # PL) None" using pool by (simp add: head)
  qed (use dl' hs hd mem rep_pool(2,3) [OF r] rep_dlist(4,5) [OF r k n] in auto)
  with res base rem hrem show ?thesis by auto
qed

section \<open>The set of free blocks\<close>

text \<open>
  \<open>buddy_abs A B P\<close>: the allocator \<open>A\<close> holds exactly the free blocks \<open>B\<close>, as pairs of
  address and order, each in one node, and has \<open>P\<close> unused nodes left.
\<close>

definition buddy_abs :: "BuddyAllocator \<Rightarrow> (nat \<times> nat) set \<Rightarrow> nat \<Rightarrow> bool" where
  "buddy_abs A B P \<longleftrightarrow> (\<exists>FL HL PL. buddy_rep A FL HL PL \<and> P = length PL \<and>
     (\<forall>k < BUDDY_NUM_ORDERS. inj_on (nd_base A) (set (FL k))) \<and>
     B = {(nd_base A n, k) | n k. k < BUDDY_NUM_ORDERS \<and> n \<in> set (FL k)})"

lemma buddy_absI:
  assumes "buddy_rep A FL HL PL" and "\<And>k. k < BUDDY_NUM_ORDERS \<Longrightarrow> inj_on (nd_base A) (set (FL k))"
    and "{(nd_base A n, k) | n k. k < BUDDY_NUM_ORDERS \<and> n \<in> set (FL k)} = B" and "length PL = P"
  shows "buddy_abs A B P"
  unfolding buddy_abs_def using assms by blast

lemma buddy_abs_order: "buddy_abs A B P \<Longrightarrow> (a, k) \<in> B \<Longrightarrow> k < BUDDY_NUM_ORDERS"
  by (auto simp: buddy_abs_def)

lemma AddFreeBlock_full: "buddy_abs A B 0 \<Longrightarrow> AddFreeBlock a k A = A"
  using rep_pool(1) by (fastforce simp: buddy_abs_def intro: AddFreeBlock_empty)

lemma AddFreeBlock_abs:
  assumes "buddy_abs A B (Suc P)" and k: "k < BUDDY_NUM_ORDERS" and new: "(a, k) \<notin> B"
  shows "buddy_abs (AddFreeBlock a k A) (insert (a, k) B) P"
proof -
  from assms(1) obtain FL HL PL0 where r0: "buddy_rep A FL HL PL0" and P0: "Suc P = length PL0"
    and inj: "\<And>j. j < BUDDY_NUM_ORDERS \<Longrightarrow> inj_on (nd_base A) (set (FL j))"
    and B: "B = {(nd_base A n, k) | n k. k < BUDDY_NUM_ORDERS \<and> n \<in> set (FL k)}"
    unfolding buddy_abs_def by blast
  from P0 obtain n PL where "PL0 = n # PL" by (cases PL0) auto
  with r0 P0 have r: "buddy_rep A FL HL (n # PL)" and P: "P = length PL" by auto
  have head: "node_head A = Some n" using rep_pool(1) [OF r] by simp
  note base = AddFreeBlock_fields(4) [OF head k, of a]
  have notin: "n \<notin> set (FL j)" if "j < BUDDY_NUM_ORDERS" for j using rep_dlist(4) [OF r that] by auto
  have same: "nd_base (AddFreeBlock a k A) m = nd_base A m" if "m \<in> set (FL j)" "j < BUDDY_NUM_ORDERS" for m j
    using that notin by (auto simp: base)
  have "inj_on (nd_base (AddFreeBlock a k A)) (set ((FL(k := n # FL k)) j))" if j: "j < BUDDY_NUM_ORDERS" for j
  proof (cases "j = k")
    case True
    have "nd_base A m \<noteq> a" if "m \<in> set (FL k)" for m using new B that k by blast
    with inj [OF k] notin [OF k] True show ?thesis by (auto simp: base inj_on_def)
  next
    case False
    with inj [OF j] notin [OF j] show ?thesis by (auto simp: base inj_on_def)
  qed
  moreover have "{(nd_base (AddFreeBlock a k A) m, j) | m j. j < BUDDY_NUM_ORDERS \<and>
      m \<in> set ((FL(k := n # FL k)) j)} = insert (a, k) B" (is "?L = ?R")
  proof (intro set_eqI iffI)
    fix x assume "x \<in> ?L"
    then obtain m j where m: "x = (nd_base (AddFreeBlock a k A) m, j)" "j < BUDDY_NUM_ORDERS"
      "m \<in> set ((FL(k := n # FL k)) j)" by blast
    show "x \<in> ?R"
    proof (cases "m = n")
      case True
      with m notin have "j = k" by (auto split: if_splits)
      with m True show ?thesis by (simp add: base)
    next
      case False
      with m have "m \<in> set (FL j)" by (auto split: if_splits)
      with m same show ?thesis unfolding B by auto
    qed
  next
    fix x assume "x \<in> ?R"
    then show "x \<in> ?L"
    proof
      assume "x = (a, k)"
      with k have "x = (nd_base (AddFreeBlock a k A) n, k) \<and> k < BUDDY_NUM_ORDERS \<and>
          n \<in> set ((FL(k := n # FL k)) k)" by (simp add: base)
      then show ?thesis by blast
    next
      assume "x \<in> B"
      then obtain m j where m: "x = (nd_base A m, j)" "j < BUDDY_NUM_ORDERS" "m \<in> set (FL j)"
        unfolding B by blast
      then have "x = (nd_base (AddFreeBlock a k A) m, j) \<and> j < BUDDY_NUM_ORDERS \<and>
          m \<in> set ((FL(k := n # FL k)) j)" using same by auto
      then show ?thesis by blast
    qed
  qed
  ultimately show ?thesis
    unfolding buddy_abs_def using AddFreeBlock_rep [OF r k, of a] P by blast
qed

lemma RemoveFreeBlock_abs:
  assumes r: "buddy_rep A FL HL PL" and k: "k < BUDDY_NUM_ORDERS" and n: "n \<in> set (FL k)"
    and inj: "\<And>j. j < BUDDY_NUM_ORDERS \<Longrightarrow> inj_on (nd_base A) (set (FL j))"
    and B: "B = {(nd_base A n, k) | n k. k < BUDDY_NUM_ORDERS \<and> n \<in> set (FL k)}"
  shows "\<exists>A'. RemoveFreeBlock n k A = Some A' \<and> nd_base A' = nd_base A \<and>
    buddy_abs A' (B - {(nd_base A n, k)}) (Suc (length PL))"
proof -
  obtain A' HL' where A': "RemoveFreeBlock n k A = Some A'" "nd_base A' = nd_base A"
    "buddy_rep A' (FL(k := remove1 n (FL k))) HL' (n # PL)"
    using RemoveFreeBlock_rep [OF r k n] by blast
  let ?FL = "FL(k := remove1 n (FL k))"
  have sub: "m \<in> set (?FL j) \<longleftrightarrow> m \<in> set (FL j) \<and> (j = k \<longrightarrow> m \<noteq> n)" for m j
    using rep_dlist(2) [OF r k] by auto
  then have "set (?FL j) \<subseteq> set (FL j)" for j by blast
  then have inj': "inj_on (nd_base A') (set (?FL j))" if "j < BUDDY_NUM_ORDERS" for j
    unfolding A'(2) using inj [OF that] inj_on_subset by blast
  have uniq: "m = n" if "m \<in> set (FL k)" "nd_base A m = nd_base A n" for m
    using inj_onD [OF inj [OF k] that(2) that(1) n] .
  have "{(nd_base A' m, j) | m j. j < BUDDY_NUM_ORDERS \<and> m \<in> set (?FL j)} = B - {(nd_base A n, k)}"
  proof (intro set_eqI iffI)
    fix x assume "x \<in> {(nd_base A' m, j) | m j. j < BUDDY_NUM_ORDERS \<and> m \<in> set (?FL j)}"
    then obtain m j where "x = (nd_base A m, j)" "j < BUDDY_NUM_ORDERS" "m \<in> set (FL j)" "j = k \<longrightarrow> m \<noteq> n"
      unfolding A'(2) sub by blast
    with uniq show "x \<in> B - {(nd_base A n, k)}" unfolding B by auto
  next
    fix x assume "x \<in> B - {(nd_base A n, k)}"
    then obtain m j where "x = (nd_base A m, j)" "j < BUDDY_NUM_ORDERS" "m \<in> set (FL j)" "j = k \<longrightarrow> m \<noteq> n"
      unfolding B by blast
    then show "x \<in> {(nd_base A' m, j) | m j. j < BUDDY_NUM_ORDERS \<and> m \<in> set (?FL j)}"
      unfolding A'(2) sub by blast
  qed
  then have "buddy_abs A' (B - {(nd_base A n, k)}) (Suc (length PL))"
    by (intro buddy_absI [OF A'(3) inj']) simp_all
  with A' show ?thesis by blast
qed

lemma free_list_abs:
  assumes "buddy_abs A B P" and k: "k < BUDDY_NUM_ORDERS"
  shows "free_lists A k = None \<longleftrightarrow> (\<forall>a. (a, k) \<notin> B)"
    and "free_lists A k = Some n \<Longrightarrow> \<exists>A'. RemoveFreeBlock n k A = Some A' \<and> nd_base A' = nd_base A \<and>
      (nd_base A n, k) \<in> B \<and> buddy_abs A' (B - {(nd_base A n, k)}) (Suc P)"
proof -
  from assms(1) obtain FL HL PL where r: "buddy_rep A FL HL PL" and P: "P = length PL"
    and inj: "\<And>j. j < BUDDY_NUM_ORDERS \<Longrightarrow> inj_on (nd_base A) (set (FL j))"
    and B: "B = {(nd_base A n, k) | n k. k < BUDDY_NUM_ORDERS \<and> n \<in> set (FL k)}"
    unfolding buddy_abs_def by blast
  note d = rep_dlist(1) [OF r k]
  show "free_lists A k = None \<longleftrightarrow> (\<forall>a. (a, k) \<notin> B)"
  proof (cases "FL k")
    case Nil
    with d B show ?thesis by simp
  next
    case (Cons x xs)
    with d have "free_lists A k = Some x" using dlist_head by fastforce
    moreover have "(nd_base A x, k) \<in> B" unfolding B using Cons k by force
    ultimately show ?thesis by auto
  qed
  assume "free_lists A k = Some n"
  with d have n: "n \<in> set (FL k)" by (cases "FL k") (auto dest: dlist_head)
  then have "(nd_base A n, k) \<in> B" unfolding B using k by blast
  with RemoveFreeBlock_abs [OF r k n inj B] P show "\<exists>A'. RemoveFreeBlock n k A = Some A' \<and>
      nd_base A' = nd_base A \<and> (nd_base A n, k) \<in> B \<and> buddy_abs A' (B - {(nd_base A n, k)}) (Suc P)"
    by blast
qed

lemma FindFreeBlock_abs:
  assumes "buddy_abs A B P" and k: "k < BUDDY_NUM_ORDERS"
  shows "if (a, k) \<in> B
    then \<exists>n A'. FindFreeBlock a k A = Some (Some n) \<and> RemoveFreeBlock n k A = Some A' \<and>
           buddy_abs A' (B - {(a, k)}) (Suc P)
    else FindFreeBlock a k A = Some None"
proof -
  from assms(1) obtain FL HL PL where r: "buddy_rep A FL HL PL" and P: "P = length PL"
    and inj: "\<And>j. j < BUDDY_NUM_ORDERS \<Longrightarrow> inj_on (nd_base A) (set (FL j))"
    and B: "B = {(nd_base A n, k) | n k. k < BUDDY_NUM_ORDERS \<and> n \<in> set (FL k)}"
    unfolding buddy_abs_def by blast
  obtain res where res: "FindFreeBlock a k A = Some res"
    "case res of None \<Rightarrow> \<forall>n \<in> set (FL k). nd_base A n \<noteq> a | Some n \<Rightarrow> n \<in> set (FL k) \<and> nd_base A n = a"
    using FindFreeBlock_rep [OF r k] by blast
  show ?thesis
  proof (cases res)
    case None
    with res(2) have "(a, k) \<notin> B" unfolding B by auto
    with None res(1) show ?thesis by simp
  next
    case (Some n)
    with res(2) have n: "n \<in> set (FL k)" "nd_base A n = a" by auto
    then have "(a, k) \<in> B" unfolding B using k by blast
    with Some res(1) n(2) RemoveFreeBlock_abs [OF r k n(1) inj B] P show ?thesis by auto
  qed
qed

section \<open>Sizes and orders\<close>

lemma GetOrder_bounds:
  assumes "sz < 18446744073709551616"
  shows "sz \<le> OrderToSize (GetOrder sz)"
    and "0 < GetOrder sz \<Longrightarrow> OrderToSize (GetOrder sz - 1) < sz"
proof -
  have "sz \<le> OrderToSize (GetOrder sz) \<and> (0 < GetOrder sz \<longrightarrow> OrderToSize (GetOrder sz - 1) < sz)"
  proof (cases "sz \<le> BUDDY_PAGE")
    case True
    then show ?thesis by (simp add: GetOrder_def OrderToSize_def)
  next
    case False
    let ?w = "of_nat (sz - 1) :: u64"
    have u: "unat ?w = sz - 1" using assms by (simp add: unat_of_nat take_bit_nat_eq_self)
    have nz: "?w \<noteq> 0" using u False by (intro notI) simp
    have c: "clz ?w < 64" using clz_le [OF nz] by simp
    note b = clz_bounds [OF nz, unfolded u]
    have "(2 :: nat) ^ 12 < 2 ^ (64 - clz ?w)" using b(2) False by simp
    then have k: "12 < 64 - clz ?w" by (simp only: power_strict_increasing_iff)
    then have g: "GetOrder sz + 12 = 64 - clz ?w" using False by (simp add: GetOrder_def)
    then have "OrderToSize (GetOrder sz) = 2 ^ (64 - clz ?w)" by (simp add: OrderToSize_def)
    moreover have "OrderToSize (GetOrder sz - 1) = 2 ^ (64 - 1 - clz ?w)"
      using g k by (simp add: OrderToSize_def)
    ultimately have "sz - 1 < OrderToSize (GetOrder sz)" "OrderToSize (GetOrder sz - 1) \<le> sz - 1"
      using b by simp_all
    then show ?thesis using False by linarith
  qed
  then show "sz \<le> OrderToSize (GetOrder sz)" and "0 < GetOrder sz \<Longrightarrow> OrderToSize (GetOrder sz - 1) < sz"
    by simp_all
qed

section \<open>Memory of a set of blocks\<close>

definition blk_rng :: "nat \<times> nat \<Rightarrow> nat set" where
  "blk_rng = (\<lambda>(a, k). {a..<a + OrderToSize k})"

definition blk_mem :: "(nat \<times> nat) set \<Rightarrow> nat set" where
  "blk_mem B = (\<Union>b \<in> B. blk_rng b)"

definition blocks_ok :: "(nat \<times> nat) set \<Rightarrow> bool" where
  "blocks_ok B \<longleftrightarrow> pairwise (\<lambda>x y. blk_rng x \<inter> blk_rng y = {}) B \<and>
     (\<forall>(a, k) \<in> B. a + OrderToSize k \<le> 18446744073709551616)"

lemma rng_nonempty [simp]: "blk_rng (a, k) \<noteq> {}" "a \<in> blk_rng (a, k)"
  by (auto simp: blk_rng_def)

lemma rng_eq: "blk_rng (a, k) = {a..<a + OrderToSize k}"
  by (simp add: blk_rng_def)

lemma OrderToSize_Suc: "OrderToSize (Suc k) = 2 * OrderToSize k"
  unfolding OrderToSize_def add_Suc power_Suc ..

lemma OrderToSize_mono: "j \<le> k \<Longrightarrow> OrderToSize j \<le> OrderToSize k"
  by (simp add: OrderToSize_def)

lemma rng_Suc: "blk_rng (a, Suc k) = blk_rng (a, k) \<union> blk_rng (a + OrderToSize k, k)"
  by (auto simp: rng_eq OrderToSize_Suc)

lemma mem_simps [simp]:
  "blk_mem {} = {}" "blk_mem (insert b B) = blk_rng b \<union> blk_mem B" "blk_mem (B \<union> C) = blk_mem B \<union> blk_mem C"
  by (auto simp: blk_mem_def)

lemma mem_mono: "B \<subseteq> C \<Longrightarrow> blk_mem B \<subseteq> blk_mem C"
  by (auto simp: blk_mem_def)

lemma rng_subset_mem: "b \<in> B \<Longrightarrow> blk_rng b \<subseteq> blk_mem B"
  by (auto simp: blk_mem_def)

lemma mem_remove:
  assumes "blocks_ok B" and "b \<in> B"
  shows "blk_mem (B - {b}) = blk_mem B - blk_rng b"
  using assms unfolding blocks_ok_def pairwise_def blk_mem_def by blast

lemma blocks_ok_subset: "blocks_ok B \<Longrightarrow> C \<subseteq> B \<Longrightarrow> blocks_ok C"
  unfolding blocks_ok_def pairwise_def by blast

lemma blocks_ok_insert:
  assumes "blocks_ok B" and "blk_rng (a, k) \<inter> blk_mem B = {}" and "a + OrderToSize k \<le> 18446744073709551616"
  shows "blocks_ok (insert (a, k) B)" and "(a, k) \<notin> B"
proof -
  show "(a, k) \<notin> B" using assms(2) rng_subset_mem [of "(a, k)" B] rng_nonempty(1) [of a k] by blast
  have "blk_rng (a, k) \<inter> blk_rng y = {}" if "y \<in> B" for y using assms(2) rng_subset_mem [OF that] by blast
  with assms show "blocks_ok (insert (a, k) B)"
    by (auto simp: blocks_ok_def pairwise_insert Int_commute)
qed

lemma blocks_ok_bound: "blocks_ok B \<Longrightarrow> (a, k) \<in> B \<Longrightarrow> a + OrderToSize k \<le> 18446744073709551616"
  by (auto simp: blocks_ok_def)

section \<open>Splitting\<close>

definition halves :: "nat \<Rightarrow> nat \<Rightarrow> nat \<Rightarrow> nat \<Rightarrow> (nat \<times> nat) set" where
  "halves a order c P = {(a + OrderToSize j, j) | j. order \<le> j \<and> j < c \<and> c \<le> j + P}"

lemma halves_self [simp]: "halves a c c P = {}"
  by (auto simp: halves_def)

lemma halves_Suc:
  "order \<le> c \<Longrightarrow> halves a order (Suc c) (Suc P) = insert (a + OrderToSize c, c) (halves a order c P)"
  unfolding halves_def by (auto simp: less_Suc_eq)

lemma halves_none [simp]: "halves a order c 0 = {}"
  by (auto simp: halves_def)

lemma split_range:
  "order \<le> c \<Longrightarrow> blk_rng (a, c) = blk_rng (a, order) \<union> blk_mem (halves a order c P) \<or> P < c - order"
proof (induction c arbitrary: P)
  case (Suc c)
  show ?case
  proof (cases "order = Suc c")
    case False
    with Suc.prems have le: "order \<le> c" by simp
    show ?thesis
    proof (cases P)
      case 0
      with le show ?thesis by simp
    next
      case (Suc P')
      with Suc.IH [OF le, of P'] le show ?thesis by (auto simp: rng_Suc halves_Suc)
    qed
  qed simp
qed simp

lemma halves_inside:
  assumes "b \<in> halves a order c P"
  shows "blk_rng b \<subseteq> blk_rng (a, c) - blk_rng (a, order)"
proof -
  from assms obtain j where j: "b = (a + OrderToSize j, j)" "order \<le> j" "j < c" by (auto simp: halves_def)
  have "2 * OrderToSize j \<le> OrderToSize c" using j(3) OrderToSize_mono [of "Suc j" c] by (simp add: OrderToSize_Suc)
  moreover have "OrderToSize order \<le> OrderToSize j" using j(2) by (rule OrderToSize_mono)
  ultimately show ?thesis unfolding j(1) rng_eq by auto
qed

lemma split_down_abs:
  assumes "buddy_abs A B P" and "order \<le> c" and "c < BUDDY_NUM_ORDERS"
    and "blocks_ok B" and "blk_rng (a, c) \<inter> blk_mem B = {}" and "a + OrderToSize c \<le> 18446744073709551616"
  shows "\<exists>P'. buddy_abs (split_down a order c A) (B \<union> halves a order c P) P' \<and>
    blocks_ok (B \<union> halves a order c P)"
  using assms
proof (induction c arbitrary: A B P)
  case 0
  then show ?case by (auto simp: halves_def)
next
  case (Suc c)
  show ?case
  proof (cases "order = Suc c")
    case True
    with Suc.prems show ?thesis by auto
  next
    case False
    with Suc.prems(2) have le: "order \<le> c" by simp
    let ?b = "(a + OrderToSize c, c)"
    have sz: "a + OrderToSize c + OrderToSize c \<le> 18446744073709551616"
      using Suc.prems(6) by (simp add: OrderToSize_Suc)
    have "a + OrderToSize c < 18446744073709551616" using sz OrderToSize_pos [of c] by linarith
    then have w: "wrap64 (a + OrderToSize c) = a + OrderToSize c" by (rule wrap64_id)
    have free: "blk_rng ?b \<inter> blk_mem B = {}" "blk_rng (a, c) \<inter> blk_mem B = {}" using Suc.prems(5) by (auto simp: rng_Suc)
    note ins = blocks_ok_insert [OF Suc.prems(4) free(1) sz]
    have step: "split_down a order (Suc c) A = split_down a order c (AddFreeBlock (a + OrderToSize c) c A)"
      using le by (simp add: w)
    show ?thesis
    proof (cases P)
      case 0
      have "AddFreeBlock (a + OrderToSize c) c A = A"
        using Suc.prems(1) 0 by (intro AddFreeBlock_full) simp
      with Suc.IH [OF Suc.prems(1) le _ Suc.prems(4) free(2)] Suc.prems(3) sz 0 show ?thesis
        unfolding step by simp
    next
      case (Suc P')
      have "buddy_abs (AddFreeBlock (a + OrderToSize c) c A) (insert ?b B) P'"
        using Suc.prems(1,3) Suc ins(2) by (intro AddFreeBlock_abs) simp_all
      moreover have "blk_rng (a, c) \<inter> blk_mem (insert ?b B) = {}" using free(2) by (auto simp: rng_eq)
      ultimately have "\<exists>P''. buddy_abs (split_down a order c (AddFreeBlock (a + OrderToSize c) c A))
          (insert ?b B \<union> halves a order c P') P'' \<and> blocks_ok (insert ?b B \<union> halves a order c P')"
        using Suc.prems(3) sz ins(1) by (intro Suc.IH le) simp_all
      with Suc le show ?thesis unfolding step by (simp add: halves_Suc)
    qed
  qed
qed

section \<open>Allocation\<close>

lemma Allocate_cases:
  fixes sz :: nat
  assumes abs: "buddy_abs A B P" and ok: "blocks_ok B"
  defines "order \<equiv> GetOrder sz"
  obtains (none) "BuddyAllocator_Allocate sz A = Some (0, A)"
      and "BUDDY_NUM_ORDERS \<le> order \<or> (\<forall>(a, k) \<in> B. k < order)"
  | (some) a c A' P' where "BuddyAllocator_Allocate sz A = Some (a, A')" and "(a, c) \<in> B"
      and "order \<le> c" and "\<forall>(b, k) \<in> B. order \<le> k \<longrightarrow> c \<le> k"
      and "buddy_abs A' (B - {(a, c)} \<union> halves a order c (Suc P)) P'"
      and "blocks_ok (B - {(a, c)} \<union> halves a order c (Suc P))"
proof (cases "BUDDY_NUM_ORDERS \<le> order")
  case True
  then show ?thesis by (intro none) (simp_all add: BuddyAllocator_Allocate_def order_def Let_def)
next
  case small: False
  show ?thesis
  proof (cases "find (\<lambda>c. free_lists A c \<noteq> None) [order..<BUDDY_NUM_ORDERS]")
    case None
    have "k < order" if "(a, k) \<in> B" for a k
    proof (rule ccontr)
      assume "\<not> k < order"
      then have "k \<in> set [order..<BUDDY_NUM_ORDERS]" using buddy_abs_order [OF abs that] by simp
      then have "free_lists A k = None" using None by (auto simp: find_None_iff)
      then show False using free_list_abs(1) [OF abs buddy_abs_order [OF abs that]] that by blast
    qed
    with None small show ?thesis
      by (intro none) (auto simp: BuddyAllocator_Allocate_def order_def Let_def)
  next
    case (Some c)
    then have c: "order \<le> c" "c < BUDDY_NUM_ORDERS" "free_lists A c \<noteq> None"
      "\<And>j. order \<le> j \<Longrightarrow> j < c \<Longrightarrow> free_lists A j = None"
      using find_upt_Some [OF Some] by auto
    then obtain n where n: "free_lists A c = Some n" by blast
    from free_list_abs(2) [OF abs c(2) n] obtain A1 where A1: "RemoveFreeBlock n c A = Some A1"
      "nd_base A1 = nd_base A" "(nd_base A n, c) \<in> B"
      "buddy_abs A1 (B - {(nd_base A n, c)}) (Suc P)" by blast
    let ?a = "nd_base A n" and ?B = "B - {(nd_base A n, c)}"
    have ok1: "blocks_ok ?B" using ok by (rule blocks_ok_subset) blast
    have free: "blk_rng (?a, c) \<inter> blk_mem ?B = {}" using mem_remove [OF ok A1(3)] by blast
    obtain P' where P': "buddy_abs (split_down ?a order c A1) (?B \<union> halves ?a order c (Suc P)) P'"
      "blocks_ok (?B \<union> halves ?a order c (Suc P))"
      using split_down_abs [OF A1(4) c(1,2) ok1 free blocks_ok_bound [OF ok A1(3)]] by blast
    have least: "\<forall>(b, k) \<in> B. order \<le> k \<longrightarrow> c \<le> k"
    proof (clarify, rule ccontr)
      fix b k assume bk: "(b, k) \<in> B" "order \<le> k" "\<not> c \<le> k"
      then have "free_lists A k = None" using c(4) by simp
      then show False using free_list_abs(1) [OF abs buddy_abs_order [OF abs bk(1)]] bk(1) by blast
    qed
    have "BuddyAllocator_Allocate sz A = Some (?a, split_down ?a order c A1)"
      using small Some n A1(1,2) by (simp add: BuddyAllocator_Allocate_def order_def [symmetric] Let_def)
    with A1(3) c(1) least P' show ?thesis by (intro some) blast+
  qed
qed

section \<open>Freeing\<close>

lemma buddy_address:
  "a XOR OrderToSize k = (if bit a (k + BUDDY_MIN_ORDER) then a - OrderToSize k else a + OrderToSize k)"
  "bit a (k + BUDDY_MIN_ORDER) \<Longrightarrow> OrderToSize k \<le> a"
proof -
  have "a XOR OrderToSize k = flip_bit (k + BUDDY_MIN_ORDER) a"
    by (simp add: flip_bit_eq_xor OrderToSize_def push_bit_eq_mult)
  also have "\<dots> = (if bit a (k + BUDDY_MIN_ORDER) then a - OrderToSize k else a + OrderToSize k)"
    using unset_bit_nat [of a "k + BUDDY_MIN_ORDER"]
    by (simp add: flip_bit_eq_if set_bit_eq OrderToSize_def)
  finally show "a XOR OrderToSize k =
    (if bit a (k + BUDDY_MIN_ORDER) then a - OrderToSize k else a + OrderToSize k)" .
  show "bit a (k + BUDDY_MIN_ORDER) \<Longrightarrow> OrderToSize k \<le> a"
    unfolding OrderToSize_def using not_bit_small not_le by blast
qed

lemma buddy_merge:
  assumes "b = a XOR OrderToSize k"
  shows "blk_rng (min a b, Suc k) = blk_rng (a, k) \<union> blk_rng (b, k)"
  using buddy_address [of a k] assms by (auto simp: rng_eq OrderToSize_Suc min_def split: if_splits)

lemma merge_up_abs:
  assumes "buddy_abs A B P" and "blocks_ok B" and "k < BUDDY_NUM_ORDERS"
    and "blk_rng (a, k) \<inter> blk_mem B = {}" and "a + OrderToSize k \<le> 18446744073709551616"
  shows "\<exists>a' k' A' B' P'. merge_up a k A = Some (a', k', A') \<and> buddy_abs A' B' P' \<and> blocks_ok B' \<and>
    k' < BUDDY_NUM_ORDERS \<and> a' + OrderToSize k' \<le> 18446744073709551616 \<and>
    blk_rng (a', k') \<inter> blk_mem B' = {} \<and> blk_rng (a', k') \<union> blk_mem B' = blk_rng (a, k) \<union> blk_mem B \<and>
    (if k < BUDDY_NUM_ORDERS - 1 \<and> (a XOR OrderToSize k, k) \<in> B then 0 < P'
     else A' = A \<and> B' = B \<and> P' = P)"
  using assms
proof (induction "BUDDY_NUM_ORDERS - k" arbitrary: a k A B P rule: less_induct)
  case less
  let ?b = "a XOR OrderToSize k"
  show ?case
  proof (cases "k < BUDDY_NUM_ORDERS - 1 \<and> (?b, k) \<in> B")
    case False
    have "merge_up a k A = Some (a, k, A)"
      using False FindFreeBlock_abs [OF less.prems(1,3), of ?b]
      by (subst merge_up.simps) (auto simp: Let_def)
    with False less.prems show ?thesis by (auto intro!: exI [of _ B])
  next
    case True
    from True FindFreeBlock_abs [OF less.prems(1,3), of ?b] obtain n A1 where A1:
      "FindFreeBlock ?b k A = Some (Some n)" "RemoveFreeBlock n k A = Some A1"
      "buddy_abs A1 (B - {(?b, k)}) (Suc P)" by auto
    let ?B = "B - {(?b, k)}" and ?a = "if ?b < a then ?b else a"
    have a: "?a = min a ?b" by (simp add: min_def)
    have ok: "blocks_ok ?B" using less.prems(2) by (rule blocks_ok_subset) blast
    note m = buddy_merge [OF refl, of a k] and rm = mem_remove [OF less.prems(2), of "(?b, k)"]
    have free: "blk_rng (?a, Suc k) \<inter> blk_mem ?B = {}"
      unfolding a m using rm True less.prems(4) by auto
    have whole: "blk_rng (?a, Suc k) \<union> blk_mem ?B = blk_rng (a, k) \<union> blk_mem B"
      unfolding a m using rm True rng_subset_mem [of "(?b, k)" B] by auto
    have "?b + OrderToSize k \<le> 18446744073709551616" using blocks_ok_bound less.prems(2) True by blast
    then have bound: "?a + OrderToSize (Suc k) \<le> 18446744073709551616"
      using less.prems(5) buddy_address [of a k] by (auto simp: OrderToSize_Suc split: if_splits)
    have step: "merge_up a k A = merge_up ?a (Suc k) A1"
      using True A1(1,2) by (subst merge_up.simps) (simp add: Let_def)
    have k': "BUDDY_NUM_ORDERS - Suc k < BUDDY_NUM_ORDERS - k" "Suc k < BUDDY_NUM_ORDERS" using True by auto
    from less.hyps [OF k'(1) A1(3) ok k'(2) free bound] obtain a' k' A' B' P' where
      r: "merge_up ?a (Suc k) A1 = Some (a', k', A')" "buddy_abs A' B' P'" "blocks_ok B'"
      "k' < BUDDY_NUM_ORDERS" "a' + OrderToSize k' \<le> 18446744073709551616"
      "blk_rng (a', k') \<inter> blk_mem B' = {}"
      "blk_rng (a', k') \<union> blk_mem B' = blk_rng (?a, Suc k) \<union> blk_mem ?B" "0 < P'"
      by (metis zero_less_Suc)
    with True step whole show ?thesis by metis
  qed
qed

lemma Free_abs:
  assumes abs: "buddy_abs A B P" and ok: "blocks_ok B" and k: "GetOrder sz < BUDDY_NUM_ORDERS"
    and free: "blk_rng (a, GetOrder sz) \<inter> blk_mem B = {}"
    and bound: "a + OrderToSize (GetOrder sz) \<le> 18446744073709551616"
  shows "\<exists>A' B' P'. BuddyAllocator_Free a sz A = Some A' \<and> buddy_abs A' B' P' \<and> blocks_ok B' \<and>
    blk_mem B' =
      (if P = 0 \<and> \<not> (GetOrder sz < BUDDY_NUM_ORDERS - 1 \<and>
                     (a XOR OrderToSize (GetOrder sz), GetOrder sz) \<in> B)
       then blk_mem B else blk_mem B \<union> blk_rng (a, GetOrder sz))"
proof -
  obtain a' k' A1 B1 P1 where r: "merge_up a (GetOrder sz) A = Some (a', k', A1)"
    "buddy_abs A1 B1 P1" "blocks_ok B1" "k' < BUDDY_NUM_ORDERS" "a' + OrderToSize k' \<le> 18446744073709551616"
    "blk_rng (a', k') \<inter> blk_mem B1 = {}"
    "blk_rng (a', k') \<union> blk_mem B1 = blk_rng (a, GetOrder sz) \<union> blk_mem B"
    and m: "if GetOrder sz < BUDDY_NUM_ORDERS - 1 \<and> (a XOR OrderToSize (GetOrder sz), GetOrder sz) \<in> B
       then 0 < P1 else A1 = A \<and> B1 = B \<and> P1 = P"
    using merge_up_abs [OF abs ok k free bound] by blast
  have f: "BuddyAllocator_Free a sz A = Some (AddFreeBlock a' k' A1)"
    using r(1) k by (simp add: BuddyAllocator_Free_def Let_def)
  show ?thesis
  proof (cases P1)
    case 0
    then have "AddFreeBlock a' k' A1 = A1" using r(2) AddFreeBlock_full by blast
    moreover have "\<not> (GetOrder sz < BUDDY_NUM_ORDERS - 1 \<and>
        (a XOR OrderToSize (GetOrder sz), GetOrder sz) \<in> B)" "P = 0" "B1 = B"
      using m 0 by (auto split: if_splits)
    ultimately show ?thesis using f r(2,3) by (intro exI [of _ A1] exI [of _ B1] exI [of _ P1]) simp
  next
    case (Suc P2)
    note ins = blocks_ok_insert [OF r(3,6,5)]
    have "buddy_abs (AddFreeBlock a' k' A1) (insert (a', k') B1) P2"
      using r(2,4) ins(2) Suc by (intro AddFreeBlock_abs) simp_all
    moreover have "blk_mem (insert (a', k') B1) = blk_mem B \<union> blk_rng (a, GetOrder sz)" using r(7) by auto
    moreover have some: "\<not> (P = 0 \<and> \<not> (GetOrder sz < BUDDY_NUM_ORDERS - 1 \<and>
        (a XOR OrderToSize (GetOrder sz), GetOrder sz) \<in> B))"
      using m Suc by (auto split: if_splits)
    ultimately show ?thesis unfolding if_not_P [OF some] using f ins(1) by blast
  qed
qed

text \<open>
  The block of order \<open>j\<close> a freed block of order \<open>k\<close> grows into, and the buddy of that block: growing by
  one order clears one bit of the address.
\<close>

definition ancestor :: "nat \<Rightarrow> nat \<Rightarrow> nat \<Rightarrow> nat" where
  "ancestor a k j = fold (\<lambda>i b. unset_bit (i + BUDDY_MIN_ORDER) b) [k..<j] a"

definition buddy_of :: "nat \<Rightarrow> nat \<Rightarrow> nat \<Rightarrow> nat" where
  "buddy_of a k j = ancestor a k j XOR OrderToSize j"

lemma ancestor_self [simp]: "ancestor a k k = a"
  by (simp add: ancestor_def)

lemma min_buddy: "(if a XOR OrderToSize k < a then a XOR OrderToSize k else a) = unset_bit (k + BUDDY_MIN_ORDER) a"
proof (cases "bit a (k + BUDDY_MIN_ORDER)")
  case True
  then show ?thesis
    using buddy_address [of a k] unset_bit_nat [of a "k + BUDDY_MIN_ORDER"] by (auto simp: OrderToSize_def)
next
  case False
  then have "unset_bit (k + BUDDY_MIN_ORDER) a = a" by (intro bit_eqI) (auto simp: bit_unset_bit_iff)
  then show ?thesis using False buddy_address(1) [of a k] by simp
qed

lemma ancestor_Suc:
  assumes "k < j"
  shows "ancestor (if a XOR OrderToSize k < a then a XOR OrderToSize k else a) (Suc k) j = ancestor a k j"
  using assms unfolding min_buddy by (simp add: ancestor_def upt_conv_Cons)

definition merged :: "nat \<Rightarrow> nat \<Rightarrow> nat \<Rightarrow> (nat \<times> nat) set" where
  "merged a k k' = (\<lambda>j. (buddy_of a k j, j)) ` {k..<k'}"

lemma merged_self [simp]: "merged a k k = {}"
  by (simp add: merged_def)

lemma merged_Suc:
  assumes "k < k'"
  shows "merged a k k' = insert (a XOR OrderToSize k, k)
    (merged (if a XOR OrderToSize k < a then a XOR OrderToSize k else a) (Suc k) k')"
proof -
  have "{k..<k'} = insert k {Suc k..<k'}" using assms by auto
  moreover have "buddy_of (if a XOR OrderToSize k < a then a XOR OrderToSize k else a) (Suc k) j = buddy_of a k j"
    if "j \<in> {Suc k..<k'}" for j
    using that ancestor_Suc [of k j a] by (simp add: buddy_of_def)
  ultimately show ?thesis unfolding merged_def by (auto simp: buddy_of_def)
qed

lemma merge_up_stop:
  assumes "buddy_abs A B P" and "k < BUDDY_NUM_ORDERS"
    and "k = BUDDY_NUM_ORDERS - 1 \<or> (a XOR OrderToSize k, k) \<notin> B"
  shows "merge_up a k A = Some (a, k, A)"
  using assms(3) FindFreeBlock_abs [OF assms(1,2), of "a XOR OrderToSize k"]
  by (subst merge_up.simps) (auto simp: Let_def)

lemma merge_up_exact:
  assumes "buddy_abs A B P" and "k < BUDDY_NUM_ORDERS"
  shows "\<exists>k' A'. merge_up a k A = Some (ancestor a k k', k', A') \<and> k \<le> k' \<and> k' < BUDDY_NUM_ORDERS \<and>
    buddy_abs A' (B - merged a k k') (P + (k' - k)) \<and> merged a k k' \<subseteq> B \<and>
    (k' = BUDDY_NUM_ORDERS - 1 \<or> (buddy_of a k k', k') \<notin> B)"
  using assms
proof (induction "BUDDY_NUM_ORDERS - k" arbitrary: a k A B P rule: less_induct)
  case less
  let ?b = "a XOR OrderToSize k"
  show ?case
  proof (cases "k < BUDDY_NUM_ORDERS - 1 \<and> (?b, k) \<in> B")
    case False
    have "merge_up a k A = Some (a, k, A)"
      by (rule merge_up_stop [OF less.prems]) (use False less.prems(2) in auto)
    with False less.prems show ?thesis by (intro exI [of _ k] exI [of _ A]) (auto simp: buddy_of_def)
  next
    case True
    from True FindFreeBlock_abs [OF less.prems, of ?b] obtain n A1 where A1:
      "FindFreeBlock ?b k A = Some (Some n)" "RemoveFreeBlock n k A = Some A1"
      "buddy_abs A1 (B - {(?b, k)}) (Suc P)" by auto
    let ?B = "B - {(?b, k)}" and ?a = "if ?b < a then ?b else a"
    have step: "merge_up a k A = merge_up ?a (Suc k) A1"
      using True A1(1,2) by (subst merge_up.simps) (simp add: Let_def)
    have k: "BUDDY_NUM_ORDERS - Suc k < BUDDY_NUM_ORDERS - k" "Suc k < BUDDY_NUM_ORDERS" using True by auto
    from less.hyps [OF k(1) A1(3) k(2), of ?a] obtain k' A' where
      r: "merge_up ?a (Suc k) A1 = Some (ancestor ?a (Suc k) k', k', A')" "Suc k \<le> k'" "k' < BUDDY_NUM_ORDERS"
      "buddy_abs A' (?B - merged ?a (Suc k) k') (Suc P + (k' - Suc k))" "merged ?a (Suc k) k' \<subseteq> ?B"
      "k' = BUDDY_NUM_ORDERS - 1 \<or> (buddy_of ?a (Suc k) k', k') \<notin> ?B" by blast
    have lt: "k < k'" using r(2) by simp
    have anc: "ancestor ?a (Suc k) k' = ancestor a k k'" "buddy_of ?a (Suc k) k' = buddy_of a k k'"
      using ancestor_Suc [OF lt, of a] by (simp_all add: buddy_of_def)
    have "?B - merged ?a (Suc k) k' = B - merged a k k'" unfolding merged_Suc [OF lt] by blast
    moreover have "Suc P + (k' - Suc k) = P + (k' - k)" using r(2) by simp
    moreover have "merged a k k' \<subseteq> B" using r(5) True unfolding merged_Suc [OF lt] by blast
    moreover have "k' = BUDDY_NUM_ORDERS - 1 \<or> (buddy_of a k k', k') \<notin> B" using r(6) lt unfolding anc(2) by auto
    ultimately show ?thesis using r step lt unfolding anc by (intro exI [of _ k'] exI [of _ A']) simp
  qed
qed

section \<open>Creation\<close>

function carve_list :: "nat \<Rightarrow> nat \<Rightarrow> (nat \<times> nat) list" where
  "carve_list a remaining =
     (if BUDDY_PAGE \<le> remaining
      then let order = fitting_order (BUDDY_NUM_ORDERS - 1) remaining
           in (a, order) # carve_list (a + OrderToSize order) (remaining - OrderToSize order)
      else [])"
  by pat_completeness auto
termination
proof (relation "measure (\<lambda>(a, remaining). remaining)")
  fix a remaining order :: nat
  assume "BUDDY_PAGE \<le> remaining"
  then show "((a + OrderToSize order, remaining - OrderToSize order), (a, remaining))
      \<in> measure (\<lambda>(a, remaining). remaining)" using OrderToSize_pos [of order] by simp
qed simp

declare carve_list.simps [simp del]

lemma OrderToSize_pages: "\<exists>c. OrderToSize k = c * BUDDY_PAGE"
  by (intro exI [of _ "2 ^ k"]) (simp add: OrderToSize_def power_add)

lemma carve_list_mem:
  "blk_mem (set (carve_list a remaining)) = {a..<a + remaining div BUDDY_PAGE * BUDDY_PAGE}"
proof (induction remaining arbitrary: a rule: less_induct)
  case (less remaining)
  show ?case
  proof (cases "BUDDY_PAGE \<le> remaining")
    case False
    then show ?thesis by (subst carve_list.simps) simp
  next
    case True
    let ?k = "fitting_order (BUDDY_NUM_ORDERS - 1) remaining"
    obtain c where c: "OrderToSize ?k = c * BUDDY_PAGE" using OrderToSize_pages by blast
    have fits: "c * BUDDY_PAGE \<le> remaining" using fitting_order_fits [OF True, of "BUDDY_NUM_ORDERS - 1"] c by linarith
    have "(remaining - c * BUDDY_PAGE) div BUDDY_PAGE = remaining div BUDDY_PAGE - c" by simp
    then have whole: "c * BUDDY_PAGE + (remaining - c * BUDDY_PAGE) div BUDDY_PAGE * BUDDY_PAGE =
        remaining div BUDDY_PAGE * BUDDY_PAGE"
      using fits by (simp add: diff_mult_distrib)
    have smaller: "remaining - OrderToSize ?k < remaining" using True OrderToSize_pos [of ?k] by linarith
    have "carve_list a remaining = (a, ?k) # carve_list (a + OrderToSize ?k) (remaining - OrderToSize ?k)"
      using True by (subst carve_list.simps) (simp add: Let_def)
    then have "blk_mem (set (carve_list a remaining)) = {a..<a + OrderToSize ?k} \<union>
        {a + OrderToSize ?k..<a + OrderToSize ?k + (remaining - OrderToSize ?k) div BUDDY_PAGE * BUDDY_PAGE}"
      using less.IH [OF smaller, of "a + OrderToSize ?k"] by (simp add: rng_eq)
    then show ?thesis unfolding ivl_glue c whole .
  qed
qed

lemma carve_abs:
  assumes "buddy_abs A B P" and "blocks_ok B" and "{a..<a + remaining} \<inter> blk_mem B = {}"
    and "a + remaining \<le> 18446744073709551616"
  shows "buddy_abs (carve a remaining A) (B \<union> set (take P (carve_list a remaining)))
      (P - length (carve_list a remaining)) \<and>
    blocks_ok (B \<union> set (take P (carve_list a remaining)))"
  using assms
proof (induction remaining arbitrary: a A B P rule: less_induct)
  case (less remaining)
  show ?case
  proof (cases "BUDDY_PAGE \<le> remaining")
    case False
    with less.prems show ?thesis by (subst carve.simps, subst (1 2 3) carve_list.simps) simp
  next
    case True
    let ?k = "fitting_order (BUDDY_NUM_ORDERS - 1) remaining"
    have k: "?k < BUDDY_NUM_ORDERS" using fitting_order_le [of "BUDDY_NUM_ORDERS - 1" remaining] by simp
    have fits: "OrderToSize ?k \<le> remaining" by (rule fitting_order_fits [OF True])
    have smaller: "remaining - OrderToSize ?k < remaining" using True OrderToSize_pos [of ?k] by linarith
    have cl: "carve_list a remaining = (a, ?k) # carve_list (a + OrderToSize ?k) (remaining - OrderToSize ?k)"
      using True by (subst carve_list.simps) (simp add: Let_def)
    have step: "carve a remaining A =
        carve (wrap64 (a + OrderToSize ?k)) (remaining - OrderToSize ?k) (AddFreeBlock a ?k A)"
      using True by (subst carve.simps) (simp add: Let_def)
    have wrap: "carve (wrap64 (a + OrderToSize ?k)) (remaining - OrderToSize ?k) X =
        carve (a + OrderToSize ?k) (remaining - OrderToSize ?k) X" for X
    proof (cases "a + OrderToSize ?k < 18446744073709551616")
      case False
      then have "remaining - OrderToSize ?k = 0" using less.prems(4) fits by linarith
      then show ?thesis by (subst (1 2) carve.simps) simp
    qed (simp add: wrap64_id)
    have here: "blk_rng (a, ?k) \<subseteq> {a..<a + remaining}" using fits by (auto simp: rng_eq)
    have free: "blk_rng (a, ?k) \<inter> blk_mem B = {}" using here less.prems(3) by blast
    have bound: "a + OrderToSize ?k \<le> 18446744073709551616" using fits less.prems(4) by linarith
    have rest: "a + OrderToSize ?k + (remaining - OrderToSize ?k) \<le> 18446744073709551616"
      using fits less.prems(4) by linarith
    have sub: "{a + OrderToSize ?k..<a + OrderToSize ?k + (remaining - OrderToSize ?k)} \<subseteq> {a..<a + remaining}"
      using fits by auto
    then have gap: "{a + OrderToSize ?k..<a + OrderToSize ?k + (remaining - OrderToSize ?k)} \<inter> blk_mem B = {}"
      using less.prems(3) by blast
    note ins = blocks_ok_insert [OF less.prems(2) free bound]
    show ?thesis
    proof (cases P)
      case 0
      have "AddFreeBlock a ?k A = A" using less.prems(1) 0 by (intro AddFreeBlock_full) simp
      then show ?thesis
        using less.IH [OF smaller less.prems(1,2) gap rest] unfolding step wrap cl by (simp add: 0)
    next
      case (Suc P')
      have "buddy_abs (AddFreeBlock a ?k A) (insert (a, ?k) B) P'"
        using less.prems(1) Suc k ins(2) by (intro AddFreeBlock_abs) simp_all
      moreover have "{a + OrderToSize ?k..<a + OrderToSize ?k + (remaining - OrderToSize ?k)} \<inter>
          blk_mem (insert (a, ?k) B) = {}"
        using gap by (simp add: Int_Un_distrib) (auto simp: rng_eq)
      ultimately show ?thesis
        using less.IH [OF smaller _ ins(1) _ rest] unfolding step wrap cl by (simp add: Suc)
    qed
  qed
qed

lemma pool_chain:
  "i \<le> m \<Longrightarrow> seg (\<lambda>i. if i < m then Some (i + 1) else if i = m then None else f i) (Some i) [i..<Suc m] None"
proof (induction "m - i" arbitrary: i)
  case 0
  then show ?case by simp
next
  case (Suc x)
  then have "i < m" by simp
  moreover from this have "[i..<Suc m] = i # [Suc i..<Suc m]" by (simp add: upt_rec)
  ultimately show ?case using Suc.hyps(1) [of "Suc i"] Suc.hyps(2) by simp
qed

lemma init_abs:
  "buddy_abs (InitBuddyNodePool (A\<lparr>free_lists := (\<lambda>i. None), hash_table := (\<lambda>i. None)\<rparr>)) {} MAX_BUDDY_NODES"
proof (rule buddy_absI [where FL = "\<lambda>i. []" and HL = "\<lambda>i. []" and PL = "[0..<MAX_BUDDY_NODES]"])
  show "buddy_rep (InitBuddyNodePool (A\<lparr>free_lists := (\<lambda>i. None), hash_table := (\<lambda>i. None)\<rparr>))
     (\<lambda>i. []) (\<lambda>i. []) [0..<MAX_BUDDY_NODES]"
  proof -
    have "seg (nd_next (InitBuddyNodePool (A\<lparr>free_lists := (\<lambda>i. None), hash_table := (\<lambda>i. None)\<rparr>)))
        (Some 0) [0..<MAX_BUDDY_NODES] None"
      using pool_chain [of 0 2047 "nd_next A"] by (auto simp: InitBuddyNodePool_def elim: seg_frame)
    then show ?thesis by (simp add: buddy_rep_def) (simp add: InitBuddyNodePool_def)
  qed
qed simp_all

lemma Create_abs:
  assumes "start + sz \<le> 18446744073709551616"
  shows "buddy_abs (BuddyAllocator_Create start sz A) (set (take MAX_BUDDY_NODES (carve_list start sz)))
      (MAX_BUDDY_NODES - length (carve_list start sz))"
    and "blocks_ok (set (take MAX_BUDDY_NODES (carve_list start sz)))"
  using carve_abs [OF init_abs [of A], of start sz] assms
  by (simp_all add: BuddyAllocator_Create_def blocks_ok_def)

lemma carve_list_take:
  "n * 1073741824 \<le> remaining \<Longrightarrow>
   take n (carve_list a remaining) = map (\<lambda>i. (a + i * 1073741824, 18)) [0..<n]"
proof (induction n arbitrary: a remaining)
  case (Suc n)
  have ge: "1073741824 \<le> remaining" using Suc.prems by simp
  then have "fitting_order (Suc 17) remaining = Suc 17"
    unfolding fitting_order.simps(2) by (simp add: OrderToSize_def)
  then have "fitting_order (BUDDY_NUM_ORDERS - 1) remaining = 18" by simp
  then have "carve_list a remaining = (a, 18) # carve_list (a + 1073741824) (remaining - 1073741824)"
    using ge by (subst carve_list.simps) (simp add: Let_def OrderToSize_def)
  moreover have "take n (carve_list (a + 1073741824) (remaining - 1073741824)) =
      map (\<lambda>i. (a + 1073741824 + i * 1073741824, 18)) [0..<n]"
    using Suc.prems by (intro Suc.IH) simp
  moreover have "map (\<lambda>i. (a + i * 1073741824, 18 :: nat)) [0..<Suc n] =
      (a, 18) # map (\<lambda>i. (a + 1073741824 + i * 1073741824, 18)) [0..<n]"
    by (simp add: upt_conv_Cons map_Suc_upt [symmetric] o_def add.assoc del: upt_Suc)
  ultimately show ?case by simp
qed simp

text \<open>The kept blocks cover an initial part of the region.\<close>

lemma carve_list_take_mem:
  "blk_mem (set (take n (carve_list a remaining)))
     = {a..<a + sum_list (map (\<lambda>(b, k). OrderToSize k) (take n (carve_list a remaining)))}"
proof (induction n arbitrary: a remaining)
  case (Suc n)
  show ?case
  proof (cases "BUDDY_PAGE \<le> remaining")
    case True
    let ?k = "fitting_order (BUDDY_NUM_ORDERS - 1) remaining"
    have "carve_list a remaining = (a, ?k) # carve_list (a + OrderToSize ?k) (remaining - OrderToSize ?k)"
      using True by (subst carve_list.simps) (simp add: Let_def)
    then show ?thesis
      using Suc.IH [of "a + OrderToSize ?k" "remaining - OrderToSize ?k"]
      by (simp add: rng_eq ivl_glue add.assoc [symmetric])
  qed (subst (1 2) carve_list.simps, simp)
qed simp

lemma fitting_order_eq:
  assumes "OrderToSize k \<le> remaining" "remaining < OrderToSize (Suc k)"
  shows "fitting_order (k + d) remaining = k"
proof (induction d)
  case 0
  show ?case using assms(1) by (cases k) simp_all
next
  case (Suc d)
  have "OrderToSize (Suc k) \<le> OrderToSize (Suc (k + d))" by (rule OrderToSize_mono) simp
  then show ?case using Suc assms(2) by simp
qed

lemma carve_list_small:
  "k \<le> BUDDY_NUM_ORDERS - 1 \<Longrightarrow> remaining < OrderToSize k \<Longrightarrow> length (carve_list a remaining) \<le> k"
proof (induction k arbitrary: a remaining)
  case 0
  then show ?case by (subst carve_list.simps) (simp add: OrderToSize_def)
next
  case (Suc k)
  show ?case
  proof (cases "remaining < OrderToSize k")
    case True
    then show ?thesis using Suc.IH [of remaining a] Suc.prems(1) by simp
  next
    case False
    obtain d where d: "BUDDY_NUM_ORDERS - 1 = k + d" using Suc.prems(1) by (metis Suc_leD le_Suc_ex)
    have f: "fitting_order (BUDDY_NUM_ORDERS - 1) remaining = k"
      unfolding d by (rule fitting_order_eq) (use False Suc.prems(2) in simp_all)
    have "OrderToSize 0 \<le> OrderToSize k" by (rule OrderToSize_mono) simp
    then have "BUDDY_PAGE \<le> remaining" using False by (simp add: OrderToSize_def)
    then have "carve_list a remaining = (a, k) # carve_list (a + OrderToSize k) (remaining - OrderToSize k)"
      using f by (subst carve_list.simps) (simp add: Let_def)
    moreover have "remaining - OrderToSize k < OrderToSize k"
      using Suc.prems(2) False by (simp add: OrderToSize_Suc)
    ultimately show ?thesis using Suc.IH [of "remaining - OrderToSize k"] Suc.prems(1) by simp
  qed
qed

lemma carve_list_length: "length (carve_list a remaining) \<le> remaining div 0x40000000 + 18"
proof (induction remaining arbitrary: a rule: less_induct)
  case (less remaining)
  show ?case
  proof (cases "remaining < 0x40000000")
    case True
    then show ?thesis using carve_list_small [of 18 remaining a] by (simp add: OrderToSize_def)
  next
    case False
    have "take (Suc 0) (carve_list a remaining) = [(a, 18)]"
      using carve_list_take [of "Suc 0" remaining a] False by simp
    moreover have "carve_list a remaining = (a, k) # carve_list (a + OrderToSize k) (remaining - OrderToSize k)"
      if "k = fitting_order (BUDDY_NUM_ORDERS - 1) remaining" for k
      using False that by (subst carve_list.simps) (simp add: Let_def)
    ultimately have "carve_list a remaining = (a, 18) # carve_list (a + OrderToSize 18) (remaining - OrderToSize 18)"
      by (metis One_nat_def list.inject prod.inject take_Suc_Cons take0)
    moreover have "remaining div 0x40000000 = Suc ((remaining - 0x40000000) div 0x40000000)"
      using False by (simp add: le_div_geq)
    ultimately show ?thesis
      using less.IH [of "remaining - 0x40000000" "a + OrderToSize 18"] False by (simp add: OrderToSize_def)
  qed
qed

section \<open>The free blocks as a function of the state\<close>

definition free_blocks :: "BuddyAllocator \<Rightarrow> (nat \<times> nat) set" where
  "free_blocks A = {(nd_base A n, k) | n k. k < BUDDY_NUM_ORDERS \<and>
     (\<exists>xs. dlist (nd_next A) (nd_prev A) (free_lists A k) xs \<and> n \<in> set xs)}"

definition buddy_ok :: "nat \<Rightarrow> BuddyAllocator \<Rightarrow> bool" where
  "buddy_ok P A \<longleftrightarrow> buddy_abs A (free_blocks A) P \<and> blocks_ok (free_blocks A)"

lemma free_blocks_abs:
  assumes "buddy_abs A B P"
  shows "free_blocks A = B"
proof -
  from assms obtain FL HL PL where r: "buddy_rep A FL HL PL"
    and B: "B = {(nd_base A n, k) | n k. k < BUDDY_NUM_ORDERS \<and> n \<in> set (FL k)}"
    unfolding buddy_abs_def by blast
  have "(\<exists>xs. dlist (nd_next A) (nd_prev A) (free_lists A k) xs \<and> n \<in> set xs) \<longleftrightarrow> n \<in> set (FL k)"
    if "k < BUDDY_NUM_ORDERS" for n k
    using rep_dlist(1) [OF r that] dseg_unique unfolding dlist_def by metis
  then show ?thesis unfolding B free_blocks_def by blast
qed

lemma buddy_okI: "buddy_abs A B P \<Longrightarrow> blocks_ok B \<Longrightarrow> buddy_ok P A \<and> free_blocks A = B"
  using free_blocks_abs by (auto simp: buddy_ok_def)

lemma Free_exact:
  assumes ok: "buddy_ok P A" and k: "GetOrder sz < BUDDY_NUM_ORDERS"
    and free: "blk_rng (a, GetOrder sz) \<inter> blk_mem (free_blocks A) = {}"
    and bound: "a + OrderToSize (GetOrder sz) \<le> 18446744073709551616"
  shows "\<exists>A' k'. BuddyAllocator_Free a sz A = Some A' \<and> GetOrder sz \<le> k' \<and> k' < BUDDY_NUM_ORDERS \<and>
    merged a (GetOrder sz) k' \<subseteq> free_blocks A \<and>
    (k' = BUDDY_NUM_ORDERS - 1 \<or> (buddy_of a (GetOrder sz) k', k') \<notin> free_blocks A) \<and>
    (if P = 0 \<and> k' = GetOrder sz then A' = A
     else free_blocks A' = insert (ancestor a (GetOrder sz) k', k') (free_blocks A - merged a (GetOrder sz) k'))"
proof -
  let ?o = "GetOrder sz"
  have abs: "buddy_abs A (free_blocks A) P" and bok: "blocks_ok (free_blocks A)"
    using ok by (simp_all add: buddy_ok_def)
  from merge_up_exact [OF abs k, of a] obtain k' A1 where r: "merge_up a ?o A = Some (ancestor a ?o k', k', A1)"
    "?o \<le> k'" "k' < BUDDY_NUM_ORDERS" "buddy_abs A1 (free_blocks A - merged a ?o k') (P + (k' - ?o))"
    "merged a ?o k' \<subseteq> free_blocks A" "k' = BUDDY_NUM_ORDERS - 1 \<or> (buddy_of a ?o k', k') \<notin> free_blocks A"
    by blast
  from merge_up_abs [OF abs bok k free bound] r(1) obtain B1 P1 where
    m: "buddy_abs A1 B1 P1" "blocks_ok B1" "ancestor a ?o k' + OrderToSize k' \<le> 18446744073709551616"
    "blk_rng (ancestor a ?o k', k') \<inter> blk_mem B1 = {}"
    by auto
  have B1: "B1 = free_blocks A - merged a ?o k'"
    using free_blocks_abs [OF m(1)] free_blocks_abs [OF r(4)] by simp
  have f: "BuddyAllocator_Free a sz A = Some (AddFreeBlock (ancestor a ?o k') k' A1)"
    using r(1) k by (simp add: BuddyAllocator_Free_def Let_def)
  show ?thesis
  proof (cases "P + (k' - ?o)")
    case 0
    then have "k' = ?o" "P = 0" using r(2) by simp_all
    moreover from this have "A1 = A"
      using r(1,6) merge_up_stop [OF abs k, of a] by (simp add: buddy_of_def)
    moreover have "AddFreeBlock (ancestor a ?o k') k' A1 = A1" using r(4) 0 AddFreeBlock_full by simp
    ultimately show ?thesis using f r(2,3,5,6) by (intro exI [of _ A] exI [of _ k']) simp
  next
    case (Suc P2)
    note ins = blocks_ok_insert [OF m(2,4,3)]
    have "buddy_abs (AddFreeBlock (ancestor a ?o k') k' A1) (insert (ancestor a ?o k', k') B1) P2"
      using r(3,4) ins(2) Suc unfolding B1 by (intro AddFreeBlock_abs) simp_all
    then have "free_blocks (AddFreeBlock (ancestor a ?o k') k' A1) = insert (ancestor a ?o k', k') B1"
      by (rule free_blocks_abs)
    moreover have "\<not> (P = 0 \<and> k' = ?o)" using Suc by auto
    ultimately show ?thesis using f r(2,3,5,6) unfolding B1 by auto
  qed
qed

section \<open>Address range allocators\<close>

text \<open>
  What a client such as \<open>VMemAlloc\<close> relies on: a request either fails and changes nothing, or
  yields a range that was available and no longer is.  A series of successful requests therefore
  yields pairwise disjoint ranges.
\<close>

fun alloc_ranges :: "(nat \<Rightarrow> 's \<Rightarrow> (nat \<times> 's) option) \<Rightarrow> nat list \<Rightarrow> 's \<Rightarrow> ((nat \<times> nat) list \<times> 's) option" where
  "alloc_ranges alloc [] s = Some ([], s)"
| "alloc_ranges alloc (sz # szs) s =
     (case alloc sz s of
        None \<Rightarrow> None
      | Some (a, s1) \<Rightarrow>
          (case alloc_ranges alloc szs s1 of
             None \<Rightarrow> None
           | Some (rs, s2) \<Rightarrow> Some (if a = 0 then (rs, s2) else ((a, sz) # rs, s2))))"

locale range_allocator =
  fixes alloc :: "nat \<Rightarrow> 's \<Rightarrow> (nat \<times> 's) option"
    and avail :: "'s \<Rightarrow> nat set"
    and ok :: "'s \<Rightarrow> bool"
  assumes alloc_range: "ok s \<Longrightarrow> sz < 18446744073709551616 \<Longrightarrow>
      \<exists>a s'. alloc sz s = Some (a, s') \<and> ok s' \<and>
        (a = 0 \<and> s' = s \<or> {a..<a + sz} \<subseteq> avail s \<and> avail s' \<subseteq> avail s - {a..<a + sz})"
begin

lemma alloc_ranges_disjoint:
  assumes "ok s" and "\<forall>sz \<in> set szs. sz < 18446744073709551616"
  shows "\<exists>rs s'. alloc_ranges alloc szs s = Some (rs, s') \<and> ok s' \<and> avail s' \<subseteq> avail s \<and>
    (\<forall>(a, sz) \<in> set rs. {a..<a + sz} \<subseteq> avail s - avail s') \<and>
    sorted_wrt (\<lambda>(a, m) (b, n). {a..<a + m} \<inter> {b..<b + n} = {}) rs"
  using assms
proof (induction szs arbitrary: s)
  case Nil
  then show ?case by simp
next
  case (Cons sz szs)
  obtain a s1 where a: "alloc sz s = Some (a, s1)" "ok s1"
    "a = 0 \<and> s1 = s \<or> {a..<a + sz} \<subseteq> avail s \<and> avail s1 \<subseteq> avail s - {a..<a + sz}"
    using alloc_range [OF Cons.prems(1)] Cons.prems(2) by (meson list.set_intros(1))
  obtain rs s2 where r: "alloc_ranges alloc szs s1 = Some (rs, s2)" "ok s2" "avail s2 \<subseteq> avail s1"
    "\<forall>(b, n) \<in> set rs. {b..<b + n} \<subseteq> avail s1 - avail s2"
    "sorted_wrt (\<lambda>(a, m) (b, n). {a..<a + m} \<inter> {b..<b + n} = {}) rs"
    using Cons.IH [OF a(2)] Cons.prems(2) by auto
  show ?case
  proof (cases "a = 0")
    case True
    have "avail s1 \<subseteq> avail s" using a(3) by blast
    with True a(1) r show ?thesis by fastforce
  next
    case False
    with a(3) have g: "{a..<a + sz} \<subseteq> avail s" "avail s1 \<subseteq> avail s - {a..<a + sz}" by auto
    have "{a..<a + sz} \<inter> {b..<b + n} = {}" if "(b, n) \<in> set rs" for b n using r(4) that g(2) by fast
    moreover have "{a..<a + sz} \<subseteq> avail s - avail s2" using g r(3) by blast
    moreover have "\<forall>(b, n) \<in> set rs. {b..<b + n} \<subseteq> avail s - avail s2" using r(4) g(2) by fast
    moreover have "avail s2 \<subseteq> avail s" using g r(3) by blast
    ultimately show ?thesis using False a(1) r(1,2,5) by auto
  qed
qed

end

definition buddy_avail :: "BuddyAllocator \<Rightarrow> nat set" where
  "buddy_avail A = blk_mem (free_blocks A)"

definition buddy_inv :: "BuddyAllocator \<Rightarrow> bool" where
  "buddy_inv A \<longleftrightarrow> (\<exists>P. buddy_ok P A)"

lemma Allocate_avail:
  assumes "buddy_ok P A" and sz: "sz < 18446744073709551616"
  shows "\<exists>a A' P'. BuddyAllocator_Allocate sz A = Some (a, A') \<and> buddy_ok P' A' \<and>
    (if GetOrder sz < BUDDY_NUM_ORDERS \<and> (\<exists>(b, k) \<in> free_blocks A. GetOrder sz \<le> k)
     then \<exists>c. (a, c) \<in> free_blocks A \<and> GetOrder sz \<le> c \<and>
            (\<forall>(b, k) \<in> free_blocks A. GetOrder sz \<le> k \<longrightarrow> c \<le> k) \<and>
            blk_rng (a, GetOrder sz) \<subseteq> buddy_avail A \<and>
            buddy_avail A' \<subseteq> buddy_avail A - blk_rng (a, GetOrder sz) \<and>
            (c \<le> GetOrder sz + P + 1 \<longrightarrow> buddy_avail A' = buddy_avail A - blk_rng (a, GetOrder sz))
     else a = 0 \<and> A' = A)"
proof -
  have abs: "buddy_abs A (free_blocks A) P" and ok: "blocks_ok (free_blocks A)"
    using assms(1) by (auto simp: buddy_ok_def)
  show ?thesis
    using abs ok
  proof (cases rule: Allocate_cases [where sz = sz])
    case none
    then have "\<not> (GetOrder sz < BUDDY_NUM_ORDERS \<and> (\<exists>(b, k) \<in> free_blocks A. GetOrder sz \<le> k))" by auto
    with none(1) assms(1) show ?thesis by auto
  next
    case (some a c A' P')
    let ?h = "halves a (GetOrder sz) c (Suc P)" and ?B = "free_blocks A - {(a, c)}"
    note A' = buddy_okI [OF some(5,6)]
    have rm: "blk_mem ?B = blk_mem (free_blocks A) - blk_rng (a, c)" by (rule mem_remove [OF ok some(2)])
    have cond: "GetOrder sz < BUDDY_NUM_ORDERS \<and> (\<exists>(b, k) \<in> free_blocks A. GetOrder sz \<le> k)"
      using some(2,3) buddy_abs_order [OF abs some(2)] by auto
    have blk: "blk_rng (a, c) \<subseteq> buddy_avail A" unfolding buddy_avail_def by (rule rng_subset_mem [OF some(2)])
    have low: "blk_rng (a, GetOrder sz) \<subseteq> blk_rng (a, c)"
      using OrderToSize_mono [OF some(3)] by (auto simp: rng_eq)
    have inside: "blk_mem ?h \<subseteq> blk_rng (a, c) - blk_rng (a, GetOrder sz)"
      using halves_inside unfolding blk_mem_def by blast
    have av: "buddy_avail A' = (buddy_avail A - blk_rng (a, c)) \<union> blk_mem ?h"
      using A' rm by (simp add: buddy_avail_def)
    have "buddy_avail A' \<subseteq> buddy_avail A - blk_rng (a, GetOrder sz)"
      unfolding av using inside blk low by blast
    moreover have "buddy_avail A' = buddy_avail A - blk_rng (a, GetOrder sz)" if "c \<le> GetOrder sz + P + 1"
    proof -
      have "blk_rng (a, c) = blk_rng (a, GetOrder sz) \<union> blk_mem ?h"
        using split_range [OF some(3), of a "Suc P"] that by auto
      then show ?thesis unfolding av using inside blk by blast
    qed
    ultimately have "\<exists>c. (a, c) \<in> free_blocks A \<and> GetOrder sz \<le> c \<and>
            (\<forall>(b, k) \<in> free_blocks A. GetOrder sz \<le> k \<longrightarrow> c \<le> k) \<and>
            blk_rng (a, GetOrder sz) \<subseteq> buddy_avail A \<and>
            buddy_avail A' \<subseteq> buddy_avail A - blk_rng (a, GetOrder sz) \<and>
            (c \<le> GetOrder sz + P + 1 \<longrightarrow> buddy_avail A' = buddy_avail A - blk_rng (a, GetOrder sz))"
      using some(2-4) low blk by (intro exI [of _ c] conjI) auto
    then show ?thesis
      using some(1) A' by (intro exI [of _ a] exI [of _ A'] exI [of _ P']) (simp only: if_P [OF cond] simp_thms)
  qed
qed

lemma Allocate_avail':
  assumes "buddy_ok P A" and "sz < 18446744073709551616"
  shows "\<exists>a A' P'. BuddyAllocator_Allocate sz A = Some (a, A') \<and> buddy_ok P' A' \<and>
    (a = 0 \<and> A' = A \<or> blk_rng (a, GetOrder sz) \<subseteq> buddy_avail A \<and>
       buddy_avail A' \<subseteq> buddy_avail A - blk_rng (a, GetOrder sz))"
proof -
  let ?C = "GetOrder sz < BUDDY_NUM_ORDERS \<and> (\<exists>(b, k) \<in> free_blocks A. GetOrder sz \<le> k)"
  show ?thesis
  proof (cases ?C)
    case True
    from Allocate_avail [OF assms, unfolded if_P [OF True]] show ?thesis by blast
  next
    case False
    from Allocate_avail [OF assms, unfolded if_not_P [OF False]] show ?thesis by blast
  qed
qed

lemma GetOrder_range:
  "sz < 18446744073709551616 \<Longrightarrow> {a..<a + sz} \<subseteq> blk_rng (a, GetOrder sz)"
  using GetOrder_bounds(1) [of sz] by (auto simp: rng_eq)

interpretation buddy: range_allocator BuddyAllocator_Allocate buddy_avail buddy_inv
proof
  fix A :: BuddyAllocator and sz :: nat
  assume "buddy_inv A" and sz: "sz < 18446744073709551616"
  then obtain P where ok: "buddy_ok P A" by (auto simp: buddy_inv_def)
  obtain a A' P' where r: "BuddyAllocator_Allocate sz A = Some (a, A')" "buddy_ok P' A'"
    "a = 0 \<and> A' = A \<or> blk_rng (a, GetOrder sz) \<subseteq> buddy_avail A \<and>
       buddy_avail A' \<subseteq> buddy_avail A - blk_rng (a, GetOrder sz)"
    using Allocate_avail' [OF ok sz] by blast
  have "a = 0 \<and> A' = A \<or> {a..<a + sz} \<subseteq> buddy_avail A \<and> buddy_avail A' \<subseteq> buddy_avail A - {a..<a + sz}"
    using r(3) GetOrder_range [OF sz, of a] by blast
  moreover have "buddy_inv A'" using r(2) by (auto simp: buddy_inv_def)
  ultimately show "\<exists>a A'. BuddyAllocator_Allocate sz A = Some (a, A') \<and> buddy_inv A' \<and>
      (a = 0 \<and> A' = A \<or> {a..<a + sz} \<subseteq> buddy_avail A \<and> buddy_avail A' \<subseteq> buddy_avail A - {a..<a + sz})"
    using r(1) by blast
qed

lemma upper_half:
  "{a..<a + 2 * s} \<subseteq> V \<Longrightarrow> V - {a..<a + 2 * s} \<union> {a + s..<a + s + s} = V - {a..<a + s}" for a s :: nat
  by auto

section \<open>Properties\<close>

text \<open>A region of 64 KB at 1 MB, carved into one block, for the witnesses.\<close>

definition demo_buddy :: BuddyAllocator where
  "demo_buddy = BuddyAllocator_Create 0x100000 0x10000
     \<lparr>free_lists = (\<lambda>i. None), hash_table = (\<lambda>i. None), node_head = None, nd_base = (\<lambda>i. 0),
      nd_size = (\<lambda>i. 0), nd_next = (\<lambda>i. None), nd_prev = (\<lambda>i. None), nd_hnext = (\<lambda>i. None)\<rparr>"

lemma demo_carve: "carve_list 0x100000 0x10000 = [(0x100000, 4)]"
proof -
  have f: "fitting_order (Suc 3) 65536 = Suc 3"
    unfolding fitting_order.simps(2) by (simp add: OrderToSize_def)
  have g: "fitting_order (k + 4) 65536 = 4" for k
  proof (induction k)
    case (Suc k)
    have "OrderToSize (Suc 4) \<le> OrderToSize (Suc (k + 4))" by (rule OrderToSize_mono) simp
    then have "65536 < OrderToSize (Suc (k + 4))" by (simp add: OrderToSize_def)
    then show ?case using Suc unfolding add_Suc fitting_order.simps(2) by simp
  qed (use f in simp)
  from g [of 14] have "fitting_order (BUDDY_NUM_ORDERS - 1) 65536 = 4" by simp
  then show ?thesis
    by (subst carve_list.simps, subst carve_list.simps) (simp add: Let_def OrderToSize_def)
qed

lemma demo_buddy_ok: "buddy_ok 2047 demo_buddy" "free_blocks demo_buddy = {(0x100000, 4)}"
  using Create_abs(1) [of "0x100000" "0x10000"] Create_abs(2) [of "0x100000" "0x10000"] buddy_okI [of demo_buddy "{(0x100000, 4)}" 2047]
  unfolding demo_buddy_def demo_carve by simp_all

text \<open>
  C3: BuddyAllocator_Allocate always returns.  When a free block of at least the order of the
  request exists, it takes one of the least such order, returns its address, and what remains
  available never overlaps the returned block; if the node pool has a node for every half that is
  split off, exactly the returned block leaves the available memory.  Otherwise it returns 0 and
  changes nothing.  The returned block is large enough: its order is the least whose size holds the
  request.
\<close>

theorem BuddyAllocator_Allocate_correct:
  assumes "buddy_ok P A" and "sz < 18446744073709551616"
  shows "(\<exists>a A' P'. BuddyAllocator_Allocate sz A = Some (a, A') \<and> buddy_ok P' A' \<and>
    (if GetOrder sz < BUDDY_NUM_ORDERS \<and> (\<exists>(b, k) \<in> free_blocks A. GetOrder sz \<le> k)
     then \<exists>c. (a, c) \<in> free_blocks A \<and> GetOrder sz \<le> c \<and>
            (\<forall>(b, k) \<in> free_blocks A. GetOrder sz \<le> k \<longrightarrow> c \<le> k) \<and>
            blk_rng (a, GetOrder sz) \<subseteq> buddy_avail A \<and>
            buddy_avail A' \<subseteq> buddy_avail A - blk_rng (a, GetOrder sz) \<and>
            (c \<le> GetOrder sz + P + 1 \<longrightarrow> buddy_avail A' = buddy_avail A - blk_rng (a, GetOrder sz))
     else a = 0 \<and> A' = A)) \<and>
    sz \<le> OrderToSize (GetOrder sz) \<and> (0 < GetOrder sz \<longrightarrow> OrderToSize (GetOrder sz - 1) < sz)"
  using Allocate_avail [OF assms] GetOrder_bounds [OF assms(2)] by (intro conjI impI)

theorem BuddyAllocator_Allocate_correct_witness:
  "\<exists>A'. BuddyAllocator_Allocate 4096 demo_buddy = Some (0x100000, A') \<and>
     buddy_avail A' = {0x101000..<0x110000}"
proof -
  have o: "GetOrder 4096 = 0" by (simp add: GetOrder_def)
  have av: "buddy_avail demo_buddy = {0x100000..<0x110000}"
    by (simp add: buddy_avail_def demo_buddy_ok(2) rng_eq OrderToSize_def)
  have "blk_rng (0x100000, 0) = {0x100000..<0x101000}" by (simp add: rng_eq OrderToSize_def)
  with BuddyAllocator_Allocate_correct [OF demo_buddy_ok(1), of 4096] show ?thesis
    unfolding o av demo_buddy_ok(2) by auto
qed

text \<open>
  C13: BuddyAllocator_Free always returns.  A block that is not available, handed back, is merged with
  its buddies as far as possible: it grows to the order \<open>k\<close> at which it has the largest order or its
  buddy is not free, the buddies of all lower orders leave the free blocks, and the grown block joins
  them.  So exactly the freed range becomes available and the free blocks stay disjoint.  The one
  exception is an exhausted node pool with no buddy to merge with: the block is dropped and nothing
  changes.
\<close>

theorem BuddyAllocator_Free_correct:
  assumes "buddy_ok P A" and "GetOrder sz < BUDDY_NUM_ORDERS"
    and "blk_rng (a, GetOrder sz) \<inter> buddy_avail A = {}"
    and "a + OrderToSize (GetOrder sz) \<le> 18446744073709551616"
  shows "\<exists>A' P' k. BuddyAllocator_Free a sz A = Some A' \<and> buddy_ok P' A' \<and>
    GetOrder sz \<le> k \<and> k < BUDDY_NUM_ORDERS \<and>
    (\<forall>j. GetOrder sz \<le> j \<and> j < k \<longrightarrow> (buddy_of a (GetOrder sz) j, j) \<in> free_blocks A) \<and>
    (k = BUDDY_NUM_ORDERS - 1 \<or> (buddy_of a (GetOrder sz) k, k) \<notin> free_blocks A) \<and>
    (if P = 0 \<and> k = GetOrder sz then A' = A
     else free_blocks A' = insert (ancestor a (GetOrder sz) k, k)
            (free_blocks A - {(buddy_of a (GetOrder sz) j, j) | j. GetOrder sz \<le> j \<and> j < k}) \<and>
          buddy_avail A' = buddy_avail A \<union> blk_rng (a, GetOrder sz))"
proof -
  let ?o = "GetOrder sz"
  from Free_abs [of A "free_blocks A" P sz a] assms obtain A' B' P' where
    f: "BuddyAllocator_Free a sz A = Some A'" "buddy_abs A' B' P'" "blocks_ok B'"
    "blk_mem B' = (if P = 0 \<and> \<not> (?o < BUDDY_NUM_ORDERS - 1 \<and> (a XOR OrderToSize ?o, ?o) \<in> free_blocks A)
       then buddy_avail A else buddy_avail A \<union> blk_rng (a, ?o))"
    unfolding buddy_ok_def buddy_avail_def by blast
  from Free_exact [of P A sz a] assms f(1) obtain k where k: "?o \<le> k" "k < BUDDY_NUM_ORDERS"
    "merged a ?o k \<subseteq> free_blocks A" "k = BUDDY_NUM_ORDERS - 1 \<or> (buddy_of a ?o k, k) \<notin> free_blocks A"
    "if P = 0 \<and> k = ?o then A' = A
     else free_blocks A' = insert (ancestor a ?o k, k) (free_blocks A - merged a ?o k)"
    unfolding buddy_avail_def by auto
  have m: "merged a ?o k = {(buddy_of a ?o j, j) | j. ?o \<le> j \<and> j < k}" by (auto simp: merged_def)
  have "(a XOR OrderToSize ?o, ?o) \<in> free_blocks A \<and> ?o < BUDDY_NUM_ORDERS - 1" if "k \<noteq> ?o"
  proof -
    have "(buddy_of a ?o ?o, ?o) \<in> merged a ?o k" using k(1) that by (auto simp: merged_def)
    then show ?thesis using k(1-3) that by (auto simp: buddy_of_def)
  qed
  then have av: "buddy_avail A' = buddy_avail A \<union> blk_rng (a, ?o)" if "\<not> (P = 0 \<and> k = ?o)"
    using f(4) buddy_okI [OF f(2,3)] that by (auto simp: buddy_avail_def)
  show ?thesis
  proof (intro exI conjI)
    show "BuddyAllocator_Free a sz A = Some A'" "buddy_ok P' A'" using f(1) buddy_okI [OF f(2,3)] by simp_all
    show "\<forall>j. ?o \<le> j \<and> j < k \<longrightarrow> (buddy_of a ?o j, j) \<in> free_blocks A" using k(3) unfolding m by blast
    show "if P = 0 \<and> k = ?o then A' = A
      else free_blocks A' = insert (ancestor a ?o k, k) (free_blocks A - {(buddy_of a ?o j, j) | j. ?o \<le> j \<and> j < k}) \<and>
        buddy_avail A' = buddy_avail A \<union> blk_rng (a, ?o)"
    proof (cases "P = 0 \<and> k = ?o")
      case True
      then show ?thesis using k(5) by (simp only: if_True simp_thms)
    next
      case False
      then show ?thesis unfolding if_not_P [OF False] using k(5) av [OF False] m by (simp only: if_False simp_thms)
    qed
  qed (use k(1,2,4) in blast)+
qed

theorem BuddyAllocator_Free_correct_witness:
  "\<exists>A'. BuddyAllocator_Free 0x110000 0x10000 demo_buddy = Some A' \<and>
     free_blocks A' = {(0x100000, 5)} \<and> buddy_avail A' = {0x100000..<0x120000}"
proof -
  have "clz (65535 :: u64) = 48" by (simp add: clz_def upt_rec bit_iff_odd_drop_bit drop_bit_eq_div)
  then have o: "GetOrder 0x10000 = 4" by (simp add: GetOrder_def)
  have av: "buddy_avail demo_buddy = {0x100000..<0x110000}"
    by (simp add: buddy_avail_def demo_buddy_ok(2) rng_eq OrderToSize_def)
  have r: "blk_rng (0x110000, 4) = {0x110000..<0x120000}" by (simp add: rng_eq OrderToSize_def)
  have b: "buddy_of 0x110000 4 4 = 0x100000" "ancestor 0x110000 4 5 = 0x100000"
    using min_buddy [of "0x110000" 4] by (simp_all add: buddy_of_def OrderToSize_def ancestor_def upt_rec)
  from BuddyAllocator_Free_correct [OF demo_buddy_ok(1), of "0x10000" "0x110000"] obtain A' k where
    f: "BuddyAllocator_Free 0x110000 0x10000 demo_buddy = Some A'" "4 \<le> k"
    "\<forall>j. 4 \<le> j \<and> j < k \<longrightarrow> (buddy_of 0x110000 4 j, j) \<in> {(0x100000, 4)}"
    "k = 18 \<or> (buddy_of 0x110000 4 k, k) \<notin> {(0x100000, 4)}"
    "free_blocks A' = insert (ancestor 0x110000 4 k, k)
       ({(0x100000, 4)} - {(buddy_of 0x110000 4 j, j) | j. 4 \<le> j \<and> j < k})"
    "buddy_avail A' = {0x100000..<0x110000} \<union> {0x110000..<0x120000}"
    unfolding o av r demo_buddy_ok(2) by (auto simp: OrderToSize_def)
  have "k \<noteq> 4" using f(4) b(1) by auto
  moreover have "\<not> 5 < k" using f(3) [rule_format, of 5] by auto
  ultimately have k: "k = 5" using f(2) by simp
  have "{(buddy_of 0x110000 4 j, j) | j. 4 \<le> j \<and> j < (5 :: nat)} = {(0x100000, 4)}"
  proof -
    have "4 \<le> j \<and> j < 5 \<longleftrightarrow> j = 4" for j :: nat by auto
    then show ?thesis using b(1) by simp
  qed
  then have "free_blocks A' = {(0x100000, 5)}" using f(5) b(2) unfolding k by simp
  moreover have "buddy_avail A' = {0x100000..<0x120000}" unfolding f(6) by auto
  ultimately show ?thesis using f(1) by blast
qed

text \<open>
  C24: BuddyAllocator_Create on any region that does not wrap around the address space makes an
  allocator with disjoint free blocks.  They are the first 2048 blocks of the carving, one per node of
  the pool, and cover an initial part of the region: all of it, rounded down to whole pages, when the
  region has less than 2031 GB, and exactly its first 2048 GB when it has at least that, the rest being
  dropped.
\<close>

theorem BuddyAllocator_Create_correct:
  assumes "start + sz \<le> 18446744073709551616"
  shows "buddy_ok (MAX_BUDDY_NODES - length (carve_list start sz)) (BuddyAllocator_Create start sz A) \<and>
    free_blocks (BuddyAllocator_Create start sz A) = set (take MAX_BUDDY_NODES (carve_list start sz)) \<and>
    buddy_avail (BuddyAllocator_Create start sz A)
      = {start..<start + sum_list (map (\<lambda>(b, k). OrderToSize k) (take MAX_BUDDY_NODES (carve_list start sz)))} \<and>
    buddy_avail (BuddyAllocator_Create start sz A) \<subseteq> {start..<start + sz div 4096 * 4096} \<and>
    (sz < 2031 * 0x40000000 \<longrightarrow>
       buddy_avail (BuddyAllocator_Create start sz A) = {start..<start + sz div 4096 * 4096}) \<and>
    (2048 * 0x40000000 \<le> sz \<longrightarrow>
       buddy_avail (BuddyAllocator_Create start sz A) = {start..<start + 2048 * 0x40000000})"
proof -
  note c = Create_abs(1) [OF assms, of A] Create_abs(2) [OF assms]
  let ?l = "take MAX_BUDDY_NODES (carve_list start sz)"
  have fb: "free_blocks (BuddyAllocator_Create start sz A) = set ?l"
    by (rule free_blocks_abs [OF c(1)])
  have "set ?l \<subseteq> set (carve_list start sz)" by (rule set_take_subset)
  from mem_mono [OF this] have sub: "blk_mem (set ?l) \<subseteq> {start..<start + sz div 4096 * 4096}"
    by (simp add: carve_list_mem)
  have all: "?l = carve_list start sz" if "sz < 2031 * 0x40000000"
    using carve_list_length [of start sz] less_mult_imp_div_less [OF that] by simp
  have "sum_list (map (\<lambda>(b, k). OrderToSize k) ?l) = 2048 * 0x40000000" if "2048 * 0x40000000 \<le> sz"
    unfolding carve_list_take [OF that] by (simp add: o_def OrderToSize_def sum_list_triv)
  then show ?thesis
    unfolding buddy_ok_def buddy_avail_def fb using c sub all carve_list_take_mem [of MAX_BUDDY_NODES start sz]
    by (metis carve_list_mem)
qed

theorem BuddyAllocator_Create_correct_witness:
  "buddy_avail demo_buddy = {0x100000..<0x110000} \<and> free_blocks demo_buddy = {(0x100000, 4)}"
  using BuddyAllocator_Create_correct [of "0x100000" "0x10000"] unfolding demo_buddy_def demo_carve by (simp add: OrderToSize_def)

text \<open>
  C17: any sequence of requests, whatever their sizes, yields pairwise disjoint address ranges, all of
  them taken from the memory available at the start and none of it available at the end.
\<close>

theorem BuddyAllocator_ranges_disjoint:
  assumes "buddy_inv A" and "\<forall>sz \<in> set szs. sz < 18446744073709551616"
  shows "\<exists>rs A'. alloc_ranges BuddyAllocator_Allocate szs A = Some (rs, A') \<and> buddy_inv A' \<and>
    buddy_avail A' \<subseteq> buddy_avail A \<and>
    (\<forall>(a, sz) \<in> set rs. {a..<a + sz} \<subseteq> buddy_avail A - buddy_avail A') \<and>
    sorted_wrt (\<lambda>(a, m) (b, n). {a..<a + m} \<inter> {b..<b + n} = {}) rs"
  using assms by (rule buddy.alloc_ranges_disjoint)

theorem BuddyAllocator_ranges_disjoint_witness:
  "\<exists>rs A'. alloc_ranges BuddyAllocator_Allocate [4096, 10000, 4096] demo_buddy = Some (rs, A') \<and>
     sorted_wrt (\<lambda>(a, m) (b, n). {a..<a + m} \<inter> {b..<b + n} = {}) rs"
proof -
  have "buddy_inv demo_buddy" using demo_buddy_ok(1) by (auto simp: buddy_inv_def)
  from BuddyAllocator_ranges_disjoint [OF this, of "[4096, 10000, 4096]"] show ?thesis by auto
qed

text \<open>
  The region the virtual memory manager passes at start-up (from \<open>0x1000\<close> to the end of the
  lower half) needs more blocks than the pool has nodes.  Only its first 2048 blocks of 1 GB are kept,
  no node is left, and a first allocation of one page, which splits a block, makes 512 MB
  unavailable instead of 4 KB.
\<close>

theorem VMem_region_exhausts_nodes:
  "free_blocks (init_virtual_ranges A) = {(0x1000 + i * 0x40000000, 18) | i. i < 2048} \<and> buddy_ok 0 (init_virtual_ranges A) \<and>
    (\<exists>a A'. BuddyAllocator_Allocate 4096 (init_virtual_ranges A) = Some (a, A') \<and> a \<noteq> 0 \<and>
       buddy_avail A' = buddy_avail (init_virtual_ranges A) - {a..<a + 0x20000000})"
proof -
  have take: "take MAX_BUDDY_NODES (carve_list 0x1000 0x7FFFFFFFF000) =
      map (\<lambda>i. (0x1000 + i * 0x40000000, 18)) [0..<MAX_BUDDY_NODES]"
    using carve_list_take [of MAX_BUDDY_NODES "0x7FFFFFFFF000" "0x1000"] by simp
  have "length (take MAX_BUDDY_NODES (carve_list 0x1000 0x7FFFFFFFF000)) = MAX_BUDDY_NODES"
    unfolding take by simp
  then have "MAX_BUDDY_NODES \<le> length (carve_list 0x1000 0x7FFFFFFFF000)" by (simp add: min_def split: if_splits)
  with Create_abs(1) [of "0x1000" "0x7FFFFFFFF000" A] Create_abs(2) [of "0x1000" "0x7FFFFFFFF000"] take buddy_okI have
    ok: "buddy_ok 0 (init_virtual_ranges A)" and
    fb: "free_blocks (init_virtual_ranges A) = set (map (\<lambda>i. (0x1000 + i * 0x40000000, 18)) [0..<MAX_BUDDY_NODES])"
    by (simp_all add: init_virtual_ranges_def)
  have fb': "free_blocks (init_virtual_ranges A) = {(0x1000 + i * 0x40000000, 18) | i. i < 2048}" unfolding fb by auto
  have abs: "buddy_abs (init_virtual_ranges A) (free_blocks (init_virtual_ranges A)) 0" and blk: "blocks_ok (free_blocks (init_virtual_ranges A))"
    using ok by (simp_all add: buddy_ok_def)
  have o: "GetOrder 4096 = 0" by (simp add: GetOrder_def)
  have "\<exists>a A'. BuddyAllocator_Allocate 4096 (init_virtual_ranges A) = Some (a, A') \<and> a \<noteq> 0 \<and>
       buddy_avail A' = buddy_avail (init_virtual_ranges A) - {a..<a + 0x20000000}"
    using abs blk
  proof (cases rule: Allocate_cases [where sz = 4096])
    case none
    have "(0x1000, 18) \<in> free_blocks (init_virtual_ranges A)" unfolding fb' by force
    with none(2) show ?thesis by (auto simp: o)
  next
    case (some a c A' P')
    from some(2) fb' have c: "c = 18" "a \<noteq> 0" by auto
    have "0 \<le> j \<and> j < 18 \<and> 18 \<le> j + Suc 0 \<longleftrightarrow> j = 17" for j :: nat by auto
    then have h: "halves a (GetOrder 4096) c (Suc 0) = {(a + 0x20000000, 17)}"
      unfolding halves_def c(1) o by (simp add: OrderToSize_def)
    have "buddy_avail A' = buddy_avail (init_virtual_ranges A) - blk_rng (a, 18) \<union> blk_rng (a + 0x20000000, 17)"
      using buddy_okI [OF some(5,6)] mem_remove [OF blk some(2)] unfolding h unfolding c by (simp add: buddy_avail_def Un_commute)
    moreover have "blk_rng (a, 18) \<subseteq> buddy_avail (init_virtual_ranges A)"
      using rng_subset_mem [OF some(2)] by (simp add: buddy_avail_def c)
    ultimately have "buddy_avail A' = buddy_avail (init_virtual_ranges A) - {a..<a + 0x20000000}"
      using upper_half [of a "0x20000000" "buddy_avail (init_virtual_ranges A)"] by (simp add: rng_eq OrderToSize_def)
    with some(1) c(2) show ?thesis by blast
  qed
  with fb' ok show ?thesis by blast
qed

end
