(* ===== verification/MemPool.thy ===== *)
theory MemPool
  imports Linked
begin

text \<open>
  Fixed-size block pools (\<open>src/mm/MemPool.c\<close>).  Memory is a map from addresses to bytes.  A free block
  holds the pointer to the next free block in its first eight bytes, low byte first, and the value
  \<open>0\<close> is NULL.  Two pointers stored fewer than eight bytes apart therefore overwrite each other, as
  they do in the pages of a pool with blocks of less than eight bytes.  The virtual memory allocator
  that supplies the pages is an argument of the operations that call it.
\<close>

section \<open>State\<close>

abbreviation "POOL_PAGE_SIZE \<equiv> (4096 :: nat)"
abbreviation "POOL_MAGIC \<equiv> (0xDEADC0DE :: nat)"
abbreviation "MAX_POOLS \<equiv> (16 :: nat)"

record MemPool =
  pool_magic :: nat
  block_size :: nat
  blocks_per_page :: nat
  total_blocks :: nat
  free_block_count :: nat
  free_list :: "nat option"
  pool_pages :: "nat option"
  num_pages :: nat

type_synonym heap = "nat \<Rightarrow> u8"

primrec store_le :: "nat \<Rightarrow> nat \<Rightarrow> nat \<Rightarrow> heap \<Rightarrow> heap" where
  "store_le 0 a v h = h"
| "store_le (Suc n) a v h = store_le n (a + 1) (v div 256) (h(a := word_of_nat v))"

primrec load_le :: "nat \<Rightarrow> nat \<Rightarrow> heap \<Rightarrow> nat" where
  "load_le 0 a h = 0"
| "load_le (Suc n) a h = unat (h a) + 256 * load_le n (a + 1) h"

text \<open>The pointer field \<open>next\<close> of the block at an address.\<close>

definition store_next :: "nat \<Rightarrow> nat option \<Rightarrow> heap \<Rightarrow> heap" where
  "store_next block p h = store_le 8 block (case p of None \<Rightarrow> 0 | Some a \<Rightarrow> a) h"

definition load_next :: "heap \<Rightarrow> nat \<Rightarrow> nat option" where
  "load_next h block = (let v = load_le 8 block h in if v = 0 then None else Some v)"

text \<open>An allocator of virtual memory: from a size and a state to an address, or none.\<close>

type_synonym 'v valloc = "nat \<Rightarrow> 'v \<Rightarrow> nat option \<times> 'v"

section \<open>Operations\<close>

primrec link_blocks :: "nat \<Rightarrow> nat \<Rightarrow> nat \<Rightarrow> heap \<Rightarrow> nat \<times> heap" where
  "link_blocks bs 0 block_ptr h = (block_ptr, h)"
| "link_blocks bs (Suc n) block_ptr h =
     link_blocks bs n (wrap64 (block_ptr + bs)) (store_next block_ptr (Some (wrap64 (block_ptr + bs))) h)"

text \<open>
  \<open>CreateMemPool\<close> divides the page size by the block size: with a block size of \<open>0\<close> it traps, which is
  \<open>None\<close>.
\<close>

definition CreateMemPool ::
  "'v valloc \<Rightarrow> (nat \<Rightarrow> nat \<Rightarrow> 'v \<Rightarrow> 'v) \<Rightarrow> nat \<Rightarrow> nat \<Rightarrow> nat \<Rightarrow> heap \<times> 'v \<Rightarrow>
     (MemPool option \<times> heap \<times> 'v) option" where
  "CreateMemPool valloc vfree pool_size bs initial_pages = (\<lambda>(h, v).
     case valloc pool_size v of
       (None, v1) \<Rightarrow> Some (None, h, v1)
     | (Some addr, v1) \<Rightarrow>
         if bs = 0 then None else
         let pool = \<lparr>pool_magic = POOL_MAGIC, block_size = bs, blocks_per_page = POOL_PAGE_SIZE div bs,
                     total_blocks = 0, free_block_count = 0, free_list = None, pool_pages = None, num_pages = 0\<rparr>
         in if 0 < initial_pages then
              (case valloc (wrap64 (initial_pages * POOL_PAGE_SIZE)) v1 of
                 (None, v2) \<Rightarrow> Some (None, h, vfree addr pool_size v2)
               | (Some pages, v2) \<Rightarrow>
                   let total_n = wrap64 (initial_pages * blocks_per_page pool);
                       (last_block, h1) = link_blocks bs (sub64 total_n 1) pages h;
                       h2 = store_next last_block None h1
                   in Some (Some (pool\<lparr>pool_pages := Some pages, num_pages := initial_pages,
                         total_blocks := total_n, free_block_count := total_n, free_list := Some pages\<rparr>),
                       h2, v2))
            else Some (Some pool, h, v1))"

definition MemPoolAlloc :: "MemPool \<Rightarrow> heap \<Rightarrow> nat option \<times> MemPool" where
  "MemPoolAlloc pool h =
     (if pool_magic pool \<noteq> POOL_MAGIC then (None, pool)
      else case free_list pool of
          None \<Rightarrow> (None, pool)
        | Some block \<Rightarrow> (Some block, pool\<lparr>free_list := load_next h block,
                                         free_block_count := sub64 (free_block_count pool) 1\<rparr>))"

definition MemPoolFree :: "nat option \<Rightarrow> MemPool \<Rightarrow> heap \<Rightarrow> MemPool \<times> heap" where
  "MemPoolFree ptr pool h =
     (case ptr of
        None \<Rightarrow> (pool, h)
      | Some block \<Rightarrow>
          if pool_magic pool \<noteq> POOL_MAGIC then (pool, h)
          else (pool\<lparr>free_list := Some block, free_block_count := wrap64 (free_block_count pool + 1)\<rparr>,
                store_next block (free_list pool) h))"

text \<open>The default pools, and the allocation that chooses among them.\<close>

definition InitDefaultPools ::
  "'v valloc \<Rightarrow> (nat \<Rightarrow> nat \<Rightarrow> 'v \<Rightarrow> 'v) \<Rightarrow> nat \<Rightarrow> MemPool list \<Rightarrow> heap \<times> 'v \<Rightarrow> (MemPool list \<times> heap \<times> 'v) option" where
  "InitDefaultPools valloc vfree pool_size pools0 hv0 =
     fold (\<lambda>(bs, n) r.
         case r of None \<Rightarrow> None
         | Some (pools, hv) \<Rightarrow>
             if length pools < MAX_POOLS
             then (case CreateMemPool valloc vfree pool_size bs n hv of
                     None \<Rightarrow> None
                   | Some (Some pool, hv') \<Rightarrow> Some (pools @ [pool], hv')
                   | Some (None, hv') \<Rightarrow> Some (pools, hv'))
             else Some (pools, hv))
       (zip [16, 32, 64, 128, 256, 512, 1024, 2048] [4, 4, 4, 2, 2, 2, 1, 1]) (Some (pools0, hv0))"

definition FastAlloc ::
  "'v valloc \<Rightarrow> nat \<Rightarrow> MemPool list \<Rightarrow> heap \<Rightarrow> 'v \<Rightarrow> nat option \<times> MemPool list \<times> 'v" where
  "FastAlloc valloc sz pools h v =
     (case find (\<lambda>i. sz \<le> block_size (pools ! i)) [0..<length pools] of
        Some i \<Rightarrow> (let (r, pool) = MemPoolAlloc (pools ! i) h in (r, pools[i := pool], v))
      | None \<Rightarrow> (let (r, v') = valloc sz v in (r, pools, v')))"

section \<open>Pointers in memory\<close>

lemma store_le_other: "x < a \<or> a + n \<le> x \<Longrightarrow> store_le n a v h x = h x"
  by (induction n arbitrary: a v h) auto

lemma load_le_cong: "(\<And>x. a \<le> x \<Longrightarrow> x < a + n \<Longrightarrow> h' x = h x) \<Longrightarrow> load_le n a h' = load_le n a h"
  by (induction n arbitrary: a) auto

lemma load_store_le: "load_le n a (store_le n a v h) = v mod 256 ^ n"
proof (induction n arbitrary: a v h)
  case (Suc n)
  have "v mod 256 ^ Suc n = v mod 256 + 256 * (v div 256 mod 256 ^ n)"
    by (simp add: mod_mult2_eq add.commute)
  then show ?case
    by (simp add: Suc.IH store_le_other unsigned_of_nat take_bit_eq_mod)
qed simp

lemma load_next_cong: "(\<And>x. block \<le> x \<Longrightarrow> x < block + 8 \<Longrightarrow> h' x = h x) \<Longrightarrow> load_next h' block = load_next h block"
  using load_le_cong [of block 8 h' h] by (simp add: load_next_def)

lemma store_next_other: "x < block \<or> block + 8 \<le> x \<Longrightarrow> store_next block p h x = h x"
  by (simp add: store_next_def store_le_other)

lemma load_store_next: "(\<And>a. p = Some a \<Longrightarrow> 0 < a \<and> a < 18446744073709551616) \<Longrightarrow> load_next (store_next block p h) block = p"
  unfolding load_next_def store_next_def load_store_le by (cases p) (auto simp: Let_def)

lemma load_next_apart:
  "x + 8 \<le> block \<or> block + 8 \<le> x \<Longrightarrow> load_next (store_next block p h) x = load_next h x"
  by (rule load_next_cong) (auto intro: store_next_other)

section \<open>The free list\<close>

text \<open>
  \<open>pool_rep pool h xs\<close>: the free list of the pool visits exactly the distinct blocks \<open>xs\<close>, whose
  pointers do not overlap, and the counter is their number.
\<close>

definition spaced :: "nat set \<Rightarrow> bool" where
  "spaced X \<longleftrightarrow> (\<forall>x\<in>X. 0 < x \<and> x < 18446744073709551616 \<and> (\<forall>y\<in>X. x < y \<longrightarrow> x + 8 \<le> y))"

definition pool_rep :: "MemPool \<Rightarrow> heap \<Rightarrow> nat list \<Rightarrow> bool" where
  "pool_rep pool h xs \<longleftrightarrow> pool_magic pool = POOL_MAGIC \<and> seg (load_next h) (free_list pool) xs None \<and>
     distinct xs \<and> spaced (set xs) \<and> free_block_count pool = length xs \<and> length xs < 18446744073709551615"

lemma spaced_subset: "spaced X \<Longrightarrow> Y \<subseteq> X \<Longrightarrow> spaced Y"
  by (auto simp: spaced_def)

lemma spacedD: "spaced X \<Longrightarrow> x \<in> X \<Longrightarrow> y \<in> X \<Longrightarrow> x \<noteq> y \<Longrightarrow> x + 8 \<le> y \<or> y + 8 \<le> x"
  unfolding spaced_def by (metis linorder_neqE_nat)

lemma blocks_spaced:
  assumes "8 \<le> bs" "0 < p" "p + n * bs < 18446744073709551616"
  shows "spaced (set (map (\<lambda>i. p + i * bs) [0..<n]))"
proof -
  have "p + i * bs < 18446744073709551616" if "i < n" for i
    using that assms(3) mult_le_mono1 [of i n bs] by linarith
  moreover have "i * bs + 8 \<le> j * bs" if "i * bs < j * bs" for i j
  proof -
    have "Suc i \<le> j" using that by (simp add: Suc_le_eq)
    then have "Suc i * bs \<le> j * bs" by (rule mult_le_mono1)
    then show ?thesis using assms(1) by simp
  qed
  ultimately show ?thesis using assms(2) by (auto simp: spaced_def)
qed

lemma blocks_distinct: "0 < bs \<Longrightarrow> distinct (map (\<lambda>i. p + i * bs) [0..<n])" for bs p n :: nat
  by (simp add: distinct_map inj_on_def)

lemma link_blocks_seg:
  assumes "8 \<le> bs"
  shows "0 < p \<Longrightarrow> p + n * bs < 18446744073709551616 \<Longrightarrow>
    seg (load_next (snd (link_blocks bs n p h))) (Some p) (map (\<lambda>i. p + i * bs) [0..<n]) (Some (p + n * bs)) \<and>
    fst (link_blocks bs n p h) = p + n * bs \<and>
    (\<forall>x. x < p \<longrightarrow> snd (link_blocks bs n p h) x = h x)"
proof (induction n arbitrary: p h)
  case (Suc n)
  have w: "wrap64 (p + bs) = p + bs" using Suc.prems by (intro wrap64_id) simp
  define h1 where "h1 = store_next p (Some (p + bs)) h"
  let ?l = "link_blocks bs n (p + bs) h1"
  have m: "map (\<lambda>i. p + i * bs) [0..<Suc n] = p # map (\<lambda>i. p + bs + i * bs) [0..<n]"
    by (simp add: upt_conv_Cons map_Suc_upt [symmetric] o_def add.assoc del: upt_Suc)
  have step: "link_blocks bs (Suc n) p h = ?l" by (simp add: h1_def w)
  have IH: "seg (load_next (snd ?l)) (Some (p + bs)) (map (\<lambda>i. p + bs + i * bs) [0..<n]) (Some (p + bs + n * bs))"
    "fst ?l = p + bs + n * bs" "\<And>x. x < p + bs \<Longrightarrow> snd ?l x = h1 x"
    using Suc.IH [of "p + bs" h1] Suc.prems assms by auto
  have "load_next (snd ?l) p = load_next h1 p"
    by (rule load_next_cong) (use IH(3) assms in simp)
  also have "\<dots> = Some (p + bs)"
    unfolding h1_def by (rule load_store_next) (use Suc.prems in auto)
  finally show ?case
    unfolding step m using IH assms by (auto simp: h1_def store_next_other add.assoc)
qed simp

lemma CreateMemPool_rep:
  assumes "valloc pool_size v = (Some addr, v1)" and "valloc (n * POOL_PAGE_SIZE) v1 = (Some pages, v2)"
    and "0 < n" and "0 < pages" "pages + n * POOL_PAGE_SIZE < 18446744073709551616" and "8 \<le> bs" and "bs \<le> POOL_PAGE_SIZE"
  shows "\<exists>pool h'. CreateMemPool valloc vfree pool_size bs n (h, v) = Some (Some pool, h', v2) \<and>
    block_size pool = bs \<and> total_blocks pool = n * (POOL_PAGE_SIZE div bs) \<and>
    pool_rep pool h' (map (\<lambda>i. pages + i * bs) [0..<n * (POOL_PAGE_SIZE div bs)])"
proof -
  let ?t = "n * (POOL_PAGE_SIZE div bs)"
  have tb: "?t * bs \<le> n * POOL_PAGE_SIZE" by (simp add: mult.assoc)
  have "?t * 8 \<le> ?t * bs" using assms(6) by (rule mult_le_mono2)
  then have t1: "?t < 18446744073709551615" using tb assms(5) by linarith
  have w: "wrap64 ?t = ?t" "wrap64 (n * POOL_PAGE_SIZE) = n * POOL_PAGE_SIZE" using t1 assms(5) by (simp_all add: wrap64_id)
  have "1 \<le> POOL_PAGE_SIZE div bs" using assms(6,7) by (simp add: div_greater_zero_iff Suc_le_eq)
  then have t0: "0 < ?t" using assms(3) by simp
  have s: "sub64 ?t 1 = ?t - 1" using t0 t1 by (intro sub64_id) auto
  let ?l = "link_blocks bs (?t - 1) pages h"
  let ?b = "pages + (?t - 1) * bs" and ?xs = "map (\<lambda>i. pages + i * bs) [0..<?t - 1]"
  have e: "?t * bs = (?t - 1) * bs + bs" using t0 by (metis Suc_diff_1 add.commute mult_Suc)
  then have "pages + (?t - 1) * bs < 18446744073709551616" using tb assms(5) by linarith
  note L = link_blocks_seg [OF assms(6,4) this, of h]
  have m: "map (\<lambda>i. pages + i * bs) [0..<?t] = ?xs @ [?b]"
    using t0 by (metis (no_types, lifting) Suc_diff_1 list.simps(8,9) map_append upt_Suc_append zero_le)
  have sp: "spaced (set (map (\<lambda>i. pages + i * bs) [0..<?t]))"
    by (rule blocks_spaced [OF assms(6,4)]) (use assms(5) tb in linarith)
  have "seg (load_next (store_next ?b None (snd ?l))) (Some pages) ?xs (Some ?b)"
  proof (rule seg_frame [OF conjunct1 [OF L]])
    fix x assume "x \<in> set ?xs"
    moreover have "x \<noteq> ?b" using calculation assms(6) by auto
    ultimately show "load_next (store_next ?b None (snd ?l)) x = load_next (snd ?l) x"
      using spacedD [OF sp, of x ?b] unfolding m by (intro load_next_apart) auto
  qed
  then have "seg (load_next (store_next ?b None (snd ?l))) (Some pages) (map (\<lambda>i. pages + i * bs) [0..<?t]) None"
    unfolding m seg_append using load_store_next [of None ?b "snd ?l"] by auto
  then show ?thesis
    using assms(1-3,6) t1 s w L sp blocks_distinct [of bs pages ?t]
    by (auto simp: CreateMemPool_def Let_def pool_rep_def case_prod_beta)
qed

lemma MemPoolAlloc_rep:
  assumes "pool_rep pool h xs"
  shows "case MemPoolAlloc pool h of
      (None, pool') \<Rightarrow> xs = [] \<and> pool' = pool
    | (Some b, pool') \<Rightarrow> \<exists>ys. xs = b # ys \<and> pool_rep pool' h ys"
proof (cases xs)
  case Nil
  with assms have "free_list pool = None" by (simp add: pool_rep_def)
  with Nil assms show ?thesis by (simp add: MemPoolAlloc_def pool_rep_def)
next
  case (Cons b ys)
  with assms have "free_list pool = Some b" "seg (load_next h) (load_next h b) ys None" by (simp_all add: pool_rep_def)
  with Cons assms show ?thesis
    by (auto simp: MemPoolAlloc_def pool_rep_def sub64_id intro: spaced_subset)
qed

lemma MemPoolFree_rep:
  assumes "pool_rep pool h xs" and "b \<notin> set xs" and "spaced (insert b (set xs))" and "length xs < 18446744073709551614"
    and "MemPoolFree (Some b) pool h = (pool', h')"
  shows "pool_rep pool' h' (b # xs)"
proof -
  have h': "h' = store_next b (free_list pool) h" using assms(1,5) by (auto simp: MemPoolFree_def pool_rep_def)
  have "0 < a \<and> a < 18446744073709551616" if "free_list pool = Some a" for a
  proof (cases xs)
    case (Cons y ys)
    then show ?thesis using assms(1) that by (auto simp: pool_rep_def spaced_def)
  qed (use that assms(1) in \<open>simp add: pool_rep_def\<close>)
  then have "load_next h' b = free_list pool" unfolding h' by (rule load_store_next)
  moreover have "seg (load_next h') (free_list pool) xs None"
  proof (rule seg_frame)
    show "seg (load_next h) (free_list pool) xs None" using assms(1) by (simp add: pool_rep_def)
    fix x assume "x \<in> set xs"
    then show "load_next h' x = load_next h x"
      unfolding h' using spacedD [OF assms(3), of x b] assms(2) by (intro load_next_apart) auto
  qed
  ultimately show ?thesis
    using assms by (auto simp: MemPoolFree_def pool_rep_def wrap64_id)
qed

text \<open>What is written outside the free blocks does not disturb the pool.\<close>

lemma pool_rep_frame:
  assumes "pool_rep pool h xs" and "\<And>x a. x \<in> set xs \<Longrightarrow> x \<le> a \<Longrightarrow> a < x + 8 \<Longrightarrow> h' a = h a"
  shows "pool_rep pool h' xs"
proof -
  have "seg (load_next h') (free_list pool) xs None"
    by (rule seg_frame [of "load_next h"]) (use assms in \<open>auto simp: pool_rep_def intro: load_next_cong\<close>)
  with assms(1) show ?thesis by (simp add: pool_rep_def)
qed

section \<open>Properties\<close>

text \<open>Taking a number of blocks from a pool, and giving blocks back.\<close>

primrec pool_take :: "nat \<Rightarrow> heap \<Rightarrow> MemPool \<Rightarrow> nat list \<times> MemPool" where
  "pool_take 0 h pool = ([], pool)"
| "pool_take (Suc k) h pool =
     (case MemPoolAlloc pool h of
        (None, pool') \<Rightarrow> ([], pool')
      | (Some b, pool') \<Rightarrow> (let (bs, pool'') = pool_take k h pool' in (b # bs, pool'')))"

primrec pool_give :: "nat list \<Rightarrow> MemPool \<times> heap \<Rightarrow> MemPool \<times> heap" where
  "pool_give [] ph = ph"
| "pool_give (b # bs) ph = pool_give bs (case ph of (pool, h) \<Rightarrow> MemPoolFree (Some b) pool h)"

lemma pool_take_rep:
  "pool_rep pool h xs \<Longrightarrow> pool_take k h pool = (bs, pool') \<Longrightarrow> bs = take k xs \<and> pool_rep pool' h (drop k xs)"
proof (induction k arbitrary: pool xs bs)
  case (Suc k)
  note a = MemPoolAlloc_rep [OF Suc.prems(1)]
  show ?case
  proof (cases "MemPoolAlloc pool h")
    case (Pair r pool1)
    show ?thesis
    proof (cases r)
      case None
      with Pair a Suc.prems show ?thesis by auto
    next
      case (Some b)
      with Pair a obtain ys where ys: "xs = b # ys" "pool_rep pool1 h ys" by auto
      from Suc.prems(2) Pair Some obtain bs1 where "pool_take k h pool1 = (bs1, pool')" "bs = b # bs1"
        by (auto split: prod.splits)
      with Suc.IH [OF ys(2)] ys(1) show ?thesis by auto
    qed
  qed
qed simp

lemma pool_give_rep:
  assumes "pool_rep pool h xs" and "distinct (bs @ xs)" and "spaced (set (bs @ xs))"
    and "length (bs @ xs) < 18446744073709551615" and "pool_give bs (pool, h) = (pool', h')"
  shows "pool_rep pool' h' (rev bs @ xs)"
  using assms
proof (induction bs arbitrary: pool h xs)
  case (Cons b bs)
  obtain p1 h1 where f: "MemPoolFree (Some b) pool h = (p1, h1)" by force
  have "pool_rep p1 h1 (b # xs)"
    by (rule MemPoolFree_rep [OF Cons.prems(1) _ _ _ f]) (use Cons.prems in \<open>auto intro: spaced_subset\<close>)
  then show ?case using Cons.IH [of p1 h1 "b # xs"] Cons.prems f by simp
qed simp

lemma blocks_inside:
  assumes "i < n * (POOL_PAGE_SIZE div bs)"
  shows "i * bs + bs \<le> n * POOL_PAGE_SIZE"
proof -
  have "i * bs + bs \<le> n * (POOL_PAGE_SIZE div bs) * bs"
    using assms by (metis Suc_leI add.commute mult_Suc mult_le_mono1)
  also have "\<dots> \<le> n * POOL_PAGE_SIZE" by (simp add: mult.assoc)
  finally show ?thesis .
qed

text \<open>Whatever the owners write into their blocks, giving them back makes the pool whole again.\<close>

lemma pool_whole_again:
  assumes rep: "pool_rep pool h' (map (\<lambda>i. pages + i * bs) [0..<t])" and k: "k \<le> t" and bs: "8 \<le> bs"
    and take: "pool_take k h' pool = (bl, pool')"
    and writes: "\<And>a. (\<forall>i < k. a < pages + i * bs \<or> pages + i * bs + bs \<le> a) \<Longrightarrow> h2 a = h' a"
    and given: "distinct given" "set given = set (map (\<lambda>i. pages + i * bs) [0..<k])"
    and give: "pool_give given (pool', h2) = (pool'', h3)"
  shows "fst (pool_take t h3 pool'') = rev given @ map (\<lambda>i. pages + i * bs) [k..<t]"
proof -
  let ?B = "\<lambda>i. pages + i * bs" and ?r = "map (\<lambda>i. pages + i * bs) [k..<t]"
  have split: "map ?B [0..<t] = map ?B [0..<k] @ ?r"
    using k by (metis le0 le_Suc_ex map_append upt_add_eq_append)
  have "pool_rep pool' h' ?r"
    using pool_take_rep [OF rep take] k by (simp add: drop_map)
  then have r2: "pool_rep pool' h2 ?r"
  proof (rule pool_rep_frame)
    fix x a assume x: "x \<in> set ?r" and a: "x \<le> a" "a < x + 8"
    from x obtain j where j: "k \<le> j" "x = ?B j" by auto
    have "pages + i * bs + bs \<le> a" if "i < k" for i
    proof -
      have "Suc i * bs \<le> j * bs" using that j(1) by (intro mult_le_mono1) simp
      then show ?thesis using j(2) a(1) by simp
    qed
    then show "h2 a = h' a" by (intro writes) blast
  qed
  have d: "distinct (given @ ?r)" "set (given @ ?r) = set (map ?B [0..<t])"
    using given rep unfolding pool_rep_def split by auto
  then have l: "length (given @ ?r) = t" by (metis diff_zero distinct_card length_map length_upt pool_rep_def rep)
  have "pool_rep pool'' h3 (rev given @ ?r)"
    by (rule pool_give_rep [OF r2 d(1) _ _ give]) (use rep d l in \<open>auto simp: pool_rep_def\<close>)
  moreover obtain bl2 p3 where "pool_take t h3 pool'' = (bl2, p3)" by force
  ultimately show ?thesis using pool_take_rep l by fastforce
qed

text \<open>
  C35: a pool of blocks of at least 8 bytes (a block must hold the pointer of the free list) and at
  most a page, created over fresh pages, hands out every block of those pages exactly once: taking
  \<open>k\<close> blocks yields the first \<open>k\<close> block addresses in order, they lie inside the pages, \<open>bs\<close> bytes
  apart.  Whatever is then written into those blocks, and in whatever order they are given back, the
  pool hands out all its blocks again.  The pages lie in the address space and not at address \<open>0\<close>.
\<close>

theorem MemPool_hands_out_each_block_once:
  assumes "valloc pool_size v = (Some addr, v1)" and "valloc (n * POOL_PAGE_SIZE) v1 = (Some pages, v2)"
    and "0 < n" and "0 < pages" "pages + n * POOL_PAGE_SIZE < 18446744073709551616" and "8 \<le> bs" and "bs \<le> POOL_PAGE_SIZE"
    and "k \<le> n * (POOL_PAGE_SIZE div bs)"
  shows "\<exists>pool h' pool'. CreateMemPool valloc vfree pool_size bs n (h, v) = Some (Some pool, h', v2) \<and>
    pool_take k h' pool = (map (\<lambda>i. pages + i * bs) [0..<k], pool') \<and>
    free_block_count pool' = n * (POOL_PAGE_SIZE div bs) - k \<and>
    (\<forall>i < k. pages + i * bs + bs \<le> pages + n * POOL_PAGE_SIZE) \<and>
    (\<forall>h2 given pool'' h3.
       (\<forall>a. (\<forall>i < k. a < pages + i * bs \<or> pages + i * bs + bs \<le> a) \<longrightarrow> h2 a = h' a) \<and>
       distinct given \<and> set given = set (map (\<lambda>i. pages + i * bs) [0..<k]) \<and>
       pool_give given (pool', h2) = (pool'', h3) \<longrightarrow>
       fst (pool_take (n * (POOL_PAGE_SIZE div bs)) h3 pool'')
         = rev given @ map (\<lambda>i. pages + i * bs) [k..<n * (POOL_PAGE_SIZE div bs)])"
proof -
  let ?t = "n * (POOL_PAGE_SIZE div bs)" and ?B = "\<lambda>i. pages + i * bs"
  from CreateMemPool_rep [OF assms(1-7)] obtain pool h' where
    p: "CreateMemPool valloc vfree pool_size bs n (h, v) = Some (Some pool, h', v2)"
    "pool_rep pool h' (map ?B [0..<?t])" by blast
  obtain bl pool' where t: "pool_take k h' pool = (bl, pool')" by force
  from pool_take_rep [OF p(2) t] assms(8) have b:
    "bl = map ?B [0..<k]" "free_block_count pool' = ?t - k"
    by (simp_all add: take_map drop_map pool_rep_def)
  have "?B i + bs \<le> pages + n * POOL_PAGE_SIZE" if "i < k" for i
    using blocks_inside [of i n bs] that assms(8) by simp
  moreover have "fst (pool_take ?t h3 pool'') = rev given @ map ?B [k..<?t]"
    if "\<forall>a. (\<forall>i < k. a < ?B i \<or> ?B i + bs \<le> a) \<longrightarrow> h2 a = h' a" "distinct given"
      "set given = set (map ?B [0..<k])" "pool_give given (pool', h2) = (pool'', h3)" for h2 given pool'' h3
    by (rule pool_whole_again [OF p(2) assms(8,6) t _ that(2-4)]) (use that(1) in blast)
  ultimately show ?thesis
    using p(1) t b by (intro exI [of _ pool] exI [of _ h'] exI [of _ pool']) blast
qed

theorem MemPool_hands_out_each_block_once_witness:
  "\<exists>pool h' pool'. CreateMemPool (\<lambda>sz v. (Some v, v + 0x100000)) (\<lambda>a sz v. v) 72 64 4 ((\<lambda>a. 0), 0x400000)
     = Some (Some pool, h', 0x600000) \<and>
     pool_take 3 h' pool = ([0x500000, 0x500040, 0x500080], pool') \<and> free_block_count pool' = 253 \<and>
     (case pool_give [0x500040, 0x500000, 0x500080] (pool', h'(0x500041 := 7)) of (pool'', h3) \<Rightarrow>
       fst (pool_take 256 h3 pool'') = [0x500080, 0x500000, 0x500040] @ map (\<lambda>i. 0x500000 + i * 64) [3..<256])"
proof -
  have u: "[0..<3] = [0, 1, 2 :: nat]" by (simp add: upt_rec)
  have v: "(\<lambda>sz v. (Some v, v + 0x100000)) 72 0x400000 = (Some (0x400000 :: nat), 0x500000 :: nat)"
    "(\<lambda>sz v. (Some v, v + 0x100000)) (4 * POOL_PAGE_SIZE) 0x500000 = (Some (0x500000 :: nat), 0x600000 :: nat)"
    by simp_all
  obtain pool h' pool' where p: "CreateMemPool (\<lambda>sz v. (Some v, v + 0x100000)) (\<lambda>a sz v. v) 72 64 4 ((\<lambda>a. 0), 0x400000)
     = Some (Some pool, h', 0x600000)" "pool_take 3 h' pool = ([0x500000, 0x500040, 0x500080], pool')"
    "free_block_count pool' = 253" and
    w: "\<forall>h2 given pool'' h3.
       (\<forall>a. (\<forall>i < 3. a < 0x500000 + i * 64 \<or> 0x500000 + i * 64 + 64 \<le> a) \<longrightarrow> h2 a = h' a) \<and>
       distinct given \<and> set given = {0x500000, 0x500040, 0x500080} \<and> pool_give given (pool', h2) = (pool'', h3) \<longrightarrow>
       fst (pool_take 256 h3 pool'') = rev given @ map (\<lambda>i. 0x500000 + i * 64) [3..<256]"
    using MemPool_hands_out_each_block_once [where valloc = "\<lambda>sz v. (Some v, v + 0x100000)" and n = 4 and pool_size = 72
      and bs = 64 and k = 3 and vfree = "\<lambda>a sz v. v" and h = "\<lambda>a. 0", OF v]
    by (auto simp: u)
  obtain q h3 where g: "pool_give [0x500040, 0x500000, 0x500080] (pool', h'(0x500041 := 7)) = (q, h3)" by force
  have "(h'(0x500041 := 7)) a = h' a" if "\<forall>i < 3. a < 0x500000 + i * 64 \<or> 0x500000 + i * 64 + 64 \<le> a" for a
    using that [rule_format, of 1] by auto
  then have "fst (pool_take 256 h3 q) = rev [0x500040, 0x500000, 0x500080] @ map (\<lambda>i. 0x500000 + i * 64) [3..<256]"
    using w [rule_format, of "h'(0x500041 := 7)" "[0x500040, 0x500000, 0x500080]" q h3] g by auto
  with p g show ?thesis by auto
qed

end
