(* ===== verification/StringOps.thy ===== *)
theory StringOps
  imports VF_Prelude
begin

text \<open>
  The string routines of the kernel (\<open>src/kernel/etc/StringOps.c\<close>) on a byte-addressed memory.
  A pointer is \<open>nat option\<close> where the code tests for NULL and an address otherwise; loops that
  run to a terminator are partial functions whose \<open>None\<close> is not returning.  \<open>cstr m a s\<close> says that
  the string \<open>s\<close>, without zero bytes, is stored at \<open>a\<close> with its terminator.
\<close>

type_synonym bmem = "nat \<Rightarrow> u8"

primrec cstr :: "bmem \<Rightarrow> nat \<Rightarrow> u8 list \<Rightarrow> bool" where
  "cstr m a [] \<longleftrightarrow> m a = 0"
| "cstr m a (c # s) \<longleftrightarrow> m a = c \<and> c \<noteq> 0 \<and> cstr m (a + 1) s"

section \<open>Length and comparison\<close>

partial_function (option) strlen_loop :: "bmem \<Rightarrow> nat \<Rightarrow> nat \<Rightarrow> nat option" where
  "strlen_loop m str len = (if m (str + len) \<noteq> 0 then strlen_loop m str (len + 1) else Some len)"

definition StringLength :: "bmem \<Rightarrow> nat option \<Rightarrow> nat option" where
  "StringLength m str = (case str of None \<Rightarrow> Some 0 | Some a \<Rightarrow> strlen_loop m a 0)"

fun strnlen_loop :: "bmem \<Rightarrow> nat \<Rightarrow> nat \<Rightarrow> nat \<Rightarrow> nat" where
  "strnlen_loop m s i 0 = i"
| "strnlen_loop m s i (Suc left) = (if m (s + i) \<noteq> 0 then strnlen_loop m s (i + 1) left else i)"

definition FastStrlen :: "bmem \<Rightarrow> nat option \<Rightarrow> nat \<Rightarrow> nat" where
  "FastStrlen m s max_n = (case s of None \<Rightarrow> 0 | Some a \<Rightarrow> strnlen_loop m a 0 max_n)"

fun strncmp_loop :: "bmem \<Rightarrow> nat \<Rightarrow> nat \<Rightarrow> nat \<Rightarrow> int" where
  "strncmp_loop m a b 0 = 0"
| "strncmp_loop m a b (Suc n) =
     (if m a \<noteq> 0 \<and> m a = m b then strncmp_loop m (a + 1) (b + 1) n else uint (m a) - uint (m b))"

definition FastStrnCmp :: "bmem \<Rightarrow> nat option \<Rightarrow> nat option \<Rightarrow> nat \<Rightarrow> int" where
  "FastStrnCmp m str1 str2 n =
     (case (str1, str2) of
        (Some a, Some b) \<Rightarrow> strncmp_loop m a b n
      | _ \<Rightarrow> if str1 = str2 then 0 else if str1 \<noteq> None then 1 else -1)"

partial_function (option) strcmp_loop :: "bmem \<Rightarrow> nat \<Rightarrow> nat \<Rightarrow> int option" where
  "strcmp_loop m a b =
     (if m a \<noteq> 0 \<and> m a = m b then strcmp_loop m (a + 1) (b + 1)
      else Some (uint (m a) - uint (m b)))"

definition FastStrCmp :: "bmem \<Rightarrow> nat option \<Rightarrow> nat option \<Rightarrow> int option" where
  "FastStrCmp m str1 str2 =
     (case (str1, str2) of
        (Some a, Some b) \<Rightarrow> strcmp_loop m a b
      | _ \<Rightarrow> Some (if str1 = str2 then 0 else if str1 \<noteq> None then 1 else -1))"

partial_function (option) FastStrChr :: "bmem \<Rightarrow> nat \<Rightarrow> u8 \<Rightarrow> nat option option" where
  "FastStrChr m str target =
     (if m str \<noteq> 0 then if m str = target then Some (Some str) else FastStrChr m (str + 1) target
      else if target = 0 then Some (Some str) else Some None)"

section \<open>Copying\<close>

fun strncpy_loop :: "nat \<Rightarrow> nat \<Rightarrow> nat \<Rightarrow> nat \<Rightarrow> bmem \<Rightarrow> bmem" where
  "strncpy_loop dest src i 0 m = m(dest + i := 0)"
| "strncpy_loop dest src i (Suc left) m =
     (if m (src + i) \<noteq> 0 then strncpy_loop dest src (i + 1) left (m(dest + i := m (src + i)))
      else m(dest + i := 0))"

text \<open>The loop runs while \<open>i + 1 < max_len\<close>, so at most \<open>max_len - 1\<close> times.\<close>

definition strncpy :: "nat option \<Rightarrow> nat option \<Rightarrow> nat \<Rightarrow> bmem \<Rightarrow> bmem" where
  "strncpy dest src max_len m =
     (case (dest, src) of
        (Some d, Some s) \<Rightarrow> strncpy_loop d s 0 (max_len - 1) m
      | _ \<Rightarrow> m)"

definition FastStrCopy :: "nat option \<Rightarrow> nat option \<Rightarrow> nat \<Rightarrow> bmem \<Rightarrow> bmem" where
  "FastStrCopy dst src max_len m = strncpy dst src max_len m"

partial_function (option) copy_bytes :: "nat \<Rightarrow> nat \<Rightarrow> bmem \<Rightarrow> bmem option" where
  "copy_bytes d s m =
     (if m s = 0 then Some (m(d := m s)) else copy_bytes (d + 1) (s + 1) (m(d := m s)))"

definition read8 :: "bmem \<Rightarrow> nat \<Rightarrow> u8 list" where
  "read8 m a = map (\<lambda>i. m (a + i)) [0..<8]"

definition write8 :: "nat \<Rightarrow> u8 list \<Rightarrow> bmem \<Rightarrow> bmem" where
  "write8 a bs m = (\<lambda>x. if a \<le> x \<and> x < a + 8 then bs ! (x - a) else m x)"

text \<open>
  The 64-bit value is the list of its eight bytes in memory order; the tests of the eight masked
  bytes are the test for a zero byte.
\<close>

partial_function (option) copy_words :: "nat \<Rightarrow> nat \<Rightarrow> bmem \<Rightarrow> bmem option" where
  "copy_words d s m =
     (let val = read8 m s in
      if list_all (\<lambda>b. b = 0) val then Some (m(d := 0))
      else if list_ex (\<lambda>b. b = 0) val then copy_bytes d s m
      else copy_words (d + 8) (s + 8) (write8 d val m))"

definition strcpy :: "nat option \<Rightarrow> nat option \<Rightarrow> bmem \<Rightarrow> bmem option" where
  "strcpy dest src m =
     (case (dest, src) of
        (Some d, Some s) \<Rightarrow> if d mod 8 = 0 \<and> s mod 8 = 0 then copy_words d s m else copy_bytes d s m
      | _ \<Rightarrow> Some m)"

definition strcat :: "nat option \<Rightarrow> nat option \<Rightarrow> bmem \<Rightarrow> bmem option" where
  "strcat dest src m =
     (case (dest, src) of
        (Some d, Some s) \<Rightarrow>
          (case strlen_loop m d 0 of None \<Rightarrow> None | Some n \<Rightarrow> strcpy (Some (d + n)) (Some s) m)
      | _ \<Rightarrow> Some m)"

section \<open>Numbers\<close>

definition hex_chars :: "u8 list" where
  "hex_chars = [48, 49, 50, 51, 52, 53, 54, 55, 56, 57, 65, 66, 67, 68, 69, 70]"

text \<open>The bytes \<open>htoa\<close> and \<open>itoa\<close> leave in the buffer, without the terminator.\<close>

definition htoa :: "u64 \<Rightarrow> u8 list" where
  "htoa n = [48, 120] @ map (\<lambda>k. hex_chars ! unat (drop_bit k n AND 0xF))
     [60, 56, 52, 48, 44, 40, 36, 32, 28, 24, 20, 16, 12, 8, 4, 0]"

function itoa_loop :: "nat \<Rightarrow> u8 list \<Rightarrow> u8 list" where
  "itoa_loop n p =
     (if 10 \<le> n then let q = n div 10 in itoa_loop q (of_nat (48 + (n - q * 10)) # p)
      else of_nat (48 + n) # p)"
  by pat_completeness auto
termination by (relation "measure fst") auto

declare itoa_loop.simps [simp del]

definition itoa :: "nat \<Rightarrow> u8 list" where
  "itoa n = (if n = 0 then [48] else itoa_loop n [])"

section \<open>Tokens\<close>

text \<open>
  \<open>strtok\<close> keeps the rest of its input in a static pointer; the result is the bytes of the new
  string it allocates.
\<close>

partial_function (option) strtok_loop :: "bmem \<Rightarrow> nat \<Rightarrow> u8 \<Rightarrow> nat \<Rightarrow> u8 list \<Rightarrow> (u8 list \<times> nat option) option" where
  "strtok_loop m inp d i result =
     (if m (inp + i) = 0 then Some (result, None)
      else if m (inp + i) = d then Some (result, Some (inp + i + 1))
      else strtok_loop m inp d (i + 1) (result @ [m (inp + i)]))"

definition strtok :: "bmem \<Rightarrow> nat option \<Rightarrow> u8 \<Rightarrow> nat option \<Rightarrow> (u8 list option \<times> nat option) option" where
  "strtok m s d saved =
     (case (if s \<noteq> None then s else saved) of
        None \<Rightarrow> Some (None, None)
      | Some inp \<Rightarrow> map_option (\<lambda>(r, rest). (Some r, rest)) (strtok_loop m inp d 0 []))"

partial_function (option) in_set :: "bmem \<Rightarrow> u8 \<Rightarrow> nat \<Rightarrow> bool option" where
  "in_set m c a = (if m a = 0 then Some False else if c = m a then Some True else in_set m c (a + 1))"

partial_function (option) strspn_loop :: "bmem \<Rightarrow> nat \<Rightarrow> nat \<Rightarrow> nat \<Rightarrow> nat option" where
  "strspn_loop m p accept count =
     (if m p = 0 then Some count
      else Option.bind (in_set m (m p) accept)
             (\<lambda>found. if found then strspn_loop m (p + 1) accept (count + 1) else Some count))"

definition strspn :: "bmem \<Rightarrow> nat \<Rightarrow> nat \<Rightarrow> nat option" where
  "strspn m s accept = strspn_loop m s accept 0"

partial_function (option) strpbrk :: "bmem \<Rightarrow> nat \<Rightarrow> nat \<Rightarrow> nat option option" where
  "strpbrk m cs ct =
     (if m cs = 0 then Some None
      else Option.bind (in_set m (m cs) ct)
             (\<lambda>found. if found then Some (Some cs) else strpbrk m (cs + 1) ct))"

definition strsep :: "nat option \<Rightarrow> nat \<Rightarrow> bmem \<Rightarrow> (nat option \<times> nat option \<times> bmem) option" where
  "strsep s ct m =
     (case s of
        None \<Rightarrow> Some (None, None, m)
      | Some sbegin \<Rightarrow>
          (case strpbrk m sbegin ct of
             None \<Rightarrow> None
           | Some None \<Rightarrow> Some (Some sbegin, None, m)
           | Some (Some e) \<Rightarrow> Some (Some sbegin, Some (e + 1), m(e := 0))))"

section \<open>Stored strings\<close>

lemma cstr_iff: "cstr m a s \<longleftrightarrow> (\<forall>i < length s. m (a + i) = s ! i \<and> s ! i \<noteq> 0) \<and> m (a + length s) = 0"
proof (induction s arbitrary: a)
  case (Cons c s)
  show ?case
    by (auto simp: Cons.IH nth_Cons split: nat.splits)
qed simp

lemma cstr_frame:
  "\<lbrakk>cstr m a s; \<And>x. a \<le> x \<Longrightarrow> x \<le> a + length s \<Longrightarrow> m' x = m x\<rbrakk> \<Longrightarrow> cstr m' a s"
  by (simp add: cstr_iff)

lemma cstr_drop: "cstr m a s \<Longrightarrow> n \<le> length s \<Longrightarrow> cstr m (a + n) (drop n s)"
  by (simp add: cstr_iff add.assoc)

lemma strlen_loop_spec: "cstr m (a + n) s \<Longrightarrow> strlen_loop m a n = Some (n + length s)"
proof (induction s arbitrary: n)
  case Nil
  then show ?case by (subst strlen_loop.simps) simp
next
  case (Cons c s)
  then show ?case using Cons.IH [of "n + 1"] by (subst strlen_loop.simps) (simp add: add.assoc)
qed

section \<open>Comparison\<close>

lemma uint_pos: "c \<noteq> 0 \<Longrightarrow> 0 < uint c" for c :: u8
  by (metis order_le_neq_trans uint_0_iff uint_nonnegative)

lemma uint_diff_sign:
  "c \<noteq> d \<Longrightarrow> uint c - uint d \<noteq> 0 \<and> (uint c - uint d < 0 \<longleftrightarrow> c < d)" for c d :: u8
  by (auto simp: word_less_def word_uint_eq_iff)

lemma strcmp_loop_spec:
  assumes "cstr m a s" and "cstr m b t"
  shows "\<exists>r. strcmp_loop m a b = Some r \<and> (r = 0 \<longleftrightarrow> s = t) \<and> (r < 0 \<longleftrightarrow> (s, t) \<in> lexord {(x, y). x < y})"
  using assms
proof (induction s arbitrary: t a b)
  case Nil
  then have "strcmp_loop m a b = Some (- uint (m b))" by (subst strcmp_loop.simps) simp
  moreover have "t = [] \<longleftrightarrow> m b = 0" using Nil(2) by (cases t) auto
  moreover have "0 < uint (m b)" if "m b \<noteq> 0" using that by (rule uint_pos)
  ultimately show ?case by (cases t) auto
next
  case (Cons c s)
  show ?case
  proof (cases t)
    case Nil
    with Cons.prems have ab: "m a = c" "c \<noteq> 0" "m b = 0" by auto
    then have "strcmp_loop m a b = Some (uint c)" by (subst strcmp_loop.simps) simp
    moreover have "0 < uint c" using ab(2) by (rule uint_pos)
    ultimately show ?thesis using Nil by auto
  next
    case (Cons d t')
    with Cons.prems have ab: "m a = c" "c \<noteq> 0" "cstr m (a + 1) s" "m b = d" "d \<noteq> 0" "cstr m (b + 1) t'"
      by auto
    show ?thesis
    proof (cases "c = d")
      case True
      then have "strcmp_loop m a b = strcmp_loop m (a + 1) (b + 1)"
        using ab by (subst strcmp_loop.simps) simp
      with Cons.IH [OF ab(3,6)] True Cons show ?thesis by auto
    next
      case False
      then have "strcmp_loop m a b = Some (uint c - uint d)" using ab by (subst strcmp_loop.simps) simp
      with uint_diff_sign [OF False] False Cons show ?thesis by auto
    qed
  qed
qed

section \<open>Copying\<close>

definition copied :: "nat \<Rightarrow> nat \<Rightarrow> nat \<Rightarrow> bmem \<Rightarrow> bmem" where
  "copied d s n m = (\<lambda>x. if d \<le> x \<and> x < d + n then m (s + (x - d)) else m x)"

definition apart :: "nat \<Rightarrow> nat \<Rightarrow> nat \<Rightarrow> bool" where
  "apart d s n \<longleftrightarrow> d + n < s \<or> s + n < d"

lemma copied_step:
  assumes "apart d s n"
  shows "copied (d + 1) (s + 1) n (m(d := m s)) = copied d s (n + 1) m"
proof
  fix x
  show "copied (d + 1) (s + 1) n (m(d := m s)) x = copied d s (n + 1) m x"
  proof (cases "d < x")
    case True
    then obtain k where "x = Suc (d + k)" using less_imp_Suc_add by blast
    then show ?thesis using assms by (auto simp: copied_def apart_def)
  qed (auto simp: copied_def)
qed

lemma read8_nth: "i < 8 \<Longrightarrow> read8 m a ! i = m (a + i)"
  by (simp add: read8_def)

lemma copied_block:
  assumes "apart d s (n + 7)"
  shows "copied (d + 8) (s + 8) n (write8 d (read8 m s) m) = copied d s (n + 8) m"
proof
  fix x
  show "copied (d + 8) (s + 8) n (write8 d (read8 m s) m) x = copied d s (n + 8) m x"
  proof (cases "d + 8 \<le> x")
    case True
    then obtain k where "x = d + 8 + k" using le_Suc_ex by blast
    then show ?thesis using assms by (auto simp: copied_def apart_def write8_def add.assoc)
  qed (auto simp: copied_def write8_def read8_nth)
qed

lemma copy_bytes_spec:
  assumes "cstr m s str" and "apart d s (length str)"
  shows "copy_bytes d s m = Some (copied d s (length str + 1) m)"
  using assms
proof (induction str arbitrary: d s m)
  case Nil
  then show ?case by (subst copy_bytes.simps) (auto simp: copied_def fun_eq_iff)
next
  case (Cons c str)
  let ?m = "m(d := m s)"
  have c: "m s \<noteq> 0" "cstr m (s + 1) str" using Cons.prems(1) by auto
  have "cstr ?m (s + 1) str"
    using c(2) Cons.prems(2) by (elim cstr_frame) (auto simp: apart_def)
  moreover have "apart (d + 1) (s + 1) (length str)" using Cons.prems(2) by (auto simp: apart_def)
  ultimately have "copy_bytes (d + 1) (s + 1) ?m = Some (copied (d + 1) (s + 1) (length str + 1) ?m)"
    by (rule Cons.IH)
  moreover have "copied (d + 1) (s + 1) (length str + 1) ?m = copied d s (length (c # str) + 1) m"
    using copied_step [of d s "length str + 1" m] Cons.prems(2) by simp
  ultimately show ?case using c(1) by (subst copy_bytes.simps) simp
qed

lemma read8_zero: "list_ex (\<lambda>b. b = 0) (read8 m a) \<longleftrightarrow> (\<exists>i < 8. m (a + i) = 0)"
  by (auto simp: read8_def list_ex_iff)

lemma read8_all_zero: "list_all (\<lambda>b. b = 0) (read8 m a) \<Longrightarrow> m a = 0"
  by (auto simp: list_all_length read8_def dest: spec [of _ 0])

lemma copy_words_spec:
  assumes "cstr m s str" and "apart d s (length str)"
  shows "copy_words d s m = Some (copied d s (length str + 1) m)"
  using assms
proof (induction "length str" arbitrary: d s m str rule: less_induct)
  case less
  note cs = less.prems(1) [unfolded cstr_iff]
  show ?case
  proof (cases "list_all (\<lambda>b. b = 0) (read8 m s)")
    case True
    then have "m s = 0" by (rule read8_all_zero)
    with less.prems(1) have "str = []" by (cases str) auto
    with True \<open>m s = 0\<close> show ?thesis
      by (subst copy_words.simps) (auto simp: Let_def copied_def fun_eq_iff)
  next
    case nz: False
    show ?thesis
    proof (cases "list_ex (\<lambda>b. b = 0) (read8 m s)")
      case True
      with nz copy_bytes_spec [OF less.prems] show ?thesis by (subst copy_words.simps) (simp add: Let_def)
    next
      case False
      then have nonzero: "m (s + i) \<noteq> 0" if "i < 8" for i using that by (auto simp: read8_zero)
      have len: "8 \<le> length str" using cs nonzero [of "length str"] by (metis not_less)
      let ?m = "write8 d (read8 m s) m"
      have "cstr ?m (s + 8) (drop 8 str)"
        using cstr_drop [OF less.prems(1) len]
        by (rule cstr_frame) (use less.prems(2) len in \<open>auto simp: write8_def apart_def\<close>)
      moreover have "apart (d + 8) (s + 8) (length (drop 8 str))"
        using less.prems(2) len by (auto simp: apart_def)
      moreover have "length (drop 8 str) < length str" using len by simp
      ultimately have "copy_words (d + 8) (s + 8) ?m = Some (copied (d + 8) (s + 8) (length (drop 8 str) + 1) ?m)"
        by (intro less.hyps)
      moreover have "copied (d + 8) (s + 8) (length (drop 8 str) + 1) ?m = copied d s (length str + 1) m"
      proof -
        have "length (drop 8 str) + 1 = length str - 7" using len by simp
        then show ?thesis using copied_block [of d s "length str - 7" m] less.prems(2) len by simp
      qed
      ultimately show ?thesis using nz False by (subst copy_words.simps) (simp add: Let_def)
    qed
  qed
qed

lemma copied_cstr:
  assumes "cstr m s str"
  shows "cstr (copied d s (length str + 1) m) d str"
  using assms by (simp add: cstr_iff copied_def)

lemma strncpy_loop_spec:
  assumes "cstr m (src + i) str" and "apart (dest + i) (src + i) (length str)"
  shows "strncpy_loop dest src i n m =
    (copied (dest + i) (src + i) (min n (length str)) m)(dest + i + min n (length str) := 0)"
  using assms
proof (induction n arbitrary: i m str)
  case 0
  then show ?case by (auto simp: copied_def fun_eq_iff)
next
  case (Suc n)
  show ?case
  proof (cases str)
    case Nil
    with Suc.prems show ?thesis by (auto simp: copied_def fun_eq_iff)
  next
    case (Cons c str')
    let ?m = "m(dest + i := m (src + i))"
    have c: "m (src + i) \<noteq> 0" "cstr m (src + (i + 1)) str'" using Suc.prems(1) Cons by (auto simp: add.assoc)
    have "cstr ?m (src + (i + 1)) str'"
      using c(2) by (rule cstr_frame) (use Suc.prems(2) Cons in \<open>auto simp: apart_def\<close>)
    moreover have "apart (dest + (i + 1)) (src + (i + 1)) (length str')"
      using Suc.prems(2) Cons by (auto simp: apart_def)
    ultimately have "strncpy_loop dest src (i + 1) n ?m =
        (copied (dest + (i + 1)) (src + (i + 1)) (min n (length str')) ?m)
          (dest + (i + 1) + min n (length str') := 0)"
      by (rule Suc.IH)
    moreover have "copied (dest + (i + 1)) (src + (i + 1)) (min n (length str')) ?m =
        copied (dest + i) (src + i) (min (Suc n) (length str)) m"
      using copied_step [of "dest + i" "src + i" "min n (length str')" m] Suc.prems(2) Cons
      by (simp add: apart_def add.assoc) linarith
    ultimately show ?thesis using c(1) Cons by (simp add: add.assoc)
  qed
qed

section \<open>Decimal numbers\<close>

definition dec_val :: "u8 list \<Rightarrow> nat" where
  "dec_val ds = fold (\<lambda>d acc. acc * 10 + (unat d - 48)) ds 0"

lemma digit_byte: "k < 10 \<Longrightarrow> unat (of_nat (48 + k) :: u8) = 48 + k"
  unfolding unat_of_nat by (simp add: take_bit_nat_eq_self)

lemma itoa_loop_val:
  "\<exists>ds. itoa_loop n p = ds @ p \<and> (\<forall>acc. fold (\<lambda>d acc. acc * 10 + (unat d - 48)) ds acc = acc * 10 ^ length ds + n) \<and>
     ds \<noteq> [] \<and> (\<forall>d \<in> set ds. 48 \<le> unat d \<and> unat d \<le> 57) \<and> n < 10 ^ length ds \<and>
     (1 < length ds \<longrightarrow> 10 ^ (length ds - 1) \<le> n)"
proof (induction n arbitrary: p rule: less_induct)
  case (less n)
  show ?case
  proof (cases "10 \<le> n")
    case False
    then have b: "unat (of_nat (48 + n) :: u8) = 48 + n" by (intro digit_byte) simp
    have "itoa_loop n p = [of_nat (48 + n)] @ p" using False by (subst itoa_loop.simps) simp
    with b False show ?thesis by (intro exI [of _ "[of_nat (48 + n)]"]) simp
  next
    case True
    let ?q = "n div 10"
    have r: "n - ?q * 10 < 10" by (simp add: minus_div_mult_eq_mod)
    note b = digit_byte [OF r]
    have "?q < n" using True by simp
    from less.IH [OF this, of "of_nat (48 + (n - ?q * 10)) # p"] obtain ds where
      ds: "itoa_loop ?q (of_nat (48 + (n - ?q * 10)) # p) = ds @ of_nat (48 + (n - ?q * 10)) # p"
      "\<And>acc. fold (\<lambda>d acc. acc * 10 + (unat d - 48)) ds acc = acc * 10 ^ length ds + ?q"
      "ds \<noteq> []" "\<forall>d \<in> set ds. 48 \<le> unat d \<and> unat d \<le> 57" "?q < 10 ^ length ds"
      "1 < length ds \<longrightarrow> 10 ^ (length ds - 1) \<le> ?q" by blast
    let ?e = "ds @ [of_nat (48 + (n - ?q * 10))]"
    have "itoa_loop n p = itoa_loop ?q (of_nat (48 + (n - ?q * 10)) # p)"
      using True by (subst itoa_loop.simps) (simp only: Let_def if_True)
    then have "itoa_loop n p = ?e @ p" unfolding ds(1) append.simps append_assoc .
    moreover have "fold (\<lambda>d acc. acc * 10 + (unat d - 48)) ?e acc = acc * 10 ^ length ?e + n" for acc
      using ds(2) [of acc] b by (simp add: algebra_simps)
    moreover have "\<forall>d \<in> set ?e. 48 \<le> unat d \<and> unat d \<le> 57" using ds(4) b r by auto
    moreover have "n < 10 ^ length ?e" using ds(5) by simp
    moreover have "10 ^ (length ?e - 1) \<le> n"
    proof (cases "1 < length ds")
      case True
      with ds(6) have "10 * 10 ^ (length ds - 1) \<le> 10 * ?q" by simp
      moreover have "10 * 10 ^ (length ds - 1) = (10 :: nat) ^ length ds" using True by (simp flip: power_Suc)
      ultimately show ?thesis by simp
    next
      case False
      with ds(3) have "length ds = 1" by (cases ds) auto
      with True show ?thesis by simp
    qed
    ultimately show ?thesis by blast
  qed
qed

lemma itoa_val:
  shows "dec_val (itoa n) = n" and "n < 18446744073709551616 \<Longrightarrow> length (itoa n) \<le> 20"
  and "d \<in> set (itoa n) \<Longrightarrow> 48 \<le> unat d \<and> unat d \<le> 57"
proof -
  obtain ds where ds: "itoa_loop n [] = ds" "fold (\<lambda>d acc. acc * 10 + (unat d - 48)) ds 0 = n"
    "\<forall>d \<in> set ds. 48 \<le> unat d \<and> unat d \<le> 57" "1 < length ds \<longrightarrow> 10 ^ (length ds - 1) \<le> n"
    using itoa_loop_val [of n "[]"] by fastforce
  show "dec_val (itoa n) = n" using ds by (simp add: itoa_def dec_val_def)
  show "d \<in> set (itoa n) \<Longrightarrow> 48 \<le> unat d \<and> unat d \<le> 57"
    using ds by (auto simp: itoa_def split: if_splits)
  assume n: "n < 18446744073709551616"
  have "length ds \<le> 20"
  proof (rule ccontr)
    assume "\<not> length ds \<le> 20"
    then have "(10 :: nat) ^ 20 \<le> 10 ^ (length ds - 1)" by (intro power_increasing) auto
    also have "\<dots> \<le> n" using ds(4) \<open>\<not> length ds \<le> 20\<close> by simp
    finally show False using n by simp
  qed
  then show "length (itoa n) \<le> 20" using ds(1) by (simp add: itoa_def)
qed

section \<open>Properties\<close>

text \<open>A memory holding the strings \<open>ab\<close> at 16 and \<open>abc\<close> at 32.\<close>

definition demo_strings :: bmem where
  "demo_strings = (\<lambda>x. 0)(16 := 97, 17 := 98, 32 := 97, 33 := 98, 34 := 99)"

lemma demo_cstr: "cstr demo_strings 16 [97, 98]" "cstr demo_strings 32 [97, 98, 99]"
  by (simp_all add: demo_strings_def)

text \<open>
  C36: FastStrCmp on stored strings always returns, its result is zero exactly for equal strings and
  negative exactly when the first precedes the second in the order of unsigned bytes.
\<close>

theorem FastStrCmp_lexicographic:
  assumes "cstr m a s" and "cstr m b t"
  shows "\<exists>r. FastStrCmp m (Some a) (Some b) = Some r \<and> (r = 0 \<longleftrightarrow> s = t) \<and>
    (r < 0 \<longleftrightarrow> (s, t) \<in> lexord {(x, y). x < y})"
  using strcmp_loop_spec [OF assms] by (simp add: FastStrCmp_def)

theorem FastStrCmp_lexicographic_witness:
  "\<exists>r. FastStrCmp demo_strings (Some 16) (Some 32) = Some r \<and> r < 0"
  using FastStrCmp_lexicographic [OF demo_cstr] by (auto simp: lexord_append_leftI)

text \<open>
  Strcpy, with its eight-bytes-at-a-time loop for aligned buffers, is the byte copy: for every
  stored string and every destination that does not overlap it, the string arrives with its
  terminator and no other byte of memory changes.
\<close>

theorem strcpy_exact:
  assumes "cstr m s str" and "d + length str < s \<or> s + length str < d"
  shows "\<exists>m'. strcpy (Some d) (Some s) m = Some m' \<and> cstr m' d str \<and>
    (\<forall>x. x < d \<or> d + length str < x \<longrightarrow> m' x = m x)"
proof -
  have ap: "apart d s (length str)" using assms(2) by (simp add: apart_def)
  have "strcpy (Some d) (Some s) m = Some (copied d s (length str + 1) m)"
    using copy_words_spec [OF assms(1) ap] copy_bytes_spec [OF assms(1) ap] by (simp add: strcpy_def)
  then show ?thesis using copied_cstr [OF assms(1), of d] by (auto simp: copied_def)
qed

theorem strcpy_exact_witness:
  "\<exists>m'. strcpy (Some 64) (Some 32) demo_strings = Some m' \<and> cstr m' 64 [97, 98, 99] \<and> m' 68 = 0"
  using strcpy_exact [OF demo_cstr(2), of 64] by (auto simp: demo_strings_def)

text \<open>
  Itoa writes the decimal digits of its argument: reading them back gives the number, and for
  every 64-bit number they fit the 20 places of the temporary buffer.
\<close>

theorem itoa_roundtrip:
  "dec_val (itoa n) = n \<and> list_all (\<lambda>d. 48 \<le> unat d \<and> unat d \<le> 57) (itoa n) \<and>
   length (itoa (n mod 18446744073709551616)) \<le> 20"
  using itoa_val(1,3) [where n = n] itoa_val(2) [of "n mod 18446744073709551616"] by (auto simp: list_all_iff)

text \<open>
  FastStrCopy keeps at most \<open>max_len - 1\<close> bytes: the destination holds the string cut to that
  length, always terminated.
\<close>

theorem FastStrCopy_truncates:
  assumes "cstr m s str" and "d + length str < s \<or> s + length str < d"
  shows "cstr (FastStrCopy (Some d) (Some s) max_len m) d (take (max_len - 1) str)"
proof -
  have "apart (d + 0) (s + 0) (length str)" using assms(2) by (simp add: apart_def)
  from strncpy_loop_spec [of m s 0 str d, OF _ this] assms(1)
  have "FastStrCopy (Some d) (Some s) max_len m =
      (copied d s (min (max_len - 1) (length str)) m)(d + min (max_len - 1) (length str) := 0)"
    by (simp add: FastStrCopy_def strncpy_def)
  then show ?thesis using assms(1) by (auto simp: cstr_iff copied_def min_def)
qed

theorem FastStrCopy_truncates_witness:
  "cstr (FastStrCopy (Some 64) (Some 32) 3 demo_strings) 64 [97, 98]"
  using FastStrCopy_truncates [OF demo_cstr(2), of 64 3] by simp

end
