(* ===== verification/M6502.thy ===== *)
theory M6502
  imports VF_Prelude "HOL-Library.State_Monad"
begin

text \<open>
  The 6502 emulator of \<open>src/ports/6502/6502.cpp\<close>: the registers and the 64 KiB memory, the
  addressing modes, the arithmetic of \<open>ADC\<close>, \<open>SBC\<close> and the compare instructions, one
  iteration of the dispatch loop of \<open>CPU::Execute\<close>, the loop itself and the demonstration
  program of \<open>Entry6502\<close>.  The cycle counter is the \<open>u32\<close> of the code and wraps.  The methods
  of the code that take the memory and the counter by reference are operations of the state
  monad; the loop may run for ever and is a partial function.  The lines printed on the console
  are not part of the state.
\<close>

section \<open>Registers, flags and memory\<close>

text \<open>
  The status flags are one-bit bit-fields of the C++ structure: an assignment keeps the lowest
  bit of the assigned value.
\<close>

record CPU =
  rPC :: "16 word"
  rSP :: "8 word"
  rA :: "8 word"
  rX :: "8 word"
  rY :: "8 word"
  fC :: "1 word"
  fZ :: "1 word"
  fI :: "1 word"
  fD :: "1 word"
  fB :: "1 word"
  fV :: "1 word"
  fN :: "1 word"

record machine = CPU +
  Data :: "16 word \<Rightarrow> 8 word"
  Cycles :: "32 word"

type_synonym 'a op6502 = "(machine, 'a) state"

definition of_cond :: "bool \<Rightarrow> 1 word" where
  "of_cond b = (if b then 1 else 0)"

definition modify :: "(machine \<Rightarrow> machine) \<Rightarrow> unit op6502" where
  "modify f = do { s \<leftarrow> State_Monad.get; State_Monad.set (f s) }"

definition reads :: "(machine \<Rightarrow> 'a) \<Rightarrow> 'a op6502" where
  "reads f = do { s \<leftarrow> State_Monad.get; State_Monad.return (f s) }"

definition MEM_Init :: "machine \<Rightarrow> machine" where
  "MEM_Init s = s\<lparr>Data := (\<lambda>_. 0)\<rparr>"

definition WriteByte :: "8 word \<Rightarrow> 16 word \<Rightarrow> unit op6502" where
  "WriteByte Value Address =
     modify (\<lambda>s. s\<lparr>Data := (Data s)(Address := Value), Cycles := Cycles s - 1\<rparr>)"

definition tick :: "unit op6502" where
  "tick = modify (\<lambda>s. s\<lparr>Cycles := Cycles s - 1\<rparr>)"

definition Reset :: "machine \<Rightarrow> machine" where
  "Reset s = s\<lparr>rSP := 0xFF, fC := 0, fZ := 0, fI := 0, fD := 0, fV := 0, fB := 0, fN := 0,
     rA := 0, rX := 0, rY := 0,
     rPC := ucast (Data s 0xFFFC) OR push_bit 8 (ucast (Data s 0xFFFD))\<rparr>"

definition SetZN :: "8 word \<Rightarrow> unit op6502" where
  "SetZN v = modify (\<lambda>s. s\<lparr>fZ := of_cond (v = 0), fN := of_cond (v AND 0x80 > 0)\<rparr>)"

definition FetchByte :: "8 word op6502" where
  "FetchByte = do {
     d \<leftarrow> reads (\<lambda>s. Data s (rPC s));
     modify (\<lambda>s. s\<lparr>rPC := rPC s + 1\<rparr>);
     tick;
     State_Monad.return d }"

definition FetchWord :: "16 word op6502" where
  "FetchWord = do {
     lo \<leftarrow> reads (\<lambda>s. ucast (Data s (rPC s)));
     modify (\<lambda>s. s\<lparr>rPC := rPC s + 1\<rparr>);
     hi \<leftarrow> reads (\<lambda>s. ucast (Data s (rPC s)));
     modify (\<lambda>s. s\<lparr>rPC := rPC s + 1\<rparr>);
     modify (\<lambda>s. s\<lparr>Cycles := Cycles s - 2\<rparr>);
     State_Monad.return (lo OR push_bit 8 hi) }"

definition ReadByte :: "16 word \<Rightarrow> 8 word op6502" where
  "ReadByte Address = do {
     d \<leftarrow> reads (\<lambda>s. Data s Address);
     tick;
     State_Monad.return d }"

section \<open>Addressing modes\<close>

definition Addr_IM :: "16 word op6502" where
  "Addr_IM = do {
     pc \<leftarrow> reads rPC;
     modify (\<lambda>s. s\<lparr>rPC := rPC s + 1\<rparr>);
     State_Monad.return pc }"

definition Addr_ZP :: "16 word op6502" where
  "Addr_ZP = do { b \<leftarrow> FetchByte; State_Monad.return (ucast b) }"

definition Addr_ZPX :: "16 word op6502" where
  "Addr_ZPX = do {
     b \<leftarrow> FetchByte; x \<leftarrow> reads rX; tick; State_Monad.return (ucast (b + x)) }"

definition Addr_ZPY :: "16 word op6502" where
  "Addr_ZPY = do {
     b \<leftarrow> FetchByte; y \<leftarrow> reads rY; tick; State_Monad.return (ucast (b + y)) }"

definition Addr_ABS :: "16 word op6502" where
  "Addr_ABS = FetchWord"

definition indexed :: "16 word \<Rightarrow> 8 word \<Rightarrow> 16 word op6502" where
  "indexed base i = do {
     (if base AND 0xFF00 \<noteq> (base + ucast i) AND 0xFF00 then tick else State_Monad.return ());
     State_Monad.return (base + ucast i) }"

definition Addr_ABSX :: "16 word op6502" where
  "Addr_ABSX = do { a \<leftarrow> FetchWord; x \<leftarrow> reads rX; indexed a x }"

definition Addr_ABSY :: "16 word op6502" where
  "Addr_ABSY = do { a \<leftarrow> FetchWord; y \<leftarrow> reads rY; indexed a y }"

definition Addr_INDX :: "16 word op6502" where
  "Addr_INDX = do {
     b \<leftarrow> FetchByte; x \<leftarrow> reads rX; tick;
     lo \<leftarrow> ReadByte (ucast (b + x));
     hi \<leftarrow> ReadByte (ucast (b + x + 1));
     State_Monad.return (ucast lo OR push_bit 8 (ucast hi)) }"

definition Addr_INDY :: "16 word op6502" where
  "Addr_INDY = do {
     b \<leftarrow> FetchByte;
     lo \<leftarrow> ReadByte (ucast b);
     hi \<leftarrow> ReadByte (ucast (b + 1));
     y \<leftarrow> reads rY;
     indexed (ucast lo OR push_bit 8 (ucast hi)) y }"

section \<open>Arithmetic\<close>

definition ADC :: "8 word \<Rightarrow> unit op6502" where
  "ADC Operand = do {
     a \<leftarrow> reads rA; c \<leftarrow> reads fC;
     let Sum = (ucast a + ucast Operand + ucast c :: 16 word);
     modify (\<lambda>s. s\<lparr>fC := of_cond (Sum > 0xFF),
                   fV := ucast (NOT (a XOR Operand) AND (a XOR ucast Sum) AND (0x80 :: 8 word)),
                   rA := ucast Sum\<rparr>);
     a \<leftarrow> reads rA;
     SetZN a }"

definition SBC :: "8 word \<Rightarrow> unit op6502" where
  "SBC Operand = ADC (NOT Operand)"

definition compare_with :: "8 word \<Rightarrow> 8 word \<Rightarrow> unit op6502" where
  "compare_with r Operand = do {
     modify (\<lambda>s. s\<lparr>fC := of_cond (r \<ge> Operand)\<rparr>);
     SetZN (r - Operand) }"

definition CMP :: "8 word \<Rightarrow> unit op6502" where
  "CMP Operand = do { a \<leftarrow> reads rA; compare_with a Operand }"

definition CPX :: "8 word \<Rightarrow> unit op6502" where
  "CPX Operand = do { x \<leftarrow> reads rX; compare_with x Operand }"

definition CPY :: "8 word \<Rightarrow> unit op6502" where
  "CPY Operand = do { y \<leftarrow> reads rY; compare_with y Operand }"

section \<open>The opcodes of the dispatch\<close>

abbreviation (input) "INS_LDA_IM \<equiv> 0xA9 :: 8 word"
abbreviation (input) "INS_LDA_ZP \<equiv> 0xA5 :: 8 word"
abbreviation (input) "INS_LDA_ZPX \<equiv> 0xB5 :: 8 word"
abbreviation (input) "INS_LDA_ABS \<equiv> 0xAD :: 8 word"
abbreviation (input) "INS_LDA_ABSX \<equiv> 0xBD :: 8 word"
abbreviation (input) "INS_LDA_ABSY \<equiv> 0xB9 :: 8 word"
abbreviation (input) "INS_LDA_INDX \<equiv> 0xA1 :: 8 word"
abbreviation (input) "INS_LDA_INDY \<equiv> 0xB1 :: 8 word"
abbreviation (input) "INS_LDX_IM \<equiv> 0xA2 :: 8 word"
abbreviation (input) "INS_LDX_ZP \<equiv> 0xA6 :: 8 word"
abbreviation (input) "INS_LDY_IM \<equiv> 0xA0 :: 8 word"
abbreviation (input) "INS_LDY_ZP \<equiv> 0xA4 :: 8 word"
abbreviation (input) "INS_STA_ZP \<equiv> 0x85 :: 8 word"
abbreviation (input) "INS_STA_ZPX \<equiv> 0x95 :: 8 word"
abbreviation (input) "INS_STA_ABS \<equiv> 0x8D :: 8 word"
abbreviation (input) "INS_STA_ABSX \<equiv> 0x9D :: 8 word"
abbreviation (input) "INS_STA_ABSY \<equiv> 0x99 :: 8 word"
abbreviation (input) "INS_STA_INDX \<equiv> 0x81 :: 8 word"
abbreviation (input) "INS_STA_INDY \<equiv> 0x91 :: 8 word"
abbreviation (input) "INS_STX_ZP \<equiv> 0x86 :: 8 word"
abbreviation (input) "INS_STY_ZP \<equiv> 0x84 :: 8 word"
abbreviation (input) "INS_JSR \<equiv> 0x20 :: 8 word"
abbreviation (input) "INS_RTS \<equiv> 0x60 :: 8 word"
abbreviation (input) "INS_JMP_ABS \<equiv> 0x4C :: 8 word"
abbreviation (input) "INS_JMP_IND \<equiv> 0x6C :: 8 word"
abbreviation (input) "INS_PHA \<equiv> 0x48 :: 8 word"
abbreviation (input) "INS_PLA \<equiv> 0x68 :: 8 word"
abbreviation (input) "INS_BCC \<equiv> 0x90 :: 8 word"
abbreviation (input) "INS_BCS \<equiv> 0xB0 :: 8 word"
abbreviation (input) "INS_BEQ \<equiv> 0xF0 :: 8 word"
abbreviation (input) "INS_BNE \<equiv> 0xD0 :: 8 word"
abbreviation (input) "INS_CLC \<equiv> 0x18 :: 8 word"
abbreviation (input) "INS_SEC \<equiv> 0x38 :: 8 word"
abbreviation (input) "INS_NOP \<equiv> 0xEA :: 8 word"
abbreviation (input) "INS_BRK \<equiv> 0x00 :: 8 word"
abbreviation (input) "INS_ADC_IM \<equiv> 0x69 :: 8 word"
abbreviation (input) "INS_SBC_IM \<equiv> 0xE9 :: 8 word"
abbreviation (input) "INS_CMP_IM \<equiv> 0xC9 :: 8 word"
abbreviation (input) "INS_CPX_IM \<equiv> 0xE0 :: 8 word"
abbreviation (input) "INS_CPY_IM \<equiv> 0xC0 :: 8 word"

section \<open>The dispatch loop\<close>

definition halt :: "unit op6502" where
  "halt = modify (\<lambda>s. s\<lparr>Cycles := 0\<rparr>)"

definition LDA :: "8 word \<Rightarrow> unit op6502" where
  "LDA v = do { modify (\<lambda>s. s\<lparr>rA := v\<rparr>); SetZN v }"

definition LDX :: "8 word \<Rightarrow> unit op6502" where
  "LDX v = do { modify (\<lambda>s. s\<lparr>rX := v\<rparr>); SetZN v }"

definition LDY :: "8 word \<Rightarrow> unit op6502" where
  "LDY v = do { modify (\<lambda>s. s\<lparr>rY := v\<rparr>); SetZN v }"

definition load_from :: "16 word op6502 \<Rightarrow> (8 word \<Rightarrow> unit op6502) \<Rightarrow> unit op6502" where
  "load_from mode ld = do { a \<leftarrow> mode; v \<leftarrow> ReadByte a; ld v }"

definition store_to :: "16 word op6502 \<Rightarrow> (machine \<Rightarrow> 8 word) \<Rightarrow> unit op6502" where
  "store_to mode reg = do { a \<leftarrow> mode; v \<leftarrow> reads reg; WriteByte v a }"

definition exec_load :: "8 word \<Rightarrow> unit op6502 option" where
  "exec_load i =
    (if i = INS_LDA_IM then Some (do { v \<leftarrow> FetchByte; LDA v })
     else if i = INS_LDA_ZP then Some (load_from Addr_ZP LDA)
     else if i = INS_LDA_ZPX then Some (load_from Addr_ZPX LDA)
     else if i = INS_LDA_ABS then Some (load_from Addr_ABS LDA)
     else if i = INS_LDA_ABSX then Some (load_from Addr_ABSX LDA)
     else if i = INS_LDA_ABSY then Some (load_from Addr_ABSY LDA)
     else if i = INS_LDA_INDX then Some (load_from Addr_INDX LDA)
     else if i = INS_LDA_INDY then Some (load_from Addr_INDY LDA)
     else if i = INS_LDX_IM then Some (do { v \<leftarrow> FetchByte; LDX v })
     else if i = INS_LDX_ZP then Some (load_from Addr_ZP LDX)
     else if i = INS_LDY_IM then Some (do { v \<leftarrow> FetchByte; LDY v })
     else if i = INS_LDY_ZP then Some (load_from Addr_ZP LDY)
     else None)"

definition exec_store :: "8 word \<Rightarrow> unit op6502 option" where
  "exec_store i =
    (if i = INS_STA_ZP then Some (store_to Addr_ZP rA)
     else if i = INS_STA_ZPX then Some (store_to Addr_ZPX rA)
     else if i = INS_STA_ABS then Some (store_to Addr_ABS rA)
     else if i = INS_STA_ABSX then Some (store_to Addr_ABSX rA)
     else if i = INS_STA_ABSY then Some (store_to Addr_ABSY rA)
     else if i = INS_STA_INDX then Some (store_to Addr_INDX rA)
     else if i = INS_STA_INDY then Some (store_to Addr_INDY rA)
     else if i = INS_STX_ZP then Some (store_to Addr_ZP rX)
     else if i = INS_STY_ZP then Some (store_to Addr_ZP rY)
     else None)"

definition exec_arith :: "8 word \<Rightarrow> unit op6502 option" where
  "exec_arith i =
    (if i = INS_ADC_IM then Some (do { v \<leftarrow> FetchByte; ADC v })
     else if i = INS_SBC_IM then Some (do { v \<leftarrow> FetchByte; SBC v })
     else if i = INS_CMP_IM then Some (do { v \<leftarrow> FetchByte; CMP v })
     else if i = INS_CPX_IM then Some (do { v \<leftarrow> FetchByte; CPX v })
     else if i = INS_CPY_IM then Some (do { v \<leftarrow> FetchByte; CPY v })
     else None)"

definition stack_push :: "8 word \<Rightarrow> unit op6502" where
  "stack_push v = do {
     sp \<leftarrow> reads rSP;
     WriteByte v (0x0100 + ucast sp);
     modify (\<lambda>s. s\<lparr>rSP := rSP s - 1\<rparr>) }"

definition stack_pull :: "8 word op6502" where
  "stack_pull = do {
     modify (\<lambda>s. s\<lparr>rSP := rSP s + 1\<rparr>);
     sp \<leftarrow> reads rSP;
     ReadByte (0x0100 + ucast sp) }"

definition exec_jump :: "8 word \<Rightarrow> unit op6502 option" where
  "exec_jump i =
    (if i = INS_JSR then Some (do {
       sub \<leftarrow> FetchWord;
       pc \<leftarrow> reads rPC;
       stack_push (ucast (drop_bit 8 (pc - 1)));
       stack_push (ucast ((pc - 1) AND 0xFF));
       modify (\<lambda>s. s\<lparr>rPC := sub\<rparr>) })
     else if i = INS_RTS then Some (do {
       lo \<leftarrow> stack_pull;
       hi \<leftarrow> stack_pull;
       modify (\<lambda>s. s\<lparr>rPC := push_bit 8 (ucast hi) OR ucast lo\<rparr>);
       modify (\<lambda>s. s\<lparr>rPC := rPC s + 1\<rparr>);
       tick })
     else if i = INS_JMP_ABS then Some (do { a \<leftarrow> Addr_ABS; modify (\<lambda>s. s\<lparr>rPC := a\<rparr>) })
     else if i = INS_JMP_IND then Some (do {
       a \<leftarrow> FetchWord;
       lo \<leftarrow> ReadByte a;
       hi \<leftarrow> ReadByte (a + 1);
       modify (\<lambda>s. s\<lparr>rPC := ucast lo OR push_bit 8 (ucast hi)\<rparr>) })
     else None)"

definition exec_stack :: "8 word \<Rightarrow> unit op6502 option" where
  "exec_stack i =
    (if i = INS_PHA then Some (do { a \<leftarrow> reads rA; stack_push a })
     else if i = INS_PLA then Some (do { v \<leftarrow> stack_pull; LDA v })
     else None)"

definition take_branch :: "8 word \<Rightarrow> unit op6502" where
  "take_branch Offset = do {
     OldPC \<leftarrow> reads rPC;
     modify (\<lambda>s. s\<lparr>rPC := rPC s + scast Offset\<rparr>);
     tick;
     pc \<leftarrow> reads rPC;
     if OldPC AND 0xFF00 \<noteq> pc AND 0xFF00 then tick else State_Monad.return () }"

definition branch_if :: "(machine \<Rightarrow> bool) \<Rightarrow> unit op6502" where
  "branch_if P = do {
     Offset \<leftarrow> FetchByte;
     taken \<leftarrow> reads P;
     if taken then take_branch Offset else State_Monad.return () }"

definition exec_branch :: "8 word \<Rightarrow> unit op6502 option" where
  "exec_branch i =
    (if i = INS_BCC then Some (branch_if (\<lambda>s. fC s = 0))
     else if i = INS_BCS then Some (branch_if (\<lambda>s. fC s = 1))
     else if i = INS_BEQ then Some (branch_if (\<lambda>s. fZ s = 1))
     else if i = INS_BNE then Some (branch_if (\<lambda>s. fZ s = 0))
     else None)"

definition exec_flag :: "8 word \<Rightarrow> unit op6502 option" where
  "exec_flag i =
    (if i = INS_CLC then Some (do { modify (\<lambda>s. s\<lparr>fC := 0\<rparr>); tick })
     else if i = INS_SEC then Some (do { modify (\<lambda>s. s\<lparr>fC := 1\<rparr>); tick })
     else if i = INS_NOP then Some tick
     else None)"

definition exec_instruction :: "8 word \<Rightarrow> unit op6502" where
  "exec_instruction i =
    (if i = INS_BRK then halt
     else case exec_load i of Some m \<Rightarrow> m | None \<Rightarrow>
      (case exec_store i of Some m \<Rightarrow> m | None \<Rightarrow>
      (case exec_arith i of Some m \<Rightarrow> m | None \<Rightarrow>
      (case exec_jump i of Some m \<Rightarrow> m | None \<Rightarrow>
      (case exec_stack i of Some m \<Rightarrow> m | None \<Rightarrow>
      (case exec_branch i of Some m \<Rightarrow> m | None \<Rightarrow>
      (case exec_flag i of Some m \<Rightarrow> m | None \<Rightarrow> halt)))))))"

definition exec_one :: "machine \<Rightarrow> machine" where
  "exec_one s = snd (run_state (do { i \<leftarrow> FetchByte; exec_instruction i }) s)"

partial_function (option) Execute :: "machine \<Rightarrow> machine option" where
  "Execute s = (if Cycles s > 0 then Execute (exec_one s) else Some s)"

definition demo_program :: "8 word list" where
  "demo_program =
    [INS_CLC, INS_LDA_IM, 0x0A, INS_ADC_IM, 0x05, INS_STA_ZP, 0x10, INS_SEC, INS_SBC_IM, 0x02,
     INS_CMP_IM, 0x0D, INS_BEQ, 0x02, INS_LDA_IM, 0xFF, INS_LDX_IM, 0x2A, INS_BRK]"

fun write_from :: "16 word \<Rightarrow> 8 word list \<Rightarrow> machine \<Rightarrow> machine" where
  "write_from a [] s = s"
| "write_from a (b # bs) s = write_from (a + 1) bs (s\<lparr>Data := (Data s)(a := b)\<rparr>)"

definition power_on :: machine where
  "power_on = \<lparr>rPC = 0, rSP = 0, rA = 0, rX = 0, rY = 0, fC = 0, fZ = 0, fI = 0, fD = 0,
     fB = 0, fV = 0, fN = 0, Data = (\<lambda>_. 0), Cycles = 0\<rparr>"

definition Entry6502 :: "machine option" where
  "Entry6502 =
    (let s = MEM_Init power_on;
         s = write_from 0xFFFC [0x00, 0xF0] s;
         s = Reset s;
         s = write_from 0xF000 demo_program s
     in Execute (s\<lparr>Cycles := 50\<rparr>))"

section \<open>Running the operations\<close>

named_theorems op6502 \<open>the operations of the emulator as functions of the machine\<close>

lemma run_modify [simp]: "run_state (modify f) s = ((), f s)"
  by (simp add: modify_def)

lemma run_reads [simp]: "run_state (reads f) s = (f s, s)"
  by (simp add: reads_def)

lemma run_tick [simp]: "run_state tick s = ((), s\<lparr>Cycles := Cycles s - 1\<rparr>)"
  by (simp add: tick_def)

lemma run_halt [simp]: "run_state halt s = ((), s\<lparr>Cycles := 0\<rparr>)"
  by (simp add: halt_def)

lemma run_WriteByte [simp]:
  "run_state (WriteByte v a) s = ((), s\<lparr>Data := (Data s)(a := v), Cycles := Cycles s - 1\<rparr>)"
  by (simp add: WriteByte_def)

lemma run_ReadByte [simp]:
  "run_state (ReadByte a) s = (Data s a, s\<lparr>Cycles := Cycles s - 1\<rparr>)"
  by (simp add: ReadByte_def)

lemma run_SetZN [simp]:
  "run_state (SetZN v) s = ((), s\<lparr>fZ := of_cond (v = 0), fN := of_cond (v AND 0x80 > 0)\<rparr>)"
  by (simp add: SetZN_def)

lemma run_FetchByte [simp]:
  "run_state FetchByte s =
     (Data s (rPC s), s\<lparr>rPC := rPC s + 1, Cycles := Cycles s - 1\<rparr>)"
  by (simp add: FetchByte_def)

lemma run_FetchWord [simp]:
  "run_state FetchWord s =
     (ucast (Data s (rPC s)) OR push_bit 8 (ucast (Data s (rPC s + 1))),
      s\<lparr>rPC := rPC s + 2, Cycles := Cycles s - 2\<rparr>)"
  by (simp add: FetchWord_def add.assoc)

lemma run_stack_push [simp]:
  "run_state (stack_push v) s =
     ((), s\<lparr>rSP := rSP s - 1, Data := (Data s)(0x0100 + ucast (rSP s) := v),
            Cycles := Cycles s - 1\<rparr>)"
  by (simp add: stack_push_def)

lemma run_pull [simp]:
  "run_state stack_pull s =
     (Data s (0x0100 + ucast (rSP s + 1)), s\<lparr>rSP := rSP s + 1, Cycles := Cycles s - 1\<rparr>)"
  by (simp add: stack_pull_def)

lemmas op6502_exec [op6502] = exec_load_def exec_store_def exec_arith_def exec_jump_def
  exec_stack_def exec_branch_def exec_flag_def exec_instruction_def exec_one_def

lemmas op6502_modes [op6502] = Addr_ZP_def Addr_ZPX_def Addr_ABS_def Addr_ABSX_def Addr_ABSY_def
  Addr_INDX_def Addr_INDY_def indexed_def load_from_def store_to_def LDA_def LDX_def LDY_def
  branch_if_def take_branch_def ADC_def SBC_def CMP_def CPX_def CPY_def compare_with_def Let_def

section \<open>Arithmetic\<close>

lemma of_cond_simps [simp]: "of_cond True = 1" "of_cond False = 0"
  "(of_cond b = 1) = b" "(of_cond b = 0) = (\<not> b)"
  by (simp_all add: of_cond_def)

lemma one_bit_cases: "(x :: 1 word) = 0 \<or> x = 1"
proof -
  have "uint x < 2 ^ LENGTH(1)"
    by (rule unsigned_less)
  then have "uint x < 2" by simp
  moreover have "0 \<le> uint x" by simp
  ultimately have "uint x = 0 \<or> uint x = 1"
    by arith
  then show ?thesis
    by (auto simp: word_uint_eq_iff)
qed

lemma bit_field_of_0x80: "(ucast (x AND (0x80 :: 8 word)) :: 1 word) = 0"
proof (rule bit_word_eqI)
  fix n assume "n < LENGTH(1)"
  then have "n = 0" by simp
  then show "bit (ucast (x AND (0x80 :: 8 word)) :: 1 word) n = bit 0 n"
    by (simp add: bit_simps)
qed

lemma unat_of_cond: "unat (of_cond b) = (if b then 1 else 0)"
  by (simp add: of_cond_def)

lemma unat_flag_le: "unat (c :: 1 word) \<le> 1"
  using one_bit_cases [of c] by auto

lemma unat8_less: "unat (a :: 8 word) < 256"
proof -
  have "unat a < 2 ^ LENGTH(8)" by (rule unsigned_less)
  then show ?thesis by simp
qed

lemma unat_sum16:
  "unat (ucast (a :: 8 word) + ucast (b :: 8 word) + ucast (c :: 1 word) :: 16 word)
     = unat a + unat b + unat c"
proof -
  have "unat a < 256" "unat b < 256" "unat c \<le> 1"
    using unat8_less unat_flag_le by simp_all
  then show ?thesis
    by (simp add: unat_word_ariths unsigned_ucast_eq take_bit_eq_mod)
qed

lemma unat_lower_byte: "unat (ucast (w :: 16 word) :: 8 word) = unat w mod 256"
  by (simp add: unsigned_ucast_eq take_bit_eq_mod)

lemma sign_flag: "(v AND 0x80 > (0 :: 8 word)) = bit v 7"
proof -
  have "v AND 0x80 = (if bit v 7 then 0x80 else (0 :: 8 word))"
  proof (rule bit_word_eqI)
    fix n assume "n < LENGTH(8)"
    have *: "bit (0x80 :: 8 word) n = (n = 7)"
    proof -
      have "(0x80 :: 8 word) = 2 ^ 7" by simp
      then show ?thesis using \<open>n < LENGTH(8)\<close> by (simp only: bit_exp_iff) auto
    qed
    then show "bit (v AND 0x80) n = bit (if bit v 7 then 0x80 else (0 :: 8 word)) n"
      by (auto simp: bit_and_iff)
  qed
  then show ?thesis by simp
qed

lemma ADC_run:
  "snd (run_state (ADC x) s) =
     (let S = ucast (rA s) + ucast x + ucast (fC s) :: 16 word
      in s\<lparr>fC := of_cond (S > 0xFF), fV := 0, rA := ucast S,
           fZ := of_cond ((ucast S :: 8 word) = 0), fN := of_cond (bit (ucast S :: 8 word) 7)\<rparr>)"
  by (simp add: ADC_def Let_def sign_flag bit_field_of_0x80 [of "a AND b" for a b, simplified and.assoc])

lemma ADC_value:
  assumes "t = snd (run_state (ADC x) s)"
  shows "unat (rA t) + 256 * unat (fC t) = unat (rA s) + unat x + unat (fC s)"
proof -
  define S where "S = (ucast (rA s) + ucast x + ucast (fC s) :: 16 word)"
  have n: "unat S = unat (rA s) + unat x + unat (fC s)"
    by (simp add: S_def unat_sum16)
  have le: "unat S < 512"
    using n unat8_less [of "rA s"] unat8_less [of x] unat_flag_le [of "fC s"] by simp
  have gt: "(S > 0xFF) = (unat S > 255)"
    by (simp add: word_less_nat_alt)
  have "unat (rA t) = unat S mod 256" "unat (fC t) = (if unat S > 255 then 1 else 0)"
    by (simp_all add: assms ADC_run Let_def S_def [symmetric] unat_lower_byte unat_of_cond gt)
  moreover have "unat S mod 256 + 256 * (if unat S > 255 then 1 else 0) = unat S"
    using le by (auto simp: mod_if)
  ultimately show ?thesis using n by simp
qed

lemma unat_not: "unat (NOT (x :: 8 word)) = 255 - unat x"
proof -
  have "NOT x = 255 - x"
    by (simp add: not_eq_complement)
  then show ?thesis
    using unat8_less [of x] by (simp add: unat_sub word_le_nat_alt)
qed

lemma ADC_value_int:
  assumes "t = snd (run_state (ADC x) s)"
  shows "uint (rA t) + 256 * uint (fC t) = uint (rA s) + uint x + uint (fC s)"
proof -
  have "int (unat (rA t) + 256 * unat (fC t)) = int (unat (rA s) + unat x + unat (fC s))"
    by (simp only: ADC_value [OF assms])
  then show ?thesis by simp
qed

lemma uint_not: "uint (NOT (x :: 8 word)) = 255 - uint x"
proof -
  have "int (unat (NOT x)) = 255 - int (unat x)"
    using unat8_less [of x] unat_not [of x] by (simp only: of_nat_diff)
  then show ?thesis by simp
qed

text \<open>What \<open>ADC\<close> and \<open>SBC\<close> may change, and the flags they derive from the result.\<close>

definition arith_result :: "machine \<Rightarrow> machine \<Rightarrow> bool" where
  "arith_result s t \<longleftrightarrow>
     (fZ t = 1 \<longleftrightarrow> rA t = 0) \<and> (fN t = 1 \<longleftrightarrow> bit (rA t) 7) \<and> fV t = 0
     \<and> t = s\<lparr>rA := rA t, fC := fC t, fZ := fZ t, fV := fV t, fN := fN t\<rparr>"

lemma ADC_arith_result: "arith_result s (snd (run_state (ADC x) s))"
  unfolding arith_result_def by (simp add: ADC_run Let_def)

text \<open>
  C40: \<open>ADC\<close> adds the operand and the carry into \<open>A\<close> and the carry as a nine-bit sum, \<open>SBC\<close>
  subtracts the operand and the borrow (the complement of the carry) with the carry left as
  \<open>no borrow\<close>, both set \<open>Z\<close> and \<open>N\<close> from the result, both leave every other part of the machine
  alone, and both leave \<open>V = 0\<close> for every input, since the value \<open>0x80\<close> assigned to the one-bit
  field keeps none of its bits.
\<close>
theorem ADC_SBC_exact:
  "let t = snd (run_state (ADC x) s); u = snd (run_state (SBC x) s) in
     uint (rA t) + 256 * uint (fC t) = uint (rA s) + uint x + uint (fC s)
   \<and> uint (rA u) - 256 * (1 - uint (fC u)) = uint (rA s) - uint x - (1 - uint (fC s))
   \<and> arith_result s t \<and> arith_result s u"
  using ADC_value_int [OF refl, of x s] ADC_value_int [OF refl, of "NOT x" s]
  by (simp add: Let_def SBC_def uint_not ADC_arith_result)

section \<open>Subroutines and the stack\<close>

lemma join_split_word16:
  "push_bit 8 (ucast (ucast (drop_bit 8 w) :: 8 word)) OR ucast (ucast (w AND 0xFF) :: 8 word)
     = (w :: 16 word)"
proof (rule bit_word_eqI)
  fix n assume n: "n < LENGTH(16)"
  have m: "bit (0xFF :: 16 word) n = (n < 8)"
  proof -
    have "(0xFF :: 16 word) = mask 8" by (simp add: mask_eq_exp_minus_1)
    then show ?thesis using n by (simp only: bit_mask_iff) auto
  qed
  show "bit (push_bit 8 (ucast (ucast (drop_bit 8 w) :: 8 word)) OR
             ucast (ucast (w AND 0xFF) :: 8 word) :: 16 word) n = bit w n"
    using n m by (auto simp: bit_simps)
qed

lemma ucast_8_16_inject: "(ucast (p :: 8 word) :: 16 word) = ucast q \<longleftrightarrow> p = q"
proof
  assume "(ucast p :: 16 word) = ucast q"
  then have "unat (ucast p :: 16 word) = unat (ucast q :: 16 word)"
    by simp
  then have "unat p = unat q"
    using unat8_less [of p] unat8_less [of q] by (simp add: unsigned_ucast_eq take_bit_eq_mod)
  then show "p = q" by (simp only: word_unat_eq_iff)
qed simp

definition stack_addr :: "8 word \<Rightarrow> 16 word" where
  "stack_addr p = 0x100 + ucast p"

lemma stack_addr_eq [simp]: "stack_addr p = stack_addr q \<longleftrightarrow> p = q"
  by (simp add: stack_addr_def ucast_8_16_inject)

lemma exec_one_JSR:
  assumes "Data s (rPC s) = 0x20"
  shows "exec_one s =
     s\<lparr>rPC := ucast (Data s (rPC s + 1)) OR push_bit 8 (ucast (Data s (rPC s + 2))),
       rSP := rSP s - 2,
       Data := (Data s)(stack_addr (rSP s) := ucast (drop_bit 8 (rPC s + 2)),
                        stack_addr (rSP s - 1) := ucast ((rPC s + 2) AND 0xFF)),
       Cycles := Cycles s - 5\<rparr>"
  by (simp add: exec_one_def exec_instruction_def exec_load_def exec_store_def exec_arith_def
      exec_jump_def assms stack_addr_def add.commute [of _ 2])

lemma exec_one_RTS:
  assumes "Data s (rPC s) = 0x60"
  shows "exec_one s =
     s\<lparr>rPC := (push_bit 8 (ucast (Data s (stack_addr (rSP s + 2))))
               OR ucast (Data s (stack_addr (rSP s + 1)))) + 1,
       rSP := rSP s + 2, Cycles := Cycles s - 4\<rparr>"
  by (simp add: exec_one_def exec_instruction_def exec_load_def exec_store_def exec_arith_def
      exec_jump_def assms stack_addr_def add.commute [of _ 2])

text \<open>
  A subroutine call returns.  When a \<open>JSR\<close> to a target at which an \<open>RTS\<close> stands is executed,
  and the target is not one of the two stack cells the call writes, the two instructions bring
  the machine back to the instruction after the call with the stack pointer, the registers and
  the flags it had, having written the return address (minus one) into those two cells and
  nothing else, and having spent nine cycles.  The stack wraps inside page one.
\<close>
theorem JSR_RTS_roundtrip:
  assumes "Data s (rPC s) = 0x20"
    and "target = ucast (Data s (rPC s + 1)) OR push_bit 8 (ucast (Data s (rPC s + 2)))"
    and "Data s target = 0x60"
    and "target \<noteq> stack_addr (rSP s)" "target \<noteq> stack_addr (rSP s - 1)"
  shows "exec_one (exec_one s) =
     s\<lparr>rPC := rPC s + 3,
       Data := (Data s)(stack_addr (rSP s) := ucast (drop_bit 8 (rPC s + 2)),
                        stack_addr (rSP s - 1) := ucast ((rPC s + 2) AND 0xFF)),
       Cycles := Cycles s - 9\<rparr>"
proof -
  define t where "t = exec_one s"
  note t = t_def [unfolded exec_one_JSR [OF assms(1)], folded assms(2)]
  have "Data t (rPC t) = 0x60"
    using assms(3-5) by (simp add: t)
  from exec_one_RTS [OF this] show ?thesis
    unfolding t_def [symmetric]
    by (simp add: t join_split_word16)
qed

theorem JSR_RTS_roundtrip_witness:
  "let s = write_from 0xF000 [0x20, 0x00, 0xE0] (write_from 0xE000 [0x60] (power_on\<lparr>rSP := 0x80\<rparr>))
   in exec_one (exec_one (s\<lparr>rPC := 0xF000\<rparr>)) =
        s\<lparr>rPC := 0xF003,
          Data := (Data s)(0x180 := 0xF0, 0x17F := 0x02), Cycles := - 9\<rparr>"
proof -
  define s where
    "s = (write_from 0xF000 [0x20, 0x00, 0xE0] (write_from 0xE000 [0x60] (power_on\<lparr>rSP := 0x80\<rparr>)))\<lparr>rPC := 0xF000\<rparr>"
  have "exec_one (exec_one s) =
     s\<lparr>rPC := rPC s + 3,
       Data := (Data s)(stack_addr (rSP s) := ucast (drop_bit 8 (rPC s + 2)),
                        stack_addr (rSP s - 1) := ucast ((rPC s + 2) AND 0xFF)),
       Cycles := Cycles s - 9\<rparr>"
    by (rule JSR_RTS_roundtrip [where target = "0xE000"])
      (simp_all add: s_def power_on_def stack_addr_def)
  then show ?thesis
    by (simp add: s_def power_on_def stack_addr_def Let_def)
qed

section \<open>The cost of an instruction\<close>

text \<open>\<open>costs a b m\<close>: the operation takes at least \<open>a\<close> and at most \<open>b\<close> cycles off the counter.\<close>

definition costs :: "nat \<Rightarrow> nat \<Rightarrow> 'a op6502 \<Rightarrow> bool" where
  "costs a b m \<longleftrightarrow>
     (\<forall>s. \<exists>k. a \<le> k \<and> k \<le> b \<and> Cycles (snd (run_state m s)) = Cycles s - of_nat k)"

named_theorems cost \<open>cycle bounds of the operations\<close>

lemma costsI: "(\<And>s. Cycles (snd (run_state m s)) = Cycles s - of_nat k) \<Longrightarrow> costs k k m"
  unfolding costs_def by blast

lemma costs_weaken: "costs a b m \<Longrightarrow> a' \<le> a \<Longrightarrow> b \<le> b' \<Longrightarrow> costs a' b' m"
  unfolding costs_def by (meson le_trans)

lemma costs_bind:
  assumes m: "costs a b m" and f: "\<And>x. costs c d (f x)"
  shows "costs (a + c) (b + d) (m \<bind> f)"
  unfolding costs_def
proof
  fix s
  obtain x t where r: "run_state m s = (x, t)" by (cases "run_state m s")
  obtain k where k: "a \<le> k" "k \<le> b" "Cycles t = Cycles s - of_nat k"
    using m r unfolding costs_def by (metis snd_conv)
  obtain l where l: "c \<le> l" "l \<le> d" "Cycles (snd (run_state (f x) t)) = Cycles t - of_nat l"
    using f unfolding costs_def by blast
  show "\<exists>k. a + c \<le> k \<and> k \<le> b + d \<and> Cycles (snd (run_state (m \<bind> f) s)) = Cycles s - of_nat k"
    using k l r by (intro exI [of _ "k + l"]) simp
qed

lemma costs_if: "costs a b m \<Longrightarrow> costs a b n \<Longrightarrow> costs a b (if P then m else n)"
  by simp

lemma costs_free [cost]: "costs 0 0 (State_Monad.return x)" "costs 0 0 (reads f)" "costs 0 0 (SetZN v)"
  by (simp_all add: costs_def)

lemma costs_modify: "(\<And>s. Cycles (f s) = Cycles s) \<Longrightarrow> costs 0 0 (modify f)"
  by (simp add: costs_def)

lemma costs_tick [cost]: "costs 1 1 tick"
  by (rule costsI) simp

lemma costs_ReadByte [cost]: "costs 1 1 (ReadByte a)"
  by (rule costsI) simp

lemma costs_WriteByte [cost]: "costs 1 1 (WriteByte v a)"
  by (rule costsI) simp

lemma costs_FetchByte [cost]: "costs 1 1 FetchByte"
  by (rule costsI) simp

lemma costs_FetchWord [cost]: "costs 2 2 FetchWord"
  by (rule costsI) simp

lemma costs_stack_push [cost]: "costs 1 1 (stack_push v)"
  by (rule costsI) simp

lemma costs_pull [cost]: "costs 1 1 stack_pull"
  by (rule costsI) simp

lemma costs_ld [cost]: "costs 0 0 (LDA v)" "costs 0 0 (LDX v)" "costs 0 0 (LDY v)"
  by (simp_all add: costs_def LDA_def LDX_def LDY_def)

lemma costs_arith [cost]: "costs 0 0 (ADC v)" "costs 0 0 (SBC v)" "costs 0 0 (CMP v)"
  "costs 0 0 (CPX v)" "costs 0 0 (CPY v)"
  by (simp_all add: costs_def SBC_def ADC_run Let_def CMP_def CPX_def CPY_def compare_with_def)

lemma costs_optional_tick [cost]: "costs 0 1 (if P then tick else State_Monad.return ())"
  by (rule costs_if) (rule costs_weaken, rule cost, simp, simp)+

lemma costs_indexed [cost]: "costs 0 1 (indexed b i)"
  unfolding indexed_def by (rule costs_weaken, rule costs_bind, (rule cost)+) simp_all

lemma costs_zero_page [cost]: "costs 1 1 Addr_ZP" "costs 2 2 Addr_ZPX"
  unfolding Addr_ZP_def Addr_ZPX_def
  by (rule costs_weaken, (rule costs_bind cost)+, simp_all)+

lemma costs_absolute [cost]: "costs 2 2 Addr_ABS" "costs 2 3 Addr_ABSX" "costs 2 3 Addr_ABSY"
  unfolding Addr_ABS_def Addr_ABSX_def Addr_ABSY_def
  by (rule cost) (rule costs_weaken, (rule costs_bind cost)+, simp_all)+

lemma costs_indirect [cost]: "costs 4 4 Addr_INDX" "costs 3 4 Addr_INDY"
  unfolding Addr_INDX_def Addr_INDY_def
  by (rule costs_weaken, (rule costs_bind cost)+, simp_all)+

lemma costs_load [cost]:
  assumes "costs a b mode" and "\<And>v. costs 0 0 (ld v)"
  shows "costs (a + 1) (b + 1) (load_from mode ld)"
  unfolding load_from_def
  by (rule costs_weaken, (rule costs_bind assms cost)+) simp_all

lemma costs_store [cost]:
  assumes "costs a b mode"
  shows "costs (a + 1) (b + 1) (store_to mode reg)"
  unfolding store_to_def
  by (rule costs_weaken, (rule costs_bind assms cost)+) simp_all

lemma costs_take_branch: "costs 1 2 (take_branch x)"
  unfolding take_branch_def
  by (rule costs_weaken, (rule costs_bind cost | rule costs_modify, simp)+) simp_all

lemma costs_branch [cost]: "costs 1 3 (branch_if P)"
proof -
  have "costs 0 2 (if t then take_branch x else State_Monad.return ())" for t x
    by (rule costs_if; rule costs_weaken, rule costs_take_branch cost, simp_all)
  then show ?thesis
    unfolding branch_if_def
    by - (rule costs_weaken, (rule costs_bind cost | assumption)+, simp_all)
qed

lemma costs_group [cost]:
  "exec_load i = Some m \<Longrightarrow> costs 1 5 m"
  "exec_store i = Some m \<Longrightarrow> costs 1 5 m"
  "exec_arith i = Some m \<Longrightarrow> costs 1 5 m"
  "exec_stack i = Some m \<Longrightarrow> costs 1 5 m"
  "exec_branch i = Some m \<Longrightarrow> costs 1 5 m"
  unfolding exec_load_def exec_store_def exec_arith_def exec_stack_def exec_branch_def
  by (auto split: if_split_asm; rule costs_weaken, (rule costs_bind cost)+, simp_all)+

lemma costs_jump [cost]: "exec_jump i = Some m \<Longrightarrow> costs 1 5 m"
  unfolding exec_jump_def
  by (auto split: if_split_asm simp del: State_Monad.bind_assoc;
      rule costs_weaken, (rule costs_bind costs_modify cost, simp?)+, simp_all)

lemma costs_flag [cost]: "exec_flag i = Some m \<Longrightarrow> costs 1 5 m"
  unfolding exec_flag_def
  by (auto split: if_split_asm; rule costs_weaken, (rule costs_bind costs_modify cost, simp?)+, simp_all)

lemma exec_instruction_cost:
  "exec_instruction i = halt \<or> costs 1 5 (exec_instruction i)"
proof -
  have dispatch: "(case x of None \<Rightarrow> d | Some m \<Rightarrow> m) = halt \<or> costs 1 5 (case x of None \<Rightarrow> d | Some m \<Rightarrow> m)"
    if "\<And>m. x = Some m \<Longrightarrow> costs 1 5 m" "d = halt \<or> costs 1 5 d" for x d
    using that by (cases x) auto
  show ?thesis
    unfolding exec_instruction_def
    by (simp del: One_nat_def, intro impI dispatch disjI1 refl) (erule cost)+
qed

lemma exec_one_cost:
  "Cycles (exec_one s) = 0 \<or> (\<exists>k. 2 \<le> k \<and> k \<le> 6 \<and> Cycles (exec_one s) = Cycles s - of_nat k)"
proof -
  let ?i = "Data s (rPC s)" and ?t = "s\<lparr>rPC := rPC s + 1, Cycles := Cycles s - 1\<rparr>"
  have e: "exec_one s = snd (run_state (exec_instruction ?i) ?t)"
    by (simp add: exec_one_def)
  consider "exec_instruction ?i = halt" | "costs 1 5 (exec_instruction ?i)"
    using exec_instruction_cost by blast
  then show ?thesis
  proof cases
    case 1
    then show ?thesis by (simp add: e)
  next
    case 2
    then obtain k where "1 \<le> k" "k \<le> 5" "Cycles (exec_one s) = Cycles ?t - of_nat k"
      unfolding e costs_def by blast
    then show ?thesis by (intro disjI2 exI [of _ "Suc k"]) simp
  qed
qed

section \<open>The dispatch loop\<close>

lemma Execute_done: "Cycles s = 0 \<Longrightarrow> Execute s = Some s"
  by (subst Execute.simps) simp

lemma Execute_step: "Cycles s \<noteq> 0 \<Longrightarrow> Execute s = Execute (exec_one s)"
  by (subst Execute.simps) (simp add: word_neq_0_conv)

lemma unat_Cycles_sub:
  assumes "k \<le> 6"
  shows "unat (c - of_nat k :: 32 word) =
    (if k \<le> unat c then unat c - k else unat c + 4294967296 - k)"
proof -
  have k: "unat (of_nat k :: 32 word) = k"
    using assms by (simp add: unat_of_nat)
  show ?thesis
    by (simp add: unat_sub_if_size k word_size)
qed

text \<open>
  The cycle budget of \<open>Execute\<close>.  Every instruction takes two to six cycles or stops the
  loop, so from any machine, after at most half the budget in iterations, either the loop has
  returned, or an instruction that needs more than the one to five cycles left has carried the
  unsigned counter through zero to just below \<open>2 ^ 32\<close>, and the loop goes on.
\<close>
theorem Execute_returns_or_overruns:
  "\<exists>n. 2 * n \<le> unat (Cycles s) + 1 \<and>
     (Execute s = Some ((exec_one ^^ n) s)
      \<or> (let u = (exec_one ^^ n) s in
          Execute s = Execute (exec_one u) \<and>
          0 < unat (Cycles u) \<and> unat (Cycles u) < 6 \<and>
          4294967296 - 6 < unat (Cycles (exec_one u))))"
proof (induction "unat (Cycles s)" arbitrary: s rule: less_induct)
  case less
  show ?case
  proof (cases "Cycles s = 0")
    case True
    then show ?thesis
      by (intro exI [of _ 0]) (simp add: Execute_done)
  next
    case False
    then have pos: "0 < unat (Cycles s)"
      by (simp add: unat_gt_0)
    have step: "Execute s = Execute (exec_one s)"
      using False by (rule Execute_step)
    consider (stop) "Cycles (exec_one s) = 0"
      | (spend) k where "2 \<le> k" "k \<le> 6" "Cycles (exec_one s) = Cycles s - of_nat k"
      using exec_one_cost by blast
    then show ?thesis
    proof cases
      case stop
      then show ?thesis
        using pos step by (intro exI [of _ 1]) (simp add: Execute_done)
    next
      case spend
      note c = unat_Cycles_sub [OF spend(2), of "Cycles s", folded spend(3)]
      show ?thesis
      proof (cases "k \<le> unat (Cycles s)")
        case True
        then have "unat (Cycles (exec_one s)) < unat (Cycles s)"
          using c spend(1) by simp
        from less [OF this] obtain n where n: "2 * n \<le> unat (Cycles (exec_one s)) + 1"
          and r: "Execute (exec_one s) = Some ((exec_one ^^ n) (exec_one s))
            \<or> (let u = (exec_one ^^ n) (exec_one s) in
                Execute (exec_one s) = Execute (exec_one u) \<and>
                0 < unat (Cycles u) \<and> unat (Cycles u) < 6 \<and>
                4294967296 - 6 < unat (Cycles (exec_one u)))"
          by blast
        have "2 * Suc n \<le> unat (Cycles s) + 1"
          using n True c spend(1) by simp
        then show ?thesis
          using r by (intro exI [of _ "Suc n"]) (simp add: step funpow_swap1)
      next
        case False
        then show ?thesis
          using c spend pos step by (intro exI [of _ 0] conjI disjI2) (simp_all add: Let_def)
      qed
    qed
  qed
qed

lemma exec_one_NOP:
  assumes "Data s (rPC s) = 0xEA"
  shows "exec_one s = s\<lparr>rPC := rPC s + 1, Cycles := Cycles s - 2\<rparr>"
  by (simp add: exec_one_def exec_instruction_def exec_load_def exec_store_def exec_arith_def
      exec_jump_def exec_stack_def exec_branch_def exec_flag_def assms)

text \<open>
  The loop need not return.  On a memory of \<open>NOP\<close> instructions and an odd budget every
  iteration takes two cycles, the counter goes past zero without meeting it, and \<open>Execute\<close>
  never returns.
\<close>
theorem Execute_odd_budget_diverges:
  assumes "\<And>a. Data s a = 0xEA" and "odd (Cycles s)"
  shows "Execute s = None"
proof (cases "Execute s")
  case (Some t)
  have "\<not> ((\<forall>a. Data s a = 0xEA) \<and> odd (Cycles s))"
  proof (rule Execute.raw_induct
      [where P = "\<lambda>s t. \<not> ((\<forall>a. Data s a = 0xEA) \<and> odd (Cycles s))", OF _ Some])
    fix rec :: "machine \<Rightarrow> machine option" and s t
    assume IH: "\<And>s t. rec s = Some t \<Longrightarrow> \<not> ((\<forall>a. Data s a = 0xEA) \<and> odd (Cycles s))"
      and body: "(if 0 < Cycles s then rec (exec_one s) else Some s) = Some t"
    show "\<not> ((\<forall>a. Data s a = 0xEA) \<and> odd (Cycles s))"
    proof
      assume s: "(\<forall>a. Data s a = 0xEA) \<and> odd (Cycles s)"
      then have "0 < Cycles s"
        by (metis even_zero word_neq_0_conv)
      then have "rec (exec_one s) = Some t"
        using body by simp
      from IH [OF this] show False
        using s by (simp add: exec_one_NOP)
    qed
  qed
  then show ?thesis using Some assms by blast
qed

theorem Execute_odd_budget_diverges_witness:
  "Execute (power_on\<lparr>Data := (\<lambda>_. 0xEA), Cycles := 51\<rparr>) = None"
  by (rule Execute_odd_budget_diverges) simp_all

lemma Entry6502_result:
  "\<exists>t. Entry6502 = Some t \<and> rA t = 13 \<and> rX t = 42 \<and> Data t 0x10 = 15 \<and> fZ t = 0
     \<and> rPC t = 0xF013"
  apply (simp add: Entry6502_def MEM_Init_def power_on_def Reset_def demo_program_def)
  apply (simp add: Execute.simps op6502)
  done

end
