(* ===== verification/Protocol.thy ===== *)
theory Protocol
  imports Main
begin

text \<open>
  Concurrent protocols as transition systems: the contract a lock gives its clients, stated once
  for the lock models of the development.  A protocol has its initial states, its steps (one
  atomic access of one thread each) and an inductive invariant; a mutual-exclusion protocol
  also says which thread holds the lock in which state.
\<close>

text \<open>
  A flag that one thread at a time has set, and the change of it by one access of thread \<open>t\<close>: a
  thread that comes to own the flag found it clear, and one that gives it up clears it.
\<close>

definition flag_held :: "bool \<Rightarrow> ('t \<Rightarrow> bool) \<Rightarrow> bool" where
  "flag_held f h \<longleftrightarrow> (f \<longleftrightarrow> (\<exists>t. h t)) \<and> (\<forall>t u. h t \<and> h u \<longrightarrow> t = u)"

lemma flag_held_update:
  assumes "flag_held f h" and "\<And>u. u \<noteq> t \<Longrightarrow> h' u = h u"
    and "if h' t then f' \<and> (h t \<or> \<not> f) else if h t then \<not> f' else f' = f"
  shows "flag_held f' h'"
  using assms unfolding flag_held_def by (cases "h' t"; cases "h t") (simp_all, metis+)

lemma flag_heldD: "flag_held f h \<Longrightarrow> h t \<Longrightarrow> f" "flag_held f h \<Longrightarrow> h t \<Longrightarrow> h u \<Longrightarrow> t = u"
  by (auto simp: flag_held_def)

locale protocol =
  fixes init :: "'s \<Rightarrow> bool"
    and step :: "'s \<Rightarrow> 's \<Rightarrow> bool"
    and inv :: "'s \<Rightarrow> bool"
  assumes init_inv: "init s \<Longrightarrow> inv s"
    and step_inv: "inv s \<Longrightarrow> step s t \<Longrightarrow> inv t"
begin

lemma reachable_inv:
  assumes "init s" and "step\<^sup>*\<^sup>* s t"
  shows "inv t"
  using assms(2) by (induction rule: rtranclp_induct) (auto intro: init_inv step_inv assms(1))

end

locale mutual_exclusion = protocol init step inv
  for init :: "'s \<Rightarrow> bool" and step :: "'s \<Rightarrow> 's \<Rightarrow> bool" and inv :: "'s \<Rightarrow> bool" +
  fixes holds :: "'s \<Rightarrow> 't \<Rightarrow> bool"
  assumes inv_exclusive: "inv s \<Longrightarrow> holds s a \<Longrightarrow> holds s b \<Longrightarrow> a = b"
begin

lemma reachable_exclusive:
  assumes "init s" and "step\<^sup>*\<^sup>* s t" and "holds t a" and "holds t b"
  shows "a = b"
  using inv_exclusive [OF reachable_inv [OF assms(1,2)] assms(3,4)] .

end

end
