(* ===== verification/RwLock.thy ===== *)
theory RwLock
  imports Protocol VF_Prelude
begin

text \<open>
  The reader-writer lock of \<open>src/kernel/atomic/rust/src/rwlock.rs\<close>.  Each method is the sequence
  of its atomic accesses, one per step; the threads are named by the \<open>owner_id\<close> they pass, as in
  the callers, which pass the process identifier.  Steps of different threads interleave freely:
  the read-modify-write operations of the code are sequentially consistent on x86, and the checks
  that decide exclusion follow one of them.  \<open>spin_wait\<close> only waits and has no step of its own.
\<close>

section \<open>The lock and the program counters of its clients\<close>

record RwLock =
  readers :: u32
  writer :: bool
  waiting_writers :: u32
  owner :: u32
  recursion :: u32

definition RwLock_new :: RwLock where
  "RwLock_new = \<lparr>readers = 0, writer = False, waiting_writers = 0, owner = 0, recursion = 0\<rparr>"

text \<open>
  The accesses of \<open>read_lock\<close> are \<open>Rl\<close>, of \<open>read_unlock\<close> \<open>Ru\<close>, of \<open>write_lock\<close> \<open>Wl\<close>, of
  \<open>write_unlock\<close> \<open>Wu\<close>; each constructor names the next access of the thread.
\<close>

datatype rw_pc = Outside
  | Rl_writer | Rl_owner | Rl_spin_writer | Rl_spin_waiting | Rl_add | Rl_check | Rl_rollback
  | Ru_writer | Ru_owner | Ru_sub
  | Wl_writer | Wl_owner | Wl_recurse | Wl_announce | Wl_swap | Wl_drain | Wl_withdraw
  | Wl_set_owner | Wl_set_recursion
  | Wu_load | Wu_clear_recursion | Wu_clear_owner | Wu_clear_writer | Wu_decrement u32

text \<open>
  What a thread holds: nothing, a read lock, or the write lock taken \<open>depth\<close> times with \<open>inner\<close>
  calls of \<open>read_lock\<close> nested inside it.
\<close>

datatype rw_held = NoLock | Reader | Writer (depth: nat) (inner: nat)

record rw_state =
  rwl :: RwLock
  pc :: "u32 \<Rightarrow> rw_pc"
  held :: "u32 \<Rightarrow> rw_held"

definition goto :: "u32 \<Rightarrow> rw_pc \<Rightarrow> rw_state \<Rightarrow> rw_state" where
  "goto t p s = s\<lparr>pc := (pc s)(t := p)\<rparr>"

definition returns :: "u32 \<Rightarrow> rw_held \<Rightarrow> rw_state \<Rightarrow> rw_state" where
  "returns t h s = s\<lparr>pc := (pc s)(t := Outside), held := (held s)(t := h)\<rparr>"

definition with_lock :: "(RwLock \<Rightarrow> RwLock) \<Rightarrow> rw_state \<Rightarrow> rw_state" where
  "with_lock f s = s\<lparr>rwl := f (rwl s)\<rparr>"

section \<open>The methods, one access at a time\<close>

fun enter_inner :: "rw_held \<Rightarrow> rw_held" where
  "enter_inner (Writer d i) = Writer d (Suc i)"
| "enter_inner _ = Reader"

fun leave_inner :: "rw_held \<Rightarrow> rw_held" where
  "leave_inner (Writer d i) = Writer d (i - 1)"
| "leave_inner _ = NoLock"

fun deeper :: "rw_held \<Rightarrow> rw_held" where
  "deeper (Writer d i) = Writer (Suc d) i"
| "deeper _ = Writer 1 0"

fun shallower :: "rw_held \<Rightarrow> rw_held" where
  "shallower (Writer d i) = Writer (d - 1) i"
| "shallower h = h"

definition read_lock :: "u32 \<Rightarrow> rw_state \<Rightarrow> rw_state" where
  "read_lock t s = (case pc s t of
     Rl_writer \<Rightarrow> goto t (if writer (rwl s) then Rl_owner else Rl_spin_writer) s
   | Rl_owner \<Rightarrow> if owner (rwl s) = t then returns t (enter_inner (held s t)) s
                else goto t Rl_spin_writer s
   | Rl_spin_writer \<Rightarrow> goto t (if writer (rwl s) then Rl_spin_writer else Rl_spin_waiting) s
   | Rl_spin_waiting \<Rightarrow>
       goto t (if waiting_writers (rwl s) > 0 then Rl_spin_writer else Rl_add) s
   | Rl_add \<Rightarrow> goto t Rl_check (with_lock (readers_update (\<lambda>n. n + 1)) s)
   | Rl_check \<Rightarrow> if writer (rwl s) then goto t Rl_rollback s else returns t Reader s
   | Rl_rollback \<Rightarrow> goto t Rl_spin_writer (with_lock (readers_update (\<lambda>n. n - 1)) s)
   | _ \<Rightarrow> s)"

definition read_unlock :: "u32 \<Rightarrow> rw_state \<Rightarrow> rw_state" where
  "read_unlock t s = (case pc s t of
     Ru_writer \<Rightarrow> goto t (if writer (rwl s) then Ru_owner else Ru_sub) s
   | Ru_owner \<Rightarrow> if owner (rwl s) = t then returns t (leave_inner (held s t)) s
                else goto t Ru_sub s
   | Ru_sub \<Rightarrow> returns t NoLock (with_lock (readers_update (\<lambda>n. n - 1)) s)
   | _ \<Rightarrow> s)"

definition write_lock :: "u32 \<Rightarrow> rw_state \<Rightarrow> rw_state" where
  "write_lock t s = (case pc s t of
     Wl_writer \<Rightarrow> goto t (if writer (rwl s) then Wl_owner else Wl_announce) s
   | Wl_owner \<Rightarrow> goto t (if owner (rwl s) = t then Wl_recurse else Wl_announce) s
   | Wl_recurse \<Rightarrow>
       returns t (deeper (held s t)) (with_lock (recursion_update (\<lambda>n. n + 1)) s)
   | Wl_announce \<Rightarrow> goto t Wl_swap (with_lock (waiting_writers_update (\<lambda>n. n + 1)) s)
   | Wl_swap \<Rightarrow> goto t (if writer (rwl s) then Wl_swap else Wl_drain)
                 (with_lock (writer_update (\<lambda>_. True)) s)
   | Wl_drain \<Rightarrow> goto t (if readers (rwl s) > 0 then Wl_drain else Wl_withdraw) s
   | Wl_withdraw \<Rightarrow> goto t Wl_set_owner (with_lock (waiting_writers_update (\<lambda>n. n - 1)) s)
   | Wl_set_owner \<Rightarrow> goto t Wl_set_recursion (with_lock (owner_update (\<lambda>_. t)) s)
   | Wl_set_recursion \<Rightarrow> returns t (Writer 1 0) (with_lock (recursion_update (\<lambda>_. 1)) s)
   | _ \<Rightarrow> s)"

definition write_unlock :: "u32 \<Rightarrow> rw_state \<Rightarrow> rw_state" where
  "write_unlock t s = (case pc s t of
     Wu_load \<Rightarrow> goto t (if recursion (rwl s) \<le> 1 then Wu_clear_recursion
                       else Wu_decrement (recursion (rwl s))) s
   | Wu_clear_recursion \<Rightarrow> goto t Wu_clear_owner (with_lock (recursion_update (\<lambda>_. 0)) s)
   | Wu_clear_owner \<Rightarrow> goto t Wu_clear_writer (with_lock (owner_update (\<lambda>_. 0)) s)
   | Wu_clear_writer \<Rightarrow> returns t NoLock (with_lock (writer_update (\<lambda>_. False)) s)
   | Wu_decrement r \<Rightarrow>
       returns t (shallower (held s t)) (with_lock (recursion_update (\<lambda>_. r - 1)) s)
   | _ \<Rightarrow> s)"

text \<open>The access a thread inside a method performs next.\<close>

definition rw_exec :: "u32 \<Rightarrow> rw_state \<Rightarrow> rw_state" where
  "rw_exec t s =
    (if pc s t \<in> {Rl_writer, Rl_owner, Rl_spin_writer, Rl_spin_waiting, Rl_add, Rl_check, Rl_rollback}
     then read_lock t s
     else if pc s t \<in> {Ru_writer, Ru_owner, Ru_sub} then read_unlock t s
     else if pc s t \<in> {Wl_writer, Wl_owner, Wl_recurse, Wl_announce, Wl_swap, Wl_drain,
                       Wl_withdraw, Wl_set_owner, Wl_set_recursion}
     then write_lock t s
     else write_unlock t s)"

text \<open>
  The calls a client may make from outside: locks are taken in order (a reader releases before it
  takes anything else), nested reads are released before the write lock they are nested in, and
  a lock is released only by a thread that holds it.
\<close>

fun may_call :: "rw_held \<Rightarrow> rw_pc \<Rightarrow> bool" where
  "may_call NoLock p = (p = Rl_writer \<or> p = Wl_writer)"
| "may_call Reader p = (p = Ru_writer)"
| "may_call (Writer d i) p =
     (p = Rl_writer \<or> (p = Ru_writer \<and> i > 0) \<or> (p = Wl_writer \<and> d < 4294967295)
      \<or> (p = Wu_load \<and> (d = 1 \<longrightarrow> i = 0)))"

inductive rw_step :: "u32 set \<Rightarrow> rw_state \<Rightarrow> rw_state \<Rightarrow> bool" for T where
  rw_access: "t \<in> T \<Longrightarrow> pc s t \<noteq> Outside \<Longrightarrow> rw_step T s (rw_exec t s)"
| rw_call: "t \<in> T \<Longrightarrow> pc s t = Outside \<Longrightarrow> may_call (held s t) p \<Longrightarrow> rw_step T s (goto t p s)"

definition rw_init :: "rw_state \<Rightarrow> bool" where
  "rw_init s \<longleftrightarrow> s = \<lparr>rwl = RwLock_new, pc = (\<lambda>_. Outside), held = (\<lambda>_. NoLock)\<rparr>"

section \<open>The invariant\<close>

abbreviation is_Writer :: "rw_held \<Rightarrow> bool" where
  "is_Writer h \<equiv> (\<exists>d i. h = Writer d i)"

text \<open>
  The parts a thread plays, read off its program counter and what it holds: it is counted in
  \<open>readers\<close>, it owns the \<open>writer\<close> flag, it has seen the last reader leave, its name is in \<open>owner\<close>.
\<close>

definition counted :: "rw_pc \<Rightarrow> rw_held \<Rightarrow> bool" where
  "counted p h \<longleftrightarrow> p = Rl_check \<or> p = Rl_rollback \<or> h = Reader"

definition owning :: "rw_pc \<Rightarrow> rw_held \<Rightarrow> bool" where
  "owning p h \<longleftrightarrow> p \<in> {Wl_drain, Wl_withdraw, Wl_set_owner, Wl_set_recursion} \<or> is_Writer h"

definition exclusive :: "rw_pc \<Rightarrow> rw_held \<Rightarrow> bool" where
  "exclusive p h \<longleftrightarrow> p \<in> {Wl_withdraw, Wl_set_owner, Wl_set_recursion} \<or> is_Writer h"

definition named_owner :: "rw_pc \<Rightarrow> rw_held \<Rightarrow> bool" where
  "named_owner p h \<longleftrightarrow> p = Wl_set_recursion \<or> (is_Writer h \<and> p \<noteq> Wu_clear_writer)"

fun local_ok :: "rw_pc \<Rightarrow> rw_held \<Rightarrow> bool" where
  "local_ok p NoLock \<longleftrightarrow>
     p \<in> {Outside, Rl_writer, Rl_owner, Rl_spin_writer, Rl_spin_waiting, Rl_add, Rl_check, Rl_rollback,
          Wl_writer, Wl_owner, Wl_announce, Wl_swap, Wl_drain, Wl_withdraw, Wl_set_owner,
          Wl_set_recursion}"
| "local_ok p Reader \<longleftrightarrow> p \<in> {Outside, Ru_writer, Ru_owner, Ru_sub}"
| "local_ok p (Writer d i) \<longleftrightarrow> 1 \<le> d \<and> d < 4294967296 \<and>
     (p \<in> {Outside, Rl_writer, Rl_owner} \<or> (p \<in> {Ru_writer, Ru_owner} \<and> 0 < i)
      \<or> (p \<in> {Wl_writer, Wl_owner, Wl_recurse} \<and> d < 4294967295)
      \<or> (p = Wu_load \<and> (d = 1 \<longrightarrow> i = 0))
      \<or> (p \<in> {Wu_clear_recursion, Wu_clear_owner, Wu_clear_writer} \<and> d = 1 \<and> i = 0)
      \<or> (p = Wu_decrement (of_nat d) \<and> 1 < d))"

definition depth_ok :: "rw_pc \<Rightarrow> rw_held \<Rightarrow> u32 \<Rightarrow> bool" where
  "depth_ok p h r \<longleftrightarrow>
     (\<forall>d i. h = Writer d i \<and> p \<noteq> Wu_clear_owner \<and> p \<noteq> Wu_clear_writer \<longrightarrow> r = of_nat d)"

definition rw_inv :: "rw_state \<Rightarrow> bool" where
  "rw_inv s \<longleftrightarrow>
     pc s 0 = Outside \<and> held s 0 = NoLock
   \<and> (\<forall>t. local_ok (pc s t) (held s t))
   \<and> readers (rwl s) = of_nat (card {t. counted (pc s t) (held s t)})
   \<and> (writer (rwl s) \<longleftrightarrow> (\<exists>t. owning (pc s t) (held s t)))
   \<and> (\<forall>t u. owning (pc s t) (held s t) \<and> owning (pc s u) (held s u) \<longrightarrow> t = u)
   \<and> (\<forall>t. t \<noteq> 0 \<longrightarrow> (owner (rwl s) = t \<longleftrightarrow> named_owner (pc s t) (held s t)))
   \<and> (\<forall>t u. exclusive (pc s t) (held s t) \<longrightarrow> held s u \<noteq> Reader)
   \<and> (\<forall>t. depth_ok (pc s t) (held s t) (recursion (rwl s)))"

lemma exclusive_owning: "exclusive p h \<Longrightarrow> owning p h"
  by (auto simp: exclusive_def owning_def)

lemma named_owner_owning: "named_owner p h \<Longrightarrow> owning p h"
  by (auto simp: named_owner_def owning_def)

lemma card_flip:
  fixes P :: "'a :: finite \<Rightarrow> bool"
  assumes "\<And>u. u \<noteq> t \<Longrightarrow> Q u = P u"
  shows "card {u. Q u} + (if P t then 1 else 0) = card {u. P u} + (if Q t then 1 else 0)"
proof -
  have rest: "{u. Q u} - {t} = {u. P u} - {t}"
    using assms by blast
  have split: "card {u. R u} = card ({u. R u} - {t}) + (if R t then 1 else 0)" for R :: "'a \<Rightarrow> bool"
    using card.remove [of "{u. R u}" t] by (cases "R t") simp_all
  show ?thesis
    using split [of P] split [of Q] rest by simp
qed

lemma no_reader_counted:
  assumes inv: "rw_inv s" and "readers (rwl s) = 0"
  shows "\<not> counted (pc s t) (held s t)"
proof -
  let ?S = "{t. counted (pc s t) (held s t)}"
  have "0 \<notin> ?S"
    using inv by (simp add: rw_inv_def counted_def)
  then have "?S \<subset> UNIV" by blast
  then have "card ?S < CARD(32 word)"
    by (rule psubset_card_mono [rotated]) simp
  then have "card ?S < 2 ^ LENGTH(32)"
    by (simp add: card_word)
  moreover have "(of_nat (card ?S) :: u32) = 0"
    using assms by (simp add: rw_inv_def)
  ultimately have "card ?S = 0"
    by (auto simp: word_of_nat_eq_0_iff dest: dvd_imp_le)
  then have "?S = {}" by (simp add: card_eq_0_iff)
  then show ?thesis by blast
qed

text \<open>
  One access of one thread changes that thread's part and the shared words; the invariant is kept
  when the shared words follow the part.
\<close>

lemma rw_inv_update:
  assumes inv: "rw_inv s" and t: "t \<noteq> 0"
    and s': "rwl s' = L" "pc s' = (pc s)(t := p)" "held s' = (held s)(t := h)"
    and ok: "local_ok p h"
    and cnt: "readers L + (if counted (pc s t) (held s t) then 1 else 0)
              = readers (rwl s) + (if counted p h then 1 else 0)"
    and wr: "if owning p h then writer L \<and> (owning (pc s t) (held s t) \<or> \<not> writer (rwl s))
             else if owning (pc s t) (held s t) then \<not> writer L else writer L = writer (rwl s)"
    and own: "owner L = (if named_owner p h then t
                 else if named_owner (pc s t) (held s t) then 0 else owner (rwl s))"
    and excl: "exclusive p h \<Longrightarrow> exclusive (pc s t) (held s t) \<or> readers (rwl s) = 0"
    and rd: "h = Reader \<Longrightarrow> held s t = Reader \<or> \<not> writer (rwl s)"
    and rec: "depth_ok p h (recursion L)"
      "recursion L = recursion (rwl s) \<or> owning (pc s t) (held s t)"
  shows "rw_inv s'"
proof -
  note I = inv [unfolded rw_inv_def]
  have uniq: "owning (pc s a) (held s a) \<Longrightarrow> owning (pc s b) (held s b) \<Longrightarrow> a = b" for a b
    using I by blast
  have wiff: "writer (rwl s) \<longleftrightarrow> (\<exists>a. owning (pc s a) (held s a))"
    using I by blast
  have "flag_held (writer (rwl s)) (\<lambda>a. owning (pc s a) (held s a))"
    using I unfolding flag_held_def by blast
  then have flag: "flag_held (writer (rwl s')) (\<lambda>a. owning (pc s' a) (held s' a))"
    by (rule flag_held_update [of _ _ t]) (use wr in \<open>simp_all add: s'\<close>)
  let ?P = "\<lambda>u. counted (pc s u) (held s u)" and ?Q = "\<lambda>u. counted (pc s' u) (held s' u)"
  have "card {u. ?Q u} + (if ?P t then 1 else 0) = card {u. ?P u} + (if ?Q t then 1 else 0)"
    by (rule card_flip) (simp add: s')
  then have "(of_nat (card {u. ?Q u} + (if ?P t then 1 else 0)) :: u32)
      = of_nat (card {u. ?P u} + (if ?Q t then 1 else 0))"
    by (simp only:)
  then have card: "(of_nat (card {u. ?Q u}) :: u32) + (if ?P t then 1 else 0)
      = of_nat (card {u. ?P u}) + (if counted p h then 1 else 0)"
    by (simp only: of_nat_add if_distrib [of of_nat] of_nat_1 semiring_1_class.of_nat_0 s' fun_upd_same)
  show ?thesis
    unfolding rw_inv_def
  proof (intro conjI)
    show "readers (rwl s') = of_nat (card {u. ?Q u})"
    proof -
      have "readers (rwl s) = of_nat (card {u. ?P u})" using I by blast
      then have "readers L + (if ?P t then 1 else 0) = of_nat (card {u. ?Q u}) + (if ?P t then 1 else 0)"
        by (simp only: cnt card)
      then show ?thesis
        by (simp only: add_right_cancel s'(1))
    qed
    show "pc s' 0 = Outside" "held s' 0 = NoLock"
      using I t by (simp_all add: s')
    show "\<forall>u. local_ok (pc s' u) (held s' u)"
      using I ok by (simp add: s')
    show "writer (rwl s') \<longleftrightarrow> (\<exists>u. owning (pc s' u) (held s' u))"
      and "\<forall>a b. owning (pc s' a) (held s' a) \<and> owning (pc s' b) (held s' b) \<longrightarrow> a = b"
      using flag unfolding flag_held_def by blast+
    show "\<forall>u. u \<noteq> 0 \<longrightarrow> (owner (rwl s') = u \<longleftrightarrow> named_owner (pc s' u) (held s' u))"
    proof (intro allI impI)
      fix u :: u32 assume u: "u \<noteq> 0"
      have old: "owner (rwl s) = v \<longleftrightarrow> named_owner (pc s v) (held s v)" if "v \<noteq> 0" for v
        using I that by blast
      have other: "\<not> named_owner (pc s u) (held s u)" if "u \<noteq> t" "named_owner p h"
      proof
        assume "named_owner (pc s u) (held s u)"
        then have "owning (pc s u) (held s u)" by (rule named_owner_owning)
        moreover have "owning (pc s t) (held s t) \<or> \<not> writer (rwl s)"
          using wr named_owner_owning [OF that(2)] by simp
        ultimately show False using uniq wiff that(1) by blast
      qed
      show "owner (rwl s') = u \<longleftrightarrow> named_owner (pc s' u) (held s' u)"
        using own old [OF u] old [OF t] other u t by (cases "u = t") (auto simp: s' split: if_splits)
    qed
    show "\<forall>a b. exclusive (pc s' a) (held s' a) \<longrightarrow> held s' b \<noteq> Reader"
    proof (intro allI impI notI)
      fix a b assume a: "exclusive (pc s' a) (held s' a)" and b: "held s' b = Reader"
      have old: "exclusive (pc s c) (held s c) \<Longrightarrow> held s d \<noteq> Reader" for c d
        using I by blast
      show False
      proof (cases "a = t")
        case True
        then have h: "exclusive p h" using a by (simp add: s')
        then have "h \<noteq> Reader" using ok by (auto simp: exclusive_def)
        then have "b \<noteq> t" "held s b = Reader" using b by (auto simp: s' split: if_splits)
        then show False
          using excl [OF h] old no_reader_counted [OF inv, of b] by (auto simp: counted_def)
      next
        case False
        then have e: "exclusive (pc s a) (held s a)" using a by (simp add: s')
        then have "writer (rwl s)" using wiff exclusive_owning by blast
        then show False
          using b e old rd by (auto simp: s' split: if_splits)
      qed
    qed
    show "\<forall>u. depth_ok (pc s' u) (held s' u) (recursion (rwl s'))"
    proof
      fix u
      have old: "depth_ok (pc s u) (held s u) (recursion (rwl s))" using I by blast
      show "depth_ok (pc s' u) (held s' u) (recursion (rwl s'))"
      proof (cases "u = t \<or> recursion L = recursion (rwl s)")
        case True
        then show ?thesis using old rec by (auto simp: s')
      next
        case False
        then have "\<not> is_Writer (held s u)"
          using rec(2) uniq by (auto simp: owning_def)
        then show ?thesis using False by (auto simp: s' depth_ok_def)
      qed
    qed
  qed
qed

lemmas rw_parts = counted_def owning_def exclusive_def named_owner_def depth_ok_def
  goto_def returns_def with_lock_def

lemma rw_inv_local: "rw_inv s \<Longrightarrow> local_ok (pc s t) (held s t)"
  by (simp add: rw_inv_def)

lemma rw_inv_owner: "rw_inv s \<Longrightarrow> t \<noteq> 0 \<Longrightarrow> owner (rwl s) = t \<longleftrightarrow> named_owner (pc s t) (held s t)"
  by (simp add: rw_inv_def)

lemma rw_inv_writer: "rw_inv s \<Longrightarrow> owning (pc s t) (held s t) \<Longrightarrow> writer (rwl s)"
  by (auto simp: rw_inv_def)

lemma rw_inv_depth: "rw_inv s \<Longrightarrow> depth_ok (pc s t) (held s t) (recursion (rwl s))"
  by (simp add: rw_inv_def)

lemma rw_inv_access:
  assumes "rw_inv s" and "t \<noteq> 0" and "local_ok (pc s t) (held s t)"
    and "\<forall>u. u \<noteq> t \<longrightarrow> pc s' u = pc s u \<and> held s' u = held s u"
    and "local_ok (pc s' t) (held s' t)"
    and "readers (rwl s') + (if counted (pc s t) (held s t) then 1 else 0)
              = readers (rwl s) + (if counted (pc s' t) (held s' t) then 1 else 0)"
    and "if owning (pc s' t) (held s' t) then writer (rwl s') \<and> (owning (pc s t) (held s t) \<or> \<not> writer (rwl s))
             else if owning (pc s t) (held s t) then \<not> writer (rwl s') else writer (rwl s') = writer (rwl s)"
    and "owner (rwl s') = (if named_owner (pc s' t) (held s' t) then t
                 else if named_owner (pc s t) (held s t) then 0 else owner (rwl s))"
    and "exclusive (pc s' t) (held s' t) \<longrightarrow> exclusive (pc s t) (held s t) \<or> readers (rwl s) = 0"
    and "held s' t = Reader \<longrightarrow> held s t = Reader \<or> \<not> writer (rwl s)"
    and "depth_ok (pc s' t) (held s' t) (recursion (rwl s'))"
      "recursion (rwl s') = recursion (rwl s) \<or> owning (pc s t) (held s t)"
  shows "rw_inv s'"
proof (rule rw_inv_update [OF assms(1,2) refl])
  show "pc s' = (pc s)(t := pc s' t)" "held s' = (held s)(t := held s' t)"
    using assms(4) by auto
qed (use assms(5-) in simp_all)

lemma rw_inv_call:
  assumes inv: "rw_inv s" and t: "t \<noteq> 0" and "pc s t = Outside" "may_call (held s t) p"
  shows "rw_inv (goto t p s)"
proof (cases "held s t")
  case NoLock
  then show ?thesis
    using assms(3,4) rw_inv_depth [OF inv, of t]
    by (intro rw_inv_access [OF inv t]) (auto simp: goto_def rw_parts)
next
  case Reader
  then show ?thesis
    using assms(3,4) rw_inv_depth [OF inv, of t]
    by (intro rw_inv_access [OF inv t]) (auto simp: goto_def rw_parts)
next
  case (Writer d i)
  then show ?thesis
    using assms(3,4) rw_inv_local [OF inv, of t] rw_inv_depth [OF inv, of t] rw_inv_writer [OF inv, of t]
      rw_inv_owner [OF inv t]
    by (intro rw_inv_access [OF inv t]) (auto simp: goto_def rw_parts)
qed

lemma rw_inv_Writer:
  assumes inv: "rw_inv s" and t: "t \<noteq> 0" and h: "held s t = Writer d i"
  shows "writer (rwl s)"
    and "pc s t \<noteq> Wu_clear_writer \<Longrightarrow> owner (rwl s) = t"
    and "pc s t \<noteq> Wu_clear_owner \<Longrightarrow> pc s t \<noteq> Wu_clear_writer \<Longrightarrow> recursion (rwl s) = of_nat d"
    and "1 \<le> d" "d < 4294967296"
proof -
  show "writer (rwl s)"
    by (rule rw_inv_writer [OF inv, of t]) (simp add: owning_def h)
  show "owner (rwl s) = t" if "pc s t \<noteq> Wu_clear_writer"
    using rw_inv_owner [OF inv t] that by (simp add: named_owner_def h)
  show "recursion (rwl s) = of_nat d" if "pc s t \<noteq> Wu_clear_owner" "pc s t \<noteq> Wu_clear_writer"
    using rw_inv_depth [OF inv, of t] that by (simp add: depth_ok_def h)
  show "1 \<le> d" "d < 4294967296"
    using rw_inv_local [OF inv, of t] by (simp_all add: h)
qed

lemma rw_inv_read_lock:
  assumes inv: "rw_inv s" and t: "t \<noteq> 0"
    and p: "pc s t \<in> {Rl_writer, Rl_owner, Rl_spin_writer, Rl_spin_waiting, Rl_add, Rl_check, Rl_rollback}"
  shows "rw_inv (read_lock t s)"
proof (cases "held s t")
  case NoLock
  then have "owner (rwl s) \<noteq> t"
    using p rw_inv_owner [OF inv t] by (auto simp: named_owner_def)
  then show ?thesis
    using p NoLock
    by (elim insertE emptyE; intro rw_inv_access [OF inv t]; simp add: read_lock_def rw_parts split: if_split)
next
  case Reader
  then show ?thesis using p rw_inv_local [OF inv, of t] by auto
next
  case (Writer d i)
  then have "pc s t = Rl_writer \<or> pc s t = Rl_owner"
    using p rw_inv_local [OF inv, of t] by auto
  then show ?thesis
    using Writer rw_inv_Writer [OF inv t Writer]
    by (elim disjE; intro rw_inv_access [OF inv t]; simp add: read_lock_def rw_parts)
qed

lemma rw_inv_read_unlock:
  assumes inv: "rw_inv s" and t: "t \<noteq> 0" and p: "pc s t \<in> {Ru_writer, Ru_owner, Ru_sub}"
  shows "rw_inv (read_unlock t s)"
proof (cases "held s t")
  case NoLock
  then show ?thesis using p rw_inv_local [OF inv, of t] by auto
next
  case Reader
  then have "owner (rwl s) \<noteq> t"
    using p rw_inv_owner [OF inv t] by (auto simp: named_owner_def)
  then show ?thesis
    using p Reader
    by (elim insertE emptyE; intro rw_inv_access [OF inv t]; simp add: read_unlock_def rw_parts split: if_split)
next
  case (Writer d i)
  then have "(pc s t = Ru_writer \<or> pc s t = Ru_owner) \<and> 0 < i"
    using p rw_inv_local [OF inv, of t] by auto
  then show ?thesis
    using Writer rw_inv_Writer [OF inv t Writer]
    by (elim conjE disjE; intro rw_inv_access [OF inv t]; simp add: read_unlock_def rw_parts)
qed

lemma rw_inv_write_lock:
  assumes inv: "rw_inv s" and t: "t \<noteq> 0"
    and p: "pc s t \<in> {Wl_writer, Wl_owner, Wl_recurse, Wl_announce, Wl_swap, Wl_drain,
                       Wl_withdraw, Wl_set_owner, Wl_set_recursion}"
  shows "rw_inv (write_lock t s)"
proof (cases "held s t")
  case NoLock
  then have o: "owner (rwl s) = t \<longleftrightarrow> pc s t = Wl_set_recursion" and q: "pc s t \<noteq> Wl_recurse"
    and w: "pc s t \<in> {Wl_drain, Wl_withdraw, Wl_set_owner, Wl_set_recursion} \<longrightarrow> writer (rwl s)"
    using p rw_inv_owner [OF inv t] rw_inv_local [OF inv, of t] rw_inv_writer [OF inv, of t]
    by (auto simp: named_owner_def owning_def)
  show ?thesis
    using p NoLock o q w
    by (elim insertE emptyE; intro rw_inv_access [OF inv t];
        simp add: write_lock_def rw_parts word_gt_0 split: if_split)
next
  case Reader
  then show ?thesis using p rw_inv_local [OF inv, of t] by auto
next
  case (Writer d i)
  then have "(pc s t = Wl_writer \<or> pc s t = Wl_owner \<or> pc s t = Wl_recurse) \<and> d < 4294967295"
    using p rw_inv_local [OF inv, of t] by auto
  then show ?thesis
    using Writer rw_inv_Writer [OF inv t Writer]
    by (elim conjE disjE; intro rw_inv_access [OF inv t]; simp add: write_lock_def rw_parts)
qed

lemma rw_inv_write_unlock:
  assumes inv: "rw_inv s" and t: "t \<noteq> 0"
    and p: "pc s t \<in> {Wu_load, Wu_clear_recursion, Wu_clear_owner, Wu_clear_writer} \<or> (\<exists>r. pc s t = Wu_decrement r)"
  shows "rw_inv (write_unlock t s)"
proof -
  obtain d i where h: "held s t = Writer d i"
    using p rw_inv_local [OF inv, of t] by (cases "held s t") auto
  note W = rw_inv_Writer [OF inv t h]
  have le1: "(of_nat d :: u32) \<le> 1 \<longleftrightarrow> d \<le> 1"
    using W(4,5) by (simp add: word_le_nat_alt unsigned_of_nat take_bit_eq_mod)
  consider "pc s t = Wu_load" "d = 1 \<longrightarrow> i = 0"
    | "pc s t \<in> {Wu_clear_recursion, Wu_clear_owner, Wu_clear_writer}" "d = 1" "i = 0"
    | "pc s t = Wu_decrement (of_nat d)" "1 < d"
    using p rw_inv_local [OF inv, of t] by (auto simp: h)
  then show ?thesis
  proof cases
    case 1
    then show ?thesis
      using h W le1 by (intro rw_inv_access [OF inv t]; simp add: write_unlock_def rw_parts split: if_split)
  next
    case 2
    then show ?thesis
      using h W
      by (elim insertE emptyE; intro rw_inv_access [OF inv t]; simp add: write_unlock_def rw_parts)
  next
    case 3
    have "Suc 0 \<le> d - Suc 0 \<and> d - Suc 0 < 4294967296"
      using 3(2) W(5) by linarith
    then show ?thesis
      using h W 3 by (intro rw_inv_access [OF inv t]; simp add: write_unlock_def rw_parts of_nat_diff)
  qed
qed

section \<open>Exclusion\<close>

lemma rw_inv_exec:
  assumes inv: "rw_inv s" and t: "t \<noteq> 0" and p: "pc s t \<noteq> Outside"
  shows "rw_inv (rw_exec t s)"
proof -
  consider (rl) "pc s t \<in> {Rl_writer, Rl_owner, Rl_spin_writer, Rl_spin_waiting, Rl_add, Rl_check, Rl_rollback}"
    | (ru) "pc s t \<in> {Ru_writer, Ru_owner, Ru_sub}"
    | (wl) "pc s t \<in> {Wl_writer, Wl_owner, Wl_recurse, Wl_announce, Wl_swap, Wl_drain, Wl_withdraw,
           Wl_set_owner, Wl_set_recursion}"
    | (wu) "pc s t \<in> {Wu_load, Wu_clear_recursion, Wu_clear_owner, Wu_clear_writer} \<or> (\<exists>r. pc s t = Wu_decrement r)"
    using p by (cases "pc s t") simp_all
  then show ?thesis
  proof cases
    case rl
    then have "rw_exec t s = read_lock t s" by (simp only: rw_exec_def if_True)
    then show ?thesis using rw_inv_read_lock [OF inv t rl] by simp
  next
    case ru
    then have "rw_exec t s = read_unlock t s" by (auto simp: rw_exec_def)
    then show ?thesis using rw_inv_read_unlock [OF inv t ru] by simp
  next
    case wl
    then have "rw_exec t s = write_lock t s" by (auto simp: rw_exec_def)
    then show ?thesis using rw_inv_write_lock [OF inv t wl] by simp
  next
    case wu
    then have "rw_exec t s = write_unlock t s" by (auto simp: rw_exec_def)
    then show ?thesis using rw_inv_write_unlock [OF inv t wu] by simp
  qed
qed

interpretation rw: mutual_exclusion rw_init "rw_step (- {0})" rw_inv "\<lambda>s t. is_Writer (held s t)"
proof
  show "rw_inv s" if "rw_init s" for s
    using that by (simp add: rw_init_def rw_inv_def RwLock_new_def counted_def owning_def
        exclusive_def named_owner_def depth_ok_def)
  show "rw_inv s'" if "rw_inv s" "rw_step (- {0}) s s'" for s s'
    using that(2,1) by cases (auto intro: rw_inv_exec rw_inv_call)
  show "a = b" if "rw_inv s" "is_Writer (held s a)" "is_Writer (held s b)" for s a b
    using that unfolding rw_inv_def owning_def by blast
qed

text \<open>
  C5: the reader-writer lock excludes.  In every state the clients can reach from a new lock, when
  their identifiers are not 0, a thread that holds the write lock is the only one that holds
  anything: no other thread holds the write lock and none holds a read lock.
\<close>
theorem RwLock_excludes:
  assumes "rw_init s" and "(rw_step (- {0}))\<^sup>*\<^sup>* s s'" and "held s' t = Writer d i" and "u \<noteq> t"
  shows "held s' u = NoLock"
proof (cases "held s' u")
  case Reader
  have "rw_inv s'" by (rule rw.reachable_inv [OF assms(1,2)])
  then show ?thesis
    using assms(3) Reader unfolding rw_inv_def exclusive_def by blast
next
  case (Writer d' i')
  then show ?thesis
    using rw.reachable_exclusive [OF assms(1,2)] assms(3,4) by blast
qed

text \<open>A schedule: which thread moves next, and the method it calls when it is outside.\<close>

fun rw_run :: "u32 set \<Rightarrow> (u32 \<times> rw_pc option) list \<Rightarrow> rw_state \<Rightarrow> rw_state option" where
  "rw_run T [] s = Some s"
| "rw_run T ((t, None) # as) s =
     (if t \<in> T \<and> pc s t \<noteq> Outside then rw_run T as (rw_exec t s) else None)"
| "rw_run T ((t, Some p) # as) s =
     (if t \<in> T \<and> pc s t = Outside \<and> may_call (held s t) p then rw_run T as (goto t p s) else None)"

lemma rw_run_reaches: "rw_run T as s = Some s' \<Longrightarrow> (rw_step T)\<^sup>*\<^sup>* s s'"
  by (induction T as s rule: rw_run.induct)
    (auto split: if_splits intro: converse_rtranclp_into_rtranclp rw_step.intros)

definition rw_start :: rw_state where
  "rw_start = \<lparr>rwl = RwLock_new, pc = (\<lambda>_. Outside), held = (\<lambda>_. NoLock)\<rparr>"

lemma rw_init_start: "rw_init rw_start"
  by (simp add: rw_init_def rw_start_def)

lemmas rw_eval = rw_start_def RwLock_new_def rw_exec_def goto_def returns_def with_lock_def
  read_lock_def write_lock_def

theorem RwLock_excludes_witness:
  "\<exists>s'. (rw_step (- {0}))\<^sup>*\<^sup>* rw_start s' \<and> held s' 1 = Writer 1 0 \<and> pc s' 2 = Rl_owner
     \<and> held s' 2 = NoLock"
proof -
  let ?sched = "[(1, Some Wl_writer), (1, None), (1, None), (1, None), (1, None), (1, None),
    (1, None), (1, None), (2, Some Rl_writer), (2, None)] :: (u32 \<times> rw_pc option) list"
  obtain s' where run: "rw_run (- {0}) ?sched rw_start = Some s'"
    and s': "held s' 1 = Writer 1 0" "pc s' 2 = Rl_owner"
    by (simp add: rw_eval)
  note reach = rw_run_reaches [OF run]
  have "held s' 2 = NoLock"
    by (rule RwLock_excludes [OF rw_init_start reach s'(1)]) simp
  then show ?thesis using reach s' by blast
qed

text \<open>
  The identifier 0 breaks the exclusion.  \<open>write_lock\<close> sets the \<open>writer\<close> flag long before it
  stores its name into \<open>owner\<close>, which is 0 until then, so a \<open>read_lock\<close> called with \<open>owner_id\<close> 0
  takes itself for the owner and returns: a state is reachable in which thread 1 holds the write
  lock and thread 0 a read lock.
\<close>
theorem RwLock_owner_zero_not_excluded:
  "\<exists>s'. (rw_step {0, 1})\<^sup>*\<^sup>* rw_start s' \<and> held s' 1 = Writer 1 0 \<and> held s' 0 = Reader"
proof -
  let ?sched = "[(1, Some Wl_writer), (1, None), (1, None), (1, None), (0, Some Rl_writer),
    (0, None), (0, None), (1, None), (1, None), (1, None), (1, None)]
    :: (u32 \<times> rw_pc option) list"
  obtain s' where "rw_run {0, 1} ?sched rw_start = Some s'"
    and "held s' 1 = Writer 1 0" "held s' 0 = Reader"
    by (simp add: rw_eval)
  then show ?thesis using rw_run_reaches by blast
qed

end
