(* ===== verification/McsLock.thy ===== *)
theory McsLock
  imports Protocol
begin

text \<open>
  The MCS queue lock of \<open>src/kernel/atomic/rust/src/mcs.rs\<close>, one step per atomic access.  Every
  thread brings its own \<open>McsNode\<close>, so a thread is named by its node.  A
  \<open>compare_exchange_weak\<close> may fail although the comparison holds: the flag of an access step says
  whether it does.
\<close>

section \<open>The lock, the nodes and the program counters\<close>

datatype mcs_pc = McsOutside
  | L_next | L_locked | L_swap | L_link nat | L_spin
  | Holding
  | U_load | U_cas | U_wait | U_pass | U_release nat
  | T_next | T_locked | T_cas

record mcs_state =
  tail :: "nat option"
  nxt :: "nat \<Rightarrow> nat option"
  locked :: "nat \<Rightarrow> bool"
  mpc :: "nat \<Rightarrow> mcs_pc"

definition mcs_goto :: "nat \<Rightarrow> mcs_pc \<Rightarrow> mcs_state \<Rightarrow> mcs_state" where
  "mcs_goto n p s = s\<lparr>mpc := (mpc s)(n := p)\<rparr>"

definition McsLock_new :: mcs_state where
  "McsLock_new = \<lparr>tail = None, nxt = (\<lambda>_. None), locked = (\<lambda>_. False), mpc = (\<lambda>_. McsOutside)\<rparr>"

section \<open>The methods, one access at a time\<close>

definition mcs_lock :: "nat \<Rightarrow> mcs_state \<Rightarrow> mcs_state" where
  "mcs_lock n s = (case mpc s n of
     L_next \<Rightarrow> mcs_goto n L_locked (s\<lparr>nxt := (nxt s)(n := None)\<rparr>)
   | L_locked \<Rightarrow> mcs_goto n L_swap (s\<lparr>locked := (locked s)(n := True)\<rparr>)
   | L_swap \<Rightarrow> mcs_goto n (case tail s of None \<Rightarrow> Holding | Some prev \<Rightarrow> L_link prev)
                 (s\<lparr>tail := Some n\<rparr>)
   | L_link prev \<Rightarrow> mcs_goto n L_spin (s\<lparr>nxt := (nxt s)(prev := Some n)\<rparr>)
   | L_spin \<Rightarrow> mcs_goto n (if locked s n then L_spin else Holding) s
   | _ \<Rightarrow> s)"

definition mcs_unlock :: "bool \<Rightarrow> nat \<Rightarrow> mcs_state \<Rightarrow> mcs_state" where
  "mcs_unlock spurious n s = (case mpc s n of
     U_load \<Rightarrow> mcs_goto n (if nxt s n = None then U_cas else U_pass) s
   | U_cas \<Rightarrow> if tail s = Some n \<and> \<not> spurious then mcs_goto n McsOutside (s\<lparr>tail := None\<rparr>)
             else mcs_goto n U_wait s
   | U_wait \<Rightarrow> mcs_goto n (if nxt s n = None then U_wait else U_pass) s
   | U_pass \<Rightarrow> mcs_goto n (case nxt s n of None \<Rightarrow> McsOutside | Some m \<Rightarrow> U_release m) s
   | U_release m \<Rightarrow> mcs_goto n McsOutside (s\<lparr>locked := (locked s)(m := False)\<rparr>)
   | _ \<Rightarrow> s)"

definition mcs_try_lock :: "bool \<Rightarrow> nat \<Rightarrow> mcs_state \<Rightarrow> mcs_state" where
  "mcs_try_lock spurious n s = (case mpc s n of
     T_next \<Rightarrow> mcs_goto n T_locked (s\<lparr>nxt := (nxt s)(n := None)\<rparr>)
   | T_locked \<Rightarrow> mcs_goto n T_cas (s\<lparr>locked := (locked s)(n := False)\<rparr>)
   | T_cas \<Rightarrow> if tail s = None \<and> \<not> spurious then mcs_goto n Holding (s\<lparr>tail := Some n\<rparr>)
             else mcs_goto n McsOutside s
   | _ \<Rightarrow> s)"

definition mcs_exec :: "bool \<Rightarrow> nat \<Rightarrow> mcs_state \<Rightarrow> mcs_state" where
  "mcs_exec spurious n s = (case mpc s n of
     L_next \<Rightarrow> mcs_lock n s | L_locked \<Rightarrow> mcs_lock n s | L_swap \<Rightarrow> mcs_lock n s
   | L_link _ \<Rightarrow> mcs_lock n s | L_spin \<Rightarrow> mcs_lock n s
   | T_next \<Rightarrow> mcs_try_lock spurious n s | T_locked \<Rightarrow> mcs_try_lock spurious n s
   | T_cas \<Rightarrow> mcs_try_lock spurious n s
   | _ \<Rightarrow> mcs_unlock spurious n s)"

fun mcs_may_call :: "mcs_pc \<Rightarrow> mcs_pc \<Rightarrow> bool" where
  "mcs_may_call McsOutside p = (p = L_next \<or> p = T_next)"
| "mcs_may_call Holding p = (p = U_load)"
| "mcs_may_call _ p = False"

inductive mcs_step :: "mcs_state \<Rightarrow> mcs_state \<Rightarrow> bool" where
  mcs_access: "mpc s n \<noteq> McsOutside \<Longrightarrow> mpc s n \<noteq> Holding \<Longrightarrow> mcs_step s (mcs_exec spurious n s)"
| mcs_call: "mcs_may_call (mpc s n) p \<Longrightarrow> mcs_step s (mcs_goto n p s)"

section \<open>The queue the nodes form\<close>

fun queued :: "mcs_pc \<Rightarrow> bool" where
  "queued (L_link _) = True"
| "queued L_spin = True"
| "queued Holding = True"
| "queued U_load = True"
| "queued U_cas = True"
| "queued U_wait = True"
| "queued U_pass = True"
| "queued (U_release _) = True"
| "queued _ = False"

fun granted :: "mcs_pc \<Rightarrow> bool" where
  "granted Holding = True"
| "granted U_load = True"
| "granted U_cas = True"
| "granted U_wait = True"
| "granted U_pass = True"
| "granted (U_release _) = True"
| "granted _ = False"

text \<open>The link from a node to its successor is there once the successor has passed \<open>L_link\<close>.\<close>

definition linked :: "mcs_state \<Rightarrow> nat \<Rightarrow> nat \<Rightarrow> bool" where
  "linked s p n \<longleftrightarrow>
     locked s n \<and> (mpc s n = L_link p \<and> nxt s p = None \<or> mpc s n = L_spin \<and> nxt s p = Some n)"

definition chain :: "mcs_state \<Rightarrow> nat list \<Rightarrow> bool" where
  "chain s q \<longleftrightarrow> successively (linked s) q \<and> (q \<noteq> [] \<longrightarrow> nxt s (last q) = None)"

fun head_ok :: "mcs_state \<Rightarrow> nat list \<Rightarrow> bool" where
  "head_ok s [] = True"
| "head_ok s (p # q) =
     ((granted (mpc s p) \<or> mpc s p = L_spin \<and> \<not> locked s p)
      \<and> (mpc s p = U_pass \<longrightarrow> nxt s p \<noteq> None) \<and> (\<forall>m. mpc s p = U_release m \<longrightarrow> nxt s p = Some m))"

definition outside_ok :: "mcs_state \<Rightarrow> nat \<Rightarrow> bool" where
  "outside_ok s n \<longleftrightarrow>
     (mpc s n = L_locked \<longrightarrow> nxt s n = None) \<and> (mpc s n = L_swap \<longrightarrow> nxt s n = None \<and> locked s n)
   \<and> (mpc s n = T_locked \<or> mpc s n = T_cas \<longrightarrow> nxt s n = None)"

definition mcs_queue :: "nat list \<Rightarrow> mcs_state \<Rightarrow> bool" where
  "mcs_queue q s \<longleftrightarrow>
     distinct q \<and> (\<forall>n. n \<in> set q \<longleftrightarrow> queued (mpc s n))
   \<and> tail s = (if q = [] then None else Some (last q))
   \<and> chain s q \<and> head_ok s q \<and> (\<forall>n. n \<notin> set q \<longrightarrow> outside_ok s n)"

text \<open>
  What an access of a thread contributes to the history of a run: the thread that stores its node into
  \<open>tail\<close>, and the thread that enters the critical section.
\<close>

definition mcs_stores :: "bool \<Rightarrow> nat \<Rightarrow> mcs_state \<Rightarrow> nat list" where
  "mcs_stores spurious n s =
     (if mpc s n = L_swap \<or> mpc s n = T_cas \<and> tail s = None \<and> \<not> spurious then [n] else [])"

definition mcs_enters :: "nat \<Rightarrow> mcs_state \<Rightarrow> mcs_state \<Rightarrow> nat list" where
  "mcs_enters n s s' = (if \<not> granted (mpc s n) \<and> granted (mpc s' n) then [n] else [])"

text \<open>
  \<open>mcs_run sw gr s\<close>: the threads bring a new lock to the state \<open>s\<close>, \<open>sw\<close> are the threads that stored
  their node into \<open>tail\<close> in the order of the stores, and \<open>gr\<close> are the threads that were granted the
  lock in the order of the grants.
\<close>

inductive mcs_run :: "nat list \<Rightarrow> nat list \<Rightarrow> mcs_state \<Rightarrow> bool" where
  run_new: "mcs_run [] [] McsLock_new"
| run_access: "mcs_run sw gr s \<Longrightarrow> mpc s n \<noteq> McsOutside \<Longrightarrow> mpc s n \<noteq> Holding \<Longrightarrow>
    mcs_run (sw @ mcs_stores spurious n s) (gr @ mcs_enters n s (mcs_exec spurious n s)) (mcs_exec spurious n s)"
| run_call: "mcs_run sw gr s \<Longrightarrow> mcs_may_call (mpc s n) p \<Longrightarrow> mcs_run sw gr (mcs_goto n p s)"

section \<open>Where a node stands in the queue\<close>

lemma linked_cong:
  "nxt s' p = nxt s p \<Longrightarrow> locked s' n = locked s n \<Longrightarrow> mpc s' n = mpc s n
    \<Longrightarrow> linked s' p n = linked s p n"
  by (simp add: linked_def)

lemma chain_frame:
  assumes "chain s (p # q)"
    and "\<And>n. n \<in> set (p # q) \<Longrightarrow> nxt s' n = nxt s n"
    and "\<And>n. n \<in> set q \<Longrightarrow> locked s' n = locked s n \<and> mpc s' n = mpc s n"
  shows "chain s' (p # q)"
proof -
  have "successively (linked s) (p # q) \<Longrightarrow> successively (linked s') (p # q)"
    using assms(2,3)
  proof (induction q arbitrary: p)
    case (Cons n q)
    have "linked s' p n = linked s p n"
      using Cons.prems(2) [of p] Cons.prems(3) [of n] by (intro linked_cong) simp_all
    then show ?case
      using Cons.prems Cons.IH [of n] by simp
  qed simp
  moreover have "nxt s' (last (p # q)) = nxt s (last (p # q))"
    by (rule assms(2)) (rule last_in_set, simp)
  ultimately show ?thesis
    using assms(1) by (simp add: chain_def)
qed

lemma chain_tl: "chain s (p # q) \<Longrightarrow> chain s q"
  by (cases q) (auto simp: chain_def)

lemma mcs_queueI:
  assumes "distinct q" "\<And>n. n \<in> set q \<longleftrightarrow> queued (mpc s n)"
    "tail s = (if q = [] then None else Some (last q))"
    "chain s q" "head_ok s q" "\<And>n. n \<notin> set q \<Longrightarrow> outside_ok s n"
  shows "mcs_queue q s"
  using assms by (simp add: mcs_queue_def)

lemma mcs_queueD:
  assumes "mcs_queue q s"
  shows "distinct q" "queued (mpc s n) \<longleftrightarrow> n \<in> set q"
    "tail s = (if q = [] then None else Some (last q))"
    "chain s q" "head_ok s q" "n \<notin> set q \<Longrightarrow> outside_ok s n"
  using assms by (simp_all add: mcs_queue_def)

lemma outside_ok_cong:
  "nxt s' n = nxt s n \<Longrightarrow> locked s' n = locked s n \<Longrightarrow> mpc s' n = mpc s n
    \<Longrightarrow> outside_ok s' n = outside_ok s n"
  by (simp add: outside_ok_def)

lemma mcs_queue_cases:
  assumes "mcs_queue q s" and "queued (mpc s n)"
  obtains (head) q' where "q = n # q'"
    | (behind) xs p ys where "q = xs @ p # n # ys" "linked s p n"
proof -
  have "n \<in> set q" using assms by (simp add: mcs_queue_def)
  then obtain us ys where q: "q = us @ n # ys" by (meson split_list)
  show thesis
  proof (cases us rule: rev_cases)
    case Nil
    then show ?thesis using q head by simp
  next
    case (snoc xs p)
    moreover have "successively (linked s) q"
      using assms(1) by (simp add: mcs_queue_def chain_def)
    ultimately have "linked s p n"
      by (simp add: q successively_append_iff)
    then show ?thesis using q snoc behind by simp
  qed
qed

lemma mcs_granted_head:
  assumes "mcs_queue q s" and "granted (mpc s n) \<or> mpc s n = L_spin \<and> \<not> locked s n"
  obtains q' where "q = n # q'"
proof -
  have "queued (mpc s n)" using assms(2) by (cases "mpc s n") auto
  with assms(1) show thesis
  proof (cases rule: mcs_queue_cases)
    case (behind xs p ys)
    then show ?thesis using assms(2) by (auto simp: linked_def)
  qed (rule that)
qed

section \<open>Steps that leave the queue as it is\<close>

lemma mcs_queue_outside:
  assumes "mcs_queue q s" and "\<not> queued (mpc s n)"
    and "tail s' = tail s" and "\<not> queued (mpc s' n)" and "outside_ok s' n"
    and "\<And>m. m \<noteq> n \<Longrightarrow> nxt s' m = nxt s m \<and> locked s' m = locked s m \<and> mpc s' m = mpc s m"
  shows "mcs_queue q s'"
proof -
  have n: "n \<notin> set q" using assms(1,2) by (simp add: mcs_queue_def)
  have eq: "nxt s' m = nxt s m \<and> locked s' m = locked s m \<and> mpc s' m = mpc s m" if "m \<in> set q" for m
    using assms(6) n that by metis
  have "chain s' q"
  proof (cases q)
    case (Cons p r)
    then show ?thesis
      using mcs_queueD(4) [OF assms(1)] eq by (simp only: Cons) (rule chain_frame [of s p r]; simp)
  qed (simp add: chain_def)
  moreover have "head_ok s' q"
    using mcs_queueD(5) [OF assms(1)] eq by (cases q) simp_all
  moreover have "outside_ok s' m" if "m \<notin> set q" for m
  proof (cases "m = n")
    case False
    then show ?thesis
      using mcs_queueD(6) [OF assms(1) that] assms(6) [OF False] outside_ok_cong by blast
  qed (simp add: assms(5))
  moreover have "m \<in> set q \<longleftrightarrow> queued (mpc s' m)" for m
    using mcs_queueD(2) [OF assms(1), of m] assms(4,6) n by (cases "m = n") simp_all
  ultimately show ?thesis
    using mcs_queueD(1,3) [OF assms(1)] assms(3) by (intro mcs_queueI) simp_all
qed

lemma mcs_queue_head_goto:
  assumes "mcs_queue (n # q) s" and "granted p"
    and "p = U_pass \<Longrightarrow> nxt s n \<noteq> None" and "\<And>m. p = U_release m \<Longrightarrow> nxt s n = Some m"
  shows "mcs_queue (n # q) (mcs_goto n p s)"
proof -
  let ?s = "mcs_goto n p s"
  have n: "n \<notin> set q" using assms(1) by (simp add: mcs_queue_def)
  have "chain ?s (n # q)"
    using n by (intro chain_frame [OF mcs_queueD(4) [OF assms(1)]]) (simp_all add: mcs_goto_def, metis)
  moreover have "queued p" using assms(2) by (cases p) auto
  then have "m \<in> set (n # q) \<longleftrightarrow> queued (mpc ?s m)" for m
    using mcs_queueD(2) [OF assms(1), of m] by (simp add: mcs_goto_def)
  moreover have "outside_ok ?s m" if "m \<notin> set (n # q)" for m
    using mcs_queueD(6) [OF assms(1) that] that by (simp add: outside_ok_def mcs_goto_def)
  ultimately show ?thesis
    using mcs_queueD(1,3) [OF assms(1)] assms(2-4)
    by (intro mcs_queueI) (simp_all add: mcs_goto_def)
qed

section \<open>Steps that change the queue\<close>

lemma mcs_queue_join:
  assumes Q: "mcs_queue q s" and pc: "\<not> queued (mpc s n)" and free: "nxt s n = None"
    and s': "s' = mcs_goto n (if q = [] then Holding else L_link (last q)) (s\<lparr>tail := Some n\<rparr>)"
    and lk: "q \<noteq> [] \<Longrightarrow> locked s n"
  shows "mcs_queue (q @ [n]) s'"
proof -
  have n: "n \<notin> set q" using Q pc by (simp add: mcs_queueD(2))
  have same: "nxt s' = nxt s" "locked s' = locked s" "m \<noteq> n \<Longrightarrow> mpc s' m = mpc s m" for m
    by (simp_all add: s' mcs_goto_def)
  have ch: "chain s' (q @ [n])"
  proof (cases q)
    case Nil
    then show ?thesis using free same by (simp add: chain_def)
  next
    case (Cons p r)
    have c: "chain s (p # r)" using mcs_queueD(4) [OF Q] Cons by simp
    have "chain s' (p # r)"
      by (rule chain_frame [OF c]) (use n Cons in \<open>auto simp: same(1,2) intro!: same(3)\<close>)
    moreover have "linked s' (last (p # r)) n"
      using c lk Cons same(1,2) by (simp add: linked_def chain_def s' mcs_goto_def)
    ultimately show ?thesis
      using free same(1) Cons successively_append_iff [of "linked s'" "p # r" "[n]"]
      by (simp add: chain_def)
  qed
  have hd: "head_ok s' (q @ [n])"
    using mcs_queueD(5) [OF Q] n same by (cases q) (auto simp: s' mcs_goto_def)
  have out: "outside_ok s' m" if "m \<notin> set (q @ [n])" for m
    using mcs_queueD(6) [OF Q, of m] that same by (simp add: outside_ok_def)
  have mem: "m \<in> set (q @ [n]) \<longleftrightarrow> queued (mpc s' m)" for m
    using mcs_queueD(2) [OF Q, of m] by (simp add: s' mcs_goto_def)
  have "distinct (q @ [n])" "tail s' = (if q @ [n] = [] then None else Some (last (q @ [n])))"
    using mcs_queueD(1) [OF Q] n by (simp_all add: s' mcs_goto_def)
  then show ?thesis by (rule mcs_queueI [OF _ mem _ ch hd out])
qed

lemma mcs_queue_link:
  assumes Q: "mcs_queue q s" and pc: "mpc s n = L_link p"
  shows "mcs_queue q (mcs_goto n L_spin (s\<lparr>nxt := (nxt s)(p := Some n)\<rparr>))" (is "mcs_queue q ?s")
proof -
  have "queued (mpc s n)" using pc by simp
  with Q show ?thesis
  proof (cases rule: mcs_queue_cases)
    case (head q')
    then show ?thesis using mcs_queueD(5) [OF Q] pc by simp
  next
    case (behind xs p' ys)
    have p: "p' = p" "nxt s p = None" "locked s n"
      using behind(2) pc by (auto simp: linked_def)
    note q = behind(1) [unfolded p(1)]
    have d: "distinct (xs @ p # n # ys)" using mcs_queueD(1) [OF Q] q by simp
    have c: "successively (linked s) (xs @ p # n # ys)" "nxt s (last (n # ys)) = None"
      using mcs_queueD(4) [OF Q] q by (simp_all add: chain_def split: if_splits)
    have ne: "last (n # ys) \<noteq> p"
      using d last_in_set [of "n # ys"] by fastforce
    have keep: "linked ?s a b" if "linked s a b" "a \<noteq> p" "b \<noteq> n" for a b
      using that by (simp add: linked_def mcs_goto_def)
    have "successively (linked ?s) xs" "successively (linked ?s) ys"
      using c(1) d by (auto simp: successively_append_iff successively_Cons intro: keep successively_mono)
    moreover have "linked ?s p n"
      using p d by (simp add: linked_def mcs_goto_def)
    moreover have "ys \<noteq> [] \<Longrightarrow> linked ?s n (hd ys)"
      using c(1) d by (intro keep) (auto simp: successively_append_iff successively_Cons)
    moreover have "xs \<noteq> [] \<Longrightarrow> linked ?s (last xs) p"
      using c(1) d by (intro keep) (auto simp: successively_append_iff)
    ultimately have "successively (linked ?s) (xs @ p # n # ys)"
      by (auto simp: successively_append_iff successively_Cons)
    then have "chain ?s q"
      using c(2) ne q by (simp add: chain_def mcs_goto_def split: if_splits)
    moreover have "head_ok ?s q"
      using mcs_queueD(5) [OF Q] d p(2) q by (cases xs) (auto simp: mcs_goto_def)
    moreover have "outside_ok ?s m" if "m \<notin> set q" for m
      using mcs_queueD(6) [OF Q that] that q by (auto simp: outside_ok_def mcs_goto_def)
    moreover have "m \<in> set q \<longleftrightarrow> queued (mpc ?s m)" for m
      using mcs_queueD(2) [OF Q, of m] pc by (auto simp: mcs_goto_def)
    ultimately show ?thesis
      using mcs_queueD(1,3) [OF Q] by (intro mcs_queueI) (simp_all add: mcs_goto_def)
  qed
qed

lemma mcs_queue_handover:
  assumes Q: "mcs_queue (n # q) s" and m: "nxt s n = Some m"
  shows "mcs_queue q (mcs_goto n McsOutside (s\<lparr>locked := (locked s)(m := False)\<rparr>))" (is "mcs_queue q ?s")
proof -
  have "q \<noteq> []" using mcs_queueD(4) [OF Q] m by (auto simp: chain_def)
  then obtain r where q: "q = m # r" and lk: "linked s n m" and pc: "mpc s m = L_spin"
    using mcs_queueD(4) [OF Q] m by (cases q) (auto simp: chain_def linked_def)
  have d: "distinct (n # m # r)" using mcs_queueD(1) [OF Q] q by simp
  have "chain s (m # r)" using chain_tl mcs_queueD(4) [OF Q] q by blast
  then have ch: "chain ?s q"
    unfolding q by (rule chain_frame) (use d in \<open>auto simp: mcs_goto_def\<close>)
  have hd: "head_ok ?s q"
    using pc d q by (simp add: mcs_goto_def)
  have out: "outside_ok ?s k" if "k \<notin> set q" for k
    using mcs_queueD(6) [OF Q, of k] that q by (cases "k = n") (simp_all add: outside_ok_def mcs_goto_def)
  have mem: "k \<in> set q \<longleftrightarrow> queued (mpc ?s k)" for k
    using mcs_queueD(2) [OF Q, of k] d q by (cases "k = n") (simp_all add: mcs_goto_def)
  have "distinct q" "tail ?s = (if q = [] then None else Some (last q))"
    using mcs_queueD(1,3) [OF Q] q by (simp_all add: mcs_goto_def)
  then show ?thesis by (rule mcs_queueI [OF _ mem _ ch hd out])
qed

lemma mcs_queue_drop_last:
  assumes Q: "mcs_queue (n # q) s" and t: "tail s = Some n"
  shows "q = [] \<and> mcs_queue [] (mcs_goto n McsOutside (s\<lparr>tail := None\<rparr>))" (is "_ \<and> mcs_queue [] ?s")
proof -
  have "last (n # q) = n" "n \<notin> set q"
    using mcs_queueD(1,3) [OF Q] t by auto
  then have q: "q = []" by (metis last.simps last_in_set)
  have "outside_ok ?s k" for k
    using mcs_queueD(6) [OF Q, of k] q by (cases "k = n") (simp_all add: outside_ok_def mcs_goto_def)
  moreover have "\<not> queued (mpc ?s k)" for k
    using mcs_queueD(2) [OF Q, of k] q by (cases "k = n") (simp_all add: mcs_goto_def)
  ultimately show ?thesis
    using q by (auto intro!: mcs_queueI simp: chain_def mcs_goto_def)
qed

section \<open>The lock implements the queue\<close>

lemma mcs_lock_step:
  assumes Q: "mcs_queue q s" and pc: "mpc s n \<in> {L_next, L_locked, L_swap, L_spin} \<or> (\<exists>p. mpc s n = L_link p)"
  shows "mcs_queue (q @ mcs_stores f n s) (mcs_lock n s)"
  using pc
proof (elim disjE insertE emptyE exE)
  assume p: "mpc s n = L_next"
  then have "mcs_queue q (mcs_lock n s)"
    by (intro mcs_queue_outside [OF Q, of n]) (simp_all add: mcs_lock_def mcs_goto_def outside_ok_def)
  then show ?thesis using p by (simp add: mcs_stores_def)
next
  assume p: "mpc s n = L_locked"
  then have "nxt s n = None"
    using mcs_queueD(2,6) [OF Q, of n] by (simp add: outside_ok_def)
  with p have "mcs_queue q (mcs_lock n s)"
    by (intro mcs_queue_outside [OF Q, of n]) (simp_all add: mcs_lock_def mcs_goto_def outside_ok_def)
  then show ?thesis using p by (simp add: mcs_stores_def)
next
  assume p: "mpc s n = L_swap"
  then have o: "nxt s n = None" "locked s n"
    using mcs_queueD(2,6) [OF Q, of n] by (auto simp: outside_ok_def)
  have "mcs_queue (q @ [n]) (mcs_lock n s)"
    by (rule mcs_queue_join [OF Q _ o(1)])
      (use p o mcs_queueD(3) [OF Q] in \<open>simp_all add: mcs_lock_def\<close>)
  then show ?thesis using p by (simp add: mcs_stores_def)
next
  assume p: "mpc s n = L_spin"
  show ?thesis
  proof (cases "locked s n")
    case True
    then have "mcs_lock n s = s"
      using p by (simp add: mcs_lock_def mcs_goto_def fun_upd_idem)
    then show ?thesis using Q p by (simp add: mcs_stores_def)
  next
    case False
    with p have "granted (mpc s n) \<or> mpc s n = L_spin \<and> \<not> locked s n" by simp
    then obtain q' where q: "q = n # q'" by (rule mcs_granted_head [OF Q])
    have "mcs_lock n s = mcs_goto n Holding s" using p False by (simp add: mcs_lock_def)
    moreover have "mcs_queue (n # q') (mcs_goto n Holding s)"
      by (rule mcs_queue_head_goto) (use Q q in simp_all)
    ultimately show ?thesis using q p by (simp add: mcs_stores_def)
  qed
next
  fix p assume p: "mpc s n = L_link p"
  have "mcs_queue q (mcs_lock n s)"
    using mcs_queue_link [OF Q p] p by (simp add: mcs_lock_def)
  then show ?thesis using p by (simp add: mcs_stores_def)
qed

lemma mcs_try_lock_step:
  assumes Q: "mcs_queue q s" and pc: "mpc s n \<in> {T_next, T_locked, T_cas}"
  shows "mcs_queue (q @ mcs_stores f n s) (mcs_try_lock f n s)"
proof (cases "mpc s n = T_cas \<and> tail s = None \<and> \<not> f")
  case True
  then have o: "nxt s n = None" and q: "q = []"
    using mcs_queueD(2,6) [OF Q, of n] mcs_queueD(3) [OF Q]
    by (auto simp: outside_ok_def split: if_splits)
  have "mcs_queue (q @ [n]) (mcs_try_lock f n s)"
    by (rule mcs_queue_join [OF Q _ o]) (use True q in \<open>simp_all add: mcs_try_lock_def\<close>)
  then show ?thesis using True by (simp add: mcs_stores_def)
next
  case False
  then have "mcs_queue q (mcs_try_lock f n s)"
    using pc mcs_queueD(6) [OF Q, of n] mcs_queueD(2) [OF Q, of n]
    by (intro mcs_queue_outside [OF Q, of n])
      (auto simp: mcs_try_lock_def mcs_goto_def outside_ok_def)
  then show ?thesis using False pc by (auto simp: mcs_stores_def)
qed

lemma mcs_unlock_step:
  assumes Q: "mcs_queue q s" and pc: "granted (mpc s n)" "mpc s n \<noteq> Holding"
  shows "\<exists>q'. q = n # q' \<and> (mcs_queue q (mcs_unlock f n s) \<and> granted (mpc (mcs_unlock f n s) n)
    \<or> mcs_queue q' (mcs_unlock f n s) \<and> \<not> granted (mpc (mcs_unlock f n s) n))"
proof -
  obtain q' where q: "q = n # q'" using mcs_granted_head [OF Q] pc by blast
  note Q' = Q [unfolded q]
  have head: "(mpc s n = U_pass \<longrightarrow> nxt s n \<noteq> None) \<and> (\<forall>m. mpc s n = U_release m \<longrightarrow> nxt s n = Some m)"
    using mcs_queueD(5) [OF Q'] by simp
  consider (stay) p where "mcs_unlock f n s = mcs_goto n p s" "granted p"
      "p = U_pass \<longrightarrow> nxt s n \<noteq> None" "\<forall>m. p = U_release m \<longrightarrow> nxt s n = Some m"
    | (last) "mcs_unlock f n s = mcs_goto n McsOutside (s\<lparr>tail := None\<rparr>)" "tail s = Some n"
    | (pass) m where "mcs_unlock f n s = mcs_goto n McsOutside (s\<lparr>locked := (locked s)(m := False)\<rparr>)"
      "nxt s n = Some m"
    using pc head
    by (cases "mpc s n"; cases "tail s = Some n \<and> \<not> f")
      (auto simp: mcs_unlock_def split: option.splits if_splits)
  then show ?thesis
  proof cases
    case stay
    then show ?thesis
      using mcs_queue_head_goto [OF Q' stay(2)] q by (simp add: mcs_goto_def)
  next
    case last
    then show ?thesis
      using mcs_queue_drop_last [OF Q' last(2)] q by (simp add: mcs_goto_def)
  next
    case pass
    then show ?thesis
      using mcs_queue_handover [OF Q' pass(2)] q by (simp add: mcs_goto_def)
  qed
qed

lemma mcs_call_step:
  assumes Q: "mcs_queue q s" and pc: "mcs_may_call (mpc s n) p"
  shows "mcs_queue q (mcs_goto n p s)"
proof (cases "mpc s n = Holding")
  case True
  then obtain q' where q: "q = n # q'" using mcs_granted_head [OF Q, of n] by auto
  have "mcs_queue (n # q') (mcs_goto n p s)"
    by (rule mcs_queue_head_goto) (use Q q True pc in simp_all)
  then show ?thesis using q by simp
next
  case False
  then have "mpc s n = McsOutside \<and> (p = L_next \<or> p = T_next)"
    using pc by (cases "mpc s n") auto
  then show ?thesis
    by (intro mcs_queue_outside [OF Q, of n]) (auto simp: mcs_goto_def outside_ok_def)
qed

lemma mcs_exec_other: "m \<noteq> n \<Longrightarrow> mpc (mcs_exec f n s) m = mpc s m"
  by (cases "mpc s n")
    (simp_all add: mcs_exec_def mcs_lock_def mcs_try_lock_def mcs_unlock_def mcs_goto_def)

text \<open>An access of a thread that has not the lock can only join the queue, one of a thread that has it can only leave.\<close>

lemma mcs_access_waiting:
  assumes "mcs_queue q s" and "mpc s n \<noteq> McsOutside" and "\<not> granted (mpc s n)"
  shows "mcs_queue (q @ mcs_stores f n s) (mcs_exec f n s)"
  using assms(2,3) mcs_lock_step [OF assms(1), of n f] mcs_try_lock_step [OF assms(1), of n f]
  by (cases "mpc s n") (simp_all add: mcs_exec_def)

lemma mcs_access_granted:
  assumes "mcs_queue q s" and "granted (mpc s n)" and "mpc s n \<noteq> Holding"
  shows "mcs_stores f n s = [] \<and> (\<exists>q'. q = n # q' \<and> (mcs_queue q (mcs_exec f n s) \<and> granted (mpc (mcs_exec f n s) n)
    \<or> mcs_queue q' (mcs_exec f n s) \<and> \<not> granted (mpc (mcs_exec f n s) n)))"
  using assms(2,3) mcs_unlock_step [OF assms, of f]
  by (cases "mpc s n") (simp_all add: mcs_exec_def mcs_stores_def)

lemma mcs_step_queue:
  assumes "mcs_queue q s" and "mcs_step s s'"
  shows "\<exists>q'. mcs_queue q' s'"
  using assms(2)
proof cases
  case (mcs_access n f)
  then show ?thesis
    using mcs_access_waiting [OF assms(1), of n f] mcs_access_granted [OF assms(1), of n f]
    by (cases "granted (mpc s n)") auto
next
  case (mcs_call n p)
  then show ?thesis using mcs_call_step [OF assms(1)] by blast
qed

lemma mcs_queue_new: "mcs_queue [] McsLock_new"
  by (simp add: McsLock_new_def mcs_queue_def chain_def outside_ok_def)

interpretation mcs: mutual_exclusion "\<lambda>s. s = McsLock_new" mcs_step "\<lambda>s. \<exists>q. mcs_queue q s"
  "\<lambda>s n. granted (mpc s n)"
proof
  show "\<exists>q. mcs_queue q s" if "s = McsLock_new" for s
    using that mcs_queue_new by blast
  show "\<exists>q. mcs_queue q s'" if "\<exists>q. mcs_queue q s" "mcs_step s s'" for s s'
    using that mcs_step_queue by blast
  show "a = b" if "\<exists>q. mcs_queue q s" "granted (mpc s a)" "granted (mpc s b)" for s a b
    using that by (metis mcs_granted_head list.inject)
qed

section \<open>The history of a run\<close>

text \<open>
  The threads that swapped split into those that are gone and the queue of the others, and the lock
  has been granted to those that are gone and, if it is held, to the head of the queue.
\<close>

definition mcs_history :: "nat list \<Rightarrow> nat list \<Rightarrow> mcs_state \<Rightarrow> bool" where
  "mcs_history sw gr s \<longleftrightarrow> (\<exists>gone q. sw = gone @ q \<and> mcs_queue q s \<and>
     (gr = gone \<and> (\<forall>n. \<not> granted (mpc s n)) \<or>
      q \<noteq> [] \<and> gr = gone @ [hd q] \<and> (\<forall>n. granted (mpc s n) \<longleftrightarrow> n = hd q)))"

lemma mcs_granted_hd:
  assumes "mcs_queue q s" and "granted (mpc s n)"
  shows "q \<noteq> [] \<and> hd q = n \<and> (\<forall>m. granted (mpc s m) \<longleftrightarrow> m = n)"
  using mcs_granted_head [OF assms(1)] assms(2) by (metis list.distinct(1) list.sel(1))

lemma mcs_historyI:
  assumes "sw = gone @ q" and "mcs_queue q s"
    and "gr = gone @ (if q \<noteq> [] \<and> granted (mpc s (hd q)) then [hd q] else [])"
  shows "mcs_history sw gr s"
proof (cases "q \<noteq> [] \<and> granted (mpc s (hd q))")
  case True
  then show ?thesis
    using assms mcs_granted_hd [OF assms(2), of "hd q"] unfolding mcs_history_def by auto
next
  case False
  then have "\<not> granted (mpc s n)" for n using mcs_granted_hd [OF assms(2), of n] by auto
  then show ?thesis using assms False unfolding mcs_history_def by auto
qed

lemma mcs_historyE:
  assumes "mcs_history sw gr s"
  obtains gone q where "sw = gone @ q" "mcs_queue q s"
    "gr = gone @ (if q \<noteq> [] \<and> granted (mpc s (hd q)) then [hd q] else [])"
  using assms unfolding mcs_history_def by auto

lemma mcs_history_waiting:
  assumes h: "mcs_history sw gr s" and pc: "mpc s n \<noteq> McsOutside" "\<not> granted (mpc s n)"
  shows "mcs_history (sw @ mcs_stores f n s) (gr @ mcs_enters n s (mcs_exec f n s)) (mcs_exec f n s)"
proof -
  let ?s = "mcs_exec f n s"
  from h obtain gone q where q: "sw = gone @ q" "mcs_queue q s"
    "gr = gone @ (if q \<noteq> [] \<and> granted (mpc s (hd q)) then [hd q] else [])" by (rule mcs_historyE)
  let ?q = "q @ mcs_stores f n s"
  have Q: "mcs_queue ?q ?s" by (rule mcs_access_waiting [OF q(2) pc])
  show ?thesis
  proof (rule mcs_historyI [OF _ Q])
    show "sw @ mcs_stores f n s = gone @ ?q" using q(1) by simp
    show "gr @ mcs_enters n s ?s = gone @ (if ?q \<noteq> [] \<and> granted (mpc ?s (hd ?q)) then [hd ?q] else [])"
    proof (cases "granted (mpc ?s n)")
      case True
      then have n: "?q \<noteq> []" "hd ?q = n" using mcs_granted_hd [OF Q True] by auto
      then have "\<not> (q \<noteq> [] \<and> granted (mpc s (hd q)))" using pc(2) by (cases q) auto
      then show ?thesis using q(3) n True pc(2) by (simp add: mcs_enters_def)
    next
      case False
      have i: "(?q \<noteq> [] \<and> granted (mpc ?s (hd ?q))) = (q \<noteq> [] \<and> granted (mpc s (hd q)))"
      proof
        assume g: "q \<noteq> [] \<and> granted (mpc s (hd q))"
        then have "hd q \<noteq> n" using pc(2) by auto
        with g show "?q \<noteq> [] \<and> granted (mpc ?s (hd ?q))" by (simp add: mcs_exec_other)
      next
        assume g: "?q \<noteq> [] \<and> granted (mpc ?s (hd ?q))"
        then have "hd ?q \<noteq> n" using False by auto
        with g have g': "granted (mpc s (hd ?q))" using mcs_exec_other [of "hd ?q" n f s] by simp
        from mcs_granted_hd [OF q(2) this] have "q \<noteq> []" by simp
        with g' show "q \<noteq> [] \<and> granted (mpc s (hd q))" by simp
      qed
      have "mcs_enters n s ?s = []" using False by (simp add: mcs_enters_def)
      then show ?thesis
        unfolding i using q(3) by (cases "q \<noteq> [] \<and> granted (mpc s (hd q))") (simp_all only: append_Nil2 hd_append2 simp_thms if_True if_False)
    qed
  qed
qed

lemma mcs_history_granted:
  assumes h: "mcs_history sw gr s" and pc: "granted (mpc s n)" "mpc s n \<noteq> Holding"
  shows "mcs_history (sw @ mcs_stores f n s) (gr @ mcs_enters n s (mcs_exec f n s)) (mcs_exec f n s)"
proof -
  let ?s = "mcs_exec f n s"
  from h obtain gone q where q: "sw = gone @ q" "mcs_queue q s"
    "gr = gone @ (if q \<noteq> [] \<and> granted (mpc s (hd q)) then [hd q] else [])" by (rule mcs_historyE)
  from mcs_access_granted [OF q(2) pc, of f] obtain q' where st: "mcs_stores f n s = []" and q': "q = n # q'"
    and s': "mcs_queue q ?s \<and> granted (mpc ?s n) \<or> mcs_queue q' ?s \<and> \<not> granted (mpc ?s n)" by blast
  have en: "mcs_enters n s ?s = []" using pc(1) by (simp add: mcs_enters_def)
  from s' show ?thesis
  proof (elim disjE conjE)
    assume "mcs_queue q ?s" "granted (mpc ?s n)"
    then show ?thesis using q q' pc(1) st en by (intro mcs_historyI [of _ gone q]) simp_all
  next
    assume "mcs_queue q' ?s" "\<not> granted (mpc ?s n)"
    moreover have "\<not> granted (mpc ?s m)" if "m \<noteq> n" for m
      using mcs_granted_hd [OF q(2) pc(1)] that by (simp add: mcs_exec_other)
    ultimately show ?thesis
      using q q' pc(1) st en by (intro mcs_historyI [of _ "gone @ [n]" q']) (auto, metis)
  qed
qed

lemma mcs_history_call:
  assumes h: "mcs_history sw gr s" and pc: "mcs_may_call (mpc s n) p"
  shows "mcs_history sw gr (mcs_goto n p s)"
proof -
  from h obtain gone q where q: "sw = gone @ q" "mcs_queue q s"
    "gr = gone @ (if q \<noteq> [] \<and> granted (mpc s (hd q)) then [hd q] else [])" by (rule mcs_historyE)
  have "granted (mpc (mcs_goto n p s) m) = granted (mpc s m)" for m
    using pc by (cases "mpc s n") (auto simp: mcs_goto_def)
  then show ?thesis
    using q mcs_call_step [OF q(2) pc] by (intro mcs_historyI [of _ gone q]) simp_all
qed

lemma mcs_run_history: "mcs_run sw gr s \<Longrightarrow> mcs_history sw gr s"
proof (induction rule: mcs_run.induct)
  case run_new
  show ?case by (rule mcs_historyI [of _ "[]" "[]"]) (simp_all add: mcs_queue_new)
next
  case (run_access sw gr s n f)
  then show ?case
    using mcs_history_waiting [of sw gr s n f] mcs_history_granted [of sw gr s n f]
    by (cases "granted (mpc s n)") simp_all
next
  case (run_call sw gr s n p)
  then show ?case using mcs_history_call by blast
qed

text \<open>The runs are the runs of the step relation, so every interleaving has a history.\<close>

lemma mcs_run_iff_reachable: "(\<exists>sw gr. mcs_run sw gr s) \<longleftrightarrow> mcs_step\<^sup>*\<^sup>* McsLock_new s"
proof
  show "mcs_step\<^sup>*\<^sup>* McsLock_new s" if "\<exists>sw gr. mcs_run sw gr s"
  proof -
    from that obtain sw gr where "mcs_run sw gr s" by blast
    then show ?thesis
      by induction (blast intro: rtranclp.rtrancl_into_rtrancl mcs_step.intros)+
  qed
  show "\<exists>sw gr. mcs_run sw gr s" if "mcs_step\<^sup>*\<^sup>* McsLock_new s"
    using that
  proof (induction rule: rtranclp_induct)
    case (step s s')
    from step(2) show ?case
      by cases (use step.IH in \<open>blast intro: mcs_run.intros\<close>)+
  qed (blast intro: mcs_run.intros)
qed

text \<open>
  C25: the MCS lock is first come, first served.  In every run from a new lock, let \<open>sw\<close> be the threads
  in the order in which they stored their node into \<open>tail\<close> and \<open>gr\<close> the threads in the order in which
  the lock was granted to them.  Then \<open>sw\<close> is a list \<open>gone\<close> followed by the queue the nodes form in
  memory.  Either no thread has the lock and it was granted exactly to \<open>gone\<close>, or exactly the head of
  the queue has it and it was granted to \<open>gone\<close> and then to the head.  So the grants are in the order
  of the swaps, no swap is passed over, and no two threads have the lock.
\<close>
theorem McsLock_is_fifo:
  assumes "mcs_run sw gr s"
  shows "\<exists>gone q. sw = gone @ q \<and> mcs_queue q s \<and>
     (gr = gone \<and> (\<forall>n. \<not> granted (mpc s n)) \<or>
      q \<noteq> [] \<and> gr = gone @ [hd q] \<and> (\<forall>n. granted (mpc s n) \<longleftrightarrow> n = hd q))"
  using mcs_run_history [OF assms] by (simp only: mcs_history_def)

text \<open>Thread 1 takes the lock, thread 2 swaps and queues up behind it.\<close>

definition mcs_demo1 :: mcs_state where
  "mcs_demo1 = \<lparr>tail = Some 1, nxt = (\<lambda>_. None)(1 := None), locked = (\<lambda>_. False)(1 := True),
     mpc = (\<lambda>_. McsOutside)(1 := Holding)\<rparr>"

definition mcs_demo :: mcs_state where
  "mcs_demo = \<lparr>tail = Some 2, nxt = (\<lambda>_. None)(1 := None, 2 := None), locked = (\<lambda>_. False)(1 := True, 2 := True),
     mpc = (\<lambda>_. McsOutside)(1 := Holding, 2 := L_link 1)\<rparr>"

lemmas mcs_eval = mcs_goto_def mcs_exec_def mcs_lock_def McsLock_new_def mcs_stores_def mcs_enters_def
  mcs_demo1_def mcs_demo_def

lemma mcs_lock_run:
  assumes "mcs_run sw gr s" and "mpc s n = McsOutside"
    and "s' = mcs_goto n (case tail s of None \<Rightarrow> Holding | Some prev \<Rightarrow> L_link prev)
      (s\<lparr>nxt := (nxt s)(n := None), locked := (locked s)(n := True), tail := Some n\<rparr>)"
    and "g = (if tail s = None then [n] else [])"
  shows "mcs_run (sw @ [n]) (gr @ g) s'"
proof -
  let ?a = "mcs_goto n L_next s" let ?b = "mcs_exec False n ?a" let ?c = "mcs_exec False n ?b"
  have "mcs_run sw gr ?a" by (rule run_call [OF assms(1)]) (simp add: assms(2))
  from run_access [OF this, of n False] have "mcs_run sw gr ?b" by (simp add: mcs_eval)
  from run_access [OF this, of n False] have "mcs_run sw gr ?c" by (simp add: mcs_eval)
  from run_access [OF this, of n False] show ?thesis
    using assms(3,4) by (simp add: mcs_eval split: option.splits)
qed

lemma mcs_demo_run: "mcs_run [1, 2] [1] mcs_demo"
proof -
  have "mcs_run ([] @ [1]) ([] @ [1]) mcs_demo1"
    by (rule mcs_lock_run [OF run_new]) (simp_all add: mcs_eval)
  from mcs_lock_run [OF this, of 2 mcs_demo "[]"] show ?thesis by (simp add: mcs_eval fun_upd_twist)
qed

theorem McsLock_is_fifo_witness:
  "mcs_run [1, 2] [1] mcs_demo \<and> mcs_queue [1, 2] mcs_demo \<and> (\<forall>n. granted (mpc mcs_demo n) \<longleftrightarrow> n = 1)"
proof -
  have g: "granted (mpc mcs_demo 1)" by (simp add: mcs_demo_def)
  from McsLock_is_fifo [OF mcs_demo_run] obtain gone q where "[1, 2] = gone @ q" "mcs_queue q mcs_demo"
    "q \<noteq> []" "[1] = gone @ [hd q]" "\<forall>n. granted (mpc mcs_demo n) \<longleftrightarrow> n = hd q"
    using g by blast
  then show ?thesis using mcs_demo_run by simp
qed

section \<open>Hand-over\<close>

lemma mcs_exec_link:
  assumes Q: "mcs_queue (p # n # q) s"
  shows "mcs_queue (p # n # q) (mcs_exec f n s)"
    and "mpc (mcs_exec f n s) n = L_spin" "nxt (mcs_exec f n s) p = Some n"
    and "mpc (mcs_exec f n s) p = mpc s p" "tail (mcs_exec f n s) = tail s"
proof -
  have d: "p \<noteq> n" using mcs_queueD(1) [OF Q] by simp
  have lk: "linked s p n" using mcs_queueD(4) [OF Q] by (simp add: chain_def)
  then have lock: "mcs_exec f n s = mcs_lock n s"
    by (auto simp: linked_def mcs_exec_def)
  show "mpc (mcs_exec f n s) n = L_spin" "nxt (mcs_exec f n s) p = Some n"
    "mpc (mcs_exec f n s) p = mpc s p" "tail (mcs_exec f n s) = tail s"
    using lk d by (auto simp: lock linked_def mcs_lock_def mcs_goto_def)
  consider "mpc s n = L_link p" | "mcs_lock n s = s"
    using lk by (auto simp: linked_def mcs_lock_def mcs_goto_def fun_upd_idem)
  then show "mcs_queue (p # n # q) (mcs_exec f n s)"
    using Q mcs_queue_link [OF Q, of n p] by cases (simp_all add: lock mcs_lock_def)
qed

text \<open>
  C26: an unlocking thread hands the lock on.  Once the holder has called \<open>unlock\<close> and another thread
  stands behind it in the queue, one access of that thread, at most five accesses of the holder
  and one more access of the thread bring the thread into the critical section, whatever the
  weak compare-and-exchange answers and wherever the two stood.
\<close>
theorem McsLock_hands_over:
  assumes "mcs_queue (p # n # q) s" and "granted (mpc s p)" and "mpc s p \<noteq> Holding"
  shows "\<exists>k \<le> 5. mpc (mcs_exec f n ((mcs_exec f p ^^ k) (mcs_exec f n s))) n = Holding"
proof -
  define u where "u = mcs_exec f n s"
  have Q: "mcs_queue (p # n # q) u" and n: "mpc u n = L_spin" "nxt u p = Some n"
    and p: "mpc u p = mpc s p"
    using mcs_exec_link [OF assms(1)] by (simp_all add: u_def)
  have d: "p \<noteq> n" and t: "tail u \<noteq> Some p"
    using mcs_queueD(1,3) [OF Q] by (auto split: if_splits dest: last_in_set)
  have r: "mpc u p = U_release m \<Longrightarrow> m = n" for m
    using mcs_queueD(5) [OF Q] n by simp
  note ev = mcs_exec_def mcs_unlock_def mcs_lock_def mcs_goto_def
  have "\<exists>k \<le> 5. mpc (mcs_exec f n ((mcs_exec f p ^^ k) u)) n = Holding"
  proof (cases "mpc u p")
    case U_load
    then show ?thesis using n d t by (intro exI [of _ 3]) (simp add: ev eval_nat_numeral)
  next
    case U_cas
    then show ?thesis using n d t by (intro exI [of _ 4]) (simp add: ev eval_nat_numeral)
  next
    case U_wait
    then show ?thesis using n d t by (intro exI [of _ 3]) (simp add: ev eval_nat_numeral)
  next
    case U_pass
    then show ?thesis using n d t by (intro exI [of _ 2]) (simp add: ev eval_nat_numeral)
  next
    case (U_release m)
    then show ?thesis using n d t r by (intro exI [of _ 1]) (simp add: ev)
  qed (use assms p in simp_all)
  then show ?thesis by (simp only: u_def)
qed

definition mcs_demo2 :: mcs_state where
  "mcs_demo2 = mcs_exec False 2 (mcs_exec False 2 (mcs_exec False 2 (mcs_goto 2 L_next
     (mcs_goto 1 U_load mcs_demo1))))"

theorem McsLock_hands_over_witness:
  "\<exists>k \<le> 5. mpc (mcs_exec True 2 ((mcs_exec True 1 ^^ k) (mcs_exec True 2 mcs_demo2))) 2 = Holding"
proof (rule McsLock_hands_over)
  show "mcs_queue [1, 2] mcs_demo2"
    by (auto simp: mcs_queue_def chain_def linked_def outside_ok_def mcs_demo2_def mcs_eval)
  show "granted (mpc mcs_demo2 1)" "mpc mcs_demo2 1 \<noteq> Holding"
    by (simp_all add: mcs_demo2_def mcs_eval)
qed

end
