(* ===== verification/SpinLock.thy ===== *)
theory SpinLock
  imports Protocol VF_Prelude
begin

text \<open>
  The spinlocks: \<open>SpinLock\<close> of \<open>src/kernel/atomic/rust/src/spinlock.rs\<close> and \<open>Spinlock\<close> of
  \<open>src/kernel/atomic/cpp/Spinlock.cpp\<close>, one step per atomic access, and the static tables of
  \<open>src/kernel/atomic/rust/src/ffi.rs\<close> the C side takes its locks from.  The processor a thread
  runs on (\<open>lapic_get_id\<close>) and the time stamps (\<open>rdtsc\<close>) are arguments.  The delays between
  two attempts (\<open>adaptive_pause\<close>, \<open>linear_backoff\<close>, \<open>Yield\<close>) only take time and have no step.
\<close>

section \<open>The Rust spinlock\<close>

record SpinLock =
  sl_locked :: bool
  contention_count :: u32
  owner_cpu :: u32
  acquire_time :: u64
  lock_order :: u32

definition SpinLock_new_with_order :: "u32 \<Rightarrow> SpinLock" where
  "SpinLock_new_with_order order =
     \<lparr>sl_locked = False, contention_count = 0, owner_cpu = - 1, acquire_time = 0, lock_order = order\<rparr>"

definition SpinLock_new :: SpinLock where
  "SpinLock_new = SpinLock_new_with_order 0"

definition DEADLOCK_TIMEOUT_CYCLES :: u64 where "DEADLOCK_TIMEOUT_CYCLES = 100000000"
definition MAX_HOLD_TIME_CYCLES :: u64 where "MAX_HOLD_TIME_CYCLES = 50000000"

text \<open>
  The argument of the states of \<open>lock\<close> is the time stamp \<open>start\<close> taken on entry; \<open>Dl\<close> are the
  accesses of \<open>handle_potential_deadlock\<close>.
\<close>

datatype spin_pc = SpOutside
  | Sp_load u64 | Sp_swap u64 | Sp_owner u64 | Sp_time u64 | Sp_clock u64
  | Dl_owner u64 | Dl_time u64 u32 | Dl_add u64
  | SpHolding
  | Su_owner | Su_time | Su_unlock | Su_load | Su_store u32
  | St_swap | St_owner | St_time
  | SpPanicked

record spin_state =
  sl :: SpinLock
  spc :: "nat \<Rightarrow> spin_pc"

definition sp_goto :: "nat \<Rightarrow> spin_pc \<Rightarrow> spin_state \<Rightarrow> spin_state" where
  "sp_goto t p s = s\<lparr>spc := (spc s)(t := p)\<rparr>"

definition sp_with :: "(SpinLock \<Rightarrow> SpinLock) \<Rightarrow> spin_state \<Rightarrow> spin_state" where
  "sp_with f s = s\<lparr>sl := f (sl s)\<rparr>"

definition try_lock_fast :: "u32 \<Rightarrow> nat \<Rightarrow> spin_state \<Rightarrow> spin_state" where
  "try_lock_fast cpu t s = (case spc s t of
     Sp_load start \<Rightarrow> sp_goto t (if sl_locked (sl s) then Sp_clock start else Sp_swap start) s
   | Sp_swap start \<Rightarrow> sp_goto t (if sl_locked (sl s) then Sp_clock start else Sp_owner start)
                        (sp_with (sl_locked_update (\<lambda>_. True)) s)
   | Sp_owner start \<Rightarrow> sp_goto t (Sp_time start) (sp_with (owner_cpu_update (\<lambda>_. cpu)) s)
   | Sp_time start \<Rightarrow> sp_goto t SpHolding (sp_with (acquire_time_update (\<lambda>_. start)) s)
   | _ \<Rightarrow> s)"

definition handle_potential_deadlock :: "u32 \<Rightarrow> u64 \<Rightarrow> nat \<Rightarrow> spin_state \<Rightarrow> spin_state" where
  "handle_potential_deadlock cpu now t s = (case spc s t of
     Dl_owner start \<Rightarrow> sp_goto t (Dl_time start (owner_cpu (sl s))) s
   | Dl_time start own \<Rightarrow>
       if own = cpu then sp_goto t (Sp_load start) s
       else if acquire_time (sl s) > 0 \<and> now - acquire_time (sl s) > MAX_HOLD_TIME_CYCLES
       then sp_goto t SpPanicked s
       else sp_goto t (Dl_add start) s
   | Dl_add start \<Rightarrow> sp_goto t (Sp_load start) (sp_with (contention_count_update (\<lambda>c. c + 1)) s)
   | _ \<Rightarrow> s)"

definition spin_lock :: "u32 \<Rightarrow> u64 \<Rightarrow> nat \<Rightarrow> spin_state \<Rightarrow> spin_state" where
  "spin_lock cpu now t s = (case spc s t of
     Sp_clock start \<Rightarrow>
       sp_goto t (if now - start > DEADLOCK_TIMEOUT_CYCLES then Dl_owner start else Sp_load start) s
   | Dl_owner _ \<Rightarrow> handle_potential_deadlock cpu now t s
   | Dl_time _ _ \<Rightarrow> handle_potential_deadlock cpu now t s
   | Dl_add _ \<Rightarrow> handle_potential_deadlock cpu now t s
   | _ \<Rightarrow> try_lock_fast cpu t s)"

definition saturating_pred :: "u32 \<Rightarrow> u32" where
  "saturating_pred c = (if c = 0 then 0 else c - 1)"

definition spin_unlock :: "nat \<Rightarrow> spin_state \<Rightarrow> spin_state" where
  "spin_unlock t s = (case spc s t of
     Su_owner \<Rightarrow> sp_goto t Su_time (sp_with (owner_cpu_update (\<lambda>_. - 1)) s)
   | Su_time \<Rightarrow> sp_goto t Su_unlock (sp_with (acquire_time_update (\<lambda>_. 0)) s)
   | Su_unlock \<Rightarrow> sp_goto t Su_load (sp_with (sl_locked_update (\<lambda>_. False)) s)
   | Su_load \<Rightarrow> sp_goto t (if contention_count (sl s) > 0
                          then Su_store (contention_count (sl s)) else SpOutside) s
   | Su_store c \<Rightarrow> sp_goto t SpOutside (sp_with (contention_count_update (\<lambda>_. saturating_pred c)) s)
   | _ \<Rightarrow> s)"

definition spin_try_lock :: "u32 \<Rightarrow> u64 \<Rightarrow> nat \<Rightarrow> spin_state \<Rightarrow> spin_state" where
  "spin_try_lock cpu now t s = (case spc s t of
     St_swap \<Rightarrow> sp_goto t (if sl_locked (sl s) then SpOutside else St_owner)
                  (sp_with (sl_locked_update (\<lambda>_. True)) s)
   | St_owner \<Rightarrow> sp_goto t St_time (sp_with (owner_cpu_update (\<lambda>_. cpu)) s)
   | St_time \<Rightarrow> sp_goto t SpHolding (sp_with (acquire_time_update (\<lambda>_. now)) s)
   | _ \<Rightarrow> s)"

fun in_unlock :: "spin_pc \<Rightarrow> bool" where
  "in_unlock Su_owner = True"
| "in_unlock Su_time = True"
| "in_unlock Su_unlock = True"
| "in_unlock Su_load = True"
| "in_unlock (Su_store c) = True"
| "in_unlock _ = False"

definition spin_exec :: "u32 \<Rightarrow> u64 \<Rightarrow> nat \<Rightarrow> spin_state \<Rightarrow> spin_state" where
  "spin_exec cpu now t s =
    (if in_unlock (spc s t) then spin_unlock t s
     else if spc s t \<in> {St_swap, St_owner, St_time} then spin_try_lock cpu now t s
     else spin_lock cpu now t s)"

inductive spin_step :: "(nat \<Rightarrow> u32) \<Rightarrow> spin_state \<Rightarrow> spin_state \<Rightarrow> bool" for cpu where
  spin_access: "spc s t \<noteq> SpOutside \<Longrightarrow> spc s t \<noteq> SpHolding \<Longrightarrow> spc s t \<noteq> SpPanicked
     \<Longrightarrow> spin_step cpu s (spin_exec (cpu t) now t s)"
| spin_enter: "spc s t = SpOutside \<Longrightarrow> p = Sp_load now \<or> p = St_swap \<Longrightarrow> spin_step cpu s (sp_goto t p s)"
| spin_leave: "spc s t = SpHolding \<Longrightarrow> spin_step cpu s (sp_goto t Su_owner s)"

definition spin_init :: "spin_state \<Rightarrow> bool" where
  "spin_init s \<longleftrightarrow> (\<exists>k. sl s = SpinLock_new_with_order k) \<and> spc s = (\<lambda>_. SpOutside)"

section \<open>The C++ spinlock\<close>

datatype cxx_pc = CxOutside | Cx_tas | Cx_load | Cx_try | CxHolding

record cxx_state =
  cxx_locked :: bool
  cpc :: "nat \<Rightarrow> cxx_pc"

definition cxx_goto :: "nat \<Rightarrow> cxx_pc \<Rightarrow> cxx_state \<Rightarrow> cxx_state" where
  "cxx_goto t p s = s\<lparr>cpc := (cpc s)(t := p)\<rparr>"

definition Spinlock_lock :: "nat \<Rightarrow> cxx_state \<Rightarrow> cxx_state" where
  "Spinlock_lock t s = (case cpc s t of
     Cx_tas \<Rightarrow> cxx_goto t (if cxx_locked s then Cx_load else CxHolding) (s\<lparr>cxx_locked := True\<rparr>)
   | Cx_load \<Rightarrow> cxx_goto t (if cxx_locked s then Cx_load else Cx_tas) s
   | _ \<Rightarrow> s)"

definition Spinlock_try_lock :: "nat \<Rightarrow> cxx_state \<Rightarrow> cxx_state" where
  "Spinlock_try_lock t s =
     cxx_goto t (if cxx_locked s then CxOutside else CxHolding) (s\<lparr>cxx_locked := True\<rparr>)"

definition Spinlock_unlock :: "nat \<Rightarrow> cxx_state \<Rightarrow> cxx_state" where
  "Spinlock_unlock t s = cxx_goto t CxOutside (s\<lparr>cxx_locked := False\<rparr>)"

inductive cxx_step :: "cxx_state \<Rightarrow> cxx_state \<Rightarrow> bool" where
  cxx_call: "cpc s t = CxOutside \<Longrightarrow> p = Cx_tas \<or> p = Cx_try \<Longrightarrow> cxx_step s (cxx_goto t p s)"
| cxx_lock: "cpc s t = Cx_tas \<or> cpc s t = Cx_load \<Longrightarrow> cxx_step s (Spinlock_lock t s)"
| cxx_try: "cpc s t = Cx_try \<Longrightarrow> cxx_step s (Spinlock_try_lock t s)"
| cxx_unlock: "cpc s t = CxHolding \<Longrightarrow> cxx_step s (Spinlock_unlock t s)"

section \<open>The tables of locks\<close>

text \<open>
  A table is the list of its \<open>USED\<close> flags; a pointer into it is an index.  A table hands out its
  first free entry; freeing looks at the first entries only, up to the bound in the code.
\<close>

fun first_free :: "bool list \<Rightarrow> nat option" where
  "first_free [] = None"
| "first_free (u # us) = (if \<not> u then Some 0 else map_option Suc (first_free us))"

definition slot_new :: "bool list \<Rightarrow> nat option \<times> bool list" where
  "slot_new us = (case first_free us of None \<Rightarrow> (None, us) | Some i \<Rightarrow> (Some i, us[i := True]))"

definition slot_free :: "nat \<Rightarrow> nat option \<Rightarrow> bool list \<Rightarrow> bool list" where
  "slot_free bound p us = (case p of None \<Rightarrow> us | Some i \<Rightarrow> if i < bound then us[i := False] else us)"

record lock_tables =
  SPINLOCK_STORAGE :: "SpinLock list"
  SPINLOCK_USED :: "bool list"
  MCS_LOCK_USED :: "bool list"
  MCS_NODE_USED :: "bool list"
  RWLOCK_USED :: "bool list"

definition tables_init :: lock_tables where
  "tables_init = \<lparr>SPINLOCK_STORAGE = replicate 256 SpinLock_new, SPINLOCK_USED = replicate 256 False,
     MCS_LOCK_USED = replicate 128 False, MCS_NODE_USED = replicate 512 False,
     RWLOCK_USED = replicate 32 False\<rparr>"

definition rust_spinlock_new :: "lock_tables \<Rightarrow> nat option \<times> lock_tables" where
  "rust_spinlock_new T = (let (p, us) = slot_new (SPINLOCK_USED T) in (p, T\<lparr>SPINLOCK_USED := us\<rparr>))"

definition rust_spinlock_free :: "nat option \<Rightarrow> lock_tables \<Rightarrow> lock_tables" where
  "rust_spinlock_free p T = T\<lparr>SPINLOCK_USED := slot_free 64 p (SPINLOCK_USED T)\<rparr>"

definition rust_spinlock_new_with_order :: "u32 \<Rightarrow> lock_tables \<Rightarrow> nat option \<times> lock_tables" where
  "rust_spinlock_new_with_order order T =
    (case slot_new (SPINLOCK_USED T) of
       (None, us) \<Rightarrow> (None, T)
     | (Some i, us) \<Rightarrow> (Some i, T\<lparr>SPINLOCK_USED := us,
         SPINLOCK_STORAGE := (SPINLOCK_STORAGE T)[i := SpinLock_new_with_order order]\<rparr>))"

definition rust_mcs_lock_new :: "lock_tables \<Rightarrow> nat option \<times> lock_tables" where
  "rust_mcs_lock_new T = (let (p, us) = slot_new (MCS_LOCK_USED T) in (p, T\<lparr>MCS_LOCK_USED := us\<rparr>))"

definition rust_mcs_lock_free :: "nat option \<Rightarrow> lock_tables \<Rightarrow> lock_tables" where
  "rust_mcs_lock_free p T = T\<lparr>MCS_LOCK_USED := slot_free 32 p (MCS_LOCK_USED T)\<rparr>"

definition rust_mcs_node_new :: "lock_tables \<Rightarrow> nat option \<times> lock_tables" where
  "rust_mcs_node_new T = (let (p, us) = slot_new (MCS_NODE_USED T) in (p, T\<lparr>MCS_NODE_USED := us\<rparr>))"

definition rust_mcs_node_free :: "nat option \<Rightarrow> lock_tables \<Rightarrow> lock_tables" where
  "rust_mcs_node_free p T = T\<lparr>MCS_NODE_USED := slot_free 128 p (MCS_NODE_USED T)\<rparr>"

definition rust_rwlock_new :: "lock_tables \<Rightarrow> nat option \<times> lock_tables" where
  "rust_rwlock_new T = (let (p, us) = slot_new (RWLOCK_USED T) in (p, T\<lparr>RWLOCK_USED := us\<rparr>))"

definition rust_rwlock_free :: "nat option \<Rightarrow> lock_tables \<Rightarrow> lock_tables" where
  "rust_rwlock_free p T = T\<lparr>RWLOCK_USED := slot_free 32 p (RWLOCK_USED T)\<rparr>"

section \<open>Exclusion of the spinlocks\<close>

text \<open>
  The threads that have set \<open>locked\<close> and not yet cleared it, and among them those whose processor
  is in \<open>owner_cpu\<close>.
\<close>

fun sp_owns :: "spin_pc \<Rightarrow> bool" where
  "sp_owns (Sp_owner _) = True"
| "sp_owns (Sp_time _) = True"
| "sp_owns SpHolding = True"
| "sp_owns Su_owner = True"
| "sp_owns Su_time = True"
| "sp_owns Su_unlock = True"
| "sp_owns St_owner = True"
| "sp_owns St_time = True"
| "sp_owns _ = False"

fun sp_named :: "spin_pc \<Rightarrow> bool" where
  "sp_named (Sp_time _) = True"
| "sp_named SpHolding = True"
| "sp_named Su_owner = True"
| "sp_named St_time = True"
| "sp_named _ = False"

definition spin_inv :: "(nat \<Rightarrow> u32) \<Rightarrow> spin_state \<Rightarrow> bool" where
  "spin_inv cpu s \<longleftrightarrow>
     flag_held (sl_locked (sl s)) (\<lambda>t. sp_owns (spc s t))
   \<and> (\<forall>t. sp_named (spc s t) \<longrightarrow> owner_cpu (sl s) = cpu t)"

lemma spin_inv_update:
  assumes inv: "spin_inv cpu s"
    and s': "spc s' = (spc s)(t := p)"
    and wr: "if sp_owns p then sl_locked (sl s') \<and> (sp_owns (spc s t) \<or> \<not> sl_locked (sl s))
             else if sp_owns (spc s t) then \<not> sl_locked (sl s') else sl_locked (sl s') = sl_locked (sl s)"
    and nm: "sp_named p \<longrightarrow> owner_cpu (sl s') = cpu t"
    and ow: "owner_cpu (sl s') = owner_cpu (sl s) \<or> sp_owns (spc s t)"
  shows "spin_inv cpu s'"
proof -
  have held: "flag_held (sl_locked (sl s)) (\<lambda>t. sp_owns (spc s t))"
    using inv by (simp add: spin_inv_def)
  have named_owns: "sp_named q \<Longrightarrow> sp_owns q" for q
    by (cases q) simp_all
  have "flag_held (sl_locked (sl s')) (\<lambda>t. sp_owns (spc s' t))"
    by (rule flag_held_update [OF held, of t]) (use wr in \<open>simp_all add: s'\<close>)
  moreover have "owner_cpu (sl s') = cpu u" if u: "sp_named (spc s' u)" for u
  proof (cases "u = t")
    case True
    then show ?thesis using u nm by (simp add: s')
  next
    case False
    then have "sp_named (spc s u)" using u by (simp add: s')
    moreover from this have "\<not> sp_owns (spc s t)"
      using flag_heldD(2) [OF held] named_owns False by blast
    ultimately show ?thesis
      using ow inv by (simp add: spin_inv_def)
  qed
  ultimately show ?thesis by (simp add: spin_inv_def)
qed

lemma spin_inv_exec:
  assumes inv: "spin_inv cpu s"
  shows "spin_inv cpu (spin_exec (cpu t) now t s)"
proof -
  have l: "sp_owns (spc s t) \<Longrightarrow> sl_locked (sl s)"
    using inv flag_heldD(1) unfolding spin_inv_def by fast
  have n: "sp_named (spc s t) \<Longrightarrow> owner_cpu (sl s) = cpu t"
    using inv by (auto simp: spin_inv_def)
  note defs = spin_exec_def spin_lock_def try_lock_fast_def handle_potential_deadlock_def
    spin_unlock_def spin_try_lock_def sp_goto_def sp_with_def
  show ?thesis
    using l n
    by (intro spin_inv_update [OF inv, where t = t and p = "spc (spin_exec (cpu t) now t s) t"];
        cases "spc s t"; simp add: defs fun_upd_idem split: if_split)
qed

lemma spin_inv_goto:
  assumes inv: "spin_inv cpu s" and "sp_owns p = sp_owns (spc s t)" and "sp_named p \<Longrightarrow> sp_named (spc s t)"
  shows "spin_inv cpu (sp_goto t p s)"
proof (rule spin_inv_update [OF inv])
  show "spc (sp_goto t p s) = (spc s)(t := p)" by (simp add: sp_goto_def)
qed (use assms flag_heldD(1) in \<open>auto simp: sp_goto_def spin_inv_def\<close>)

interpretation spin: mutual_exclusion spin_init "spin_step cpu" "spin_inv cpu" "\<lambda>s t. sp_owns (spc s t)"
  for cpu
proof
  show "spin_inv cpu s" if "spin_init s" for s
    using that by (auto simp: spin_init_def spin_inv_def flag_held_def SpinLock_new_with_order_def)
  show "spin_inv cpu s'" if "spin_inv cpu s" "spin_step cpu s s'" for s s'
    using that(2,1)
    by cases (auto intro: spin_inv_exec spin_inv_goto)
  show "a = b" if "spin_inv cpu s" "sp_owns (spc s a)" "sp_owns (spc s b)" for s a b
    using that flag_heldD(2) unfolding spin_inv_def by fast
qed

definition cxx_inv :: "cxx_state \<Rightarrow> bool" where
  "cxx_inv s \<longleftrightarrow> flag_held (cxx_locked s) (\<lambda>t. cpc s t = CxHolding)"

lemma cxx_inv_step:
  assumes "cxx_inv s" and "cxx_step s s'"
  shows "cxx_inv s'"
  using assms(2)
proof cases
  case (cxx_call t p)
  then show ?thesis
    unfolding cxx_inv_def
    by (intro flag_held_update [OF assms(1) [unfolded cxx_inv_def], of t]) (auto simp: cxx_goto_def)
next
  case (cxx_lock t)
  then show ?thesis
    unfolding cxx_inv_def
    by (intro flag_held_update [OF assms(1) [unfolded cxx_inv_def], of t])
      (auto simp: cxx_goto_def Spinlock_lock_def)
next
  case (cxx_try t)
  then show ?thesis
    unfolding cxx_inv_def
    by (intro flag_held_update [OF assms(1) [unfolded cxx_inv_def], of t])
      (auto simp: cxx_goto_def Spinlock_try_lock_def)
next
  case (cxx_unlock t)
  then show ?thesis
    unfolding cxx_inv_def
    by (intro flag_held_update [OF assms(1) [unfolded cxx_inv_def], of t])
      (auto simp: cxx_goto_def Spinlock_unlock_def)
qed

interpretation cxx: mutual_exclusion "\<lambda>s. s = \<lparr>cxx_locked = False, cpc = (\<lambda>_. CxOutside)\<rparr>" cxx_step cxx_inv
  "\<lambda>s t. cpc s t = CxHolding"
proof
  show "cxx_inv s'" if "cxx_inv s" "cxx_step s s'" for s s'
    using that by (rule cxx_inv_step)
  show "a = b" if "cxx_inv s" "cpc s a = CxHolding" "cpc s b = CxHolding" for s a b
    using that flag_heldD(2) unfolding cxx_inv_def by fast
qed (simp add: cxx_inv_def flag_held_def)

text \<open>A run of the lock: which thread moves next, at which time stamp.\<close>

fun spin_run :: "(nat \<Rightarrow> u32) \<Rightarrow> (nat \<times> u64) list \<Rightarrow> spin_state \<Rightarrow> spin_state" where
  "spin_run cpu [] s = s"
| "spin_run cpu ((t, now) # as) s =
     spin_run cpu as
       (if spc s t = SpOutside then sp_goto t (Sp_load now) s
        else if spc s t = SpHolding then sp_goto t Su_owner s
        else if spc s t = SpPanicked then s
        else spin_exec (cpu t) now t s)"

lemma spin_run_reaches: "(spin_step cpu)\<^sup>*\<^sup>* s (spin_run cpu as s)"
proof (induction cpu as s rule: spin_run.induct)
  case (2 cpu t now as s)
  let ?s = "if spc s t = SpOutside then sp_goto t (Sp_load now) s
        else if spc s t = SpHolding then sp_goto t Su_owner s
        else if spc s t = SpPanicked then s
        else spin_exec (cpu t) now t s"
  have "spin_step cpu s ?s \<or> ?s = s"
    by (auto intro: spin_step.intros)
  then show ?case
    using 2 by (auto intro: converse_rtranclp_into_rtranclp)
qed simp

definition spin_start :: spin_state where
  "spin_start = \<lparr>sl = SpinLock_new, spc = (\<lambda>_. SpOutside)\<rparr>"

definition panic_before :: "(nat \<times> u64) list" where
  "panic_before = [(0, 1), (0, 1), (0, 1), (0, 1), (0, 1), (1, 10), (1, 10), (2, 10), (2, 10),
     (0, 100000000), (0, 100000000), (0, 100000000), (0, 100000000)]"

definition panic_after :: "(nat \<times> u64) list" where
  "panic_after = [(1, 100000010), (1, 100000020), (1, 100000030), (1, 100000040), (1, 100000050),
     (2, 100000100), (2, 100000100), (2, 100000100), (2, 100000100)]"

text \<open>
  The rust spinlock takes a waiter for a holder.  \<open>try_lock_fast\<close> stores the time at which the
  thread began to wait, not the time at which it got the lock, and the time-out check measures
  from there: with three threads a run is possible in which the lock is free at time 100000000,
  is taken by thread 1 after that, and 100 cycles later thread 2 panics because the lock has
  been held for more than the allowed 50000000 cycles.
\<close>
theorem SpinLock_panics_on_fresh_holder:
  "let s = spin_run of_nat panic_before spin_start; s' = spin_run of_nat panic_after s
   in (spin_step of_nat)\<^sup>*\<^sup>* spin_start s \<and> (spin_step of_nat)\<^sup>*\<^sup>* s s'
      \<and> \<not> sl_locked (sl s) \<and> spc s' 1 = SpHolding \<and> spc s' 2 = SpPanicked
      \<and> list_all (\<lambda>(t, now). now \<le> 100000000) panic_before
      \<and> list_all (\<lambda>(t, now). 100000000 \<le> now \<and> now \<le> 100000100) panic_after"
proof -
  have "let s = spin_run of_nat panic_before spin_start; s' = spin_run of_nat panic_after s
    in \<not> sl_locked (sl s) \<and> spc s' 1 = SpHolding \<and> spc s' 2 = SpPanicked"
    by code_simp
  moreover have "list_all (\<lambda>(t, now). now \<le> 100000000) panic_before"
    "list_all (\<lambda>(t, now). 100000000 \<le> now \<and> now \<le> 100000100) panic_after"
    by code_simp+
  ultimately show ?thesis
    by (simp add: Let_def spin_run_reaches)
qed

section \<open>The tables\<close>

lemma first_free_Some:
  "first_free us = Some i \<longleftrightarrow> i < length us \<and> \<not> us ! i \<and> (\<forall>j < i. us ! j)"
proof (induction us arbitrary: i)
  case (Cons u us)
  show ?case
    by (cases i) (auto simp: Cons less_Suc_eq_0_disj)
qed simp

lemma first_free_None: "first_free us = None \<longleftrightarrow> (\<forall>i < length us. us ! i)"
  by (induction us) (auto simp: less_Suc_eq_0_disj)

lemma slot_new_free:
  assumes "slot_new us = (Some i, us')"
  shows "slot_free bound (Some i) us' = (if i < bound then us else us')"
proof -
  have i: "first_free us = Some i" "us' = us[i := True]"
    using assms by (auto simp: slot_new_def split: option.splits)
  then have "us[i := False] = us"
    by (metis first_free_Some list_update_id)
  then show ?thesis using i by (simp add: slot_free_def)
qed

lemma slot_free_beyond: "bound \<le> i \<Longrightarrow> slot_free bound (Some i) us = us"
  by (simp add: slot_free_def)

text \<open>
  A lock of the table is given back only when its index is small.  A spinlock taken from the table
  and freed leaves the table as it was when its index is below 64 and stays taken for ever when
  it is 64 or more, although the table has 256 entries; the same holds below 32 of the 128 MCS
  locks, below 128 of the 512 MCS nodes, and below all 32 of the reader-writer locks.
\<close>
theorem lock_tables_free_exact:
  "(rust_spinlock_new T = (Some i, T1) \<longrightarrow> rust_spinlock_free (Some i) T1 = (if i < 64 then T else T1))
   \<and> (rust_mcs_lock_new T = (Some i, T1) \<longrightarrow> rust_mcs_lock_free (Some i) T1 = (if i < 32 then T else T1))
   \<and> (rust_mcs_node_new T = (Some i, T1) \<longrightarrow> rust_mcs_node_free (Some i) T1 = (if i < 128 then T else T1))
   \<and> (rust_rwlock_new T = (Some i, T1) \<longrightarrow> rust_rwlock_free (Some i) T1 = (if i < 32 then T else T1))"
  by (auto simp: rust_spinlock_new_def rust_spinlock_free_def rust_mcs_lock_new_def rust_mcs_lock_free_def
      rust_mcs_node_new_def rust_mcs_node_free_def rust_rwlock_new_def rust_rwlock_free_def
      slot_new_free split: prod.splits)

theorem lock_tables_free_exact_witness:
  "let T = tables_init\<lparr>SPINLOCK_USED := replicate 64 True @ replicate 192 False\<rparr>;
       T1 = snd (rust_spinlock_new T)
   in rust_spinlock_new T = (Some 64, T1) \<and> rust_spinlock_free (Some 64) T1 = T1"
proof -
  let ?T = "tables_init\<lparr>SPINLOCK_USED := replicate 64 True @ replicate 192 False\<rparr>"
  have "fst (rust_spinlock_new ?T) = Some 64"
    by code_simp
  then have new: "rust_spinlock_new ?T = (Some 64, snd (rust_spinlock_new ?T))"
    by (simp add: prod_eq_iff)
  then show ?thesis
    using lock_tables_free_exact [of ?T 64 "snd (rust_spinlock_new ?T)"] by (simp add: Let_def)
qed

end
