(* ===== verification/Net.thy ===== *)
theory Net
  imports VF_Prelude
begin

text \<open>
  The network stack of \<open>src/drivers/ethernet\<close>: the device table of \<open>Network.c\<close>, the address
  cache of \<open>interface/Arp.c\<close>, IPv4 output and input of \<open>interface/Ip.c\<close> and the echo protocol of
  \<open>interface/Icmp.c\<close>.  Frames are lists of bytes; a packed header is the bytes of its fields in
  order, \<open>HTONS\<close> included.  A device is known by what its functions do: the six bytes behind the
  pointer \<open>get_mac_address\<close> returns (\<open>None\<close> when it is NULL), and sending, which appends the frame
  to the trace of what went out.  Whether an allocation of a given size succeeds is an argument.
  \<open>None\<close> as the result of an operation is a fault: an access through NULL or outside the buffer
  the operation was given or has allocated.  \<open>FastMemcpy\<close> and \<open>FastMemcmp\<close> on the short fields of the
  headers stand for an exact copy and comparison; the theory of the memory primitives says where the
  routines of a machine deviate from that.  The lines printed on the console are left out.
\<close>

section \<open>Byte order\<close>

definition le16 :: "u16 \<Rightarrow> u8 list" where
  "le16 w = [ucast w, ucast (drop_bit 8 w)]"

definition bswap16 :: "u16 \<Rightarrow> u16" where
  "bswap16 v = push_bit 8 v OR drop_bit 8 v"

definition bytes_at :: "nat \<Rightarrow> nat \<Rightarrow> 'a list \<Rightarrow> 'a list" where
  "bytes_at off n xs = take n (drop off xs)"

section \<open>Devices\<close>

record NetworkDevice =
  dev_name :: string
  dev_mac :: "u8 list option"

datatype ArpState = ARP_STATE_EMPTY | ARP_STATE_RESOLVING | ARP_STATE_RESOLVED

record ArpCacheEntry =
  arp_ip :: "u8 list"
  arp_mac :: "u8 list"
  arp_state :: ArpState

record net =
  devices :: "NetworkDevice list"
  arp_cache :: "ArpCacheEntry list"
  sent :: "(nat \<times> u8 list) list"

definition MAX_NETWORK_DEVICES :: nat where
  "MAX_NETWORK_DEVICES = 4"

definition Net_RegisterDevice :: "NetworkDevice \<Rightarrow> net \<Rightarrow> net" where
  "Net_RegisterDevice dev s =
    (if length (devices s) < MAX_NETWORK_DEVICES then s\<lparr>devices := devices s @ [dev]\<rparr> else s)"

definition Net_GetDevice :: "net \<Rightarrow> nat \<Rightarrow> NetworkDevice option" where
  "Net_GetDevice s i = (if i < length (devices s) then Some (devices s ! i) else None)"

definition send_packet :: "nat \<Rightarrow> u8 list \<Rightarrow> net \<Rightarrow> net" where
  "send_packet i frame s = s\<lparr>sent := sent s @ [(i, frame)]\<rparr>"

text \<open>
  \<open>Net_Initialize\<close> registers the drivers that came up.  The functions it registers as
  \<open>get_mac_address\<close> return the address of the driver's device structure, so the six bytes the
  stack reads are the first six of that structure: for the E1000 the four bytes of \<open>mmio_base\<close> and
  the first two of \<open>mac_address\<close>.  The structure of the RTL8139 begins with the PCI description of
  the card; its bytes are an argument.
\<close>

definition E1000_image :: "u32 \<Rightarrow> u8 list \<Rightarrow> u8 list" where
  "E1000_image mmio_base mac =
     [ucast mmio_base, ucast (drop_bit 8 mmio_base), ucast (drop_bit 16 mmio_base),
      ucast (drop_bit 24 mmio_base)] @ mac"

definition empty_entry :: ArpCacheEntry where
  "empty_entry = \<lparr>arp_ip = [0, 0, 0, 0], arp_mac = [0, 0, 0, 0, 0, 0], arp_state = ARP_STATE_EMPTY\<rparr>"

definition ArpInit :: "net \<Rightarrow> net" where
  "ArpInit s = s\<lparr>arp_cache := map (arp_state_update (\<lambda>_. ARP_STATE_EMPTY)) (arp_cache s)\<rparr>"

definition Net_Initialize :: "(u32 \<times> u8 list) option \<Rightarrow> (u32 \<times> u8 list) option \<Rightarrow> net \<Rightarrow> net" where
  "Net_Initialize e1000 rtl s =
    (let s = ArpInit (s\<lparr>devices := []\<rparr>);
         s = (case e1000 of None \<Rightarrow> s
              | Some (mmio_base, mac) \<Rightarrow>
                  Net_RegisterDevice \<lparr>dev_name = ''E1000'', dev_mac = Some (take 6 (E1000_image mmio_base mac))\<rparr> s);
         s = (case rtl of None \<Rightarrow> s
              | Some (io_base, img) \<Rightarrow>
                  if io_base \<noteq> 0
                  then Net_RegisterDevice \<lparr>dev_name = ''RTL8139'', dev_mac = Some (take 6 img)\<rparr> s
                  else s)
     in s)"

section \<open>Address resolution\<close>

definition own_ip :: "u8 list" where
  "own_ip = [10, 0, 2, 15]"

definition arp_request :: "u8 list \<Rightarrow> u8 list \<Rightarrow> u8 list" where
  "arp_request src_mac ip =
     replicate 6 0xFF @ src_mac @ le16 (bswap16 0x0806)
     @ le16 (bswap16 1) @ le16 (bswap16 0x0800) @ [6, 4] @ le16 (bswap16 1)
     @ src_mac @ own_ip @ replicate 6 0 @ ip"

definition ArpSendRequest :: "u8 list \<Rightarrow> net \<Rightarrow> net option" where
  "ArpSendRequest ip s =
    (case Net_GetDevice s 0 of
       None \<Rightarrow> Some s
     | Some dev \<Rightarrow>
         (case dev_mac dev of
            None \<Rightarrow> None
          | Some src_mac \<Rightarrow> Some (send_packet 0 (arp_request src_mac ip) s)))"

definition arp_lookup :: "u8 list \<Rightarrow> ArpCacheEntry list \<Rightarrow> u8 list option" where
  "arp_lookup ip cache =
     map_option arp_mac (List.find (\<lambda>e. arp_state e = ARP_STATE_RESOLVED \<and> arp_ip e = ip) cache)"

definition ArpResolve :: "u8 list \<Rightarrow> net \<Rightarrow> (u8 list option \<times> net) option" where
  "ArpResolve ip s =
    (case arp_lookup ip (arp_cache s) of
       Some mac \<Rightarrow> Some (Some mac, s)
     | None \<Rightarrow> map_option (\<lambda>s'. (None, s')) (ArpSendRequest ip s))"

fun arp_insert :: "u8 list \<Rightarrow> u8 list \<Rightarrow> ArpCacheEntry list \<Rightarrow> ArpCacheEntry list" where
  "arp_insert ip mac [] = []"
| "arp_insert ip mac (e # es) =
    (if arp_state e = ARP_STATE_EMPTY
     then \<lparr>arp_ip = ip, arp_mac = mac, arp_state = ARP_STATE_RESOLVED\<rparr> # es
     else e # arp_insert ip mac es)"

text \<open>The frame is the bytes from the Ethernet header on; \<open>len\<close> is the length the driver reports.\<close>

definition ArpHandlePacket :: "u8 list \<Rightarrow> nat \<Rightarrow> net \<Rightarrow> net option" where
  "ArpHandlePacket frame len s =
    (if len < 42 then Some s
     else if length frame < 42 then None
     else if bytes_at 20 2 frame = le16 (bswap16 2)
     then Some (s\<lparr>arp_cache := arp_insert (bytes_at 28 4 frame) (bytes_at 22 6 frame) (arp_cache s)\<rparr>)
     else Some s)"

section \<open>Checksums\<close>

fun sum16 :: "u8 list \<Rightarrow> u32 \<Rightarrow> u32" where
  "sum16 (a # b # r) s = sum16 r (s + (ucast a OR push_bit 8 (ucast b)))"
| "sum16 [a] s = s + ucast a"
| "sum16 [] s = s"

lemma unat_low16: "unat ((s :: u32) AND 0xFFFF) = unat s mod 65536"
proof -
  have "s AND 0xFFFF = take_bit 16 s"
    by (simp add: take_bit_eq_mask mask_eq_exp_minus_1)
  then show ?thesis
    by (simp add: unat_mod_distrib take_bit_eq_mod)
qed

lemma unat_high16: "unat (drop_bit 16 (s :: u32)) = unat s div 65536"
  by (simp add: unat_div_distrib drop_bit_eq_div)

lemma unat_fold_step:
  "unat ((s AND 0xFFFF) + drop_bit 16 (s :: u32)) = unat s mod 65536 + unat s div 65536"
proof -
  have "unat s < 2 ^ LENGTH(32)" by (rule unsigned_less)
  then have "unat s mod 65536 + unat s div 65536 < 2 ^ LENGTH(32)"
    by simp
  then show ?thesis
    by (simp add: unat_word_ariths unat_low16 unat_high16)
qed

lemma fold16_decreases:
  assumes "drop_bit 16 s \<noteq> 0"
  shows "unat ((s AND 0xFFFF) + drop_bit 16 (s :: u32)) < unat s"
proof -
  have "unat s div 65536 \<noteq> 0"
    using assms unat_high16 [of s] by (metis unat_eq_0)
  then have "unat s mod 65536 + unat s div 65536 < unat s mod 65536 + unat s div 65536 * 65536"
    by (intro add_strict_left_mono) simp
  also have "\<dots> = unat s" by simp
  finally show ?thesis by (simp only: unat_fold_step)
qed

function fold16 :: "u32 \<Rightarrow> u32" where
  "fold16 s = (if drop_bit 16 s \<noteq> 0 then fold16 ((s AND 0xFFFF) + drop_bit 16 s) else s)"
  by auto
termination
  by (relation "measure unat") (simp_all add: fold16_decreases)

declare fold16.simps [simp del]

definition IpChecksum :: "u8 list \<Rightarrow> u16" where
  "IpChecksum data = ucast (NOT (fold16 (sum16 data 0)))"

definition IcmpChecksum :: "u8 list \<Rightarrow> u16" where
  "IcmpChecksum data = ucast (NOT (fold16 (sum16 data 0)))"

section \<open>IPv4\<close>

definition ip_header :: "nat \<Rightarrow> u8 \<Rightarrow> u16 \<Rightarrow> u8 list \<Rightarrow> u8 list" where
  "ip_header total_len protocol csum dest_ip =
     [0x45, 0] @ le16 (bswap16 (of_nat total_len)) @ le16 (bswap16 1) @ le16 0 @ [64, protocol]
     @ le16 csum @ own_ip @ dest_ip"

definition eth_header :: "u8 list \<Rightarrow> u8 list \<Rightarrow> u8 list" where
  "eth_header dest_mac src_mac = dest_mac @ src_mac @ le16 (bswap16 0x0800)"

definition first_device :: "net \<Rightarrow> NetworkDevice option" where
  "first_device s = (case List.find (\<lambda>i. Net_GetDevice s i \<noteq> None) [0..<MAX_NETWORK_DEVICES] of
     None \<Rightarrow> None | Some i \<Rightarrow> Net_GetDevice s i)"

definition IpSend :: "(nat \<Rightarrow> bool) \<Rightarrow> u8 list \<Rightarrow> u8 \<Rightarrow> u8 list \<Rightarrow> net \<Rightarrow> net option" where
  "IpSend alloc dest_ip protocol payload s =
    (case ArpResolve dest_ip s of
       None \<Rightarrow> None
     | Some (None, s) \<Rightarrow> Some s
     | Some (Some dest_mac, s) \<Rightarrow>
        (let len = length payload;
             total_len = (20 + len) mod 65536;
             eth_total_len = (14 + total_len) mod 65536
         in if \<not> alloc total_len \<or> total_len < 20 + len then None
            else
             (let hdr = ip_header total_len protocol (IpChecksum (ip_header total_len protocol 0 dest_ip)) dest_ip;
                  packet = hdr @ payload
              in if \<not> alloc eth_total_len \<or> eth_total_len < 14 + total_len then None
                 else (case first_device s of
                    None \<Rightarrow> None
                  | Some dev \<Rightarrow>
                     (case dev_mac dev of
                        None \<Rightarrow> None
                      | Some src_mac \<Rightarrow> Some (send_packet 0 (eth_header dest_mac src_mac @ packet) s))))))"

section \<open>Echo requests and replies\<close>

definition icmp_packet :: "u8 \<Rightarrow> u16 \<Rightarrow> u8 list \<Rightarrow> u8 list" where
  "icmp_packet type csum rest = [type, 0] @ le16 csum @ rest"

text \<open>
  \<open>ip\<close> is what lies from the IP header on, \<open>icmp\<close> what lies from the ICMP header on, and \<open>len\<close> the
  length the caller passes.
\<close>

definition IcmpHandlePacket :: "(nat \<Rightarrow> bool) \<Rightarrow> u8 list \<Rightarrow> u8 list \<Rightarrow> nat \<Rightarrow> net \<Rightarrow> net option" where
  "IcmpHandlePacket alloc ip icmp len s =
    (if len < 8 then Some s
     else if icmp = [] then None
     else if hd icmp = 8
     then (if \<not> alloc len \<or> length icmp < len then None
           else (let rest = bytes_at 4 (len - 4) icmp;
                     reply = icmp_packet 0 (IcmpChecksum (icmp_packet 0 0 rest)) rest
                 in IpSend alloc (bytes_at 12 4 ip) 1 reply s))
     else Some s)"

definition IcmpSendEchoRequest :: "(nat \<Rightarrow> bool) \<Rightarrow> u8 list \<Rightarrow> net \<Rightarrow> net option" where
  "IcmpSendEchoRequest alloc dest_ip s =
    (if \<not> alloc 40 then None
     else (let rest = le16 (bswap16 1234) @ le16 (bswap16 1) @ map of_nat [0..<32];
               packet = icmp_packet 8 (IcmpChecksum (icmp_packet 8 0 rest)) rest
           in IpSend alloc dest_ip 1 packet s))"

definition IpHandlePacket :: "(nat \<Rightarrow> bool) \<Rightarrow> u8 list \<Rightarrow> nat \<Rightarrow> net \<Rightarrow> net option" where
  "IpHandlePacket alloc ip len s =
    (if length ip < 10 then None
     else if ip ! 9 = 1
     then IcmpHandlePacket alloc ip (drop 20 ip) ((len + 65536 - 20) mod 65536) s
     else Some s)"

section \<open>The checksum\<close>

fun wsum :: "u8 list \<Rightarrow> nat" where
  "wsum (a # b # r) = unat a + 256 * unat b + wsum r"
| "wsum [a] = unat a"
| "wsum [] = 0"

lemma unat8: "unat (a :: u8) < 256"
proof -
  have "unat a < 2 ^ LENGTH(8)" by (rule unsigned_less)
  then show ?thesis by simp
qed

lemma wsum_bound: "wsum xs \<le> 65535 * ((length xs + 1) div 2)"
proof (induction xs rule: wsum.induct)
  case (1 a b r)
  then show ?case using unat8 [of a] unat8 [of b] by simp
next
  case (2 a)
  then show ?case using unat8 [of a] by simp
qed simp

lemma unat_pair: "unat (ucast (a :: u8) OR push_bit 8 (ucast (b :: u8)) :: u32) = unat a + 256 * unat b"
proof -
  have "(ucast a OR push_bit 8 (ucast b) :: u32) = ucast a + push_bit 8 (ucast b)"
    by (rule disjunctive_add [symmetric]) (auto simp: bit_simps dest: bit_imp_le_length)
  also have "\<dots> = ucast a + 256 * ucast b"
    by (simp add: push_bit_eq_mult)
  finally show ?thesis
    using unat8 [of a] unat8 [of b]
    by (simp add: unat_word_ariths unsigned_ucast_eq take_bit_eq_mod)
qed

lemma unat_sum16_bytes:
  "unat s + wsum xs < 4294967296 \<Longrightarrow> unat (sum16 xs s) = unat s + wsum xs"
proof (induction xs s rule: sum16.induct)
  case (1 a b r s)
  have "unat (s + (ucast a OR push_bit 8 (ucast b))) = unat s + (unat a + 256 * unat b)"
    using 1(2) by (simp add: unat_word_ariths unat_pair)
  then show ?case using 1 by simp
next
  case (2 a s)
  then show ?case
    using unat8 [of a] by (simp add: unat_word_ariths unsigned_ucast_eq take_bit_eq_mod)
qed simp

lemma fold16_spec:
  "unat (fold16 s) < 65536 \<and> unat (fold16 s) mod 65535 = unat s mod 65535 \<and> (unat (fold16 s) = 0 \<longleftrightarrow> unat s = 0)"
proof (induction s rule: fold16.induct)
  case (1 s)
  show ?case
  proof (cases "drop_bit 16 s = 0")
    case True
    then have "unat s div 65536 = 0" using unat_high16 [of s] by simp
    then show ?thesis using True by (simp add: div_eq_0_iff fold16.simps [of s])
  next
    case False
    let ?n = "unat s mod 65536 + unat s div 65536"
    have "unat s = ?n + 65535 * (unat s div 65536)"
      using mult_div_mod_eq [of 65536 "unat s"] by linarith
    then have m: "unat s mod 65535 = ?n mod 65535"
      by (metis mod_mult_self2)
    have "unat s div 65536 \<noteq> 0"
      using False unat_high16 [of s] by (metis unat_eq_0)
    then have "?n \<noteq> 0" "unat s \<noteq> 0" by auto
    then show ?thesis
      using 1 [OF False] False m by (simp add: fold16.simps [of s] unat_fold_step)
  qed
qed

lemma wsum_append: "even (length xs) \<Longrightarrow> wsum (xs @ ys) = wsum xs + wsum ys"
  by (induction xs rule: wsum.induct) auto

lemma unat16_bytes: "unat (ucast (c :: u16) :: u8) + 256 * unat (ucast (drop_bit 8 c) :: u8) = unat c"
proof -
  have "unat c < 2 ^ LENGTH(16)" by (rule unsigned_less)
  then have "unat c div 256 < 256" by simp
  then show ?thesis
    by (simp add: unsigned_ucast_eq unat_div_distrib drop_bit_eq_div take_bit_eq_mod)
qed

lemma wsum_le16: "wsum (le16 c @ ys) = unat c + wsum ys"
  using unat16_bytes [of c] by (simp add: le16_def)

lemma unat_complement16:
  assumes "unat (f :: u32) < 65536"
  shows "unat (ucast (NOT f) :: u16) = 65535 - unat f"
proof -
  have "NOT f = 4294967295 - f"
    by (simp add: not_eq_complement)
  then have "unat (NOT f) = 4294967295 - unat f"
    using assms by (simp add: unat_sub word_le_nat_alt)
  also have "\<dots> = (65535 - unat f) + 65535 * 65536"
    using assms by linarith
  finally have e: "unat (NOT f) = (65535 - unat f) + 65535 * 65536" .
  have "unat (ucast (NOT f) :: u16) = unat (NOT f) mod 65536"
    by (simp add: unsigned_ucast_eq take_bit_eq_mod)
  also have "\<dots> = (65535 - unat f) mod 65536"
    by (simp only: e mod_mult_self1)
  finally show ?thesis by simp
qed

text \<open>A buffer whose checksum field was computed over it with the field zero sums to all ones.\<close>

lemma checksum_verifies:
  assumes even: "even (length pre)" and len: "length pre + length post + 2 \<le> 65536"
    and c: "c = ucast (NOT (fold16 (sum16 (pre @ le16 0 @ post) 0)))"
  shows "ucast (NOT (fold16 (sum16 (pre @ le16 c @ post) 0))) = (0 :: u16)"
proof -
  define S where "S = wsum (pre @ le16 0 @ post)"
  define f where "f = fold16 (sum16 (pre @ le16 0 @ post) 0)"
  have bound: "wsum (pre @ le16 d @ post) < 4294967296" for d
    using wsum_bound [of "pre @ le16 d @ post"] len by (simp add: le16_def)
  have f: "unat f < 65536" "unat f mod 65535 = S mod 65535" "unat f = 0 \<longleftrightarrow> S = 0"
    using fold16_spec [of "sum16 (pre @ le16 0 @ post) 0"] bound [of 0] unat_sum16_bytes [of 0 "pre @ le16 0 @ post"]
    by (simp_all add: f_def S_def)
  have "unat c = 65535 - unat f"
    using unat_complement16 [OF f(1)] by (simp add: c f_def)
  then have w: "wsum (pre @ le16 c @ post) = S + 65535 - unat f"
    using f(1) by (simp add: S_def wsum_append even wsum_le16)
  define g where "g = fold16 (sum16 (pre @ le16 c @ post) 0)"
  have sum: "unat (sum16 (pre @ le16 c @ post) 0) = S + 65535 - unat f"
    using unat_sum16_bytes [of 0 "pre @ le16 c @ post"] bound [of c] w by simp
  have "S + 65535 - unat f \<noteq> 0"
    using f(1,3) by auto
  then have g: "unat g < 65536" "unat g mod 65535 = (S + 65535 - unat f) mod 65535" "unat g \<noteq> 0"
    using fold16_spec [of "sum16 (pre @ le16 c @ post) 0"] sum by (simp_all add: g_def)
  have "65535 dvd (S + 65535) - unat f"
    using f(1,2) by (intro mod_eq_dvd_iff_nat [THEN iffD1]) simp_all
  then have "65535 dvd unat g"
    using g(2) by (simp add: mod_eq_0_iff_dvd)
  then obtain k where "unat g = 65535 * k" by (elim dvdE)
  then have "unat g = 65535"
    using g(1,3) by (cases k) auto
  then show ?thesis
    using unat_complement16 [OF g(1)] by (simp add: g_def unat_eq_0)
qed

section \<open>Frames\<close>

lemma length_le16 [simp]: "length (le16 w) = 2"
  by (simp add: le16_def)

lemma length_ip_header [simp]: "length (ip_header n p c d) = 16 + length d"
  by (simp add: ip_header_def own_ip_def)

lemma IpChecksum_ip_header:
  assumes "length d = 4"
  shows "IpChecksum (ip_header n p (IpChecksum (ip_header n p 0 d)) d) = 0"
proof -
  let ?pre = "[0x45, 0] @ le16 (bswap16 (of_nat n)) @ le16 (bswap16 1) @ le16 0 @ [64, p]"
  have split: "ip_header n p c d = ?pre @ le16 c @ (own_ip @ d)" for c
    by (simp add: ip_header_def)
  show ?thesis
    unfolding IpChecksum_def split
    by (rule checksum_verifies [OF _ _ refl]) (simp_all add: own_ip_def assms)
qed

lemma IcmpChecksum_icmp_packet:
  assumes "length rest \<le> 65532"
  shows "IcmpChecksum (icmp_packet t (IcmpChecksum (icmp_packet t 0 rest)) rest) = 0"
  unfolding IcmpChecksum_def icmp_packet_def
  by (rule checksum_verifies [OF _ _ refl]) (use assms in simp_all)

lemma first_device_eq: "first_device s = Net_GetDevice s 0"
  by (auto simp: first_device_def Net_GetDevice_def MAX_NETWORK_DEVICES_def upt_conv_Cons split: option.splits)

text \<open>What \<open>IpSend\<close> puts on the wire when the destination is known.\<close>

lemma IpSend_sends:
  assumes "arp_lookup dest_ip (arp_cache s) = Some dest_mac"
    and "devices s = dev # devs" and "dev_mac dev = Some src_mac"
    and "length payload \<le> 65501"
    and "\<And>n. n \<le> length payload + 34 \<Longrightarrow> alloc n"
  shows "IpSend alloc dest_ip p payload s =
    (let n = 20 + length payload
     in Some (send_packet 0 (eth_header dest_mac src_mac
          @ ip_header n p (IpChecksum (ip_header n p 0 dest_ip)) dest_ip @ payload) s))"
  using assms by (simp add: IpSend_def ArpResolve_def Let_def first_device_eq Net_GetDevice_def)

lemma bytes_at_append_left: "off + n \<le> length xs \<Longrightarrow> bytes_at off n (xs @ ys) = bytes_at off n xs"
  by (simp add: bytes_at_def)

lemma bytes_at_append_right: "length xs \<le> off \<Longrightarrow> bytes_at off n (xs @ ys) = bytes_at (off - length xs) n ys"
  by (simp add: bytes_at_def)

lemma bytes_at_all: "length xs = n \<Longrightarrow> bytes_at 0 n xs = xs"
  by (simp add: bytes_at_def)

lemmas bytes_at_simps = bytes_at_append_left bytes_at_append_right bytes_at_all

text \<open>
  C30: an echo request is answered.  When the sender of the request is in the address cache, the
  \<open>get_mac_address\<close> of the first device returns a pointer and memory is available, the packet handler
  sends one frame: to the sender's MAC address, with the six bytes behind that pointer as its source
  address (which are the MAC address only if the driver function returns one), with an IP header from
  10.0.2.15 to the sender and an ICMP echo reply that carries the identifier, the sequence number and
  the data of the request; the receiver's checksum test of both headers comes out 0, whatever the data
  and its length up to 65521 bytes of packet.
\<close>
theorem echo_request_answered:
  assumes cached: "arp_lookup (bytes_at 12 4 ip) (arp_cache s) = Some dest_mac" "length dest_mac = 6"
    and dev: "devices s = dev # devs" "dev_mac dev = Some src_mac" "length src_mac = 6"
    and alloc: "\<And>n. n \<le> len + 14 \<Longrightarrow> alloc n"
    and len: "28 \<le> len" "len \<le> 65521" "len \<le> length ip"
    and icmp: "ip ! 9 = 1" "ip ! 20 = 8"
  shows "\<exists>frame. IpHandlePacket alloc ip len s = Some (send_packet 0 frame s)
    \<and> bytes_at 0 6 frame = dest_mac \<and> bytes_at 6 6 frame = src_mac \<and> bytes_at 12 2 frame = [0x08, 0x00]
    \<and> bytes_at 26 4 frame = [10, 0, 2, 15] \<and> bytes_at 30 4 frame = bytes_at 12 4 ip
    \<and> IpChecksum (bytes_at 14 20 frame) = 0
    \<and> bytes_at 34 2 frame = [0, 0] \<and> drop 38 frame = bytes_at 24 (len - 24) ip
    \<and> IcmpChecksum (drop 34 frame) = 0"
proof -
  define src where "src = bytes_at 12 4 ip"
  define rest where "rest = bytes_at 4 (len - 24) (drop 20 ip)"
  define reply where "reply = icmp_packet 0 (IcmpChecksum (icmp_packet 0 0 rest)) rest"
  define hdr where "hdr = ip_header len 1 (IpChecksum (ip_header len 1 0 src)) src"
  define frame where "frame = eth_header dest_mac src_mac @ hdr @ reply"
  have src: "length src = 4" using len by (simp add: src_def bytes_at_def)
  have rest: "length rest = len - 24" "rest = bytes_at 24 (len - 24) ip"
    using len by (simp_all add: rest_def bytes_at_def)
  have reply: "length reply = len - 20"
    using len rest(1) by (simp add: reply_def icmp_packet_def)
  have eth: "length (eth_header dest_mac src_mac) = 14"
    by (simp add: eth_header_def cached dev)
  have hd: "length hdr = 20" using src by (simp add: hdr_def)
  have h: "hd (drop 20 ip) = 8"
    using icmp(2) len by (simp add: hd_drop_conv_nth)
  have u16: "(len + 65536 - 20) mod 65536 = len - 20"
    using len by (simp add: mod_if)
  have b: "\<not> length ip - 20 < len - 20" "\<not> len - 20 < 8" "\<not> length ip < 10" "\<not> length ip \<le> 20"
      "len - 20 - 4 = len - 24"
    using len by linarith+
  have "IpHandlePacket alloc ip len s = IpSend alloc src 1 reply s"
    using b icmp(1) h alloc [of "len - 20"] unfolding IpHandlePacket_def u16
    by (simp add: IcmpHandlePacket_def Let_def src_def reply_def rest_def diff_diff_left)
  also have "\<dots> = Some (send_packet 0 frame s)"
    using cached dev len reply alloc
    by (subst IpSend_sends [where dest_mac = dest_mac and src_mac = src_mac])
      (simp_all add: src_def [symmetric] Let_def frame_def hdr_def)
  finally have run: "IpHandlePacket alloc ip len s = Some (send_packet 0 frame s)" .
  have body: "drop 34 frame = reply" "bytes_at 14 20 frame = hdr"
    using eth hd by (simp_all add: frame_def bytes_at_def)
  have ck: "IpChecksum (bytes_at 14 20 frame) = 0" "IcmpChecksum (drop 34 frame) = 0"
    unfolding body
    using IpChecksum_ip_header [OF src] IcmpChecksum_icmp_packet [of rest 0] len rest(1)
    by (simp_all add: hdr_def reply_def)
  have macs: "bytes_at 0 6 frame = dest_mac" "bytes_at 6 6 frame = src_mac" "bytes_at 12 2 frame = [0x08, 0x00]"
    by (simp_all add: frame_def eth_header_def bytes_at_def cached dev le16_def bswap16_def)
  have ips: "bytes_at 26 4 frame = [10, 0, 2, 15]" "bytes_at 30 4 frame = src"
    using eth src by (simp_all add: frame_def bytes_at_def hdr_def ip_header_def le16_def own_ip_def)
  have "bytes_at 34 2 frame = [0, 0]" "drop 38 frame = rest"
    using eth hd by (simp_all add: frame_def bytes_at_def reply_def icmp_packet_def le16_def)
  then show ?thesis
    using run macs ips ck rest(2) src_def by metis
qed

definition demo_ip :: "u8 list" where
  "demo_ip = [0x45, 0, 0, 32, 0, 1, 0, 0, 64, 1, 0, 0, 10, 0, 2, 2, 10, 0, 2, 15,
     8, 0, 0, 0, 0x12, 0x34, 0, 1, 0xAA, 0xBB, 0xCC, 0xDD]"

definition demo_net :: net where
  "demo_net = \<lparr>devices = [\<lparr>dev_name = ''E1000'', dev_mac = Some [1, 2, 3, 4, 5, 6]\<rparr>],
     arp_cache = \<lparr>arp_ip = [10, 0, 2, 2], arp_mac = [9, 9, 9, 9, 9, 9], arp_state = ARP_STATE_RESOLVED\<rparr>
       # replicate 15 empty_entry, sent = []\<rparr>"

theorem echo_request_answered_witness:
  "\<exists>frame. IpHandlePacket (\<lambda>_. True) demo_ip 32 demo_net = Some (send_packet 0 frame demo_net)
    \<and> bytes_at 0 6 frame = [9, 9, 9, 9, 9, 9] \<and> IpChecksum (bytes_at 14 20 frame) = 0
    \<and> drop 38 frame = [0x12, 0x34, 0, 1, 0xAA, 0xBB, 0xCC, 0xDD] \<and> IcmpChecksum (drop 34 frame) = 0"
proof -
  have "\<exists>frame. IpHandlePacket (\<lambda>_. True) demo_ip 32 demo_net = Some (send_packet 0 frame demo_net)
    \<and> bytes_at 0 6 frame = [9, 9, 9, 9, 9, 9] \<and> bytes_at 6 6 frame = [1, 2, 3, 4, 5, 6]
    \<and> bytes_at 12 2 frame = [0x08, 0x00]
    \<and> bytes_at 26 4 frame = [10, 0, 2, 15] \<and> bytes_at 30 4 frame = bytes_at 12 4 demo_ip
    \<and> IpChecksum (bytes_at 14 20 frame) = 0
    \<and> bytes_at 34 2 frame = [0, 0] \<and> drop 38 frame = bytes_at 24 (32 - 24) demo_ip
    \<and> IcmpChecksum (drop 34 frame) = 0"
    by (rule echo_request_answered [where dev = "\<lparr>dev_name = ''E1000'', dev_mac = Some [1, 2, 3, 4, 5, 6]\<rparr>"
          and devs = "[]"])
      (simp_all add: demo_net_def demo_ip_def bytes_at_def arp_lookup_def)
  moreover have "bytes_at 24 (32 - 24) demo_ip = [0x12, 0x34, 0, 1, 0xAA, 0xBB, 0xCC, 0xDD]"
    by (simp add: demo_ip_def bytes_at_def)
  ultimately show ?thesis by metis
qed

section \<open>The address cache\<close>

fun arp_packed :: "ArpCacheEntry list \<Rightarrow> bool" where
  "arp_packed [] = True"
| "arp_packed (e # es) =
    (if arp_state e = ARP_STATE_EMPTY then list_all (\<lambda>e. arp_state e = ARP_STATE_EMPTY) es
     else arp_state e = ARP_STATE_RESOLVED \<and> arp_packed es)"

definition arp_abs :: "ArpCacheEntry list \<Rightarrow> (u8 list \<times> u8 list) list" where
  "arp_abs es = map (\<lambda>e. (arp_ip e, arp_mac e)) (filter (\<lambda>e. arp_state e = ARP_STATE_RESOLVED) es)"

lemma arp_lookup_abs: "arp_lookup ip es = map_of (arp_abs es) ip"
  by (induction es) (auto simp: arp_lookup_def arp_abs_def)

lemma arp_abs_empty: "list_all (\<lambda>e. arp_state e = ARP_STATE_EMPTY) es \<Longrightarrow> arp_abs es = []"
  by (induction es) (auto simp: arp_abs_def)

lemma arp_insert_abs:
  assumes "arp_packed es"
  shows "arp_packed (arp_insert ip mac es) \<and> length (arp_insert ip mac es) = length es
    \<and> arp_abs (arp_insert ip mac es) = take (length es) (arp_abs es @ [(ip, mac)])"
  using assms
proof (induction es)
  case (Cons e es)
  show ?case
  proof (cases "arp_state e = ARP_STATE_EMPTY")
    case True
    then have empty: "list_all (\<lambda>e. arp_state e = ARP_STATE_EMPTY) es" using Cons.prems by simp
    then have "arp_packed es" by (cases es) simp_all
    then show ?thesis
      using True arp_abs_empty [OF empty] by (simp add: arp_abs_def)
  next
    case False
    then show ?thesis
      using Cons by (simp add: arp_abs_def)
  qed
qed (simp add: arp_abs_def)

fun arp_receive :: "u8 list list \<Rightarrow> net \<Rightarrow> net option" where
  "arp_receive [] s = Some s"
| "arp_receive (f # fs) s = Option.bind (ArpHandlePacket f (length f) s) (arp_receive fs)"

definition arp_replies :: "u8 list list \<Rightarrow> (u8 list \<times> u8 list) list" where
  "arp_replies fs = map (\<lambda>f. (bytes_at 28 4 f, bytes_at 22 6 f))
     (filter (\<lambda>f. 42 \<le> length f \<and> bytes_at 20 2 f = [0, 2]) fs)"

lemma arp_receive_abs:
  assumes "arp_packed (arp_cache s)"
  shows "\<exists>s'. arp_receive fs s = Some s' \<and> arp_abs (arp_cache s')
     = take (length (arp_cache s)) (arp_abs (arp_cache s) @ arp_replies fs)"
  using assms
proof (induction fs arbitrary: s)
  case Nil
  have "length (arp_abs (arp_cache s)) \<le> length (arp_cache s)"
    by (simp add: arp_abs_def)
  then show ?case by (simp add: arp_replies_def)
next
  case (Cons f fs)
  have r: "le16 (bswap16 2) = [0, 2]"
    by (simp add: le16_def bswap16_def)
  show ?case
  proof (cases "42 \<le> length f \<and> bytes_at 20 2 f = [0, 2]")
    case True
    let ?c = "arp_insert (bytes_at 28 4 f) (bytes_at 22 6 f) (arp_cache s)"
    have h: "ArpHandlePacket f (length f) s = Some (s\<lparr>arp_cache := ?c\<rparr>)"
      using True by (simp add: ArpHandlePacket_def r)
    have c: "arp_packed ?c" "length ?c = length (arp_cache s)"
      "arp_abs ?c = take (length (arp_cache s)) (arp_abs (arp_cache s) @ [(bytes_at 28 4 f, bytes_at 22 6 f)])"
      using arp_insert_abs [OF Cons.prems] by blast+
    have t: "take n (take n xs @ ys) = take n (xs @ ys)" for n and xs ys :: "(u8 list \<times> u8 list) list"
      by (cases "n \<le> length xs") simp_all
    have "arp_replies (f # fs) = [(bytes_at 28 4 f, bytes_at 22 6 f)] @ arp_replies fs"
      using True by (simp add: arp_replies_def)
    then show ?thesis
      using Cons.IH [of "s\<lparr>arp_cache := ?c\<rparr>"] c
      by (simp add: h t del: take_append)
  next
    case False
    then have "ArpHandlePacket f (length f) s = Some s" "arp_replies (f # fs) = arp_replies fs"
      by (auto simp: ArpHandlePacket_def r arp_replies_def)
    then show ?thesis using Cons by simp
  qed
qed

text \<open>
  C31: the address cache holds the first sixteen replies.  After any sequence of received frames from
  an initialised cache, an address resolves to the MAC address of the first reply that named it,
  if that reply was among the first sixteen replies of all, and is not resolved otherwise.  A later
  reply never changes an entry, and replies that repeat an address use up entries.
\<close>
theorem arp_cache_is_first_replies:
  assumes "length (arp_cache s) = 16"
  shows "\<exists>s'. arp_receive fs (ArpInit s) = Some s'
     \<and> (\<forall>ip. arp_lookup ip (arp_cache s') = map_of (take 16 (arp_replies fs)) ip)"
proof -
  have empty: "list_all (\<lambda>e. arp_state e = ARP_STATE_EMPTY) (arp_cache (ArpInit s))"
    by (simp add: ArpInit_def list_all_iff)
  then have "arp_packed (arp_cache (ArpInit s))"
    by (cases "arp_cache (ArpInit s)") simp_all
  from arp_receive_abs [OF this, of fs] show ?thesis
    using assms arp_abs_empty [OF empty] by (auto simp: arp_lookup_abs ArpInit_def)
qed

definition demo_reply :: "u8 \<Rightarrow> u8 list" where
  "demo_reply m = replicate 12 0 @ [8, 6, 0, 1, 8, 0, 6, 4, 0, 2] @ replicate 6 m @ [10, 0, 2, 2] @ replicate 10 0"

theorem arp_cache_is_first_replies_witness:
  "\<exists>s'. arp_receive [demo_reply 7, demo_reply 8] (ArpInit demo_net) = Some s'
     \<and> arp_lookup [10, 0, 2, 2] (arp_cache s') = Some [7, 7, 7, 7, 7, 7]"
proof -
  have n: "length (arp_cache demo_net) = 16" by (simp add: demo_net_def)
  have "map_of (take 16 (arp_replies [demo_reply 7, demo_reply 8])) [10, 0, 2, 2]
      = Some [7, 7, 7, 7, 7, 7]"
    by (simp add: arp_replies_def demo_reply_def bytes_at_def eval_nat_numeral)
  then show ?thesis
    using arp_cache_is_first_replies [OF n, of "[demo_reply 7, demo_reply 8]"] by metis
qed

end
