(* ===== verification/MemOps.thy ===== *)
theory MemOps
  imports StringOps "HOL-Library.Monad_Syntax"
begin

text \<open>
  The memory primitives: \<open>src/mm/MemOps.c\<close> and the routines of \<open>src/mm/asm\<close> it dispatches to
  (\<open>memcpy.asm\<close>, \<open>memset.asm\<close>, \<open>memcmp.asm\<close>, \<open>zeropage.asm\<close>).

  The assembly is embedded on a register machine: a \<open>cpu\<close> has the byte memory, the general
  registers the routines use and the stack.  Registers are natural numbers, buffers do not wrap
  around the end of the address space.  A vector load or store with an alignment requirement on
  a misaligned address, and a pop from an empty stack, are faults (\<open>None\<close>).  \<open>ret\<close> pops the address
  the routine returns to.  The vector registers are only used to carry bytes from loads to stores;
  \<open>rax\<close> is written by the last instruction of every copy, so its use as a scratch register before
  that is not recorded.  Fences and the non-temporal hint have no effect in this memory.
\<close>

section \<open>The machine\<close>

record cpu =
  mem :: bmem
  rax :: nat
  rbx :: nat
  rcx :: nat
  rdx :: nat
  rsi :: nat
  rdi :: nat
  stk :: "nat list"

definition load :: "bmem \<Rightarrow> nat \<Rightarrow> nat \<Rightarrow> u8 list" where
  "load m a w = map (\<lambda>i. m (a + i)) [0..<w]"

definition store :: "nat \<Rightarrow> u8 list \<Rightarrow> bmem \<Rightarrow> bmem" where
  "store a bs m = (\<lambda>x. if a \<le> x \<and> x < a + length bs then bs ! (x - a) else m x)"

text \<open>
  \<open>copy_vec al w l\<close> loads \<open>l\<close> vector registers of \<open>w\<close> bytes from \<open>rsi\<close>, stores them to \<open>rdi\<close> in turn
  and advances both; \<open>al\<close> selects the instructions that require alignment (\<open>movdqa\<close>, \<open>movntdq\<close>).
  \<open>copy_reg w\<close> does the same through a general register; it is also one step of \<open>movsb\<close>.
\<close>

definition copy_vec :: "bool \<Rightarrow> nat \<Rightarrow> nat \<Rightarrow> cpu \<Rightarrow> cpu option" where
  "copy_vec al w l c =
     (if al \<and> (rsi c mod w \<noteq> 0 \<or> rdi c mod w \<noteq> 0) then None
      else let regs = map (\<lambda>k. load (mem c) (rsi c + k * w) w) [0..<l] in
        Some (c\<lparr>mem := fold (\<lambda>k m. store (rdi c + k * w) (regs ! k) m) [0..<l] (mem c),
                rsi := rsi c + l * w, rdi := rdi c + l * w\<rparr>))"

definition copy_reg :: "nat \<Rightarrow> cpu \<Rightarrow> cpu option" where
  "copy_reg w c =
     Some (c\<lparr>mem := store (rdi c) (load (mem c) (rsi c) w) (mem c), rsi := rsi c + w, rdi := rdi c + w\<rparr>)"

text \<open>A loop \<open>... dec rcx; jnz loop\<close> entered with \<open>rcx = n\<close>, skipped for \<open>n = 0\<close>.\<close>

fun dec_loop :: "(cpu \<Rightarrow> cpu option) \<Rightarrow> nat \<Rightarrow> cpu \<Rightarrow> cpu option" where
  "dec_loop body 0 c = Some c"
| "dec_loop body (Suc n) c = do { c \<leftarrow> body c; dec_loop body n (c\<lparr>rcx := n\<rparr>) }"

text \<open>\<open>mov rcx, rdx; shr rcx, log w; and rcx, 1; jz next\<close> before a stage that moves \<open>w\<close> bytes.\<close>

definition if_bit :: "nat \<Rightarrow> (cpu \<Rightarrow> cpu option) \<Rightarrow> cpu \<Rightarrow> cpu option" where
  "if_bit w stage c =
     (let c = c\<lparr>rcx := rdx c div w mod 2\<rparr> in if rcx c = 0 then Some c else stage c)"

definition last_byte :: "cpu \<Rightarrow> cpu option" where
  "last_byte c =
     (let c = c\<lparr>rdx := rdx c mod 2\<rparr> in
      if rdx c = 0 then Some c else Some (c\<lparr>mem := (mem c)(rdi c := mem c (rsi c))\<rparr>))"

definition rep_movsb :: "cpu \<Rightarrow> cpu option" where
  "rep_movsb c = dec_loop (copy_reg 1) (rdx c) (c\<lparr>rcx := rdx c\<rparr>)"

definition enter :: "cpu \<Rightarrow> cpu" where
  "enter c = c\<lparr>stk := rsi c # rcx c # rbx c # stk c\<rparr>"

definition leave :: "cpu \<Rightarrow> (nat \<times> cpu) option" where
  "leave c =
     (case stk c of
        si # cx # bx # ret # st \<Rightarrow> Some (ret, c\<lparr>rsi := si, rcx := cx, rbx := bx, rax := rdi c, stk := st\<rparr>)
      | _ \<Rightarrow> None)"

section \<open>memcpy.asm\<close>

definition copy_tail :: "cpu \<Rightarrow> cpu option" where
  "copy_tail c = do {
     c \<leftarrow> if_bit 8 (copy_reg 8) c;
     c \<leftarrow> if_bit 4 (copy_reg 4) c;
     c \<leftarrow> if_bit 2 (copy_reg 2) c;
     last_byte c }"

definition sse2_aligned :: "cpu \<Rightarrow> cpu option" where
  "sse2_aligned c = do {
     c \<leftarrow> (if rdx c div 128 = 0 then copy_vec True 16 4 c
           else do {
             c \<leftarrow> dec_loop (copy_vec True 16 8) (rdx c div 128) (c\<lparr>rcx := rdx c div 128\<rparr>);
             if_bit 64 (copy_vec True 16 4) c });
     c \<leftarrow> if_bit 32 (copy_vec True 16 2) c;
     c \<leftarrow> if_bit 16 (copy_vec True 16 1) c;
     copy_tail c }"

definition sse2_unaligned :: "cpu \<Rightarrow> cpu option" where
  "sse2_unaligned c = do {
     c \<leftarrow> dec_loop (copy_vec False 16 1) (rdx c div 16) (c\<lparr>rcx := rdx c div 16\<rparr>);
     copy_tail c }"

definition memcpy_internal_sse2 :: "cpu \<Rightarrow> (nat \<times> cpu) option" where
  "memcpy_internal_sse2 c =
     (let c = enter c in do {
        c \<leftarrow> (if rdx c = 0 then Some c
              else if rdx c < 128 then rep_movsb c
              else if rdi c mod 16 \<noteq> 0 \<or> rsi c mod 16 \<noteq> 0 then sse2_unaligned c
              else sse2_aligned c);
        leave c })"

definition memcpy_internal_sse2_wc :: "cpu \<Rightarrow> (nat \<times> cpu) option" where
  "memcpy_internal_sse2_wc c =
     (let c = enter c in do {
        c \<leftarrow> (if rdx c = 0 then Some c
              else if rdx c < 128 then rep_movsb c
              else if rdi c mod 16 \<noteq> 0 \<or> rsi c mod 16 \<noteq> 0 then sse2_unaligned c
              else sse2_aligned c);
        leave c })"

text \<open>
  The test for the instruction set: \<open>push rbx; mov eax, 7; xor ecx, ecx; cpuid; pop rbx\<close>.  The
  argument is what \<open>cpuid\<close> leaves in \<open>ebx\<close>, \<open>ecx\<close> and \<open>edx\<close>.
\<close>

definition cpuid_leaf7 :: "nat \<times> nat \<times> nat \<Rightarrow> cpu \<Rightarrow> cpu option" where
  "cpuid_leaf7 leaf c =
     (let c = c\<lparr>stk := rbx c # stk c\<rparr>;
          c = (case leaf of (bx, cx, dx) \<Rightarrow> c\<lparr>rbx := bx, rcx := cx, rdx := dx\<rparr>)
      in case stk c of bx # st \<Rightarrow> Some (c\<lparr>rbx := bx, stk := st\<rparr>) | [] \<Rightarrow> None)"

definition avx2_aligned :: "cpu \<Rightarrow> cpu option" where
  "avx2_aligned c = do {
     c \<leftarrow> (if rdx c div 256 = 0 then copy_vec True 32 4 c
           else do {
             c \<leftarrow> dec_loop (copy_vec True 32 8) (rdx c div 256) (c\<lparr>rcx := rdx c div 256\<rparr>);
             if_bit 128 (copy_vec True 32 4) c });
     c \<leftarrow> if_bit 64 (copy_vec True 32 2) c;
     c \<leftarrow> if_bit 32 (copy_vec True 32 1) c;
     c \<leftarrow> if_bit 16 (copy_vec True 16 1) c;
     copy_tail c }"

definition avx2_unaligned :: "cpu \<Rightarrow> cpu option" where
  "avx2_unaligned c = do {
     c \<leftarrow> dec_loop (copy_vec False 32 1) (rdx c div 32) (c\<lparr>rcx := rdx c div 32\<rparr>);
     c \<leftarrow> if_bit 16 (copy_vec False 16 1) c;
     copy_tail c }"

definition avx2_copy :: "cpu \<Rightarrow> (nat \<times> cpu) option" where
  "avx2_copy c = do {
     c \<leftarrow> (if rdx c < 256 then rep_movsb c
           else if rdi c mod 32 \<noteq> 0 \<or> rsi c mod 32 \<noteq> 0 then avx2_unaligned c
           else avx2_aligned c);
     leave c }"

definition memcpy_internal_avx2 :: "nat \<times> nat \<times> nat \<Rightarrow> cpu \<Rightarrow> (nat \<times> cpu) option" where
  "memcpy_internal_avx2 leaf c =
     (let c = enter c in
      if rdx c = 0 then leave c
      else do {
        c \<leftarrow> cpuid_leaf7 leaf c;
        if \<not> bit (rbx c) 5 then memcpy_internal_sse2 c else avx2_copy c })"

definition memcpy_internal_avx2_wc :: "nat \<times> nat \<times> nat \<Rightarrow> cpu \<Rightarrow> (nat \<times> cpu) option" where
  "memcpy_internal_avx2_wc leaf c =
     (let c = enter c in
      if rdx c = 0 then leave c
      else do {
        c \<leftarrow> cpuid_leaf7 leaf c;
        if \<not> bit (rbx c) 5 then memcpy_internal_sse2_wc c else avx2_copy c })"

definition avx512_aligned :: "cpu \<Rightarrow> cpu option" where
  "avx512_aligned c = do {
     c \<leftarrow> (if rdx c div 512 = 0 then copy_vec True 64 4 c
           else do {
             c \<leftarrow> dec_loop (copy_vec True 64 8) (rdx c div 512) (c\<lparr>rcx := rdx c div 512\<rparr>);
             if_bit 256 (copy_vec True 64 4) c });
     c \<leftarrow> if_bit 128 (copy_vec True 64 2) c;
     c \<leftarrow> if_bit 64 (copy_vec True 64 1) c;
     c \<leftarrow> if_bit 32 (copy_vec True 32 1) c;
     c \<leftarrow> if_bit 16 (copy_vec True 16 1) c;
     copy_tail c }"

definition avx512_unaligned :: "cpu \<Rightarrow> cpu option" where
  "avx512_unaligned c = do {
     c \<leftarrow> dec_loop (copy_vec False 64 1) (rdx c div 64) (c\<lparr>rcx := rdx c div 64\<rparr>);
     c \<leftarrow> if_bit 32 (copy_vec False 32 1) c;
     c \<leftarrow> if_bit 16 (copy_vec False 16 1) c;
     copy_tail c }"

definition avx512_copy :: "cpu \<Rightarrow> (nat \<times> cpu) option" where
  "avx512_copy c = do {
     c \<leftarrow> (if rdx c < 512 then rep_movsb c
           else if rdi c mod 64 \<noteq> 0 \<or> rsi c mod 64 \<noteq> 0 then avx512_unaligned c
           else avx512_aligned c);
     leave c }"

definition memcpy_internal_avx512 :: "nat \<times> nat \<times> nat \<Rightarrow> cpu \<Rightarrow> (nat \<times> cpu) option" where
  "memcpy_internal_avx512 leaf c =
     (let c = enter c in
      if rdx c = 0 then leave c
      else do {
        c \<leftarrow> cpuid_leaf7 leaf c;
        if \<not> bit (rbx c) 16 then memcpy_internal_avx2 leaf c else avx512_copy c })"

definition memcpy_internal_avx512_wc :: "nat \<times> nat \<times> nat \<Rightarrow> cpu \<Rightarrow> (nat \<times> cpu) option" where
  "memcpy_internal_avx512_wc leaf c =
     (let c = enter c in
      if rdx c = 0 then leave c
      else do {
        c \<leftarrow> cpuid_leaf7 leaf c;
        if \<not> bit (rbx c) 16 then memcpy_internal_avx2_wc leaf c else avx512_copy c })"

section \<open>memset.asm and zeropage.asm\<close>

text \<open>
  \<open>fill_vec al w l\<close> stores \<open>l\<close> vectors of \<open>w\<close> bytes at \<open>rdi\<close> and advances it; the vector repeats the
  four bytes of \<open>eax\<close>.
\<close>

definition lane_byte :: "nat \<Rightarrow> nat \<Rightarrow> u8" where
  "lane_byte v i = word_of_nat (v div 256 ^ (i mod 4))"

definition fill_vec :: "bool \<Rightarrow> nat \<Rightarrow> nat \<Rightarrow> cpu \<Rightarrow> cpu option" where
  "fill_vec al w l c =
     (if al \<and> rdi c mod w \<noteq> 0 then None
      else Some (c\<lparr>mem := fold (\<lambda>k. store (rdi c + k * w) (map (lane_byte (rax c)) [0..<w])) [0..<l] (mem c),
                   rdi := rdi c + l * w\<rparr>))"

definition leave_fill :: "cpu \<Rightarrow> (nat \<times> cpu) option" where
  "leave_fill c =
     (case stk c of cx # bx # ret # st \<Rightarrow> Some (ret, c\<lparr>rcx := cx, rbx := bx, stk := st\<rparr>) | _ \<Rightarrow> None)"

definition broadcast :: "cpu \<Rightarrow> cpu" where
  "broadcast c =
     (let c = c\<lparr>stk := rcx c # rbx c # stk c\<rparr>;
          c = c\<lparr>rcx := rsi c mod 256\<rparr>
      in c\<lparr>rax := rcx c * 0x01010101 mod 2 ^ 32\<rparr>)"

definition memset_internal_sse2 :: "cpu \<Rightarrow> (nat \<times> cpu) option" where
  "memset_internal_sse2 c =
     (let c = broadcast c in do {
        c \<leftarrow> dec_loop (fill_vec False 16 4) (rdx c div 64) (c\<lparr>rcx := rdx c div 64\<rparr>);
        c \<leftarrow> dec_loop (fill_vec False 16 1) (rdx c mod 64 div 16) (c\<lparr>rcx := rdx c mod 64 div 16\<rparr>);
        leave_fill c })"

definition memset_internal_avx2 :: "cpu \<Rightarrow> (nat \<times> cpu) option" where
  "memset_internal_avx2 c =
     (let c = broadcast c in do {
        c \<leftarrow> dec_loop (fill_vec False 32 8) (rdx c div 256) (c\<lparr>rcx := rdx c div 256\<rparr>);
        c \<leftarrow> dec_loop (fill_vec False 32 1) (rdx c mod 256 div 32) (c\<lparr>rcx := rdx c mod 256 div 32\<rparr>);
        leave_fill c })"

definition memset_internal_avx512 :: "cpu \<Rightarrow> (nat \<times> cpu) option" where
  "memset_internal_avx512 c =
     (let c = broadcast c in do {
        c \<leftarrow> dec_loop (fill_vec False 64 8) (rdx c div 512) (c\<lparr>rcx := rdx c div 512\<rparr>);
        c \<leftarrow> dec_loop (fill_vec False 64 1) (rdx c mod 512 div 64) (c\<lparr>rcx := rdx c mod 512 div 64\<rparr>);
        leave_fill c })"

text \<open>The page routines clear a vector register (\<open>pxor\<close>) and leave \<open>rax\<close> alone; the vector is zero.\<close>

definition zero_vec :: "nat \<Rightarrow> nat \<Rightarrow> cpu \<Rightarrow> cpu option" where
  "zero_vec w l c = map_option (\<lambda>c'. c'\<lparr>rax := rax c\<rparr>) (fill_vec True w l (c\<lparr>rax := 0\<rparr>))"

definition zeropage_internal_sse2 :: "cpu \<Rightarrow> (nat \<times> cpu) option" where
  "zeropage_internal_sse2 c =
     (let c = c\<lparr>stk := rcx c # rbx c # stk c\<rparr> in do {
        c \<leftarrow> dec_loop (zero_vec 16 8) (4096 div 128) (c\<lparr>rcx := 4096 div 128\<rparr>);
        leave_fill c })"

definition zeropage_internal_avx2 :: "cpu \<Rightarrow> (nat \<times> cpu) option" where
  "zeropage_internal_avx2 c =
     (let c = c\<lparr>stk := rcx c # rbx c # stk c\<rparr> in do {
        c \<leftarrow> dec_loop (zero_vec 32 8) (4096 div 256) (c\<lparr>rcx := 4096 div 256\<rparr>);
        leave_fill c })"

definition zeropage_internal_avx512 :: "cpu \<Rightarrow> (nat \<times> cpu) option" where
  "zeropage_internal_avx512 c =
     (let c = c\<lparr>stk := rcx c # rbx c # stk c\<rparr> in do {
        c \<leftarrow> dec_loop (zero_vec 64 8) (4096 div 512) (c\<lparr>rcx := 4096 div 512\<rparr>);
        leave_fill c })"

section \<open>memcmp.asm\<close>

text \<open>
  \<open>eq_mask w\<close> is the mask \<open>pcmpeqb\<close> and \<open>pmovmskb\<close> leave, one bit per equal byte; \<open>ne_mask w\<close> is the mask
  of \<open>vpcmpub\<close> with predicate 4, one bit per different byte.  \<open>cmp_loop\<close> is the loop over the
  vectors, left with \<open>True\<close> at the first vector that differs.  \<open>bsf\<close> of zero has no defined result.
  Registers a caller has to save are not recorded after the return; \<open>rbx\<close> is not one of them.
\<close>

definition eq_mask :: "nat \<Rightarrow> cpu \<Rightarrow> nat" where
  "eq_mask w c = horner_sum of_bool 2 (map (\<lambda>i. mem c (rdi c + i) = mem c (rsi c + i)) [0..<w])"

definition ne_mask :: "nat \<Rightarrow> cpu \<Rightarrow> nat" where
  "ne_mask w c = horner_sum of_bool 2 (map (\<lambda>i. mem c (rdi c + i) \<noteq> mem c (rsi c + i)) [0..<w])"

fun cmp_loop :: "nat \<Rightarrow> (cpu \<Rightarrow> nat) \<Rightarrow> (nat \<Rightarrow> bool) \<Rightarrow> nat \<Rightarrow> cpu \<Rightarrow> bool \<times> cpu" where
  "cmp_loop w vmask differs 0 c = (False, c)"
| "cmp_loop w vmask differs (Suc n) c =
     (let c = c\<lparr>rax := vmask c\<rparr> in
      if differs (rax c) then (True, c)
      else cmp_loop w vmask differs n (c\<lparr>rdi := rdi c + w, rsi := rsi c + w, rcx := n\<rparr>))"

fun repe_cmpsb :: "nat \<Rightarrow> bool \<Rightarrow> cpu \<Rightarrow> bool \<times> cpu" where
  "repe_cmpsb 0 zf c = (zf, c)"
| "repe_cmpsb (Suc n) zf c =
     (let eq = (mem c (rdi c) = mem c (rsi c));
          c = c\<lparr>rdi := rdi c + 1, rsi := rsi c + 1, rcx := n\<rparr>
      in if eq then repe_cmpsb n True c else (False, c))"

definition bsf :: "nat \<Rightarrow> nat option" where
  "bsf n = List.find (\<lambda>i. bit n i) [0..<64]"

definition byte_diff :: "cpu \<Rightarrow> nat \<Rightarrow> int" where
  "byte_diff c i = uint (mem c (rdi c + i)) - uint (mem c (rsi c + i))"

definition memcmp_internal_sse2 :: "cpu \<Rightarrow> (int \<times> cpu) option" where
  "memcmp_internal_sse2 c =
     (case cmp_loop 16 (eq_mask 16) (\<lambda>m. m \<noteq> 0xFFFF) (rdx c div 16) (c\<lparr>rax := 0, rcx := rdx c div 16\<rparr>) of
        (True, c) \<Rightarrow> map_option (\<lambda>i. (byte_diff c i, c)) (bsf (2 ^ 32 - 1 - rax c))
      | (False, c) \<Rightarrow>
          (case repe_cmpsb (rdx c mod 16) (rdx c mod 16 = 0) (c\<lparr>rcx := rdx c mod 16\<rparr>) of
             (True, c) \<Rightarrow> Some (0, c)
           | (False, c) \<Rightarrow>
               let c = c\<lparr>rax := unat (mem c (rdi c - 1)), rbx := unat (mem c (rsi c - 1))\<rparr>
               in Some (int (rax c) - int (rbx c), c)))"

definition memcmp_internal_avx2 :: "cpu \<Rightarrow> (int \<times> cpu) option" where
  "memcmp_internal_avx2 c =
     (let found_diff = (\<lambda>c. map_option (\<lambda>i. (byte_diff c i, c)) (bsf (2 ^ 32 - 1 - rax c))) in
      case cmp_loop 32 (eq_mask 32) (\<lambda>m. m \<noteq> 0xFFFFFFFF) (rdx c div 32) (c\<lparr>rax := 0, rcx := rdx c div 32\<rparr>) of
        (True, c) \<Rightarrow> found_diff c
      | (False, c) \<Rightarrow>
          (case repe_cmpsb (rdx c mod 32) (rdx c mod 32 = 0) (c\<lparr>rcx := rdx c mod 32\<rparr>) of
             (True, c) \<Rightarrow> Some (0, c)
           | (False, c) \<Rightarrow> found_diff c))"

definition memcmp_internal_avx512 :: "cpu \<Rightarrow> (int \<times> cpu) option" where
  "memcmp_internal_avx512 c =
     (let found_diff = (\<lambda>c. map_option (\<lambda>i. (byte_diff c i, c)) (bsf (rax c))) in
      case cmp_loop 64 (ne_mask 64) (\<lambda>m. m \<noteq> 0) (rdx c div 64) (c\<lparr>rax := 0, rcx := rdx c div 64\<rparr>) of
        (True, c) \<Rightarrow> found_diff c
      | (False, c) \<Rightarrow>
          (case repe_cmpsb (rdx c mod 64) (rdx c mod 64 = 0) (c\<lparr>rcx := rdx c mod 64\<rparr>) of
             (True, c) \<Rightarrow> Some (0, c)
           | (False, c) \<Rightarrow> found_diff c))"

section \<open>MemOps.c\<close>

text \<open>
  The C functions take the state of the machine at the call and return their value with the state
  after it.  \<open>None\<close> is a failed \<open>ASSERT\<close>, a fault, or a routine that does not return to its caller
  \<open>ret\<close>.  \<open>nt\<close> is the build option \<open>VF_CONFIG_MEMCPY_NT\<close>.
\<close>

record CpuFeatures =
  sse2 :: bool
  avx2 :: bool
  avx512f :: bool

definition call_asm :: "nat \<Rightarrow> (cpu \<Rightarrow> (nat \<times> cpu) option) \<Rightarrow> nat \<Rightarrow> nat \<Rightarrow> nat \<Rightarrow> cpu \<Rightarrow> (nat \<times> cpu) option" where
  "call_asm ret routine a b n c = do {
     (r, c) \<leftarrow> routine (c\<lparr>rdi := a, rsi := b, rdx := n, stk := ret # stk c\<rparr>);
     if r = ret then Some (rax c, c) else None }"

fun set_bytes :: "nat \<Rightarrow> nat \<Rightarrow> u8 \<Rightarrow> bmem \<Rightarrow> bmem" where
  "set_bytes d 0 val m = m"
| "set_bytes d (Suc n) val m = set_bytes (d + 1) n val (m(d := val))"

fun move_bytes :: "nat \<Rightarrow> nat \<Rightarrow> nat \<Rightarrow> bmem \<Rightarrow> bmem" where
  "move_bytes d s 0 m = m"
| "move_bytes d s (Suc n) m = move_bytes (d + 1) (s + 1) n (m(d := m s))"

fun compare_bytes :: "nat \<Rightarrow> nat \<Rightarrow> nat \<Rightarrow> bmem \<Rightarrow> int" where
  "compare_bytes p1 p2 0 m = 0"
| "compare_bytes p1 p2 (Suc n) m =
     (if m p1 \<noteq> m p2 then if m p1 < m p2 then -1 else 1 else compare_bytes (p1 + 1) (p2 + 1) n m)"

definition FastMemset :: "CpuFeatures \<Rightarrow> nat \<Rightarrow> nat option \<Rightarrow> u32 \<Rightarrow> nat \<Rightarrow> cpu \<Rightarrow> (nat \<times> cpu) option" where
  "FastMemset features ret dest value sz c = do {
     d \<leftarrow> dest;
     if sz = 0 then Some (d, c)
     else if avx512f features then call_asm ret memset_internal_avx512 d (unat value) sz c
     else if avx2 features then call_asm ret memset_internal_avx2 d (unat value) sz c
     else if sse2 features then call_asm ret memset_internal_sse2 d (unat value) sz c
     else Some (d, c\<lparr>mem := set_bytes d sz (ucast value) (mem c)\<rparr>) }"

definition FastMemcpy ::
  "CpuFeatures \<Rightarrow> bool \<Rightarrow> nat \<times> nat \<times> nat \<Rightarrow> nat \<Rightarrow> nat option \<Rightarrow> nat option \<Rightarrow> nat \<Rightarrow> cpu \<Rightarrow> (nat \<times> cpu) option" where
  "FastMemcpy features nt leaf ret dest src sz c = do {
     d \<leftarrow> dest;
     s \<leftarrow> src;
     if sz = 0 then Some (d, c)
     else if d = s then Some (d, c)
     else if nt then
       if avx512f features then call_asm ret (memcpy_internal_avx512 leaf) d s sz c
       else if avx2 features then call_asm ret (memcpy_internal_avx2 leaf) d s sz c
       else if sse2 features then call_asm ret memcpy_internal_sse2 d s sz c
       else Some (d, c\<lparr>mem := move_bytes d s sz (mem c)\<rparr>)
     else
       if avx512f features then call_asm ret (memcpy_internal_avx512_wc leaf) d s sz c
       else if avx2 features then call_asm ret (memcpy_internal_avx2_wc leaf) d s sz c
       else if sse2 features then call_asm ret memcpy_internal_sse2_wc d s sz c
       else Some (d, c\<lparr>mem := move_bytes d s sz (mem c)\<rparr>) }"

definition PAGE_SIZE :: nat where "PAGE_SIZE = 4096"

definition FastZeroPage :: "CpuFeatures \<Rightarrow> nat \<Rightarrow> nat option \<Rightarrow> cpu \<Rightarrow> cpu option" where
  "FastZeroPage features ret page c = do {
     a \<leftarrow> page;
     if avx512f features then map_option snd (call_asm ret zeropage_internal_avx512 a (rsi c) (rdx c) c)
     else if avx2 features then map_option snd (call_asm ret zeropage_internal_avx2 a (rsi c) (rdx c) c)
     else if sse2 features then map_option snd (call_asm ret zeropage_internal_sse2 a (rsi c) (rdx c) c)
     else map_option snd (FastMemset features ret (Some a) 0 PAGE_SIZE c) }"

definition FastMemcmp :: "CpuFeatures \<Rightarrow> nat option \<Rightarrow> nat option \<Rightarrow> nat \<Rightarrow> cpu \<Rightarrow> (int \<times> cpu) option" where
  "FastMemcmp features ptr1 ptr2 sz c =
     (if sz = 0 then Some (0, c)
      else do {
        p1 \<leftarrow> ptr1;
        p2 \<leftarrow> ptr2;
        let args = c\<lparr>rdi := p1, rsi := p2, rdx := sz\<rparr>;
        if avx512f features then memcmp_internal_avx512 args
        else if avx2 features then memcmp_internal_avx2 args
        else if sse2 features then memcmp_internal_sse2 args
        else Some (compare_bytes p1 p2 sz (mem c), c) })"

definition CopyToUser ::
  "CpuFeatures \<Rightarrow> bool \<Rightarrow> nat \<times> nat \<times> nat \<Rightarrow> nat \<Rightarrow> nat option \<Rightarrow> nat option \<Rightarrow> nat \<Rightarrow> cpu \<Rightarrow> (int \<times> cpu) option" where
  "CopyToUser features nt leaf ret user_dest kernel_src sz c =
     (if user_dest = None \<or> kernel_src = None then Some (-1, c)
      else do {
        (_, c) \<leftarrow> FastMemcpy features nt leaf ret user_dest kernel_src sz c;
        Some (0, c) })"

definition CopyFromUser ::
  "CpuFeatures \<Rightarrow> bool \<Rightarrow> nat \<times> nat \<times> nat \<Rightarrow> nat \<Rightarrow> nat option \<Rightarrow> nat option \<Rightarrow> nat \<Rightarrow> cpu \<Rightarrow> (int \<times> cpu) option" where
  "CopyFromUser features nt leaf ret kernel_dest user_src sz c =
     (if kernel_dest = None \<or> user_src = None then Some (-1, c)
      else do {
        (_, c) \<leftarrow> FastMemcpy features nt leaf ret kernel_dest user_src sz c;
        Some (0, c) })"

section \<open>Copying\<close>

text \<open>
  \<open>disjoint_bufs d s n\<close>: the buffers of \<open>n\<close> bytes at \<open>d\<close> and \<open>s\<close> do not overlap, as the \<open>restrict\<close>
  of the C declarations demands.  \<open>advanced n k c0 c\<close>: from \<open>c0\<close>, the first \<open>k\<close> of \<open>n\<close> bytes have been
  copied, and only the memory, the pointers and \<open>rcx\<close> have changed.
\<close>

definition disjoint_bufs :: "nat \<Rightarrow> nat \<Rightarrow> nat \<Rightarrow> bool" where
  "disjoint_bufs d s n \<longleftrightarrow> d + n \<le> s \<or> s + n \<le> d"

definition advanced :: "nat \<Rightarrow> cpu \<Rightarrow> cpu \<Rightarrow> bool" where
  "advanced k c0 c \<longleftrightarrow>
     mem c = copied (rdi c0) (rsi c0) k (mem c0) \<and> rdi c = rdi c0 + k \<and> rsi c = rsi c0 + k
     \<and> rdx c = rdx c0 \<and> rbx c = rbx c0 \<and> stk c = stk c0"

lemma advanced_refl: "advanced 0 c c"
  by (auto simp: advanced_def copied_def fun_eq_iff)

lemma advanced_rcx: "advanced k c0 (c\<lparr>rcx := v\<rparr>) \<longleftrightarrow> advanced k c0 c" "advanced k (c0\<lparr>rcx := v\<rparr>) c \<longleftrightarrow> advanced k c0 c"
  by (auto simp: advanced_def)

lemma advanced_rdx: "advanced k c0 c \<Longrightarrow> rdx c = rdx c0"
  by (simp add: advanced_def)

lemma length_load [simp]: "length (load m a w) = w"
  by (simp add: load_def)

text \<open>A block copied from memory in which the first \<open>k\<close> bytes are already copied.\<close>

lemma copied_extend:
  assumes "disjoint_bufs d s (k + w)"
  shows "store (d + k) (load (copied d s k m) (s + k) w) (copied d s k m) = copied d s (k + w) m"
proof
  fix x
  have "copied d s k m (s + k + i) = m (s + k + i)" if "i < w" for i
    using assms that by (auto simp: copied_def disjoint_bufs_def)
  then show "store (d + k) (load (copied d s k m) (s + k) w) (copied d s k m) x = copied d s (k + w) m x"
    by (auto simp: store_def load_def) (auto simp: copied_def)
qed

lemma load_copied:
  assumes "disjoint_bufs d s n" "k \<le> n" "j + w \<le> n"
  shows "load (copied d s k m) (s + j) w = load m (s + j) w"
  using assms by (auto simp: load_def copied_def disjoint_bufs_def)

lemma copied_extend_from:
  assumes "disjoint_bufs d s n" "k + w \<le> n"
  shows "store (d + k) (load m (s + k) w) (copied d s k m) = copied d s (k + w) m"
proof -
  have "disjoint_bufs d s (k + w)"
    using assms by (auto simp: disjoint_bufs_def)
  then show ?thesis
    using copied_extend [of d s k w m] load_copied [OF assms(1) _ assms(2), of k m] assms(2) by simp
qed

lemma fold_store_lanes:
  assumes "disjoint_bufs d s n" "k + l * w \<le> n"
  shows "fold (\<lambda>j. store (d + k + j * w) (load (copied d s k m) (s + k + j * w) w)) [0..<l] (copied d s k m)
    = copied d s (k + l * w) m"
  using assms(2)
proof (induction l)
  case (Suc l)
  have b: "k + l * w + w \<le> n" using Suc.prems by simp
  have "load (copied d s k m) (s + k + l * w) w = load m (s + (k + l * w)) w"
    using load_copied [OF assms(1), of k "k + l * w" w m] b by (simp add: add.assoc)
  moreover have "store (d + (k + l * w)) (load m (s + (k + l * w)) w) (copied d s (k + l * w) m)
      = copied d s (k + l * w + w) m"
    by (rule copied_extend_from [OF assms(1) b])
  ultimately show ?case
    using Suc by (simp add: algebra_simps)
qed simp

text \<open>What a stage has to do: extend the copy, without a fault, from \<open>k\<close> bytes to \<open>k + w\<close>.\<close>

definition stage_ok :: "nat \<Rightarrow> nat \<Rightarrow> nat \<Rightarrow> cpu \<Rightarrow> (cpu \<Rightarrow> cpu option) \<Rightarrow> bool" where
  "stage_ok n a w c0 stage \<longleftrightarrow>
     (\<forall>k c. advanced k c0 c \<longrightarrow> k mod a = 0 \<longrightarrow> k + w \<le> n \<longrightarrow> (\<exists>c'. stage c = Some c' \<and> advanced (k + w) c0 c'))"

lemma stage_okD:
  assumes "stage_ok n a w c0 stage" "advanced k c0 c" "k mod a = 0" "k + w \<le> n"
  obtains c' where "stage c = Some c'" "advanced (k + w) c0 c'"
  using assms(1) [unfolded stage_ok_def, rule_format, OF assms(2-4)] that by blast

lemma copy_vec_ok:
  assumes "disjoint_bufs (rdi c0) (rsi c0) n"
    and "al \<Longrightarrow> rdi c0 mod w = 0 \<and> rsi c0 mod w = 0"
  shows "stage_ok n w (l * w) c0 (copy_vec al w l)"
  unfolding stage_ok_def
proof (intro allI impI)
  fix k c
  assume a: "advanced k c0 c" and k: "k mod w = 0" and b: "k + l * w \<le> n"
  have al: "\<not> (al \<and> (rsi c mod w \<noteq> 0 \<or> rdi c mod w \<noteq> 0))"
    using a assms(2) k by (metis advanced_def mod_add_eq add_0 mod_mod_trivial)
  have "(\<lambda>j m. store (rdi c + j * w) (map (\<lambda>k. load (mem c) (rsi c + k * w) w) [0..<l] ! j) m) j
      = store (rdi c + j * w) (load (mem c) (rsi c + j * w) w)" if "j \<in> set [0..<l]" for j
    using that by auto
  then have "fold (\<lambda>j m. store (rdi c + j * w) (map (\<lambda>k. load (mem c) (rsi c + k * w) w) [0..<l] ! j) m) [0..<l] (mem c)
      = fold (\<lambda>j. store (rdi c + j * w) (load (mem c) (rsi c + j * w) w)) [0..<l] (mem c)"
    by (intro fold_cong) auto
  also have "\<dots> = copied (rdi c0) (rsi c0) (k + l * w) (mem c0)"
    using fold_store_lanes [OF assms(1) b, of "mem c0"] a by (simp add: advanced_def)
  finally show "\<exists>c'. copy_vec al w l c = Some c' \<and> advanced (k + l * w) c0 c'"
    using a al by (simp add: copy_vec_def advanced_def Let_def)
qed

lemma copy_reg_ok:
  assumes "disjoint_bufs (rdi c0) (rsi c0) n"
  shows "stage_ok n 1 w c0 (copy_reg w)"
  unfolding stage_ok_def
proof (intro allI impI)
  fix k c
  assume a: "advanced k c0 c" and b: "k + w \<le> n"
  have "disjoint_bufs (rdi c0) (rsi c0) (k + w)"
    using assms b by (auto simp: disjoint_bufs_def)
  from copied_extend [OF this, of "mem c0"] a
  show "\<exists>c'. copy_reg w c = Some c' \<and> advanced (k + w) c0 c'"
    by (simp add: copy_reg_def advanced_def)
qed

lemma dec_loop_ok:
  assumes "stage_ok n a w c0 stage" "w mod a = 0" "advanced k c0 c" "k mod a = 0" "k + r * w \<le> n"
  shows "\<exists>c'. dec_loop stage r c = Some c' \<and> advanced (k + r * w) c0 c'"
  using assms(3-)
proof (induction r arbitrary: k c)
  case (Suc r)
  then have "k + w \<le> n" by simp
  from stage_okD [OF assms(1) Suc.prems(1,2) this]
  obtain c1 where c1: "stage c = Some c1" "advanced (k + w) c0 c1" by blast
  have "(k + w) mod a = 0" using Suc.prems(2) assms(2) by (metis add_0 mod_add_eq mod_0)
  then show ?case
    using Suc.IH [of "k + w" "c1\<lparr>rcx := r\<rparr>"] c1 Suc.prems(3) by (auto simp: advanced_rcx algebra_simps)
qed auto

text \<open>
  \<open>narrows n a b c0 f\<close>: \<open>f\<close> takes a copy of all but \<open>n mod a\<close> bytes to one of all but \<open>n mod b\<close> bytes.
  \<open>finishes n a c0 f\<close>: \<open>f\<close> completes it; the last byte of an odd count does not advance the pointers.
\<close>

definition narrows :: "nat \<Rightarrow> nat \<Rightarrow> nat \<Rightarrow> cpu \<Rightarrow> (cpu \<Rightarrow> cpu option) \<Rightarrow> bool" where
  "narrows n a b c0 f \<longleftrightarrow>
     (\<forall>c. advanced (n - n mod a) c0 c \<longrightarrow> (\<exists>c'. f c = Some c' \<and> advanced (n - n mod b) c0 c'))"

definition copy_done :: "nat \<Rightarrow> nat \<Rightarrow> cpu \<Rightarrow> cpu \<Rightarrow> bool" where
  "copy_done n k c0 c \<longleftrightarrow>
     mem c = copied (rdi c0) (rsi c0) n (mem c0) \<and> rdi c = rdi c0 + k \<and> rbx c = rbx c0 \<and> stk c = stk c0"

definition finishes :: "nat \<Rightarrow> nat \<Rightarrow> cpu \<Rightarrow> (cpu \<Rightarrow> cpu option) \<Rightarrow> bool" where
  "finishes n a c0 f \<longleftrightarrow>
     (\<forall>c. advanced (n - n mod a) c0 c \<longrightarrow> (\<exists>c'. f c = Some c' \<and> copy_done n (n - n mod 2) c0 c'))"

lemma finishes_bind: "narrows n a b c0 f \<Longrightarrow> finishes n b c0 g \<Longrightarrow> finishes n a c0 (\<lambda>c. Option.bind (f c) g)"
  unfolding finishes_def narrows_def by (metis Option.bind.bind_lunit)

lemma narrows_if_bit:
  assumes "stage_ok n b w c0 stage" "b dvd w" "0 < w" "a = 2 * w" "rdx c0 = n"
  shows "narrows n a w c0 (if_bit w stage)"
  unfolding narrows_def
proof (intro allI impI)
  fix c assume adv: "advanced (n - n mod a) c0 c"
  have m: "n mod a = w * (n div w mod 2) + n mod w"
    unfolding assms(4) by (metis mod_mult2_eq mult.commute)
  have rdx: "rdx c = n" using advanced_rdx [OF adv] assms(5) by simp
  have dvd: "w dvd n - n mod a"
    unfolding assms(4) by (metis dvd_def dvd_minus_mod dvd_mult_left mult.commute)
  show "\<exists>c'. if_bit w stage c = Some c' \<and> advanced (n - n mod w) c0 c'"
  proof (cases "n div w mod 2 = 0")
    case True
    then show ?thesis using m adv rdx by (auto simp: if_bit_def advanced_rcx Let_def)
  next
    case False
    then have one: "n div w mod 2 = 1" by simp
    then have e: "n - n mod a + w = n - n mod w"
      using m mod_less_eq_dividend [of n a] by simp
    have 1: "(n - n mod a) mod b = 0"
      using dvd assms(2) by (metis dvd_trans dvd_imp_mod_0)
    have 2: "n - n mod a + w \<le> n" using e by simp
    have 3: "advanced (n - n mod a) c0 (c\<lparr>rcx := 1\<rparr>)" using adv by (simp add: advanced_rcx)
    have "if_bit w stage c = stage (c\<lparr>rcx := 1\<rparr>)"
      using one rdx by (simp add: if_bit_def Let_def)
    then show ?thesis
      using stage_okD [OF assms(1) 3 1 2] e by (metis (no_types))
  qed
qed

lemma narrows_loop:
  assumes "stage_ok n a w c0 stage" "a dvd w" "rdx c0 = n"
  shows "\<exists>c'. dec_loop stage (n div w) (c0\<lparr>rcx := v\<rparr>) = Some c' \<and> advanced (n - n mod w) c0 c'"
proof -
  have "advanced 0 c0 (c0\<lparr>rcx := v\<rparr>)" by (simp add: advanced_rcx advanced_refl)
  from dec_loop_ok [OF assms(1) _ this, of "n div w"] assms(2) show ?thesis
    by (simp add: minus_mod_eq_div_mult)
qed

lemma last_byte_ok:
  assumes "disjoint_bufs (rdi c0) (rsi c0) n" "rdx c0 = n"
  shows "finishes n 2 c0 last_byte"
  unfolding finishes_def
proof (intro allI impI)
  fix c assume adv: "advanced (n - n mod 2) c0 c"
  show "\<exists>c'. last_byte c = Some c' \<and> copy_done n (n - n mod 2) c0 c'"
  proof (cases "n mod 2 = 0")
    case True
    then show ?thesis using assms(2) adv by (simp add: last_byte_def advanced_def copy_done_def Let_def)
  next
    case False
    then have n: "n - n mod 2 + 1 = n"
      by (metis mod_less_eq_dividend le_add_diff_inverse2 not_mod_2_eq_0_eq_1)
    have "(mem c)(rdi c := mem c (rsi c)) = store (rdi c) (load (mem c) (rsi c) 1) (mem c)"
      by (auto simp: store_def load_def fun_eq_iff)
    also have "disjoint_bufs (rdi c0) (rsi c0) (n - n mod 2 + 1)" using assms(1) n by simp
    from copied_extend [OF this, of "mem c0"] adv
    have "store (rdi c) (load (mem c) (rsi c) 1) (mem c) = copied (rdi c0) (rsi c0) n (mem c0)"
      unfolding advanced_def n by simp
    finally show ?thesis
      using assms(2) adv False by (simp add: last_byte_def advanced_def copy_done_def Let_def)
  qed
qed

lemma copy_tail_ok:
  assumes "disjoint_bufs (rdi c0) (rsi c0) n" "rdx c0 = n"
  shows "finishes n 16 c0 copy_tail"
proof -
  note r = copy_reg_ok [OF assms(1)]
  have "finishes n 16 c0 (\<lambda>c. copy_tail c)"
    unfolding copy_tail_def
    by (rule finishes_bind, rule narrows_if_bit [OF r], (simp add: assms)+)+ (rule last_byte_ok [OF assms])
  then show ?thesis .
qed

text \<open>The bodies: a first step at the start of the copy, then narrowing stages.\<close>

definition starts :: "nat \<Rightarrow> nat \<Rightarrow> cpu \<Rightarrow> cpu option \<Rightarrow> bool" where
  "starts n a c0 f \<longleftrightarrow> (\<exists>c'. f = Some c' \<and> advanced (n - n mod a) c0 c')"

definition copies :: "nat \<Rightarrow> nat \<Rightarrow> cpu \<Rightarrow> cpu option \<Rightarrow> bool" where
  "copies n k c0 f \<longleftrightarrow> (\<exists>c'. f = Some c' \<and> copy_done n k c0 c')"

lemma starts_bind: "starts n a c0 f \<Longrightarrow> narrows n a b c0 g \<Longrightarrow> starts n b c0 (Option.bind f g)"
  unfolding starts_def narrows_def by (metis Option.bind.bind_lunit)

lemma copies_bind: "starts n a c0 f \<Longrightarrow> finishes n a c0 g \<Longrightarrow> copies n (n - n mod 2) c0 (Option.bind f g)"
  unfolding starts_def finishes_def copies_def by (metis Option.bind.bind_lunit)

lemma starts_loop:
  assumes "stage_ok n a w c0 stage" "a dvd w" "rdx c0 = n"
  shows "starts n w c0 (dec_loop stage (n div w) (c0\<lparr>rcx := v\<rparr>))"
  unfolding starts_def by (rule narrows_loop [OF assms])

definition aligned :: "bool \<Rightarrow> nat \<Rightarrow> cpu \<Rightarrow> bool" where
  "aligned al w c \<longleftrightarrow> (al \<longrightarrow> rdi c mod w = 0 \<and> rsi c mod w = 0)"

lemma aligned_dvd: "aligned al v c \<Longrightarrow> w dvd v \<Longrightarrow> aligned al w c"
  by (auto simp: aligned_def mod_eq_0_iff_dvd intro: dvd_trans)

lemma aligned_False: "aligned False w c"
  by (simp add: aligned_def)

lemma vec_stage:
  assumes "disjoint_bufs (rdi c) (rsi c) (rdx c)" "aligned al w c" "wl = l * w"
  shows "stage_ok (rdx c) w wl c (copy_vec al w l)"
  unfolding assms(3) by (rule copy_vec_ok [OF assms(1)]) (use assms(2) in \<open>simp add: aligned_def\<close>)

lemma narrows_vec:
  assumes "disjoint_bufs (rdi c) (rsi c) (rdx c)" "aligned al w c" "wl = l * w" "0 < wl" "a = 2 * wl"
  shows "narrows (rdx c) a wl c (if_bit wl (copy_vec al w l))"
  by (rule narrows_if_bit [OF vec_stage [OF assms(1-3)] _ assms(4,5) refl]) (simp add: assms(3))

lemma starts_vec:
  assumes "disjoint_bufs (rdi c) (rsi c) (rdx c)" "aligned al w c" "wl = l * w"
  shows "starts (rdx c) wl c (dec_loop (copy_vec al w l) (rdx c div wl) (c\<lparr>rcx := v\<rparr>))"
  by (rule starts_loop [OF vec_stage [OF assms] _ refl]) (simp add: assms(3))

lemma sse2_aligned_copies:
  assumes d: "disjoint_bufs (rdi c) (rsi c) (rdx c)" and n: "rdx c div 128 \<noteq> 0" and al: "aligned True 16 c"
  shows "copies (rdx c) (rdx c - rdx c mod 2) c (sse2_aligned c)"
  unfolding sse2_aligned_def if_not_P [OF n]
  by (rule copies_bind, rule starts_bind, rule starts_vec [OF d al], simp, rule narrows_vec [OF d al], simp, simp, simp)
    ((rule finishes_bind, rule narrows_vec [OF d al], simp, simp, simp)+, rule copy_tail_ok [OF d refl])

lemma sse2_unaligned_copies:
  assumes d: "disjoint_bufs (rdi c) (rsi c) (rdx c)"
  shows "copies (rdx c) (rdx c - rdx c mod 2) c (sse2_unaligned c)"
  unfolding sse2_unaligned_def
  by (rule copies_bind, rule starts_vec [OF d aligned_False], simp) (rule copy_tail_ok [OF d refl])

lemma avx2_aligned_copies:
  assumes d: "disjoint_bufs (rdi c) (rsi c) (rdx c)" and n: "rdx c div 256 \<noteq> 0" and al: "aligned True 32 c"
  shows "copies (rdx c) (rdx c - rdx c mod 2) c (avx2_aligned c)"
proof -
  have al16: "aligned True 16 c" by (rule aligned_dvd [OF al]) simp
  show ?thesis
    unfolding avx2_aligned_def if_not_P [OF n]
    by (rule copies_bind, rule starts_bind, rule starts_vec [OF d al], simp, rule narrows_vec [OF d al], simp, simp, simp)
      ((rule finishes_bind, rule narrows_vec [OF d al] narrows_vec [OF d al16], simp, simp, simp)+,
        rule copy_tail_ok [OF d refl])
qed

lemma avx2_unaligned_copies:
  assumes d: "disjoint_bufs (rdi c) (rsi c) (rdx c)"
  shows "copies (rdx c) (rdx c - rdx c mod 2) c (avx2_unaligned c)"
  unfolding avx2_unaligned_def
  by (rule copies_bind, rule starts_vec [OF d aligned_False], simp)
    (rule finishes_bind, rule narrows_vec [OF d aligned_False], simp, simp, simp, rule copy_tail_ok [OF d refl])

lemma avx512_aligned_copies:
  assumes d: "disjoint_bufs (rdi c) (rsi c) (rdx c)" and n: "rdx c div 512 \<noteq> 0" and al: "aligned True 64 c"
  shows "copies (rdx c) (rdx c - rdx c mod 2) c (avx512_aligned c)"
proof -
  have al': "aligned True 32 c" "aligned True 16 c" by (auto intro: aligned_dvd [OF al])
  show ?thesis
    unfolding avx512_aligned_def if_not_P [OF n]
    by (rule copies_bind, rule starts_bind, rule starts_vec [OF d al], simp, rule narrows_vec [OF d al], simp, simp, simp)
      ((rule finishes_bind, rule narrows_vec [OF d al] narrows_vec [OF d al'(1)] narrows_vec [OF d al'(2)],
          simp, simp, simp)+, rule copy_tail_ok [OF d refl])
qed

lemma avx512_unaligned_copies:
  assumes d: "disjoint_bufs (rdi c) (rsi c) (rdx c)"
  shows "copies (rdx c) (rdx c - rdx c mod 2) c (avx512_unaligned c)"
  unfolding avx512_unaligned_def
  by (rule copies_bind, rule starts_vec [OF d aligned_False], simp)
    ((rule finishes_bind, rule narrows_vec [OF d aligned_False], simp, simp, simp)+, rule copy_tail_ok [OF d refl])

lemma rep_movsb_copies:
  assumes "disjoint_bufs (rdi c) (rsi c) (rdx c)"
  shows "copies (rdx c) (rdx c) c (rep_movsb c)"
proof -
  have "advanced 0 c (c\<lparr>rcx := rdx c\<rparr>)" by (simp add: advanced_rcx advanced_refl)
  from dec_loop_ok [OF copy_reg_ok [OF assms, of 1] _ this, of "rdx c"]
  obtain c' where "dec_loop (copy_reg 1) (rdx c) (c\<lparr>rcx := rdx c\<rparr>) = Some c'" "advanced (rdx c) c c'" by auto
  then show ?thesis by (auto simp: rep_movsb_def copies_def copy_done_def advanced_def)
qed

text \<open>
  One of the routines from its prologue to its return: the bytes are copied, the registers a
  routine has to keep and the stack are restored, it returns to its caller, and the value is the
  last position of \<open>rdi\<close>.
\<close>

definition copied_end :: "nat \<Rightarrow> nat \<Rightarrow> nat" where
  "copied_end small n = (if n < small then n else n - n mod 2)"

definition returns_copy :: "nat \<Rightarrow> nat \<Rightarrow> cpu \<Rightarrow> nat \<Rightarrow> nat list \<Rightarrow> (nat \<times> cpu) option \<Rightarrow> bool" where
  "returns_copy n k c bx st f \<longleftrightarrow>
     (\<exists>c'. f = Some (hd st, c') \<and> mem c' = copied (rdi c) (rsi c) n (mem c) \<and> rax c' = rdi c + k
        \<and> rbx c' = bx \<and> stk c' = tl st)"

lemma leave_returns:
  assumes "copies n k c f" "stk c = si # cx # bx # st" "st \<noteq> []"
  shows "returns_copy n k c bx st (Option.bind f leave)"
  using assms by (cases st) (auto simp: copies_def copy_done_def leave_def returns_copy_def)

lemma copies_nothing: "copies 0 0 c (Some c)"
  by (auto simp: copies_def copy_done_def copied_def fun_eq_iff)

lemma enter_fields [simp]:
  "rdx (enter c) = rdx c" "rdi (enter c) = rdi c" "rsi (enter c) = rsi c" "rbx (enter c) = rbx c" "mem (enter c) = mem c"
  "stk (enter c) = rsi c # rcx c # rbx c # stk c"
  by (simp_all add: enter_def)

lemma memcpy_internal_sse2_copies:
  assumes "disjoint_bufs (rdi c) (rsi c) (rdx c)" "stk c \<noteq> []"
  shows "returns_copy (rdx c) (copied_end 128 (rdx c)) c (rbx c) (stk c) (memcpy_internal_sse2 c)"
proof -
  let ?e = "enter c"
  have d: "disjoint_bufs (rdi ?e) (rsi ?e) (rdx ?e)" using assms(1) by simp
  have "copies (rdx c) (copied_end 128 (rdx c)) ?e
     (if rdx ?e = 0 then Some ?e else if rdx ?e < 128 then rep_movsb ?e
      else if rdi ?e mod 16 \<noteq> 0 \<or> rsi ?e mod 16 \<noteq> 0 then sse2_unaligned ?e else sse2_aligned ?e)"
    using copies_nothing [of ?e] rep_movsb_copies [OF d] sse2_unaligned_copies [OF d] sse2_aligned_copies [OF d]
    by (simp add: copied_end_def aligned_def div_greater_zero_iff)
  from leave_returns [OF this _ assms(2)] show ?thesis
    unfolding memcpy_internal_sse2_def Let_def by (simp add: returns_copy_def)
qed

lemma memcpy_internal_sse2_wc_eq: "memcpy_internal_sse2_wc = memcpy_internal_sse2"
  by (simp add: fun_eq_iff memcpy_internal_sse2_wc_def memcpy_internal_sse2_def)

lemma memcpy_internal_avx2_wc_eq: "memcpy_internal_avx2_wc = memcpy_internal_avx2"
  by (intro ext) (simp only: memcpy_internal_avx2_wc_def memcpy_internal_avx2_def memcpy_internal_sse2_wc_eq)

lemma memcpy_internal_avx512_wc_eq: "memcpy_internal_avx512_wc = memcpy_internal_avx512"
  by (intro ext) (simp only: memcpy_internal_avx512_wc_def memcpy_internal_avx512_def memcpy_internal_avx2_wc_eq)

lemma avx2_copy_copies:
  assumes d: "disjoint_bufs (rdi c) (rsi c) (rdx c)" and "stk c = si # cx # bx # st" "st \<noteq> []"
  shows "returns_copy (rdx c) (copied_end 256 (rdx c)) c bx st (avx2_copy c)"
proof -
  have "copies (rdx c) (copied_end 256 (rdx c)) c
     (if rdx c < 256 then rep_movsb c
      else if rdi c mod 32 \<noteq> 0 \<or> rsi c mod 32 \<noteq> 0 then avx2_unaligned c else avx2_aligned c)"
    using rep_movsb_copies [OF d] avx2_unaligned_copies [OF d] avx2_aligned_copies [OF d]
    by (simp add: copied_end_def aligned_def div_greater_zero_iff)
  from leave_returns [OF this assms(2-)] show ?thesis unfolding avx2_copy_def .
qed

lemma avx512_copy_copies:
  assumes d: "disjoint_bufs (rdi c) (rsi c) (rdx c)" and "stk c = si # cx # bx # st" "st \<noteq> []"
  shows "returns_copy (rdx c) (copied_end 512 (rdx c)) c bx st (avx512_copy c)"
proof -
  have "copies (rdx c) (copied_end 512 (rdx c)) c
     (if rdx c < 512 then rep_movsb c
      else if rdi c mod 64 \<noteq> 0 \<or> rsi c mod 64 \<noteq> 0 then avx512_unaligned c else avx512_aligned c)"
    using rep_movsb_copies [OF d] avx512_unaligned_copies [OF d] avx512_aligned_copies [OF d]
    by (simp add: copied_end_def aligned_def div_greater_zero_iff)
  from leave_returns [OF this assms(2-)] show ?thesis unfolding avx512_copy_def .
qed

text \<open>
  The routines with an instruction-set test: \<open>cpuid\<close> replaces the count in \<open>rdx\<close>, and the bit that
  is tested is one of the caller's \<open>rbx\<close>.  When it is clear, the narrower routine starts with three
  words too many on the stack and returns to the first of them, the source pointer.
\<close>

lemma cpuid_leaf7_run:
  "cpuid_leaf7 (bx, cx, dx) c = Some (c\<lparr>rcx := cx, rdx := dx\<rparr>)"
  by (simp add: cpuid_leaf7_def Let_def)

lemma memcpy_internal_avx2_copies:
  assumes d: "disjoint_bufs (rdi c) (rsi c) dx" and st: "stk c \<noteq> []" and n: "rdx c \<noteq> 0"
  shows "bit (rbx c) 5 \<Longrightarrow> returns_copy dx (copied_end 256 dx) c (rbx c) (stk c) (memcpy_internal_avx2 (bx, cx, dx) c)"
    and "\<not> bit (rbx c) 5 \<Longrightarrow>
      returns_copy dx (copied_end 128 dx) c (rbx c) (rsi c # rcx c # rbx c # stk c) (memcpy_internal_avx2 (bx, cx, dx) c)"
proof -
  let ?c = "(enter c)\<lparr>rcx := cx, rdx := dx\<rparr>"
  have d': "disjoint_bufs (rdi ?c) (rsi ?c) (rdx ?c)" using d by simp
  show "returns_copy dx (copied_end 256 dx) c (rbx c) (stk c) (memcpy_internal_avx2 (bx, cx, dx) c)" if "bit (rbx c) 5"
    using avx2_copy_copies [OF d' _ st] that n by (simp add: memcpy_internal_avx2_def cpuid_leaf7_run Let_def returns_copy_def)
  show "returns_copy dx (copied_end 128 dx) c (rbx c) (rsi c # rcx c # rbx c # stk c) (memcpy_internal_avx2 (bx, cx, dx) c)"
    if "\<not> bit (rbx c) 5"
    using memcpy_internal_sse2_copies [OF d'] that n by (simp add: memcpy_internal_avx2_def cpuid_leaf7_run Let_def returns_copy_def)
qed

lemma memcpy_internal_avx512_copies:
  assumes d: "disjoint_bufs (rdi c) (rsi c) dx" and st: "stk c \<noteq> []" and n: "rdx c \<noteq> 0" and "bit (rbx c) 16"
  shows "returns_copy dx (copied_end 512 dx) c (rbx c) (stk c) (memcpy_internal_avx512 (bx, cx, dx) c)"
proof -
  let ?c = "(enter c)\<lparr>rcx := cx, rdx := dx\<rparr>"
  have d': "disjoint_bufs (rdi ?c) (rsi ?c) (rdx ?c)" using d by simp
  show ?thesis
    using avx512_copy_copies [OF d' _ st] assms(4) n
    by (simp add: memcpy_internal_avx512_def cpuid_leaf7_run Let_def returns_copy_def)
qed

lemma move_bytes_copied:
  "disjoint_bufs d s n \<Longrightarrow> move_bytes d s n m = copied d s n m"
proof (induction n arbitrary: d s m)
  case (Suc n)
  then have "move_bytes d s (Suc n) m = copied (d + 1) (s + 1) n (m(d := m s))"
    using Suc.IH [of "d + 1" "s + 1"] by (auto simp: disjoint_bufs_def fun_upd_def)
  also have "\<dots> = copied d s (Suc n) m"
    using copied_step [of d s n m] Suc.prems by (auto simp: disjoint_bufs_def apart_def)
  finally show ?case .
qed (auto simp: copied_def fun_eq_iff)

text \<open>
  C9: \<open>FastMemcpy\<close> on a machine without AVX2, for buffers that do not overlap, copies exactly the
  \<open>sz\<close> bytes whatever the alignment and length: no vector access faults, the routine returns to its
  caller with the stack and \<open>rbx\<close> as they were.  The value is the destination only when the C loop
  did the copy; the assembly returns the position after the last full step.
\<close>

theorem FastMemcpy_copies:
  assumes "\<not> avx2 features" "\<not> avx512f features" "disjoint_bufs d s sz"
  shows "\<exists>c'. FastMemcpy features nt leaf ret (Some d) (Some s) sz c
       = Some (if sse2 features then d + copied_end 128 sz else d, c')
     \<and> mem c' = copied d s sz (mem c) \<and> stk c' = stk c \<and> rbx c' = rbx c"
proof (cases "sz = 0 \<or> d = s")
  case True
  then have "sz = 0" using assms(3) by (auto simp: disjoint_bufs_def)
  then show ?thesis by (auto simp: FastMemcpy_def copied_def copied_end_def fun_eq_iff)
next
  case False
  let ?c = "c\<lparr>rdi := d, rsi := s, rdx := sz, stk := ret # stk c\<rparr>"
  have "returns_copy sz (copied_end 128 sz) ?c (rbx c) (ret # stk c) (memcpy_internal_sse2 ?c)"
    using memcpy_internal_sse2_copies [of ?c] assms(3) by simp
  then show ?thesis
    using False assms move_bytes_copied [OF assms(3), of "mem c"]
    by (auto simp: FastMemcpy_def call_asm_def returns_copy_def memcpy_internal_sse2_wc_eq)
qed

text \<open>
  On a machine with AVX2 \<open>FastMemcpy\<close> does not copy \<open>sz\<close> bytes.  The test for the instruction set
  inside the routine overwrites the count with what \<open>cpuid\<close> reports in \<open>edx\<close>, and tests bit 5 of the
  caller's \<open>rbx\<close>, which it has just restored: with the bit set, \<open>dx\<close> bytes are copied for every
  \<open>sz > 0\<close>; with the bit clear, the SSE2 routine runs on an unbalanced stack and returns to the source
  address instead of the caller.
\<close>

theorem FastMemcpy_avx2_ignores_size:
  assumes "avx2 features" "\<not> avx512f features" "0 < sz" "d \<noteq> s" "disjoint_bufs d s dx"
  shows "if bit (rbx c) 5
    then \<exists>c'. FastMemcpy features nt (bx, cx, dx) ret (Some d) (Some s) sz c = Some (d + copied_end 256 dx, c')
           \<and> mem c' = copied d s dx (mem c)
    else \<exists>c'. memcpy_internal_avx2 (bx, cx, dx) (c\<lparr>rdi := d, rsi := s, rdx := sz, stk := ret # stk c\<rparr>) = Some (s, c')"
proof -
  let ?c = "c\<lparr>rdi := d, rsi := s, rdx := sz, stk := ret # stk c\<rparr>"
  have r: "disjoint_bufs (rdi ?c) (rsi ?c) dx" "stk ?c \<noteq> []" "rdx ?c \<noteq> 0"
    using assms by simp_all
  show ?thesis
    using assms memcpy_internal_avx2_copies [OF r, of bx cx]
    by (auto simp: FastMemcpy_def call_asm_def returns_copy_def memcpy_internal_avx2_wc_eq)
qed

definition demo_cpu :: cpu where
  "demo_cpu = \<lparr>mem = (\<lambda>a. word_of_nat a), rax = 0, rbx = 32, rcx = 0, rdx = 0, rsi = 0, rdi = 0, stk = []\<rparr>"

theorem FastMemcpy_copies_witness:
  "\<exists>c'. FastMemcpy \<lparr>sse2 = True, avx2 = False, avx512f = False\<rparr> True (0, 0, 0) 77 (Some 1000) (Some 3) 301 demo_cpu
       = Some (1300, c') \<and> mem c' 1300 = 47 \<and> mem c' 1301 = 21"
proof -
  have "disjoint_bufs 1000 3 301" by (simp add: disjoint_bufs_def)
  then show ?thesis
    using FastMemcpy_copies [of "\<lparr>sse2 = True, avx2 = False, avx512f = False\<rparr>" 1000 3 301 True "(0, 0, 0)" 77 demo_cpu]
    by (auto simp: copied_end_def copied_def demo_cpu_def)
qed

text \<open>One byte asked for, the 16 bytes of an \<open>edx\<close> of \<open>0x10\<close> copied.\<close>

theorem FastMemcpy_avx2_ignores_size_witness:
  "\<exists>c'. FastMemcpy \<lparr>sse2 = True, avx2 = True, avx512f = False\<rparr> True (32, 0, 16) 77 (Some 1000) (Some 3) 1 demo_cpu
       = Some (1016, c') \<and> mem c' 1015 = 18"
proof -
  have "disjoint_bufs 1000 3 16" by (simp add: disjoint_bufs_def)
  moreover have "bit (rbx demo_cpu) 5" by (simp add: demo_cpu_def bit_iff_odd)
  ultimately show ?thesis
    using FastMemcpy_avx2_ignores_size
      [of "\<lparr>sse2 = True, avx2 = True, avx512f = False\<rparr>" 1 1000 3 16 demo_cpu True 32 0 77]
    by (auto simp: copied_end_def copied_def demo_cpu_def)
qed

section \<open>Filling\<close>

definition filled :: "nat \<Rightarrow> nat \<Rightarrow> u8 \<Rightarrow> bmem \<Rightarrow> bmem" where
  "filled d n v m = (\<lambda>x. if d \<le> x \<and> x < d + n then v else m x)"

lemma filled_0 [simp]: "filled d 0 v m = m"
  by (auto simp: filled_def fun_eq_iff)

lemma store_filled: "store (d + k) (replicate w v) (filled d k v m) = filled d (k + w) v m"
  by (auto simp: store_def filled_def fun_eq_iff)

lemma set_bytes_filled: "set_bytes d n v m = filled d n v m"
proof (induction n arbitrary: d m)
  case (Suc n)
  then show ?case by (auto simp: filled_def fun_eq_iff)
qed simp

text \<open>Every byte of the multiplied pattern is the fill byte.\<close>

lemma lane_byte_pattern:
  assumes "v < 256"
  shows "lane_byte (v * 0x01010101 mod 2 ^ 32) i = word_of_nat v"
proof -
  have step: "(v + 256 * a) div 256 = a" "(v + 256 * a) mod 256 = v" for a
    using assms by simp_all
  define x1 x2 x3 where "x1 = v + 256 * v" and "x2 = v + 256 * x1" and "x3 = v + 256 * x2"
  have s: "v * 0x01010101 mod 2 ^ 32 = x3"
    using assms by (simp add: x1_def x2_def x3_def)
  have d: "x3 div 256 = x2" "x2 div 256 = x1" "x1 div 256 = v" "x3 mod 256 = v" "x2 mod 256 = v" "x1 mod 256 = v"
    unfolding x1_def x2_def x3_def by (rule step)+
  have e: "x3 div 65536 = x1" "x3 div 16777216 = v"
    using div_mult2_eq [of x3 256 256] div_mult2_eq [of x3 256 65536] div_mult2_eq [of x2 256 256] d by simp_all
  have "i mod 4 < 4" by simp
  then consider "i mod 4 = 0" | "i mod 4 = 1" | "i mod 4 = 2" | "i mod 4 = 3" by linarith
  then have "(v * 0x01010101 mod 2 ^ 32) div 256 ^ (i mod 4) mod 256 = v"
    unfolding s using assms d e by cases simp_all
  then have "unat (lane_byte (v * 0x01010101 mod 2 ^ 32) i) = unat (word_of_nat v :: u8)"
    using assms by (simp add: lane_byte_def unsigned_of_nat take_bit_eq_mod)
  then show ?thesis by (simp add: word_unat_eq_iff)
qed

lemma lane_byte_0: "lane_byte 0 i = 0"
  by (simp add: lane_byte_def)

text \<open>\<open>filling v k c0 c\<close>: \<open>k\<close> bytes are filled; memory, \<open>rdi\<close> and \<open>rcx\<close> are all that changed.\<close>

definition filling :: "u8 \<Rightarrow> nat \<Rightarrow> cpu \<Rightarrow> cpu \<Rightarrow> bool" where
  "filling v k c0 c \<longleftrightarrow>
     mem c = filled (rdi c0) k v (mem c0) \<and> rdi c = rdi c0 + k \<and> rdx c = rdx c0 \<and> rax c = rax c0 \<and> stk c = stk c0"

lemma filling_rcx: "filling v k c0 (c\<lparr>rcx := x\<rparr>) \<longleftrightarrow> filling v k c0 c" "filling v k (c0\<lparr>rcx := x\<rparr>) c \<longleftrightarrow> filling v k c0 c"
  by (auto simp: filling_def)

lemma fold_store_fill:
  assumes "\<And>i. lane_byte p i = v"
  shows "fold (\<lambda>j. store (d + k + j * w) (map (lane_byte p) [0..<w])) [0..<l] (filled d k v m) = filled d (k + l * w) v m"
proof (induction l)
  case (Suc l)
  have "map (lane_byte p) [0..<w] = replicate w v"
    using assms by (auto simp: list_eq_iff_nth_eq)
  then show ?case
    using Suc store_filled [of d "k + l * w" w v m] by (simp add: algebra_simps)
qed simp

lemma fill_vec_step:
  assumes "filling v k c0 c" "\<And>i. lane_byte (rax c0) i = v" "al \<Longrightarrow> (rdi c0 + k) mod w = 0"
  shows "\<exists>c'. fill_vec al w l c = Some c' \<and> filling v (k + l * w) c0 c'"
proof -
  have "\<not> (al \<and> rdi c mod w \<noteq> 0)" using assms(1,3) by (auto simp: filling_def)
  then show ?thesis
    using assms(1) fold_store_fill [where p = "rax c0", OF assms(2), of "rdi c0" k w l "mem c0"]
    by (simp add: fill_vec_def filling_def)
qed

lemma zero_vec_step:
  assumes "filling 0 k c0 c" "(rdi c0 + k) mod w = 0"
  shows "\<exists>c'. zero_vec w l c = Some c' \<and> filling 0 (k + l * w) c0 c'"
proof -
  have "filling 0 k (c0\<lparr>rax := 0\<rparr>) (c\<lparr>rax := 0\<rparr>)" using assms(1) by (simp add: filling_def)
  from fill_vec_step [OF this, of True w l] assms(2)
  obtain c' where "fill_vec True w l (c\<lparr>rax := 0\<rparr>) = Some c'" "filling 0 (k + l * w) (c0\<lparr>rax := 0\<rparr>) c'"
    by (auto simp: lane_byte_0)
  then show ?thesis using assms(1) by (auto simp: zero_vec_def filling_def)
qed

lemma dec_loop_fills:
  assumes step: "\<And>k c. filling v k c0 c \<Longrightarrow> k mod b = 0 \<Longrightarrow> \<exists>c'. body c = Some c' \<and> filling v (k + w) c0 c'"
    and "filling v k c0 c" "k mod b = 0" "w mod b = 0"
  shows "\<exists>c'. dec_loop body n c = Some c' \<and> filling v (k + n * w) c0 c'"
  using assms(2,3)
proof (induction n arbitrary: k c)
  case (Suc n)
  from step [OF Suc.prems] obtain c1 where c1: "body c = Some c1" "filling v (k + w) c0 c1" by blast
  moreover have "(k + w) mod b = 0" using Suc.prems(2) assms(4) by (metis add_0 mod_add_eq mod_0)
  ultimately show ?case
    using Suc.IH [of "k + w" "c1\<lparr>rcx := n\<rparr>"] by (auto simp: filling_rcx algebra_simps)
qed auto

text \<open>The two loops of \<open>memset\<close>: \<open>l\<close> vectors at a time, then one by one; the tail is not written.\<close>

lemma memset_loops:
  assumes "\<And>i. lane_byte (rax c) i = v" "0 < w" "0 < l"
  shows "\<exists>c'. Option.bind (dec_loop (fill_vec False w l) (rdx c div (l * w)) (c\<lparr>rcx := rdx c div (l * w)\<rparr>))
       (\<lambda>c. dec_loop (fill_vec False w 1) (rdx c mod (l * w) div w) (c\<lparr>rcx := rdx c mod (l * w) div w\<rparr>)) = Some c'
     \<and> filling v (rdx c - rdx c mod w) c c'"
proof -
  let ?n = "rdx c"
  have f0: "filling v 0 c (c\<lparr>rcx := x\<rparr>)" for x by (simp add: filling_def)
  have s: "\<exists>c'. fill_vec False w j d = Some c' \<and> filling v (k + j * w) c c'" if "filling v k c d" for k d j
    by (rule fill_vec_step [OF that assms(1)]) simp
  from dec_loop_fills [where b = 1 and n = "?n div (l * w)" and body = "fill_vec False w l", OF s f0]
  obtain c1 where c1: "dec_loop (fill_vec False w l) (?n div (l * w)) (c\<lparr>rcx := ?n div (l * w)\<rparr>) = Some c1"
      "filling v (?n div (l * w) * (l * w)) c c1" by auto
  then have "filling v (?n div (l * w) * (l * w)) c (c1\<lparr>rcx := x\<rparr>)" for x by (simp add: filling_rcx)
  from dec_loop_fills [where b = 1 and n = "?n mod (l * w) div w" and body = "fill_vec False w 1", OF s this]
  obtain c2 where c2: "dec_loop (fill_vec False w 1) (?n mod (l * w) div w) (c1\<lparr>rcx := ?n mod (l * w) div w\<rparr>) = Some c2"
      "filling v (?n div (l * w) * (l * w) + ?n mod (l * w) div w * w) c c2" by auto
  have "?n mod (l * w) mod w = ?n mod w" by (simp add: mod_mod_cancel)
  then have "?n mod (l * w) div w * w + ?n mod w = ?n mod (l * w)"
    using div_mult_mod_eq [of "?n mod (l * w)" w] by simp
  then have "?n div (l * w) * (l * w) + ?n mod (l * w) div w * w = ?n - ?n mod w"
    using div_mult_mod_eq [of ?n "l * w"] by linarith
  moreover have "rdx c1 = ?n" using c1(2) by (simp add: filling_def)
  ultimately show ?thesis using c1(1) c2 by (simp del: One_nat_def)
qed

text \<open>The whole routine: \<open>n - n mod w\<close> bytes are filled, and the value is the pattern.\<close>

definition fills :: "u8 \<Rightarrow> nat \<Rightarrow> nat \<Rightarrow> nat \<Rightarrow> cpu \<Rightarrow> (nat \<times> cpu) option \<Rightarrow> bool" where
  "fills v n r ret c f \<longleftrightarrow>
     (\<exists>c'. f = Some (ret, c') \<and> mem c' = filled (rdi c) n v (mem c) \<and> rax c' = r \<and> stk c' = tl (stk c) \<and> rbx c' = rbx c)"

lemma leave_fill_fills:
  assumes "\<exists>c'. f = Some c' \<and> filling v n b c'"
    and "stk b = rcx c # rbx c # ret # st" "stk c = ret # st" "rdi b = rdi c" "mem b = mem c" "rax b = r"
  shows "fills v n r ret c (Option.bind f leave_fill)"
  using assms by (auto simp: filling_def fills_def leave_fill_def)

lemma broadcast_fields:
  "rdx (broadcast c) = rdx c" "rdi (broadcast c) = rdi c" "mem (broadcast c) = mem c"
  "stk (broadcast c) = rcx c # rbx c # stk c" "rax (broadcast c) = rsi c mod 256 * 0x01010101 mod 2 ^ 32"
  by (simp_all add: broadcast_def Let_def)

lemma memset_fills:
  assumes "stk c = ret # st"
  shows "fills (word_of_nat (rsi c mod 256)) (rdx c - rdx c mod 16) (rsi c mod 256 * 0x01010101 mod 2 ^ 32) ret c (memset_internal_sse2 c)"
    and "fills (word_of_nat (rsi c mod 256)) (rdx c - rdx c mod 32) (rsi c mod 256 * 0x01010101 mod 2 ^ 32) ret c (memset_internal_avx2 c)"
    and "fills (word_of_nat (rsi c mod 256)) (rdx c - rdx c mod 64) (rsi c mod 256 * 0x01010101 mod 2 ^ 32) ret c (memset_internal_avx512 c)"
proof -
  let ?b = "broadcast c"
  have l: "lane_byte (rax ?b) i = word_of_nat (rsi c mod 256)" for i
    unfolding broadcast_fields by (rule lane_byte_pattern) simp
  note loops = memset_loops [OF l]
  note fin = leave_fill_fills [where b = ?b and ret = ret and st = st and c = c, OF _ _ assms _ _ refl, unfolded broadcast_fields assms]
  show "fills (word_of_nat (rsi c mod 256)) (rdx c - rdx c mod 16) (rsi c mod 256 * 0x01010101 mod 2 ^ 32) ret c (memset_internal_sse2 c)"
    using fin [OF loops [of 16 4, unfolded broadcast_fields]] by (simp add: memset_internal_sse2_def Let_def broadcast_fields bind_assoc)
  show "fills (word_of_nat (rsi c mod 256)) (rdx c - rdx c mod 32) (rsi c mod 256 * 0x01010101 mod 2 ^ 32) ret c (memset_internal_avx2 c)"
    using fin [OF loops [of 32 8, unfolded broadcast_fields]] by (simp add: memset_internal_avx2_def Let_def broadcast_fields bind_assoc)
  show "fills (word_of_nat (rsi c mod 256)) (rdx c - rdx c mod 64) (rsi c mod 256 * 0x01010101 mod 2 ^ 32) ret c (memset_internal_avx512 c)"
    using fin [OF loops [of 64 8, unfolded broadcast_fields]] by (simp add: memset_internal_avx512_def Let_def broadcast_fields bind_assoc)
qed

lemma zeropage_loop:
  assumes "rdi c mod w = 0"
  shows "\<exists>c'. dec_loop (zero_vec w 8) n (c\<lparr>rcx := x\<rparr>) = Some c' \<and> filling 0 (n * (8 * w)) c c'"
proof -
  have "filling 0 0 c (c\<lparr>rcx := x\<rparr>)" by (simp add: filling_def)
  moreover have "\<exists>c'. zero_vec w 8 d = Some c' \<and> filling 0 (k + 8 * w) c c'"
    if "filling 0 k c d" "k mod w = 0" for k d
    using assms that by (intro zero_vec_step) (metis add_0 mod_add_eq mod_0)+
  ultimately show ?thesis
    using dec_loop_fills [where b = w and k = 0 and body = "zero_vec w 8" and w = "8 * w"] by fastforce
qed

lemma zeropage_fills:
  assumes "stk c = ret # st" "rdi c mod 64 = 0"
  shows "fills 0 4096 (rax c) ret c (zeropage_internal_sse2 c)"
    and "fills 0 4096 (rax c) ret c (zeropage_internal_avx2 c)"
    and "fills 0 4096 (rax c) ret c (zeropage_internal_avx512 c)"
proof -
  let ?b = "c\<lparr>stk := rcx c # rbx c # stk c\<rparr>"
  have m: "rdi ?b mod 16 = 0" "rdi ?b mod 32 = 0" "rdi ?b mod 64 = 0"
    using assms(2) by (auto simp: mod_eq_0_iff_dvd intro: dvd_trans [of _ 64])
  note fin = leave_fill_fills [where b = ?b and ret = ret and st = st and c = c, OF _ _ assms(1)]
  show "fills 0 4096 (rax c) ret c (zeropage_internal_sse2 c)"
    unfolding zeropage_internal_sse2_def Let_def
    by (rule fin, use zeropage_loop [OF m(1), of "4096 div 128" "4096 div 128"] in simp) (simp_all add: assms(1))
  show "fills 0 4096 (rax c) ret c (zeropage_internal_avx2 c)"
    unfolding zeropage_internal_avx2_def Let_def
    by (rule fin, use zeropage_loop [OF m(2), of "4096 div 256" "4096 div 256"] in simp) (simp_all add: assms(1))
  show "fills 0 4096 (rax c) ret c (zeropage_internal_avx512 c)"
    unfolding zeropage_internal_avx512_def Let_def
    by (rule fin, use zeropage_loop [OF m(3), of "4096 div 512" "4096 div 512"] in simp) (simp_all add: assms(1))
qed

definition memset_width :: "CpuFeatures \<Rightarrow> nat" where
  "memset_width features =
     (if avx512f features then 64 else if avx2 features then 32 else if sse2 features then 16 else 1)"

lemma call_asm_fills:
  assumes "fills v n r ret (c\<lparr>rdi := a, rsi := b, rdx := k, stk := ret # stk c\<rparr>) (routine (c\<lparr>rdi := a, rsi := b, rdx := k, stk := ret # stk c\<rparr>))"
  shows "\<exists>c'. call_asm ret routine a b k c = Some (r, c') \<and> mem c' = filled a n v (mem c) \<and> stk c' = stk c \<and> rbx c' = rbx c"
  using assms by (auto simp: call_asm_def fills_def)

lemma low_byte: "(word_of_nat (unat value mod 256) :: u8) = ucast (value :: u32)"
  by (simp add: word_unat_eq_iff unsigned_ucast_eq unsigned_of_nat take_bit_eq_mod)

lemma FastMemset_spec:
  "\<exists>r c'. FastMemset features ret (Some d) value sz c = Some (r, c')
     \<and> mem c' = filled d (sz - sz mod memset_width features) (ucast value) (mem c) \<and> stk c' = stk c \<and> rbx c' = rbx c
     \<and> r = (if sz = 0 \<or> memset_width features = 1 then d else unat value mod 256 * 0x01010101)"
proof -
  let ?c = "c\<lparr>rdi := d, rsi := unat value, rdx := sz, stk := ret # stk c\<rparr>"
  have p: "unat value mod 256 * 0x01010101 mod 2 ^ 32 = unat value mod 256 * 0x01010101"
    by (rule mod_less) (use mod_less_divisor [of 256 "unat value"] in simp)
  note f = memset_fills [of ?c ret "stk c", simplified, folded low_byte]
  show ?thesis
    using call_asm_fills [where routine = memset_internal_sse2, OF f(1)]
      call_asm_fills [where routine = memset_internal_avx2, OF f(2)]
      call_asm_fills [where routine = memset_internal_avx512, OF f(3)] p
    by (auto simp: FastMemset_def memset_width_def set_bytes_filled low_byte)
qed

text \<open>
  \<open>FastMemset\<close> fills the requested bytes only up to a multiple of the vector width of the machine:
  64 bytes with AVX-512, 32 with AVX2, 16 with SSE2, and all of them when the C loop runs.  The last
  \<open>sz mod width\<close> bytes keep their old contents, and nothing outside the buffer is written.  The
  assembly returns the multiplied fill byte where the C loop returns the destination.
\<close>

theorem FastMemset_fills:
  "\<exists>r c'. FastMemset features ret (Some d) value sz c = Some (r, c')
     \<and> mem c' = filled d (sz - sz mod memset_width features) (ucast value) (mem c) \<and> stk c' = stk c \<and> rbx c' = rbx c
     \<and> r = (if sz = 0 \<or> memset_width features = 1 then d else unat value mod 256 * 0x01010101)"
  by (rule FastMemset_spec)

text \<open>
  \<open>FastZeroPage\<close> on a page-aligned address clears the 4096 bytes of the page and nothing else, with
  every instruction set: no aligned store faults, and the routine returns to its caller.
\<close>

theorem FastZeroPage_clears:
  assumes "page mod 4096 = 0"
  shows "\<exists>c'. FastZeroPage features ret (Some page) c = Some c' \<and> mem c' = filled page 4096 0 (mem c)
    \<and> stk c' = stk c \<and> rbx c' = rbx c"
proof -
  let ?c = "c\<lparr>rdi := page, rsi := rsi c, rdx := rdx c, stk := ret # stk c\<rparr>"
  have a: "rdi ?c mod 64 = 0" using assms by (auto simp: mod_eq_0_iff_dvd intro: dvd_trans [of _ 4096])
  note f = zeropage_fills [of ?c ret "stk c", OF _ a]
  show ?thesis
    using call_asm_fills [where routine = zeropage_internal_sse2, OF f(1)]
      call_asm_fills [where routine = zeropage_internal_avx2, OF f(2)]
      call_asm_fills [where routine = zeropage_internal_avx512, OF f(3)]
    by (auto simp: FastZeroPage_def FastMemset_def set_bytes_filled PAGE_SIZE_def)
qed

section \<open>Comparing\<close>

definition same :: "bmem \<Rightarrow> nat \<Rightarrow> nat \<Rightarrow> nat \<Rightarrow> bool" where
  "same m p q n \<longleftrightarrow> (\<forall>i < n. m (p + i) = m (q + i))"

definition differs_at :: "bmem \<Rightarrow> nat \<Rightarrow> nat \<Rightarrow> nat \<Rightarrow> bool" where
  "differs_at m p q i \<longleftrightarrow> same m p q i \<and> m (p + i) \<noteq> m (q + i)"

lemma same_add: "same m p q (a + b) \<longleftrightarrow> same m p q a \<and> same m (p + a) (q + a) b"
proof (induction b)
  case (Suc b)
  then show ?case by (auto simp: same_def less_Suc_eq add.assoc)
qed (simp add: same_def)

lemma differs_at_shift: "differs_at m p q (a + i) \<longleftrightarrow> same m p q a \<and> differs_at m (p + a) (q + a) i"
  by (auto simp: differs_at_def same_add add.assoc)

lemma not_same_differs:
  assumes "\<not> same m p q n"
  obtains i where "i < n" "differs_at m p q i"
proof -
  obtain k where "k < n" "m (p + k) \<noteq> m (q + k)" using assms by (auto simp: same_def)
  moreover define i where "i = (LEAST i. m (p + i) \<noteq> m (q + i))"
  ultimately have "m (p + i) \<noteq> m (q + i)" "i \<le> k"
    using LeastI [of "\<lambda>i. m (p + i) \<noteq> m (q + i)" k] Least_le [of "\<lambda>i. m (p + i) \<noteq> m (q + i)" k] by simp_all
  moreover have "\<forall>j < i. m (p + j) = m (q + j)"
    unfolding i_def using not_less_Least by blast
  ultimately have "m (p + i) \<noteq> m (q + i)" "i \<le> k" "\<forall>j < i. m (p + j) = m (q + j)" by blast+
  then show ?thesis using \<open>k < n\<close> that [of i] by (simp add: differs_at_def same_def)
qed

lemma differs_at_same: "differs_at m p q i \<Longrightarrow> same m p q n \<longleftrightarrow> n \<le> i"
  unfolding differs_at_def same_def by (metis leI order_less_le_trans)

text \<open>The loops, over any mask that tells equal vectors from different ones.\<close>

definition moved :: "nat \<Rightarrow> cpu \<Rightarrow> cpu \<Rightarrow> bool" where
  "moved k c c' \<longleftrightarrow> mem c' = mem c \<and> rbx c' = rbx c \<and> rdx c' = rdx c \<and> rdi c' = rdi c + k \<and> rsi c' = rsi c + k"

lemma cmp_loop_equal:
  assumes mask: "\<And>c. differs (vmask c) \<longleftrightarrow> \<not> same (mem c) (rdi c) (rsi c) w"
    and "same (mem c) (rdi c) (rsi c) (n * w)"
  shows "\<exists>c'. cmp_loop w vmask differs n c = (False, c') \<and> moved (n * w) c c'
    \<and> (if n = 0 then rax c' = rax c else \<not> differs (rax c'))"
  using assms(2)
proof (induction n arbitrary: c)
  case 0
  then show ?case by (simp add: moved_def)
next
  case (Suc n)
  let ?c = "c\<lparr>rax := vmask c, rdi := rdi c + w, rsi := rsi c + w, rcx := n\<rparr>"
  have "same (mem c) (rdi c) (rsi c) w" "same (mem ?c) (rdi ?c) (rsi ?c) (n * w)"
    using Suc.prems by (simp_all add: same_add)
  with Suc.IH [of ?c] mask [of c] show ?case
    by (auto simp: moved_def Let_def split: if_splits)
qed

lemma cmp_loop_differs:
  assumes mask: "\<And>c. differs (vmask c) \<longleftrightarrow> \<not> same (mem c) (rdi c) (rsi c) w" "0 < w" "\<And>c x. vmask (c\<lparr>rax := x\<rparr>) = vmask c"
    and "differs_at (mem c) (rdi c) (rsi c) i" "i < n * w"
  shows "\<exists>c'. cmp_loop w vmask differs n c = (True, c') \<and> moved (i - i mod w) c c' \<and> rax c' = vmask c'"
  using assms(4,5)
proof (induction n arbitrary: c i)
  case (Suc n)
  show ?case
  proof (cases "i < w")
    case True
    then show ?thesis
      using Suc.prems(1) mask(1) [of c] by (simp add: Let_def moved_def differs_at_same mask(3))
  next
    case False
    let ?c = "c\<lparr>rax := vmask c, rdi := rdi c + w, rsi := rsi c + w, rcx := n\<rparr>"
    obtain j where j: "i = w + j" using False le_Suc_ex not_less by blast
    then have "same (mem c) (rdi c) (rsi c) w" and d: "differs_at (mem ?c) (rdi ?c) (rsi ?c) j"
      using Suc.prems(1) by (simp_all add: differs_at_shift)
    moreover have "j < n * w" using Suc.prems(2) j by simp
    moreover have "a + w + j - j mod w = a + (w + j - j mod w)" for a
      using mod_less_eq_dividend [of j w] by linarith
    ultimately show ?thesis
      using Suc.IH [OF d] mask(1) [of c] j by (auto simp: moved_def Let_def)
  qed
qed simp

lemma repe_cmpsb_equal:
  assumes "same (mem c) (rdi c) (rsi c) n"
  shows "\<exists>c'. repe_cmpsb n zf c = (n = 0 \<longrightarrow> zf, c') \<and> moved n c c' \<and> rax c' = rax c"
  using assms
proof (induction n arbitrary: zf c)
  case (Suc n)
  let ?c = "c\<lparr>rdi := rdi c + 1, rsi := rsi c + 1, rcx := n\<rparr>"
  have "mem c (rdi c) = mem c (rsi c)" "same (mem ?c) (rdi ?c) (rsi ?c) n"
    using Suc.prems same_add [of "mem c" "rdi c" "rsi c" 1 n] by (simp_all add: same_def)
  with Suc.IH [of ?c True] show ?case by (auto simp: moved_def Let_def)
qed (simp add: moved_def)

lemma repe_cmpsb_differs:
  assumes "differs_at (mem c) (rdi c) (rsi c) i" "i < n"
  shows "\<exists>c'. repe_cmpsb n zf c = (False, c') \<and> moved (i + 1) c c' \<and> rax c' = rax c"
  using assms
proof (induction n arbitrary: zf c i)
  case (Suc n)
  show ?case
  proof (cases i)
    case 0
    then show ?thesis using Suc.prems by (simp add: differs_at_def moved_def Let_def)
  next
    case (Suc j)
    let ?c = "c\<lparr>rdi := rdi c + 1, rsi := rsi c + 1, rcx := n\<rparr>"
    have eq: "mem c (rdi c) = mem c (rsi c)" and d: "differs_at (mem ?c) (rdi ?c) (rsi ?c) j" and "j < n"
      using Suc.prems Suc differs_at_shift [of "mem c" "rdi c" "rsi c" 1 j] by (simp_all add: same_def)
    with Suc.IH [OF d] show ?thesis using Suc by (auto simp: moved_def Let_def)
  qed
qed simp

text \<open>The masks and the bit scan.\<close>

lemma bit_eq_mask: "bit (eq_mask w c) i \<longleftrightarrow> i < w \<and> mem c (rdi c + i) = mem c (rsi c + i)"
  unfolding eq_mask_def by (auto simp: bit_horner_sum_bit_iff)

lemma bit_ne_mask: "bit (ne_mask w c) i \<longleftrightarrow> i < w \<and> mem c (rdi c + i) \<noteq> mem c (rsi c + i)"
  unfolding ne_mask_def by (auto simp: bit_horner_sum_bit_iff)

lemma eq_mask_full: "eq_mask w c = 2 ^ w - 1 \<longleftrightarrow> same (mem c) (rdi c) (rsi c) w"
  unfolding mask_eq_exp_minus_1 [symmetric]
  by (auto simp: bit_eq_iff bit_eq_mask bit_mask_iff same_def)

lemma ne_mask_zero: "ne_mask w c = 0 \<longleftrightarrow> same (mem c) (rdi c) (rsi c) w"
  by (auto simp: bit_eq_iff bit_ne_mask same_def)

lemma bit_complement:
  fixes m :: nat
  assumes "m < 2 ^ n"
  shows "bit (2 ^ n - 1 - m) i \<longleftrightarrow> i < n \<and> \<not> bit m i"
proof -
  have lt: "i < n" if "bit m i" for i
  proof (rule ccontr)
    assume "\<not> i < n"
    then have "m < 2 ^ i" using assms by (meson le_less_trans less_le_trans not_less one_le_numeral power_increasing)
    then show False using that by (simp add: bit_iff_odd)
  qed
  have "int (2 ^ n - 1 - m) = Bit_Operations.mask n - int m"
    using assms by (simp add: of_nat_diff mask_eq_exp_minus_1)
  also have "\<dots> = and (Bit_Operations.mask n) (not (int m))"
    by (rule disjunctive_diff) (use lt in \<open>auto simp: bit_mask_iff bit_of_nat_iff_bit\<close>)
  finally have "bit (int (2 ^ n - 1 - m)) i \<longleftrightarrow> i < n \<and> \<not> bit m i"
    by (auto simp: bit_and_iff bit_not_iff bit_mask_iff bit_of_nat_iff_bit)
  then show ?thesis by (simp only: bit_of_nat_iff_bit)
qed

lemma eq_mask_less: "eq_mask w c < 2 ^ w"
  unfolding eq_mask_def by (rule order.strict_trans2 [OF horner_sum_bound]) simp

lemma bsf_lowest:
  assumes "bit n i" "\<And>j. j < i \<Longrightarrow> \<not> bit n j" "i < 64"
  shows "bsf n = Some i"
  using assms unfolding bsf_def by (auto simp: find_Some_iff intro!: exI [of _ i])

lemma bsf_zero: "bsf 0 = None"
  by (simp add: bsf_def find_None_iff)

lemma bsf_eq_mask:
  assumes "differs_at (mem c) (rdi c) (rsi c) i" "i < w" "w \<le> 32"
  shows "bsf (2 ^ 32 - 1 - eq_mask w c) = Some i"
proof -
  have "eq_mask w c < 2 ^ 32"
    by (rule order.strict_trans2 [OF eq_mask_less]) (use assms(3) in \<open>rule power_increasing; simp\<close>)
  moreover define x where "x = 2 ^ 32 - 1 - eq_mask w c"
  ultimately have b: "bit x j \<longleftrightarrow> j < 32 \<and> \<not> bit (eq_mask w c) j" for j
    using bit_complement by blast
  show ?thesis
    unfolding x_def [symmetric]
    by (rule bsf_lowest) (use assms in \<open>auto simp: b bit_eq_mask differs_at_def same_def\<close>)
qed

lemma bsf_ne_mask:
  assumes "differs_at (mem c) (rdi c) (rsi c) i" "i < w" "w \<le> 64"
  shows "bsf (ne_mask w c) = Some i"
  by (rule bsf_lowest) (use assms in \<open>auto simp: bit_ne_mask differs_at_def same_def\<close>)

definition diff_at :: "bmem \<Rightarrow> nat \<Rightarrow> nat \<Rightarrow> nat \<Rightarrow> int" where
  "diff_at m p q i = uint (m (p + i)) - uint (m (q + i))"

lemma moved_differs:
  assumes "moved k c c'" "differs_at (mem c) (rdi c) (rsi c) i" "k \<le> i"
  shows "differs_at (mem c') (rdi c') (rsi c') (i - k)" "byte_diff c' (i - k) = diff_at (mem c) (rdi c) (rsi c) i"
  using assms differs_at_shift [of "mem c" "rdi c" "rsi c" k "i - k"]
  by (auto simp: moved_def byte_diff_def diff_at_def add.assoc)

lemma moved_same:
  assumes "moved k c c'" "same (mem c) (rdi c) (rsi c) (k + n)"
  shows "same (mem c') (rdi c') (rsi c') n"
  using assms by (simp add: moved_def same_add)

lemma eq_mask_rax: "eq_mask w (c\<lparr>rax := x\<rparr>) = eq_mask w c" "ne_mask w (c\<lparr>rax := x\<rparr>) = ne_mask w c"
  by (simp_all add: eq_mask_def ne_mask_def)

lemma eq_mask_differs: "eq_mask 16 c \<noteq> 0xFFFF \<longleftrightarrow> \<not> same (mem c) (rdi c) (rsi c) 16"
  "eq_mask 32 c \<noteq> 0xFFFFFFFF \<longleftrightarrow> \<not> same (mem c) (rdi c) (rsi c) 32"
  "ne_mask 64 c \<noteq> 0 \<longleftrightarrow> \<not> same (mem c) (rdi c) (rsi c) 64"
  using eq_mask_full [of 16 c] eq_mask_full [of 32 c] ne_mask_zero [of 64 c] by simp_all

lemma div_mult_le_mod: "(n :: nat) div w * w + n mod w = n"
  by simp

lemma memcmp_sse2_equal:
  assumes "same (mem c) (rdi c) (rsi c) (rdx c)"
  shows "\<exists>c'. memcmp_internal_sse2 c = Some (0, c') \<and> mem c' = mem c"
proof -
  let ?c = "c\<lparr>rax := 0, rcx := rdx c div 16\<rparr>"
  have s: "same (mem ?c) (rdi ?c) (rsi ?c) (rdx c div 16 * 16)" "same (mem ?c) (rdi ?c) (rsi ?c) (rdx c div 16 * 16 + rdx c mod 16)"
    using assms same_add [of "mem c" "rdi c" "rsi c" "rdx c div 16 * 16" "rdx c mod 16"] by simp_all
  from cmp_loop_equal [where differs = "\<lambda>m. m \<noteq> 0xFFFF", OF eq_mask_differs(1) s(1)]
  obtain c1 where c1: "cmp_loop 16 (eq_mask 16) (\<lambda>m. m \<noteq> 0xFFFF) (rdx c div 16) ?c = (False, c1)" "moved (rdx c div 16 * 16) ?c c1"
    by blast
  let ?d = "c1\<lparr>rcx := rdx c1 mod 16\<rparr>"
  have r: "rdx c1 = rdx c" using c1(2) by (simp add: moved_def)
  have "same (mem ?d) (rdi ?d) (rsi ?d) (rdx c mod 16)"
    using moved_same [OF c1(2) s(2)] by simp
  from repe_cmpsb_equal [OF this, of "rdx c mod 16 = 0"]
  obtain c2 where "repe_cmpsb (rdx c mod 16) (rdx c mod 16 = 0) ?d = (True, c2)" "moved (rdx c mod 16) ?d c2" by auto
  then show ?thesis using c1 r by (simp add: memcmp_internal_sse2_def moved_def)
qed

lemma memcmp_sse2_differs:
  assumes d: "differs_at (mem c) (rdi c) (rsi c) i" and i: "i < rdx c"
  shows "\<exists>c'. memcmp_internal_sse2 c = Some (diff_at (mem c) (rdi c) (rsi c) i, c') \<and> mem c' = mem c"
proof -
  let ?c = "c\<lparr>rax := 0, rcx := rdx c div 16\<rparr>" and ?k = "rdx c div 16 * 16"
  have d': "differs_at (mem ?c) (rdi ?c) (rsi ?c) i" using d by simp
  show ?thesis
  proof (cases "i < ?k")
    case True
    from cmp_loop_differs [where differs = "\<lambda>m. m \<noteq> 0xFFFF", OF eq_mask_differs(1) _ eq_mask_rax(1) d' True]
    obtain c1 where c1: "cmp_loop 16 (eq_mask 16) (\<lambda>m. m \<noteq> 0xFFFF) (rdx c div 16) ?c = (True, c1)"
        "moved (i - i mod 16) ?c c1" "rax c1 = eq_mask 16 c1" by auto
    note m = moved_differs [OF c1(2) d', simplified]
    have "bsf (2 ^ 32 - 1 - rax c1) = Some (i mod 16)"
      unfolding c1(3) by (rule bsf_eq_mask) (use m(1) in simp_all)
    then show ?thesis using c1(1,2) m(2) by (simp add: memcmp_internal_sse2_def moved_def)
  next
    case False
    then have "same (mem ?c) (rdi ?c) (rsi ?c) ?k" using differs_at_same [OF d'] by simp
    from cmp_loop_equal [where differs = "\<lambda>m. m \<noteq> 0xFFFF", OF eq_mask_differs(1) this]
    obtain c1 where c1: "cmp_loop 16 (eq_mask 16) (\<lambda>m. m \<noteq> 0xFFFF) (rdx c div 16) ?c = (False, c1)" "moved ?k ?c c1"
      by blast
    let ?d = "c1\<lparr>rcx := rdx c1 mod 16\<rparr>"
    have r: "rdx c1 = rdx c" using c1(2) by (simp add: moved_def)
    have "differs_at (mem ?d) (rdi ?d) (rsi ?d) (i - ?k)" using moved_differs [OF c1(2) d'] False by simp
    moreover have "i - ?k < rdx c mod 16" using i False div_mult_le_mod [of "rdx c" 16] by linarith
    ultimately obtain c2 where c2: "repe_cmpsb (rdx c mod 16) (rdx c mod 16 = 0) ?d = (False, c2)" "moved (i - ?k + 1) ?d c2"
      using repe_cmpsb_differs by blast
    then have "rdi c2 - 1 = rdi c + i" "rsi c2 - 1 = rsi c + i" "mem c2 = mem c"
      using c1(2) False by (simp_all add: moved_def)
    then show ?thesis using c1 c2(1) r by (simp add: memcmp_internal_sse2_def Let_def diff_at_def)
  qed
qed

lemma compare_bytes_equal: "same m p q n \<Longrightarrow> compare_bytes p q n m = 0"
proof (induction n arbitrary: p q)
  case (Suc n)
  then show ?case using same_add [of m p q 1 n] by (simp add: same_def)
qed simp

lemma compare_bytes_differs:
  "differs_at m p q i \<Longrightarrow> i < n \<Longrightarrow> compare_bytes p q n m = (if m (p + i) < m (q + i) then -1 else 1)"
proof (induction n arbitrary: p q i)
  case (Suc n)
  show ?case
  proof (cases i)
    case 0
    then show ?thesis using Suc.prems by (simp add: differs_at_def)
  next
    case (Suc j)
    then show ?thesis
      using Suc.prems Suc.IH [of "p + 1" "q + 1" j] differs_at_shift [of m p q 1 j] by (simp add: same_def)
  qed
qed simp

lemma sgn_diff_at:
  "differs_at m p q i \<Longrightarrow> sgn (diff_at m p q i) = (if m (p + i) < m (q + i) then -1 else 1)"
  by (auto simp: differs_at_def diff_at_def word_less_def sgn_if word_uint_eq_iff)

text \<open>
  \<open>FastMemcmp\<close> on a machine without AVX2 compares like the C library: it returns 0 exactly for equal
  buffers, and otherwise a value with the sign of the first difference, read as unsigned bytes.
\<close>

theorem FastMemcmp_compares:
  assumes "\<not> avx2 features" "\<not> avx512f features"
  shows "\<exists>r c'. FastMemcmp features (Some p) (Some q) sz c = Some (r, c') \<and> mem c' = mem c
    \<and> (r = 0 \<longleftrightarrow> same (mem c) p q sz)
    \<and> (\<forall>i < sz. differs_at (mem c) p q i \<longrightarrow> sgn r = sgn (diff_at (mem c) p q i))"
proof (cases "same (mem c) p q sz")
  case True
  let ?c = "c\<lparr>rdi := p, rsi := q, rdx := sz\<rparr>"
  have "\<exists>c'. memcmp_internal_sse2 ?c = Some (0, c') \<and> mem c' = mem c"
    using memcmp_sse2_equal [of ?c] True by simp
  then show ?thesis
    using assms True compare_bytes_equal [OF True] by (auto simp: FastMemcmp_def differs_at_same)
next
  case False
  then obtain i where i: "i < sz" "differs_at (mem c) p q i" by (rule not_same_differs)
  let ?c = "c\<lparr>rdi := p, rsi := q, rdx := sz\<rparr>"
  have "\<exists>c'. memcmp_internal_sse2 ?c = Some (diff_at (mem c) p q i, c') \<and> mem c' = mem c"
    using memcmp_sse2_differs [of ?c i] i by simp
  then obtain r c' where r: "FastMemcmp features (Some p) (Some q) sz c = Some (r, c')" "mem c' = mem c"
      "sgn r = sgn (diff_at (mem c) p q i)"
    using assms i(1) compare_bytes_differs [OF i(2,1)] sgn_diff_at [OF i(2)]
    by (cases "sse2 features") (auto simp: FastMemcmp_def)
  moreover have "r \<noteq> 0"
    using r(3) i(2) by (auto simp: diff_at_def differs_at_def word_uint_eq_iff sgn_if split: if_splits)
  moreover have "j = i" if "differs_at (mem c) p q j" for j
    using that i(2) by (metis differs_at_def differs_at_same le_antisym)
  ultimately show ?thesis using False by blast
qed

text \<open>
  With AVX2, \<open>FastMemcmp\<close> of fewer than 32 bytes that differ first at \<open>i\<close> returns the difference of
  the bytes at \<open>i + 1\<close>: the tail is compared by \<open>repe cmpsb\<close>, which leaves the pointers behind the
  difference, and the code that follows is the one for vectors, which adds the index of the lowest
  bit of an unrelated mask.  Buffers that differ only in the last byte compare the byte after them.
\<close>

theorem FastMemcmp_avx2_next_byte:
  assumes "avx2 features" "\<not> avx512f features" "sz < 32" "differs_at (mem c) p q i" "i < sz"
  shows "\<exists>c'. FastMemcmp features (Some p) (Some q) sz c = Some (diff_at (mem c) p q (i + 1), c')"
proof -
  let ?c = "c\<lparr>rdi := p, rsi := q, rdx := sz, rax := 0, rcx := sz\<rparr>"
  have "differs_at (mem ?c) (rdi ?c) (rsi ?c) i" using assms(4) by simp
  from repe_cmpsb_differs [OF this assms(5), of "sz = 0"]
  obtain c' where c': "repe_cmpsb sz (sz = 0) ?c = (False, c')" "moved (i + 1) ?c c'" "rax c' = 0" by auto
  have "bsf (2 ^ 32 - 1) = Some 0" by (rule bsf_lowest) (simp_all add: bit_iff_odd)
  moreover have "byte_diff c' 0 = diff_at (mem c) p q (i + 1)"
    using c'(2) by (simp add: moved_def byte_diff_def diff_at_def)
  ultimately show ?thesis
    using assms c' by (simp add: FastMemcmp_def memcmp_internal_avx2_def Let_def)
qed

text \<open>Two names of seven letters that differ in the last one, followed by the same terminator.\<close>

definition demo_names :: "nat \<Rightarrow> u8" where
  "demo_names = (\<lambda>a. if a = 106 then 1 else if a = 206 then 2 else 0)"

theorem FastMemcmp_compares_witness:
  "\<exists>r c'. FastMemcmp \<lparr>sse2 = True, avx2 = False, avx512f = False\<rparr> (Some 100) (Some 200) 7 (demo_cpu\<lparr>mem := demo_names\<rparr>) = Some (r, c') \<and> r < 0"
proof -
  have d: "differs_at demo_names 100 200 6" by (auto simp: differs_at_def same_def demo_names_def)
  then have "sgn (diff_at demo_names 100 200 6) = -1" by (simp add: sgn_diff_at) (simp add: demo_names_def)
  moreover have "\<not> same demo_names 100 200 7" using differs_at_same [OF d] by simp
  ultimately show ?thesis
    using FastMemcmp_compares [of "\<lparr>sse2 = True, avx2 = False, avx512f = False\<rparr>" 100 200 7 "demo_cpu\<lparr>mem := demo_names\<rparr>"] d
    by (fastforce simp: sgn_if split: if_splits)
qed

theorem FastMemcmp_avx2_next_byte_witness:
  "\<exists>c'. FastMemcmp \<lparr>sse2 = True, avx2 = True, avx512f = False\<rparr> (Some 100) (Some 200) 7 (demo_cpu\<lparr>mem := demo_names\<rparr>) = Some (0, c')"
proof -
  have d: "differs_at (mem (demo_cpu\<lparr>mem := demo_names\<rparr>)) 100 200 6"
    by (auto simp: differs_at_def same_def demo_names_def)
  show ?thesis
    using FastMemcmp_avx2_next_byte [OF _ _ _ d, of "\<lparr>sse2 = True, avx2 = True, avx512f = False\<rparr>" 7]
    by (simp add: diff_at_def demo_names_def)
qed

end
