(* ===== verification/VFRFS.thy ===== *)
theory VFRFS
  imports Linked MemOps
begin

text \<open>
  The RAM file system of \<open>src/fs/VFRFS.c\<close>.  The static array of nodes is a heap: a node is its
  index, every field of \<open>FsNode\<close> is a function of the index, NULL is \<open>None\<close>; the array of handles
  is modelled the same way.  Path and file names are the characters before the terminating NUL:
  \<open>FastStrCmp\<close> is then equality and \<open>FastStrCopy\<close> with bound \<open>n\<close> keeps \<open>n - 1\<close> characters, as
  the development shows for the string operations.  \<open>KernelReallocate\<close> and the identifier of the
  current process are arguments.  \<open>FastMemset\<close> clears a node or a handle only up to the last multiple of
  the vector width of the machine, as the development shows for the memory operations, so the
  operations that free nodes or handles take the CPU features.  \<open>FastMemcpy\<close> stands for an exact copy,
  which the development shows for machines without AVX2.  All time stamps come from
  \<open>GetCurrentTime\<close>, which returns 0, and are left out, as are the lines printed on the console.  A result
  \<open>None\<close> means that the call does not return properly: it walks for ever or leaves a buffer.
\<close>

section \<open>State\<close>

datatype FsNodeType = FS_FILE | FS_DIRECTORY

definition MAX_FILENAME :: nat where "MAX_FILENAME = 64"
definition MAX_FS_NODES :: nat where "MAX_FS_NODES = 128"

abbreviation "MAX_PATH \<equiv> (256 :: nat)"
abbreviation "MAX_OPEN_FILES \<equiv> (32 :: nat)"

abbreviation (input) "FS_READ \<equiv> 1 :: u32"
abbreviation (input) "FS_WRITE \<equiv> 2 :: u32"
abbreviation (input) "FS_APPEND \<equiv> 4 :: u32"

record FsNodes =
  nname :: "nat \<Rightarrow> string"
  ntype :: "nat \<Rightarrow> FsNodeType"
  nsize :: "nat \<Rightarrow> nat"
  ndata :: "nat \<Rightarrow> u8 list option"
  parent :: "nat \<Rightarrow> nat option"
  children :: "nat \<Rightarrow> nat option"
  last_child :: "nat \<Rightarrow> nat option"
  next_sibling :: "nat \<Rightarrow> nat option"
  prev_sibling :: "nat \<Rightarrow> nat option"
  node_id :: "nat \<Rightarrow> u32"

record FileHandles = FsNodes +
  hnode :: "nat \<Rightarrow> nat option"
  position :: "nat \<Rightarrow> nat"
  hflags :: "nat \<Rightarrow> u32"
  hfd :: "nat \<Rightarrow> u32"
  owner_pid :: "nat \<Rightarrow> u32"

record vfrfs = FileHandles +
  root_node :: "nat option"
  next_node_idx_hint :: nat
  next_handle_idx_hint :: nat
  next_node_id :: u32
  next_fd :: u32

section \<open>Nodes and handles\<close>

definition AllocNode :: "vfrfs \<Rightarrow> nat option \<times> vfrfs" where
  "AllocNode s =
    (case List.find (\<lambda>i. node_id s ((next_node_idx_hint s + i) mod MAX_FS_NODES) = 0) [0..<MAX_FS_NODES] of
       None \<Rightarrow> (None, s)
     | Some i \<Rightarrow>
        (let idx = (next_node_idx_hint s + i) mod MAX_FS_NODES
         in (Some idx, s\<lparr>node_id := (node_id s)(idx := next_node_id s), next_node_idx_hint := idx + 1,
                         next_node_id := next_node_id s + 1\<rparr>)))"

text \<open>
  \<open>FastMemset(p, 0, sz)\<close> on a structure: the number of bytes it clears, and the effect on the field at
  byte \<open>off\<close> of slot \<open>n\<close>.  A node has 152 bytes, a handle 32; 152 bytes are cleared up to byte 144 with
  SSE2 and up to byte 128 with AVX2 or AVX-512, at a boundary between fields in every case.
\<close>

definition memset_bytes :: "CpuFeatures \<Rightarrow> nat \<Rightarrow> nat" where
  "memset_bytes features sz = sz - sz mod memset_width features"

lemma FastMemset_bytes:
  "\<exists>r c'. FastMemset features ret (Some d) v sz c = Some (r, c')
     \<and> mem c' = filled d (memset_bytes features sz) (ucast v) (mem c)"
  using FastMemset_spec [of features ret d v sz c] unfolding memset_bytes_def by blast

definition cleared :: "nat \<Rightarrow> nat \<Rightarrow> nat \<Rightarrow> 'a \<Rightarrow> (nat \<Rightarrow> 'a) \<Rightarrow> nat \<Rightarrow> 'a" where
  "cleared w off n z f = (if off < w then f(n := z) else f)"

definition FreeNode :: "CpuFeatures \<Rightarrow> nat \<Rightarrow> vfrfs \<Rightarrow> vfrfs" where
  "FreeNode features n s =
    (let w = memset_bytes features 152
     in s\<lparr>nname := cleared w 0 n [] (nname s), ntype := cleared w 64 n FS_FILE (ntype s),
          nsize := cleared w 72 n 0 (nsize s), ndata := cleared w 96 n None (ndata s),
          parent := cleared w 104 n None (parent s), children := cleared w 112 n None (children s),
          last_child := cleared w 120 n None (last_child s), next_sibling := cleared w 128 n None (next_sibling s),
          prev_sibling := cleared w 136 n None (prev_sibling s), node_id := cleared w 144 n 0 (node_id s)\<rparr>)"

definition AllocHandle :: "vfrfs \<Rightarrow> nat option \<times> vfrfs" where
  "AllocHandle s =
    (case List.find (\<lambda>i. hfd s ((next_handle_idx_hint s + i) mod MAX_OPEN_FILES) = 0) [0..<MAX_OPEN_FILES] of
       None \<Rightarrow> (None, s)
     | Some i \<Rightarrow>
        (let idx = (next_handle_idx_hint s + i) mod MAX_OPEN_FILES
         in (Some idx, s\<lparr>hfd := (hfd s)(idx := next_fd s), next_handle_idx_hint := idx + 1,
                         next_fd := (if next_fd s + 1 = 0 then 1 else next_fd s + 1)\<rparr>)))"

definition GetHandle :: "vfrfs \<Rightarrow> int \<Rightarrow> nat option" where
  "GetHandle s fd =
    (if fd \<le> 0 then None else List.find (\<lambda>i. hfd s i = word_of_int fd) [0..<MAX_OPEN_FILES])"

definition zero_handles :: "vfrfs \<Rightarrow> vfrfs" where
  "zero_handles s = s\<lparr>hnode := (\<lambda>_. None), position := (\<lambda>_. 0), hflags := (\<lambda>_. 0), hfd := (\<lambda>_. 0),
     owner_pid := (\<lambda>_. 0)\<rparr>"

definition zero_nodes :: "vfrfs \<Rightarrow> vfrfs" where
  "zero_nodes s = s\<lparr>nname := (\<lambda>_. []), ntype := (\<lambda>_. FS_FILE), nsize := (\<lambda>_. 0), ndata := (\<lambda>_. None),
     parent := (\<lambda>_. None), children := (\<lambda>_. None), last_child := (\<lambda>_. None),
     next_sibling := (\<lambda>_. None), prev_sibling := (\<lambda>_. None), node_id := (\<lambda>_. 0)\<rparr>"

definition FsInit :: "vfrfs \<Rightarrow> int \<times> vfrfs" where
  "FsInit s =
    (let (r, s) = AllocNode (zero_nodes (zero_handles s))
     in case r of
          None \<Rightarrow> (- 1, s\<lparr>root_node := None\<rparr>)
        | Some n \<Rightarrow> (0, s\<lparr>root_node := Some n, nname := (nname s)(n := ''/''),
                        ntype := (ntype s)(n := FS_DIRECTORY)\<rparr>))"

section \<open>Directories\<close>

partial_function (option) find_child :: "vfrfs \<Rightarrow> string \<Rightarrow> nat option \<Rightarrow> nat option option" where
  "find_child s nm c =
    (if c = None then Some None
     else if nname s (the c) = nm then Some c
     else find_child s nm (next_sibling s (the c)))"

definition link_child :: "nat \<Rightarrow> nat \<Rightarrow> vfrfs \<Rightarrow> vfrfs" where
  "link_child par n s =
    (case last_child s par of
       None \<Rightarrow> s\<lparr>children := (children s)(par := Some n), last_child := (last_child s)(par := Some n)\<rparr>
     | Some l \<Rightarrow> s\<lparr>prev_sibling := (prev_sibling s)(n := Some l),
                  next_sibling := (next_sibling s)(l := Some n),
                  last_child := (last_child s)(par := Some n)\<rparr>)"

definition FsCreateNode :: "string \<Rightarrow> FsNodeType \<Rightarrow> nat option \<Rightarrow> vfrfs \<Rightarrow> (nat option \<times> vfrfs) option" where
  "FsCreateNode nm ty par s =
    (if par = None \<or> ntype s (the par) \<noteq> FS_DIRECTORY \<or> nm = [] then Some (None, s)
     else case find_child s nm (children s (the par)) of
       None \<Rightarrow> None
     | Some (Some _) \<Rightarrow> Some (None, s)
     | Some None \<Rightarrow>
        (case AllocNode s of
           (None, s) \<Rightarrow> Some (None, s)
         | (Some n, s) \<Rightarrow>
             Some (Some n, link_child (the par) n
               (s\<lparr>nname := (nname s)(n := take (MAX_FILENAME - 2) nm), ntype := (ntype s)(n := ty),
                  parent := (parent s)(n := par)\<rparr>))))"

text \<open>One component of a path: at most 63 characters up to the next slash.\<close>

definition skip_slashes :: "string \<Rightarrow> string" where
  "skip_slashes p = dropWhile (\<lambda>c. c = CHR ''/'') p"

definition component_of :: "string \<Rightarrow> string" where
  "component_of p = take (MAX_FILENAME - 1) (takeWhile (\<lambda>c. c \<noteq> CHR ''/'') p)"

lemma component_shorter:
  assumes "skip_slashes p \<noteq> []"
  shows "length (skip_slashes p) - length (component_of (skip_slashes p)) < length p"
proof -
  have "hd (skip_slashes p) \<noteq> CHR ''/''"
    using hd_dropWhile [of "\<lambda>c. c = CHR ''/''" p] assms by (simp add: skip_slashes_def)
  then have "0 < length (component_of (skip_slashes p))"
    using assms by (cases "skip_slashes p") (simp_all add: component_of_def MAX_FILENAME_def)
  moreover have "length (skip_slashes p) \<le> length p"
    by (simp add: skip_slashes_def length_dropWhile_le)
  moreover have "0 < length (skip_slashes p)"
    using assms by simp
  ultimately show ?thesis by linarith
qed

function walk :: "vfrfs \<Rightarrow> nat \<Rightarrow> string \<Rightarrow> nat option option" where
  "walk s cur p =
    (let q = skip_slashes p; nm = component_of q; rest = drop (length nm) q
     in if q = [] then Some (Some cur)
        else if nm = ''.'' then walk s cur rest
        else if nm = ''..'' then walk s (case parent s cur of None \<Rightarrow> cur | Some u \<Rightarrow> u) rest
        else case find_child s nm (children s cur) of
               None \<Rightarrow> None
             | Some None \<Rightarrow> Some None
             | Some (Some c) \<Rightarrow> walk s c rest)"
  by auto
termination
  by (relation "measure (\<lambda>(s, cur, p). length p)") (auto intro: component_shorter)

declare walk.simps [simp del]

definition FsFind :: "string option \<Rightarrow> vfrfs \<Rightarrow> nat option option" where
  "FsFind path s =
    (if path = None \<or> root_node s = None then Some None
     else if the path = ''/'' then Some (root_node s)
     else walk s (the (root_node s)) (the path))"

definition FsFindParent :: "string option \<Rightarrow> vfrfs \<Rightarrow> (nat option \<times> string) option" where
  "FsFindParent path s =
    (case path of
       None \<Rightarrow> Some (None, [])
     | Some p \<Rightarrow>
        if p = [] \<or> hd p \<noteq> CHR ''/'' then Some (None, [])
        else
         (let name_start = rev (takeWhile (\<lambda>c. c \<noteq> CHR ''/'') (rev p));
              last_slash = length p - 1 - length name_start;
              child = take (MAX_FILENAME - 2) name_start
          in if name_start = [] then Some (None, [])
             else if last_slash \<ge> MAX_PATH then None
             else map_option (\<lambda>d. (d, child))
                    (FsFind (Some (if last_slash = 0 then ''/'' else take last_slash p)) s)))"

section \<open>Files\<close>

definition int32 :: "nat \<Rightarrow> int" where
  "int32 n = sint (of_nat n :: u32)"

definition FsOpen :: "u32 \<Rightarrow> string option \<Rightarrow> u32 \<Rightarrow> vfrfs \<Rightarrow> (int \<times> vfrfs) option" where
  "FsOpen pid path flags s =
    (let open_node = (\<lambda>n s.
           if ntype s n \<noteq> FS_FILE then Some (- 1, s)
           else case AllocHandle s of
                  (None, s) \<Rightarrow> Some (- 1, s)
                | (Some h, s) \<Rightarrow>
                    Some (sint (hfd s h),
                      s\<lparr>hnode := (hnode s)(h := Some n),
                        position := (position s)(h := (if flags AND FS_APPEND \<noteq> 0 then nsize s n else 0)),
                        hflags := (hflags s)(h := flags), owner_pid := (owner_pid s)(h := pid)\<rparr>))
     in case FsFind path s of
          None \<Rightarrow> None
        | Some (Some n) \<Rightarrow> open_node n s
        | Some None \<Rightarrow>
            if flags AND FS_WRITE = 0 then Some (- 1, s)
            else (case FsFindParent path s of
                    None \<Rightarrow> None
                  | Some (None, _) \<Rightarrow> Some (- 1, s)
                  | Some (Some par, nm) \<Rightarrow>
                     (case FsCreateNode nm FS_FILE (Some par) s of
                        None \<Rightarrow> None
                      | Some (None, s) \<Rightarrow> Some (- 1, s)
                      | Some (Some n, s) \<Rightarrow> open_node n s)))"

definition FsClose :: "CpuFeatures \<Rightarrow> int \<Rightarrow> vfrfs \<Rightarrow> int \<times> vfrfs" where
  "FsClose features fd s =
    (case GetHandle s fd of
       None \<Rightarrow> (- 1, s)
     | Some h \<Rightarrow>
        (let w = memset_bytes features 32
         in (0, s\<lparr>hnode := cleared w 0 h None (hnode s), position := cleared w 8 h 0 (position s),
                  hflags := cleared w 16 h 0 (hflags s), hfd := cleared w 20 h 0 (hfd s),
                  owner_pid := cleared w 24 h 0 (owner_pid s)\<rparr>)))"

text \<open>The bytes a read puts into the caller's buffer are part of its result.\<close>

definition FsRead :: "int \<Rightarrow> nat \<Rightarrow> vfrfs \<Rightarrow> (int \<times> u8 list \<times> vfrfs) option" where
  "FsRead fd sz s =
    (case GetHandle s fd of
       None \<Rightarrow> Some (- 1, [], s)
     | Some h \<Rightarrow>
        if hflags s h AND FS_READ = 0 then Some (- 1, [], s)
        else (case hnode s h of
                None \<Rightarrow> Some (0, [], s)
              | Some n \<Rightarrow>
                 (case ndata s n of
                    None \<Rightarrow> Some (0, [], s)
                  | Some d \<Rightarrow>
                     (let readable_size = sub64 (nsize s n) (position s h);
                          k = (if sz > readable_size then readable_size else sz)
                      in if k = 0 then Some (0, [], s)
                         else if position s h + k > length d then None
                         else Some (int32 k, take k (drop (position s h) d),
                                s\<lparr>position := (position s)(h := wrap64 (position s h + k))\<rparr>)))))"

definition FsWrite :: "(u8 list option \<Rightarrow> nat \<Rightarrow> u8 list option) \<Rightarrow> int \<Rightarrow> u8 list \<Rightarrow> vfrfs \<Rightarrow> (int \<times> vfrfs) option" where
  "FsWrite realloc fd buf s =
    (case GetHandle s fd of
       None \<Rightarrow> Some (- 1, s)
     | Some h \<Rightarrow>
        if hflags s h AND FS_WRITE = 0 then Some (- 1, s)
        else if buf = [] then Some (0, s)
        else (case hnode s h of
                None \<Rightarrow> Some (- 1, s)
              | Some n \<Rightarrow>
                 (let pos = position s h;
                      new_size = wrap64 (pos + length buf);
                      grown = (if new_size > nsize s n
                               then map_option (\<lambda>d. (Some d, new_size)) (realloc (ndata s n) new_size)
                               else Some (ndata s n, nsize s n))
                  in case grown of
                       None \<Rightarrow> Some (- 1, s)
                     | Some (None, _) \<Rightarrow> None
                     | Some (Some d, size') \<Rightarrow>
                         if pos + length buf > length d then None
                         else Some (int32 (length buf),
                                s\<lparr>ndata := (ndata s)(n := Some (take pos d @ buf @ drop (pos + length buf) d)),
                                  nsize := (nsize s)(n := size'),
                                  position := (position s)(h := wrap64 (pos + length buf))\<rparr>))))"

definition FsSeek :: "int \<Rightarrow> u64 \<Rightarrow> int \<Rightarrow> vfrfs \<Rightarrow> int \<times> vfrfs" where
  "FsSeek fd offset whence s =
    (case GetHandle s fd of
       None \<Rightarrow> (- 1, s)
     | Some h \<Rightarrow>
        (case hnode s h of
           None \<Rightarrow> (- 1, s)
         | Some n \<Rightarrow>
            (if whence \<noteq> 0 \<and> whence \<noteq> 1 \<and> whence \<noteq> 2 then (- 1, s)
             else (let new_pos = (if whence = 0 then offset
                                  else if whence = 1 then of_nat (position s h) + offset
                                  else of_nat (nsize s n) + offset)
                   in if sint new_pos < 0 then (- 1, s)
                      else (sint new_pos, s\<lparr>position := (position s)(h := unat new_pos)\<rparr>)))))"

section \<open>Directories and deletion\<close>

definition FsMkdir :: "string option \<Rightarrow> vfrfs \<Rightarrow> (int \<times> vfrfs) option" where
  "FsMkdir path s =
    (case FsFindParent path s of
       None \<Rightarrow> None
     | Some (None, _) \<Rightarrow> Some (- 1, s)
     | Some (Some par, nm) \<Rightarrow>
        (case FsCreateNode nm FS_DIRECTORY (Some par) s of
           None \<Rightarrow> None
         | Some (None, s) \<Rightarrow> Some (- 1, s)
         | Some (Some _, s) \<Rightarrow> Some (0, s)))"

definition UnlinkNode :: "nat \<Rightarrow> vfrfs \<Rightarrow> vfrfs" where
  "UnlinkNode n s =
    (case parent s n of
       None \<Rightarrow> s
     | Some par \<Rightarrow>
        (let s = (case prev_sibling s n of
                    Some p \<Rightarrow> s\<lparr>next_sibling := (next_sibling s)(p := next_sibling s n)\<rparr>
                  | None \<Rightarrow> s\<lparr>children := (children s)(par := next_sibling s n)\<rparr>)
         in (case next_sibling s n of
               Some q \<Rightarrow> s\<lparr>prev_sibling := (prev_sibling s)(q := prev_sibling s n)\<rparr>
             | None \<Rightarrow> s\<lparr>last_child := (last_child s)(par := prev_sibling s n)\<rparr>)))"

definition FsDelete :: "CpuFeatures \<Rightarrow> string option \<Rightarrow> vfrfs \<Rightarrow> (int \<times> vfrfs) option" where
  "FsDelete features path s =
    (case FsFind path s of
       None \<Rightarrow> None
     | Some None \<Rightarrow> Some (- 1, s)
     | Some (Some n) \<Rightarrow>
         if parent s n = None then Some (- 1, s)
         else if ntype s n = FS_DIRECTORY \<and> children s n \<noteq> None then Some (- 1, s)
         else Some (0, FreeNode features n (UnlinkNode n s)))"

definition FsRmdir :: "CpuFeatures \<Rightarrow> string option \<Rightarrow> vfrfs \<Rightarrow> (int \<times> vfrfs) option" where
  "FsRmdir features path s =
    (case FsFind path s of
       None \<Rightarrow> None
     | Some None \<Rightarrow> Some (- 1, s)
     | Some (Some n) \<Rightarrow> if ntype s n \<noteq> FS_DIRECTORY then Some (- 1, s) else FsDelete features path s)"

text \<open>
  The recursive deletion, with fuel for the nesting of its calls and loop iterations; a tree of at
  most \<open>MAX_FS_NODES\<close> nodes nests at most twice that deep.
\<close>

fun FsDeleteRecursiveI :: "CpuFeatures \<Rightarrow> nat \<Rightarrow> nat \<Rightarrow> vfrfs \<Rightarrow> vfrfs option"
and delete_children :: "CpuFeatures \<Rightarrow> nat \<Rightarrow> nat option \<Rightarrow> vfrfs \<Rightarrow> vfrfs option" where
  "FsDeleteRecursiveI features 0 n s = None"
| "FsDeleteRecursiveI features (Suc fuel) n s =
    map_option (FreeNode features n)
      (if ntype s n = FS_DIRECTORY then delete_children features fuel (children s n) s else Some s)"
| "delete_children features fuel None s = Some s"
| "delete_children features 0 (Some c) s = None"
| "delete_children features (Suc fuel) (Some c) s =
    (let nx = next_sibling s c
     in case FsDeleteRecursiveI features fuel c s of None \<Rightarrow> None | Some s \<Rightarrow> delete_children features fuel nx s)"

definition FsDeleteRecursive :: "CpuFeatures \<Rightarrow> string option \<Rightarrow> vfrfs \<Rightarrow> (int \<times> vfrfs) option" where
  "FsDeleteRecursive features path s =
    (case FsFind path s of
       None \<Rightarrow> None
     | Some None \<Rightarrow> Some (- 1, s)
     | Some (Some n) \<Rightarrow>
         if parent s n = None then Some (- 1, s)
         else map_option (\<lambda>s. (0, s)) (FsDeleteRecursiveI features (2 * MAX_FS_NODES) n (UnlinkNode n s)))"

definition FsReaddir :: "string option \<Rightarrow> vfrfs \<Rightarrow> nat option option" where
  "FsReaddir path s =
    (case FsFind path s of
       None \<Rightarrow> None
     | Some None \<Rightarrow> Some None
     | Some (Some d) \<Rightarrow> if ntype s d \<noteq> FS_DIRECTORY then Some None else Some (children s d))"

section \<open>Wrappers\<close>

definition FsCreateFile :: "CpuFeatures \<Rightarrow> u32 \<Rightarrow> string option \<Rightarrow> vfrfs \<Rightarrow> (int \<times> vfrfs) option" where
  "FsCreateFile features pid path s =
    (case FsOpen pid path FS_WRITE s of
       None \<Rightarrow> None
     | Some (fd, s) \<Rightarrow> if fd < 0 then Some (- 1, s) else Some (0, snd (FsClose features fd s)))"

definition FsWriteFile ::
  "CpuFeatures \<Rightarrow> (u8 list option \<Rightarrow> nat \<Rightarrow> u8 list option) \<Rightarrow> u32 \<Rightarrow> string option \<Rightarrow> u8 list \<Rightarrow> vfrfs \<Rightarrow> (int \<times> vfrfs) option" where
  "FsWriteFile features realloc pid path buf s =
    (case FsOpen pid path (FS_WRITE OR FS_APPEND) s of
       None \<Rightarrow> None
     | Some (fd, s) \<Rightarrow>
         if fd < 0 then Some (- 1, s)
         else map_option (\<lambda>(r, s). (r, snd (FsClose features fd s))) (FsWrite realloc fd buf s))"

section \<open>The tree behind the pointers\<close>

definition live :: "vfrfs \<Rightarrow> nat \<Rightarrow> bool" where
  "live s n \<longleftrightarrow> node_id s n \<noteq> 0"

text \<open>
  \<open>kids d\<close> is the list of children of directory \<open>d\<close>.  The representation: the sibling links of the
  children of every directory form that list and \<open>last_child\<close> is its end, the names in a
  directory differ, \<open>parent\<close> is the directory a node is in, a free node is cleared, and the
  recorded size of a file is the length of its data.
\<close>

definition links_ok :: "(nat \<Rightarrow> nat list) \<Rightarrow> vfrfs \<Rightarrow> bool" where
  "links_ok kids s \<longleftrightarrow>
     (\<forall>d. dseg (next_sibling s) (prev_sibling s) None (children s d) (kids d) (last_child s d) None)"

definition names_ok :: "(nat \<Rightarrow> nat list) \<Rightarrow> vfrfs \<Rightarrow> bool" where
  "names_ok kids s \<longleftrightarrow> (\<forall>d. distinct (map (nname s) (kids d)))"

definition parents_ok :: "(nat \<Rightarrow> nat list) \<Rightarrow> vfrfs \<Rightarrow> bool" where
  "parents_ok kids s \<longleftrightarrow>
     (\<forall>c d. c \<in> set (kids d) \<longleftrightarrow> parent s c = Some d)
   \<and> (\<forall>c d. parent s c = Some d \<longrightarrow> live s c \<and> live s d \<and> ntype s d = FS_DIRECTORY)"

definition free_ok :: "vfrfs \<Rightarrow> bool" where
  "free_ok s \<longleftrightarrow>
     (\<forall>n. \<not> live s n \<longrightarrow> next_sibling s n = None \<and> prev_sibling s n = None \<and> children s n = None
            \<and> last_child s n = None \<and> ndata s n = None \<and> nsize s n = 0)
   \<and> (\<forall>n. live s n \<longrightarrow> n < MAX_FS_NODES)"

definition content :: "vfrfs \<Rightarrow> nat \<Rightarrow> u8 list" where
  "content s n = (case ndata s n of None \<Rightarrow> [] | Some d \<Rightarrow> d)"

definition sizes_ok :: "vfrfs \<Rightarrow> bool" where
  "sizes_ok s \<longleftrightarrow> (\<forall>n. length (content s n) = nsize s n)"

definition root_ok :: "vfrfs \<Rightarrow> bool" where
  "root_ok s \<longleftrightarrow> (\<exists>r. root_node s = Some r \<and> live s r \<and> ntype s r = FS_DIRECTORY \<and> parent s r = None)"

definition fs_rep :: "(nat \<Rightarrow> nat list) \<Rightarrow> vfrfs \<Rightarrow> bool" where
  "fs_rep kids s \<longleftrightarrow>
     links_ok kids s \<and> names_ok kids s \<and> parents_ok kids s \<and> free_ok s \<and> sizes_ok s \<and> root_ok s"

lemma fs_repD:
  assumes "fs_rep kids s"
  shows "links_ok kids s" "names_ok kids s" "parents_ok kids s" "free_ok s" "sizes_ok s" "root_ok s"
  using assms by (simp_all add: fs_rep_def)

lemma kids_iff: "fs_rep kids s \<Longrightarrow> c \<in> set (kids d) \<longleftrightarrow> parent s c = Some d"
  by (simp add: fs_rep_def parents_ok_def)

lemma parent_live:
  assumes "fs_rep kids s" "parent s c = Some d"
  shows "live s c" "live s d" "ntype s d = FS_DIRECTORY"
  using assms by (auto simp: fs_rep_def parents_ok_def)

lemma kids_distinct: "fs_rep kids s \<Longrightarrow> distinct (kids d)"
  by (auto simp: fs_rep_def names_ok_def distinct_map)

lemma dseg_seg: "dseg nx pv r p xs r' q \<Longrightarrow> seg nx p xs q"
  by (induction xs arbitrary: r p) auto

lemma find_child_spec:
  "seg (next_sibling s) p xs None
    \<Longrightarrow> find_child s nm p = Some (List.find (\<lambda>c. nname s c = nm) xs)"
proof (induction xs arbitrary: p)
  case Nil
  then show ?case by (subst find_child.simps) simp
next
  case (Cons x xs)
  then show ?case by (subst find_child.simps) auto
qed

lemma find_child_kids:
  assumes "fs_rep kids s"
  shows "find_child s nm (children s d) = Some (List.find (\<lambda>c. nname s c = nm) (kids d))"
  using find_child_spec dseg_seg assms by (fastforce simp: fs_rep_def links_ok_def)

section \<open>Path resolution\<close>

function components :: "string \<Rightarrow> string list" where
  "components p =
    (let q = skip_slashes p; nm = component_of q
     in if q = [] then [] else nm # components (drop (length nm) q))"
  by auto
termination
  by (relation "measure length") (auto intro: component_shorter)

declare components.simps [simp del]

fun resolve :: "(nat \<Rightarrow> nat list) \<Rightarrow> vfrfs \<Rightarrow> nat \<Rightarrow> string list \<Rightarrow> nat option" where
  "resolve kids s cur [] = Some cur"
| "resolve kids s cur (nm # ns) =
    (if nm = ''.'' then resolve kids s cur ns
     else if nm = ''..'' then resolve kids s (case parent s cur of None \<Rightarrow> cur | Some u \<Rightarrow> u) ns
     else case List.find (\<lambda>c. nname s c = nm) (kids cur) of
            None \<Rightarrow> None
          | Some c \<Rightarrow> resolve kids s c ns)"

lemma walk_resolve:
  assumes "fs_rep kids s"
  shows "walk s cur p = Some (resolve kids s cur (components p))"
  using assms
proof (induction s cur p rule: walk.induct)
  case (1 s cur p)
  show ?case
    using 1 by (subst walk.simps, subst components.simps)
      (auto simp: Let_def find_child_kids [OF 1(4)] split: option.splits)
qed

definition root_of :: "vfrfs \<Rightarrow> nat" where
  "root_of s = the (root_node s)"

lemma components_slash: "components ''/'' = []"
  by (subst components.simps) (simp add: skip_slashes_def)

lemma FsFind_resolve:
  assumes "fs_rep kids s"
  shows "FsFind (Some p) s = Some (resolve kids s (root_of s) (components p))"
proof -
  obtain r where "root_node s = Some r"
    using fs_repD(6) [OF assms] by (auto simp: root_ok_def)
  then show ?thesis
    by (auto simp: FsFind_def root_of_def walk_resolve [OF assms] components_slash)
qed

lemma skip_slashes_append:
  "skip_slashes (p @ t) = (if skip_slashes p = [] then skip_slashes t else skip_slashes p @ t)"
  by (induction p) (simp_all add: skip_slashes_def)

lemma component_of_append: "component_of (q @ CHR ''/'' # t) = component_of q"
proof -
  have "takeWhile (\<lambda>c. c \<noteq> CHR ''/'') (q @ CHR ''/'' # t) = takeWhile (\<lambda>c. c \<noteq> CHR ''/'') q"
    by (induction q) simp_all
  then show ?thesis by (simp add: component_of_def)
qed

lemma components_snoc:
  assumes "nm \<noteq> []" "CHR ''/'' \<notin> set nm" "length nm \<le> 63"
  shows "components (dir @ CHR ''/'' # nm) = components dir @ [nm]"
proof (induction dir rule: components.induct)
  case (1 p)
  let ?t = "CHR ''/'' # nm"
  have nm: "skip_slashes nm = nm"
    using assms by (cases nm) (auto simp: skip_slashes_def)
  have tw: "takeWhile (\<lambda>c. c \<noteq> CHR ''/'') nm = nm"
    using assms(2) by (intro takeWhile_eq_all_conv [THEN iffD2]) metis
  have cn: "component_of nm = nm"
    unfolding component_of_def tw MAX_FILENAME_def using assms(3) by simp
  have t: "skip_slashes ?t = nm"
    using nm by (simp add: skip_slashes_def)
  have e: "components [] = []"
    by (subst components.simps) (simp add: skip_slashes_def)
  show ?case
  proof (cases "skip_slashes p = []")
    case True
    then have "components p = []"
      by (subst components.simps) simp
    moreover have "components (p @ ?t) = [nm]"
      using True assms(1) nm t cn e by (subst components.simps) (simp add: Let_def skip_slashes_append)
    ultimately show ?thesis by simp
  next
    case False
    have s: "skip_slashes (p @ ?t) = skip_slashes p @ ?t"
      using False by (simp add: skip_slashes_append)
    have c: "component_of (skip_slashes p @ ?t) = component_of (skip_slashes p)"
      by (rule component_of_append)
    have l: "length (component_of (skip_slashes p)) \<le> length (skip_slashes p)"
      using length_takeWhile_le [of "\<lambda>c. c \<noteq> CHR ''/''" "skip_slashes p"]
      by (simp add: component_of_def min.coboundedI1)
    have "components (p @ ?t) = component_of (skip_slashes p)
        # components (drop (length (component_of (skip_slashes p))) (skip_slashes p) @ ?t)"
      using False l by (subst components.simps) (simp add: Let_def s c)
    also have "\<dots> = components p @ [nm]"
      using 1 [OF refl refl False] False by (subst (2) components.simps) (simp add: Let_def)
    finally show ?thesis .
  qed
qed

section \<open>Creating a node\<close>

lemma AllocNode_spec:
  assumes "fs_rep kids s" and "n0 < MAX_FS_NODES" "\<not> live s n0"
  obtains n h where "\<not> live s n" "n < MAX_FS_NODES"
    "AllocNode s = (Some n, s\<lparr>node_id := (node_id s)(n := next_node_id s), next_node_idx_hint := h,
       next_node_id := next_node_id s + 1\<rparr>)"
proof -
  let ?idx = "\<lambda>i. (next_node_idx_hint s + i) mod MAX_FS_NODES"
  let ?P = "\<lambda>i. node_id s (?idx i) = 0"
  obtain i where i: "i < MAX_FS_NODES" "?idx i = n0"
  proof
    let ?h = "next_node_idx_hint s"
    show "(n0 + MAX_FS_NODES - ?h mod MAX_FS_NODES) mod MAX_FS_NODES < MAX_FS_NODES"
      by (simp add: MAX_FS_NODES_def)
    have "(?h + (n0 + MAX_FS_NODES - ?h mod MAX_FS_NODES) mod MAX_FS_NODES) mod MAX_FS_NODES
        = (?h mod MAX_FS_NODES + (n0 + MAX_FS_NODES - ?h mod MAX_FS_NODES)) mod MAX_FS_NODES"
      by (simp add: mod_add_left_eq mod_add_right_eq)
    also have "?h mod MAX_FS_NODES + (n0 + MAX_FS_NODES - ?h mod MAX_FS_NODES) = n0 + MAX_FS_NODES"
      by (simp add: MAX_FS_NODES_def)
    finally show "?idx ((n0 + MAX_FS_NODES - ?h mod MAX_FS_NODES) mod MAX_FS_NODES) = n0"
      using assms(2) by simp
  qed
  then have "List.find ?P [0..<MAX_FS_NODES] \<noteq> None"
    using assms(3) by (auto simp: find_None_iff live_def)
  then obtain j where j: "List.find ?P [0..<MAX_FS_NODES] = Some j" by blast
  then have "?P j" by (auto simp: find_Some_iff)
  then show thesis
    using j by (intro that [of "?idx j"]) (simp_all add: AllocNode_def Let_def live_def MAX_FS_NODES_def)
qed

lemma dseg_snoc:
  assumes "dseg nx pv None p xs l None" and "n \<notin> set xs" "distinct xs"
    and "nx n = None" and "l = None \<Longrightarrow> pv n = None"
  shows "dseg (case l of None \<Rightarrow> nx | Some k \<Rightarrow> nx(k := Some n))
     (case l of None \<Rightarrow> pv | Some k \<Rightarrow> pv(n := Some k))
     None (if xs = [] then Some n else p) (xs @ [n]) (Some n) None"
proof (cases xs rule: rev_cases)
  case Nil
  then show ?thesis using assms by simp
next
  case (snoc ys k)
  then have l: "l = Some k" and d: "dseg nx pv None p ys (pv k) (Some k)"
    using assms(1) by (auto simp: dseg_append)
  have "k \<noteq> n" "k \<notin> set ys" "n \<notin> set ys" using assms(2,3) snoc by auto
  then show ?thesis
    using d l assms(4) snoc by (auto simp: dseg_append)
qed

text \<open>The state after a node has been taken, filled in and linked.\<close>

definition create_at :: "nat \<Rightarrow> string \<Rightarrow> FsNodeType \<Rightarrow> nat \<Rightarrow> nat \<Rightarrow> vfrfs \<Rightarrow> vfrfs" where
  "create_at n nm ty d h s = link_child d n
     (s\<lparr>node_id := (node_id s)(n := next_node_id s), next_node_idx_hint := h,
       next_node_id := next_node_id s + 1, nname := (nname s)(n := take (MAX_FILENAME - 2) nm),
       ntype := (ntype s)(n := ty), parent := (parent s)(n := Some d)\<rparr>)"

lemma create_at_fields:
  "nname (create_at n nm ty d h s) = (nname s)(n := take 62 nm)"
  "ntype (create_at n nm ty d h s) = (ntype s)(n := ty)"
  "parent (create_at n nm ty d h s) = (parent s)(n := Some d)"
  "node_id (create_at n nm ty d h s) = (node_id s)(n := next_node_id s)"
  "ndata (create_at n nm ty d h s) = ndata s" "nsize (create_at n nm ty d h s) = nsize s"
  "root_node (create_at n nm ty d h s) = root_node s"
  "next_sibling (create_at n nm ty d h s) =
     (case last_child s d of None \<Rightarrow> next_sibling s | Some k \<Rightarrow> (next_sibling s)(k := Some n))"
  "prev_sibling (create_at n nm ty d h s) =
     (case last_child s d of None \<Rightarrow> prev_sibling s | Some k \<Rightarrow> (prev_sibling s)(n := Some k))"
  "last_child (create_at n nm ty d h s) = (last_child s)(d := Some n)"
  "children (create_at n nm ty d h s) =
     (if last_child s d = None then (children s)(d := Some n) else children s)"
  by (auto simp: create_at_def link_child_def MAX_FILENAME_def split: option.splits)

lemma last_child_last:
  assumes "fs_rep kids s"
  shows "last_child s d = (if kids d = [] then None else Some (last (kids d)))"
proof -
  have "dseg (next_sibling s) (prev_sibling s) None (children s d) (kids d) (last_child s d) None"
    using fs_repD(1) [OF assms] by (simp add: links_ok_def)
  then show ?thesis
    by (cases "kids d" rule: rev_cases) (auto simp: dseg_append)
qed

lemma create_at_links:
  assumes R: "fs_rep kids s" and n: "\<not> live s n"
  shows "links_ok (kids(d := kids d @ [n])) (create_at n nm ty d h s)"
  unfolding links_ok_def
proof
  fix e
  let ?s = "create_at n nm ty d h s"
  have old: "dseg (next_sibling s) (prev_sibling s) None (children s e) (kids e) (last_child s e) None" for e
    using fs_repD(1) [OF R] by (simp add: links_ok_def)
  have nk: "n \<notin> set (kids e)" for e
    using n kids_iff [OF R] parent_live [OF R] by blast
  have f: "next_sibling s n = None" "prev_sibling s n = None"
    using fs_repD(4) [OF R] n by (auto simp: free_ok_def)
  show "dseg (next_sibling ?s) (prev_sibling ?s) None (children ?s e) ((kids(d := kids d @ [n])) e) (last_child ?s e) None"
  proof (cases "e = d")
    case True
    have ch: "children ?s d = (if kids d = [] then Some n else children s d)"
      using last_child_last [OF R, of d] by (simp add: create_at_fields)
    show ?thesis
      using dseg_snoc [OF old [of d] nk kids_distinct [OF R] f(1)] f(2) True
      by (simp add: ch create_at_fields(8-10))
  next
    case False
    have "k \<notin> set (kids e)" if "last_child s d = Some k" for k
    proof -
      have "k \<in> set (kids d)"
        using that last_child_last [OF R, of d] by (auto split: if_splits)
      then show ?thesis using kids_iff [OF R] False by auto
    qed
    then show ?thesis
      using old [of e] nk [of e] False by (auto simp: create_at_fields split: option.split)
  qed
qed

lemma create_at_rep:
  assumes R: "fs_rep kids s" and n: "\<not> live s n" "n < MAX_FS_NODES" and id: "next_node_id s \<noteq> 0"
    and d: "live s d" "ntype s d = FS_DIRECTORY"
    and nm: "length nm \<le> 62" "\<forall>c \<in> set (kids d). nname s c \<noteq> nm"
  shows "fs_rep (kids(d := kids d @ [n])) (create_at n nm ty d h s)"
proof -
  let ?s = "create_at n nm ty d h s"
  have nd: "n \<noteq> d" using n d by auto
  have nk: "n \<notin> set (kids e)" for e
    using n kids_iff [OF R] parent_live [OF R] by blast
  have pn: "parent s n = None" "parent s c \<noteq> Some n" for c
    using n parent_live [OF R] by (metis option.exhaust)+
  have lv: "live ?s c \<longleftrightarrow> c = n \<or> live s c" for c
    using id by (simp add: live_def create_at_fields)
  have "names_ok (kids(d := kids d @ [n])) ?s"
  proof -
    have m: "map ((nname s)(n := nm)) (kids e) = map (nname s) (kids e)" for e
      using nk [of e] by (intro map_cong) auto
    show ?thesis
      using fs_repD(2) [OF R] nm by (auto simp: names_ok_def create_at_fields m)
  qed
  moreover have "parents_ok (kids(d := kids d @ [n])) ?s"
    using fs_repD(3) [OF R] nk pn d nd unfolding parents_ok_def lv
    by (auto simp: create_at_fields)
  moreover have "free_ok ?s"
  proof -
    have k: "live s k" if "last_child s d = Some k" for k
    proof -
      have "k \<in> set (kids d)"
        using that last_child_last [OF R, of d] by (auto split: if_splits)
      then show ?thesis using kids_iff [OF R] parent_live(1) [OF R] by blast
    qed
    show ?thesis
      using fs_repD(4) [OF R] k d(1) n unfolding free_ok_def lv
      by (auto simp: create_at_fields split: option.split)
  qed
  moreover have "sizes_ok ?s"
    using fs_repD(5) [OF R] by (simp add: sizes_ok_def content_def create_at_fields)
  moreover have "root_ok ?s"
    using fs_repD(6) [OF R] n unfolding root_ok_def lv by (auto simp: create_at_fields)
  ultimately show ?thesis
    using create_at_links [OF R n(1)] by (simp add: fs_rep_def)
qed

lemma FsCreateNode_spec:
  assumes R: "fs_rep kids s" and free: "n0 < MAX_FS_NODES" "\<not> live s n0" and id: "next_node_id s \<noteq> 0"
    and d: "live s d" "ntype s d = FS_DIRECTORY"
    and nm: "nm \<noteq> []" "\<forall>c \<in> set (kids d). nname s c \<noteq> nm"
  obtains n h where "FsCreateNode nm ty (Some d) s = Some (Some n, create_at n nm ty d h s)"
    and "\<not> live s n" "n < MAX_FS_NODES"
proof -
  have f: "find_child s nm (children s d) = Some None"
    using nm(2) by (auto simp: find_child_kids [OF R] find_None_iff)
  obtain n h where "\<not> live s n" "n < MAX_FS_NODES"
    "AllocNode s = (Some n, s\<lparr>node_id := (node_id s)(n := next_node_id s), next_node_idx_hint := h,
       next_node_id := next_node_id s + 1\<rparr>)"
    using AllocNode_spec [OF R free] by blast
  then show thesis
    using f nm(1) d(2) by (intro that [of n h]) (simp_all add: FsCreateNode_def create_at_def)
qed

section \<open>Paths after a creation\<close>

lemma resolve_live:
  assumes "fs_rep kids s" "live s cur" "resolve kids s cur ns = Some m"
  shows "live s m"
  using assms(2,3)
proof (induction ns arbitrary: cur)
  case (Cons nm ns)
  have p: "parent s cur = Some u \<Longrightarrow> live s u" for u
    using parent_live [OF assms(1)] by blast
  have c: "List.find (\<lambda>c. nname s c = nm) (kids cur) = Some c \<Longrightarrow> live s c" for c
    using kids_iff [OF assms(1)] parent_live(1) [OF assms(1)] by (metis find_Some_iff nth_mem)
  show ?case
    using Cons p c by (auto split: if_splits option.splits)
qed simp

lemma find_append: "List.find P (xs @ ys) = (case List.find P xs of None \<Rightarrow> List.find P ys | Some x \<Rightarrow> Some x)"
  by (induction xs) auto

lemma find_remove1: "List.find P xs = Some c \<Longrightarrow> c \<noteq> n \<Longrightarrow> List.find P (remove1 n xs) = Some c"
  by (induction xs) (auto split: if_splits)

lemma resolve_append:
  "resolve kids s cur (ns @ ms) = Option.bind (resolve kids s cur ns) (\<lambda>d. resolve kids s d ms)"
  by (induction ns arbitrary: cur) (auto split: option.splits)

lemma resolve_created:
  assumes R: "fs_rep kids s" and n: "\<not> live s n" and "live s cur"
    and "resolve kids s cur ns = Some m"
  shows "resolve (kids(d := kids d @ [n])) (create_at n nm ty d h s) cur ns = Some m"
  using assms(3,4)
proof (induction ns arbitrary: cur)
  case (Cons x ns)
  let ?s = "create_at n nm ty d h s"
  have par: "parent ?s cur = parent s cur"
    using Cons.prems(1) n by (auto simp: create_at_fields)
  have u: "parent s cur = Some u \<Longrightarrow> live s u" for u
    using parent_live [OF R] by blast
  have nk: "n \<notin> set (kids e)" for e
    using n kids_iff [OF R] parent_live [OF R] by blast
  have "List.find (\<lambda>c. nname ?s c = x) (kids cur) = List.find (\<lambda>c. nname s c = x) (kids cur)"
    using nk by (intro find_cong) (auto simp: create_at_fields)
  then have f: "List.find (\<lambda>c. nname s c = x) (kids cur) = Some c
      \<Longrightarrow> List.find (\<lambda>c. nname ?s c = x) ((kids(d := kids d @ [n])) cur) = Some c" for c
    by (auto simp: find_append)
  have c: "List.find (\<lambda>c. nname s c = x) (kids cur) = Some c \<Longrightarrow> live s c" for c
    using kids_iff [OF R] parent_live(1) [OF R] by (metis find_Some_iff nth_mem)
  show ?case
    using Cons par u c f by (auto split: if_splits option.splits)
qed simp

lemma resolve_Cons:
  "resolve kids s cur (x # ns) = Option.bind (resolve kids s cur [x]) (\<lambda>d. resolve kids s d ns)"
  using resolve_append [of kids s cur "[x]" ns] by simp

text \<open>A path followed in two trees that differ at node \<open>n\<close> only.\<close>

lemma resolve_through:
  assumes step: "\<And>cur x c. P cur \<Longrightarrow> resolve k s cur [x] = Some c \<Longrightarrow> c = n \<or> P c \<and> resolve k' s' cur [x] = Some c"
  shows "P cur \<Longrightarrow> resolve k s cur ns = Some m \<Longrightarrow>
    resolve k' s' cur ns = Some m \<or> (\<exists>as bs. ns = as @ bs \<and> resolve k s cur as = Some n)"
proof (induction ns arbitrary: cur)
  case (Cons x ns)
  then obtain c where c: "resolve k s cur [x] = Some c" "resolve k s c ns = Some m"
    unfolding resolve_Cons [of k s cur x ns] by (auto simp: bind_eq_Some_conv)
  show ?case
  proof (cases "c = n")
    case True
    then show ?thesis using c(1) by (intro disjI2 exI [of _ "[x]"] exI [of _ ns] conjI) simp_all
  next
    case False
    then have c': "P c" "resolve k' s' cur [x] = Some c" using step [OF Cons.prems(1) c(1)] by blast+
    from Cons.IH [OF c'(1) c(2)] show ?thesis
    proof (elim disjE exE conjE)
      assume "resolve k' s' c ns = Some m"
      then show ?thesis unfolding resolve_Cons [of k' s' cur x ns] c'(2) by simp
    next
      fix as bs assume "ns = as @ bs" "resolve k s c as = Some n"
      then show ?thesis
        using c(1) resolve_Cons [of k s cur x as] by (intro disjI2 exI [of _ "x # as"] exI [of _ bs]) simp
    qed
  qed
qed simp

text \<open>A path that newly leads somewhere leads there through the new node.\<close>

lemma resolve_created_new:
  assumes R: "fs_rep kids s" and n: "\<not> live s n" and cur: "live s cur"
    and r: "resolve (kids(d := kids d @ [n])) (create_at n nm ty d h s) cur ns = Some m"
  shows "resolve kids s cur ns = Some m \<or>
    (\<exists>as bs. ns = as @ bs \<and> resolve (kids(d := kids d @ [n])) (create_at n nm ty d h s) cur as = Some n)"
proof (rule resolve_through [where P = "live s", OF _ cur r])
  fix cur x c
  let ?s = "create_at n nm ty d h s" and ?k = "kids(d := kids d @ [n])"
  assume l: "live s cur" and c: "resolve ?k ?s cur [x] = Some c"
  have par: "parent ?s cur = parent s cur" using l n by (auto simp: create_at_fields)
  have u: "parent s cur = Some u \<Longrightarrow> live s u" for u using parent_live(2) [OF R] by blast
  have nk: "n \<notin> set (kids e)" for e using n kids_iff [OF R] parent_live [OF R] by blast
  have f: "List.find (\<lambda>c. nname ?s c = x) (kids cur) = List.find (\<lambda>c. nname s c = x) (kids cur)"
    using nk by (intro find_cong) (auto simp: create_at_fields)
  have g: "c = n \<or> List.find (\<lambda>c. nname s c = x) (kids cur) = Some c \<and> live s c"
    if "List.find (\<lambda>c. nname ?s c = x) (?k cur) = Some c"
  proof -
    have "List.find (\<lambda>c. nname ?s c = x) (kids cur) = Some c \<or> c = n"
      using that by (auto simp: find_append split: if_splits option.splits)
    then show ?thesis
      unfolding f using kids_iff [OF R] parent_live(1) [OF R] by (metis find_Some_iff nth_mem)
  qed
  show "c = n \<or> live s c \<and> resolve kids s cur [x] = Some c"
  proof (cases "x = ''.'' \<or> x = ''..''")
    case True
    then show ?thesis using c l u par by (auto split: option.splits)
  next
    case False
    then have "List.find (\<lambda>c. nname ?s c = x) (?k cur) = Some c" using c by (auto split: option.splits if_splits)
    from g [OF this] False show ?thesis by auto
  qed
qed

lemma FsFindParent_spec:
  assumes "dir = [] \<or> hd dir = CHR ''/''" and "length dir < 256"
    and "nm \<noteq> []" "CHR ''/'' \<notin> set nm" "length nm \<le> 62"
    and "FsFind (Some (if dir = [] then ''/'' else dir)) s = Some d"
  shows "FsFindParent (Some (dir @ CHR ''/'' # nm)) s = Some (d, nm)"
proof -
  let ?p = "dir @ CHR ''/'' # nm"
  have "takeWhile (\<lambda>c. c \<noteq> CHR ''/'') (rev ?p) = rev nm"
    using assms(4) by (simp add: takeWhile_append takeWhile_eq_all_conv)
  then have start: "rev (takeWhile (\<lambda>c. c \<noteq> CHR ''/'') (rev ?p)) = nm"
    by (simp only: rev_rev_ident)
  have slash: "length ?p - 1 - length nm = length dir" by simp
  have hd: "hd ?p = CHR ''/''" "?p \<noteq> []" using assms(1) by (auto simp: hd_append)
  show ?thesis
    unfolding FsFindParent_def option.case start slash Let_def
    using assms hd by (cases "dir = []") (simp_all add: MAX_FILENAME_def)
qed

text \<open>
  C27: a new directory is found under its path and nothing else moves.  When the parent path, of less
  than 256 characters, leads to a directory without an entry of that name, a node is free, and the
  name is neither \<open>.\<close> nor \<open>..\<close> and at most 62 characters long, \<open>FsMkdir\<close> returns 0.  The tree then has one
  more entry, at the end of that directory, and the path leads to it.  Every path that led to a node
  still leads to the same one, and a path that newly leads to a node does so through the new directory.
\<close>
theorem FsMkdir_creates:
  assumes R: "fs_rep kids s" and free: "n0 < MAX_FS_NODES" "\<not> live s n0" and id: "next_node_id s \<noteq> 0"
    and dir: "dir = [] \<or> hd dir = CHR ''/''" "length dir < 256"
    and nm: "nm \<noteq> []" "CHR ''/'' \<notin> set nm" "length nm \<le> 62" "nm \<noteq> ''.''" "nm \<noteq> ''..''"
    and d: "FsFind (Some (if dir = [] then ''/'' else dir)) s = Some (Some d)" "ntype s d = FS_DIRECTORY"
    and new: "\<forall>c \<in> set (kids d). nname s c \<noteq> nm"
  shows "\<exists>n s'. FsMkdir (Some (dir @ CHR ''/'' # nm)) s = Some (0, s')
    \<and> \<not> live s n \<and> ntype s' n = FS_DIRECTORY \<and> nname s' n = nm
    \<and> fs_rep (kids(d := kids d @ [n])) s'
    \<and> FsFind (Some (dir @ CHR ''/'' # nm)) s' = Some (Some n)
    \<and> (\<forall>p m. FsFind (Some p) s = Some (Some m) \<longrightarrow> FsFind (Some p) s' = Some (Some m))
    \<and> (\<forall>p m. FsFind (Some p) s' = Some (Some m) \<longrightarrow> FsFind (Some p) s = Some (Some m) \<or>
         (\<exists>as bs. components p = as @ bs \<and> resolve (kids(d := kids d @ [n])) s' (root_of s') as = Some n))"
proof -
  let ?path = "dir @ CHR ''/'' # nm"
  obtain r where r: "root_node s = Some r" "live s r"
    using fs_repD(6) [OF R] by (auto simp: root_ok_def)
  have cd: "components (if dir = [] then ''/'' else dir) = components dir"
    by (simp add: components_slash) (simp add: components.simps [of "[]"] skip_slashes_def)
  have rd: "resolve kids s r (components dir) = Some d"
    using d(1) FsFind_resolve [OF R, of "if dir = [] then ''/'' else dir"] r(1) cd
    by (simp add: root_of_def)
  have ld: "live s d" by (rule resolve_live [OF R r(2) rd])
  obtain n h where c: "FsCreateNode nm FS_DIRECTORY (Some d) s = Some (Some n, create_at n nm FS_DIRECTORY d h s)"
    and n: "\<not> live s n" "n < MAX_FS_NODES"
    using FsCreateNode_spec [OF R free id ld d(2) nm(1) new] by blast
  let ?s = "create_at n nm FS_DIRECTORY d h s" and ?k = "kids(d := kids d @ [n])"
  have R': "fs_rep ?k ?s"
    by (rule create_at_rep [OF R n id ld d(2) nm(3) new])
  have root: "root_of ?s = r" using r by (simp add: root_of_def create_at_fields)
  have keep: "FsFind (Some p) ?s = Some (Some m)" if "FsFind (Some p) s = Some (Some m)" for p m
    using that resolve_created [OF R n(1) r(2)] r(1)
    by (simp add: FsFind_resolve [OF R] FsFind_resolve [OF R'] root) (simp add: root_of_def)
  have fresh: "FsFind (Some p) s = Some (Some m) \<or> (\<exists>as bs. components p = as @ bs \<and> resolve ?k ?s (root_of ?s) as = Some n)"
    if "FsFind (Some p) ?s = Some (Some m)" for p m
    using that resolve_created_new [OF R n(1) r(2)] r(1)
    by (simp add: FsFind_resolve [OF R] FsFind_resolve [OF R'] root) (simp add: root_of_def)
  have nk: "n \<notin> set (kids d)"
    using n(1) kids_iff [OF R] parent_live(1) [OF R] by blast
  have "List.find (\<lambda>c. nname ?s c = nm) (kids d) = None"
    using new nk by (auto simp: find_None_iff create_at_fields)
  then have "List.find (\<lambda>c. nname ?s c = nm) (?k d) = Some n"
    using nm(3) by (simp add: find_append create_at_fields)
  then have "resolve ?k ?s r (components ?path) = Some n"
    using resolve_created [OF R n(1) r(2) rd, of d nm FS_DIRECTORY h] nm
    by (simp add: components_snoc resolve_append)
  then have "FsFind (Some ?path) ?s = Some (Some n)"
    by (simp add: FsFind_resolve [OF R'] root)
  moreover have "FsMkdir (Some ?path) s = Some (0, ?s)"
    using FsFindParent_spec [OF dir nm(1-3) d(1)] c by (simp add: FsMkdir_def)
  ultimately show ?thesis
    using R' keep fresh n(1) nm(3) by (intro exI [of _ n] exI [of _ ?s]) (simp add: create_at_fields(1,2))
qed

section \<open>Deleting a node\<close>

lemma dseg_unlink:
  assumes "dseg nx pv None p (xs @ n # ys) l None" and "distinct (xs @ n # ys)"
  shows "dseg (case pv n of None \<Rightarrow> nx | Some m \<Rightarrow> nx(m := nx n)) (case nx n of None \<Rightarrow> pv | Some m \<Rightarrow> pv(m := pv n))
    None (case pv n of None \<Rightarrow> nx n | Some m \<Rightarrow> p) (xs @ ys) (case nx n of None \<Rightarrow> pv n | Some m \<Rightarrow> l) None"
    (is "dseg ?nx ?pv None ?p (xs @ ys) ?l None")
proof -
  have d: "dseg nx pv None p xs (pv n) (Some n)" "dseg nx pv (Some n) (nx n) ys l None"
    using assms(1) by (auto simp: dseg_append)
  have ys: "dseg nx ?pv (pv n) (nx n) ys ?l None" and nxt: "\<And>m. nx n = Some m \<Longrightarrow> m \<in> set ys"
    using d(2) assms(2) by (cases ys; auto)+
  have xs: "dseg nx ?pv None p xs (pv n) (Some n)"
  proof (cases "nx n")
    case (Some m)
    then have "m \<notin> set xs" using nxt assms(2) by auto
    then show ?thesis using d(1) Some by simp
  qed (use d(1) in simp)
  show ?thesis
  proof (cases xs rule: rev_cases)
    case Nil
    then show ?thesis using xs ys by simp
  next
    case (snoc zs z)
    then have pv: "pv n = Some z" using d(1) by (auto simp: dseg_append)
    have z: "z \<notin> set zs" "z \<notin> set ys" using assms(2) snoc by auto
    then have "dseg (nx(z := nx n)) ?pv None p (zs @ [z]) (Some z) (nx n)"
      using xs snoc by (auto simp: dseg_append)
    moreover have "dseg (nx(z := nx n)) ?pv (Some z) (nx n) ys ?l None"
      using ys z pv by simp
    ultimately show ?thesis
      using pv snoc by (auto simp: dseg_append)
  qed
qed

definition removed :: "CpuFeatures \<Rightarrow> nat \<Rightarrow> vfrfs \<Rightarrow> vfrfs" where
  "removed features n s = FreeNode features n (UnlinkNode n s)"

lemma node_bytes: "memset_bytes features 152 = (if memset_width features = 1 then 152 else if memset_width features = 16 then 144 else 128)"
  by (simp add: memset_bytes_def memset_width_def)

lemma dseg_cleared [simp]:
  "n \<notin> set xs \<Longrightarrow> dseg (cleared w off n v nx) pv r p xs r' q = dseg nx pv r p xs r' q"
  "n \<notin> set xs \<Longrightarrow> dseg nx (cleared w off n v pv) r p xs r' q = dseg nx pv r p xs r' q"
  by (simp_all add: cleared_def)

lemma removed_fields:
  assumes "parent s n = Some d"
  shows "nname (removed f n s) = (nname s)(n := [])" "ntype (removed f n s) = (ntype s)(n := FS_FILE)"
    "nsize (removed f n s) = (nsize s)(n := 0)" "ndata (removed f n s) = (ndata s)(n := None)"
    "parent (removed f n s) = (parent s)(n := None)"
    "node_id (removed f n s) = (if memset_width f = 1 then (node_id s)(n := 0) else node_id s)"
    "root_node (removed f n s) = root_node s"
    "next_sibling (removed f n s) = cleared (memset_bytes f 152) 128 n None (case prev_sibling s n of None \<Rightarrow> next_sibling s
        | Some p \<Rightarrow> (next_sibling s)(p := next_sibling s n))"
    "prev_sibling (removed f n s) = cleared (memset_bytes f 152) 136 n None (case next_sibling s n of None \<Rightarrow> prev_sibling s
        | Some q \<Rightarrow> (prev_sibling s)(q := prev_sibling s n))"
    "children (removed f n s) = (case prev_sibling s n of None \<Rightarrow> (children s)(d := next_sibling s n)
        | Some p \<Rightarrow> children s)(n := None)"
    "last_child (removed f n s) = (case next_sibling s n of None \<Rightarrow> (last_child s)(d := prev_sibling s n)
        | Some q \<Rightarrow> last_child s)(n := None)"
  using assms
  by (auto simp: removed_def FreeNode_def UnlinkNode_def Let_def cleared_def node_bytes split: option.splits)

lemma removed_rep:
  assumes R: "fs_rep kids s" and p: "parent s n = Some d" and leaf: "kids n = []"
  shows "fs_rep (kids(d := remove1 n (kids d))) (removed f n s)"
proof -
  let ?s = "removed f n s" and ?k = "kids(d := remove1 n (kids d))"
  note F = removed_fields [OF p]
  have nd: "n \<in> set (kids d)" "n \<noteq> d" using kids_iff [OF R, of n d] p leaf by auto
  obtain xs ys where k: "kids d = xs @ n # ys" using nd(1) by (meson split_list)
  have dist: "distinct (xs @ n # ys)" using kids_distinct [OF R, of d] k by simp
  have k': "remove1 n (kids d) = xs @ ys" using k dist by (simp add: remove1_append)
  have old: "dseg (next_sibling s) (prev_sibling s) None (children s e) (kids e) (last_child s e) None" for e
    using fs_repD(1) [OF R] by (simp add: links_ok_def)
  note od = old [of d, unfolded k]
  have nb: "prev_sibling s n = Some m \<Longrightarrow> m \<in> set (kids d)" "next_sibling s n = Some m \<Longrightarrow> m \<in> set (kids d)" for m
    using od k by (cases xs rule: rev_cases; cases ys; auto simp: dseg_append)+
  have disj: "m \<in> set (kids d) \<Longrightarrow> e \<noteq> d \<Longrightarrow> m \<notin> set (kids e)" for m e
    using kids_iff [OF R] by auto
  have lv: "live ?s c \<longleftrightarrow> (c \<noteq> n \<or> memset_width f \<noteq> 1) \<and> live s c" for c
    by (simp add: live_def F)
  have ln: "live s n" "live s d" using parent_live [OF R p] by blast+
  have "links_ok ?k ?s"
    unfolding links_ok_def
  proof
    fix e
    show "dseg (next_sibling ?s) (prev_sibling ?s) None (children ?s e) (?k e) (last_child ?s e) None"
    proof (cases "e = d")
      case True
      have nn: "n \<notin> set (xs @ ys)" using dist by simp
      show ?thesis
        using dseg_unlink [OF od dist] nd(2) True
        unfolding F k' True fun_upd_same dseg_cleared(1) [OF nn] dseg_cleared(2) [OF nn]
        by (auto split: option.splits)
    next
      case False
      show ?thesis
      proof (cases "e = n")
        case True
        then show ?thesis using leaf nd(2) by (simp add: F)
      next
        case en: False
        have "n \<notin> set (kids e)" using disj [OF nd(1) False] .
        then show ?thesis
          using old [of e] nb disj False en unfolding F
          by (auto split: option.splits)
      qed
    qed
  qed
  moreover have "names_ok ?k ?s"
  proof -
    have m: "n \<notin> set zs \<Longrightarrow> map ((nname s)(n := [])) zs = map (nname s) zs" for zs
      by (intro map_cong) auto
    have old: "distinct (map (nname s) (kids e))" for e
      using fs_repD(2) [OF R] by (simp add: names_ok_def)
    have "distinct (map (nname s) (xs @ ys))"
      using old [of d] unfolding k by auto
    then show ?thesis
      using k' dist disj [OF nd(1)] old unfolding names_ok_def F by (auto simp: m)
  qed
  moreover have "parents_ok ?k ?s"
  proof -
    have rm: "set (remove1 n (kids d)) = set (kids d) - {n}"
      using kids_distinct [OF R] by (simp add: set_remove1_eq)
    have "c \<in> set (?k e) \<longleftrightarrow> parent ?s c = Some e" for c e
      using kids_iff [OF R, of c e] p rm by (cases "c = n"; cases "e = d") (simp_all add: F)
    moreover have "e \<noteq> n" if "parent s c = Some e" for c e
      using kids_iff [OF R, of c e] that leaf by auto
    ultimately show ?thesis
      using parent_live [OF R] unfolding parents_ok_def lv by (auto simp: F)
  qed
  moreover have "free_ok ?s"
  proof -
    have "next_sibling ?s m = None \<and> prev_sibling ?s m = None \<and> children ?s m = None
        \<and> last_child ?s m = None \<and> ndata ?s m = None \<and> nsize ?s m = 0" if m: "\<not> live ?s m" for m
    proof (cases "m = n")
      case True
      then have "memset_width f = 1" using m lv ln(1) by simp
      then show ?thesis using True by (simp add: F cleared_def node_bytes)
    next
      case False
      then have dead: "\<not> live s m" using m lv by simp
      then have "m \<notin> set (kids d)" "m \<noteq> d"
        using kids_iff [OF R, of m d] parent_live(1) [OF R, of m d] ln(2) by auto
      then have "prev_sibling s n \<noteq> Some m" "next_sibling s n \<noteq> Some m" "m \<noteq> d"
        using nb by auto
      moreover have "next_sibling s m = None" "prev_sibling s m = None" "children s m = None"
        "last_child s m = None" "ndata s m = None" "nsize s m = 0"
        using fs_repD(4) [OF R] dead by (simp_all add: free_ok_def)
      ultimately show ?thesis
        using False by (simp add: F cleared_def split: option.split)
    qed
    then show ?thesis
      using fs_repD(4) [OF R] by (simp add: free_ok_def lv)
  qed
  moreover have "sizes_ok ?s"
    using fs_repD(5) [OF R] by (simp add: sizes_ok_def content_def F)
  moreover have "root_ok ?s"
  proof -
    obtain r where r: "root_node s = Some r" "live s r" "ntype s r = FS_DIRECTORY" "parent s r = None"
      using fs_repD(6) [OF R] by (auto simp: root_ok_def)
    then have "r \<noteq> n" using p by auto
    then show ?thesis using r unfolding root_ok_def lv by (intro exI [of _ r]) (simp add: F)
  qed
  ultimately show ?thesis by (simp add: fs_rep_def)
qed

lemma resolve_removed:
  assumes R: "fs_rep kids s" and p: "parent s n = Some d" and leaf: "kids n = []"
    and "cur \<noteq> n" "resolve (kids(d := remove1 n (kids d))) (removed f n s) cur ns = Some m"
  shows "m \<noteq> n \<and> resolve kids s cur ns = Some m"
  using assms(4,5)
proof (induction ns arbitrary: cur)
  case (Cons x ns)
  let ?s = "removed f n s" and ?k = "kids(d := remove1 n (kids d))"
  note F = removed_fields [OF p]
  have par: "parent ?s cur = parent s cur"
    using Cons.prems(1) by (simp add: F)
  have u: "parent s cur = Some u \<Longrightarrow> u \<noteq> n" for u
    using kids_iff [OF R, of cur n] leaf by auto
  have k: "set (?k e) = set (kids e) - {n}" for e
    using kids_distinct [OF R, of d] kids_iff [OF R, of n e] p by (auto simp: set_remove1_eq)
  have inj: "a = b" if "a \<in> set (kids e)" "b \<in> set (kids e)" "nname s a = nname s b" for a b e
    using fs_repD(2) [OF R] that by (auto simp: names_ok_def distinct_map dest: inj_onD)
  have c: "c \<noteq> n \<and> List.find (\<lambda>c. nname s c = x) (kids cur) = Some c"
    if "List.find (\<lambda>c. nname ?s c = x) (?k cur) = Some c" for c
  proof -
    have "c \<in> set (?k cur)" "nname ?s c = x"
      using that by (auto simp: find_Some_iff)
    then have c: "c \<in> set (kids cur)" "c \<noteq> n" "nname s c = x"
      using k [of cur] by (auto simp: F split: if_splits)
    obtain b where "List.find (\<lambda>c. nname s c = x) (kids cur) = Some b"
      using c by (cases "List.find (\<lambda>c. nname s c = x) (kids cur)") (auto simp: find_None_iff)
    moreover from this have "b \<in> set (kids cur)" "nname s b = x"
      by (auto simp: find_Some_iff)
    ultimately show ?thesis using inj c by metis
  qed
  show ?case
    using Cons par u c by (auto split: if_splits option.splits)
qed simp

text \<open>A path that led somewhere without passing the removed node still leads there.\<close>

lemma resolve_kept:
  assumes R: "fs_rep kids s" and p: "parent s n = Some d" and leaf: "kids n = []"
    and cur: "cur \<noteq> n" and r: "resolve kids s cur ns = Some m"
  shows "resolve (kids(d := remove1 n (kids d))) (removed f n s) cur ns = Some m \<or>
    (\<exists>as bs. ns = as @ bs \<and> resolve kids s cur as = Some n)"
proof (rule resolve_through [where P = "\<lambda>c. c \<noteq> n", OF _ cur r])
  fix cur x c
  let ?s = "removed f n s" and ?k = "kids(d := remove1 n (kids d))"
  assume l: "cur \<noteq> n" and c: "resolve kids s cur [x] = Some c"
  note F = removed_fields [OF p]
  have par: "parent ?s cur = parent s cur" using l by (simp add: F)
  have f: "List.find (\<lambda>c. nname ?s c = x) (?k cur) = Some c"
    if c: "c \<noteq> n" "List.find (\<lambda>c. nname s c = x) (kids cur) = Some c"
  proof -
    have "n \<notin> set (?k cur)"
      using kids_distinct [OF R, of d] kids_iff [OF R, of n cur] p by auto
    then have "List.find (\<lambda>c. nname ?s c = x) (?k cur) = List.find (\<lambda>c. nname s c = x) (?k cur)"
      by (intro find_cong) (auto simp: F)
    then show ?thesis using c find_remove1 by (cases "cur = d") auto
  qed
  show "c = n \<or> c \<noteq> n \<and> resolve ?k ?s cur [x] = Some c"
  proof (cases "x = ''.'' \<or> x = ''..''")
    case True
    then show ?thesis using c par by (auto split: option.splits)
  next
    case False
    then have "List.find (\<lambda>c. nname s c = x) (kids cur) = Some c" using c by (auto split: option.splits)
    then show ?thesis using f False by (cases "c = n") auto
  qed
qed

text \<open>
  C28: \<open>FsDelete\<close> removes exactly the named node from the tree.  Of a path that leads to a file or an
  empty directory other than the root it returns 0 and takes the node out of its directory.  The path
  leads nowhere afterwards, every path that still leads to a node leads to the node it led to before,
  and every path that led to a node without passing the deleted one still leads there.  The slot of
  the node becomes free for a new node only on a machine without SSE2, AVX2 and AVX-512: on the others
  \<open>FastMemset\<close> stops before \<open>node_id\<close>, and the slot stays in use.  Of the root and of a directory with
  entries \<open>FsDelete\<close> returns -1 and changes nothing.
\<close>
theorem FsDelete_removes:
  assumes R: "fs_rep kids s" and path: "FsFind (Some path) s = Some (Some n)"
  shows "case parent s n of
      None \<Rightarrow> FsDelete features (Some path) s = Some (- 1, s)
    | Some d \<Rightarrow>
        if kids n \<noteq> [] then FsDelete features (Some path) s = Some (- 1, s)
        else (\<exists>s'. FsDelete features (Some path) s = Some (0, s')
               \<and> parent s' n = None \<and> (live s' n \<longleftrightarrow> memset_width features \<noteq> 1)
               \<and> fs_rep (kids(d := remove1 n (kids d))) s' \<and> FsFind (Some path) s' = Some None
               \<and> (\<forall>q m. FsFind (Some q) s' = Some (Some m) \<longrightarrow> FsFind (Some q) s = Some (Some m))
               \<and> (\<forall>q m. FsFind (Some q) s = Some (Some m) \<longrightarrow> FsFind (Some q) s' = Some (Some m) \<or>
                    (\<exists>as bs. components q = as @ bs \<and> resolve kids s (root_of s) as = Some n)))"
proof (cases "parent s n")
  case None
  then show ?thesis using path by (simp add: FsDelete_def)
next
  case (Some d)
  have ch: "children s n = None \<longleftrightarrow> kids n = []"
  proof -
    have "dseg (next_sibling s) (prev_sibling s) None (children s n) (kids n) (last_child s n) None"
      using fs_repD(1) [OF R] by (simp add: links_ok_def)
    then show ?thesis by (cases "kids n") auto
  qed
  show ?thesis
  proof (cases "kids n = []")
    case False
    then obtain c where "parent s c = Some n"
      using kids_iff [OF R, of _ n] by (metis list.set_sel(1))
    then have "ntype s n = FS_DIRECTORY" by (rule parent_live(3) [OF R])
    then show ?thesis using False Some ch path by (simp add: FsDelete_def)
  next
    case True
    let ?s = "removed features n s"
    have del: "FsDelete features (Some path) s = Some (0, ?s)"
      using True Some ch path by (simp add: FsDelete_def removed_def)
    have R': "fs_rep (kids(d := remove1 n (kids d))) ?s"
      by (rule removed_rep [OF R Some True])
    obtain r where r: "root_node s = Some r" "parent s r = None"
      using fs_repD(6) [OF R] by (auto simp: root_ok_def)
    then have rn: "r \<noteq> n" using Some by auto
    have root: "root_of ?s = r" "root_of s = r"
      using r by (simp_all add: root_of_def removed_fields [OF Some])
    have sub: "m \<noteq> n \<and> FsFind (Some q) s = Some (Some m)" if "FsFind (Some q) ?s = Some (Some m)" for q m
      using that resolve_removed [OF R Some True rn, where f = features and ns = "components q" and m = m]
      by (simp add: FsFind_resolve [OF R] FsFind_resolve [OF R'] root)
    have "FsFind (Some path) ?s = Some None"
    proof -
      obtain o' where o: "FsFind (Some path) ?s = Some o'"
        by (simp add: FsFind_resolve [OF R'])
      then show ?thesis using sub [of path] path by (cases o') auto
    qed
    moreover have "live ?s n \<longleftrightarrow> memset_width features \<noteq> 1" "parent ?s n = None"
      using parent_live(1) [OF R Some] by (simp_all add: live_def removed_fields [OF Some])
    moreover have "FsFind (Some q) ?s = Some (Some m) \<or> (\<exists>as bs. components q = as @ bs \<and> resolve kids s (root_of s) as = Some n)"
      if "FsFind (Some q) s = Some (Some m)" for q m
      using that resolve_kept [OF R Some True rn, where f = features and ns = "components q" and m = m]
      by (simp add: FsFind_resolve [OF R] FsFind_resolve [OF R'] root)
    ultimately show ?thesis
      using Some True del R' sub by auto
  qed
qed

section \<open>File contents\<close>

text \<open>What \<open>KernelReallocate\<close> promises: a block of the new size that begins with the old bytes.\<close>

definition realloc_ok :: "(u8 list option \<Rightarrow> nat \<Rightarrow> u8 list option) \<Rightarrow> bool" where
  "realloc_ok realloc \<longleftrightarrow>
     (\<forall>d n d'. realloc d n = Some d' \<longrightarrow>
        length d' = n \<and> (case d of None \<Rightarrow> True | Some b \<Rightarrow> take (min (length b) n) d' = take (min (length b) n) b))"

definition open_at :: "vfrfs \<Rightarrow> int \<Rightarrow> nat \<Rightarrow> nat \<Rightarrow> bool" where
  "open_at s fd n pos \<longleftrightarrow>
     (\<exists>h. GetHandle s fd = Some h \<and> hnode s h = Some n \<and> position s h = pos
        \<and> hflags s h AND FS_READ \<noteq> 0 \<and> hflags s h AND FS_WRITE \<noteq> 0)"

lemma GetHandle_cong: "hfd s' = hfd s \<Longrightarrow> GetHandle s' fd = GetHandle s fd"
  by (simp add: GetHandle_def)

lemma FsWrite_spec:
  assumes sz: "sizes_ok s" and op: "open_at s fd n pos" and ro: "realloc_ok realloc"
    and pos: "pos \<le> nsize s n" and buf: "buf \<noteq> []" "pos + length buf < 18446744073709551616"
    and ok: "pos + length buf > nsize s n \<Longrightarrow> realloc (ndata s n) (pos + length buf) \<noteq> None"
  obtains s' where "FsWrite realloc fd buf s = Some (int32 (length buf), s')"
    and "content s' n = take pos (content s n) @ buf @ drop (pos + length buf) (content s n)"
    and "open_at s' fd n (pos + length buf)" "sizes_ok s'"
    and "\<And>m. m \<noteq> n \<Longrightarrow> content s' m = content s m"
proof -
  obtain h where h: "GetHandle s fd = Some h" "hnode s h = Some n" "position s h = pos"
    "hflags s h AND FS_READ \<noteq> 0" "hflags s h AND FS_WRITE \<noteq> 0"
    using op by (auto simp: open_at_def)
  let ?new = "pos + length buf"
  have size: "length (content s n) = nsize s n" using sz by (simp add: sizes_ok_def)
  have w: "wrap64 ?new = ?new" using buf(2) by (simp add: c_wrap)
  obtain d z where run: "FsWrite realloc fd buf s = Some (int32 (length buf),
      s\<lparr>ndata := (ndata s)(n := Some (take pos d @ buf @ drop ?new d)), nsize := (nsize s)(n := z),
        position := (position s)(h := ?new)\<rparr>)"
    and len: "length d = z" "?new \<le> z"
    and pre: "take pos d = take pos (content s n)" "drop ?new d = drop ?new (content s n)"
  proof (cases "?new > nsize s n")
    case True
    obtain d where d: "realloc (ndata s n) ?new = Some d" using ok [OF True] by blast
    have ld: "length d = ?new" using ro d by (simp add: realloc_ok_def)
    have "take pos d = take pos (content s n)"
    proof (cases "ndata s n")
      case None
      then show ?thesis using pos size by (simp add: content_def)
    next
      case (Some b)
      then have "length b = nsize s n" using size by (simp add: content_def)
      moreover have "take (min (length b) ?new) d = take (min (length b) ?new) b"
        using ro d Some unfolding realloc_ok_def by fastforce
      ultimately have "take (nsize s n) d = take (nsize s n) b"
        using True by (simp add: min_def)
      then have "take pos (take (nsize s n) d) = take pos (take (nsize s n) b)"
        by simp
      then show ?thesis using pos Some by (simp add: content_def)
    qed
    then show thesis
      using True d ld size h buf(1) by (intro that [where d = d and z = ?new]) (simp_all add: FsWrite_def Let_def w)
  next
    case False
    then obtain d where d: "ndata s n = Some d"
      using size buf(1) by (cases "ndata s n") (auto simp: content_def)
    then show thesis
      using False size h buf(1) by (intro that [where d = d and z = "nsize s n"]) (simp_all add: FsWrite_def Let_def w content_def)
  qed
  define s' where "s' = s\<lparr>ndata := (ndata s)(n := Some (take pos d @ buf @ drop ?new d)),
      nsize := (nsize s)(n := z), position := (position s)(h := ?new)\<rparr>"
  have "FsWrite realloc fd buf s = Some (int32 (length buf), s')"
    using run by (simp only: s'_def)
  moreover have "content s' n = take pos (content s n) @ buf @ drop ?new (content s n)"
    using pre by (simp add: s'_def content_def)
  moreover have "open_at s' fd n ?new"
    using h GetHandle_cong [of s' s] by (auto simp: open_at_def s'_def)
  moreover have "sizes_ok s'"
    using sz len pos by (simp add: sizes_ok_def s'_def content_def)
  moreover have "content s' m = content s m" if "m \<noteq> n" for m
    using that by (simp add: s'_def content_def)
  ultimately show thesis by (rule that)
qed

lemma FsRead_spec:
  assumes sz: "sizes_ok s" and op: "open_at s fd n pos" and pos: "pos \<le> nsize s n"
    and small: "nsize s n < 18446744073709551616"
  obtains s' where "FsRead fd k s = Some (int32 (min k (nsize s n - pos)), take k (drop pos (content s n)), s')"
    and "open_at s' fd n (pos + min k (nsize s n - pos))" "ndata s' = ndata s" "nsize s' = nsize s"
proof -
  obtain h where h: "GetHandle s fd = Some h" "hnode s h = Some n" "position s h = pos"
    "hflags s h AND FS_READ \<noteq> 0" "hflags s h AND FS_WRITE \<noteq> 0"
    using op by (auto simp: open_at_def)
  have size: "length (content s n) = nsize s n" using sz by (simp add: sizes_ok_def)
  let ?k = "min k (nsize s n - pos)"
  have sub: "sub64 (nsize s n) pos = nsize s n - pos"
    using pos small by (simp add: c_wrap)
  have k: "(if k > nsize s n - pos then nsize s n - pos else k) = ?k" by simp
  show thesis
  proof (cases "?k = 0")
    case True
    then have t: "take k (drop pos (content s n)) = []" using size by auto
    have kz: "(if k > nsize s n - pos then nsize s n - pos else k) = 0"
      using True by (simp only: k)
    have "FsRead fd k s = Some (0, [], s)"
      by (cases "ndata s n") (simp_all only: FsRead_def Let_def h sub kz option.case if_True if_False refl simp_thms)
    moreover have "int32 ?k = 0" using True by (simp add: int32_def)
    ultimately show ?thesis using op True t by (intro that [of s]) simp_all
  next
    case False
    then obtain d where d: "ndata s n = Some d"
      using size by (cases "ndata s n") (auto simp: content_def)
    have ld: "length d = nsize s n" using size d by (simp add: content_def)
    have fits: "\<not> length d < pos + ?k" using ld pos by simp
    have w: "wrap64 (pos + ?k) = pos + ?k" using pos small by (simp add: c_wrap)
    define s' where "s' = s\<lparr>position := (position s)(h := pos + ?k)\<rparr>"
    have "FsRead fd k s = Some (int32 ?k, take ?k (drop pos d), s')"
      unfolding FsRead_def Let_def
      by (simp only: h sub k d option.case if_False simp_thms False fits w s'_def)
    moreover have "take ?k (drop pos d) = take k (drop pos (content s n))"
      using d ld by (simp add: content_def min_def)
    moreover have "open_at s' fd n (pos + ?k)"
      using h GetHandle_cong [of s' s] by (auto simp: open_at_def s'_def)
    ultimately show ?thesis by (intro that [of s']) (simp_all add: s'_def)
  qed
qed

lemma FsSeek_set:
  assumes op: "open_at s fd n pos" and p: "p < 9223372036854775808"
  obtains s' where "FsSeek fd (of_nat p) 0 s = (int p, s')" "open_at s' fd n p"
    "ndata s' = ndata s" "nsize s' = nsize s"
proof -
  obtain h where h: "GetHandle s fd = Some h" "hnode s h = Some n" "position s h = pos"
    "hflags s h AND FS_READ \<noteq> 0" "hflags s h AND FS_WRITE \<noteq> 0"
    using op by (auto simp: open_at_def)
  have u: "unat (of_nat p :: u64) = p"
    using p by (simp add: unat_of_nat)
  have i: "sint (of_nat p :: u64) = int p"
  proof -
    have "sint (of_nat p :: u64) = signed_take_bit 63 (int p)"
      by (simp add: sint_sbintrunc [symmetric] signed_of_nat)
    then show ?thesis using p by (simp add: signed_take_bit_int_eq_self)
  qed
  define s' where "s' = s\<lparr>position := (position s)(h := p)\<rparr>"
  have "FsSeek fd (of_nat p) 0 s = (int p, s')"
    using h by (simp add: FsSeek_def Let_def i u s'_def)
  moreover have "open_at s' fd n p"
    using h GetHandle_cong [of s' s] by (auto simp: open_at_def s'_def)
  ultimately show thesis by (intro that [of s']) (simp_all add: s'_def)
qed

text \<open>
  C8: what is written is what is read.  Through a handle open for reading and writing at a position
  inside the file or at its end, a write of \<open>buf\<close> overwrites the file's bytes from that position on
  and extends it when it must, touches no other file, and a seek back to the position followed by
  a read of the same length returns \<open>buf\<close>.
\<close>
theorem FsWrite_FsRead_roundtrip:
  assumes "sizes_ok s" and "open_at s fd n pos" and "realloc_ok realloc"
    and "pos \<le> nsize s n" and "nsize s n < 9223372036854775808" and "buf \<noteq> []"
    and "pos + length buf < 9223372036854775808"
    and "pos + length buf > nsize s n \<Longrightarrow> realloc (ndata s n) (pos + length buf) \<noteq> None"
  shows "\<exists>s1 s2 s3. FsWrite realloc fd buf s = Some (int32 (length buf), s1)
    \<and> content s1 n = take pos (content s n) @ buf @ drop (pos + length buf) (content s n)
    \<and> (\<forall>m. m \<noteq> n \<longrightarrow> content s1 m = content s m) \<and> sizes_ok s1
    \<and> FsSeek fd (of_nat pos) 0 s1 = (int pos, s2)
    \<and> FsRead fd (length buf) s2 = Some (int32 (length buf), buf, s3)
    \<and> (\<forall>m. content s3 m = content s1 m)"
proof -
  obtain s1 where w: "FsWrite realloc fd buf s = Some (int32 (length buf), s1)"
      "content s1 n = take pos (content s n) @ buf @ drop (pos + length buf) (content s n)"
      "open_at s1 fd n (pos + length buf)" "sizes_ok s1" "\<And>m. m \<noteq> n \<Longrightarrow> content s1 m = content s m"
    using FsWrite_spec [OF assms(1-4,6) _ assms(8)] assms(7) by auto
  have len: "nsize s n = length (content s n)" using assms(1) by (simp add: sizes_ok_def)
  have n1: "nsize s1 n = max (nsize s n) (pos + length buf)"
    using w(2,4) assms(4) len by (auto simp: sizes_ok_def dest!: spec [of _ n])
  obtain s2 where k: "FsSeek fd (of_nat pos) 0 s1 = (int pos, s2)" "open_at s2 fd n pos"
      "ndata s2 = ndata s1" "nsize s2 = nsize s1"
    using FsSeek_set [OF w(3), of pos] assms(7) by auto
  have s2: "sizes_ok s2" "content s2 = content s1"
    using w(4) k(3,4) by (auto simp: sizes_ok_def content_def fun_eq_iff)
  have pos2: "pos \<le> nsize s2 n" "nsize s2 n < 18446744073709551616"
    using n1 k(4) assms(4,5,7) by simp_all
  obtain s3 where r: "FsRead fd (length buf) s2 =
        Some (int32 (min (length buf) (nsize s2 n - pos)), take (length buf) (drop pos (content s2 n)), s3)"
      "ndata s3 = ndata s2"
    using FsRead_spec [OF s2(1) k(2) pos2, of "length buf"] by blast
  have m: "min (length buf) (nsize s2 n - pos) = length buf"
    using n1 k(4) by simp
  have "take (length buf) (drop pos (content s2 n)) = buf"
    using w(2) s2(2) assms(4) len by simp
  moreover have "content s3 m = content s1 m" for m
    using r(2) k(3) by (simp add: content_def)
  ultimately show ?thesis
    using w k(1) r(1) m by auto
qed

section \<open>A file system at work\<close>

definition fs_boot :: vfrfs where
  "fs_boot = \<lparr>nname = (\<lambda>_. []), ntype = (\<lambda>_. FS_FILE), nsize = (\<lambda>_. 0), ndata = (\<lambda>_. None),
     parent = (\<lambda>_. None), children = (\<lambda>_. None), last_child = (\<lambda>_. None), next_sibling = (\<lambda>_. None),
     prev_sibling = (\<lambda>_. None), node_id = (\<lambda>_. 0), hnode = (\<lambda>_. None), position = (\<lambda>_. 0),
     hflags = (\<lambda>_. 0), hfd = (\<lambda>_. 0), owner_pid = (\<lambda>_. 0), root_node = None,
     next_node_idx_hint = 0, next_handle_idx_hint = 0, next_node_id = 1, next_fd = 1\<rparr>"

text \<open>\<open>FsInit\<close> sets up a tree that holds the root only.\<close>

lemma FsInit_rep:
  assumes "next_node_id s \<noteq> 0"
  shows "fst (FsInit s) = 0" "fs_rep (\<lambda>_. []) (snd (FsInit s))"
proof -
  let ?i = "next_node_idx_hint s mod MAX_FS_NODES"
  have "List.find (\<lambda>i. True) [0..<MAX_FS_NODES] = Some 0"
    by (simp add: MAX_FS_NODES_def upt_conv_Cons)
  then have init: "FsInit s = (0, snd (FsInit s))" "root_node (snd (FsInit s)) = Some ?i"
      "node_id (snd (FsInit s)) = (\<lambda>_. 0)(?i := next_node_id s)"
      "ntype (snd (FsInit s)) = (\<lambda>_. FS_FILE)(?i := FS_DIRECTORY)"
    by (simp_all add: FsInit_def AllocNode_def zero_nodes_def zero_handles_def Let_def)
  have rest: "children (snd (FsInit s)) = (\<lambda>_. None)" "last_child (snd (FsInit s)) = (\<lambda>_. None)"
      "next_sibling (snd (FsInit s)) = (\<lambda>_. None)" "prev_sibling (snd (FsInit s)) = (\<lambda>_. None)"
      "parent (snd (FsInit s)) = (\<lambda>_. None)" "ndata (snd (FsInit s)) = (\<lambda>_. None)" "nsize (snd (FsInit s)) = (\<lambda>_. 0)"
    by (simp_all add: FsInit_def AllocNode_def zero_nodes_def zero_handles_def Let_def split: option.split)
  show "fst (FsInit s) = 0" by (subst init(1)) simp
  show "fs_rep (\<lambda>_. []) (snd (FsInit s))"
    using assms
    by (auto simp: fs_rep_def links_ok_def names_ok_def parents_ok_def free_ok_def sizes_ok_def root_ok_def
        live_def content_def init(2-4) rest MAX_FS_NODES_def)
qed

definition fs_demo :: vfrfs where
  "fs_demo = snd (FsInit fs_boot)"

lemma fs_demo_rep: "fs_rep (\<lambda>_. []) fs_demo"
  unfolding fs_demo_def by (rule FsInit_rep) (simp add: fs_boot_def)

lemma fs_demo_fields: "root_node fs_demo = Some 0" "node_id fs_demo = (\<lambda>_. 0)(0 := 1)"
  "ntype fs_demo = (\<lambda>_. FS_FILE)(0 := FS_DIRECTORY)" "next_node_id fs_demo = 2" "parent fs_demo = (\<lambda>_. None)"
  by (simp_all add: fs_demo_def fs_boot_def FsInit_def AllocNode_def zero_nodes_def zero_handles_def Let_def
      MAX_FS_NODES_def upt_conv_Cons)

theorem FsMkdir_creates_witness:
  "\<exists>n s'. FsMkdir (Some ''/etc'') fs_demo = Some (0, s') \<and> FsFind (Some ''/etc'') s' = Some (Some n)"
proof -
  have "FsFind (Some ''/'') fs_demo = Some (Some 0)"
    by (simp add: FsFind_def fs_demo_fields)
  then have d: "FsFind (Some (if [] = ([] :: string) then ''/'' else [])) fs_demo = Some (Some 0)"
    by simp
  show ?thesis
    using FsMkdir_creates [OF fs_demo_rep, of 1 "[]" "''etc''", OF _ _ _ _ _ _ _ _ _ _ d]
    by (auto simp: MAX_FS_NODES_def live_def fs_demo_fields)
qed

definition fs_demo2 :: vfrfs where
  "fs_demo2 = create_at 1 ''etc'' FS_DIRECTORY 0 2 fs_demo"

lemma fs_demo2_rep: "fs_rep ((\<lambda>_. [])(0 := [1])) fs_demo2"
proof -
  have "fs_rep ((\<lambda>_. [])(0 := [] @ [1])) fs_demo2"
    unfolding fs_demo2_def
    by (rule create_at_rep [OF fs_demo_rep]) (simp_all add: live_def fs_demo_fields MAX_FS_NODES_def)
  then show ?thesis by simp
qed

theorem FsDelete_removes_witness:
  "\<exists>s'. FsDelete \<lparr>sse2 = True, avx2 = False, avx512f = False\<rparr> (Some ''/etc'') fs_demo2 = Some (0, s') \<and>
     FsFind (Some ''/etc'') s' = Some None \<and> live s' 1"
proof -
  have "components ''/etc'' = [''etc'']"
    using components_snoc [of "''etc''" "[]"] by (simp add: components.simps [of "[]"] skip_slashes_def)
  then have f: "FsFind (Some ''/etc'') fs_demo2 = Some (Some 1)"
    unfolding FsFind_resolve [OF fs_demo2_rep]
    by (simp add: root_of_def fs_demo2_def create_at_fields fs_demo_fields)
  have p: "parent fs_demo2 1 = Some 0"
    by (simp add: fs_demo2_def create_at_fields)
  show ?thesis
    using FsDelete_removes [OF fs_demo2_rep f, of "\<lparr>sse2 = True, avx2 = False, avx512f = False\<rparr>"] p
    by (auto simp: memset_width_def)
qed

definition simple_realloc :: "u8 list option \<Rightarrow> nat \<Rightarrow> u8 list option" where
  "simple_realloc d n =
    (let b = (case d of None \<Rightarrow> [] | Some b \<Rightarrow> b) in Some (take n b @ replicate (n - length b) 0))"

lemma simple_realloc_ok: "realloc_ok simple_realloc"
  by (auto simp: realloc_ok_def simple_realloc_def Let_def min_def split: option.split)

definition fs_demo3 :: vfrfs where
  "fs_demo3 = fs_boot\<lparr>hfd := (\<lambda>_. 0)(0 := 7), hnode := (\<lambda>_. None)(0 := Some 5), hflags := (\<lambda>_. 3),
     ndata := (\<lambda>_. None)(5 := Some [1, 2, 3]), nsize := (\<lambda>_. 0)(5 := 3), position := (\<lambda>_. 2)\<rparr>"

theorem FsWrite_FsRead_roundtrip_witness:
  "\<exists>s1 s2 s3. FsWrite simple_realloc 7 [9, 8] fs_demo3 = Some (2, s1) \<and> content s1 5 = [1, 2, 9, 8]
     \<and> FsSeek 7 2 0 s1 = (2, s2) \<and> FsRead 7 2 s2 = Some (2, [9, 8], s3)"
proof -
  have op: "open_at fs_demo3 7 5 2"
    by (simp add: open_at_def GetHandle_def fs_demo3_def upt_conv_Cons)
  have sz: "sizes_ok fs_demo3"
    by (simp add: sizes_ok_def content_def fs_demo3_def fs_boot_def)
  have n: "nsize fs_demo3 5 = 3" "ndata fs_demo3 5 = Some [1, 2, 3]"
    by (simp_all add: fs_demo3_def)
  show ?thesis
    using FsWrite_FsRead_roundtrip [OF sz op simple_realloc_ok, of "[9, 8]"] n
    by (auto simp: simple_realloc_def Let_def content_def int32_def numeral_2_eq_2)
qed

end
