(* ===== verification/Crypto.thy ===== *)
theory Crypto
  imports MemOps
begin

unbundle bit_operations_syntax

text \<open>
  The checksums and generators of \<open>src/crypto\<close> (\<open>SHA256.c\<close>, \<open>CRC32.c\<close>, \<open>RNG.c\<close>).  Words have the width of the C types, so that the
  arithmetic wraps as in the code.  A write outside \<open>ctx->data\<close> is a fault (\<open>None\<close>).  \<open>SHA256Final\<close>
  clears memory with the \<open>FastMemset\<close> of \<open>MemOps\<close>, and so takes the CPU features.
\<close>

section \<open>SHA256.c\<close>

record SHA256_CTX =
  data :: "u8 list"
  datalen :: u32
  bitlen :: u64
  state :: "u32 list"

definition ROTR :: "u32 \<Rightarrow> nat \<Rightarrow> u32" where
  "ROTR x n = drop_bit n x OR push_bit (32 - n) x"

definition CH :: "u32 \<Rightarrow> u32 \<Rightarrow> u32 \<Rightarrow> u32" where
  "CH x y z = (x AND y) XOR (NOT x AND z)"

definition MAJ :: "u32 \<Rightarrow> u32 \<Rightarrow> u32 \<Rightarrow> u32" where
  "MAJ x y z = (x AND y) XOR (x AND z) XOR (y AND z)"

definition EP0 :: "u32 \<Rightarrow> u32" where
  "EP0 x = ROTR x 2 XOR ROTR x 13 XOR ROTR x 22"

definition EP1 :: "u32 \<Rightarrow> u32" where
  "EP1 x = ROTR x 6 XOR ROTR x 11 XOR ROTR x 25"

definition SIG0 :: "u32 \<Rightarrow> u32" where
  "SIG0 x = ROTR x 7 XOR ROTR x 18 XOR drop_bit 3 x"

definition SIG1 :: "u32 \<Rightarrow> u32" where
  "SIG1 x = ROTR x 17 XOR ROTR x 19 XOR drop_bit 10 x"

definition sha_k :: "u32 list" where
  "sha_k = concat [
    [0x428a2f98, 0x71374491, 0xb5c0fbcf, 0xe9b5dba5, 0x3956c25b, 0x59f111f1, 0x923f82a4, 0xab1c5ed5],
    [0xd807aa98, 0x12835b01, 0x243185be, 0x550c7dc3, 0x72be5d74, 0x80deb1fe, 0x9bdc06a7, 0xc19bf174],
    [0xe49b69c1, 0xefbe4786, 0x0fc19dc6, 0x240ca1cc, 0x2de92c6f, 0x4a7484aa, 0x5cb0a9dc, 0x76f988da],
    [0x983e5152, 0xa831c66d, 0xb00327c8, 0xbf597fc7, 0xc6e00bf3, 0xd5a79147, 0x06ca6351, 0x14292967],
    [0x27b70a85, 0x2e1b2138, 0x4d2c6dfc, 0x53380d13, 0x650a7354, 0x766a0abb, 0x81c2c92e, 0x92722c85],
    [0xa2bfe8a1, 0xa81a664b, 0xc24b8b70, 0xc76c51a3, 0xd192e819, 0xd6990624, 0xf40e3585, 0x106aa070],
    [0x19a4c116, 0x1e376c08, 0x2748774c, 0x34b0bcb5, 0x391c0cb3, 0x4ed8aa4a, 0x5b9cca4f, 0x682e6ff3],
    [0x748f82ee, 0x78a5636f, 0x84c87814, 0x8cc70208, 0x90befffa, 0xa4506ceb, 0xbef9a3f7, 0xc67178f2]]"

definition load_word :: "u8 list \<Rightarrow> nat \<Rightarrow> u32" where
  "load_word d j =
     push_bit 24 (ucast (d ! j)) OR push_bit 16 (ucast (d ! (j + 1))) OR push_bit 8 (ucast (d ! (j + 2))) OR ucast (d ! (j + 3))"

definition schedule :: "u8 list \<Rightarrow> u32 list" where
  "schedule d =
     fold (\<lambda>i m. m @ [SIG1 (m ! (i - 2)) + m ! (i - 7) + SIG0 (m ! (i - 15)) + m ! (i - 16)]) [16..<64]
       (map (\<lambda>i. load_word d (4 * i)) [0..<16])"

type_synonym regs8 = "u32 \<times> u32 \<times> u32 \<times> u32 \<times> u32 \<times> u32 \<times> u32 \<times> u32"

definition sha_round :: "u32 list \<Rightarrow> nat \<Rightarrow> regs8 \<Rightarrow> regs8" where
  "sha_round m i r =
     (case r of (a, b, c, d, e, f, g, h) \<Rightarrow>
        let t1 = h + EP1 e + CH e f g + sha_k ! i + m ! i;
            t2 = EP0 a + MAJ a b c
        in (t1 + t2, a, b, c, d + t1, e, f, g))"

definition SHA256Transform :: "SHA256_CTX \<Rightarrow> u8 list \<Rightarrow> SHA256_CTX" where
  "SHA256Transform ctx d =
     (let m = schedule d; st = state ctx;
          r = fold (sha_round m) [0..<64] (st ! 0, st ! 1, st ! 2, st ! 3, st ! 4, st ! 5, st ! 6, st ! 7)
      in case r of (a, b, c, d, e, f, g, h) \<Rightarrow>
        ctx\<lparr>state := [st ! 0 + a, st ! 1 + b, st ! 2 + c, st ! 3 + d, st ! 4 + e, st ! 5 + f, st ! 6 + g, st ! 7 + h]\<rparr>)"

definition SHA256Init :: "SHA256_CTX \<Rightarrow> SHA256_CTX" where
  "SHA256Init ctx = ctx\<lparr>datalen := 0, bitlen := 0,
     state := [0x6a09e667, 0xbb67ae85, 0x3c6ef372, 0xa54ff53a, 0x510e527f, 0x9b05688c, 0x1f83d9ab, 0x5be0cd19]\<rparr>"

definition put :: "nat \<Rightarrow> u8 \<Rightarrow> SHA256_CTX \<Rightarrow> SHA256_CTX option" where
  "put i b ctx = (if i < length (data ctx) then Some (ctx\<lparr>data := (data ctx)[i := b]\<rparr>) else None)"

definition update_byte :: "u8 \<Rightarrow> SHA256_CTX \<Rightarrow> SHA256_CTX option" where
  "update_byte b ctx = do {
     ctx \<leftarrow> put (unat (datalen ctx)) b ctx;
     let ctx = ctx\<lparr>datalen := datalen ctx + 1\<rparr>;
     Some (if datalen ctx = 64
       then (SHA256Transform ctx (data ctx))\<lparr>bitlen := bitlen ctx + 512, datalen := 0\<rparr>
       else ctx) }"

fun SHA256Update :: "u8 list \<Rightarrow> SHA256_CTX \<Rightarrow> SHA256_CTX option" where
  "SHA256Update [] ctx = Some ctx"
| "SHA256Update (b # bs) ctx = do { ctx \<leftarrow> update_byte b ctx; SHA256Update bs ctx }"

text \<open>\<open>FastMemset(ctx->data + i, 0, n)\<close>, with the array at address \<open>1\<close> of an otherwise empty memory.\<close>

definition clear_data :: "CpuFeatures \<Rightarrow> nat \<Rightarrow> nat \<Rightarrow> SHA256_CTX \<Rightarrow> SHA256_CTX option" where
  "clear_data features i n ctx =
     (if i + n \<le> length (data ctx)
      then let cpu = \<lparr>mem = (\<lambda>a. if 1 \<le> a \<and> a \<le> length (data ctx) then data ctx ! (a - 1) else 0),
                      rax = 0, rbx = 0, rcx = 0, rdx = 0, rsi = 0, rdi = 0, stk = []\<rparr>
           in map_option (\<lambda>(_, c). ctx\<lparr>data := map (\<lambda>j. mem c (1 + j)) [0..<length (data ctx)]\<rparr>)
                (FastMemset features 0 (Some (1 + i)) 0 n cpu)
      else None)"

definition put_length :: "SHA256_CTX \<Rightarrow> SHA256_CTX option" where
  "put_length ctx = do {
     ctx \<leftarrow> put 63 (ucast (bitlen ctx)) ctx;
     ctx \<leftarrow> put 62 (ucast (drop_bit 8 (bitlen ctx))) ctx;
     ctx \<leftarrow> put 61 (ucast (drop_bit 16 (bitlen ctx))) ctx;
     ctx \<leftarrow> put 60 (ucast (drop_bit 24 (bitlen ctx))) ctx;
     ctx \<leftarrow> put 59 (ucast (drop_bit 32 (bitlen ctx))) ctx;
     ctx \<leftarrow> put 58 (ucast (drop_bit 40 (bitlen ctx))) ctx;
     ctx \<leftarrow> put 57 (ucast (drop_bit 48 (bitlen ctx))) ctx;
     put 56 (ucast (drop_bit 56 (bitlen ctx))) ctx }"

definition hash_bytes :: "u32 list \<Rightarrow> u8 list" where
  "hash_bytes st = concat (map (\<lambda>w. map (\<lambda>i. ucast (drop_bit (24 - i * 8) (st ! w) AND 0xff)) [0..<4]) [0..<8])"

definition SHA256Final :: "CpuFeatures \<Rightarrow> SHA256_CTX \<Rightarrow> (u8 list \<times> SHA256_CTX) option" where
  "SHA256Final features ctx =
     (let n = unat (datalen ctx); i = n + 1 in do {
        ctx \<leftarrow> put n 0x80 ctx;
        ctx \<leftarrow> (if n < 56 then clear_data features i (56 - i) ctx
                else do {
                  ctx \<leftarrow> clear_data features i (64 - i) ctx;
                  clear_data features 0 56 (SHA256Transform ctx (data ctx)) });
        let ctx = ctx\<lparr>bitlen := bitlen ctx + ucast (datalen ctx * 8)\<rparr>;
        ctx \<leftarrow> put_length ctx;
        let ctx = SHA256Transform ctx (data ctx);
        Some (hash_bytes (state ctx), ctx) })"

section \<open>CRC32.c\<close>

record crc_state =
  crc32_table :: "u32 list"
  table_generated :: bool

definition crc_bit :: "u32 \<Rightarrow> u32" where
  "crc_bit c = (if c AND 1 \<noteq> 0 then 0xEDB88320 XOR drop_bit 1 c else drop_bit 1 c)"

definition CRC32Init :: "crc_state \<Rightarrow> crc_state" where
  "CRC32Init s = s\<lparr>crc32_table := map (\<lambda>i. (crc_bit ^^ 8) (word_of_nat i)) [0..<256]\<rparr>"

definition crc_step :: "u32 list \<Rightarrow> u8 \<Rightarrow> u32 \<Rightarrow> u32" where
  "crc_step table b crc = table ! unat ((crc XOR ucast b) AND 0xFF) XOR drop_bit 8 crc"

definition CRC32 :: "u8 list \<Rightarrow> crc_state \<Rightarrow> u32 \<times> crc_state" where
  "CRC32 bs s =
     (let s = (if \<not> table_generated s then (CRC32Init s)\<lparr>table_generated := True\<rparr> else s)
      in (fold (crc_step (crc32_table s)) bs 0xFFFFFFFF XOR 0xFFFFFFFF, s))"

section \<open>RNG.c\<close>

type_synonym rng = "u64 \<times> u64"

definition rotl :: "u64 \<Rightarrow> nat \<Rightarrow> u64" where
  "rotl x k = push_bit k x OR drop_bit (64 - k) x"

definition xoroshiro128plus :: "rng \<Rightarrow> u64 \<times> rng" where
  "xoroshiro128plus s =
     (let s0 = fst s; s1 = snd s; result = s0 + s1; s1 = s1 XOR s0
      in (result, rotl s0 55 XOR s1 XOR push_bit 14 s1, rotl s1 36))"

definition splitmix64 :: "u64 \<Rightarrow> u64 \<times> u64" where
  "splitmix64 x =
     (let x = x + 0x9e3779b97f4a7c15; z = x;
          z = (z XOR drop_bit 30 z) * 0xbf58476d1ce4e5b9;
          z = (z XOR drop_bit 27 z) * 0x94d049bb133111eb
      in (z XOR drop_bit 31 z, x))"

definition rng_seed :: "u64 \<Rightarrow> u64 \<Rightarrow> rng \<Rightarrow> rng" where
  "rng_seed seed_lo seed_hi s =
     (let seed = seed_lo XOR (seed_hi + 0x9e3779b97f4a7c15);
          (r0, seed) = splitmix64 seed;
          (r1, seed) = splitmix64 seed;
          s = (fst s XOR r0, snd s XOR r1)
      in if fst s OR snd s = 0 then (0x8a5cd789635d2dff, snd s) else s)"

section \<open>The hash function of FIPS 180-4\<close>

text \<open>
  The standard's definition, independent of the code's control flow: the message schedule as a
  recursive function, rotations as rotations of words, the padded message cut into blocks.
\<close>

fun sha_W :: "u8 list \<Rightarrow> nat \<Rightarrow> u32" where
  "sha_W blk t =
     (if t < 16 then load_word blk (4 * t)
      else (word_rotr 17 (sha_W blk (t - 2)) XOR word_rotr 19 (sha_W blk (t - 2)) XOR drop_bit 10 (sha_W blk (t - 2)))
        + sha_W blk (t - 7)
        + (word_rotr 7 (sha_W blk (t - 15)) XOR word_rotr 18 (sha_W blk (t - 15)) XOR drop_bit 3 (sha_W blk (t - 15)))
        + sha_W blk (t - 16))"

declare sha_W.simps [simp del]

fun sha_rounds :: "(nat \<Rightarrow> u32) \<Rightarrow> nat \<Rightarrow> regs8 \<Rightarrow> regs8" where
  "sha_rounds W 0 r = r"
| "sha_rounds W (Suc t) r =
     (case sha_rounds W t r of (a, b, c, d, e, f, g, h) \<Rightarrow>
        let T1 = h + (word_rotr 6 e XOR word_rotr 11 e XOR word_rotr 25 e) + CH e f g + sha_k ! t + W t;
            T2 = (word_rotr 2 a XOR word_rotr 13 a XOR word_rotr 22 a) + MAJ a b c
        in (T1 + T2, a, b, c, d + T1, e, f, g))"

definition sha_compress :: "u32 list \<Rightarrow> u8 list \<Rightarrow> u32 list" where
  "sha_compress H blk =
     (case sha_rounds (sha_W blk) 64 (H ! 0, H ! 1, H ! 2, H ! 3, H ! 4, H ! 5, H ! 6, H ! 7) of
        (a, b, c, d, e, f, g, h) \<Rightarrow> map2 (+) H [a, b, c, d, e, f, g, h])"

function sha_blocks :: "u32 list \<Rightarrow> u8 list \<Rightarrow> u32 list" where
  "sha_blocks H xs = (if length xs < 64 then H else sha_blocks (sha_compress H (take 64 xs)) (drop 64 xs))"
  by auto
termination by (relation "measure (\<lambda>(H, xs). length xs)") auto

declare sha_blocks.simps [simp del]

definition be64 :: "u64 \<Rightarrow> u8 list" where
  "be64 n = map (\<lambda>i. ucast (drop_bit (56 - 8 * i) n)) [0..<8]"

definition sha_pad :: "u8 list \<Rightarrow> u8 list" where
  "sha_pad msg = msg @ [0x80] @ replicate ((119 - length msg mod 64) mod 64) 0 @ be64 (word_of_nat (8 * length msg))"

definition sha_H0 :: "u32 list" where
  "sha_H0 = [0x6a09e667, 0xbb67ae85, 0x3c6ef372, 0xa54ff53a, 0x510e527f, 0x9b05688c, 0x1f83d9ab, 0x5be0cd19]"

definition sha256 :: "u8 list \<Rightarrow> u8 list" where
  "sha256 msg = hash_bytes (sha_blocks sha_H0 (sha_pad msg))"

section \<open>The transform computes the compression function\<close>

lemma ROTR_rotr: "0 < n \<Longrightarrow> n < 32 \<Longrightarrow> ROTR x n = word_rotr n x"
proof (rule bit_word_eqI)
  fix i
  assume n: "0 < n" "n < 32" and "i < LENGTH(32)"
  then have i: "i < 32" by simp
  have "(i + n) mod 32 = (if i + n < 32 then i + n else i + n - 32)"
    using n i by (simp add: mod_if)
  moreover have "bit x (n + i) = False" if "\<not> i + n < 32"
    using that bit_imp_le_length [of x "n + i"] by auto
  moreover have "i + n - 32 = i - (32 - n)" if "\<not> i + n < 32" using that n by simp
  ultimately show "bit (ROTR x n) i = bit (word_rotr n x) i"
    using i n by (auto simp: ROTR_def bit_or_iff bit_drop_bit_eq bit_push_bit_iff bit_word_rotr_iff add.commute)
qed

lemma sha_schedule_prefix:
  assumes "16 \<le> n"
  shows "fold (\<lambda>i m. m @ [SIG1 (m ! (i - 2)) + m ! (i - 7) + SIG0 (m ! (i - 15)) + m ! (i - 16)]) [16..<n]
    (map (\<lambda>i. load_word d (4 * i)) [0..<16]) = map (sha_W d) [0..<n]"
  using assms
proof (induction n rule: nat_induct_at_least)
  case base
  then show ?case by (auto simp: sha_W.simps)
next
  case (Suc n)
  then have "sha_W d n = SIG1 (sha_W d (n - 2)) + sha_W d (n - 7) + SIG0 (sha_W d (n - 15)) + sha_W d (n - 16)"
    by (subst sha_W.simps) (simp add: SIG0_def SIG1_def ROTR_rotr)
  with Suc show ?case by (simp del: upt_Suc add: upt_Suc_append)
qed

lemma schedule_W: "schedule d = map (sha_W d) [0..<64]"
  unfolding schedule_def by (rule sha_schedule_prefix) simp

lemma rounds_eq:
  assumes "n \<le> 64"
  shows "fold (sha_round (schedule d)) [0..<n] r = sha_rounds (sha_W d) n r"
  using assms
proof (induction n)
  case (Suc n)
  then show ?case
    by (simp add: sha_round_def schedule_W EP0_def EP1_def ROTR_rotr split: prod.split)
qed simp

lemma SHA256Transform_compress:
  assumes "length (state ctx) = 8"
  shows "SHA256Transform ctx d = ctx\<lparr>state := sha_compress (state ctx) d\<rparr>"
proof -
  obtain a b c d' e f g h where "state ctx = [a, b, c, d', e, f, g, h]"
    using assms by (auto simp: length_Suc_conv eval_nat_numeral)
  then show ?thesis
    by (simp add: SHA256Transform_def rounds_eq sha_compress_def Let_def split: prod.split)
qed

lemma length_sha_compress [simp]: "length H = 8 \<Longrightarrow> length (sha_compress H d) = 8"
  by (simp add: sha_compress_def split: prod.split)

section \<open>Streaming\<close>

lemma sha_blocks_short: "length xs < 64 \<Longrightarrow> sha_blocks H xs = H"
  by (simp add: sha_blocks.simps)

lemma sha_blocks_one: "length xs = 64 \<Longrightarrow> sha_blocks H xs = sha_compress H xs"
  by (simp add: sha_blocks.simps [of H] sha_blocks_short)

lemma sha_blocks_append:
  "64 dvd length xs \<Longrightarrow> sha_blocks H (xs @ ys) = sha_blocks (sha_blocks H xs) ys"
proof (induction H xs rule: sha_blocks.induct)
  case (1 H xs)
  show ?case
  proof (cases "length xs < 64")
    case True
    then have "xs = []" using "1.prems" by (metis dvd_imp_le length_greater_0_conv not_less)
    then show ?thesis by (simp add: sha_blocks_short)
  next
    case False
    then have "64 dvd length (drop 64 xs)" using "1.prems" by simp
    with "1.IH" [OF False] False show ?thesis
      by (simp add: sha_blocks.simps [of H])
  qed
qed

lemma length_sha_blocks: "length H = 8 \<Longrightarrow> length (sha_blocks H xs) = 8"
  by (induction H xs rule: sha_blocks.induct) (subst sha_blocks.simps, auto)

text \<open>The incomplete last block of a message, and the state that holds a message.\<close>

definition sha_rest :: "u8 list \<Rightarrow> u8 list" where
  "sha_rest msg = drop (length msg div 64 * 64) msg"

lemma length_sha_rest: "length (sha_rest msg) = length msg mod 64"
  by (simp add: sha_rest_def minus_div_mult_eq_mod)

lemma sha_split:
  obtains p where "msg = p @ sha_rest msg" "64 dvd length p" "length p = length msg div 64 * 64"
proof (rule that [of "take (length msg div 64 * 64) msg"])
  have "length msg div 64 * 64 \<le> length msg" by simp
  then show "length (take (length msg div 64 * 64) msg) = length msg div 64 * 64"
    by (simp only: length_take min_absorb2)
  then show "64 dvd length (take (length msg div 64 * 64) msg)" by simp
qed (simp add: sha_rest_def)

definition sha_rep :: "u8 list \<Rightarrow> SHA256_CTX \<Rightarrow> bool" where
  "sha_rep msg ctx \<longleftrightarrow>
     length (data ctx) = 64 \<and> datalen ctx = word_of_nat (length msg mod 64)
     \<and> take (length msg mod 64) (data ctx) = sha_rest msg
     \<and> bitlen ctx = word_of_nat (length msg div 64 * 512) \<and> state ctx = sha_blocks sha_H0 msg"

lemma sha_repD:
  assumes "sha_rep msg ctx"
  shows "length (data ctx) = 64" "unat (datalen ctx) = length msg mod 64" "length (state ctx) = 8"
proof -
  have "length msg mod 64 < 64" by simp
  then show "length (data ctx) = 64" "unat (datalen ctx) = length msg mod 64"
    using assms by (simp_all add: sha_rep_def unsigned_of_nat take_bit_eq_mod)
  show "length (state ctx) = 8"
    using assms length_sha_blocks [of sha_H0 msg] by (simp add: sha_rep_def sha_H0_def)
qed

lemma SHA256Init_rep: "length (data ctx) = 64 \<Longrightarrow> sha_rep [] (SHA256Init ctx)"
  by (simp add: sha_rep_def SHA256Init_def sha_rest_def sha_blocks_short sha_H0_def)

lemma sha_rest_snoc:
  shows "length msg mod 64 \<noteq> 63 \<Longrightarrow> sha_rest (msg @ [b]) = sha_rest msg @ [b]"
    and "length msg mod 64 = 63 \<Longrightarrow> sha_rest (msg @ [b]) = []"
proof -
  have d: "length msg div 64 * 64 \<le> length msg" by simp
  show "sha_rest (msg @ [b]) = sha_rest msg @ [b]" if "length msg mod 64 \<noteq> 63"
    using that d by (simp add: sha_rest_def div_Suc mod_Suc)
  show "sha_rest (msg @ [b]) = []" if "length msg mod 64 = 63"
    using that length_sha_rest [of "msg @ [b]"] by (simp add: mod_Suc)
qed

lemma sha_blocks_snoc:
  shows "length msg mod 64 \<noteq> 63 \<Longrightarrow> sha_blocks H (msg @ [b]) = sha_blocks H msg"
    and "length msg mod 64 = 63 \<Longrightarrow> sha_blocks H (msg @ [b]) = sha_compress (sha_blocks H msg) (sha_rest msg @ [b])"
proof -
  obtain p where p: "msg = p @ sha_rest msg" "64 dvd length p" by (rule sha_split)
  have l: "length (sha_rest msg) = length msg mod 64" by (rule length_sha_rest)
  have "sha_blocks H msg = sha_blocks (sha_blocks H p) (sha_rest msg)"
    using sha_blocks_append [OF p(2), of H "sha_rest msg"] p(1) by simp
  then have m: "sha_blocks H msg = sha_blocks H p" using l by (simp add: sha_blocks_short)
  have s: "sha_blocks H (msg @ [b]) = sha_blocks (sha_blocks H p) (sha_rest msg @ [b])"
    using sha_blocks_append [OF p(2), of H "sha_rest msg @ [b]"] p(1) by (metis append.assoc)
  have "length msg mod 64 < 64" by simp
  then show "sha_blocks H (msg @ [b]) = sha_blocks H msg" if "length msg mod 64 \<noteq> 63"
    using that s m l by (simp add: sha_blocks_short)
  show "sha_blocks H (msg @ [b]) = sha_compress (sha_blocks H msg) (sha_rest msg @ [b])" if "length msg mod 64 = 63"
    using that s m l by (simp add: sha_blocks_one)
qed

lemma update_byte_rep:
  assumes rep: "sha_rep msg ctx"
  shows "\<exists>ctx'. update_byte b ctx = Some ctx' \<and> sha_rep (msg @ [b]) ctx'"
proof -
  let ?n = "length msg mod 64" and ?d = "(data ctx)[length msg mod 64 := b]"
  note D = sha_repD [OF rep]
  have n: "?n < 64" by simp
  have t: "take (Suc ?n) ?d = sha_rest msg @ [b]"
    using rep n D(1) by (simp add: sha_rep_def take_Suc_conv_app_nth)
  show ?thesis
  proof (cases "?n = 63")
    case True
    have "Suc (length msg) mod 64 = 0" "Suc (length msg) div 64 = Suc (length msg div 64)"
      using True by (simp_all add: mod_Suc div_Suc)
    moreover have "?d = sha_rest msg @ [b]" using t True D(1) by simp
    moreover have "datalen ctx = 63" using rep True by (simp add: sha_rep_def)
    ultimately show ?thesis
      using rep True D sha_blocks_snoc(2) [OF True] sha_rest_snoc(2) [OF True]
      by (simp add: update_byte_def put_def SHA256Transform_compress sha_rep_def add.commute length_sha_rest)
  next
    case False
    then have "Suc (length msg) mod 64 = Suc ?n" "Suc (length msg) div 64 = length msg div 64"
      using n by (simp_all add: mod_Suc div_Suc)
    moreover have "datalen ctx + 1 = word_of_nat (Suc ?n)" using rep by (simp add: sha_rep_def)
    moreover have "unat (word_of_nat (Suc ?n) :: u32) = Suc ?n"
      using n by (simp only: unsigned_of_nat take_bit_eq_mod) simp
    then have "(word_of_nat (Suc ?n) :: u32) \<noteq> 64" using n False by auto
    ultimately show ?thesis
      using rep False D t sha_blocks_snoc(1) [OF False] sha_rest_snoc(1) [OF False]
      by (simp add: update_byte_def put_def sha_rep_def)
  qed
qed

lemma SHA256Update_rep:
  "sha_rep msg ctx \<Longrightarrow> \<exists>ctx'. SHA256Update bs ctx = Some ctx' \<and> sha_rep (msg @ bs) ctx'"
proof (induction bs arbitrary: msg ctx)
  case (Cons b bs)
  obtain c1 where "update_byte b ctx = Some c1" "sha_rep (msg @ [b]) c1"
    using update_byte_rep [OF Cons.prems] by blast
  then show ?case using Cons.IH [of "msg @ [b]" c1] by simp
qed simp

text \<open>
  The buffer with all its 64 bytes: byte \<open>i\<close> of the message goes to position \<open>i mod 64\<close>, and a position not
  yet reached keeps what it had.
\<close>

definition sha_buffer :: "u8 list \<Rightarrow> u8 list \<Rightarrow> u8 list" where
  "sha_buffer buf msg = fold (\<lambda>(i, b) d. d[i mod 64 := b]) (enumerate 0 msg) buf"

lemma sha_buffer_Nil [simp]: "sha_buffer buf [] = buf"
  by (simp add: sha_buffer_def)

lemma sha_buffer_snoc: "sha_buffer buf (msg @ [b]) = (sha_buffer buf msg)[length msg mod 64 := b]"
  by (simp add: sha_buffer_def enumerate_append_eq)

lemma update_byte_data:
  assumes "update_byte b ctx = Some ctx'"
  shows "data ctx' = (data ctx)[unat (datalen ctx) := b]"
proof -
  have "data (SHA256Transform c d) = data c" for c d
    by (simp add: SHA256Transform_def Let_def split: prod.split)
  with assms show ?thesis by (auto simp: update_byte_def put_def Let_def split: if_splits)
qed

lemma SHA256Update_data:
  "sha_rep msg ctx \<Longrightarrow> data ctx = sha_buffer buf msg \<Longrightarrow> SHA256Update bs ctx = Some ctx' \<Longrightarrow> data ctx' = sha_buffer buf (msg @ bs)"
proof (induction bs arbitrary: msg ctx)
  case (Cons b bs)
  obtain c1 where c1: "update_byte b ctx = Some c1" "sha_rep (msg @ [b]) c1"
    using update_byte_rep [OF Cons.prems(1)] by blast
  have "data c1 = sha_buffer buf (msg @ [b])"
    using update_byte_data [OF c1(1)] Cons.prems(2) sha_repD(2) [OF Cons.prems(1)] by (simp add: sha_buffer_snoc)
  then show ?case using Cons.IH [OF c1(2)] Cons.prems(3) c1(1) by simp
qed simp

text \<open>Clearing a part of the buffer, with what the vector routines leave.\<close>

lemma clear_data_spec:
  assumes "i + n \<le> length (data ctx)" and k_def: "k = n - n mod memset_width features"
  shows "clear_data features i n ctx = Some (ctx\<lparr>data := take i (data ctx) @ replicate k 0 @ drop (i + k) (data ctx)\<rparr>)"
proof -
  let ?m = "\<lambda>a. if 1 \<le> a \<and> a \<le> length (data ctx) then data ctx ! (a - 1) else 0"
  let ?c = "\<lparr>mem = ?m, rax = 0, rbx = 0, rcx = 0, rdx = 0, rsi = 0, rdi = 0, stk = []\<rparr>"
  obtain r c' where c': "FastMemset features 0 (Some (1 + i)) 0 n ?c = Some (r, c')" "mem c' = filled (1 + i) k 0 ?m"
    using FastMemset_spec [of features 0 "1 + i" 0 n ?c] by (auto simp: k_def)
  have "k \<le> n" by (simp add: k_def)
  then have "map (\<lambda>j. mem c' (1 + j)) [0..<length (data ctx)] = take i (data ctx) @ replicate k 0 @ drop (i + k) (data ctx)"
    using assms(1) by (intro nth_equalityI) (auto simp: c'(2) filled_def nth_append)
  then show ?thesis using assms(1) c'(1) by (simp add: clear_data_def Let_def)
qed

lemma put_length_spec:
  assumes "length (data ctx) = 64"
  shows "put_length ctx = Some (ctx\<lparr>data := take 56 (data ctx) @ be64 (bitlen ctx)\<rparr>)"
proof -
  let ?d = "(data ctx)[63 := ucast (bitlen ctx), 62 := ucast (drop_bit 8 (bitlen ctx)), 61 := ucast (drop_bit 16 (bitlen ctx)),
     60 := ucast (drop_bit 24 (bitlen ctx)), 59 := ucast (drop_bit 32 (bitlen ctx)), 58 := ucast (drop_bit 40 (bitlen ctx)),
     57 := ucast (drop_bit 48 (bitlen ctx)), 56 := ucast (drop_bit 56 (bitlen ctx))]"
  have "?d = take 56 (data ctx) @ be64 (bitlen ctx)"
  proof (rule nth_equalityI)
    fix i assume "i < length ?d"
    then have "i < 64" using assms by simp
    then consider "i < 56" | "i = 56" | "i = 57" | "i = 58" | "i = 59" | "i = 60" | "i = 61" | "i = 62" | "i = 63" by linarith
    then show "?d ! i = (take 56 (data ctx) @ be64 (bitlen ctx)) ! i"
      using assms by cases (simp_all add: nth_append be64_def)
  qed (simp add: assms be64_def)
  then show ?thesis using assms by (simp add: put_length_def put_def)
qed

lemma SHA256Final_length:
  assumes "sha_rep msg ctx"
  shows "bitlen ctx + ucast (datalen ctx * 8) = word_of_nat (8 * length msg)"
proof -
  let ?n = "length msg mod 64"
  have "datalen ctx * 8 = word_of_nat (?n * 8)" using assms by (simp add: sha_rep_def)
  moreover have "?n * 8 < 2 ^ 32" by (rule le_less_trans [of _ "64 * 8"]) simp_all
  then have "ucast (word_of_nat (?n * 8) :: u32) = (word_of_nat (?n * 8) :: u64)"
    by (simp only: word_unat_eq_iff unsigned_ucast_eq unsigned_of_nat take_bit_eq_mod) simp
  ultimately have "bitlen ctx + ucast (datalen ctx * 8) = word_of_nat (length msg div 64 * 512 + ?n * 8)"
    using assms by (simp only: sha_rep_def of_nat_add)
  also have "length msg div 64 * 512 + ?n * 8 = 8 * length msg"
    using div_mult_mod_eq [of "length msg" 64] by linarith
  finally show ?thesis .
qed

lemma sha_mark:
  assumes "sha_rep msg ctx"
  shows "put (unat (datalen ctx)) 0x80 ctx = Some (ctx\<lparr>data := (data ctx)[length msg mod 64 := 0x80]\<rparr>)"
    "take (length msg mod 64 + 1) ((data ctx)[length msg mod 64 := 0x80]) = sha_rest msg @ [0x80]"
  using assms sha_repD [OF assms] by (simp_all add: put_def sha_rep_def take_Suc_conv_app_nth)

section \<open>The padding the code writes\<close>

text \<open>
  A message that leaves \<open>n\<close> bytes in the buffer is padded at the positions \<open>pad_run n\<close>.  With vectors of
  \<open>w\<close> bytes \<open>FastMemset\<close> leaves some of them as they were; \<open>unwritten w n i\<close> says that it leaves position \<open>i\<close>.
  \<open>padded w d msg\<close> is the message with the padding this gives when the buffer holds \<open>d\<close>.
\<close>

definition pad_run :: "nat \<Rightarrow> nat list" where
  "pad_run n = (if n < 56 then [n + 1..<56] else [n + 1..<64] @ [0..<56])"

definition unwritten :: "nat \<Rightarrow> nat \<Rightarrow> nat \<Rightarrow> bool" where
  "unwritten w n i \<longleftrightarrow>
     (if n < 56 then 56 - (55 - n) mod w \<le> i \<and> i < 56
      else 64 - (63 - n) mod w \<le> i \<and> i < 64 \<or> 56 - 56 mod w \<le> i \<and> i < 56)"

definition padded :: "nat \<Rightarrow> u8 list \<Rightarrow> u8 list \<Rightarrow> u8 list" where
  "padded w d msg =
     (let n = length msg mod 64
      in msg @ [0x80] @ map (\<lambda>i. if unwritten w n i then d ! i else 0) (pad_run n) @ be64 (word_of_nat (8 * length msg)))"

lemma pad_run_length: "length (pad_run (n mod 64)) = (119 - n mod 64) mod 64"
proof (cases "n mod 64 < 56")
  case True
  then have "119 - n mod 64 = (55 - n mod 64) + 64" by linarith
  then have "(119 - n mod 64) mod 64 = 55 - n mod 64" by (simp only: mod_add_self2) simp
  then show ?thesis using True by (simp add: pad_run_def)
next
  case False
  moreover have "n mod 64 < 64" by simp
  ultimately show ?thesis by (simp add: pad_run_def)
qed

lemma mod_rest: "x mod w = x - (x - x mod w)" for x w :: nat
  by (metis diff_diff_cancel mod_less_eq_dividend)

lemma unwritten_in_run:
  assumes "unwritten w n i" "n < 64" "0 < w"
  shows "i \<in> set (pad_run n)"
proof (cases "n < 56")
  case True
  then have "56 - (55 - n) mod w \<le> i" "i < 56" using assms(1) by (simp_all add: unwritten_def)
  then have "n + 1 \<le> i" using mod_less_eq_dividend [of "55 - n" w] True by linarith
  then show ?thesis using True \<open>i < 56\<close> by (simp add: pad_run_def)
next
  case False
  then consider "64 - (63 - n) mod w \<le> i" "i < 64" | "i < 56" using assms(1) by (auto simp: unwritten_def)
  then show ?thesis
  proof cases
    case 1
    then have "n + 1 \<le> i" using mod_less_eq_dividend [of "63 - n" w] assms(2) by linarith
    then show ?thesis using False 1(2) by (simp add: pad_run_def)
  qed (use False in \<open>simp add: pad_run_def\<close>)
qed

lemma unwritten_short:
  "n < 56 \<Longrightarrow> i < 56 \<Longrightarrow> k \<le> 55 - n \<Longrightarrow> (55 - n) mod w = (55 - n) - k \<Longrightarrow> unwritten w n i \<longleftrightarrow> n + 1 + k \<le> i"
  unfolding unwritten_def by simp

lemma unwritten_long:
  assumes "\<not> n < 56" "n < 64" "k \<le> 63 - n" "(63 - n) mod w = (63 - n) - k" "j \<le> 56" "56 mod w = 56 - j"
  shows "n < i \<Longrightarrow> i < 64 \<Longrightarrow> unwritten w n i \<longleftrightarrow> n + 1 + k \<le> i"
    and "i < 56 \<Longrightarrow> unwritten w n i \<longleftrightarrow> j \<le> i"
proof -
  have e: "64 - (63 - n) mod w = n + 1 + k" "56 - 56 mod w = j" using assms by linarith+
  show "n < i \<Longrightarrow> i < 64 \<Longrightarrow> unwritten w n i \<longleftrightarrow> n + 1 + k \<le> i" "i < 56 \<Longrightarrow> unwritten w n i \<longleftrightarrow> j \<le> i"
    unfolding unwritten_def e using assms(1) by auto
qed

text \<open>The padding is that of the standard exactly if the bytes left unwritten are zero.\<close>

lemma padded_sha_pad:
  assumes "0 < w"
  shows "padded w d msg = sha_pad msg \<longleftrightarrow> (\<forall>i. unwritten w (length msg mod 64) i \<longrightarrow> d ! i = 0)"
proof -
  let ?n = "length msg mod 64"
  have "padded w d msg = sha_pad msg \<longleftrightarrow>
      map (\<lambda>i. if unwritten w ?n i then d ! i else 0) (pad_run ?n) = replicate (length (pad_run ?n)) 0"
    by (simp add: padded_def sha_pad_def Let_def pad_run_length)
  also have "\<dots> \<longleftrightarrow> (\<forall>i \<in> set (pad_run ?n). unwritten w ?n i \<longrightarrow> d ! i = 0)"
    by (auto simp: list_eq_iff_nth_eq all_set_conv_all_nth)
  also have "\<dots> \<longleftrightarrow> (\<forall>i. unwritten w ?n i \<longrightarrow> d ! i = 0)"
    using unwritten_in_run [OF _ _ assms, of ?n] by auto
  finally show ?thesis .
qed

lemma padded_blocks:
  assumes "sha_rep msg ctx"
  shows "sha_blocks sha_H0 (padded w d msg) = sha_blocks (state ctx)
    (sha_rest msg @ [0x80] @ map (\<lambda>i. if unwritten w (length msg mod 64) i then d ! i else 0) (pad_run (length msg mod 64))
      @ be64 (word_of_nat (8 * length msg)))"
proof -
  obtain p where p: "msg = p @ sha_rest msg" "64 dvd length p" by (rule sha_split)
  let ?t = "[0x80] @ map (\<lambda>i. if unwritten w (length msg mod 64) i then d ! i else 0) (pad_run (length msg mod 64))
    @ be64 (word_of_nat (8 * length msg))"
  have "sha_blocks sha_H0 msg = sha_blocks (sha_blocks sha_H0 p) (sha_rest msg)"
    using sha_blocks_append [OF p(2), of sha_H0 "sha_rest msg"] p(1) by simp
  then have "state ctx = sha_blocks sha_H0 p"
    using assms length_sha_rest [of msg] by (simp add: sha_rep_def sha_blocks_short)
  moreover have "msg @ t = p @ sha_rest msg @ t" for t using p(1) by (metis append.assoc)
  then have "padded w d msg = p @ sha_rest msg @ ?t" unfolding padded_def Let_def .
  ultimately show ?thesis
    using sha_blocks_append [OF p(2), of sha_H0 "sha_rest msg @ ?t"] by simp
qed

lemma pad_fill:
  fixes d xs :: "u8 list"
  assumes "N + k \<le> e" "e \<le> length xs"
    and "\<And>i. N \<le> i \<Longrightarrow> i < e \<Longrightarrow> (if U i then d ! i else 0) = (if N + k \<le> i then xs ! i else 0)"
  shows "take e (take N xs @ replicate k 0 @ drop (N + k) xs) = take N xs @ map (\<lambda>i. if U i then d ! i else 0) [N..<e]"
proof -
  have u: "[N..<e] = [N..<N + k] @ [N + k..<e]" using assms(1) by (metis le_Suc_ex le_add1 upt_add_eq_append)
  have "map (\<lambda>i. if U i then d ! i else 0) [N..<e] = map (\<lambda>i. if N + k \<le> i then xs ! i else 0) [N..<e]"
    using assms(3) by (intro map_cong refl) simp
  moreover have "map (\<lambda>i. if N + k \<le> i then xs ! i else 0) [N..<e] = replicate k 0 @ map ((!) xs) [N + k..<e]"
    unfolding u by (simp add: list_eq_iff_nth_eq nth_append)
  moreover have "map ((!) xs) [N + k..<e] = take (e - (N + k)) (drop (N + k) xs)"
    using assms(1,2) by (simp add: list_eq_iff_nth_eq)
  moreover have "length (take N xs) = N" using assms(1,2) by simp
  ultimately show ?thesis using assms(1) by simp
qed

lemmas sha_final_simps = SHA256Final_def put_length_spec SHA256Transform_compress Let_def

lemma memset_width_pos: "0 < memset_width features"
  by (simp add: memset_width_def)

lemma SHA256Final_short:
  assumes rep: "sha_rep msg ctx" and n: "length msg mod 64 < 56"
  shows "\<exists>ctx'. SHA256Final features ctx = Some (hash_bytes (sha_blocks sha_H0 (padded (memset_width features) (data ctx) msg)), ctx')"
proof -
  let ?n = "length msg mod 64" and ?r = "sha_rest msg" and ?L = "be64 (word_of_nat (8 * length msg))" and ?w = "memset_width features"
  let ?f = "map (\<lambda>i. if unwritten ?w ?n i then data ctx ! i else 0) [?n + 1..<56]"
  define d1 where "d1 = (data ctx)[?n := 0x80]"
  define k where "k = (55 - ?n) - (55 - ?n) mod ?w"
  note D = sha_repD [OF rep] and mark = sha_mark [OF rep, folded d1_def]
  have lr: "length ?r = ?n" by (rule length_sha_rest)
  have d1: "length d1 = 64" using D(1) by (simp add: d1_def)
  have k: "k \<le> 55 - ?n" "(55 - ?n) mod ?w = (55 - ?n) - k" unfolding k_def by (simp, rule mod_rest)
  define d2 where "d2 = take (?n + 1) d1 @ replicate k 0 @ drop (?n + 1 + k) d1"
  have ld2: "length d2 = 64" unfolding d2_def length_append length_take length_replicate length_drop d1 using n k(1) by linarith
  have "clear_data features (?n + 1) (56 - (?n + 1)) (ctx\<lparr>data := d1\<rparr>) = Some (ctx\<lparr>data := d2\<rparr>)"
    using clear_data_spec [of "?n + 1" "56 - (?n + 1)" "ctx\<lparr>data := d1\<rparr>" k features] n d1 by (simp add: d2_def k_def)
  moreover have "take 56 d2 = (?r @ [0x80]) @ ?f"
    unfolding d2_def mark(2) [symmetric]
  proof (rule pad_fill)
    fix i assume i: "?n + 1 \<le> i" "i < 56"
    then have "d1 ! i = data ctx ! i" by (simp add: d1_def)
    then show "(if unwritten ?w ?n i then data ctx ! i else 0) = (if ?n + 1 + k \<le> i then d1 ! i else 0)"
      using unwritten_short [OF n i(2) k] by simp
  qed (use n k d1 in linarith)+
  moreover note ld2
  moreover have "sha_blocks (state ctx) (((?r @ [0x80]) @ ?f) @ ?L) = sha_compress (state ctx) (((?r @ [0x80]) @ ?f) @ ?L)"
    by (rule sha_blocks_one) (use n lr in \<open>simp add: be64_def\<close>)
  ultimately show ?thesis
    using n D d1 lr mark(1) padded_blocks [OF rep, of ?w "data ctx"] SHA256Final_length [OF rep]
    by (simp add: sha_final_simps pad_run_def)
qed

lemma SHA256Final_long:
  assumes rep: "sha_rep msg ctx" and n: "\<not> length msg mod 64 < 56"
  shows "\<exists>ctx'. SHA256Final features ctx = Some (hash_bytes (sha_blocks sha_H0 (padded (memset_width features) (data ctx) msg)), ctx')"
proof -
  let ?n = "length msg mod 64" and ?r = "sha_rest msg" and ?L = "be64 (word_of_nat (8 * length msg))" and ?w = "memset_width features"
  let ?g = "\<lambda>i. if unwritten ?w ?n i then data ctx ! i else 0"
  define d1 where "d1 = (data ctx)[?n := 0x80]"
  define k where "k = (63 - ?n) - (63 - ?n) mod ?w"
  define j where "j = 56 - 56 mod ?w"
  note D = sha_repD [OF rep] and mark = sha_mark [OF rep, folded d1_def]
  let ?b1 = "?r @ [0x80] @ map ?g [?n + 1..<64]"
  have n64: "?n < 64" by simp
  have lr: "length ?r = ?n" by (rule length_sha_rest)
  have b1: "length ?b1 = 64" using lr n64 by simp
  have d1: "length d1 = 64" using D(1) by (simp add: d1_def)
  have k: "k \<le> 63 - ?n" "(63 - ?n) mod ?w = (63 - ?n) - k" unfolding k_def by (simp, rule mod_rest)
  have j: "j \<le> 56" "56 mod ?w = 56 - j" unfolding j_def by (simp, rule mod_rest)
  have "take 64 (take (?n + 1) d1 @ replicate k 0 @ drop (?n + 1 + k) d1) = (?r @ [0x80]) @ map ?g [?n + 1..<64]"
    unfolding mark(2) [symmetric]
  proof (rule pad_fill)
    fix i assume i: "?n + 1 \<le> i" "i < 64"
    then have "d1 ! i = data ctx ! i" by (simp add: d1_def)
    then show "?g i = (if ?n + 1 + k \<le> i then d1 ! i else 0)"
      using unwritten_long(1) [OF n n64 k j _ i(2)] i(1) by simp
  qed (use n64 k d1 in linarith)+
  moreover have "length (take (?n + 1) d1 @ replicate k 0 @ drop (?n + 1 + k) d1) = 64"
    unfolding length_append length_take length_replicate length_drop d1 using n64 k(1) by linarith
  ultimately have "take (?n + 1) d1 @ replicate k 0 @ drop (?n + 1 + k) d1 = (?r @ [0x80]) @ map ?g [?n + 1..<64]" by simp
  then have c1: "clear_data features (?n + 1) (64 - (?n + 1)) (ctx\<lparr>data := d1\<rparr>) = Some (ctx\<lparr>data := ?b1\<rparr>)"
    using clear_data_spec [of "?n + 1" "64 - (?n + 1)" "ctx\<lparr>data := d1\<rparr>" k features] n64 d1 by (simp add: k_def)
  have b1_nth: "?b1 ! i = data ctx ! i" if "i < ?n" for i
  proof -
    have "?b1 ! i = take ?n (data ctx) ! i" using that lr rep by (simp add: nth_append sha_rep_def)
    then show ?thesis using that by simp
  qed
  have t: "take 56 (replicate j 0 @ drop j ?b1) = map ?g [0..<56]"
  proof -
    have "?g i = (if 0 + j \<le> i then ?b1 ! i else 0)" if "i < 56" for i
      using unwritten_long(2) [OF n n64 k j that] b1_nth [of i] n that by simp
    then show ?thesis using pad_fill [of 0 j 56 ?b1 "unwritten ?w ?n" "data ctx"] j b1 by simp
  qed
  let ?s = "sha_compress (state ctx) ?b1"
  have c2: "clear_data features 0 56 (ctx\<lparr>data := ?b1, state := ?s\<rparr>)
      = Some (ctx\<lparr>data := replicate j 0 @ drop j ?b1, state := ?s\<rparr>)"
    using clear_data_spec [of 0 56 "ctx\<lparr>data := ?b1, state := ?s\<rparr>" j features] b1 by (simp add: j_def)
  have "sha_blocks (state ctx) (?b1 @ map ?g [0..<56] @ ?L) = sha_compress ?s (map ?g [0..<56] @ ?L)"
    using sha_blocks_append [of ?b1 "state ctx" "map ?g [0..<56] @ ?L"] b1 by (simp add: sha_blocks_one be64_def)
  moreover have "sha_blocks sha_H0 (padded ?w (data ctx) msg) = sha_blocks (state ctx) (?b1 @ map ?g [0..<56] @ ?L)"
    using padded_blocks [OF rep, of ?w "data ctx"] n by (simp add: pad_run_def)
  moreover have "length (replicate j 0 @ drop j ?b1) = 64" using b1 j by simp
  ultimately show ?thesis
    using n n64 D d1 b1 mark(1) c1 c2 t SHA256Final_length [OF rep] by (simp add: sha_final_simps)
qed

text \<open>A message handed over in any number of pieces.\<close>

fun hash_pieces :: "CpuFeatures \<Rightarrow> u8 list list \<Rightarrow> SHA256_CTX \<Rightarrow> (u8 list \<times> SHA256_CTX) option" where
  "hash_pieces features [] ctx = SHA256Final features ctx"
| "hash_pieces features (p # ps) ctx = do { ctx \<leftarrow> SHA256Update p ctx; hash_pieces features ps ctx }"

lemma hash_pieces_rep:
  "sha_rep msg ctx \<Longrightarrow> data ctx = sha_buffer buf msg \<Longrightarrow>
   \<exists>ctx'. hash_pieces features ps ctx = Some (hash_bytes (sha_blocks sha_H0
     (padded (memset_width features) (sha_buffer buf (msg @ concat ps)) (msg @ concat ps))), ctx')"
proof (induction ps arbitrary: msg ctx)
  case Nil
  then show ?case
    using SHA256Final_short [OF Nil(1), of features] SHA256Final_long [OF Nil(1), of features]
    by (cases "length msg mod 64 < 56") simp_all
next
  case (Cons p ps)
  obtain c1 where c1: "SHA256Update p ctx = Some c1" "sha_rep (msg @ p) c1"
    using SHA256Update_rep [OF Cons.prems(1)] by blast
  then show ?case using Cons.IH [OF c1(2) SHA256Update_data [OF Cons.prems c1(1)]] by simp
qed

text \<open>
  C10: On every machine, initialising a context, feeding it a message in pieces of any lengths and
  finalising returns a digest, and no write leaves the 64-byte buffer.  The digest is the FIPS 180-4
  compression (schedule, rotations and all) of the message with the padding the code leaves in the
  buffer.  That padding is the one of the standard, and the digest the SHA-256 digest of the whole
  message, exactly when the padding bytes that \<open>FastMemset\<close> leaves unwritten, given the vector width of
  the machine, are zero in the buffer: always without SSE2, AVX2 and AVX-512, and with them for
  instance for a message of less than 56 bytes in a context that was zero before.
\<close>

theorem SHA256_hashes_message:
  assumes "length (data ctx) = 64" and "msg = concat pieces" and "d = sha_buffer (data ctx) msg"
    and "w = memset_width features"
  shows "\<exists>digest ctx'. hash_pieces features pieces (SHA256Init ctx) = Some (digest, ctx') \<and>
    digest = hash_bytes (sha_blocks sha_H0 (padded w d msg)) \<and>
    (padded w d msg = sha_pad msg \<longleftrightarrow> (\<forall>i. unwritten w (length msg mod 64) i \<longrightarrow> d ! i = 0)) \<and>
    ((\<forall>i. unwritten w (length msg mod 64) i \<longrightarrow> d ! i = 0) \<longrightarrow> digest = sha256 msg)"
proof -
  have "data (SHA256Init ctx) = sha_buffer (data ctx) []" by (simp add: SHA256Init_def)
  from hash_pieces_rep [OF SHA256Init_rep [OF assms(1)] this, of features pieces] assms(2-4)
  obtain ctx' where h: "hash_pieces features pieces (SHA256Init ctx) = Some (hash_bytes (sha_blocks sha_H0 (padded w d msg)), ctx')"
    by auto
  have "0 < w" using memset_width_pos assms(4) by simp
  with padded_sha_pad [OF this, of d msg] h show ?thesis by (auto simp: sha256_def)
qed

lemma unwritten_scalar: "\<not> unwritten 1 n i"
  by (simp add: unwritten_def)

text \<open>A zero context on a machine with SSE2, and the message \<open>abc\<close> in two pieces.\<close>

definition sha_ctx0 :: SHA256_CTX where
  "sha_ctx0 = \<lparr>data = replicate 64 0, datalen = 5, bitlen = 7, state = []\<rparr>"

theorem SHA256_hashes_message_witness:
  "\<exists>ctx'. hash_pieces \<lparr>sse2 = True, avx2 = False, avx512f = False\<rparr> [[0x61, 0x62], [], [0x63]] (SHA256Init sha_ctx0)
     = Some (sha256 [0x61, 0x62, 0x63], ctx')"
proof -
  let ?f = "\<lparr>sse2 = True, avx2 = False, avx512f = False\<rparr>" and ?m = "[0x61, 0x62, 0x63] :: u8 list"
  have w: "memset_width ?f = 16" by (simp add: memset_width_def)
  have "sha_buffer (data sha_ctx0) ?m ! i = 0" if "unwritten 16 3 i" for i
    using that by (simp add: unwritten_def sha_buffer_def sha_ctx0_def)
  then show ?thesis
    using SHA256_hashes_message [of sha_ctx0 ?m "[[0x61, 0x62], [], [0x63]]" "sha_buffer (data sha_ctx0) ?m" 16 ?f]
    unfolding w by (auto simp: sha_ctx0_def)
qed

section \<open>CRC-32\<close>

lemma xor_cancel: "(a :: 'a::len word) XOR c = b XOR c \<longleftrightarrow> a = b" "c XOR a = c XOR b \<longleftrightarrow> a = b"
proof -
  have "(a XOR c) XOR c = a" "(b XOR c) XOR c = b" by (simp_all only: xor.assoc xor_self_eq xor.right_neutral)
  then show "a XOR c = b XOR c \<longleftrightarrow> a = b" by metis
  then show "c XOR a = c XOR b \<longleftrightarrow> a = b" by (simp only: xor.commute)
qed

text \<open>The bit-by-bit division the table is made for.\<close>

definition crc_byte :: "u8 \<Rightarrow> u32 \<Rightarrow> u32" where
  "crc_byte b crc = (crc_bit ^^ 8) (crc XOR ucast b)"

definition crc_bitwise :: "u8 list \<Rightarrow> u32" where
  "crc_bitwise bs = fold crc_byte bs 0xFFFFFFFF XOR 0xFFFFFFFF"

lemma crc_bit_alt: "crc_bit c = drop_bit 1 c XOR (if bit c 0 then 0xEDB88320 else 0)"
  by (simp add: crc_bit_def and_one_eq bit_0 odd_iff_mod_2_eq_one xor.commute)

lemma crc_bit_xor: "crc_bit (a XOR b) = crc_bit a XOR crc_bit b"
  by (simp add: crc_bit_alt drop_bit_xor bit_xor_iff xor.assoc xor.left_commute)

lemma crc_bits_xor: "(crc_bit ^^ n) (a XOR b) = (crc_bit ^^ n) a XOR (crc_bit ^^ n) b"
  by (induction n) (simp_all add: crc_bit_xor)

lemma crc_bits_shift:
  assumes "\<And>i. i < n \<Longrightarrow> \<not> bit c i"
  shows "(crc_bit ^^ n) c = drop_bit n c"
  using assms
proof (induction n)
  case (Suc n)
  then have "(crc_bit ^^ n) c = drop_bit n c" "\<not> bit c n" by auto
  moreover from this(2) have "crc_bit (drop_bit n c) = drop_bit (Suc n) c"
    by (simp add: crc_bit_alt bit_drop_bit_eq)
  ultimately show ?case by simp
qed simp

lemma crc_table_step:
  "(crc_bit ^^ 8) c = (crc_bit ^^ 8) (c AND 0xFF) XOR drop_bit 8 c"
proof -
  let ?h = "c AND NOT 0xFF"
  have ff: "(0xFF :: u32) = Bit_Operations.mask 8" by (simp add: mask_eq_exp_minus_1)
  have "(crc_bit ^^ 8) ?h = drop_bit 8 ?h"
    by (rule crc_bits_shift) (simp add: ff bit_and_iff bit_not_iff bit_mask_iff)
  also have "\<dots> = drop_bit 8 c"
    by (rule bit_word_eqI) (auto simp: ff bit_drop_bit_eq bit_and_iff bit_not_iff bit_mask_iff dest: bit_imp_le_length)
  finally have h: "(crc_bit ^^ 8) ?h = drop_bit 8 c" .
  have "c = (c AND 0xFF) XOR ?h"
    unfolding ff by (rule bit_word_eqI) (auto simp: bit_xor_iff bit_and_iff bit_not_iff)
  then have "(crc_bit ^^ 8) c = (crc_bit ^^ 8) ((c AND 0xFF) XOR ?h)" by simp
  also have "\<dots> = (crc_bit ^^ 8) (c AND 0xFF) XOR drop_bit 8 c"
    unfolding crc_bits_xor h ..
  finally show ?thesis .
qed

definition crc_ok :: "crc_state \<Rightarrow> bool" where
  "crc_ok s \<longleftrightarrow> (table_generated s \<longrightarrow> crc32_table s = map (\<lambda>i. (crc_bit ^^ 8) (word_of_nat i)) [0..<256])"

lemma crc_step_byte:
  "crc_step (map (\<lambda>i. (crc_bit ^^ 8) (word_of_nat i)) [0..<256]) b crc = crc_byte b crc"
proof -
  let ?x = "(crc XOR ucast b) AND 0xFF"
  have ff: "(0xFF :: u32) = Bit_Operations.mask 8" by (simp add: mask_eq_exp_minus_1)
  have "unat ?x < 256"
    unfolding ff take_bit_eq_mask [symmetric] unsigned_take_bit_eq by (simp add: take_bit_eq_mod)
  moreover have "drop_bit 8 (ucast b :: u32) = 0"
    by (rule bit_word_eqI) (auto simp: bit_drop_bit_eq bit_ucast_iff dest: bit_imp_le_length)
  then have "drop_bit 8 (crc XOR ucast b) = drop_bit 8 crc" by (simp add: drop_bit_xor)
  ultimately show ?thesis
    unfolding crc_step_def crc_byte_def by (subst crc_table_step) simp
qed

text \<open>
  C37: The table-driven CRC-32 equals the bit-by-bit division by the polynomial, for every message and
  whether or not the table exists already; the call leaves a correct table behind.
\<close>

theorem CRC32_is_bitwise:
  assumes "crc_ok s"
  shows "fst (CRC32 bs s) = crc_bitwise bs \<and> crc_ok (snd (CRC32 bs s)) \<and> table_generated (snd (CRC32 bs s))"
proof -
  have "crc_step (map (\<lambda>i. (crc_bit ^^ 8) (word_of_nat i)) [0..<256]) = crc_byte"
    by (intro ext) (rule crc_step_byte)
  then show ?thesis
    using assms by (simp add: CRC32_def CRC32Init_def crc_bitwise_def crc_ok_def Let_def)
qed

theorem CRC32_is_bitwise_witness:
  "fst (CRC32 [0x61, 0x62] \<lparr>crc32_table = [], table_generated = False\<rparr>) = crc_bitwise [0x61, 0x62]"
  using CRC32_is_bitwise [of "\<lparr>crc32_table = [], table_generated = False\<rparr>" "[0x61, 0x62]"]
  by (simp add: crc_ok_def)

text \<open>A difference confined to four consecutive bytes changes the checksum.\<close>

lemma inj_crc_bit: "inj crc_bit"
proof (rule injI)
  fix a b :: u32
  assume eq: "crc_bit a = crc_bit b"
  have top: "bit (crc_bit c) 31 = bit c 0" for c
    using bit_imp_le_length [of c 32] by (auto simp: crc_bit_alt bit_xor_iff bit_drop_bit_eq)
  have "bit a 0 = bit b 0" using eq top [of a] top [of b] by simp
  with eq have d: "drop_bit 1 a = drop_bit 1 b" by (simp add: crc_bit_alt xor_cancel)
  show "a = b"
  proof (rule bit_word_eqI)
    fix i assume "i < LENGTH(32)"
    show "bit a i = bit b i"
    proof (cases i)
      case 0
      then show ?thesis using \<open>bit a 0 = bit b 0\<close> by simp
    next
      case (Suc j)
      have "bit (drop_bit 1 a) j = bit (drop_bit 1 b) j" using d by simp
      then show ?thesis using Suc by (simp add: bit_drop_bit_eq)
    qed
  qed
qed

lemma inj_crc_byte: "inj (crc_byte b)"
proof (rule injI)
  fix x y assume "crc_byte b x = crc_byte b y"
  then have "x XOR ucast b = y XOR ucast b"
    using inj_fn [OF inj_crc_bit, of 8] unfolding crc_byte_def by (simp only: inj_eq)
  then show "x = y" by (simp only: xor_cancel)
qed

lemma inj_fold_crc: "inj (fold crc_byte bs)"
proof (induction bs)
  case (Cons b bs)
  then show ?case using inj_compose [OF Cons inj_crc_byte [of b]] by (simp add: comp_def)
qed (simp add: id_def)

text \<open>A byte fed at bit position \<open>k\<close> has arrived at the bottom after \<open>k\<close> steps.\<close>

lemma crc_bits_push:
  assumes "k \<le> 24"
  shows "(crc_bit ^^ (m + k)) (push_bit k (ucast (b :: u8))) = (crc_bit ^^ m) (ucast b)"
proof -
  have "(crc_bit ^^ k) (push_bit k (ucast b)) = drop_bit k (push_bit k (ucast b :: u32))"
    by (rule crc_bits_shift) (simp add: bit_push_bit_iff)
  also have "\<dots> = ucast b"
    by (rule bit_word_eqI) (use assms in \<open>auto simp: bit_drop_bit_eq bit_push_bit_iff bit_ucast_iff dest: bit_imp_le_length\<close>)
  finally show ?thesis by (simp add: funpow_add)
qed

definition le32 :: "u8 \<Rightarrow> u8 \<Rightarrow> u8 \<Rightarrow> u8 \<Rightarrow> u32" where
  "le32 a b c d = ucast a XOR push_bit 8 (ucast b) XOR push_bit 16 (ucast c) XOR push_bit 24 (ucast d)"

lemma crc_word: "fold crc_byte [a, b, c, d] s = (crc_bit ^^ 32) (s XOR le32 a b c d)"
proof -
  have f: "(crc_bit ^^ m) ((crc_bit ^^ n) x) = (crc_bit ^^ (m + n)) x" for m n x
    by (simp add: funpow_add)
  have "(crc_bit ^^ 32) (push_bit 8 (ucast b)) = (crc_bit ^^ 24) (ucast b)"
    "(crc_bit ^^ 32) (push_bit 16 (ucast c)) = (crc_bit ^^ 16) (ucast c)"
    "(crc_bit ^^ 32) (push_bit 24 (ucast d)) = (crc_bit ^^ 8) (ucast d)"
    using crc_bits_push [of 8 24 b] crc_bits_push [of 16 16 c] crc_bits_push [of 24 8 d] by simp_all
  then show ?thesis
    by (simp add: crc_byte_def le32_def crc_bits_xor f xor.assoc)
qed

lemma le32_inject:
  assumes "le32 a b c d = le32 a' b' c' d'"
  shows "a = a' \<and> b = b' \<and> c = c' \<and> d = d'"
proof -
  have bits: "bit (le32 p q r t) i \<longleftrightarrow> (if i < 8 then bit p i else if i < 16 then bit q (i - 8) else if i < 24 then bit r (i - 16) else bit t (i - 24))"
    if "i < 32" for p q r t i
    using that by (auto simp: le32_def bit_xor_iff bit_push_bit_iff bit_ucast_iff dest: bit_imp_le_length)
  have "bit a i = bit a' i" "bit b i = bit b' i" "bit c i = bit c' i" "bit d i = bit d' i" if "i < 8" for i
    using assms that bits [of i a b c d] bits [of i a' b' c' d'] bits [of "8 + i" a b c d] bits [of "8 + i" a' b' c' d']
      bits [of "16 + i" a b c d] bits [of "16 + i" a' b' c' d'] bits [of "24 + i" a b c d] bits [of "24 + i" a' b' c' d']
    by simp_all
  then show ?thesis by (auto intro!: bit_word_eqI)
qed

lemma crc_detects_burst:
  assumes "(a, b, c, d) \<noteq> (a', b', c', d')"
  shows "crc_bitwise (p @ [a, b, c, d] @ q) \<noteq> crc_bitwise (p @ [a', b', c', d'] @ q)"
proof
  assume "crc_bitwise (p @ [a, b, c, d] @ q) = crc_bitwise (p @ [a', b', c', d'] @ q)"
  then have "fold crc_byte q (fold crc_byte [a, b, c, d] (fold crc_byte p 0xFFFFFFFF))
      = fold crc_byte q (fold crc_byte [a', b', c', d'] (fold crc_byte p 0xFFFFFFFF))"
    unfolding crc_bitwise_def fold_append comp_def xor_cancel .
  then have "fold crc_byte [a, b, c, d] (fold crc_byte p 0xFFFFFFFF) = fold crc_byte [a', b', c', d'] (fold crc_byte p 0xFFFFFFFF)"
    using inj_fold_crc [of q] by (simp only: inj_eq)
  then have "le32 a b c d = le32 a' b' c' d'"
    unfolding crc_word using inj_fn [OF inj_crc_bit, of 32] by (simp only: inj_eq xor_cancel)
  then show False using le32_inject assms by blast
qed

section \<open>The generator never gets stuck\<close>

lemma rotl_0_iff: "0 < k \<Longrightarrow> k < 64 \<Longrightarrow> rotl x k = 0 \<longleftrightarrow> x = 0"
proof
  assume k: "0 < k" "k < 64" and z: "rotl x k = 0"
  show "x = 0"
  proof (rule bit_word_eqI)
    fix i assume "i < LENGTH(64)"
    then have i: "i < 64" by simp
    show "bit x i = bit 0 i"
    proof (cases "i + k < 64")
      case True
      have "\<not> bit (rotl x k) (i + k)" using z by simp
      then show ?thesis using True by (simp add: rotl_def bit_or_iff bit_push_bit_iff)
    next
      case False
      have "\<not> bit (rotl x k) (i + k - 64)" using z by simp
      then show ?thesis using False k i by (simp add: rotl_def bit_or_iff bit_drop_bit_eq)
    qed
  qed
qed (simp add: rotl_def)

lemma xoroshiro_nonzero:
  assumes "s \<noteq> (0, 0)"
  shows "snd (xoroshiro128plus s) \<noteq> (0, 0)"
proof
  assume z: "snd (xoroshiro128plus s) = (0, 0)"
  obtain s0 s1 where s: "s = (s0, s1)" by force
  have "rotl (s1 XOR s0) 36 = 0" using z by (simp add: xoroshiro128plus_def Let_def s)
  then have "s1 XOR s0 = s0 XOR s0" by (simp add: rotl_0_iff)
  then have x: "s1 = s0" by (simp only: xor_cancel)
  then have "rotl s0 55 = 0" using z by (simp add: xoroshiro128plus_def Let_def s)
  then have "s0 = 0" by (simp add: rotl_0_iff)
  with x s assms show False by simp
qed

lemma rng_seed_nonzero: "rng_seed lo hi s \<noteq> (0, 0)"
proof
  assume z: "rng_seed lo hi s = (0, 0)"
  show False
  proof (cases "fst (rng_seed lo hi s) OR snd (rng_seed lo hi s) = 0")
    case True
    obtain r0 s0 r1 s1' where "splitmix64 (lo XOR (hi + 0x9e3779b97f4a7c15)) = (r0, s0)" "splitmix64 s0 = (r1, s1')" by force
    with z show False by (auto simp: rng_seed_def Let_def split: if_splits)
  qed (simp add: z)
qed

text \<open>The numbers drawn in turn, with the state they leave.\<close>

fun draw :: "nat \<Rightarrow> rng \<Rightarrow> u64 list \<times> rng" where
  "draw 0 s = ([], s)"
| "draw (Suc n) s = (let (r, s) = xoroshiro128plus s; (rs, s) = draw n s in (r # rs, s))"

lemma draw_nonzero: "s \<noteq> (0, 0) \<Longrightarrow> snd (draw n s) \<noteq> (0, 0)"
proof (induction n arbitrary: s)
  case (Suc n)
  obtain r s' rs s'' where s': "xoroshiro128plus s = (r, s')" "draw n s' = (rs, s'')" by (metis surj_pair)
  then have "s' \<noteq> (0, 0)" using xoroshiro_nonzero [OF Suc.prems] by simp
  from Suc.IH [OF this] s' show ?case by (simp add: Let_def)
qed simp

text \<open>
  The state after seeding is never the fixed point zero, whatever the seed and the state before it,
  and no number of draws reaches it.
\<close>

theorem rng_never_stuck: "snd (draw n (rng_seed lo hi s)) \<noteq> (0, 0)"
  by (rule draw_nonzero [OF rng_seed_nonzero])

end
