(* ===== verification/Format.thy ===== *)
theory Format
  imports StringOps
begin

unbundle bit_operations_syntax

text \<open>
  Formatted output (\<open>src/kernel/etc/Format.c\<close>) and the character classes it uses
  (\<open>src/include/ctype.c\<close>, \<open>ctype.h\<close>).  A C string is the list of its bytes without the terminator;
  reading at its end gives the terminator, reading behind it is a fault (\<open>None\<close>).  An argument of a
  variadic call is a 64-bit word or a string pointer; fetching one of the other sort, or one more
  than were passed, is a fault as well.  The output buffer is the list of bytes written so far.
\<close>

section \<open>ctype\<close>

definition ctype_rows :: "u8 list" where
  "ctype_rows =
     replicate 9 0x08 @ replicate 5 (0x08 OR 0x20) @ replicate 18 0x08
     @ [0x20 OR 0x80] @ replicate 15 0x10
     @ replicate 10 0x04 @ replicate 6 0x10
     @ [0x10] @ replicate 6 (0x01 OR 0x40) @ replicate 20 0x01 @ replicate 5 0x10
     @ [0x10] @ replicate 6 (0x02 OR 0x40) @ replicate 20 0x02 @ replicate 4 0x10 @ [0x08]
     @ replicate 128 0"

definition ctype_of :: "u8 \<Rightarrow> u8" where
  "ctype_of c = (0 # ctype_rows) ! (unat c + 1)"

definition isdigit :: "u8 \<Rightarrow> bool" where "isdigit c \<longleftrightarrow> ctype_of c AND 0x04 \<noteq> 0"
definition islower :: "u8 \<Rightarrow> bool" where "islower c \<longleftrightarrow> ctype_of c AND 0x02 \<noteq> 0"
definition isxdigit :: "u8 \<Rightarrow> bool" where "isxdigit c \<longleftrightarrow> ctype_of c AND (0x04 OR 0x40) \<noteq> 0"

definition toupper :: "u8 \<Rightarrow> u8" where
  "toupper c = (if islower c then c - (0x61 - 0x41) else c)"

section \<open>Reading numbers\<close>

definition peek :: "u8 list \<Rightarrow> u8" where
  "peek cp = (case cp of [] \<Rightarrow> 0 | c # _ \<Rightarrow> c)"

definition digit_value :: "u8 \<Rightarrow> u64" where
  "digit_value c =
     (if isdigit c then ucast c - 0x30 else ucast (if islower c then toupper c else c) - 0x41 + 10)"

fun strtoul_loop :: "u32 \<Rightarrow> u64 \<Rightarrow> u8 list \<Rightarrow> u64 \<times> u8 list" where
  "strtoul_loop base result [] = (result, [])"
| "strtoul_loop base result (c # cp) =
     (if isxdigit c \<and> digit_value c < ucast base
      then strtoul_loop base (result * ucast base + digit_value c) cp
      else (result, c # cp))"

definition simple_strtoul :: "u8 list \<Rightarrow> u32 \<Rightarrow> u64 \<times> u8 list" where
  "simple_strtoul cp base =
     (let (base, cp) =
        (if base = 0
         then if peek cp = 0x30
              then let cp = tl cp in
                   if peek cp = 0x78 \<and> isxdigit (peek (tl cp)) then (16, tl cp) else (8, cp)
              else (10, cp)
         else (base, cp))
      in strtoul_loop base 0 cp)"

section \<open>Writing\<close>

datatype va_arg = Num u64 | Str "u8 list option"

definition is_digit :: "u8 \<Rightarrow> bool" where
  "is_digit c \<longleftrightarrow> 0x30 \<le> c \<and> c \<le> 0x39"

definition digit_char :: "bool \<Rightarrow> nat \<Rightarrow> u8" where
  "digit_char small d =
     (if d < 10 then word_of_nat (0x30 + d) else if small then word_of_nat (0x61 + (d - 10)) else word_of_nat (0x41 + (d - 10)))"

fun tmp_digits :: "nat \<Rightarrow> nat \<Rightarrow> bool \<Rightarrow> nat \<Rightarrow> u8 list" where
  "tmp_digits num base small 0 = []"
| "tmp_digits num base small (Suc left) =
     (if num = 0 then [] else digit_char small (num mod base) # tmp_digits (num div base) base small left)"

fun emit_all :: "int \<Rightarrow> u8 list \<Rightarrow> u8 list \<Rightarrow> u8 list" where
  "emit_all lim buf [] = buf"
| "emit_all lim buf (c # cs) = (if int (length buf) < lim then emit_all lim (buf @ [c]) cs else buf)"

definition number_to_str :: "int \<Rightarrow> u8 list \<Rightarrow> u64 \<Rightarrow> nat \<Rightarrow> bool \<Rightarrow> u8 list" where
  "number_to_str lim buf num base small =
     emit_all lim buf (rev (if num = 0 then [0x30] else tmp_digits (unat num) base small 23))"

definition next_num :: "va_arg list \<Rightarrow> (u64 \<times> va_arg list) option" where
  "next_num args = (case args of Num w # rest \<Rightarrow> Some (w, rest) | _ \<Rightarrow> None)"

definition next_str :: "va_arg list \<Rightarrow> (u8 list option \<times> va_arg list) option" where
  "next_str args = (case args of Str s # rest \<Rightarrow> Some (s, rest) | _ \<Rightarrow> None)"

text \<open>\<open>int\<close> and \<open>unsigned int\<close> arguments occupy the low half of their word; \<open>wide\<close> is \<open>l\<close> or \<open>ll\<close>.\<close>

definition signed_arg :: "bool \<Rightarrow> u64 \<Rightarrow> int" where
  "signed_arg wide w = (if wide then sint w else sint (ucast w :: u32))"

definition unsigned_arg :: "bool \<Rightarrow> u64 \<Rightarrow> u64" where
  "unsigned_arg wide w = (if wide then w else ucast (ucast w :: u32))"

definition null_text :: "u8 list" where
  "null_text = [0x28, 0x6e, 0x75, 0x6c, 0x6c, 0x29]"

definition convert :: "int \<Rightarrow> bool \<Rightarrow> u8 \<Rightarrow> va_arg list \<Rightarrow> u8 list \<Rightarrow> (u8 list \<times> va_arg list) option" where
  "convert lim wide conv args buf =
     (if conv = 0x63 then
        map_option (\<lambda>(w, args). (emit_all lim buf [ucast w], args)) (next_num args)
      else if conv = 0x73 then
        map_option (\<lambda>(s, args). (emit_all lim buf (case s of None \<Rightarrow> null_text | Some s \<Rightarrow> s), args)) (next_str args)
      else if conv = 0x64 \<or> conv = 0x69 then
        map_option (\<lambda>(w, args).
          let snum = signed_arg wide w;
              neg = (snum < 0 \<and> int (length buf) < lim)
          in (number_to_str lim (if neg then buf @ [0x2d] else buf) (word_of_int (if neg then - snum else snum)) 10 False, args))
          (next_num args)
      else if conv = 0x75 then
        map_option (\<lambda>(w, args). (number_to_str lim buf (unsigned_arg wide w) 10 False, args)) (next_num args)
      else if conv = 0x78 \<or> conv = 0x58 then
        map_option (\<lambda>(w, args). (number_to_str lim buf (unsigned_arg wide w) 16 (conv = 0x78), args)) (next_num args)
      else if conv = 0x6f then
        map_option (\<lambda>(w, args). (number_to_str lim buf (unsigned_arg wide w) 8 False, args)) (next_num args)
      else if conv = 0x70 then
        map_option (\<lambda>(w, args). (number_to_str lim (emit_all lim buf [0x30, 0x78]) w 16 True, args)) (next_num args)
      else if conv = 0x25 then Some (emit_all lim buf [0x25], args)
      else Some (emit_all lim buf [0x25, conv], args))"

definition skip_flags :: "u8 list \<Rightarrow> u8 list" where
  "skip_flags fmt = dropWhile (\<lambda>c. c = 0x2d \<or> c = 0x2b \<or> c = 0x20 \<or> c = 0x23 \<or> c = 0x30) fmt"

definition skip_precision :: "u8 list \<Rightarrow> u8 list" where
  "skip_precision fmt = (if peek fmt = 0x2e then dropWhile is_digit (tl fmt) else fmt)"

definition length_modifier :: "u8 list \<Rightarrow> bool \<times> u8 list" where
  "length_modifier fmt =
     (if peek fmt = 0x6c then (True, if peek (tl fmt) = 0x6c then tl (tl fmt) else tl fmt)
      else if peek fmt = 0x68 \<or> peek fmt = 0x4c then (False, tl fmt)
      else (False, fmt))"

definition directive :: "u8 list \<Rightarrow> bool \<times> u8 list" where
  "directive fmt = length_modifier (skip_precision (dropWhile is_digit (skip_flags fmt)))"

lemma directive_shorter: "length (snd (directive fmt)) \<le> length fmt"
proof -
  have d: "length (dropWhile P xs) \<le> length xs" for P :: "u8 \<Rightarrow> bool" and xs
    by (rule length_dropWhile_le)
  have "length (snd (length_modifier xs)) \<le> length xs" for xs
    by (auto simp: length_modifier_def)
  moreover have "length (skip_precision xs) \<le> length xs" for xs
    using d [of is_digit "tl xs"] by (auto simp: skip_precision_def)
  ultimately show ?thesis
    unfolding directive_def skip_flags_def by (meson d le_trans)
qed

text \<open>
  A directive that the end of the format cuts off leaves \<open>fmt\<close> at the terminator; the loop then steps
  over it and reads behind the string.
\<close>

function vsnprintf_loop :: "int \<Rightarrow> u8 list \<Rightarrow> va_arg list \<Rightarrow> u8 list \<Rightarrow> u8 list option" where
  "vsnprintf_loop lim fmt args buf =
     (if fmt = [] \<or> \<not> int (length buf) < lim then Some buf
      else if hd fmt \<noteq> 0x25 then vsnprintf_loop lim (tl fmt) args (buf @ [hd fmt])
      else case directive (tl fmt) of
             (wide, []) \<Rightarrow> None
           | (wide, conv # rest) \<Rightarrow>
               (case convert lim wide conv args buf of
                  None \<Rightarrow> None
                | Some (buf, args) \<Rightarrow> vsnprintf_loop lim rest args buf))"
  by pat_completeness auto
termination
proof (relation "measure (\<lambda>(lim, fmt, args, buf). length fmt)", goal_cases)
  case (3 lim fmt args buf wide x conv rest)
  then have "snd (directive (tl fmt)) = conv # rest" by (metis snd_conv)
  with 3 show ?case using directive_shorter [of "tl fmt"] by (cases fmt) auto
qed auto

declare vsnprintf_loop.simps [simp del]

definition vsnprintf :: "bool \<Rightarrow> u64 \<Rightarrow> u8 list \<Rightarrow> va_arg list \<Rightarrow> (nat \<times> u8 list) option" where
  "vsnprintf have_buf sz fmt args =
     (if \<not> have_buf \<or> sz = 0 then Some (0, [])
      else map_option (\<lambda>buf. (length buf, buf @ [0])) (vsnprintf_loop (sint (ucast sz :: u32) - 1) fmt args []))"

definition vsprintf :: "bool \<Rightarrow> u8 list \<Rightarrow> va_arg list \<Rightarrow> (nat \<times> u8 list) option" where
  "vsprintf have_buf fmt args = vsnprintf have_buf 0x7FFFFFFF fmt args"

definition snprintf :: "bool \<Rightarrow> u64 \<Rightarrow> u8 list \<Rightarrow> va_arg list \<Rightarrow> (nat \<times> u8 list) option" where
  "snprintf have_buf sz fmt args = vsnprintf have_buf sz fmt args"

definition FormatS :: "u8 list \<Rightarrow> va_arg list \<Rightarrow> u8 list option" where
  "FormatS fmt args = map_option snd (vsnprintf True 1024 fmt args)"

section \<open>Nothing is written outside the buffer\<close>

lemma emit_all_take: "emit_all lim buf cs = buf @ take (nat (lim - int (length buf))) cs"
proof (induction cs arbitrary: buf)
  case (Cons c cs)
  show ?case
  proof (cases "int (length buf) < lim")
    case True
    then have "nat (lim - int (length buf)) = Suc (nat (lim - int (length (buf @ [c]))))" by simp
    then show ?thesis using True Cons by simp
  qed simp
qed simp

lemma emit_all_bound: "int (length (emit_all lim buf cs)) \<le> max lim (int (length buf))"
  by (auto simp: emit_all_take)

lemma convert_bound:
  assumes "convert lim wide conv args buf = Some (buf', args')"
  shows "int (length buf') \<le> max lim (int (length buf))"
proof -
  have n: "int (length (number_to_str lim b num base small)) \<le> max lim (int (length b))" for b num base small
    unfolding number_to_str_def by (rule emit_all_bound)
  have 2: "int (length (number_to_str lim (emit_all lim buf cs) num base small)) \<le> max lim (int (length buf))" for cs num base small
    using n [of "emit_all lim buf cs" num base small] emit_all_bound [of lim buf cs] by linarith
  have 3: "int (length (number_to_str lim (buf @ [c]) num base small)) \<le> lim" if "int (length buf) < lim" for c num base small
    using n [of "buf @ [c]" num base small] that by simp
  show ?thesis
  proof (cases "conv = 0x70")
    case True
    then show ?thesis using assms 2 by (auto simp: convert_def simp del: emit_all.simps)
  next
    case False
    then show ?thesis
      using assms emit_all_bound [of lim buf] n [of buf] 3
      by (auto simp: convert_def Let_def le_max_iff_disj simp del: emit_all.simps split: if_splits)
  qed
qed

lemma vsnprintf_loop_bound:
  "vsnprintf_loop lim fmt args buf = Some buf' \<Longrightarrow> int (length buf') \<le> max lim (int (length buf))"
proof (induction lim fmt args buf rule: vsnprintf_loop.induct)
  case (1 lim fmt args buf)
  show ?case
  proof (cases "fmt = [] \<or> \<not> int (length buf) < lim")
    case True
    then show ?thesis using "1.prems" by (subst (asm) vsnprintf_loop.simps) auto
  next
    case run: False
    show ?thesis
    proof (cases "hd fmt = 0x25")
      case False
      then show ?thesis
        using "1.IH"(1) [OF run False] "1.prems" run by (subst (asm) vsnprintf_loop.simps) auto
    next
      case True
      obtain wide f where d: "directive (tl fmt) = (wide, f)" by force
      with "1.prems" run True obtain conv rest buf1 args1
        where f: "f = conv # rest" "convert lim wide conv args buf = Some (buf1, args1)"
          "vsnprintf_loop lim rest args1 buf1 = Some buf'"
        by (subst (asm) vsnprintf_loop.simps) (auto split: list.splits option.splits)
      from "1.IH"(2) [OF run _ d [symmetric] f(1) f(2) refl f(3)] True convert_bound [OF f(2)]
      show ?thesis by auto
    qed
  qed
qed

lemma vsnprintf_bound:
  assumes "vsnprintf have_buf sz fmt args = Some (n, out)" and "0 < unat sz"
  shows "n < unat sz"
proof (cases "have_buf")
  case True
  then obtain buf where buf: "vsnprintf_loop (sint (ucast sz :: u32) - 1) fmt args [] = Some buf" "n = length buf"
    using assms by (auto simp: vsnprintf_def word_gt_0 split: if_splits)
  have "sint (ucast sz :: u32) \<le> uint (ucast sz :: u32)"
    unfolding sint_uint signed_take_bit_int_less_eq_self_iff by (rule order_trans [of _ 0]) simp_all
  also have "\<dots> \<le> uint sz"
    by (simp add: unsigned_ucast_eq take_bit_int_less_eq_self_iff)
  finally have "sint (ucast sz :: u32) \<le> int (unat sz)" by simp
  moreover have "int n \<le> max (sint (ucast sz :: u32) - 1) 0"
    using vsnprintf_loop_bound [OF buf(1)] buf(2) by simp
  ultimately show ?thesis using assms(2) by linarith
qed (use assms in \<open>auto simp: vsnprintf_def\<close>)

section \<open>Formats that fit their arguments\<close>

text \<open>
  \<open>fmt_ok fmt args\<close>: no directive of the format is cut off by its end, and the arguments are there in
  the order and of the sort its directives fetch: a word for \<open>%c\<close>, \<open>%d\<close>, \<open>%i\<close>, \<open>%u\<close>, \<open>%x\<close>, \<open>%X\<close>, \<open>%o\<close>
  and \<open>%p\<close>, a string pointer for \<open>%s\<close>, none for any other character.
\<close>

definition args_after :: "u8 \<Rightarrow> va_arg list \<Rightarrow> va_arg list option" where
  "args_after conv args =
     (if conv \<in> {0x63, 0x64, 0x69, 0x75, 0x78, 0x58, 0x6f, 0x70}
      then (case args of Num w # rest \<Rightarrow> Some rest | _ \<Rightarrow> None)
      else if conv = 0x73 then (case args of Str p # rest \<Rightarrow> Some rest | _ \<Rightarrow> None)
      else Some args)"

function fmt_ok :: "u8 list \<Rightarrow> va_arg list \<Rightarrow> bool" where
  "fmt_ok fmt args =
     (if fmt = [] then True
      else if hd fmt \<noteq> 0x25 then fmt_ok (tl fmt) args
      else case directive (tl fmt) of
             (wide, []) \<Rightarrow> False
           | (wide, conv # rest) \<Rightarrow>
               (case args_after conv args of None \<Rightarrow> False | Some args \<Rightarrow> fmt_ok rest args))"
  by pat_completeness auto
termination
proof (relation "measure (\<lambda>(fmt, args). length fmt)", goal_cases)
  case (3 fmt args wide x conv rest)
  then have "snd (directive (tl fmt)) = conv # rest" by (metis snd_conv)
  with 3 show ?case using directive_shorter [of "tl fmt"] by (cases fmt) auto
qed auto

declare fmt_ok.simps [simp del]

lemma convert_total:
  assumes "args_after conv args = Some args'"
  shows "\<exists>buf'. convert lim wide conv args buf = Some (buf', args')"
  using assms
  by (auto simp: args_after_def convert_def next_num_def next_str_def Let_def
      split: if_splits list.splits va_arg.splits)

lemma vsnprintf_loop_total:
  "fmt_ok fmt args \<Longrightarrow> \<exists>buf'. vsnprintf_loop lim fmt args buf = Some buf'"
proof (induction lim fmt args buf rule: vsnprintf_loop.induct)
  case (1 lim fmt args buf)
  show ?case
  proof (cases "fmt = [] \<or> \<not> int (length buf) < lim")
    case True
    then show ?thesis by (subst vsnprintf_loop.simps) auto
  next
    case run: False
    show ?thesis
    proof (cases "hd fmt = 0x25")
      case False
      then have "fmt_ok (tl fmt) args" using "1.prems" run by (subst (asm) fmt_ok.simps) simp
      then show ?thesis using "1.IH"(1) [OF run False] run False by (subst vsnprintf_loop.simps) simp
    next
      case True
      obtain wide f where d: "directive (tl fmt) = (wide, f)" by force
      with "1.prems" run True obtain conv rest args1
        where f: "f = conv # rest" "args_after conv args = Some args1" "fmt_ok rest args1"
        by (subst (asm) fmt_ok.simps) (auto split: list.splits option.splits)
      obtain buf1 where c: "convert lim wide conv args buf = Some (buf1, args1)"
        using convert_total [OF f(2)] by blast
      from "1.IH"(2) [OF run _ d [symmetric] f(1) c refl f(3)] True
      obtain buf' where "vsnprintf_loop lim rest args1 buf1 = Some buf'" by auto
      then show ?thesis using run True d f(1) c by (subst vsnprintf_loop.simps) simp
    qed
  qed
qed

section \<open>Printed numbers read back\<close>

lemma ctype_of_rows: "ctype_of c = ctype_rows ! unat c"
  by (simp add: ctype_of_def)

lemma digit_char_cases:
  assumes "d < 16"
  shows "isxdigit (digit_char small d) \<and> digit_value (digit_char small d) = word_of_nat d"
proof -
  have "d \<in> set [0..<16]" using assms by simp
  moreover have "list_all (\<lambda>s. list_all (\<lambda>d. isxdigit (digit_char s d) \<and> digit_value (digit_char s d) = word_of_nat d) [0..<16]) [True, False]"
    by code_simp
  ultimately show ?thesis by (cases small) (simp_all add: list_all_iff)
qed

text \<open>The value of a list of digits, most significant first.\<close>

definition digits_val :: "nat \<Rightarrow> nat list \<Rightarrow> nat" where
  "digits_val base ds = fold (\<lambda>d acc. acc * base + d) ds 0"

lemma strtoul_loop_digits:
  assumes "\<forall>d \<in> set ds. d < base" "base \<le> 16"
  shows "strtoul_loop (word_of_nat base) (word_of_nat acc) (map (digit_char small) ds)
    = (word_of_nat (fold (\<lambda>d acc. acc * base + d) ds acc), [])"
  using assms(1)
proof (induction ds arbitrary: acc)
  case (Cons d ds)
  have b: "ucast (word_of_nat base :: u32) = (word_of_nat base :: u64)"
    using assms(2) by (simp add: word_unat_eq_iff unsigned_ucast_eq unsigned_of_nat take_bit_eq_mod)
  have d: "d < base" "d < 16" using Cons.prems assms(2) by simp_all
  then have "(word_of_nat d :: u64) < word_of_nat base"
    using assms(2) by (simp add: word_less_nat_alt unsigned_of_nat take_bit_eq_mod)
  then show ?case
    using Cons.IH [of "acc * base + d"] Cons.prems digit_char_cases [OF d(2), of small] by (simp add: b)
qed simp

text \<open>The digits the loop of \<open>number_to_str\<close> leaves, least significant first.\<close>

fun lsd :: "nat \<Rightarrow> nat \<Rightarrow> nat \<Rightarrow> nat list" where
  "lsd num base 0 = []"
| "lsd num base (Suc left) = (if num = 0 then [] else num mod base # lsd (num div base) base left)"

lemma tmp_digits_lsd: "tmp_digits num base small left = map (digit_char small) (lsd num base left)"
  by (induction num base small left rule: tmp_digits.induct) simp_all

lemma lsd_less: "0 < base \<Longrightarrow> d \<in> set (lsd num base left) \<Longrightarrow> d < base"
  by (induction num base left rule: lsd.induct) (auto split: if_splits)

lemma lsd_value: "0 < base \<Longrightarrow> num < base ^ left \<Longrightarrow> digits_val base (rev (lsd num base left)) = num"
proof (induction num base left rule: lsd.induct)
  case (2 num base left)
  show ?case
  proof (cases "num = 0")
    case False
    have "num div base < base ^ left"
      using "2.prems" by (simp add: div_less_iff_less_mult mult.commute)
    then show ?thesis using 2 False by (simp add: digits_val_def)
  qed (simp add: digits_val_def)
qed (simp add: digits_val_def)

text \<open>
  C38: A 64-bit number printed by \<open>number_to_str\<close> in base 8, 10 or 16, with either set of digits, and
  read back by \<open>simple_strtoul\<close> in that base gives the number, and the whole text is consumed; 23
  digits, the bound of the loop, are enough for every number.
\<close>

theorem number_to_str_roundtrip:
  assumes "base \<in> {8, 10, 16}" "23 \<le> lim"
  shows "simple_strtoul (number_to_str lim [] num base small) (word_of_nat base) = (num, [])"
proof -
  have b: "0 < base" "base \<le> 16" "(word_of_nat base :: u32) \<noteq> 0" using assms(1) by auto
  define ds where "ds = (if num = 0 then [0] else rev (lsd (unat num) base 23))"
  have len: "length (lsd n base k) \<le> k" for n k by (induction n base k rule: lsd.induct) auto
  have "(if num = 0 then [0x30] else tmp_digits (unat num) base small 23) = map (digit_char small) (rev ds)"
    by (auto simp: ds_def tmp_digits_lsd digit_char_def)
  moreover have "length ds \<le> 23" using len [of "unat num" 23] by (auto simp: ds_def)
  ultimately have out: "number_to_str lim [] num base small = map (digit_char small) ds"
    using assms(2) unfolding number_to_str_def emit_all_take by (simp add: rev_map)
  have "unat num < 2 ^ 64" using unsigned_less [of num] by simp
  also have "\<dots> \<le> (8 :: nat) ^ 23" by simp
  also have "\<dots> \<le> base ^ 23" using assms(1) by (intro power_mono) auto
  finally have "digits_val base ds = unat num"
    using lsd_value [OF b(1), of "unat num" 23] by (simp add: ds_def digits_val_def)
  moreover have "\<forall>d \<in> set ds. d < base" using b(1) lsd_less [OF b(1)] by (auto simp: ds_def split: if_splits)
  ultimately show ?thesis
    using strtoul_loop_digits [OF _ b(2), of ds 0 small] b(3)
    by (simp add: simple_strtoul_def out digits_val_def)
qed

theorem number_to_str_roundtrip_witness:
  "simple_strtoul (number_to_str 100 [] 0xDEADBEEF 16 True) 16 = (0xDEADBEEF, [])"
  using number_to_str_roundtrip [of 16 100 "0xDEADBEEF" True] by simp

text \<open>
  C39: \<open>vsnprintf\<close> into a buffer of \<open>sz > 0\<close> bytes returns whenever no directive of the format is cut off
  by its end and the arguments are of the sorts the directives fetch, and whenever it returns it has
  stored fewer than \<open>sz\<close> bytes and its terminator right behind them: nothing is written outside the
  buffer.  A format that ends inside a directive makes it read behind the format string, and a missing
  argument behind the argument list; nothing is claimed about the bytes found there.
\<close>

theorem vsnprintf_stays_in_buffer:
  assumes "0 < unat sz"
  shows "(fmt_ok fmt args \<longrightarrow> (\<exists>n out. vsnprintf have_buf sz fmt args = Some (n, out))) \<and>
    (\<forall>n out. vsnprintf have_buf sz fmt args = Some (n, out) \<longrightarrow>
       n < unat sz \<and> length out \<le> unat sz \<and> (have_buf \<longrightarrow> out ! n = 0 \<and> length out = n + 1))"
proof (intro conjI impI allI)
  assume "fmt_ok fmt args"
  from vsnprintf_loop_total [OF this] show "\<exists>n out. vsnprintf have_buf sz fmt args = Some (n, out)"
    by (fastforce simp: vsnprintf_def)
next
  fix n out assume v: "vsnprintf have_buf sz fmt args = Some (n, out)"
  show "n < unat sz" by (rule vsnprintf_bound [OF v assms])
  then show "length out \<le> unat sz" "have_buf \<Longrightarrow> out ! n = 0" "have_buf \<Longrightarrow> length out = n + 1"
    using v assms by (auto simp: vsnprintf_def word_gt_0 split: if_splits)
qed

text \<open>The format \<open>%d:%s\<close> with a number and a string, into four bytes.\<close>

theorem vsnprintf_stays_in_buffer_witness:
  "\<exists>n out. vsnprintf True 4 [0x25, 0x64, 0x3a, 0x25, 0x73] [Num 42, Str (Some [0x68, 0x69])] = Some (n, out) \<and>
     n < 4 \<and> out ! n = 0 \<and> length out = n + 1"
proof -
  have "fmt_ok [0x25, 0x64, 0x3a, 0x25, 0x73] [Num 42, Str (Some [0x68, 0x69])]" by code_simp
  then show ?thesis
    using vsnprintf_stays_in_buffer [of 4 "[0x25, 0x64, 0x3a, 0x25, 0x73]" "[Num 42, Str (Some [0x68, 0x69])]" True]
    by fastforce
qed

section \<open>The text a format stands for\<close>

text \<open>
  \<open>prints lim fmt args text\<close>: whatever is in the buffer, formatting appends as much of \<open>text\<close> as there is
  room for.  The rules compose the text of a format from its parts.
\<close>

definition prints :: "int \<Rightarrow> u8 list \<Rightarrow> va_arg list \<Rightarrow> u8 list \<Rightarrow> bool" where
  "prints lim fmt args text \<longleftrightarrow>
     (\<forall>buf. int (length buf) \<le> lim \<longrightarrow> vsnprintf_loop lim fmt args buf = Some (emit_all lim buf text))"

lemma emit_all_full: "\<not> int (length buf) < lim \<Longrightarrow> emit_all lim buf cs = buf"
  by (cases cs) auto

lemma emit_all_append: "emit_all lim buf (xs @ ys) = emit_all lim (emit_all lim buf xs) ys"
  by (induction xs arbitrary: buf) (auto simp: emit_all_full)

lemma emit_all_le: "int (length buf) \<le> lim \<Longrightarrow> int (length (emit_all lim buf cs)) \<le> lim"
  using emit_all_bound [of lim buf cs] by simp

lemma loop_full: "\<not> int (length buf) < lim \<Longrightarrow> vsnprintf_loop lim fmt args buf = Some buf"
  by (simp add: vsnprintf_loop.simps)

lemma prints_Nil: "prints lim [] args []"
  by (simp add: prints_def vsnprintf_loop.simps)

lemma prints_char:
  assumes "prints lim fmt args text" "c \<noteq> 0x25"
  shows "prints lim (c # fmt) args (c # text)"
  unfolding prints_def
proof (intro allI impI)
  fix buf :: "u8 list"
  assume le: "int (length buf) \<le> lim"
  show "vsnprintf_loop lim (c # fmt) args buf = Some (emit_all lim buf (c # text))"
  proof (cases "int (length buf) < lim")
    case True
    then have "vsnprintf_loop lim (c # fmt) args buf = vsnprintf_loop lim fmt args (buf @ [c])"
      using assms(2) by (subst vsnprintf_loop.simps) simp
    then show ?thesis using assms(1) True by (simp add: prints_def)
  qed (simp_all add: loop_full)
qed

text \<open>A directive without flags, width, precision or length.\<close>

definition plain_conv :: "u8 \<Rightarrow> bool" where
  "plain_conv c \<longleftrightarrow> c \<in> {0x63, 0x64, 0x73, 0x75, 0x78}"

lemma prints_directive:
  assumes "prints lim fmt args' text" "plain_conv conv"
    and conv: "\<And>buf. int (length buf) < lim \<Longrightarrow> convert lim False conv args buf = Some (emit_all lim buf out, args')"
  shows "prints lim (0x25 # conv # fmt) args (out @ text)"
  unfolding prints_def
proof (intro allI impI)
  fix buf :: "u8 list"
  assume le: "int (length buf) \<le> lim"
  show "vsnprintf_loop lim (0x25 # conv # fmt) args buf = Some (emit_all lim buf (out @ text))"
  proof (cases "int (length buf) < lim")
    case True
    have "directive (conv # fmt) = (False, conv # fmt)"
      using assms(2) unfolding plain_conv_def
      by (elim insertE emptyE)
        (simp_all add: directive_def skip_flags_def skip_precision_def length_modifier_def is_digit_def peek_def word_le_nat_alt)
    then have "vsnprintf_loop lim (0x25 # conv # fmt) args buf = vsnprintf_loop lim fmt args' (emit_all lim buf out)"
      using True conv [OF True] by (subst vsnprintf_loop.simps) simp
    then show ?thesis
      using assms(1) emit_all_le [OF le, of out] by (simp add: prints_def emit_all_append)
  qed (simp_all add: loop_full emit_all_full)
qed

lemma prints_string:
  assumes "prints lim fmt args text"
  shows "prints lim (0x25 # 0x73 # fmt) (Str (Some s) # args) (s @ text)"
  by (rule prints_directive [OF assms]) (simp_all add: plain_conv_def convert_def next_str_def)

definition decimal :: "nat \<Rightarrow> u8 list" where
  "decimal n = (if n = 0 then [0x30] else rev (tmp_digits n 10 False 23))"

lemma prints_int:
  assumes "prints lim fmt args text" "n < 2 ^ 31"
  shows "prints lim (0x25 # 0x64 # fmt) (Num (word_of_nat n) # args) (decimal n @ text)"
proof (rule prints_directive [OF assms(1)])
  have u: "unat (word_of_nat n :: u64) = n" using assms(2) by (simp add: unsigned_of_nat take_bit_eq_mod)
  have "(ucast (word_of_nat n :: u64) :: u32) = word_of_nat n"
    by (simp add: ucast_eq uint_nat u)
  moreover have "sint (word_of_nat n :: u32) = int n"
    using assms(2) by (simp add: signed_of_nat signed_take_bit_int_eq_self)
  ultimately have s: "signed_arg False (word_of_nat n) = int n" by (simp add: signed_arg_def)
  have z: "(word_of_nat n :: u64) = 0 \<longleftrightarrow> n = 0" using u by (metis unat_eq_zero)
  fix buf :: "u8 list" assume "int (length buf) < lim"
  then show "convert lim False 0x64 (Num (word_of_nat n) # args) buf = Some (emit_all lim buf (decimal n), args)"
    by (simp add: convert_def next_num_def s Let_def number_to_str_def z u decimal_def)
qed (simp add: plain_conv_def)

lemma prints_letter:
  assumes "prints lim fmt args text"
  shows "prints lim (0x25 # 0x63 # fmt) (Num w # args) (ucast w # text)"
  using prints_directive [OF assms, where conv = "0x63" and args = "Num w # args" and out = "[ucast w]"]
  by (simp add: plain_conv_def convert_def next_num_def del: emit_all.simps)

lemma snprintf_prints:
  assumes "prints (int k) fmt args text" "k < 2 ^ 31 - 1"
  shows "snprintf True (word_of_nat (k + 1)) fmt args = Some (min k (length text), take k text @ [0])"
proof -
  define n where "n = k + 1"
  have n: "n < 2 ^ 31" using assms(2) by (simp add: n_def)
  then have u: "unat (word_of_nat n :: u64) = n" by (simp add: unsigned_of_nat take_bit_eq_mod)
  then have nz: "(word_of_nat n :: u64) \<noteq> 0" by (metis unat_0 n_def Suc_eq_plus1 nat.distinct(1))
  have "(ucast (word_of_nat n :: u64) :: u32) = word_of_nat n"
    by (simp add: ucast_eq uint_nat u)
  moreover have "sint (word_of_nat n :: u32) = int n"
    using n by (simp add: signed_of_nat signed_take_bit_int_eq_self)
  ultimately have "sint (ucast (word_of_nat n :: u64) :: u32) - 1 = int k" by (simp add: n_def)
  moreover have "emit_all (int k) [] text = take k text" by (simp add: emit_all_take)
  ultimately show ?thesis
    unfolding n_def [symmetric] using assms(1) nz by (simp add: snprintf_def vsnprintf_def prints_def min.commute)
qed

end
