(* ===== verification/Devices.thy ===== *)
theory Devices
  imports Format Crypto
begin

text \<open>
  The device layer: block devices and partitions (\<open>src/fs/BlockDevice.c\<close>, \<open>MBR.c\<close>), drive names
  (\<open>DriveNaming.c\<close>), character devices and the file system that shows them (\<open>CharDevice.c\<close>,
  \<open>devfs/DevFS.c\<close>), the random device (\<open>src/drivers/Random.c\<close>), and the registry of file systems with
  its mount scan (\<open>FileSystem.c\<close>).

  A table is a list or a function from its index; a pointer to an entry is the index.  The functions
  drivers hand over as pointers are arguments of the model: \<open>drv k dev lba count w\<close> is what the
  driver's function number \<open>k\<close> returns for a call on \<open>dev\<close> in a world \<open>w\<close>, with the world after it.  Names
  are byte lists without the terminator; messages to the console are left out.
\<close>

unbundle bit_operations_syntax

section \<open>BlockDevice.c\<close>

datatype BlockDeviceType = DEVICE_TYPE_UNKNOWN | DEVICE_TYPE_IDE | DEVICE_TYPE_AHCI | DEVICE_TYPE_NVME
  | DEVICE_TYPE_USB | DEVICE_TYPE_VIRTIO | DEVICE_TYPE_PARTITION

datatype io_func = DriverFunc nat | PartitionFunc

record BlockDevice =
  dev_id :: nat
  dev_active :: bool
  dev_type :: BlockDeviceType
  dev_block_size :: u32
  total_blocks :: u64
  dev_name :: "u8 list"
  driver_data :: nat
  dev_parent :: "nat option"
  lba_offset :: u64
  read_blocks :: "io_func option"
  write_blocks :: "io_func option"

definition MAX_BLOCK_DEVICES :: nat where "MAX_BLOCK_DEVICES = 16"

record block_table =
  g_block_devices :: "nat \<Rightarrow> BlockDevice"
  g_next_device_id :: nat

definition BlockDeviceInit :: "block_table \<Rightarrow> block_table" where
  "BlockDeviceInit t = t\<lparr>g_block_devices := (\<lambda>i. if i < MAX_BLOCK_DEVICES
       then (g_block_devices t i)\<lparr>dev_active := False\<rparr> else g_block_devices t i),
     g_next_device_id := 0\<rparr>"

text \<open>\<open>FastStrCopy(dev->name, name, 31)\<close> keeps at most 30 bytes of the name.\<close>

definition BlockDeviceRegister ::
  "BlockDeviceType \<Rightarrow> u32 \<Rightarrow> u64 \<Rightarrow> u8 list \<Rightarrow> nat \<Rightarrow> io_func option \<Rightarrow> io_func option \<Rightarrow> block_table \<Rightarrow> nat option \<times> block_table" where
  "BlockDeviceRegister type bsize nblocks name ddata rd wr t =
     (if g_next_device_id t \<ge> MAX_BLOCK_DEVICES then (None, t)
      else let i = g_next_device_id t;
               dev = \<lparr>dev_id = i, dev_active = True, dev_type = type, dev_block_size = bsize, total_blocks = nblocks,
                      dev_name = take 30 name, driver_data = ddata, dev_parent = None, lba_offset = 0,
                      read_blocks = rd, write_blocks = wr\<rparr>
           in (Some i, t\<lparr>g_block_devices := (g_block_devices t)(i := dev), g_next_device_id := i + 1\<rparr>))"

definition BlockDeviceGet :: "int \<Rightarrow> block_table \<Rightarrow> nat option" where
  "BlockDeviceGet i t =
     (if i < 0 \<or> i \<ge> int (g_next_device_id t) \<or> \<not> dev_active (g_block_devices t (nat i)) then None else Some (nat i))"

text \<open>
  \<open>dev_io\<close> is a call of a device's I/O function: of the driver's own, or of the one for partitions
  (\<open>PartitionReadBlocks\<close>, \<open>PartitionWriteBlocks\<close> in \<open>MBR.c\<close>), which passes the request to the parent.
  \<open>sel\<close> selects the read or the write pointer.  \<open>None\<close> is a call through a null pointer, or a chain of
  parents that never ends.
\<close>

partial_function (option) dev_io ::
  "(nat \<Rightarrow> BlockDevice \<Rightarrow> u64 \<Rightarrow> u32 \<Rightarrow> 'w \<Rightarrow> 'r \<times> 'w) \<Rightarrow> 'r \<Rightarrow> (BlockDevice \<Rightarrow> io_func option) \<Rightarrow> block_table
     \<Rightarrow> io_func \<Rightarrow> nat \<Rightarrow> u64 \<Rightarrow> u32 \<Rightarrow> 'w \<Rightarrow> ('r \<times> 'w) option" where
  "dev_io drv err sel t f i lba count w =
     (let dev = g_block_devices t i in
      case f of
        DriverFunc k \<Rightarrow> Some (drv k dev lba count w)
      | PartitionFunc \<Rightarrow>
          (case dev_parent dev of
             None \<Rightarrow> Some (err, w)
           | Some p \<Rightarrow>
               (case sel (g_block_devices t p) of
                  None \<Rightarrow> None
                | Some g \<Rightarrow> dev_io drv err sel t g p (lba_offset dev + lba) count w)))"

definition BlockDeviceRead ::
  "(nat \<Rightarrow> BlockDevice \<Rightarrow> u64 \<Rightarrow> u32 \<Rightarrow> 'w \<Rightarrow> (int \<times> u8 list) \<times> 'w) \<Rightarrow> int \<Rightarrow> u64 \<Rightarrow> u32 \<Rightarrow> block_table \<Rightarrow> 'w
     \<Rightarrow> ((int \<times> u8 list) \<times> 'w) option" where
  "BlockDeviceRead drv device_id start_lba count t w =
     (case BlockDeviceGet device_id t of
        None \<Rightarrow> Some ((-1, []), w)
      | Some i \<Rightarrow>
          (case read_blocks (g_block_devices t i) of
             None \<Rightarrow> Some ((-1, []), w)
           | Some f \<Rightarrow> dev_io drv (-1, []) read_blocks t f i start_lba count w))"

definition BlockDeviceWrite ::
  "(nat \<Rightarrow> BlockDevice \<Rightarrow> u64 \<Rightarrow> u32 \<Rightarrow> 'w \<Rightarrow> int \<times> 'w) \<Rightarrow> int \<Rightarrow> u64 \<Rightarrow> u32 \<Rightarrow> block_table \<Rightarrow> 'w \<Rightarrow> (int \<times> 'w) option" where
  "BlockDeviceWrite drv device_id start_lba count t w =
     (case BlockDeviceGet device_id t of
        None \<Rightarrow> Some (-1, w)
      | Some i \<Rightarrow>
          (case write_blocks (g_block_devices t i) of
             None \<Rightarrow> Some (-1, w)
           | Some f \<Rightarrow> dev_io drv (-1) write_blocks t f i start_lba count w))"

definition SearchBlockDevice :: "u8 list \<Rightarrow> block_table \<Rightarrow> nat option" where
  "SearchBlockDevice name t = List.find (\<lambda>i. dev_name (g_block_devices t i) = name) [0..<g_next_device_id t]"

section \<open>MBR.c\<close>

definition MBR_PARTITION_COUNT :: nat where "MBR_PARTITION_COUNT = 4"

record MBRPartitionEntry =
  part_status :: u8
  chs_start :: "u8 list"
  part_type :: u8
  chs_end :: "u8 list"
  lba_start :: u32
  num_sectors :: u32

text \<open>Fields of the packed structures at their offsets; reading behind the buffer is a fault.\<close>

definition le32_at :: "u8 list \<Rightarrow> nat \<Rightarrow> u32" where
  "le32_at b o' = ucast (b ! o') OR push_bit 8 (ucast (b ! (o' + 1))) OR push_bit 16 (ucast (b ! (o' + 2))) OR push_bit 24 (ucast (b ! (o' + 3)))"

definition partition_entry :: "u8 list \<Rightarrow> nat \<Rightarrow> MBRPartitionEntry" where
  "partition_entry mbr i =
     (let o' = 446 + 16 * i
      in \<lparr>part_status = mbr ! o', chs_start = take 3 (drop (o' + 1) mbr), part_type = mbr ! (o' + 4),
          chs_end = take 3 (drop (o' + 5) mbr), lba_start = le32_at mbr (o' + 8), num_sectors = le32_at mbr (o' + 12)\<rparr>)"

definition boot_signature :: "u8 list \<Rightarrow> u16" where
  "boot_signature mbr = ucast (mbr ! 510) OR push_bit 8 (ucast (mbr ! 511))"

text \<open>\<open>snprintf(part_name, 32, "%s-p%d", device->name, i + 1)\<close>\<close>

definition part_name :: "u8 list \<Rightarrow> nat \<Rightarrow> u8 list option" where
  "part_name name i =
     map_option (\<lambda>(n, out). take n out)
       (snprintf True 32 [0x25, 0x73, 0x2d, 0x70, 0x25, 0x64] [Str (Some name), Num (word_of_nat (i + 1))])"

definition register_partition :: "nat \<Rightarrow> u8 list \<Rightarrow> nat \<Rightarrow> block_table \<Rightarrow> block_table option" where
  "register_partition d mbr i t =
     (let p = partition_entry mbr i; device = g_block_devices t d in
      if part_type p \<noteq> 0 \<and> num_sectors p > 0
      then (case part_name (dev_name device) i of
              None \<Rightarrow> None
            | Some name \<Rightarrow>
                (case BlockDeviceRegister DEVICE_TYPE_PARTITION (dev_block_size device) (ucast (num_sectors p)) name 0
                        (Some PartitionFunc) (Some PartitionFunc) t of
                   (Some j, t) \<Rightarrow>
                     Some (t\<lparr>g_block_devices := (g_block_devices t)(j :=
                       (g_block_devices t j)\<lparr>dev_parent := Some d, lba_offset := ucast (lba_start p)\<rparr>)\<rparr>)
                 | (None, t) \<Rightarrow> Some t))
      else Some t)"

fun register_partitions :: "nat \<Rightarrow> u8 list \<Rightarrow> nat list \<Rightarrow> block_table \<Rightarrow> block_table option" where
  "register_partitions d mbr [] t = Some t"
| "register_partitions d mbr (i # is) t =
     (case register_partition d mbr i t of None \<Rightarrow> None | Some t \<Rightarrow> register_partitions d mbr is t)"

definition ParseMBR ::
  "(nat \<Rightarrow> BlockDevice \<Rightarrow> u64 \<Rightarrow> u32 \<Rightarrow> 'w \<Rightarrow> (int \<times> u8 list) \<times> 'w) \<Rightarrow> bool \<Rightarrow> nat \<Rightarrow> block_table \<Rightarrow> 'w \<Rightarrow> (block_table \<times> 'w) option" where
  "ParseMBR drv alloc_ok d t w =
     (if \<not> alloc_ok then Some (t, w)
      else case BlockDeviceRead drv (int (dev_id (g_block_devices t d))) 0 1 t w of
             None \<Rightarrow> None
           | Some ((rc, mbr), w) \<Rightarrow>
               if rc \<noteq> 0 then Some (t, w)
               else if length mbr < 512 then None
               else if boot_signature mbr \<noteq> 0xAA55 then Some (t, w)
               else map_option (\<lambda>t. (t, w)) (register_partitions d mbr [0..<MBR_PARTITION_COUNT] t))"

definition BlockDeviceDetectAndRegisterPartitions ::
  "(nat \<Rightarrow> BlockDevice \<Rightarrow> u64 \<Rightarrow> u32 \<Rightarrow> 'w \<Rightarrow> (int \<times> u8 list) \<times> 'w) \<Rightarrow> bool \<Rightarrow> nat option \<Rightarrow> block_table \<Rightarrow> 'w \<Rightarrow> (block_table \<times> 'w) option" where
  "BlockDeviceDetectAndRegisterPartitions drv alloc_ok drive t w =
     (case drive of
        None \<Rightarrow> Some (t, w)
      | Some d \<Rightarrow> if dev_type (g_block_devices t d) = DEVICE_TYPE_PARTITION then Some (t, w) else ParseMBR drv alloc_ok d t w)"

section \<open>DriveNaming.c\<close>

record drive_counts =
  ide_count :: nat
  ahci_count :: nat
  nvme_count :: nat
  virtio_count :: nat

definition name_text :: "u8 list \<Rightarrow> nat \<Rightarrow> u8 list option" where
  "name_text fmt n = map_option (\<lambda>(n, out). take n out) (snprintf True 16 fmt [Num (word_of_nat n)])"

definition GenerateDriveNameInto :: "BlockDeviceType \<Rightarrow> drive_counts \<Rightarrow> (u8 list \<times> drive_counts) option" where
  "GenerateDriveNameInto type c =
     (case type of
        DEVICE_TYPE_IDE \<Rightarrow>
          map_option (\<lambda>s. (s, c\<lparr>ide_count := ide_count c + 1\<rparr>)) (name_text [0x68, 0x64, 0x25, 0x63] (0x61 + ide_count c))
      | DEVICE_TYPE_AHCI \<Rightarrow>
          map_option (\<lambda>s. (s, c\<lparr>ahci_count := ahci_count c + 1\<rparr>)) (name_text [0x73, 0x64, 0x25, 0x63] (0x61 + ahci_count c))
      | DEVICE_TYPE_NVME \<Rightarrow>
          map_option (\<lambda>s. (s, c\<lparr>nvme_count := nvme_count c + 1\<rparr>)) (name_text [0x6e, 0x76, 0x6d, 0x65, 0x25, 0x64] (nvme_count c))
      | DEVICE_TYPE_VIRTIO \<Rightarrow>
          map_option (\<lambda>s. (s, c\<lparr>virtio_count := virtio_count c + 1\<rparr>)) (name_text [0x76, 0x64, 0x25, 0x63] (0x61 + virtio_count c))
      | _ \<Rightarrow> map_option (\<lambda>s. (s, c)) (name_text [0x75, 0x6e, 0x6b, 0x25, 0x64] 0))"

section \<open>CharDevice.c and DevFS.c\<close>

record CharDevice =
  char_name :: "u8 list"
  char_read :: "nat option"
  char_write :: "nat option"

definition MAX_CHAR_DEVICES :: nat where "MAX_CHAR_DEVICES = 32"

type_synonym char_table = "CharDevice option list"

definition CharDeviceInit :: "char_table \<Rightarrow> char_table" where
  "CharDeviceInit t = []"

definition CharDeviceRegister :: "CharDevice option \<Rightarrow> char_table \<Rightarrow> int \<times> char_table" where
  "CharDeviceRegister device t = (if length t \<ge> MAX_CHAR_DEVICES then (-1, t) else (0, t @ [device]))"

fun CharDeviceFind :: "u8 list \<Rightarrow> char_table \<Rightarrow> CharDevice option option" where
  "CharDeviceFind name [] = Some None"
| "CharDeviceFind name (d # ds) =
     (case d of
        None \<Rightarrow> None
      | Some dev \<Rightarrow> if char_name dev = name then Some (Some dev) else CharDeviceFind name ds)"

definition CharDeviceGet :: "int \<Rightarrow> char_table \<Rightarrow> CharDevice option" where
  "CharDeviceGet index t = (if index < 0 \<or> index \<ge> int (length t) then None else t ! nat index)"

definition CharDeviceGetCount :: "char_table \<Rightarrow> nat" where
  "CharDeviceGetCount t = length t"

definition DevfsReadFile ::
  "(nat \<Rightarrow> CharDevice \<Rightarrow> u32 \<Rightarrow> 'w \<Rightarrow> (int \<times> u8 list) \<times> 'w) \<Rightarrow> u8 list \<Rightarrow> u32 \<Rightarrow> char_table \<Rightarrow> 'w \<Rightarrow> ((int \<times> u8 list) \<times> 'w) option" where
  "DevfsReadFile rd path max_size t w =
     (case path of
        [] \<Rightarrow> None
      | _ # name \<Rightarrow>
          (case CharDeviceFind name t of
             None \<Rightarrow> None
           | Some None \<Rightarrow> Some ((-1, []), w)
           | Some (Some dev) \<Rightarrow>
               (case char_read dev of None \<Rightarrow> Some ((-1, []), w) | Some k \<Rightarrow> Some (rd k dev max_size w))))"

definition DevfsWriteFile ::
  "(nat \<Rightarrow> CharDevice \<Rightarrow> u8 list \<Rightarrow> 'w \<Rightarrow> int \<times> 'w) \<Rightarrow> u8 list \<Rightarrow> u8 list \<Rightarrow> char_table \<Rightarrow> 'w \<Rightarrow> (int \<times> 'w) option" where
  "DevfsWriteFile wr path buffer t w =
     (case path of
        [] \<Rightarrow> None
      | _ # name \<Rightarrow>
          (case CharDeviceFind name t of
             None \<Rightarrow> None
           | Some None \<Rightarrow> Some (-1, w)
           | Some (Some dev) \<Rightarrow>
               (case char_write dev of None \<Rightarrow> Some (-1, w) | Some k \<Rightarrow> Some (wr k dev buffer w))))"

text \<open>The result of \<open>DevfsListDir\<close> with the names it prints.\<close>

definition DevfsListDir :: "u8 list \<Rightarrow> char_table \<Rightarrow> int \<times> u8 list list" where
  "DevfsListDir path t =
     (if path \<noteq> [0x2f] then (-1, [])
      else (0, concat (map (\<lambda>i. case CharDeviceGet (int i) t of None \<Rightarrow> [] | Some dev \<Rightarrow> [char_name dev])
             [0..<CharDeviceGetCount t])))"

definition DevfsIsDir :: "u8 list \<Rightarrow> int" where
  "DevfsIsDir path = (if path = [0x2f] then 1 else 0)"

definition DevfsMount :: "nat option \<Rightarrow> u8 list \<Rightarrow> int" where
  "DevfsMount device mount_point = 0"

section \<open>Random.c\<close>

text \<open>
  \<open>RandomDevRead\<close> writes a buffer of \<open>sz\<close> bytes; the result is the list of writes (position, byte), in
  order.  The counter is 32 bits wide, and a loop that does not end is \<open>None\<close>.  \<open>rdrand\<close> is the stream
  of values the instruction delivers.
\<close>

partial_function (option) rdrand_loop ::
  "u32 \<Rightarrow> u32 \<Rightarrow> (nat \<Rightarrow> u16) \<Rightarrow> nat \<Rightarrow> (u32 \<times> u8) list \<Rightarrow> ((u32 \<times> u8) list \<times> nat) option" where
  "rdrand_loop sz i rdrand n buf =
     (if i < sz
      then let r = rdrand n;
               buf = buf @ [(i, ucast (r AND 0xFF))];
               buf = (if i + 1 < sz then buf @ [(i + 1, ucast (drop_bit 8 r AND 0xFF))] else buf)
           in rdrand_loop sz (i + 2) rdrand (n + 1) buf
      else Some (buf, n))"

fun split_bytes :: "u32 \<Rightarrow> u32 \<Rightarrow> u64 \<Rightarrow> nat \<Rightarrow> nat \<Rightarrow> (u32 \<times> u8) list" where
  "split_bytes sz i r j 0 = []"
| "split_bytes sz i r j (Suc k) =
     (if i + word_of_nat j < sz
      then (i + word_of_nat j, ucast (drop_bit (j * 8) r AND 0xFF)) # split_bytes sz i r (j + 1) k
      else [])"

partial_function (option) xoroshiro_loop :: "u32 \<Rightarrow> u32 \<Rightarrow> rng \<Rightarrow> (u32 \<times> u8) list \<Rightarrow> ((u32 \<times> u8) list \<times> rng) option" where
  "xoroshiro_loop sz i s buf =
     (if i < sz
      then let (r, s) = xoroshiro128plus s in xoroshiro_loop sz (i + 8) s (buf @ split_bytes sz i r 0 8)
      else Some (buf, s))"


text \<open>The bytes in the order they are stored, and the generators after the call.\<close>

definition RandomDevRead :: "bool \<Rightarrow> (nat \<Rightarrow> u16) \<Rightarrow> u32 \<Rightarrow> nat \<times> rng \<Rightarrow> ((u32 \<times> u8) list \<times> u32 \<times> nat \<times> rng) option" where
  "RandomDevRead rdrand_supported rdrand sz g =
     (if rdrand_supported
      then map_option (\<lambda>(buf, n). (buf, sz, n, snd g)) (rdrand_loop sz 0 rdrand (fst g) [])
      else map_option (\<lambda>(buf, s). (buf, sz, fst g, s)) (xoroshiro_loop sz 0 (snd g) []))"

definition random_device :: CharDevice where
  "random_device = \<lparr>char_name = [0x52, 0x61, 0x6e, 0x64, 0x6f, 0x6d], char_read = Some 0, char_write = None\<rparr>"

definition RandomInit :: "bool \<Rightarrow> u64 \<Rightarrow> u64 \<Rightarrow> char_table \<Rightarrow> rng \<Rightarrow> char_table \<times> rng" where
  "RandomInit rdrand_supported tsc device_address t s =
     (let s = (if \<not> rdrand_supported then rng_seed tsc (tsc XOR device_address) s else s)
      in (snd (CharDeviceRegister (Some random_device) t), s))"

section \<open>FileSystem.c\<close>

record FileSystemDriver =
  fs_name :: "u8 list"
  fs_funcs :: nat

definition MAX_FILESYSTEM_DRIVERS :: nat where "MAX_FILESYSTEM_DRIVERS = 8"

type_synonym fs_table = "FileSystemDriver list"

definition FileSystemInit :: "fs_table \<Rightarrow> fs_table" where
  "FileSystemInit t = []"

definition FileSystemRegister :: "FileSystemDriver \<Rightarrow> fs_table \<Rightarrow> int \<times> fs_table" where
  "FileSystemRegister driver t = (if length t \<ge> MAX_FILESYSTEM_DRIVERS then (-1, t) else (0, t @ [driver]))"

text \<open>\<open>snprintf(mount_point, 64, "%s/%s", RuntimeMounts, dev->name)\<close>, with \<open>RuntimeMounts = "/Runtime/Mounts"\<close>\<close>

definition RuntimeMounts :: "u8 list" where
  "RuntimeMounts = [0x2f, 0x52, 0x75, 0x6e, 0x74, 0x69, 0x6d, 0x65, 0x2f, 0x4d, 0x6f, 0x75, 0x6e, 0x74, 0x73]"

definition mount_point_of :: "u8 list \<Rightarrow> u8 list option" where
  "mount_point_of name =
     map_option (\<lambda>(n, out). take n out)
       (snprintf True 64 [0x25, 0x73, 0x2f, 0x25, 0x73] [Str (Some RuntimeMounts), Str (Some name)])"

text \<open>
  The scan for one device: the drivers are asked in the order of their registration, the first that
  detects its file system mounts it and ends the scan.  \<open>detect\<close> and \<open>mount\<close> are the drivers' functions.
\<close>

fun try_drivers ::
  "(FileSystemDriver \<Rightarrow> nat \<Rightarrow> 'w \<Rightarrow> bool \<times> 'w) \<Rightarrow> (FileSystemDriver \<Rightarrow> nat \<Rightarrow> u8 list \<Rightarrow> 'w \<Rightarrow> int \<times> 'w) \<Rightarrow> nat \<Rightarrow> u8 list
     \<Rightarrow> fs_table \<Rightarrow> 'w \<Rightarrow> (nat \<times> 'w) option" where
  "try_drivers detect mount i name [] w = Some (0, w)"
| "try_drivers detect mount i name (driver # ds) w =
     (case detect driver i w of
        (True, w) \<Rightarrow>
          (case mount_point_of name of
             None \<Rightarrow> None
           | Some mp \<Rightarrow> (case mount driver i mp w of (rc, w) \<Rightarrow> Some (if rc = 0 then 1 else 0, w)))
      | (False, w) \<Rightarrow> try_drivers detect mount i name ds w)"

fun mount_devices ::
  "(FileSystemDriver \<Rightarrow> nat \<Rightarrow> 'w \<Rightarrow> bool \<times> 'w) \<Rightarrow> (FileSystemDriver \<Rightarrow> nat \<Rightarrow> u8 list \<Rightarrow> 'w \<Rightarrow> int \<times> 'w) \<Rightarrow> block_table
     \<Rightarrow> fs_table \<Rightarrow> nat list \<Rightarrow> nat \<Rightarrow> 'w \<Rightarrow> (nat \<times> 'w) option" where
  "mount_devices detect mount t fs [] mounted w = Some (mounted, w)"
| "mount_devices detect mount t fs (i # is) mounted w =
     (case BlockDeviceGet (int i) t of
        None \<Rightarrow> mount_devices detect mount t fs is mounted w
      | Some d \<Rightarrow>
          (case try_drivers detect mount d (dev_name (g_block_devices t d)) fs w of
             None \<Rightarrow> None
           | Some (m, w) \<Rightarrow> mount_devices detect mount t fs is (mounted + m) w))"

definition FileSystemAutoMount ::
  "(FileSystemDriver \<Rightarrow> nat \<Rightarrow> 'w \<Rightarrow> bool \<times> 'w) \<Rightarrow> (FileSystemDriver \<Rightarrow> nat \<Rightarrow> u8 list \<Rightarrow> 'w \<Rightarrow> int \<times> 'w) \<Rightarrow> block_table
     \<Rightarrow> fs_table \<Rightarrow> 'w \<Rightarrow> (nat \<times> 'w) option" where
  "FileSystemAutoMount detect mount t fs w =
     (if \<forall>i \<in> set [0..<MAX_BLOCK_DEVICES]. BlockDeviceGet (int i) t = None then Some (0, w)
      else mount_devices detect mount t fs [0..<MAX_BLOCK_DEVICES] 0 w)"

section \<open>Partitions\<close>

lemma take_printed: "take (min k (length s)) (take k s @ [z]) = take k s"
  by (simp add: min_def)

lemma part_name_text:
  assumes "i + 1 < 2 ^ 31"
  shows "part_name name i = Some (take 31 (name @ [0x2d, 0x70] @ decimal (i + 1)))"
proof -
  have "prints (int 31) [0x25, 0x73, 0x2d, 0x70, 0x25, 0x64] [Str (Some name), Num (word_of_nat (i + 1))]
      (name @ 0x2d # 0x70 # decimal (i + 1) @ [])"
    by (intro prints_string prints_char prints_int prints_Nil assms) simp_all
  from snprintf_prints [OF this]
  have "snprintf True 32 [0x25, 0x73, 0x2d, 0x70, 0x25, 0x64] [Str (Some name), Num (word_of_nat (i + 1))]
      = Some (min 31 (length (name @ [0x2d, 0x70] @ decimal (i + 1))), take 31 (name @ [0x2d, 0x70] @ decimal (i + 1)) @ [0])"
    by (simp del: of_nat_add)
  then show ?thesis unfolding part_name_def by (simp only: option.map prod.case take_printed)
qed

definition partition_used :: "u8 list \<Rightarrow> nat \<Rightarrow> bool" where
  "partition_used mbr i \<longleftrightarrow> part_type (partition_entry mbr i) \<noteq> 0 \<and> num_sectors (partition_entry mbr i) > 0"

definition partition_device :: "BlockDevice \<Rightarrow> nat \<Rightarrow> u8 list \<Rightarrow> nat \<Rightarrow> nat \<Rightarrow> BlockDevice" where
  "partition_device drive d mbr i slot =
     \<lparr>dev_id = slot, dev_active = True, dev_type = DEVICE_TYPE_PARTITION, dev_block_size = dev_block_size drive,
      total_blocks = ucast (num_sectors (partition_entry mbr i)),
      dev_name = take 30 (dev_name drive @ [0x2d, 0x70] @ decimal (i + 1)), driver_data = 0, dev_parent = Some d,
      lba_offset = ucast (lba_start (partition_entry mbr i)),
      read_blocks = Some PartitionFunc, write_blocks = Some PartitionFunc\<rparr>"

lemma register_partition_run:
  assumes "i + 1 < 2 ^ 31"
  shows "register_partition d mbr i t =
    Some (if partition_used mbr i \<and> g_next_device_id t < MAX_BLOCK_DEVICES
      then t\<lparr>g_block_devices := (g_block_devices t)(g_next_device_id t :=
               partition_device (g_block_devices t d) d mbr i (g_next_device_id t)),
             g_next_device_id := g_next_device_id t + 1\<rparr>
      else t)"
  using part_name_text [OF assms, of "dev_name (g_block_devices t d)"]
  by (simp add: register_partition_def BlockDeviceRegister_def partition_used_def partition_device_def Let_def min_def)

text \<open>The partitions in use get the next slots, in order, as long as there are slots.\<close>

lemma register_partitions_run:
  assumes "\<forall>i \<in> set is. i + 1 < 2 ^ 31" "d < g_next_device_id t" "g_next_device_id t \<le> MAX_BLOCK_DEVICES"
    and ps: "ps = filter (partition_used mbr) is" and n: "n = min (MAX_BLOCK_DEVICES - g_next_device_id t) (length ps)"
  shows "\<exists>t'. register_partitions d mbr is t = Some t' \<and> g_next_device_id t' = g_next_device_id t + n
    \<and> (\<forall>j. g_block_devices t' j =
         (if g_next_device_id t \<le> j \<and> j < g_next_device_id t + n
          then partition_device (g_block_devices t d) d mbr (ps ! (j - g_next_device_id t)) j
          else g_block_devices t j))"
  using assms(1-3) unfolding n ps
proof (induction "is" arbitrary: t)
  case Nil
  then show ?case by auto
next
  case (Cons i "is")
  have i: "i + 1 < 2 ^ 31" using Cons.prems(1) by simp
  show ?case
  proof (cases "partition_used mbr i \<and> g_next_device_id t < MAX_BLOCK_DEVICES")
    case False
    then have "register_partition d mbr i t = Some t" using register_partition_run [OF i] by auto
    moreover have "partition_used mbr i \<Longrightarrow> MAX_BLOCK_DEVICES - g_next_device_id t = 0" using False by simp
    ultimately show ?thesis using Cons.IH [of t] Cons.prems by (cases "partition_used mbr i") auto
  next
    case True
    let ?n = "g_next_device_id t"
    let ?t = "t\<lparr>g_block_devices := (g_block_devices t)(?n := partition_device (g_block_devices t d) d mbr i ?n),
      g_next_device_id := ?n + 1\<rparr>"
    let ?ps = "filter (partition_used mbr) is"
    have r: "register_partition d mbr i t = Some ?t" using True register_partition_run [OF i] by simp
    have "d < g_next_device_id ?t" "g_next_device_id ?t \<le> MAX_BLOCK_DEVICES" using Cons.prems True by simp_all
    from Cons.IH [OF _ this] Cons.prems(1)
    obtain t' where t': "register_partitions d mbr is ?t = Some t'"
        "g_next_device_id t' = ?n + 1 + min (MAX_BLOCK_DEVICES - (?n + 1)) (length ?ps)"
        "\<And>j. g_block_devices t' j = (if ?n + 1 \<le> j \<and> j < ?n + 1 + min (MAX_BLOCK_DEVICES - (?n + 1)) (length ?ps)
           then partition_device (g_block_devices ?t d) d mbr (?ps ! (j - (?n + 1))) j else g_block_devices ?t j)"
      by auto
    have dd: "g_block_devices ?t d = g_block_devices t d" using Cons.prems(2) by simp
    have m: "min (MAX_BLOCK_DEVICES - ?n) (Suc (length ?ps)) = Suc (min (MAX_BLOCK_DEVICES - (?n + 1)) (length ?ps))"
      using True by auto
    have "g_block_devices t' j =
        (if ?n \<le> j \<and> j < ?n + Suc (min (MAX_BLOCK_DEVICES - (?n + 1)) (length ?ps))
         then partition_device (g_block_devices t d) d mbr ((i # ?ps) ! (j - ?n)) j else g_block_devices t j)" for j
      unfolding t'(3) dd by (cases "j = ?n") (auto simp: nth_Cons')
    then show ?thesis using True r t'(1,2) m by simp
  qed
qed

lemma BlockDeviceGet_active:
  "i < g_next_device_id t \<Longrightarrow> dev_active (g_block_devices t i) \<Longrightarrow> BlockDeviceGet (int i) t = Some i"
  by (simp add: BlockDeviceGet_def)

lemma driver_read:
  assumes "i < g_next_device_id t" "dev_active (g_block_devices t i)" "read_blocks (g_block_devices t i) = Some (DriverFunc k)"
  shows "BlockDeviceRead drv (int i) lba count t w = Some (drv k (g_block_devices t i) lba count w)"
  using assms by (simp add: BlockDeviceRead_def BlockDeviceGet_active dev_io.simps)

lemma partition_read:
  assumes "j < g_next_device_id t" "g_block_devices t j = partition_device drive d mbr i j"
    and "read_blocks (g_block_devices t d) = Some (DriverFunc k)"
  shows "BlockDeviceRead drv (int j) lba count t w
    = Some (drv k (g_block_devices t d) (ucast (lba_start (partition_entry mbr i)) + lba) count w)"
proof -
  have "BlockDeviceGet (int j) t = Some j" using assms(1,2) by (intro BlockDeviceGet_active) (simp_all add: partition_device_def)
  moreover have "dev_io drv (-1, []) read_blocks t PartitionFunc j lba count w
      = Some (drv k (g_block_devices t d) (ucast (lba_start (partition_entry mbr i)) + lba) count w)"
    using assms(2,3) by (subst dev_io.simps, subst dev_io.simps) (simp add: partition_device_def)
  ultimately show ?thesis using assms(2) by (simp add: BlockDeviceRead_def partition_device_def)
qed

text \<open>
  C32: Scanning a drive whose sector 0 is a valid boot record registers a device for each entry in use,
  in order, while there are free slots, and changes no other device; the device carries the size of
  the partition, and reading its block \<open>lba\<close> reads block \<open>lba_start + lba\<close> of the drive.
\<close>

theorem ParseMBR_partitions:
  assumes "d < g_next_device_id t" "g_next_device_id t \<le> MAX_BLOCK_DEVICES"
    and "dev_id (g_block_devices t d) = d" "dev_active (g_block_devices t d)"
    and rd: "read_blocks (g_block_devices t d) = Some (DriverFunc k)"
    and "drv k (g_block_devices t d) 0 1 w = ((0, mbr), w')" "512 \<le> length mbr" "boot_signature mbr = 0xAA55"
    and ps: "ps = filter (partition_used mbr) [0..<4]" and n: "n = min (MAX_BLOCK_DEVICES - g_next_device_id t) (length ps)"
  shows "\<exists>t'. ParseMBR drv True d t w = Some (t', w') \<and> g_next_device_id t' = g_next_device_id t + n
    \<and> (\<forall>j < g_next_device_id t. g_block_devices t' j = g_block_devices t j)
    \<and> (\<forall>m < n. total_blocks (g_block_devices t' (g_next_device_id t + m)) = ucast (num_sectors (partition_entry mbr (ps ! m)))
         \<and> (\<forall>lba count v. BlockDeviceRead drv (int (g_next_device_id t + m)) lba count t' v
              = Some (drv k (g_block_devices t d) (ucast (lba_start (partition_entry mbr (ps ! m))) + lba) count v)))"
proof -
  have "\<forall>i \<in> set [0..<4]. i + 1 < 2 ^ 31" by simp
  from register_partitions_run [OF this assms(1,2) ps n]
  obtain t' where t': "register_partitions d mbr [0..<4] t = Some t'" "g_next_device_id t' = g_next_device_id t + n"
      "\<And>j. g_block_devices t' j =
         (if g_next_device_id t \<le> j \<and> j < g_next_device_id t + n
          then partition_device (g_block_devices t d) d mbr (ps ! (j - g_next_device_id t)) j
          else g_block_devices t j)"
    by blast
  have "BlockDeviceRead drv (int d) 0 1 t w = Some ((0, mbr), w')"
    using driver_read [OF assms(1,4) rd, of drv 0 1 w] assms(6) by simp
  then have "ParseMBR drv True d t w = Some (t', w')"
    using assms(3,7,8) t'(1) by (simp add: ParseMBR_def MBR_PARTITION_COUNT_def)
  moreover have "g_block_devices t' (g_next_device_id t + m) = partition_device (g_block_devices t d) d mbr (ps ! m) (g_next_device_id t + m)"
    if "m < n" for m
    using that by (simp add: t'(3))
  moreover from this have "BlockDeviceRead drv (int (g_next_device_id t + m)) lba count t' v
      = Some (drv k (g_block_devices t d) (ucast (lba_start (partition_entry mbr (ps ! m))) + lba) count v)"
    if "m < n" for m lba count v
    using partition_read [of "g_next_device_id t + m" t' "g_block_devices t d" d mbr "ps ! m" k drv lba count v] that t'(2)
      assms(1) rd t'(3) [of d] by simp
  ultimately show ?thesis
    using t'(2) by (intro exI [of _ t']) (simp add: t'(3) partition_device_def)
qed

section \<open>Requests end\<close>

text \<open>
  The shape every sequence of registrations gives the table: slots in use are active and carry their
  number, and a partition lies on a device registered before it that can be read.
\<close>

definition table_ok :: "block_table \<Rightarrow> bool" where
  "table_ok t \<longleftrightarrow> g_next_device_id t \<le> MAX_BLOCK_DEVICES
     \<and> (\<forall>i < g_next_device_id t. dev_id (g_block_devices t i) = i \<and> dev_active (g_block_devices t i)
          \<and> (\<forall>p. dev_parent (g_block_devices t i) = Some p \<longrightarrow> p < i \<and> read_blocks (g_block_devices t p) \<noteq> None))"

lemma table_ok_init: "table_ok (BlockDeviceInit t)"
  by (simp add: table_ok_def BlockDeviceInit_def)

lemma table_ok_register:
  assumes "table_ok t" "BlockDeviceRegister type bs n name dd rd wr t = (r, t')"
  shows "table_ok t'"
  using assms by (auto simp: table_ok_def BlockDeviceRegister_def Let_def less_Suc_eq split: if_splits)

lemma table_ok_partitions:
  assumes "table_ok t" "d < g_next_device_id t" "read_blocks (g_block_devices t d) \<noteq> None" "\<forall>i \<in> set is. i + 1 < 2 ^ 31"
    and "register_partitions d mbr is t = Some t'"
  shows "table_ok t'"
  using assms
proof (induction "is" arbitrary: t)
  case (Cons i "is")
  have i: "i + 1 < 2 ^ 31" using Cons.prems(4) by simp
  obtain t1 where t1: "register_partition d mbr i t = Some t1" "register_partitions d mbr is t1 = Some t'"
    using Cons.prems(5) by (auto split: option.splits)
  have "table_ok t1 \<and> d < g_next_device_id t1 \<and> read_blocks (g_block_devices t1 d) \<noteq> None"
    using t1(1) Cons.prems(1-3) unfolding register_partition_run [OF i]
    by (auto simp: table_ok_def partition_device_def less_Suc_eq split: if_splits)
  then show ?case using Cons.IH [of t1] t1(2) Cons.prems(4) by simp
qed simp

lemma dev_io_returns:
  assumes "table_ok t"
  shows "i < g_next_device_id t \<Longrightarrow> \<exists>r. dev_io drv err read_blocks t f i lba count w = Some r"
proof (induction i arbitrary: f lba rule: less_induct)
  case (less i)
  show ?case
  proof (cases f)
    case PartitionFunc
    show ?thesis
    proof (cases "dev_parent (g_block_devices t i)")
      case (Some p)
      then have "p < i" "read_blocks (g_block_devices t p) \<noteq> None" using assms less.prems by (auto simp: table_ok_def)
      then show ?thesis
        using less.IH [of p] less.prems Some PartitionFunc by (subst dev_io.simps) (auto split: option.split)
    qed (simp add: dev_io.simps PartitionFunc)
  qed (simp add: dev_io.simps)
qed

section \<open>The random device\<close>

lemma unat_plus32: "unat i + k < 2 ^ 32 \<Longrightarrow> unat (i + word_of_nat k :: u32) = unat i + k"
  by (simp add: unat_word_ariths unsigned_of_nat take_bit_eq_mod)

lemma upt_block: "a < b \<Longrightarrow> [a..<min b (a + k)] @ [a + k..<b] = [a..<b]"
proof (cases "a + k \<le> b")
  case True
  then show ?thesis using upt_add_eq_append [of a "a + k" "b - (a + k)"] by (simp add: min_def)
qed (simp add: min_def)

lemma split_bytes_positions:
  assumes "unat i + j + k < 2 ^ 32"
  shows "map fst (split_bytes sz i r j k) = map word_of_nat [unat i + j..<min (unat sz) (unat i + j + k)]"
  using assms
proof (induction k arbitrary: j)
  case (Suc k)
  have j: "unat (i + word_of_nat j) = unat i + j" using Suc.prems by (intro unat_plus32) simp
  then have w: "i + word_of_nat j = word_of_nat (unat i + j)" by (simp add: of_nat_add)
  show ?case
  proof (cases "i + word_of_nat j < sz")
    case True
    then have lt: "unat i + j < min (unat sz) (unat i + j + Suc k)" using j by (simp add: word_less_nat_alt)
    have e: "[unat i + j..<min (unat sz) (unat i + j + Suc k)] = (unat i + j) # [unat i + (j + 1)..<min (unat sz) (unat i + (j + 1) + k)]"
      unfolding upt_conv_Cons [OF lt] by simp
    have "map fst (split_bytes sz i r j (Suc k)) = (i + word_of_nat j) # map fst (split_bytes sz i r (j + 1) k)"
      using True by simp
    also have "map fst (split_bytes sz i r (j + 1) k) = map word_of_nat [unat i + (j + 1)..<min (unat sz) (unat i + (j + 1) + k)]"
      using Suc.prems by (intro Suc.IH) simp
    finally show ?thesis unfolding e w by (simp only: list.map)
  next
    case False
    then have "unat sz \<le> unat i + j" using j by (simp add: word_less_nat_alt)
    then show ?thesis using False by simp
  qed
qed simp

lemma xoroshiro_loop_fills:
  assumes "unat sz \<le> 2 ^ 32 - 8"
  shows "\<exists>out s'. xoroshiro_loop sz i s buf = Some (buf @ out, s') \<and> map fst out = map word_of_nat [unat i..<unat sz]"
proof (induction "unat sz - unat i" arbitrary: i s buf rule: less_induct)
  case less
  show ?case
  proof (cases "i < sz")
    case True
    obtain r s1 where r: "xoroshiro128plus s = (r, s1)" by (cases "xoroshiro128plus s")
    have i: "unat i < unat sz" using True by (simp add: word_less_nat_alt)
    have i8: "unat (i + 8) = unat i + 8" using unat_plus32 [of i 8] i assms by simp
    have "unat sz - unat (i + 8) < unat sz - unat i" using i i8 by simp
    from less [OF this, of s1 "buf @ split_bytes sz i r 0 8"]
    obtain out s' where out: "xoroshiro_loop sz (i + 8) s1 (buf @ split_bytes sz i r 0 8) = Some ((buf @ split_bytes sz i r 0 8) @ out, s')"
        "map fst out = map word_of_nat [unat (i + 8)..<unat sz]" by blast
    have "map fst (split_bytes sz i r 0 8) = map word_of_nat [unat i..<min (unat sz) (unat i + 8)]"
      using split_bytes_positions [of i 0 8] i assms by simp
    moreover have "[unat i..<min (unat sz) (unat i + 8)] @ [unat i + 8..<unat sz] = [unat i..<unat sz]"
      by (rule upt_block [OF i])
    ultimately have "map fst (split_bytes sz i r 0 8 @ out) = map word_of_nat [unat i..<unat sz]"
      using out(2) i8 by (metis map_append)
    then show ?thesis
      using True r out(1) by (intro exI [of _ "split_bytes sz i r 0 8 @ out"] exI [of _ s']) (simp add: xoroshiro_loop.simps [of sz i])
  next
    case False
    then show ?thesis by (simp add: xoroshiro_loop.simps [of sz i] word_less_nat_alt)
  qed
qed

lemma rdrand_loop_fills:
  assumes "unat sz \<le> 2 ^ 32 - 2"
  shows "\<exists>out n'. rdrand_loop sz i rdrand n buf = Some (buf @ out, n') \<and> map fst out = map word_of_nat [unat i..<unat sz]"
proof (induction "unat sz - unat i" arbitrary: i n buf rule: less_induct)
  case less
  show ?case
  proof (cases "i < sz")
    case True
    define pair where "pair = (i, ucast (rdrand n AND 0xFF) :: u8) # (if i + 1 < sz then [(i + 1, ucast (drop_bit 8 (rdrand n) AND 0xFF))] else [])"
    have i: "unat i < unat sz" using True by (simp add: word_less_nat_alt)
    have i2: "unat (i + 2) = unat i + 2" "unat (i + 1) = unat i + 1"
      using unat_plus32 [of i 2] unat_plus32 [of i 1] i assms by simp_all
    have "unat sz - unat (i + 2) < unat sz - unat i" using i i2 by simp
    from less [OF this, of "n + 1" "buf @ pair"]
    obtain out n' where out: "rdrand_loop sz (i + 2) rdrand (n + 1) (buf @ pair) = Some ((buf @ pair) @ out, n')"
        "map fst out = map word_of_nat [unat (i + 2)..<unat sz]" by blast
    have "map fst pair = map word_of_nat [unat i..<min (unat sz) (unat i + 2)]"
      using i i2(2) by (auto simp: pair_def word_less_nat_alt upt_conv_Cons min_def add.commute)
    moreover have "[unat i..<min (unat sz) (unat i + 2)] @ [unat i + 2..<unat sz] = [unat i..<unat sz]"
      by (rule upt_block [OF i])
    ultimately have "map fst (pair @ out) = map word_of_nat [unat i..<unat sz]"
      using out(2) i2(1) by (metis map_append)
    moreover have "rdrand_loop sz i rdrand n buf = rdrand_loop sz (i + 2) rdrand (n + 1) (buf @ pair)"
      using True by (simp add: rdrand_loop.simps [of sz i] pair_def Let_def)
    ultimately show ?thesis using out(1) by (intro exI [of _ "pair @ out"] exI [of _ n']) simp
  next
    case False
    then show ?thesis by (simp add: rdrand_loop.simps [of sz i] word_less_nat_alt)
  qed
qed

text \<open>
  C34: For every request of at most \<open>2^32 - 8\<close> bytes the random device stores exactly the requested
  positions of the buffer, each once and in order, from either source of randomness.
\<close>

theorem RandomDevRead_fills:
  assumes "unat sz \<le> 2 ^ 32 - 8"
  shows "\<exists>buf g'. RandomDevRead hw rdrand sz g = Some (buf, sz, g') \<and> map fst buf = map word_of_nat [0..<unat sz]"
proof (cases hw)
  case True
  have "unat sz \<le> 2 ^ 32 - 2" using assms by simp
  from rdrand_loop_fills [OF this, of 0 rdrand "fst g" "[]"]
  obtain out n' where "rdrand_loop sz 0 rdrand (fst g) [] = Some (out, n')" "map fst out = map word_of_nat [0..<unat sz]" by auto
  then show ?thesis using True by (simp add: RandomDevRead_def)
next
  case False
  from xoroshiro_loop_fills [OF assms, of 0 "snd g" "[]"]
  obtain out s' where "xoroshiro_loop sz 0 (snd g) [] = Some (out, s')" "map fst out = map word_of_nat [0..<unat sz]" by auto
  then show ?thesis using False by (simp add: RandomDevRead_def)
qed

theorem RandomDevRead_fills_witness:
  "\<exists>buf g'. RandomDevRead False (\<lambda>_. 0) 20 (0, 5, 7) = Some (buf, 20, g') \<and> map fst buf = map word_of_nat [0..<20]"
  using RandomDevRead_fills [of 20 False "\<lambda>_. 0" "(0, 5, 7)"] by simp

lemma xoroshiro_loop_endless:
  assumes run: "xoroshiro_loop sz i s buf = Some r"
  shows "0xFFFFFFF8 < sz \<longrightarrow> \<not> 8 dvd unat i"
proof (rule xoroshiro_loop.raw_induct [OF _ run, where P = "\<lambda>sz i s buf r. 0xFFFFFFF8 < sz \<longrightarrow> \<not> 8 dvd unat i"], intro impI notI)
  fix loop sz i s buf r
  assume IH: "\<And>sz i s buf r. loop sz i s buf = Some r \<Longrightarrow> 0xFFFFFFF8 < sz \<longrightarrow> \<not> 8 dvd unat (i :: u32)"
    and step: "(if i < sz then let (r, s) = xoroshiro128plus s in loop sz (i + 8) s (buf @ split_bytes sz i r 0 8) else Some (buf, s)) = Some r"
    and sz: "0xFFFFFFF8 < sz" and i: "8 dvd unat i"
  obtain q where "unat i = 8 * q" using i by (auto simp: dvd_def)
  moreover have "unat i < 2 ^ 32" using unsigned_less [of i] by simp
  ultimately have "unat i \<le> 0xFFFFFFF8" by simp
  then have "i < sz" using sz by (simp add: word_less_nat_alt)
  moreover have "8 dvd unat (i + 8)"
    using i dvd_mod [of 8 "unat i + 8" "2 ^ 32"] by (simp add: unat_word_ariths)
  ultimately show False using IH step sz by (auto split: prod.splits)
qed

text \<open>
  Without the hardware generator, a request of more than \<open>0xFFFFFFF8\<close> bytes never returns: the
  32-bit counter wraps to 0 before it reaches the size.
\<close>

theorem RandomDevRead_wraps:
  assumes "0xFFFFFFF8 < sz"
  shows "RandomDevRead False rdrand sz g = None"
proof (cases "xoroshiro_loop sz 0 (snd g) []")
  case (Some r)
  then show ?thesis using xoroshiro_loop_endless [OF Some] assms by simp
qed (simp add: RandomDevRead_def)

section \<open>Every table that is built\<close>

inductive built :: "(nat \<Rightarrow> BlockDevice \<Rightarrow> u64 \<Rightarrow> u32 \<Rightarrow> 'w \<Rightarrow> (int \<times> u8 list) \<times> 'w) \<Rightarrow> block_table \<Rightarrow> bool"
  for drv :: "nat \<Rightarrow> BlockDevice \<Rightarrow> u64 \<Rightarrow> u32 \<Rightarrow> 'w \<Rightarrow> (int \<times> u8 list) \<times> 'w" where
  built_init: "built drv (BlockDeviceInit t)"
| built_register: "built drv t \<Longrightarrow> built drv (snd (BlockDeviceRegister type bs n name dd rd wr t))"
| built_scan: "built drv t \<Longrightarrow> d < g_next_device_id t
    \<Longrightarrow> BlockDeviceDetectAndRegisterPartitions drv ok (Some d) t w = Some (t', w') \<Longrightarrow> built drv t'"

lemma table_ok_scan:
  assumes "table_ok t" "d < g_next_device_id t" "BlockDeviceDetectAndRegisterPartitions drv ok (Some d) t w = Some (t', w')"
  shows "table_ok t'"
proof (cases "read_blocks (g_block_devices t d)")
  case None
  have "BlockDeviceGet (int (dev_id (g_block_devices t d))) t = Some d"
    using assms(1,2) BlockDeviceGet_active [of d t] by (simp add: table_ok_def)
  then show ?thesis
    using assms(1,3) None by (simp add: BlockDeviceDetectAndRegisterPartitions_def ParseMBR_def BlockDeviceRead_def split: if_splits)
next
  case (Some f)
  have "t' = t \<or> (\<exists>mbr. register_partitions d mbr [0..<MBR_PARTITION_COUNT] t = Some t')"
    using assms(3) unfolding BlockDeviceDetectAndRegisterPartitions_def ParseMBR_def
    by (auto split: if_splits option.splits)
  then show ?thesis
    using assms(1,2) Some table_ok_partitions [of t d "[0..<MBR_PARTITION_COUNT]" _ t'] by (auto simp: MBR_PARTITION_COUNT_def)
qed

lemma built_ok: "built drv t \<Longrightarrow> table_ok t"
proof (induction rule: built.induct)
  case (built_register t type bs n name dd rd wr)
  then show ?case using table_ok_register by (metis surjective_pairing)
qed (auto intro: table_ok_init table_ok_scan)

text \<open>A disk of one drive, with a boot record whose only entry is a partition of 64 blocks from block 8.\<close>

definition sample_mbr :: "u8 list" where
  "sample_mbr = replicate 450 0 @ [0x83, 0, 0, 0, 8, 0, 0, 0, 64, 0, 0, 0] @ replicate 48 0 @ [0x55, 0xAA]"

definition sample_table :: block_table where
  "sample_table =
     \<lparr>g_block_devices = \<lambda>_. \<lparr>dev_id = 0, dev_active = True, dev_type = DEVICE_TYPE_AHCI, dev_block_size = 512,
        total_blocks = 100, dev_name = [0x73, 0x64, 0x61], driver_data = 0, dev_parent = None, lba_offset = 0,
        read_blocks = Some (DriverFunc 0), write_blocks = None\<rparr>, g_next_device_id = 1\<rparr>"

lemma sample_used: "filter (partition_used sample_mbr) [0..<4] = [0]"
  by code_simp

lemma sample_start: "lba_start (partition_entry sample_mbr 0) = 8"
  by code_simp

definition sample_driver :: "nat \<Rightarrow> BlockDevice \<Rightarrow> u64 \<Rightarrow> u32 \<Rightarrow> unit \<Rightarrow> (int \<times> u8 list) \<times> unit" where
  "sample_driver k dev lba count w = ((0, if lba = 0 then sample_mbr else [ucast lba]), w)"

text \<open>
  C33: On every table that registrations and partition scans build, the slots in use are active and carry
  their own number, and a read request, for any device number and any block, ends with a result: the
  chain of parents is finite and no null pointer is called.
\<close>

theorem BlockDeviceRead_returns:
  assumes "built drv t"
  shows "(\<forall>i. BlockDeviceGet i t = (if 0 \<le> i \<and> i < int (g_next_device_id t) then Some (nat i) else None))
    \<and> (\<exists>r w'. BlockDeviceRead drv i lba count t w = Some (r, w'))"
proof -
  have ok: "table_ok t" using assms by (rule built_ok)
  have get: "BlockDeviceGet i t = (if 0 \<le> i \<and> i < int (g_next_device_id t) then Some (nat i) else None)" for i
    using ok by (auto simp: BlockDeviceGet_def table_ok_def)
  have "\<exists>r w'. BlockDeviceRead drv i lba count t w = Some (r, w')"
  proof (cases "BlockDeviceGet i t")
    case (Some j)
    then have "j < g_next_device_id t" by (auto simp: BlockDeviceGet_def split: if_splits)
    then show ?thesis
      using Some dev_io_returns [OF ok, of j drv "(-1, [])"] by (auto simp add: BlockDeviceRead_def split: option.split)
  qed (simp add: BlockDeviceRead_def)
  with get show ?thesis by blast
qed

theorem BlockDeviceRead_returns_witness:
  "\<exists>t. built sample_driver t \<and> g_next_device_id t = 1 \<and> (\<exists>r w'. BlockDeviceRead sample_driver 0 7 1 t () = Some (r, w'))"
proof -
  let ?t = "snd (BlockDeviceRegister DEVICE_TYPE_AHCI 512 100 [0x73] 0 (Some (DriverFunc 0)) None (BlockDeviceInit sample_table))"
  have "built sample_driver ?t" by (intro built.intros)
  moreover have "g_next_device_id ?t = 1" by (simp add: BlockDeviceRegister_def BlockDeviceInit_def MAX_BLOCK_DEVICES_def Let_def)
  ultimately show ?thesis using BlockDeviceRead_returns [of sample_driver ?t 0 7 1 "()"] by blast
qed

theorem ParseMBR_partitions_witness:
  "\<exists>t'. ParseMBR sample_driver True 0 sample_table () = Some (t', ())
     \<and> BlockDeviceRead sample_driver 1 5 1 t' () = Some ((0, [13]), ())"
proof -
  have mbr: "length sample_mbr = 512" "boot_signature sample_mbr = 0xAA55" by code_simp+
  have t: "g_next_device_id sample_table = 1" "dev_id (g_block_devices sample_table 0) = 0" "dev_active (g_block_devices sample_table 0)"
      "read_blocks (g_block_devices sample_table 0) = Some (DriverFunc 0)" "sample_driver 0 (g_block_devices sample_table 0) 0 1 () = ((0, sample_mbr), ())"
    by (simp_all add: sample_table_def sample_driver_def)
  obtain t' where "ParseMBR sample_driver True 0 sample_table () = Some (t', ())"
      "\<And>lba count v. BlockDeviceRead sample_driver 1 lba count t' v = Some (sample_driver 0 (g_block_devices sample_table 0) (8 + lba) count v)"
    using ParseMBR_partitions [of 0 sample_table 0 sample_driver "()" sample_mbr "()" "[0]" 1] t mbr sample_used sample_start
    by (auto simp: MAX_BLOCK_DEVICES_def)
  then show ?thesis by (simp add: sample_driver_def)
qed

section \<open>Names and mounts\<close>

lemma name_text_prints:
  assumes "prints (int 15) fmt [Num (word_of_nat n)] text"
  shows "name_text fmt n = Some (take 15 text)"
proof -
  have "snprintf True 16 fmt [Num (word_of_nat n)] = Some (min 15 (length text), take 15 text @ [0])"
    using snprintf_prints [OF assms] by simp
  then show ?thesis unfolding name_text_def by (simp only: option.map prod.case take_printed)
qed

lemma ucast_of_nat_byte: "(ucast (word_of_nat n :: u64) :: u8) = word_of_nat n"
  by (simp add: word_unat_eq_iff unsigned_ucast_eq unsigned_of_nat take_bit_eq_mod mod_mod_cancel)

text \<open>The names drives get: a letter counted up from \<open>a\<close>, or a number, by the count of drives of the kind.\<close>

theorem GenerateDriveNameInto_names:
  "GenerateDriveNameInto DEVICE_TYPE_AHCI c = Some ([0x73, 0x64, word_of_nat (0x61 + ahci_count c)], c\<lparr>ahci_count := ahci_count c + 1\<rparr>)"
  "GenerateDriveNameInto DEVICE_TYPE_IDE c = Some ([0x68, 0x64, word_of_nat (0x61 + ide_count c)], c\<lparr>ide_count := ide_count c + 1\<rparr>)"
  "GenerateDriveNameInto DEVICE_TYPE_VIRTIO c = Some ([0x76, 0x64, word_of_nat (0x61 + virtio_count c)], c\<lparr>virtio_count := virtio_count c + 1\<rparr>)"
  "nvme_count c < 2 ^ 31 \<Longrightarrow> GenerateDriveNameInto DEVICE_TYPE_NVME c
     = Some (take 15 (0x6e # 0x76 # 0x6d # 0x65 # decimal (nvme_count c)), c\<lparr>nvme_count := nvme_count c + 1\<rparr>)"
proof -
  have letter: "name_text [a, b, 0x25, 0x63] n = Some [a, b, word_of_nat n]" if "a \<noteq> 0x25" "b \<noteq> 0x25" for a b n
    using name_text_prints [OF prints_char [OF prints_char [OF prints_letter [OF prints_Nil]]], OF that(2,1), of n]
    by (simp add: ucast_of_nat_byte)
  show "GenerateDriveNameInto DEVICE_TYPE_AHCI c = Some ([0x73, 0x64, word_of_nat (0x61 + ahci_count c)], c\<lparr>ahci_count := ahci_count c + 1\<rparr>)"
    "GenerateDriveNameInto DEVICE_TYPE_IDE c = Some ([0x68, 0x64, word_of_nat (0x61 + ide_count c)], c\<lparr>ide_count := ide_count c + 1\<rparr>)"
    "GenerateDriveNameInto DEVICE_TYPE_VIRTIO c = Some ([0x76, 0x64, word_of_nat (0x61 + virtio_count c)], c\<lparr>virtio_count := virtio_count c + 1\<rparr>)"
    by (simp_all add: GenerateDriveNameInto_def letter)
next
  assume n: "nvme_count c < 2 ^ 31"
  have "prints (int 15) [0x6e, 0x76, 0x6d, 0x65, 0x25, 0x64] [Num (word_of_nat (nvme_count c))] (0x6e # 0x76 # 0x6d # 0x65 # decimal (nvme_count c) @ [])"
    by (intro prints_char prints_int prints_Nil n) simp_all
  from name_text_prints [OF this]
  show "GenerateDriveNameInto DEVICE_TYPE_NVME c
     = Some (take 15 (0x6e # 0x76 # 0x6d # 0x65 # decimal (nvme_count c)), c\<lparr>nvme_count := nvme_count c + 1\<rparr>)"
    by (simp add: GenerateDriveNameInto_def)
qed

lemma mount_point_text: "mount_point_of name = Some (take 63 (RuntimeMounts @ 0x2f # name))"
proof -
  have "prints (int 63) [0x25, 0x73, 0x2f, 0x25, 0x73] [Str (Some RuntimeMounts), Str (Some name)] (RuntimeMounts @ 0x2f # name @ [])"
    by (intro prints_string prints_char prints_Nil) simp_all
  from snprintf_prints [OF this]
  have "snprintf True 64 [0x25, 0x73, 0x2f, 0x25, 0x73] [Str (Some RuntimeMounts), Str (Some name)]
      = Some (min 63 (length (RuntimeMounts @ 0x2f # name)), take 63 (RuntimeMounts @ 0x2f # name) @ [0])"
    by simp
  then show ?thesis unfolding mount_point_of_def by (simp only: option.map prod.case take_printed)
qed

text \<open>
  With drivers whose detection does not change the disk, every device is mounted by the first driver, in
  the order of registration, that detects it, under its name below \<open>/Runtime/Mounts\<close>.
\<close>

theorem try_drivers_first:
  "try_drivers (\<lambda>d i w. (det d i, w)) mount i name ds w =
     Some (case List.find (\<lambda>d. det d i) ds of
        None \<Rightarrow> (0, w)
      | Some d \<Rightarrow> (case mount d i (take 63 (RuntimeMounts @ 0x2f # name)) w of (rc, w) \<Rightarrow> (if rc = 0 then 1 else 0, w)))"
  by (induction ds) (simp_all add: mount_point_text split: prod.split)

end
