(* ===== verification/EevdfTree.thy ===== *)
theory EevdfTree
  imports Ipc "HOL-Library.Monad_Syntax"
begin

text \<open>
  The run queue of the EEVDF scheduler (\<open>src/kernel/sched/EEVDF.h\<close>, \<open>EEVDF.c\<close>): the structures and the
  red-black tree that orders the runnable processes by virtual run time.

  Nodes are indices into \<open>rb_node_pool\<close>, processes indices into \<open>processes\<close>; the fields of the nodes are
  functions of the index.  The pool, the tree pointers of the run queue and the process table are one
  record, which the scheduler extends.  An operation returns \<open>None\<close> when the machine stops: a null
  pointer is followed, \<open>PANIC\<close> is called, or a loop does not end.
\<close>

unbundle bit_operations_syntax

section \<open>Structures\<close>

record EEVDFSecurityToken =
  tok_magic :: u64
  creator_pid :: u32
  tok_privilege :: u8
  capabilities :: u64
  creation_tick :: u64
  tok_checksum :: u64
  pcb_hash :: u64

text \<open>The registers an interrupt saves (\<open>x64.h\<close>).\<close>

record Registers =
  reg_general :: "u64 list"
  reg_segments :: "u64 list"
  reg_interrupt :: "u64 \<times> u64"
  reg_rip :: u64
  reg_cs :: u64
  reg_rflags :: u64
  reg_rsp :: u64
  reg_ss :: u64

record EEVDFProcessControlBlock =
  proc_name :: "u8 list"
  proc_pid :: u32
  proc_state :: ProcessState
  proc_stack :: u64
  nice_level :: int
  weight :: u32
  inv_weight :: u32
  vruntime :: u64
  deadline :: u64
  slice_ns :: u64
  exec_start :: u64
  sum_exec_runtime :: u64
  wait_start :: u64
  wait_sum :: u64
  sleep_start :: u64
  sleep_sum :: u64
  last_wakeup :: u64
  rb_node :: "nat option"
  privilege_level :: u8
  initial_entry_point :: u64
  io_operations :: u32
  preemption_count :: u32
  cpu_time_accumulated :: u64
  creation_time :: u64
  parent_pid :: u32
  term_reason :: TerminationReason
  exit_code :: u32
  termination_time :: u64
  token :: EEVDFSecurityToken
  sis_seal :: u64
  proc_queue :: MessageQueue
  proc_context :: Registers
  ProcessRuntimePath :: "u8 list"

text \<open>The structures after \<open>FastMemset(.., 0, ..)\<close>.\<close>

definition zero_token :: EEVDFSecurityToken where
  "zero_token = \<lparr>tok_magic = 0, creator_pid = 0, tok_privilege = 0, capabilities = 0, creation_tick = 0, tok_checksum = 0, pcb_hash = 0\<rparr>"

definition zero_queue :: MessageQueue where
  "zero_queue =
     \<lparr>messages = replicate MAX_MESSAGES \<lparr>sender_pid = 0, sequence_id = 0, msg_type = IPC_TYPE_DATA, priority = IPC_PRIORITY_LOW,
        timestamp = 0, msg_size = 0, payload = replicate IPC_MAX_PAYLOAD 0\<rparr>,
      q_head = 0, q_tail = 0, q_count = 0, dropped_count = 0, priority_bitmap = 0\<rparr>"

definition zero_registers :: Registers where
  "zero_registers = \<lparr>reg_general = replicate 15 0, reg_segments = replicate 4 0, reg_interrupt = (0, 0), reg_rip = 0, reg_cs = 0,
     reg_rflags = 0, reg_rsp = 0, reg_ss = 0\<rparr>"

definition zero_pcb :: EEVDFProcessControlBlock where
  "zero_pcb =
     \<lparr>proc_name = [], proc_pid = 0, proc_state = PROC_TERMINATED, proc_stack = 0, nice_level = 0, weight = 0, inv_weight = 0,
      vruntime = 0, deadline = 0, slice_ns = 0, exec_start = 0, sum_exec_runtime = 0, wait_start = 0, wait_sum = 0, sleep_start = 0,
      sleep_sum = 0, last_wakeup = 0, rb_node = None, privilege_level = 0, initial_entry_point = 0, io_operations = 0, preemption_count = 0,
      cpu_time_accumulated = 0, creation_time = 0, parent_pid = 0, term_reason = TERM_NORMAL, exit_code = 0, termination_time = 0,
      token = zero_token, sis_seal = 0, proc_queue = zero_queue, proc_context = zero_registers, ProcessRuntimePath = []\<rparr>"

definition EEVDF_MAX_PROCESSES :: nat where "EEVDF_MAX_PROCESSES = 64"

record rb_state =
  processes :: "nat \<Rightarrow> EEVDFProcessControlBlock"
  node_left :: "nat \<Rightarrow> nat option"
  node_right :: "nat \<Rightarrow> nat option"
  node_parent :: "nat \<Rightarrow> nat option"
  node_color :: "nat \<Rightarrow> u8"
  node_slot :: "nat \<Rightarrow> nat"
  rb_node_pool_bitmap :: "u32 list"
  rb_root :: "nat option"
  rb_leftmost :: "nat option"

section \<open>Stores\<close>

definition set_left :: "nat \<Rightarrow> nat option \<Rightarrow> 'a rb_state_scheme \<Rightarrow> 'a rb_state_scheme" where
  "set_left n v s = s\<lparr>node_left := (node_left s)(n := v)\<rparr>"

definition set_right :: "nat \<Rightarrow> nat option \<Rightarrow> 'a rb_state_scheme \<Rightarrow> 'a rb_state_scheme" where
  "set_right n v s = s\<lparr>node_right := (node_right s)(n := v)\<rparr>"

definition set_parent :: "nat \<Rightarrow> nat option \<Rightarrow> 'a rb_state_scheme \<Rightarrow> 'a rb_state_scheme" where
  "set_parent n v s = s\<lparr>node_parent := (node_parent s)(n := v)\<rparr>"

definition set_color :: "nat \<Rightarrow> u8 \<Rightarrow> 'a rb_state_scheme \<Rightarrow> 'a rb_state_scheme" where
  "set_color n v s = s\<lparr>node_color := (node_color s)(n := v)\<rparr>"

definition opt_store :: "(nat \<Rightarrow> 'v \<Rightarrow> 's \<Rightarrow> 's) \<Rightarrow> nat option \<Rightarrow> 'v \<Rightarrow> 's \<Rightarrow> 's" where
  "opt_store f n v s = (case n of None \<Rightarrow> s | Some n \<Rightarrow> f n v s)"

definition upd_proc :: "nat \<Rightarrow> (EEVDFProcessControlBlock \<Rightarrow> EEVDFProcessControlBlock) \<Rightarrow> 'a rb_state_scheme \<Rightarrow> 'a rb_state_scheme" where
  "upd_proc i f s = s\<lparr>processes := (processes s)(i := f (processes s i))\<rparr>"

definition is_red :: "'a rb_state_scheme \<Rightarrow> nat option \<Rightarrow> bool" where
  "is_red s n = (case n of None \<Rightarrow> False | Some n \<Rightarrow> node_color s n = 1)"

definition is_black :: "'a rb_state_scheme \<Rightarrow> nat option \<Rightarrow> bool" where
  "is_black s n = (case n of None \<Rightarrow> True | Some n \<Rightarrow> node_color s n = 0)"

text \<open>\<open>if (!n->parent) root = c; else if (n == n->parent->left) n->parent->left = c; else n->parent->right = c;\<close>\<close>

definition replace_child :: "nat \<Rightarrow> nat option \<Rightarrow> 'a rb_state_scheme \<Rightarrow> 'a rb_state_scheme" where
  "replace_child n c s =
     (case node_parent s n of
        None \<Rightarrow> s\<lparr>rb_root := c\<rparr>
      | Some p \<Rightarrow> if node_left s p = Some n then set_left p c s else set_right p c s)"

text \<open>The same with the test for the right child, as the rotation to the right has it.\<close>

definition replace_child_right :: "nat \<Rightarrow> nat option \<Rightarrow> 'a rb_state_scheme \<Rightarrow> 'a rb_state_scheme" where
  "replace_child_right n c s =
     (case node_parent s n of
        None \<Rightarrow> s\<lparr>rb_root := c\<rparr>
      | Some p \<Rightarrow> if node_right s p = Some n then set_right p c s else set_left p c s)"

section \<open>The node pool\<close>

definition EEVDFRBNodeInit :: "nat \<Rightarrow> nat \<Rightarrow> 'a rb_state_scheme \<Rightarrow> 'a rb_state_scheme" where
  "EEVDFRBNodeInit n slot s =
     (set_color n 1 (set_parent n None (set_right n None (set_left n None s))))
       \<lparr>node_slot := (node_slot s)(n := slot)\<rparr>"

fun alloc_words :: "nat list \<Rightarrow> nat \<Rightarrow> 'a rb_state_scheme \<Rightarrow> nat option \<times> 'a rb_state_scheme" where
  "alloc_words [] slot s = (None, s)"
| "alloc_words (word # ws) slot s =
     (let available = NOT (rb_node_pool_bitmap s ! word) in
      if available \<noteq> 0 \<and> word * 32 + ctz available < EEVDF_MAX_PROCESSES
      then let index = word * 32 + ctz available;
               s = s\<lparr>rb_node_pool_bitmap := (rb_node_pool_bitmap s)[word := rb_node_pool_bitmap s ! word OR push_bit (ctz available) 1]\<rparr>
           in (Some index, EEVDFRBNodeInit index slot s)
      else alloc_words ws slot s)"

definition EEVDFAllocRBNode :: "nat \<Rightarrow> 'a rb_state_scheme \<Rightarrow> nat option \<times> 'a rb_state_scheme" where
  "EEVDFAllocRBNode slot s = alloc_words [0..<(EEVDF_MAX_PROCESSES + 31) div 32] slot s"

definition EEVDFFreeRBNode :: "nat \<Rightarrow> 'a rb_state_scheme \<Rightarrow> 'a rb_state_scheme" where
  "EEVDFFreeRBNode index s =
     (if index \<ge> EEVDF_MAX_PROCESSES then s
      else let word_idx = index div 32; bit_idx = index mod 32;
               s = s\<lparr>rb_node_pool_bitmap := (rb_node_pool_bitmap s)[word_idx := rb_node_pool_bitmap s ! word_idx AND NOT (push_bit bit_idx 1)]\<rparr>
           in (set_color index 0 (set_left index None (set_right index None (set_parent index None s))))
                \<lparr>node_slot := (node_slot s)(index := 0)\<rparr>)"

section \<open>Rotations\<close>

definition EEVDFRBRotateLeft :: "nat \<Rightarrow> 'a rb_state_scheme \<Rightarrow> 'a rb_state_scheme option" where
  "EEVDFRBRotateLeft x s = do {
     y \<leftarrow> node_right s x;
     let s = set_right x (node_left s y) s;
     let s = opt_store set_parent (node_left s y) (Some x) s;
     let s = set_parent y (node_parent s x) s;
     let s = replace_child x (Some y) s;
     let s = set_left y (Some x) s;
     Some (set_parent x (Some y) s)
   }"

definition EEVDFRBRotateRight :: "nat \<Rightarrow> 'a rb_state_scheme \<Rightarrow> 'a rb_state_scheme option" where
  "EEVDFRBRotateRight y s = do {
     x \<leftarrow> node_left s y;
     let s = set_left y (node_right s x) s;
     let s = opt_store set_parent (node_right s x) (Some y) s;
     let s = set_parent x (node_parent s y) s;
     let s = replace_child_right y (Some x) s;
     let s = set_right x (Some y) s;
     Some (set_parent y (Some x) s)
   }"

section \<open>Insertion\<close>

text \<open>One turn of the loop for a red node \<open>z\<close> with a red parent \<open>p\<close> and the grandparent \<open>g\<close>.\<close>

definition fixup_left :: "nat \<Rightarrow> nat \<Rightarrow> nat \<Rightarrow> 'a rb_state_scheme \<Rightarrow> (nat \<times> 'a rb_state_scheme) option" where
  "fixup_left z p g s =
     (let y = node_right s g in
      if is_red s y then Some (g, set_color g 1 (opt_store set_color y 0 (set_color p 0 s)))
      else do {
        (z, s) \<leftarrow> (if node_right s p = Some z then map_option (Pair p) (EEVDFRBRotateLeft p s) else Some (z, s));
        p \<leftarrow> node_parent s z;
        let s = set_color p 0 s;
        g \<leftarrow> node_parent s p;
        let s = set_color g 1 s;
        s \<leftarrow> EEVDFRBRotateRight g s;
        Some (z, s)
      })"

definition fixup_right :: "nat \<Rightarrow> nat \<Rightarrow> nat \<Rightarrow> 'a rb_state_scheme \<Rightarrow> (nat \<times> 'a rb_state_scheme) option" where
  "fixup_right z p g s =
     (let y = node_left s g in
      if is_red s y then Some (g, set_color g 1 (opt_store set_color y 0 (set_color p 0 s)))
      else do {
        (z, s) \<leftarrow> (if node_left s p = Some z then map_option (Pair p) (EEVDFRBRotateRight p s) else Some (z, s));
        p \<leftarrow> node_parent s z;
        let s = set_color p 0 s;
        g \<leftarrow> node_parent s p;
        let s = set_color g 1 s;
        s \<leftarrow> EEVDFRBRotateLeft g s;
        Some (z, s)
      })"

partial_function (option) insert_fixup_loop :: "nat \<Rightarrow> 'a rb_state_scheme \<Rightarrow> 'a rb_state_scheme option" where
  "insert_fixup_loop z s =
     (case node_parent s z of
        None \<Rightarrow> Some s
      | Some p \<Rightarrow>
          if node_color s p \<noteq> 1 then Some s
          else (case node_parent s p of
                  None \<Rightarrow> None
                | Some g \<Rightarrow>
                    (case (if node_left s g = Some p then fixup_left z p g s else fixup_right z p g s) of
                       None \<Rightarrow> None
                     | Some (z, s) \<Rightarrow> insert_fixup_loop z s)))"

definition EEVDFRBInsertFixup :: "nat \<Rightarrow> 'a rb_state_scheme \<Rightarrow> 'a rb_state_scheme option" where
  "EEVDFRBInsertFixup z s = do {
     s \<leftarrow> insert_fixup_loop z s;
     r \<leftarrow> rb_root s;
     Some (set_color r 0 s)
   }"

text \<open>The pointer to a pointer that the search moves down: the root, or a child field of a node.\<close>

datatype rb_link = Root_link | Left_link nat | Right_link nat

fun deref_link :: "rb_link \<Rightarrow> 'a rb_state_scheme \<Rightarrow> nat option" where
  "deref_link Root_link s = rb_root s"
| "deref_link (Left_link n) s = node_left s n"
| "deref_link (Right_link n) s = node_right s n"

fun store_link :: "rb_link \<Rightarrow> nat option \<Rightarrow> 'a rb_state_scheme \<Rightarrow> 'a rb_state_scheme" where
  "store_link Root_link v s = s\<lparr>rb_root := v\<rparr>"
| "store_link (Left_link n) v s = set_left n v s"
| "store_link (Right_link n) v s = set_right n v s"

partial_function (option) find_link ::
  "u64 \<Rightarrow> 'a rb_state_scheme \<Rightarrow> rb_link \<Rightarrow> nat option \<Rightarrow> bool \<Rightarrow> (rb_link \<times> nat option \<times> bool) option" where
  "find_link key s link parent leftmost =
     (case deref_link link s of
        None \<Rightarrow> Some (link, parent, leftmost)
      | Some n \<Rightarrow>
          if key < vruntime (processes s (node_slot s n))
          then find_link key s (Left_link n) (Some n) leftmost
          else find_link key s (Right_link n) (Some n) False)"

definition EEVDFRBInsert :: "nat \<Rightarrow> 'a rb_state_scheme \<Rightarrow> 'a rb_state_scheme option" where
  "EEVDFRBInsert p s =
     (if rb_node (processes s p) \<noteq> None then None
      else case EEVDFAllocRBNode p s of
             (None, s) \<Rightarrow> Some s
           | (Some node, s) \<Rightarrow> do {
               let s = upd_proc p (\<lambda>q. q\<lparr>rb_node := Some node\<rparr>) s;
               (link, parent, leftmost) \<leftarrow> find_link (vruntime (processes s p)) s Root_link None True;
               let s = (if leftmost then s\<lparr>rb_leftmost := Some node\<rparr> else s);
               let s = set_parent node parent s;
               let s = store_link link (Some node) s;
               EEVDFRBInsertFixup node s
             })"

section \<open>Deletion\<close>

partial_function (option) first_loop :: "nat \<Rightarrow> 'a rb_state_scheme \<Rightarrow> nat option" where
  "first_loop n s = (case node_left s n of None \<Rightarrow> Some n | Some m \<Rightarrow> first_loop m s)"

definition EEVDFRBFirst :: "nat option \<Rightarrow> 'a rb_state_scheme \<Rightarrow> nat option option" where
  "EEVDFRBFirst root s = (case root of None \<Rightarrow> Some None | Some n \<Rightarrow> map_option Some (first_loop n s))"

text \<open>
  One turn of the loop of \<open>EEVDFRBDeleteFixup\<close>, for \<open>x\<close> the left or the right child of \<open>parent\<close>: a red
  sibling \<open>w\<close> is first rotated away.
\<close>

definition delete_left_black ::
  "nat \<Rightarrow> nat option \<Rightarrow> 'a rb_state_scheme \<Rightarrow> (nat option \<times> nat option \<times> 'a rb_state_scheme) option" where
  "delete_left_black parent w s =
     (if (case w of None \<Rightarrow> False | Some n \<Rightarrow> is_black s (node_left s n) \<and> is_black s (node_right s n))
      then let s = opt_store set_color w 1 s in Some (Some parent, node_parent s parent, s)
      else do {
        (w, s) \<leftarrow> (case w of
           None \<Rightarrow> Some (w, s)
         | Some n \<Rightarrow>
             if is_black s (node_right s n)
             then do {
               s \<leftarrow> EEVDFRBRotateRight n (set_color n 1 (opt_store set_color (node_left s n) 0 s));
               Some (node_right s parent, s)
             }
             else Some (w, s));
        let s = (case w of
           None \<Rightarrow> s
         | Some n \<Rightarrow>
             let s = set_color n (node_color s parent) s; s = set_color parent 0 s
             in opt_store set_color (node_right s n) 0 s);
        s \<leftarrow> EEVDFRBRotateLeft parent s;
        Some (rb_root s, Some parent, s)
      })"

definition delete_left :: "nat \<Rightarrow> 'a rb_state_scheme \<Rightarrow> (nat option \<times> nat option \<times> 'a rb_state_scheme) option" where
  "delete_left parent s = do {
     let w = node_right s parent;
     (w, s) \<leftarrow> (if is_red s w
        then do { s \<leftarrow> EEVDFRBRotateLeft parent (set_color parent 1 (opt_store set_color w 0 s)); Some (node_right s parent, s) }
        else Some (w, s));
     delete_left_black parent w s
   }"

definition delete_right_black ::
  "nat \<Rightarrow> nat option \<Rightarrow> 'a rb_state_scheme \<Rightarrow> (nat option \<times> nat option \<times> 'a rb_state_scheme) option" where
  "delete_right_black parent w s =
     (if (case w of None \<Rightarrow> False | Some n \<Rightarrow> is_black s (node_right s n) \<and> is_black s (node_left s n))
      then let s = opt_store set_color w 1 s in Some (Some parent, node_parent s parent, s)
      else do {
        (w, s) \<leftarrow> (case w of
           None \<Rightarrow> Some (w, s)
         | Some n \<Rightarrow>
             if is_black s (node_left s n)
             then do {
               s \<leftarrow> EEVDFRBRotateLeft n (set_color n 1 (opt_store set_color (node_right s n) 0 s));
               Some (node_left s parent, s)
             }
             else Some (w, s));
        let s = (case w of
           None \<Rightarrow> s
         | Some n \<Rightarrow>
             let s = set_color n (node_color s parent) s; s = set_color parent 0 s
             in opt_store set_color (node_left s n) 0 s);
        s \<leftarrow> EEVDFRBRotateRight parent s;
        Some (rb_root s, Some parent, s)
      })"

definition delete_right :: "nat \<Rightarrow> 'a rb_state_scheme \<Rightarrow> (nat option \<times> nat option \<times> 'a rb_state_scheme) option" where
  "delete_right parent s = do {
     let w = node_left s parent;
     (w, s) \<leftarrow> (if is_red s w
        then do { s \<leftarrow> EEVDFRBRotateRight parent (set_color parent 1 (opt_store set_color w 0 s)); Some (node_left s parent, s) }
        else Some (w, s));
     delete_right_black parent w s
   }"

partial_function (option) delete_fixup_loop ::
  "nat option \<Rightarrow> nat option \<Rightarrow> 'a rb_state_scheme \<Rightarrow> (nat option \<times> 'a rb_state_scheme) option" where
  "delete_fixup_loop x parent s =
     (if x \<noteq> rb_root s \<and> is_black s x
      then (case parent of
              None \<Rightarrow> None
            | Some p \<Rightarrow>
                (case (if x = node_left s p then delete_left p s else delete_right p s) of
                   None \<Rightarrow> None
                 | Some (x, parent, s) \<Rightarrow> delete_fixup_loop x parent s))
      else Some (x, s))"

definition EEVDFRBDeleteFixup :: "nat option \<Rightarrow> nat option \<Rightarrow> 'a rb_state_scheme \<Rightarrow> 'a rb_state_scheme option" where
  "EEVDFRBDeleteFixup x parent s = do {
     (x, s) \<leftarrow> delete_fixup_loop x parent s;
     Some (opt_store set_color x 0 s)
   }"

partial_function (option) next_up :: "nat \<Rightarrow> nat option \<Rightarrow> 'a rb_state_scheme \<Rightarrow> nat option option" where
  "next_up n parent s =
     (case parent of
        None \<Rightarrow> Some None
      | Some p \<Rightarrow> if Some n = node_right s p then next_up p (node_parent s p) s else Some (Some p))"

definition update_leftmost :: "nat \<Rightarrow> 'a rb_state_scheme \<Rightarrow> 'a rb_state_scheme option" where
  "update_leftmost node s =
     (if rb_leftmost s = Some node
      then do {
        l \<leftarrow> (if node_right s node \<noteq> None then EEVDFRBFirst (node_right s node) s else next_up node (node_parent s node) s);
        Some (s\<lparr>rb_leftmost := l\<rparr>)
      }
      else Some s)"

text \<open>\<open>y\<close> takes the place of a node with a left child.\<close>

definition take_place :: "nat \<Rightarrow> nat \<Rightarrow> 'a rb_state_scheme \<Rightarrow> 'a rb_state_scheme option" where
  "take_place node y s = do {
     let s = replace_child node (Some y) s;
     let s = set_parent y (node_parent s node) s;
     let s = set_color y (node_color s node) s;
     let s = set_left y (node_left s node) s;
     l \<leftarrow> node_left s y;
     Some (set_parent l (Some y) s)
   }"

text \<open>\<open>y\<close>, the first node of the right subtree of \<open>node\<close>, is taken out of that subtree and put above it.\<close>

definition pull_up :: "nat \<Rightarrow> nat \<Rightarrow> 'a rb_state_scheme \<Rightarrow> (nat option \<times> 'a rb_state_scheme) option" where
  "pull_up node y s =
     (if node_parent s y = Some node then Some (Some y, s)
      else do {
        let x = node_right s y;
        let s = opt_store set_parent x (node_parent s y) s;
        q \<leftarrow> node_parent s y;
        let s = set_left q x s;
        let s = set_right y (node_right s node) s;
        r \<leftarrow> node_right s y;
        let s = set_parent r (Some y) s;
        Some (node_parent s y, s)
      })"

text \<open>Taking the node out: the child that moves up and its parent, the colour that leaves, the new tree.\<close>

definition unlink_node :: "nat \<Rightarrow> 'a rb_state_scheme \<Rightarrow> (nat option \<times> nat option \<times> u8 \<times> 'a rb_state_scheme) option" where
  "unlink_node node s =
     (case (node_left s node, node_right s node) of
        (None, x) \<Rightarrow>
          let s' = replace_child node x s
          in Some (x, node_parent s node, node_color s node, opt_store set_parent x (node_parent s' node) s')
      | (Some l, None) \<Rightarrow>
          let s' = replace_child node (Some l) s
          in Some (Some l, node_parent s node, node_color s node, set_parent l (node_parent s' node) s')
      | (Some l, Some r) \<Rightarrow> do {
          y \<leftarrow> first_loop r s;
          let c = node_color s y;
          let x = node_right s y;
          (x_parent, s) \<leftarrow> pull_up node y s;
          s \<leftarrow> take_place node y s;
          Some (x, x_parent, c, s)
        })"

definition EEVDFRBDelete :: "nat \<Rightarrow> 'a rb_state_scheme \<Rightarrow> 'a rb_state_scheme option" where
  "EEVDFRBDelete p s =
     (case rb_node (processes s p) of
        None \<Rightarrow> Some s
      | Some node \<Rightarrow> do {
          s \<leftarrow> update_leftmost node s;
          (x, x_parent, c, s) \<leftarrow> unlink_node node s;
          s \<leftarrow> (if c = 0 then EEVDFRBDeleteFixup x x_parent s else Some s);
          let s = EEVDFFreeRBNode node s;
          Some (upd_proc p (\<lambda>q. q\<lparr>rb_node := None\<rparr>) s)
        })"

section \<open>The next process\<close>

definition EEVDFPickNext :: "'a rb_state_scheme \<Rightarrow> nat option" where
  "EEVDFPickNext s = map_option (node_slot s) (rb_leftmost s)"

section \<open>Trees and contexts\<close>

text \<open>
  The tree a heap represents, with the node of every branch, and the context of a subtree: the path to
  the root, innermost step first, with the sibling at every step.
\<close>

datatype rbcolor = Red | Black

datatype rbtree = Leaf | Node rbtree rbcolor nat rbtree

datatype step = LeftOf rbcolor nat rbtree | RightOf rbcolor nat rbtree

type_synonym ctx = "step list"

fun col_val :: "rbcolor \<Rightarrow> u8" where
  "col_val Red = 1"
| "col_val Black = 0"

fun nodes :: "rbtree \<Rightarrow> nat list" where
  "nodes Leaf = []"
| "nodes (Node l c a r) = nodes l @ a # nodes r"

fun root_ptr :: "rbtree \<Rightarrow> nat option" where
  "root_ptr Leaf = None"
| "root_ptr (Node l c a r) = Some a"

fun rep :: "'a rb_state_scheme \<Rightarrow> nat option \<Rightarrow> rbtree \<Rightarrow> bool" where
  "rep s par Leaf \<longleftrightarrow> True"
| "rep s par (Node l c a r) \<longleftrightarrow> node_parent s a = par \<and> node_color s a = col_val c
     \<and> node_left s a = root_ptr l \<and> node_right s a = root_ptr r \<and> rep s (Some a) l \<and> rep s (Some a) r"

fun plug :: "ctx \<Rightarrow> rbtree \<Rightarrow> rbtree" where
  "plug [] t = t"
| "plug (LeftOf c a r # k) t = plug k (Node t c a r)"
| "plug (RightOf c a l # k) t = plug k (Node l c a t)"

fun ctx_parent :: "ctx \<Rightarrow> nat option" where
  "ctx_parent [] = None"
| "ctx_parent (LeftOf c a r # k) = Some a"
| "ctx_parent (RightOf c a l # k) = Some a"

fun ctx_nodes :: "ctx \<Rightarrow> nat list" where
  "ctx_nodes [] = []"
| "ctx_nodes (LeftOf c a r # k) = a # nodes r @ ctx_nodes k"
| "ctx_nodes (RightOf c a l # k) = a # nodes l @ ctx_nodes k"

fun ctx_rep :: "'a rb_state_scheme \<Rightarrow> ctx \<Rightarrow> nat option \<Rightarrow> bool" where
  "ctx_rep s [] p \<longleftrightarrow> rb_root s = p"
| "ctx_rep s (LeftOf c a r # k) p \<longleftrightarrow> node_parent s a = ctx_parent k \<and> node_color s a = col_val c
     \<and> node_left s a = p \<and> node_right s a = root_ptr r \<and> rep s (Some a) r \<and> ctx_rep s k (Some a)"
| "ctx_rep s (RightOf c a l # k) p \<longleftrightarrow> node_parent s a = ctx_parent k \<and> node_color s a = col_val c
     \<and> node_left s a = root_ptr l \<and> node_right s a = p \<and> rep s (Some a) l \<and> ctx_rep s k (Some a)"

definition at :: "'a rb_state_scheme \<Rightarrow> ctx \<Rightarrow> rbtree \<Rightarrow> bool" where
  "at s k t \<longleftrightarrow> ctx_rep s k (root_ptr t) \<and> rep s (ctx_parent k) t \<and> distinct (nodes t @ ctx_nodes k)"

text \<open>What the operations on pointers and colours leave alone.\<close>

definition same_rest :: "'a rb_state_scheme \<Rightarrow> 'a rb_state_scheme \<Rightarrow> bool" where
  "same_rest s s' \<longleftrightarrow> processes s' = processes s \<and> node_slot s' = node_slot s \<and> rb_node_pool_bitmap s' = rb_node_pool_bitmap s
     \<and> rb_leftmost s' = rb_leftmost s \<and> rb_state.more s' = rb_state.more s"

lemma same_rest_refl [simp]: "same_rest s s"
  by (simp add: same_rest_def)

lemma same_rest_trans: "same_rest s t \<Longrightarrow> same_rest t u \<Longrightarrow> same_rest s u"
  by (simp add: same_rest_def)

lemma same_rest_store [simp]:
  "same_rest s (set_left n v t) = same_rest s t" "same_rest s (set_right n v t) = same_rest s t"
  "same_rest s (set_parent n v t) = same_rest s t" "same_rest s (set_color n c t) = same_rest s t"
  "same_rest s (opt_store set_parent p v t) = same_rest s t" "same_rest s (opt_store set_color p c t) = same_rest s t"
  "same_rest s (replace_child n p t) = same_rest s t"
  "same_rest (set_left n v s) t = same_rest s t" "same_rest (set_right n v s) t = same_rest s t"
  "same_rest (set_parent n v s) t = same_rest s t" "same_rest (set_color n c s) t = same_rest s t"
  "same_rest (opt_store set_parent p v s) t = same_rest s t" "same_rest (opt_store set_color p c s) t = same_rest s t"
  by (simp_all add: same_rest_def set_left_def set_right_def set_parent_def set_color_def opt_store_def replace_child_def split: option.split)

lemma store_fields [simp]:
  "node_left (set_left n v s) = (node_left s)(n := v)" "node_right (set_left n v s) = node_right s"
  "node_parent (set_left n v s) = node_parent s" "node_color (set_left n v s) = node_color s" "rb_root (set_left n v s) = rb_root s"
  "node_left (set_right n v s) = node_left s" "node_right (set_right n v s) = (node_right s)(n := v)"
  "node_parent (set_right n v s) = node_parent s" "node_color (set_right n v s) = node_color s" "rb_root (set_right n v s) = rb_root s"
  "node_left (set_parent n v s) = node_left s" "node_right (set_parent n v s) = node_right s"
  "node_parent (set_parent n v s) = (node_parent s)(n := v)" "node_color (set_parent n v s) = node_color s" "rb_root (set_parent n v s) = rb_root s"
  "node_left (set_color n c s) = node_left s" "node_right (set_color n c s) = node_right s"
  "node_parent (set_color n c s) = node_parent s" "node_color (set_color n c s) = (node_color s)(n := c)" "rb_root (set_color n c s) = rb_root s"
  by (simp_all add: set_left_def set_right_def set_parent_def set_color_def)

lemmas store_defs = set_left_def set_right_def set_parent_def set_color_def opt_store_def

lemma root_ptr_nodes: "root_ptr t = Some a \<Longrightarrow> a \<in> set (nodes t)"
  by (cases t) auto

lemma at_LeftOf: "at s (LeftOf c a r # k) t \<longleftrightarrow> at s k (Node t c a r)"
  by (auto simp: at_def)

lemma at_RightOf: "at s (RightOf c a l # k) t \<longleftrightarrow> at s k (Node l c a t)"
  by (auto simp: at_def)

lemma at_plug: "at s k t \<longleftrightarrow> at s [] (plug k t)"
  by (induction k t rule: plug.induct) (simp_all add: at_LeftOf at_RightOf)

lemma rep_cong:
  assumes "\<And>x. x \<in> set (nodes t) \<Longrightarrow> node_left s' x = node_left s x \<and> node_right s' x = node_right s x
    \<and> node_parent s' x = node_parent s x \<and> node_color s' x = node_color s x"
  shows "rep s' par t = rep s par t"
  using assms by (induction t arbitrary: par) auto

lemma ctx_cong:
  assumes "\<And>x. x \<in> set (ctx_nodes k) \<Longrightarrow> node_left s' x = node_left s x \<and> node_right s' x = node_right s x
    \<and> node_parent s' x = node_parent s x \<and> node_color s' x = node_color s x" and "rb_root s' = rb_root s"
  shows "ctx_rep s' k p = ctx_rep s k p"
  using assms(1)
proof (induction k arbitrary: p)
  case Nil
  then show ?case using assms(2) by simp
next
  case (Cons f k)
  then show ?case by (cases f) (auto cong: rep_cong)
qed

lemma rep_frame [simp]:
  "x \<notin> set (nodes t) \<Longrightarrow> rep (set_left x v s) par t = rep s par t"
  "x \<notin> set (nodes t) \<Longrightarrow> rep (set_right x v s) par t = rep s par t"
  "x \<notin> set (nodes t) \<Longrightarrow> rep (set_parent x v s) par t = rep s par t"
  "x \<notin> set (nodes t) \<Longrightarrow> rep (set_color x c s) par t = rep s par t"
  "rep (s\<lparr>rb_root := v\<rparr>) par t = rep s par t"
  by (rule rep_cong; auto)+

lemma ctx_frame [simp]:
  "x \<notin> set (ctx_nodes k) \<Longrightarrow> ctx_rep (set_left x v s) k p = ctx_rep s k p"
  "x \<notin> set (ctx_nodes k) \<Longrightarrow> ctx_rep (set_right x v s) k p = ctx_rep s k p"
  "x \<notin> set (ctx_nodes k) \<Longrightarrow> ctx_rep (set_parent x v s) k p = ctx_rep s k p"
  "x \<notin> set (ctx_nodes k) \<Longrightarrow> ctx_rep (set_color x c s) k p = ctx_rep s k p"
  by (rule ctx_cong; auto)+

text \<open>Giving the root of a subtree another parent.\<close>

lemma rep_reparent:
  assumes "rep s par t" "distinct (nodes t)"
  shows "rep (opt_store set_parent (root_ptr t) par' s) par' t"
  using assms by (cases t) (auto simp: opt_store_def)

lemma reparent_frame [simp]:
  "set (nodes t) \<inter> set (nodes u) = {} \<Longrightarrow> rep (opt_store set_parent (root_ptr t) q s) par u = rep s par u"
  "set (nodes t) \<inter> set (ctx_nodes k) = {} \<Longrightarrow> ctx_rep (opt_store set_parent (root_ptr t) q s) k p = ctx_rep s k p"
  by (cases t; auto simp: opt_store_def)+

lemma reparent_fields [simp]:
  "node_left (opt_store set_parent n q s) = node_left s" "node_right (opt_store set_parent n q s) = node_right s"
  "node_color (opt_store set_parent n q s) = node_color s" "rb_root (opt_store set_parent n q s) = rb_root s"
  "n \<noteq> Some x \<Longrightarrow> node_parent (opt_store set_parent n q s) x = node_parent s x"
  by (auto simp: opt_store_def split: option.split)

lemma root_ptr_notin: "a \<notin> set (nodes t) \<Longrightarrow> root_ptr t \<noteq> Some a"
  using root_ptr_nodes by blast

text \<open>Putting another subtree in the place of the one with root \<open>x\<close>.\<close>

lemma replace_child_ctx:
  assumes "ctx_rep s k (Some x)" "node_parent s x = ctx_parent k" "x \<notin> set (ctx_nodes k)" "distinct (ctx_nodes k)"
  shows "ctx_rep (replace_child x p s) k p"
  using assms
proof (cases k)
  case (Cons f k')
  then show ?thesis using assms by (cases f) (auto simp: replace_child_def dest: root_ptr_nodes)
qed (simp add: replace_child_def)

lemma replace_child_rep:
  assumes "node_parent s x = ctx_parent k" "set (nodes t) \<inter> set (ctx_nodes k) = {}"
  shows "rep (replace_child x p s) par t = rep s par t"
proof (cases k)
  case (Cons f k')
  then show ?thesis using assms by (cases f) (auto simp: replace_child_def)
qed (use assms in \<open>simp add: replace_child_def\<close>)

lemma replace_child_fields [simp]:
  "node_parent (replace_child x p s) = node_parent s" "node_color (replace_child x p s) = node_color s"
  by (simp_all add: replace_child_def split: option.split)

lemma replace_child_children:
  assumes "node_parent s x = ctx_parent k" "a \<notin> set (ctx_nodes k)"
  shows "node_left (replace_child x p s) a = node_left s a" "node_right (replace_child x p s) a = node_right s a"
proof -
  have "node_parent s x \<noteq> Some a" using assms by (cases k; cases "hd k") auto
  then show "node_left (replace_child x p s) a = node_left s a" "node_right (replace_child x p s) a = node_right s a"
    by (auto simp: replace_child_def split: option.split)
qed

section \<open>Rotations\<close>

lemma rotate_left:
  assumes "at s k (Node l c x (Node m d y r))"
  shows "\<exists>s'. EEVDFRBRotateLeft x s = Some s' \<and> at s' k (Node (Node l c x m) d y r) \<and> same_rest s s'"
proof -
  have ctx: "ctx_rep s k (Some x)" "node_parent s x = ctx_parent k" and
    ry: "node_right s x = Some y" "node_left s x = root_ptr l" "node_left s y = root_ptr m" "node_right s y = root_ptr r" and
    rep: "rep s (Some x) l" "rep s (Some y) m" "rep s (Some y) r" and col: "node_color s x = col_val c" "node_color s y = col_val d" and
    d: "distinct ((nodes l @ x # nodes m @ y # nodes r) @ ctx_nodes k)"
    using assms by (auto simp: at_def)
  have dj: "set (nodes l) \<inter> set (ctx_nodes k) = {}" "set (nodes m) \<inter> set (ctx_nodes k) = {}" "set (nodes r) \<inter> set (ctx_nodes k) = {}"
      "set (nodes m) \<inter> set (nodes l) = {}" "set (nodes m) \<inter> set (nodes r) = {}"
    using d by auto
  let ?s1 = "opt_store set_parent (root_ptr m) (Some x) (set_right x (root_ptr m) s)"
  let ?s2 = "replace_child x (Some y) (set_parent y (ctx_parent k) ?s1)"
  let ?s3 = "set_parent x (Some y) (set_left y (Some x) ?s2)"
  have p: "node_parent ?s1 x = ctx_parent k" using ctx d by (simp add: root_ptr_notin)
  have "EEVDFRBRotateLeft x s = Some ?s3"
    using ry d p by (simp add: EEVDFRBRotateLeft_def)
  moreover have "ctx_rep ?s2 k (Some y)"
    using ctx d p dj by (intro replace_child_ctx) simp_all
  then have "ctx_rep ?s3 k (Some y)" using d by simp
  moreover have "rep ?s3 (ctx_parent k) (Node (Node l c x m) d y r)"
  proof -
    have "rep ?s1 (Some x) m" using rep d by (intro rep_reparent) auto
    then show ?thesis
      using rep col ry ctx d p dj
      by (simp add: replace_child_rep [where k = k] replace_child_children [where k = k])
  qed
  ultimately show ?thesis using d by (simp add: at_def)
qed

lemma replace_child_mirror:
  assumes "ctx_rep s k (Some x)" "node_parent s x = ctx_parent k" "x \<notin> set (ctx_nodes k)"
  shows "replace_child_right x p s = replace_child x p s"
proof (cases k)
  case (Cons f k')
  then show ?thesis using assms by (cases f) (auto simp: replace_child_def replace_child_right_def dest: root_ptr_nodes)
qed (use assms in \<open>simp add: replace_child_def replace_child_right_def\<close>)

lemma rotate_right:
  assumes "at s k (Node (Node l c x m) d y r)"
  shows "\<exists>s'. EEVDFRBRotateRight y s = Some s' \<and> at s' k (Node l c x (Node m d y r)) \<and> same_rest s s'"
proof -
  have ctx: "ctx_rep s k (Some y)" "node_parent s y = ctx_parent k" and
    ry: "node_left s y = Some x" "node_left s x = root_ptr l" "node_right s x = root_ptr m" "node_right s y = root_ptr r" and
    rep: "rep s (Some x) l" "rep s (Some x) m" "rep s (Some y) r" and col: "node_color s x = col_val c" "node_color s y = col_val d" and
    d: "distinct ((nodes l @ x # nodes m @ y # nodes r) @ ctx_nodes k)"
    using assms by (auto simp: at_def)
  have dj: "set (nodes l) \<inter> set (ctx_nodes k) = {}" "set (nodes m) \<inter> set (ctx_nodes k) = {}" "set (nodes r) \<inter> set (ctx_nodes k) = {}"
      "set (nodes m) \<inter> set (nodes l) = {}" "set (nodes m) \<inter> set (nodes r) = {}"
    using d by auto
  let ?s1 = "opt_store set_parent (root_ptr m) (Some y) (set_left y (root_ptr m) s)"
  let ?sx = "set_parent x (ctx_parent k) ?s1"
  let ?s2 = "replace_child y (Some x) ?sx"
  let ?s3 = "set_parent y (Some x) (set_right x (Some y) ?s2)"
  have p: "node_parent ?s1 y = ctx_parent k" using ctx d by (simp add: root_ptr_notin)
  have cs: "ctx_rep ?sx k (Some y)" using ctx d dj by simp
  have "EEVDFRBRotateRight y s = Some ?s3"
    using ry d p replace_child_mirror [OF cs, of "Some x"] by (simp add: EEVDFRBRotateRight_def)
  moreover have "ctx_rep ?s2 k (Some x)"
    using cs d p by (intro replace_child_ctx) simp_all
  then have "ctx_rep ?s3 k (Some x)" using d by simp
  moreover have "rep ?s3 (ctx_parent k) (Node l c x (Node m d y r))"
  proof -
    have "rep ?s1 (Some y) m" using rep d by (intro rep_reparent) auto
    then show ?thesis
      using rep col ry ctx d p dj
      by (simp add: replace_child_rep [where k = k] replace_child_children [where k = k])
  qed
  ultimately show ?thesis using d by (simp add: at_def)
qed

text \<open>Recolouring a node in focus.\<close>

lemma at_recolor: "at s k (Node l c x r) \<Longrightarrow> at (set_color x (col_val c') s) k (Node l c' x r)"
  by (auto simp: at_def)

lemma at_recolor_left: "at s k (Node (Node a b x d) c y r) \<Longrightarrow> at (set_color x (col_val b') s) k (Node (Node a b' x d) c y r)"
  using at_recolor [of s "LeftOf c y r # k"] by (simp add: at_LeftOf)

lemma at_recolor_right: "at s k (Node l c y (Node a b x d)) \<Longrightarrow> at (set_color x (col_val b') s) k (Node l c y (Node a b' x d))"
  using at_recolor [of s "RightOf c y l # k"] by (simp add: at_RightOf)

lemma at_recolor_right2:
  "at s k (Node l c x (Node m d y (Node a b z e))) \<Longrightarrow> at (set_color z (col_val b') s) k (Node l c x (Node m d y (Node a b' z e)))"
  using at_recolor_right [of s "RightOf c x l # k" m d y a b z e b'] by (simp add: at_RightOf)

lemma at_recolor_left2:
  "at s k (Node (Node (Node a b z e) d y m) c x r) \<Longrightarrow> at (set_color z (col_val b') s) k (Node (Node (Node a b' z e) d y m) c x r)"
  using at_recolor_left [of s "LeftOf c x r # k" a b z e d y m b'] by (simp add: at_LeftOf)

section \<open>Red-black trees\<close>

fun col :: "rbtree \<Rightarrow> rbcolor" where
  "col Leaf = Black"
| "col (Node l c a r) = c"

fun bh :: "rbtree \<Rightarrow> nat" where
  "bh Leaf = 0"
| "bh (Node l c a r) = bh l + (if c = Black then 1 else 0)"

text \<open>No red node has a red child; every path has the same number of black nodes.\<close>

fun inv_c :: "rbtree \<Rightarrow> bool" where
  "inv_c Leaf \<longleftrightarrow> True"
| "inv_c (Node l c a r) \<longleftrightarrow> inv_c l \<and> inv_c r \<and> (c = Red \<longrightarrow> col l = Black \<and> col r = Black)"

fun inv_h :: "rbtree \<Rightarrow> bool" where
  "inv_h Leaf \<longleftrightarrow> True"
| "inv_h (Node l c a r) \<longleftrightarrow> inv_h l \<and> inv_h r \<and> bh l = bh r"

definition rb_valid :: "rbtree \<Rightarrow> bool" where
  "rb_valid t \<longleftrightarrow> inv_c t \<and> inv_h t \<and> col t = Black"

fun blacken :: "rbtree \<Rightarrow> rbtree" where
  "blacken Leaf = Leaf"
| "blacken (Node l c a r) = Node l Black a r"

fun ctx_col :: "ctx \<Rightarrow> rbcolor" where
  "ctx_col [] = Black"
| "ctx_col (LeftOf c a r # k) = c"
| "ctx_col (RightOf c a l # k) = c"

text \<open>The context of a subtree of black height \<open>h\<close> in a valid tree.\<close>

fun ctx_ok :: "nat \<Rightarrow> ctx \<Rightarrow> bool" where
  "ctx_ok h [] \<longleftrightarrow> True"
| "ctx_ok h (LeftOf c a r # k) \<longleftrightarrow> inv_c r \<and> inv_h r \<and> bh r = h \<and> (c = Red \<longrightarrow> col r = Black \<and> k \<noteq> [] \<and> ctx_col k = Black)
     \<and> ctx_ok (if c = Black then h + 1 else h) k"
| "ctx_ok h (RightOf c a l # k) \<longleftrightarrow> inv_c l \<and> inv_h l \<and> bh l = h \<and> (c = Red \<longrightarrow> col l = Black \<and> k \<noteq> [] \<and> ctx_col k = Black)
     \<and> ctx_ok (if c = Black then h + 1 else h) k"

lemma col_cases: "col t = Black \<or> col t = Red"
  by (cases "col t") simp_all

lemma blacken_nodes [simp]: "nodes (blacken t) = nodes t"
  by (cases t) simp_all

lemma blacken_id: "col t = Black \<Longrightarrow> blacken t = t"
  by (cases t) simp_all

lemma plug_valid:
  assumes "ctx_ok (bh t) k" "inv_c t" "inv_h t" "col t = Black \<or> k \<noteq> [] \<and> ctx_col k = Black"
  shows "rb_valid (plug k t)"
  using assms
proof (induction k arbitrary: t)
  case (Cons f k)
  then show ?case
  proof (cases f)
    case (LeftOf c a r)
    with Cons.prems have "rb_valid (plug k (Node t c a r))" by (intro Cons.IH) (cases c; auto)+
    then show ?thesis using LeftOf by simp
  next
    case (RightOf c a l)
    with Cons.prems have "rb_valid (plug k (Node l c a t))" by (intro Cons.IH) (cases c; auto)+
    then show ?thesis using RightOf by simp
  qed
qed (simp add: rb_valid_def)

lemma valid_plug:
  assumes "rb_valid (plug k t)"
  shows "ctx_ok (bh t) k \<and> inv_c t \<and> inv_h t \<and> (ctx_col k = Red \<longrightarrow> col t = Black) \<and> (k = [] \<longrightarrow> col t = Black)"
  using assms
proof (induction k arbitrary: t)
  case (Cons f k)
  show ?case
  proof (cases f)
    case (LeftOf c a r)
    with Cons.IH [of "Node t c a r"] Cons.prems show ?thesis by (cases "ctx_col k"; cases c) auto
  next
    case (RightOf c a l)
    with Cons.IH [of "Node l c a t"] Cons.prems show ?thesis by (cases "ctx_col k"; cases c) auto
  qed
qed (simp add: rb_valid_def)

fun ctx_before :: "ctx \<Rightarrow> nat list" where
  "ctx_before [] = []"
| "ctx_before (LeftOf c a r # k) = ctx_before k"
| "ctx_before (RightOf c a l # k) = ctx_before k @ nodes l @ [a]"

fun ctx_after :: "ctx \<Rightarrow> nat list" where
  "ctx_after [] = []"
| "ctx_after (LeftOf c a r # k) = a # nodes r @ ctx_after k"
| "ctx_after (RightOf c a l # k) = ctx_after k"

lemma nodes_plug: "nodes (plug k t) = ctx_before k @ nodes t @ ctx_after k"
  by (induction k t rule: plug.induct) simp_all

lemma is_red_rep: "rep s par t \<Longrightarrow> is_red s (root_ptr t) \<longleftrightarrow> col t = Red"
  by (cases t; cases "col t") (simp_all add: is_red_def)

lemma is_black_rep: "rep s par t \<Longrightarrow> is_black s (root_ptr t) \<longleftrightarrow> col t = Black"
  by (cases t; cases "col t") (simp_all add: is_black_def)

section \<open>The insertion loop\<close>

lemma fixup_left_recolor:
  assumes "at s k (Node (Node a Red p b) Black g (Node c Red y d))"
  shows "\<exists>s'. fixup_left z p g s = Some (g, s') \<and> at s' k (Node (Node a Black p b) Red g (Node c Black y d)) \<and> same_rest s s'"
proof -
  have g: "node_right s g = Some y" "is_red s (Some y)" using assms by (simp_all add: at_def is_red_def)
  have "at (set_color p (col_val Black) s) k (Node (Node a Black p b) Black g (Node c Red y d))"
    by (rule at_recolor_left [OF assms])
  note at_recolor [OF at_recolor_right [OF this, where b' = Black], where c' = Red]
  then show ?thesis using g by (simp add: fixup_left_def opt_store_def)
qed

lemma fixup_left_outer:
  assumes "at s k (Node (Node (Node l Red z r) Red p b) Black g u)" "col u = Black"
  shows "\<exists>s'. fixup_left z p g s = Some (z, s') \<and> at s' k (Node (Node l Red z r) Black p (Node b Red g u)) \<and> same_rest s s'"
proof -
  have f: "\<not> is_red s (node_right s g)" "node_right s p \<noteq> Some z" "node_parent s z = Some p" "node_parent s p = Some g"
    using assms is_red_rep [of s "Some g" u] by (auto simp: at_def dest: root_ptr_nodes)
  have "at (set_color g (col_val Red) (set_color p (col_val Black) s)) k (Node (Node (Node l Red z r) Black p b) Red g u)"
    by (intro at_recolor [where c = Black] at_recolor_left [where b = Red] assms)
  from rotate_right [OF this] show ?thesis using f by (auto simp: fixup_left_def)
qed

lemma fixup_left_inner:
  assumes "at s k (Node (Node a Red p (Node l Red z r)) Black g u)" "col u = Black"
  shows "\<exists>s'. fixup_left z p g s = Some (p, s') \<and> at s' k (Node (Node a Red p l) Black z (Node r Red g u)) \<and> same_rest s s'"
proof -
  have f: "\<not> is_red s (node_right s g)" "node_right s p = Some z"
    using assms is_red_rep [of s "Some g" u] by (auto simp: at_def)
  have "at s (LeftOf Black g u # k) (Node a Red p (Node l Red z r))" using assms by (simp add: at_LeftOf)
  from rotate_left [OF this] obtain s1 where s1: "EEVDFRBRotateLeft p s = Some s1" "same_rest s s1"
    and at1: "at s1 k (Node (Node (Node a Red p l) Red z r) Black g u)" by (auto simp: at_LeftOf)
  have f1: "node_parent s1 p = Some z" "node_parent s1 z = Some g" using at1 by (auto simp: at_def)
  have "at (set_color g (col_val Red) (set_color z (col_val Black) s1)) k (Node (Node (Node a Red p l) Black z r) Red g u)"
    by (intro at_recolor [where c = Black] at_recolor_left [where b = Red] at1)
  from rotate_right [OF this] show ?thesis
    using f s1 f1 by (auto simp: fixup_left_def intro: same_rest_trans)
qed

lemma fixup_right_recolor:
  assumes "at s k (Node (Node c Red y d) Black g (Node a Red p b))"
  shows "\<exists>s'. fixup_right z p g s = Some (g, s') \<and> at s' k (Node (Node c Black y d) Red g (Node a Black p b)) \<and> same_rest s s'"
proof -
  have g: "node_left s g = Some y" "is_red s (Some y)" using assms by (simp_all add: at_def is_red_def)
  have "at (set_color p (col_val Black) s) k (Node (Node c Red y d) Black g (Node a Black p b))"
    by (rule at_recolor_right [OF assms])
  note at_recolor [OF at_recolor_left [OF this, where b' = Black], where c' = Red]
  then show ?thesis using g by (simp add: fixup_right_def opt_store_def)
qed

lemma fixup_right_outer:
  assumes "at s k (Node u Black g (Node b Red p (Node l Red z r)))" "col u = Black"
  shows "\<exists>s'. fixup_right z p g s = Some (z, s') \<and> at s' k (Node (Node u Red g b) Black p (Node l Red z r)) \<and> same_rest s s'"
proof -
  have f: "\<not> is_red s (node_left s g)" "node_left s p \<noteq> Some z" "node_parent s z = Some p" "node_parent s p = Some g"
    using assms is_red_rep [of s "Some g" u] by (auto simp: at_def dest: root_ptr_nodes)
  have "at (set_color g (col_val Red) (set_color p (col_val Black) s)) k (Node u Red g (Node b Black p (Node l Red z r)))"
    by (intro at_recolor [where c = Black] at_recolor_right [where b = Red] assms)
  from rotate_left [OF this] show ?thesis using f by (auto simp: fixup_right_def)
qed

lemma fixup_right_inner:
  assumes "at s k (Node u Black g (Node (Node l Red z r) Red p a))" "col u = Black"
  shows "\<exists>s'. fixup_right z p g s = Some (p, s') \<and> at s' k (Node (Node u Red g l) Black z (Node r Red p a)) \<and> same_rest s s'"
proof -
  have f: "\<not> is_red s (node_left s g)" "node_left s p = Some z"
    using assms is_red_rep [of s "Some g" u] by (auto simp: at_def)
  have "at s (RightOf Black g u # k) (Node (Node l Red z r) Red p a)" using assms by (simp add: at_RightOf)
  from rotate_right [OF this] obtain s1 where s1: "EEVDFRBRotateRight p s = Some s1" "same_rest s s1"
    and at1: "at s1 k (Node u Black g (Node l Red z (Node r Red p a)))" by (auto simp: at_RightOf)
  have f1: "node_parent s1 p = Some z" "node_parent s1 z = Some g" using at1 by (auto simp: at_def)
  have "at (set_color g (col_val Red) (set_color z (col_val Black) s1)) k (Node u Red g (Node l Black z (Node r Red p a)))"
    by (intro at_recolor [where c = Black] at_recolor_right [where b = Red] at1)
  from rotate_left [OF this] show ?thesis
    using f s1 f1 by (auto simp: fixup_right_def intro: same_rest_trans)
qed

lemma insert_loop_exit:
  assumes "at s k (Node l c z r)" "ctx_col k = Black"
  shows "insert_fixup_loop z s = Some s"
proof (cases k)
  case Nil
  then show ?thesis using assms(1) by (subst insert_fixup_loop.simps) (simp add: at_def)
next
  case (Cons f k')
  then show ?thesis using assms by (cases f) (subst insert_fixup_loop.simps, simp add: at_def)+
qed

lemma insert_loop_left:
  assumes "node_parent s z = Some p" "node_color s p = 1" "node_parent s p = Some g" "node_left s g = Some p"
  shows "insert_fixup_loop z s = (case fixup_left z p g s of None \<Rightarrow> None | Some (z, s) \<Rightarrow> insert_fixup_loop z s)"
  using assms by (subst insert_fixup_loop.simps) simp

lemma insert_loop_right:
  assumes "node_parent s z = Some p" "node_color s p = 1" "node_parent s p = Some g" "node_left s g \<noteq> Some p"
  shows "insert_fixup_loop z s = (case fixup_right z p g s of None \<Rightarrow> None | Some (z, s) \<Rightarrow> insert_fixup_loop z s)"
  using assms by (subst insert_fixup_loop.simps) simp

definition loop_done :: "'a rb_state_scheme \<Rightarrow> nat list \<Rightarrow> 'a rb_state_scheme option \<Rightarrow> bool" where
  "loop_done s ns res \<longleftrightarrow> (\<exists>s' t. res = Some s' \<and> same_rest s s' \<and> at s' [] t \<and> nodes t = ns \<and> rb_valid (blacken t))"

lemma loop_doneI:
  assumes "at s' k t" "same_rest s s'" "ctx_ok (bh t) k" "inv_c t" "inv_h t" "col t = Black" "ns = nodes (plug k t)"
  shows "loop_done s ns (Some s')"
proof -
  have "rb_valid (plug k t)" using assms by (intro plug_valid) auto
  then show ?thesis
    unfolding loop_done_def using assms(1,2,7) at_plug blacken_id by (metis rb_valid_def)
qed

lemma loop_done_step: "same_rest s s1 \<Longrightarrow> loop_done s1 ns res \<Longrightarrow> loop_done s ns res"
  unfolding loop_done_def using same_rest_trans by blast

text \<open>A turn of the loop either passes a red node up, or ends with a valid subtree.\<close>

definition red_at :: "'a rb_state_scheme \<Rightarrow> ctx \<Rightarrow> nat list \<Rightarrow> nat \<Rightarrow> bool" where
  "red_at s k ns z \<longleftrightarrow> (\<exists>l r. at s k (Node l Red z r) \<and> ctx_ok (bh l) k \<and> inv_c l \<and> inv_c r \<and> inv_h l \<and> inv_h r \<and> bh l = bh r
     \<and> col l = Black \<and> col r = Black \<and> ns = nodes (plug k (Node l Red z r)))"

definition turned :: "'a rb_state_scheme \<Rightarrow> ctx \<Rightarrow> nat list \<Rightarrow> nat \<Rightarrow> bool" where
  "turned s k ns z \<longleftrightarrow> (\<exists>s' z'. insert_fixup_loop z s = insert_fixup_loop z' s' \<and> same_rest s s'
     \<and> (red_at s' k ns z' \<or> loop_done s' ns (insert_fixup_loop z' s')))"

lemma turned_up:
  assumes "insert_fixup_loop z s = insert_fixup_loop z' s'" "same_rest s s'" "red_at s' k ns z'"
  shows "turned s k ns z"
  using assms unfolding turned_def by blast

lemma turned_left:
  assumes "insert_fixup_loop z s = insert_fixup_loop z' s'" "same_rest s s'" "at s' k (Node (Node a c z' b) Black p r)"
    and "ctx_ok (bh a + (if c = Black then 1 else 0) + 1) k" "inv_c (Node a c z' b)" "inv_h (Node a c z' b)" "inv_c r" "inv_h r"
    and "bh r = bh (Node a c z' b)" "ns = nodes (plug k (Node (Node a c z' b) Black p r))"
  shows "turned s k ns z"
proof -
  have "insert_fixup_loop z' s' = Some s'" using assms(3) insert_loop_exit [of s' "LeftOf Black p r # k" a c z' b] by (simp add: at_LeftOf)
  moreover have "loop_done s' ns (Some s')" using assms by (intro loop_doneI [OF assms(3)]) auto
  ultimately show ?thesis using assms(1,2) unfolding turned_def by metis
qed

lemma turned_right:
  assumes "insert_fixup_loop z s = insert_fixup_loop z' s'" "same_rest s s'" "at s' k (Node l Black p (Node a c z' b))"
    and "ctx_ok (bh l + 1) k" "inv_c (Node a c z' b)" "inv_h (Node a c z' b)" "inv_c l" "inv_h l"
    and "bh l = bh (Node a c z' b)" "ns = nodes (plug k (Node l Black p (Node a c z' b)))"
  shows "turned s k ns z"
proof -
  have "insert_fixup_loop z' s' = Some s'" using assms(3) insert_loop_exit [of s' "RightOf Black p l # k" a c z' b] by (simp add: at_RightOf)
  moreover have "loop_done s' ns (Some s')" using assms by (intro loop_doneI [OF assms(3)]) auto
  ultimately show ?thesis using assms(1,2) unfolding turned_def by metis
qed

lemma red_tree: "col t = Red \<Longrightarrow> \<exists>l a r. t = Node l Red a r"
  by (cases t) auto

lemma turn_left_outer:
  assumes a: "at s k (Node (Node (Node l Red z r) Red p b) Black g u)"
    and "ctx_ok (bh l + 1) k" "inv_c l" "inv_c r" "inv_h l" "inv_h r" "bh l = bh r" "col l = Black" "col r = Black"
    and "inv_c b" "inv_h b" "bh b = bh l" "col b = Black" "inv_c u" "inv_h u" "bh u = bh l"
  shows "turned s k (nodes (plug k (Node (Node (Node l Red z r) Red p b) Black g u))) z"
proof -
  have loop: "insert_fixup_loop z s = (case fixup_left z p g s of None \<Rightarrow> None | Some (z, s) \<Rightarrow> insert_fixup_loop z s)"
    using a by (intro insert_loop_left) (auto simp: at_def dest: root_ptr_nodes)
  show ?thesis
  proof (cases "col u = Black")
    case True
    from fixup_left_outer [OF a True]
    obtain s' where "fixup_left z p g s = Some (z, s')" and s': "same_rest s s'" "at s' k (Node (Node l Red z r) Black p (Node b Red g u))" by blast
    with loop have "insert_fixup_loop z s = insert_fixup_loop z s'" by simp
    then show ?thesis using assms(2-) True by (intro turned_left [OF _ s']) (simp_all add: nodes_plug)
  next
    case False
    then obtain c y d where u: "u = Node c Red y d" using red_tree col_cases by blast
    from fixup_left_recolor [OF a [unfolded u]]
    obtain s' where "fixup_left z p g s = Some (g, s')" and s': "same_rest s s'" "at s' k (Node (Node (Node l Red z r) Black p b) Red g (Node c Black y d))" by blast
    with loop have "insert_fixup_loop z s = insert_fixup_loop g s'" by simp
    moreover have "red_at s' k (nodes (plug k (Node (Node (Node l Red z r) Red p b) Black g u))) g"
      using s'(2) assms(2-) u unfolding red_at_def by (intro exI conjI) (assumption, auto simp: nodes_plug)
    ultimately show ?thesis using s'(1) turned_up by blast
  qed
qed

lemma turn_left_inner:
  assumes a: "at s k (Node (Node b Red p (Node l Red z r)) Black g u)"
    and "ctx_ok (bh l + 1) k" "inv_c l" "inv_c r" "inv_h l" "inv_h r" "bh l = bh r" "col l = Black" "col r = Black"
    and "inv_c b" "inv_h b" "bh b = bh l" "col b = Black" "inv_c u" "inv_h u" "bh u = bh l"
  shows "turned s k (nodes (plug k (Node (Node b Red p (Node l Red z r)) Black g u))) z"
proof -
  have loop: "insert_fixup_loop z s = (case fixup_left z p g s of None \<Rightarrow> None | Some (z, s) \<Rightarrow> insert_fixup_loop z s)"
    using a by (intro insert_loop_left) (auto simp: at_def dest: root_ptr_nodes)
  show ?thesis
  proof (cases "col u = Black")
    case True
    from fixup_left_inner [OF a True]
    obtain s' where "fixup_left z p g s = Some (p, s')" and s': "same_rest s s'" "at s' k (Node (Node b Red p l) Black z (Node r Red g u))" by blast
    with loop have "insert_fixup_loop z s = insert_fixup_loop p s'" by simp
    then show ?thesis using assms(2-) True by (intro turned_left [OF _ s']) (simp_all add: nodes_plug)
  next
    case False
    then obtain c y d where u: "u = Node c Red y d" using red_tree col_cases by blast
    from fixup_left_recolor [OF a [unfolded u]]
    obtain s' where "fixup_left z p g s = Some (g, s')" and s': "same_rest s s'" "at s' k (Node (Node b Black p (Node l Red z r)) Red g (Node c Black y d))" by blast
    with loop have "insert_fixup_loop z s = insert_fixup_loop g s'" by simp
    moreover have "red_at s' k (nodes (plug k (Node (Node b Red p (Node l Red z r)) Black g u))) g"
      using s'(2) assms(2-) u unfolding red_at_def by (intro exI conjI) (assumption, auto simp: nodes_plug)
    ultimately show ?thesis using s'(1) turned_up by blast
  qed
qed

lemma turn_right_outer:
  assumes a: "at s k (Node u Black g (Node b Red p (Node l Red z r)))"
    and "ctx_ok (bh l + 1) k" "inv_c l" "inv_c r" "inv_h l" "inv_h r" "bh l = bh r" "col l = Black" "col r = Black"
    and "inv_c b" "inv_h b" "bh b = bh l" "col b = Black" "inv_c u" "inv_h u" "bh u = bh l"
  shows "turned s k (nodes (plug k (Node u Black g (Node b Red p (Node l Red z r))))) z"
proof -
  have loop: "insert_fixup_loop z s = (case fixup_right z p g s of None \<Rightarrow> None | Some (z, s) \<Rightarrow> insert_fixup_loop z s)"
    using a by (intro insert_loop_right) (auto simp: at_def dest: root_ptr_nodes)
  show ?thesis
  proof (cases "col u = Black")
    case True
    from fixup_right_outer [OF a True]
    obtain s' where "fixup_right z p g s = Some (z, s')" and s': "same_rest s s'" "at s' k (Node (Node u Red g b) Black p (Node l Red z r))" by blast
    with loop have "insert_fixup_loop z s = insert_fixup_loop z s'" by simp
    then show ?thesis using assms(2-) True by (intro turned_right [OF _ s']) (simp_all add: nodes_plug)
  next
    case False
    then obtain c y d where u: "u = Node c Red y d" using red_tree col_cases by blast
    from fixup_right_recolor [OF a [unfolded u]]
    obtain s' where "fixup_right z p g s = Some (g, s')" and s': "same_rest s s'" "at s' k (Node (Node c Black y d) Red g (Node b Black p (Node l Red z r)))" by blast
    with loop have "insert_fixup_loop z s = insert_fixup_loop g s'" by simp
    moreover have "red_at s' k (nodes (plug k (Node u Black g (Node b Red p (Node l Red z r))))) g"
      using s'(2) assms(2-) u unfolding red_at_def by (intro exI conjI) (assumption, auto simp: nodes_plug)
    ultimately show ?thesis using s'(1) turned_up by blast
  qed
qed

lemma turn_right_inner:
  assumes a: "at s k (Node u Black g (Node (Node l Red z r) Red p b))"
    and "ctx_ok (bh l + 1) k" "inv_c l" "inv_c r" "inv_h l" "inv_h r" "bh l = bh r" "col l = Black" "col r = Black"
    and "inv_c b" "inv_h b" "bh b = bh l" "col b = Black" "inv_c u" "inv_h u" "bh u = bh l"
  shows "turned s k (nodes (plug k (Node u Black g (Node (Node l Red z r) Red p b)))) z"
proof -
  have loop: "insert_fixup_loop z s = (case fixup_right z p g s of None \<Rightarrow> None | Some (z, s) \<Rightarrow> insert_fixup_loop z s)"
    using a by (intro insert_loop_right) (auto simp: at_def dest: root_ptr_nodes)
  show ?thesis
  proof (cases "col u = Black")
    case True
    from fixup_right_inner [OF a True]
    obtain s' where "fixup_right z p g s = Some (p, s')" and s': "same_rest s s'" "at s' k (Node (Node u Red g l) Black z (Node r Red p b))" by blast
    with loop have "insert_fixup_loop z s = insert_fixup_loop p s'" by simp
    then show ?thesis using assms(2-) True by (intro turned_right [OF _ s']) (simp_all add: nodes_plug)
  next
    case False
    then obtain c y d where u: "u = Node c Red y d" using red_tree col_cases by blast
    from fixup_right_recolor [OF a [unfolded u]]
    obtain s' where "fixup_right z p g s = Some (g, s')" and s': "same_rest s s'" "at s' k (Node (Node c Black y d) Red g (Node (Node l Red z r) Black p b))" by blast
    with loop have "insert_fixup_loop z s = insert_fixup_loop g s'" by simp
    moreover have "red_at s' k (nodes (plug k (Node u Black g (Node (Node l Red z r) Red p b)))) g"
      using s'(2) assms(2-) u unfolding red_at_def by (intro exI conjI) (assumption, auto simp: nodes_plug)
    ultimately show ?thesis using s'(1) turned_up by blast
  qed
qed

text \<open>The loop restores the tree: a red node with a valid context around it ends as a valid tree with the same nodes in the same order.\<close>

lemma insert_fixup_loop_done:
  assumes "red_at s k ns z"
  shows "loop_done s ns (insert_fixup_loop z s)"
  using assms
proof (induction "length k" arbitrary: s k z rule: less_induct)
  case less
  then obtain l r where a: "at s k (Node l Red z r)" "ctx_ok (bh l) k" "ns = nodes (plug k (Node l Red z r))"
    and sub: "inv_c l" "inv_c r" "inv_h l" "inv_h r" "bh l = bh r" "col l = Black" "col r = Black" unfolding red_at_def by blast
  let ?t = "Node l Red z r"
  show ?case
  proof (cases "ctx_col k = Black")
    case True
    then have exit: "insert_fixup_loop z s = Some s" using a(1) by (intro insert_loop_exit)
    have "rb_valid (blacken (plug k ?t))"
    proof (cases "k = []")
      case False
      then have "rb_valid (plug k ?t)" using True a sub by (intro plug_valid) auto
      then show ?thesis by (simp add: blacken_id rb_valid_def)
    qed (use sub in \<open>simp add: rb_valid_def\<close>)
    then show ?thesis
      unfolding exit loop_done_def using a at_plug [of s k ?t] by (intro exI [of _ s] exI [of _ "plug k ?t"]) simp
  next
    case False
    then have red: "ctx_col k = Red" by (cases "ctx_col k") simp_all
    obtain f1 f2 k' where k: "k = f1 # f2 # k'" using red a(2) by (cases k; cases "hd k"; cases "tl k") auto
    have "turned s k' ns z"
      using a k red sub
      by (cases f1; cases f2)
        (auto simp: at_LeftOf at_RightOf nodes_plug [symmetric] simp del: nodes.simps
           intro!: turn_left_outer turn_left_inner turn_right_outer turn_right_inner)
    then show ?thesis using less.hyps [of k'] k unfolding turned_def by (auto intro: loop_done_step)
  qed
qed

text \<open>The whole fix-up, which blackens the root at the end.\<close>

lemma EEVDFRBInsertFixup_valid:
  assumes "red_at s k ns z"
  shows "\<exists>s' t. EEVDFRBInsertFixup z s = Some s' \<and> same_rest s s' \<and> at s' [] t \<and> nodes t = ns \<and> rb_valid t"
proof -
  obtain s1 t where s1: "insert_fixup_loop z s = Some s1" "same_rest s s1" "at s1 [] t" "nodes t = ns" "rb_valid (blacken t)"
    using insert_fixup_loop_done [OF assms] unfolding loop_done_def by blast
  have "ns \<noteq> []" using assms by (auto simp: red_at_def nodes_plug)
  then obtain l c a r where t: "t = Node l c a r" using s1(4) by (cases t) auto
  have "at (set_color a (col_val Black) s1) [] (Node l Black a r)" using s1(3) unfolding t by (rule at_recolor)
  moreover have "rb_root s1 = Some a" using s1(3) by (simp add: at_def t)
  ultimately show ?thesis
    using s1 t by (intro exI [of _ "set_color a 0 s1"] exI [of _ "Node l Black a r"]) (auto simp: EEVDFRBInsertFixup_def)
qed

section \<open>The node pool\<close>

definition node_used :: "'a rb_state_scheme \<Rightarrow> nat \<Rightarrow> bool" where
  "node_used s n \<longleftrightarrow> bit (rb_node_pool_bitmap s ! (n div 32)) (n mod 32)"

definition mark_used :: "nat \<Rightarrow> 'a rb_state_scheme \<Rightarrow> 'a rb_state_scheme" where
  "mark_used n s = s\<lparr>rb_node_pool_bitmap :=
     (rb_node_pool_bitmap s)[n div 32 := rb_node_pool_bitmap s ! (n div 32) OR push_bit (n mod 32) 1]\<rparr>"

lemma alloc_words_finds:
  assumes "set ws \<subseteq> {0, 1}" "\<exists>w \<in> set ws. \<exists>b < 32. \<not> bit (rb_node_pool_bitmap s ! w) b"
  shows "\<exists>n < 64. \<not> node_used s n \<and> alloc_words ws slot s = (Some n, EEVDFRBNodeInit n slot (mark_used n s))"
  using assms
proof (induction ws)
  case (Cons w ws)
  let ?av = "NOT (rb_node_pool_bitmap s ! w)"
  have w: "w = 0 \<or> w = 1" using Cons.prems(1) by auto
  show ?case
  proof (cases "?av = 0")
    case True
    then have "\<not> bit ?av b" for b by simp
    then have "\<forall>b < 32. bit (rb_node_pool_bitmap s ! w) b" by (simp add: bit_simps)
    then show ?thesis using Cons True by auto
  next
    case False
    let ?n = "w * 32 + ctz ?av"
    have c: "ctz ?av < 32" using ctz_less [OF False] by simp
    then have dm: "?n div 32 = w" "?n mod 32 = ctz ?av" "?n < 64" using w by auto
    moreover have "\<not> node_used s ?n" using bit_ctz [OF False] dm by (simp add: node_used_def bit_simps)
    ultimately show ?thesis
      using False by (intro exI [of _ ?n]) (simp add: EEVDF_MAX_PROCESSES_def mark_used_def Let_def)
  qed
qed simp


section \<open>The run queue\<close>

abbreviation key_of :: "'a rb_state_scheme \<Rightarrow> nat \<Rightarrow> u64" where
  "key_of s n \<equiv> vruntime (processes s (node_slot s n))"

text \<open>
  The invariant of the run queue: a valid red-black tree in order of virtual run time, with the leftmost
  node cached; the nodes in use are the nodes of the tree, and they and the processes point at each other.
\<close>

definition pool_ok :: "'a rb_state_scheme \<Rightarrow> nat list \<Rightarrow> bool" where
  "pool_ok s ns \<longleftrightarrow> length (rb_node_pool_bitmap s) = 2 \<and> (\<forall>n < 64. node_used s n \<longleftrightarrow> n \<in> set ns) \<and> (\<forall>n \<in> set ns. n < 64)"

definition linked :: "'a rb_state_scheme \<Rightarrow> nat list \<Rightarrow> bool" where
  "linked s ns \<longleftrightarrow> (\<forall>n \<in> set ns. node_slot s n < EEVDF_MAX_PROCESSES \<and> rb_node (processes s (node_slot s n)) = Some n)
     \<and> (\<forall>p n. rb_node (processes s p) = Some n \<longrightarrow> n \<in> set ns \<and> node_slot s n = p)"

definition first_ptr :: "nat list \<Rightarrow> nat option" where
  "first_ptr ns = (case ns of [] \<Rightarrow> None | n # _ \<Rightarrow> Some n)"

definition queue_ok :: "'a rb_state_scheme \<Rightarrow> rbtree \<Rightarrow> bool" where
  "queue_ok s t \<longleftrightarrow> at s [] t \<and> rb_valid t \<and> sorted (map (key_of s) (nodes t)) \<and> rb_leftmost s = first_ptr (nodes t)
     \<and> pool_ok s (nodes t) \<and> linked s (nodes t)"

lemma linked_inj: "linked s ns \<Longrightarrow> inj_on (node_slot s) (set ns)"
  unfolding linked_def inj_on_def by (metis option.inject)

lemma linked_length:
  assumes "linked s ns" "distinct ns" "p < EEVDF_MAX_PROCESSES" "rb_node (processes s p) = None"
  shows "length ns < 64"
proof -
  have "node_slot s ` set ns \<subseteq> {..<64} - {p}" using assms unfolding linked_def EEVDF_MAX_PROCESSES_def by force
  then have "card (node_slot s ` set ns) \<le> card ({..<64 :: nat} - {p})" by (intro card_mono) auto
  moreover have "card (node_slot s ` set ns) = length ns"
    using linked_inj [OF assms(1)] assms(2) by (simp add: card_image distinct_card)
  moreover have "card ({..<64 :: nat} - {p}) = 63" using assms(3) by (simp add: EEVDF_MAX_PROCESSES_def)
  ultimately show ?thesis by simp
qed

lemma EEVDFAllocRBNode_finds:
  assumes "pool_ok s ns" "length ns < 64"
  shows "\<exists>n < 64. n \<notin> set ns \<and> EEVDFAllocRBNode slot s = (Some n, EEVDFRBNodeInit n slot (mark_used n s))"
proof -
  have "card (set ns) < card {..<64 :: nat}" using assms(2) card_length [of ns] by simp
  then have "\<not> {..<64} \<subseteq> set ns" by (meson List.finite_set card_mono not_le)
  then obtain m where m: "m < 64" "\<not> node_used s m" using assms(1) by (auto simp: pool_ok_def)
  then have "\<exists>w \<in> set [0..<2]. \<exists>b < 32. \<not> bit (rb_node_pool_bitmap s ! w) b"
    by (intro bexI [of _ "m div 32"] exI [of _ "m mod 32"]) (auto simp: node_used_def)
  moreover have "set [0..<2] \<subseteq> {0, 1 :: nat}" by auto
  ultimately obtain n where n: "n < 64" "\<not> node_used s n" "alloc_words [0..<2] slot s = (Some n, EEVDFRBNodeInit n slot (mark_used n s))"
    using alloc_words_finds by blast
  moreover have "(EEVDF_MAX_PROCESSES + 31) div 32 = 2" by (simp add: EEVDF_MAX_PROCESSES_def)
  ultimately show ?thesis using assms(1) unfolding EEVDFAllocRBNode_def pool_ok_def by metis
qed

section \<open>The search\<close>

fun link_of :: "ctx \<Rightarrow> rb_link" where
  "link_of [] = Root_link"
| "link_of (LeftOf c a r # k) = Left_link a"
| "link_of (RightOf c a l # k) = Right_link a"

lemma deref_link_of: "at s k t \<Longrightarrow> deref_link (link_of k) s = root_ptr t"
  by (cases k rule: link_of.cases) (auto simp: at_def)

lemma find_link_place:
  assumes "at s k t" "sorted (map (key_of s) (nodes t))"
  shows "\<exists>k'. find_link v s (link_of k) (ctx_parent k) lm = Some (link_of k', ctx_parent k', lm \<and> filter (\<lambda>n. key_of s n \<le> v) (nodes t) = [])
    \<and> at s k' Leaf \<and> plug k' Leaf = plug k t
    \<and> ctx_before k' = ctx_before k @ filter (\<lambda>n. key_of s n \<le> v) (nodes t)
    \<and> ctx_after k' = filter (\<lambda>n. v < key_of s n) (nodes t) @ ctx_after k"
  using assms
proof (induction t arbitrary: k lm)
  case Leaf
  then show ?case using deref_link_of [OF Leaf(1)] by (intro exI [of _ k]) (simp add: find_link.simps [of _ _ "link_of k"])
next
  case (Node l c a r)
  have d: "deref_link (link_of k) s = Some a" using deref_link_of [OF Node.prems(1)] by simp
  have so: "\<forall>n \<in> set (nodes l). key_of s n \<le> key_of s a" "\<forall>n \<in> set (nodes r). key_of s a \<le> key_of s n"
    "sorted (map (key_of s) (nodes l))" "sorted (map (key_of s) (nodes r))"
    using Node.prems(2) by (auto simp: sorted_append)
  show ?case
  proof (cases "v < key_of s a")
    case True
    then have "\<not> key_of s a \<le> v" by simp
    moreover have "filter (\<lambda>n. key_of s n \<le> v) (nodes r) = []" "filter (\<lambda>n. v < key_of s n) (nodes r) = nodes r"
      using so True by (auto simp: filter_empty_conv not_le intro!: filter_True)
    ultimately show ?thesis
      using Node.IH(1) [of "LeftOf c a r # k" lm] Node.prems(1) so True d
      by (simp add: find_link.simps [of _ _ "link_of k"] at_LeftOf)
  next
    case False
    then have "key_of s a \<le> v" by simp
    moreover have "filter (\<lambda>n. key_of s n \<le> v) (nodes l) = nodes l" "filter (\<lambda>n. v < key_of s n) (nodes l) = []"
      using so False by (auto simp: filter_empty_conv not_less intro!: filter_True)
    ultimately show ?thesis
      using Node.IH(2) [of "RightOf c a l # k" False] Node.prems(1) so False d
      by (simp add: find_link.simps [of _ _ "link_of k"] at_RightOf)
  qed
qed

lemma at_cong:
  assumes "\<And>x. x \<in> set (nodes t) \<union> set (ctx_nodes k) \<Longrightarrow> node_left s' x = node_left s x \<and> node_right s' x = node_right s x
    \<and> node_parent s' x = node_parent s x \<and> node_color s' x = node_color s x" and "rb_root s' = rb_root s"
  shows "at s' k t = at s k t"
  unfolding at_def using assms rep_cong [of t s' s] ctx_cong [of k s' s] by auto

lemma ctx_nodes_set: "set (ctx_nodes k) = set (ctx_before k) \<union> set (ctx_after k)"
  by (induction k rule: ctx_nodes.induct) auto

lemma at_store_link:
  assumes "at s k Leaf" "n \<notin> set (ctx_nodes k)" "node_left s n = None" "node_right s n = None" "node_color s n = 1"
    and "node_parent s n = ctx_parent k"
  shows "at (store_link (link_of k) (Some n) s) k (Node Leaf Red n Leaf)"
  using assms by (cases k rule: link_of.cases) (auto simp: at_def)

lemma store_link_rest [simp]: "same_rest s (store_link l v t) = same_rest s t"
  by (cases l) (simp_all add: same_rest_def set_left_def set_right_def)

lemma node_init_fields [simp]:
  "node_left (EEVDFRBNodeInit n p s) = (node_left s)(n := None)" "node_right (EEVDFRBNodeInit n p s) = (node_right s)(n := None)"
  "node_parent (EEVDFRBNodeInit n p s) = (node_parent s)(n := None)" "node_color (EEVDFRBNodeInit n p s) = (node_color s)(n := 1)"
  "node_slot (EEVDFRBNodeInit n p s) = (node_slot s)(n := p)" "rb_root (EEVDFRBNodeInit n p s) = rb_root s"
  "processes (EEVDFRBNodeInit n p s) = processes s" "rb_leftmost (EEVDFRBNodeInit n p s) = rb_leftmost s"
  "rb_node_pool_bitmap (EEVDFRBNodeInit n p s) = rb_node_pool_bitmap s" "rb_state.more (EEVDFRBNodeInit n p s) = rb_state.more s"
  by (simp_all add: EEVDFRBNodeInit_def set_left_def set_right_def set_parent_def set_color_def)

lemma mark_used_fields [simp]:
  "node_left (mark_used n s) = node_left s" "node_right (mark_used n s) = node_right s" "node_parent (mark_used n s) = node_parent s"
  "node_color (mark_used n s) = node_color s" "node_slot (mark_used n s) = node_slot s" "rb_root (mark_used n s) = rb_root s"
  "processes (mark_used n s) = processes s" "rb_leftmost (mark_used n s) = rb_leftmost s" "rb_state.more (mark_used n s) = rb_state.more s"
  by (simp_all add: mark_used_def)

lemma upd_proc_fields [simp]:
  "node_left (upd_proc i f s) = node_left s" "node_right (upd_proc i f s) = node_right s" "node_parent (upd_proc i f s) = node_parent s"
  "node_color (upd_proc i f s) = node_color s" "node_slot (upd_proc i f s) = node_slot s" "rb_root (upd_proc i f s) = rb_root s"
  "processes (upd_proc i f s) = (processes s)(i := f (processes s i))" "rb_leftmost (upd_proc i f s) = rb_leftmost s"
  "rb_node_pool_bitmap (upd_proc i f s) = rb_node_pool_bitmap s" "rb_state.more (upd_proc i f s) = rb_state.more s"
  by (simp_all add: upd_proc_def)

lemma mark_used_pool:
  assumes "pool_ok s ns" "n < 64" "rb_node_pool_bitmap s' = rb_node_pool_bitmap (mark_used n s)" "set ns' = insert n (set ns)"
  shows "pool_ok s' ns'"
proof -
  have l: "length (rb_node_pool_bitmap s) = 2" using assms(1) by (simp add: pool_ok_def)
  have "node_used s' m \<longleftrightarrow> m = n \<or> node_used s m" if "m < 64" for m
  proof (cases "m div 32 = n div 32")
    case True
    then have "m = n \<longleftrightarrow> m mod 32 = n mod 32" by (metis mod_mult_div_eq)
    moreover have "n div 32 < 2" using assms(2) by simp
    ultimately show ?thesis using True l by (auto simp: node_used_def assms(3) mark_used_def bit_simps)
  qed (use l in \<open>auto simp: node_used_def assms(3) mark_used_def\<close>)
  then show ?thesis using assms l by (auto simp: pool_ok_def mark_used_def)
qed

lemma sorted_insert_filter:
  assumes "sorted (map f ns)" "f n = v"
  shows "sorted (map f (filter (\<lambda>m. f m \<le> v) ns @ n # filter (\<lambda>m. v < f m) ns))"
  using assms by (auto simp: sorted_append sorted_filter)

lemma first_ptr_append: "first_ptr (xs @ ys) = (if xs = [] then first_ptr ys else first_ptr xs)"
  by (cases xs) (simp_all add: first_ptr_def)

text \<open>The state before the fix-up: the node hangs red and without children at its place.\<close>

definition placed :: "'a rb_state_scheme \<Rightarrow> nat \<Rightarrow> nat \<Rightarrow> nat list \<Rightarrow> nat list \<Rightarrow> 'a rb_state_scheme \<Rightarrow> bool" where
  "placed s p n lo hi s' \<longleftrightarrow> (\<exists>k. red_at s' k (lo @ n # hi) n) \<and> node_slot s' = (node_slot s)(n := p)
     \<and> processes s' = (processes s)(p := (processes s p)\<lparr>rb_node := Some n\<rparr>) \<and> rb_state.more s' = rb_state.more s
     \<and> rb_node_pool_bitmap s' = rb_node_pool_bitmap (mark_used n s) \<and> rb_leftmost s' = (if lo = [] then Some n else rb_leftmost s)"

lemma EEVDFRBInsert_places:
  assumes q: "queue_ok s t" and p: "p < EEVDF_MAX_PROCESSES" "rb_node (processes s p) = None"
    and v: "v = vruntime (processes s p)"
    and lo: "lo = filter (\<lambda>m. key_of s m \<le> v) (nodes t)" and hi: "hi = filter (\<lambda>m. v < key_of s m) (nodes t)"
  shows "\<exists>n s'. EEVDFRBInsert p s = EEVDFRBInsertFixup n s' \<and> placed s p n lo hi s' \<and> n < 64 \<and> n \<notin> set (nodes t) \<and> nodes t = lo @ hi"
proof -
  have at: "at s [] t" and valid: "rb_valid t" and so: "sorted (map (key_of s) (nodes t))"
    and pool: "pool_ok s (nodes t)" and lk: "linked s (nodes t)" using q by (auto simp: queue_ok_def)
  have dist: "distinct (nodes t)" using at by (simp add: at_def)
  obtain n where n: "n < 64" "n \<notin> set (nodes t)" and al: "EEVDFAllocRBNode p s = (Some n, EEVDFRBNodeInit n p (mark_used n s))"
    using EEVDFAllocRBNode_finds [OF pool linked_length [OF lk dist p]] by blast
  let ?s2 = "upd_proc p (\<lambda>q. q\<lparr>rb_node := Some n\<rparr>) (EEVDFRBNodeInit n p (mark_used n s))"
  have keys: "key_of ?s2 m = key_of s m" if "m \<in> set (nodes t)" for m using that n(2) by auto
  have fs: "filter (\<lambda>m. key_of ?s2 m \<le> v) (nodes t) = lo" "filter (\<lambda>m. v < key_of ?s2 m) (nodes t) = hi"
    unfolding lo hi by (intro filter_cong refl; simp only: keys)+
  have at2: "at ?s2 [] t" using at n(2) by (subst at_cong [where s = s]) auto
  have me: "map (key_of ?s2) (nodes t) = map (key_of s) (nodes t)" by (intro map_cong refl; simp only: keys)
  have so2: "sorted (map (key_of ?s2) (nodes t))" unfolding me by (rule so)
  obtain k where k: "find_link v ?s2 Root_link None True = Some (link_of k, ctx_parent k, lo = [])"
      "at ?s2 k Leaf" "plug k Leaf = t" "ctx_before k = lo" "ctx_after k = hi"
    using find_link_place [OF at2 so2, of v True] by (simp only: fs link_of.simps ctx_parent.simps ctx_before.simps ctx_after.simps plug.simps) auto
  have nk: "nodes t = lo @ hi" using nodes_plug [of k Leaf] k by simp
  let ?s4 = "set_parent n (ctx_parent k) (if lo = [] then ?s2\<lparr>rb_leftmost := Some n\<rparr> else ?s2)"
  have kn: "n \<notin> set (ctx_nodes k)" using n(2) nk k(4,5) ctx_nodes_set [of k] by auto
  have at4: "at ?s4 k Leaf" using k(2) kn by (subst at_cong [where s = ?s2]) auto
  let ?s5 = "store_link (link_of k) (Some n) ?s4"
  have "at ?s5 k (Node Leaf Red n Leaf)" using at4 kn by (intro at_store_link) auto
  moreover have "ctx_ok 0 k" using valid_plug [of k Leaf] valid k(3) by simp
  ultimately have "red_at ?s5 k (lo @ n # hi) n"
    unfolding red_at_def using k(4,5) by (intro exI [of _ Leaf]) (simp add: nodes_plug)
  moreover have "same_rest ?s4 ?s5" by simp
  ultimately have "placed s p n lo hi ?s5" unfolding placed_def same_rest_def by (auto simp: set_parent_def)
  moreover have "EEVDFRBInsert p s = EEVDFRBInsertFixup n ?s5"
    using p(2) al k(1) v by (simp add: EEVDFRBInsert_def Let_def)
  ultimately show ?thesis using n nk by blast
qed

lemma same_rest_fields:
  assumes "same_rest s s'"
  shows "processes s' = processes s" "node_slot s' = node_slot s" "rb_node_pool_bitmap s' = rb_node_pool_bitmap s"
    "rb_leftmost s' = rb_leftmost s" "rb_state.more s' = rb_state.more s"
  using assms by (simp_all add: same_rest_def)

lemma linkedD:
  assumes "linked s ns"
  shows "m \<in> set ns \<Longrightarrow> node_slot s m < EEVDF_MAX_PROCESSES" "m \<in> set ns \<Longrightarrow> rb_node (processes s (node_slot s m)) = Some m"
    "rb_node (processes s p) = Some n \<Longrightarrow> n \<in> set ns" "rb_node (processes s p) = Some n \<Longrightarrow> node_slot s n = p"
  using assms unfolding linked_def by blast+

lemma linked_insert:
  assumes "linked s ns" "n \<notin> set ns" "p < EEVDF_MAX_PROCESSES" "rb_node (processes s p) = None"
    and "node_slot s' = (node_slot s)(n := p)" "processes s' = (processes s)(p := (processes s p)\<lparr>rb_node := Some n\<rparr>)"
    and "set ns' = insert n (set ns)"
  shows "linked s' ns'"
proof -
  have old: "node_slot s m < EEVDF_MAX_PROCESSES" "rb_node (processes s (node_slot s m)) = Some m" "m \<noteq> n" "node_slot s m \<noteq> p"
    if "m \<in> set ns" for m
    using that assms(2,4) linkedD(1,2) [OF assms(1) that] by auto
  have "node_slot s' m < EEVDF_MAX_PROCESSES \<and> rb_node (processes s' (node_slot s' m)) = Some m" if "m \<in> set ns'" for m
    using that old [of m] assms(3,5-7) by (cases "m = n") simp_all
  moreover have "m \<in> set ns' \<and> node_slot s' m = i" if "rb_node (processes s' i) = Some m" for i m
  proof (cases "i = p")
    case False
    then have "m \<in> set ns" "node_slot s m = i" using that assms(6) linkedD(3,4) [OF assms(1)] by simp_all
    then show ?thesis using old [of m] assms(5,7) by simp
  qed (use that assms in simp)
  ultimately show ?thesis unfolding linked_def by blast
qed

text \<open>
  Inserting a process that is not queued: the node is placed behind the nodes with a smaller or equal
  virtual run time and before the others, and the invariant holds again.
\<close>

lemma EEVDFRBInsert_queue:
  assumes q: "queue_ok s t" and p: "p < EEVDF_MAX_PROCESSES" "rb_node (processes s p) = None"
    and v: "v = vruntime (processes s p)"
    and lo: "lo = filter (\<lambda>m. key_of s m \<le> v) (nodes t)" and hi: "hi = filter (\<lambda>m. v < key_of s m) (nodes t)"
  shows "\<exists>s' t' n. EEVDFRBInsert p s = Some s' \<and> queue_ok s' t' \<and> nodes t = lo @ hi \<and> nodes t' = lo @ n # hi \<and> n \<notin> set (nodes t)
    \<and> node_slot s' = (node_slot s)(n := p)
    \<and> processes s' = (processes s)(p := (processes s p)\<lparr>rb_node := Some n\<rparr>) \<and> rb_state.more s' = rb_state.more s"
proof -
  obtain n s1 where n: "n < 64" "n \<notin> set (nodes t)" "nodes t = lo @ hi" and run: "EEVDFRBInsert p s = EEVDFRBInsertFixup n s1"
    and pl: "placed s p n lo hi s1" using EEVDFRBInsert_places [OF assms] by blast
  obtain k where "red_at s1 k (lo @ n # hi) n" using pl by (auto simp: placed_def)
  from EEVDFRBInsertFixup_valid [OF this]
  obtain s' t' where s': "EEVDFRBInsertFixup n s1 = Some s'" "same_rest s1 s'" "at s' [] t'" "nodes t' = lo @ n # hi" "rb_valid t'" by blast
  have f: "node_slot s' = (node_slot s)(n := p)" "processes s' = (processes s)(p := (processes s p)\<lparr>rb_node := Some n\<rparr>)"
      "rb_state.more s' = rb_state.more s" "rb_node_pool_bitmap s' = rb_node_pool_bitmap (mark_used n s)"
      "rb_leftmost s' = (if lo = [] then Some n else rb_leftmost s)"
    using pl same_rest_fields [OF s'(2)] by (auto simp: placed_def)
  have set': "set (nodes t') = insert n (set (nodes t))" using n(3) s'(4) by auto
  have keys: "key_of s' m = (if m = n then v else key_of s m)" for m using f n(2) v by auto
  have "m \<noteq> n" if "m \<in> set lo \<union> set hi" for m using that n(2,3) by auto
  then have "map (key_of s') (nodes t') = map (key_of s) lo @ v # map (key_of s) hi"
    unfolding s'(4) by (simp add: keys cong: map_cong)
  moreover have "sorted (map (key_of s) (nodes t))" using q by (simp add: queue_ok_def)
  moreover have "\<forall>m \<in> set lo. key_of s m \<le> v" "\<forall>m \<in> set hi. v \<le> key_of s m" unfolding lo hi by auto
  ultimately have "sorted (map (key_of s') (nodes t'))" using n(3) by (auto simp: sorted_append)
  moreover have "rb_leftmost s' = first_ptr (nodes t')"
    using q n(3) f(5) unfolding s'(4) queue_ok_def by (auto simp: first_ptr_append) (simp add: first_ptr_def)
  moreover have "pool_ok s' (nodes t')" using q n(1) f(4) set' mark_used_pool [of s "nodes t" n s'] by (simp add: queue_ok_def)
  moreover have "linked s' (nodes t')"
    using q by (intro linked_insert [OF _ n(2) p f(1,2) set']) (simp add: queue_ok_def)
  ultimately have "queue_ok s' t'" using s'(3,5) by (simp add: queue_ok_def)
  then show ?thesis using run s'(1,4) n f(1-3) by auto
qed

section \<open>The deletion loop\<close>

lemma at_sub_left: "at s k (Node l c x r) \<Longrightarrow> rep s (Some x) l"
  by (simp add: at_def)

lemma at_sub_right: "at s k (Node l c x r) \<Longrightarrow> rep s (Some x) r"
  by (simp add: at_def)

lemma delete_left_recolor:
  assumes "at s k (Node t c p (Node a Black w b))" "col a = Black" "col b = Black"
  shows "\<exists>s'. delete_left_black p (Some w) s = Some (Some p, ctx_parent k, s') \<and> at s' k (Node t c p (Node a Red w b)) \<and> same_rest s s'"
proof -
  have "is_black s (node_left s w)" "is_black s (node_right s w)" "node_parent s p = ctx_parent k"
    using assms is_black_rep [of s "Some w" a] is_black_rep [of s "Some w" b] by (simp_all add: at_def)
  moreover have "at (set_color w (col_val Red) s) k (Node t c p (Node a Red w b))" using assms(1) by (rule at_recolor_right)
  ultimately show ?thesis by (simp add: delete_left_black_def opt_store_def)
qed

lemma delete_left_outer:
  assumes "at s k (Node t c p (Node a Black w (Node d Red y e)))"
  shows "\<exists>s'. delete_left_black p (Some w) s = Some (rb_root s', Some p, s')
    \<and> at s' k (Node (Node t Black p a) c w (Node d Black y e)) \<and> same_rest s s'"
proof -
  have f: "node_right s w = Some y" "\<not> is_black s (Some y)" "node_color s p = col_val c"
    using assms by (simp_all add: at_def is_black_def)
  let ?s = "set_color y (col_val Black) (set_color p (col_val Black) (set_color w (col_val c) s))"
  have "at (set_color p (col_val Black) (set_color w (col_val c) s)) k (Node t Black p (Node a c w (Node d Red y e)))"
    by (intro at_recolor [where c = c] at_recolor_right [where b = Black] assms)
  then have "at ?s k (Node t Black p (Node a c w (Node d Black y e)))"
    by (rule at_recolor_right2)
  from rotate_left [OF this] show ?thesis
    using f by (auto simp: delete_left_black_def opt_store_def)
qed

lemma delete_left_inner:
  assumes "at s k (Node t c p (Node (Node d Red y e) Black w b))" "col b = Black"
  shows "\<exists>s'. delete_left_black p (Some w) s = Some (rb_root s', Some p, s')
    \<and> at s' k (Node (Node t Black p d) c y (Node e Black w b)) \<and> same_rest s s'"
proof -
  have f: "node_left s w = Some y" "\<not> is_black s (Some y)" "is_black s (node_right s w)"
    using assms is_black_rep [of s "Some w" b] by (simp_all add: at_def is_black_def)
  have "at (set_color w (col_val Red) (set_color y (col_val Black) s)) (RightOf c p t # k) (Node (Node d Black y e) Red w b)"
    using assms(1) by (intro at_recolor [where c = Black] at_recolor_left [where b = Red]) (simp add: at_RightOf)
  from rotate_right [OF this] obtain s1 where s1: "EEVDFRBRotateRight w (set_color w 1 (set_color y 0 s)) = Some s1" "same_rest s s1"
    and at1: "at s1 k (Node t c p (Node d Black y (Node e Red w b)))" by (auto simp: at_RightOf)
  have f1: "node_right s1 p = Some y" "node_right s1 y = Some w" "node_color s1 p = col_val c" using at1 by (simp_all add: at_def)
  let ?s = "set_color w (col_val Black) (set_color p (col_val Black) (set_color y (col_val c) s1))"
  have "at (set_color p (col_val Black) (set_color y (col_val c) s1)) k (Node t Black p (Node d c y (Node e Red w b)))"
    by (intro at_recolor [where c = c] at_recolor_right [where b = Black] at1)
  then have "at ?s k (Node t Black p (Node d c y (Node e Black w b)))"
    by (rule at_recolor_right2)
  from rotate_left [OF this] show ?thesis
    using f f1 s1 by (auto simp: delete_left_black_def opt_store_def intro: same_rest_trans)
qed

lemma delete_left_red:
  assumes "at s k (Node t c p (Node a Red w b))"
  shows "\<exists>s'. delete_left p s = delete_left_black p (root_ptr a) s' \<and> at s' k (Node (Node t Red p a) Black w b) \<and> same_rest s s'"
proof -
  have f: "node_right s p = Some w" "is_red s (Some w)" using assms by (simp_all add: at_def is_red_def)
  have "at (set_color p (col_val Red) (set_color w (col_val Black) s)) k (Node t Red p (Node a Black w b))"
    by (intro at_recolor [where c = c] at_recolor_right [where b = Red] assms)
  from rotate_left [OF this] obtain s' where s': "EEVDFRBRotateLeft p (set_color p 1 (set_color w 0 s)) = Some s'"
      "at s' k (Node (Node t Red p a) Black w b)" "same_rest s s'" by auto
  moreover have "node_right s' p = root_ptr a" using s'(2) by (simp add: at_def)
  ultimately show ?thesis using f by (auto simp: delete_left_def opt_store_def)
qed

lemma delete_right_recolor:
  assumes "at s k (Node (Node a Black w b) c p t)" "col a = Black" "col b = Black"
  shows "\<exists>s'. delete_right_black p (Some w) s = Some (Some p, ctx_parent k, s') \<and> at s' k (Node (Node a Red w b) c p t) \<and> same_rest s s'"
proof -
  have "is_black s (node_left s w)" "is_black s (node_right s w)" "node_parent s p = ctx_parent k"
    using assms is_black_rep [of s "Some w" a] is_black_rep [of s "Some w" b] by (simp_all add: at_def)
  moreover have "at (set_color w (col_val Red) s) k (Node (Node a Red w b) c p t)" using assms(1) by (rule at_recolor_left)
  ultimately show ?thesis by (simp add: delete_right_black_def opt_store_def)
qed

lemma delete_right_outer:
  assumes "at s k (Node (Node (Node d Red y e) Black w a) c p t)"
  shows "\<exists>s'. delete_right_black p (Some w) s = Some (rb_root s', Some p, s')
    \<and> at s' k (Node (Node d Black y e) c w (Node a Black p t)) \<and> same_rest s s'"
proof -
  have f: "node_left s w = Some y" "\<not> is_black s (Some y)" "node_color s p = col_val c"
    using assms by (simp_all add: at_def is_black_def)
  let ?s = "set_color y (col_val Black) (set_color p (col_val Black) (set_color w (col_val c) s))"
  have "at (set_color p (col_val Black) (set_color w (col_val c) s)) k (Node (Node (Node d Red y e) c w a) Black p t)"
    by (intro at_recolor [where c = c] at_recolor_left [where b = Black] assms)
  then have "at ?s k (Node (Node (Node d Black y e) c w a) Black p t)"
    by (rule at_recolor_left2)
  from rotate_right [OF this] show ?thesis
    using f by (auto simp: delete_right_black_def opt_store_def)
qed

lemma delete_right_inner:
  assumes "at s k (Node (Node b Black w (Node d Red y e)) c p t)" "col b = Black"
  shows "\<exists>s'. delete_right_black p (Some w) s = Some (rb_root s', Some p, s')
    \<and> at s' k (Node (Node b Black w d) c y (Node e Black p t)) \<and> same_rest s s'"
proof -
  have f: "node_right s w = Some y" "\<not> is_black s (Some y)" "is_black s (node_left s w)"
    using assms is_black_rep [of s "Some w" b] by (simp_all add: at_def is_black_def)
  have "at (set_color w (col_val Red) (set_color y (col_val Black) s)) (LeftOf c p t # k) (Node b Red w (Node d Black y e))"
    using assms(1) by (intro at_recolor [where c = Black] at_recolor_right [where b = Red]) (simp add: at_LeftOf)
  from rotate_left [OF this] obtain s1 where s1: "EEVDFRBRotateLeft w (set_color w 1 (set_color y 0 s)) = Some s1" "same_rest s s1"
    and at1: "at s1 k (Node (Node (Node b Red w d) Black y e) c p t)" by (auto simp: at_LeftOf)
  have f1: "node_left s1 p = Some y" "node_left s1 y = Some w" "node_color s1 p = col_val c" using at1 by (simp_all add: at_def)
  let ?s = "set_color w (col_val Black) (set_color p (col_val Black) (set_color y (col_val c) s1))"
  have "at (set_color p (col_val Black) (set_color y (col_val c) s1)) k (Node (Node (Node b Red w d) c y e) Black p t)"
    by (intro at_recolor [where c = c] at_recolor_left [where b = Black] at1)
  then have "at ?s k (Node (Node (Node b Black w d) c y e) Black p t)"
    by (rule at_recolor_left2)
  from rotate_right [OF this] show ?thesis
    using f f1 s1 by (auto simp: delete_right_black_def opt_store_def intro: same_rest_trans)
qed

lemma delete_right_red:
  assumes "at s k (Node (Node b Red w a) c p t)"
  shows "\<exists>s'. delete_right p s = delete_right_black p (root_ptr a) s' \<and> at s' k (Node b Black w (Node a Red p t)) \<and> same_rest s s'"
proof -
  have f: "node_left s p = Some w" "is_red s (Some w)" using assms by (simp_all add: at_def is_red_def)
  have "at (set_color p (col_val Red) (set_color w (col_val Black) s)) k (Node (Node b Black w a) Red p t)"
    by (intro at_recolor [where c = c] at_recolor_left [where b = Red] assms)
  from rotate_right [OF this] obtain s' where s': "EEVDFRBRotateRight p (set_color p 1 (set_color w 0 s)) = Some s'"
      "at s' k (Node b Black w (Node a Red p t))" "same_rest s s'" by auto
  moreover have "node_left s' p = root_ptr a" using s'(2) by (simp add: at_def)
  ultimately show ?thesis using f by (auto simp: delete_right_def opt_store_def)
qed

text \<open>A subtree that is one black node short, unless its root is red, in an otherwise valid tree.\<close>

definition short_at :: "'a rb_state_scheme \<Rightarrow> ctx \<Rightarrow> nat list \<Rightarrow> rbtree \<Rightarrow> bool" where
  "short_at s k ns t \<longleftrightarrow> at s k t \<and> ctx_ok (bh t + 1) k \<and> inv_c (blacken t) \<and> inv_h t \<and> ns = nodes (plug k t)"

definition del_done :: "'a rb_state_scheme \<Rightarrow> nat list \<Rightarrow> (nat option \<times> 'a rb_state_scheme) option \<Rightarrow> bool" where
  "del_done s ns res \<longleftrightarrow> (\<exists>s' k t. res = Some (root_ptr t, s') \<and> same_rest s s' \<and> at s' k t \<and> rb_valid (plug k (blacken t))
     \<and> nodes (plug k t) = ns)"

lemma del_done_step: "same_rest s s1 \<Longrightarrow> del_done s1 ns res \<Longrightarrow> del_done s ns res"
  unfolding del_done_def using same_rest_trans by blast

lemma blacken_facts:
  "inv_h (blacken t) = inv_h t" "col (blacken t) = Black" "inv_c t \<Longrightarrow> inv_c (blacken t)" "col t = Red \<Longrightarrow> bh (blacken t) = bh t + 1"
  by (cases t; auto)+

lemma del_exit:
  assumes "short_at s k ns t" "k = [] \<or> col t = Red"
  shows "del_done s ns (delete_fixup_loop (root_ptr t) par s)"
proof -
  have a: "at s k t" "ctx_ok (bh t + 1) k" "inv_c (blacken t)" "inv_h t" "ns = nodes (plug k t)" using assms(1) by (auto simp: short_at_def)
  have "root_ptr t = rb_root s \<or> \<not> is_black s (root_ptr t)"
    using a(1) assms(2) is_black_rep [of s "ctx_parent k" t] by (auto simp: at_def)
  then have "delete_fixup_loop (root_ptr t) par s = Some (root_ptr t, s)" by (subst delete_fixup_loop.simps) auto
  moreover have "rb_valid (plug k (blacken t))"
    using a assms(2) blacken_facts [of t] by (intro plug_valid) auto
  ultimately show ?thesis unfolding del_done_def using a(1,5) by auto
qed

lemma del_root:
  assumes "at s [] t" "rb_valid t" "ns = nodes t"
  shows "del_done s ns (delete_fixup_loop (rb_root s) par s)"
proof -
  have "rb_root s = root_ptr t" using assms(1) by (simp add: at_def)
  moreover have "delete_fixup_loop (rb_root s) par s = Some (rb_root s, s)" by (subst delete_fixup_loop.simps) simp
  ultimately show ?thesis
    unfolding del_done_def using assms by (intro exI [of _ s] exI [of _ "[]"] exI [of _ t]) (simp add: blacken_id rb_valid_def)
qed

text \<open>The outcomes of a turn: the parent is short now, or the loop ends with the next test.\<close>

definition del_turn :: "'a rb_state_scheme \<Rightarrow> ctx \<Rightarrow> rbcolor \<Rightarrow> nat list \<Rightarrow> (nat option \<times> nat option \<times> 'a rb_state_scheme) option \<Rightarrow> bool" where
  "del_turn s k c ns res \<longleftrightarrow> (\<exists>s' x q. res = Some (x, q, s') \<and> same_rest s s'
     \<and> ((\<exists>t. x = root_ptr t \<and> q = ctx_parent k \<and> col t = c \<and> short_at s' k ns t)
        \<or> (\<exists>t. x = rb_root s' \<and> at s' [] t \<and> rb_valid t \<and> nodes t = ns)))"

lemma del_turn_end:
  assumes "\<exists>s'. res = Some (rb_root s', q, s') \<and> at s' k t \<and> same_rest s s'"
    and "ctx_ok (bh t) k" "inv_c t" "inv_h t" "col t = Black \<or> k \<noteq> [] \<and> ctx_col k = Black" "nodes (plug k t) = ns"
  shows "del_turn s k c ns res"
  using assms plug_valid [OF assms(2-5)] at_plug unfolding del_turn_def by blast

lemma del_turn_up:
  assumes "\<exists>s'. res = Some (root_ptr t, ctx_parent k, s') \<and> at s' k t \<and> same_rest s s'"
    and "col t = c" "ctx_ok (bh t + 1) k" "inv_c (blacken t)" "inv_h t" "ns = nodes (plug k t)"
  shows "del_turn s k c ns res"
  using assms unfolding del_turn_def short_at_def by blast

lemma delete_left_turn:
  assumes "at s k (Node t c p w)" "bh w = bh t + 1" "col w = Black" "col t = Black" "inv_c t" "inv_h t" "inv_c w" "inv_h w"
    and "ctx_ok (if c = Black then bh t + 2 else bh t + 1) k" "c = Red \<longrightarrow> k \<noteq> [] \<and> ctx_col k = Black"
    and "ns = nodes (plug k (Node t c p w))"
  shows "del_turn s k c ns (delete_left_black p (root_ptr w) s)"
proof -
  obtain a n b where w: "w = Node a Black n b" using assms(2,3) by (cases w) auto
  have cc: "c = Black \<or> c = Red" by (cases c) auto
  show ?thesis
  proof (cases "col b = Red")
    case True
    then obtain d y e where b: "b = Node d Red y e" using red_tree by blast
    show ?thesis using assms w b cc delete_left_outer [of s k t c p a n d y e]
      by (intro del_turn_end [where t = "Node (Node t Black p a) c n (Node d Black y e)"]) (auto simp: nodes_plug)
  next
    case False
    then have b: "col b = Black" using col_cases by blast
    show ?thesis
    proof (cases "col a = Red")
      case True
      then obtain d y e where a: "a = Node d Red y e" using red_tree by blast
      show ?thesis using assms w a b cc delete_left_inner [of s k t c p d y e n b]
        by (intro del_turn_end [where t = "Node (Node t Black p d) c y (Node e Black n b)"]) (auto simp: nodes_plug)
    next
      case False
      then have a: "col a = Black" using col_cases by blast
      show ?thesis using assms w a b cc delete_left_recolor [of s k t c p a n b]
        by (intro del_turn_up [where t = "Node t c p (Node a Red n b)"]) (auto simp: nodes_plug)
    qed
  qed
qed

lemma delete_right_turn:
  assumes "at s k (Node w c p t)" "bh w = bh t + 1" "col w = Black" "col t = Black" "inv_c t" "inv_h t" "inv_c w" "inv_h w"
    and "ctx_ok (if c = Black then bh t + 2 else bh t + 1) k" "c = Red \<longrightarrow> k \<noteq> [] \<and> ctx_col k = Black"
    and "ns = nodes (plug k (Node w c p t))"
  shows "del_turn s k c ns (delete_right_black p (root_ptr w) s)"
proof -
  obtain a n b where w: "w = Node a Black n b" using assms(2,3) by (cases w) auto
  have cc: "c = Black \<or> c = Red" by (cases c) auto
  show ?thesis
  proof (cases "col a = Red")
    case True
    then obtain d y e where a: "a = Node d Red y e" using red_tree by blast
    show ?thesis using assms w a cc delete_right_outer [of s k d y e n b c p t]
      by (intro del_turn_end [where t = "Node (Node d Black y e) c n (Node b Black p t)"]) (auto simp: nodes_plug)
  next
    case False
    then have a: "col a = Black" using col_cases by blast
    show ?thesis
    proof (cases "col b = Red")
      case True
      then obtain d y e where b: "b = Node d Red y e" using red_tree by blast
      show ?thesis using assms w a b cc delete_right_inner [of s k a n d y e c p t]
        by (intro del_turn_end [where t = "Node (Node a Black n d) c y (Node e Black p t)"]) (auto simp: nodes_plug)
    next
      case False
      then have b: "col b = Black" using col_cases by blast
      show ?thesis using assms w a b cc delete_right_recolor [of s k a n b c p t]
        by (intro del_turn_up [where t = "Node (Node a Red n b) c p t"]) (auto simp: nodes_plug)
    qed
  qed
qed

lemma ctx_root: "ctx_rep s k p \<Longrightarrow> k \<noteq> [] \<Longrightarrow> \<exists>a \<in> set (ctx_nodes k). rb_root s = Some a"
proof (induction k arbitrary: p)
  case (Cons f k)
  then show ?case by (cases f; cases "k = []") fastforce+
qed simp

lemma at_not_root: "at s k t \<Longrightarrow> k \<noteq> [] \<Longrightarrow> root_ptr t \<noteq> rb_root s"
  using ctx_root [of s k "root_ptr t"] root_ptr_nodes by (fastforce simp: at_def)

lemma del_after_turn:
  fixes s :: "'a rb_state_scheme"
  assumes "del_turn s k c ns res" "run = (case res of None \<Rightarrow> None | Some (x, q, s) \<Rightarrow> delete_fixup_loop x q s)"
    and "\<And>(s' :: 'a rb_state_scheme) t. short_at s' k ns t \<Longrightarrow> col t = c \<Longrightarrow> del_done s' ns (delete_fixup_loop (root_ptr t) (ctx_parent k) s')"
  shows "del_done s ns run"
proof -
  obtain s' x q where r: "res = Some (x, q, s')" "same_rest s s'"
    and o: "(\<exists>t. x = root_ptr t \<and> q = ctx_parent k \<and> col t = c \<and> short_at s' k ns t)
        \<or> (\<exists>t. x = rb_root s' \<and> at s' [] t \<and> rb_valid t \<and> nodes t = ns)"
    using assms(1) unfolding del_turn_def by blast
  from o have "del_done s' ns (delete_fixup_loop x q s')" using assms(3) del_root by auto
  then show ?thesis using r assms(2) del_done_step by fastforce
qed

lemma loop_left:
  assumes "at s k (Node t c p w)" "col t = Black"
  shows "delete_fixup_loop (root_ptr t) (Some p) s =
    (case delete_left p s of None \<Rightarrow> None | Some (x, q, s) \<Rightarrow> delete_fixup_loop x q s)"
proof -
  have "root_ptr t \<noteq> rb_root s" using at_not_root [of s "LeftOf c p w # k" t] assms(1) by (simp add: at_LeftOf)
  moreover have "is_black s (root_ptr t)" "node_left s p = root_ptr t" using assms is_black_rep [of s "Some p" t] by (auto simp: at_def)
  ultimately show ?thesis by (subst delete_fixup_loop.simps) simp
qed

lemma loop_right:
  assumes "at s k (Node w c p t)" "col t = Black" "w \<noteq> Leaf"
  shows "delete_fixup_loop (root_ptr t) (Some p) s =
    (case delete_right p s of None \<Rightarrow> None | Some (x, q, s) \<Rightarrow> delete_fixup_loop x q s)"
proof -
  have "root_ptr t \<noteq> rb_root s" using at_not_root [of s "RightOf c p w # k" t] assms(1) by (simp add: at_RightOf)
  moreover have "is_black s (root_ptr t)" using assms is_black_rep [of s "Some p" t] by (auto simp: at_def)
  moreover have "node_left s p \<noteq> root_ptr t"
    using assms(1,3) root_ptr_nodes [of t] by (cases w; cases t) (auto simp: at_def)
  ultimately show ?thesis by (subst delete_fixup_loop.simps) simp
qed

lemma delete_left_done:
  fixes s :: "'a rb_state_scheme"
  assumes sh: "short_at s (LeftOf c p w # k) ns t" "col t = Black"
    and IH: "\<And>(s' :: 'a rb_state_scheme) t'. short_at s' k ns t' \<Longrightarrow> del_done s' ns (delete_fixup_loop (root_ptr t') (ctx_parent k) s')"
  shows "del_done s ns (delete_fixup_loop (root_ptr t) (Some p) s)"
proof -
  have a: "at s k (Node t c p w)" and ok: "inv_c w" "inv_h w" "bh w = bh t + 1" "c = Red \<longrightarrow> col w = Black \<and> k \<noteq> [] \<and> ctx_col k = Black"
      "ctx_ok (if c = Black then bh t + 2 else bh t + 1) k" "inv_c t" "inv_h t" "ns = nodes (plug k (Node t c p w))"
    using sh blacken_id [of t] by (auto simp: short_at_def at_LeftOf)
  note loop = loop_left [OF a sh(2)]
  show ?thesis
  proof (cases "col w = Black")
    case True
    then have "\<not> is_red s (node_right s p)" "node_right s p = root_ptr w" using a is_red_rep [of s "Some p" w] by (auto simp: at_def)
    then have e: "delete_left p s = delete_left_black p (root_ptr w) s" by (simp add: delete_left_def)
    have t: "del_turn s k c ns (delete_left_black p (root_ptr w) s)"
      using a ok True sh(2) by (intro delete_left_turn) auto
    show ?thesis by (rule del_after_turn [OF t loop [unfolded e]]) (rule IH)
  next
    case False
    then obtain d n e where w: "w = Node d Red n e" using red_tree col_cases by blast
    have c: "c = Black" using False ok(4) by (cases c) auto
    from delete_left_red [OF a [unfolded w]] obtain s1 where s1: "delete_left p s = delete_left_black p (root_ptr d) s1" "same_rest s s1"
        "at s1 (LeftOf Black n e # k) (Node t Red p d)" by (auto simp: at_LeftOf)
    have "del_turn s1 (LeftOf Black n e # k) Red ns (delete_left_black p (root_ptr d) s1)"
      using s1(3) ok w c sh(2) by (intro delete_left_turn) (auto simp: nodes_plug)
    then have "del_done s1 ns (delete_fixup_loop (root_ptr t) (Some p) s)"
      by (rule del_after_turn [OF _ loop [unfolded s1(1)]]) (rule del_exit, assumption, simp)
    then show ?thesis using s1(2) del_done_step by blast
  qed
qed

lemma delete_right_done:
  fixes s :: "'a rb_state_scheme"
  assumes sh: "short_at s (RightOf c p w # k) ns t" "col t = Black"
    and IH: "\<And>(s' :: 'a rb_state_scheme) t'. short_at s' k ns t' \<Longrightarrow> del_done s' ns (delete_fixup_loop (root_ptr t') (ctx_parent k) s')"
  shows "del_done s ns (delete_fixup_loop (root_ptr t) (Some p) s)"
proof -
  have a: "at s k (Node w c p t)" and ok: "inv_c w" "inv_h w" "bh w = bh t + 1" "c = Red \<longrightarrow> col w = Black \<and> k \<noteq> [] \<and> ctx_col k = Black"
      "ctx_ok (if c = Black then bh t + 2 else bh t + 1) k" "inv_c t" "inv_h t" "ns = nodes (plug k (Node w c p t))"
    using sh blacken_id [of t] by (auto simp: short_at_def at_RightOf)
  have "w \<noteq> Leaf" using ok(3) by auto
  note loop = loop_right [OF a sh(2) this]
  show ?thesis
  proof (cases "col w = Black")
    case True
    then have "\<not> is_red s (node_left s p)" "node_left s p = root_ptr w" using a is_red_rep [of s "Some p" w] by (auto simp: at_def)
    then have e: "delete_right p s = delete_right_black p (root_ptr w) s" by (simp add: delete_right_def)
    have t: "del_turn s k c ns (delete_right_black p (root_ptr w) s)"
      using a ok True sh(2) by (intro delete_right_turn) auto
    show ?thesis by (rule del_after_turn [OF t loop [unfolded e]]) (rule IH)
  next
    case False
    then obtain d n e where w: "w = Node d Red n e" using red_tree col_cases by blast
    have c: "c = Black" using False ok(4) by (cases c) auto
    from delete_right_red [OF a [unfolded w]] obtain s1 where s1: "delete_right p s = delete_right_black p (root_ptr e) s1" "same_rest s s1"
        "at s1 (RightOf Black n d # k) (Node e Red p t)" by (auto simp: at_RightOf)
    have "del_turn s1 (RightOf Black n d # k) Red ns (delete_right_black p (root_ptr e) s1)"
      using s1(3) ok w c sh(2) by (intro delete_right_turn) (auto simp: nodes_plug)
    then have "del_done s1 ns (delete_fixup_loop (root_ptr t) (Some p) s)"
      by (rule del_after_turn [OF _ loop [unfolded s1(1)]]) (rule del_exit, assumption, simp)
    then show ?thesis using s1(2) del_done_step by blast
  qed
qed

lemma delete_fixup_loop_done:
  assumes "short_at s k ns t"
  shows "del_done s ns (delete_fixup_loop (root_ptr t) (ctx_parent k) s)"
  using assms
proof (induction k arbitrary: s t)
  case Nil
  then show ?case by (rule del_exit) simp
next
  case (Cons f k)
  show ?case
  proof (cases "col t = Black")
    case True
    then show ?thesis
      using Cons delete_left_done [of s _ _ _ k ns t] delete_right_done [of s _ _ _ k ns t] by (cases f) auto
  next
    case False
    then show ?thesis using col_cases [of t] by (intro del_exit [OF Cons.prems]) auto
  qed
qed

text \<open>The whole fix-up gives a valid tree with the same nodes in the same order.\<close>

lemma EEVDFRBDeleteFixup_valid:
  assumes "short_at s k ns t"
  shows "\<exists>s' t'. EEVDFRBDeleteFixup (root_ptr t) (ctx_parent k) s = Some s' \<and> same_rest s s' \<and> at s' [] t' \<and> nodes t' = ns \<and> rb_valid t'"
proof -
  obtain s1 k1 t1 where r: "delete_fixup_loop (root_ptr t) (ctx_parent k) s = Some (root_ptr t1, s1)" "same_rest s s1" "at s1 k1 t1"
      "rb_valid (plug k1 (blacken t1))" "nodes (plug k1 t1) = ns"
    using delete_fixup_loop_done [OF assms] unfolding del_done_def by blast
  have "at (opt_store set_color (root_ptr t1) 0 s1) k1 (blacken t1)"
    using r(3) at_recolor [of s1 k1 _ _ _ _ Black] by (cases t1) (auto simp: opt_store_def)
  then have "at (opt_store set_color (root_ptr t1) 0 s1) [] (plug k1 (blacken t1))" using at_plug by blast
  moreover have "nodes (plug k1 (blacken t1)) = ns" using r(5) by (simp add: nodes_plug)
  ultimately show ?thesis using r(1,2,4) by (auto simp: EEVDFRBDeleteFixup_def)
qed

end
