(* ===== verification/EevdfQueue.thy ===== *)
theory EevdfQueue
  imports EevdfTree
begin

text \<open>
  Deletion from the red-black tree of the EEVDF run queue, and the run queue as a priority queue: the
  contract \<open>run_queue\<close>, its interpretation on the operations of \<open>EEVDF.c\<close>, and what it gives the scheduler.
\<close>

unbundle bit_operations_syntax

section \<open>Taking a node out\<close>

lemma node_split: "n \<in> set (nodes t) \<Longrightarrow> \<exists>k' l c r. plug k t = plug k' (Node l c n r)"
proof (induction t arbitrary: k)
  case (Node l c a r)
  consider "n = a" | "n \<in> set (nodes l)" | "n \<in> set (nodes r)" using Node.prems by auto
  then show ?case
  proof cases
    case 2
    then show ?thesis using Node.IH(1) [of "LeftOf c a r # k"] by simp
  next
    case 3
    then show ?thesis using Node.IH(2) [of "RightOf c a l # k"] by simp
  qed auto
qed simp

lemma plug_append: "plug (k @ k') t = plug k' (plug k t)"
  by (induction k t rule: plug.induct) simp_all

lemma first_loop_split:
  assumes "rep s par (Node a b m d)"
  shows "\<exists>k c y r. Node a b m d = plug k (Node Leaf c y r) \<and> ctx_before k = [] \<and> first_loop m s = Some y
    \<and> (k = [] \<or> (\<exists>cq q rq k'. k = LeftOf cq q rq # k'))"
  using assms
proof (induction a arbitrary: par b m d)
  case Leaf
  then show ?case by (intro exI [of _ "[]"]) (simp add: first_loop.simps)
next
  case (Node a1 c2 m2 a2)
  have "rep s (Some m) (Node a1 c2 m2 a2)" using Node.prems by simp
  from Node.IH(1) [OF this] obtain k c y r where k: "Node a1 c2 m2 a2 = plug k (Node Leaf c y r)" "ctx_before k = []" "first_loop m2 s = Some y"
      "k = [] \<or> (\<exists>cq q rq k'. k = LeftOf cq q rq # k')" by blast
  have "first_loop m s = Some y" using Node.prems k(3) by (simp add: first_loop.simps [of m])
  moreover have "ctx_before (k @ [LeftOf b m d]) = []" using k(2) by (induction k rule: ctx_before.induct) auto
  ultimately show ?case
    using k(1,4) by (intro exI [of _ "k @ [LeftOf b m d]"] exI [of _ c] exI [of _ y] exI [of _ r]) (auto simp: plug_append)
qed

lemma update_leftmost_run:
  assumes a: "at s k (Node l c n r)" and lm: "rb_leftmost s = first_ptr (nodes (plug k (Node l c n r)))"
  shows "update_leftmost n s = Some (s\<lparr>rb_leftmost := first_ptr (ctx_before k @ nodes l @ nodes r @ ctx_after k)\<rparr>)"
proof (cases "rb_leftmost s = Some n")
  case False
  then have "ctx_before k @ nodes l \<noteq> []" using lm by (auto simp: nodes_plug first_ptr_def)
  then have "first_ptr (ctx_before k @ nodes l @ nodes r @ ctx_after k) = rb_leftmost s"
    using lm by (cases "ctx_before k"; cases "nodes l") (simp_all add: nodes_plug first_ptr_def)
  then show ?thesis using False by (simp add: update_leftmost_def)
next
  case True
  have d: "distinct (nodes (plug k (Node l c n r)))" using a at_plug by (metis at_def append_Nil2 ctx_nodes.simps(1))
  have e: "ctx_before k = []" "nodes l = []"
    using True lm d by (cases "ctx_before k"; cases "nodes l"; simp add: nodes_plug first_ptr_def)+
  have f: "node_right s n = root_ptr r" "node_parent s n = ctx_parent k" "rep s (Some n) r" using a by (simp_all add: at_def)
  show ?thesis
  proof (cases r)
    case Leaf
    have "next_up n (ctx_parent k) s = Some (first_ptr (ctx_after k))"
    proof (cases k rule: ctx_before.cases)
      case (2 c' m r' k')
      then have "node_right s m \<noteq> Some n" using a root_ptr_nodes [of r' n] by (auto simp: at_def)
      then show ?thesis using 2 by (simp add: next_up.simps [of n] first_ptr_def)
    qed (use e in \<open>auto simp: next_up.simps [of n] first_ptr_def\<close>)
    then show ?thesis using True f e Leaf by (simp add: update_leftmost_def)
  next
    case (Node r1 cr m r2)
    obtain k' c' y r' where s: "r = plug k' (Node Leaf c' y r')" "ctx_before k' = []" "first_loop m s = Some y"
      using first_loop_split [of s "Some n" r1 cr m r2] f Node by auto
    then have "first_ptr (nodes r @ ctx_after k) = Some y" by (simp add: nodes_plug first_ptr_def)
    then show ?thesis using True f e Node s(3) by (simp add: update_leftmost_def EEVDFRBFirst_def)
  qed
qed

text \<open>A node with at most one child gives its place to it.\<close>

lemma drop_node:
  assumes "at s k (Node l c n r)" "t = l \<and> r = Leaf \<or> t = r \<and> l = Leaf"
  shows "at (opt_store set_parent (root_ptr t) (ctx_parent k) (replace_child n (root_ptr t) s)) k t"
proof -
  have ctx: "ctx_rep s k (Some n)" "node_parent s n = ctx_parent k" "n \<notin> set (ctx_nodes k)" "distinct (ctx_nodes k)"
    and t: "rep s (Some n) t" "distinct (nodes t)" "set (nodes t) \<inter> set (ctx_nodes k) = {}"
    using assms by (auto simp: at_def)
  have "rep (replace_child n (root_ptr t) s) (Some n) t" using t ctx by (simp add: replace_child_rep [where k = k])
  then have "rep (opt_store set_parent (root_ptr t) (ctx_parent k) (replace_child n (root_ptr t) s)) (ctx_parent k) t"
    using t(2) by (rule rep_reparent)
  moreover have "ctx_rep (replace_child n (root_ptr t) s) k (root_ptr t)" using ctx by (intro replace_child_ctx)
  ultimately show ?thesis using t by (simp add: at_def distinct_append ctx(4))
qed

lemma take_place_run:
  assumes "ctx_rep s k (Some n)" "node_parent s n = ctx_parent k" "node_color s n = col_val c" "node_left s n = root_ptr l" "l \<noteq> Leaf"
    and "rep s (Some n) l" "rep s (Some y) r" "node_right s y = root_ptr r"
    and d: "distinct (nodes l @ n # y # nodes r @ ctx_nodes k)"
  shows "\<exists>s'. take_place n y s = Some s' \<and> at s' k (Node l c y r) \<and> same_rest s s'"
proof -
  obtain m where m: "root_ptr l = Some m" "m \<in> set (nodes l)" using assms(5) root_ptr_nodes by (cases l) auto
  have dj: "set (nodes l) \<inter> set (ctx_nodes k) = {}" "set (nodes r) \<inter> set (ctx_nodes k) = {}" "n \<notin> set (ctx_nodes k)" "y \<notin> set (ctx_nodes k)"
      "set (nodes l) \<inter> set (nodes r) = {}" "m \<notin> set (ctx_nodes k)" "m \<noteq> y" "m \<notin> set (nodes r)"
    using d m by auto
  let ?s1 = "replace_child n (Some y) s"
  let ?s2 = "set_left y (root_ptr l) (set_color y (col_val c) (set_parent y (ctx_parent k) ?s1))"
  have ch: "node_left ?s1 n = root_ptr l" "node_right ?s1 y = root_ptr r"
    using assms dj by (simp_all add: replace_child_children [where k = k])
  have "take_place n y s = Some (set_parent m (Some y) ?s2)"
    using assms(2,3) ch d m(1) by (simp add: take_place_def)
  moreover have "ctx_rep (set_parent m (Some y) ?s2) k (Some y)"
    using assms(1,2) dj d replace_child_ctx [of s k n "Some y"] by simp
  moreover have "rep (opt_store set_parent (root_ptr l) (Some y) ?s2) (Some y) l"
    using assms(2,6) dj d by (intro rep_reparent [where par = "Some n"]) (simp_all add: replace_child_rep [where k = k])
  then have "rep (set_parent m (Some y) ?s2) (Some y) l" by (simp add: m(1) opt_store_def)
  moreover have "rep (set_parent m (Some y) ?s2) (Some y) r"
    using assms(2,7) dj d by (simp add: replace_child_rep [where k = k])
  ultimately show ?thesis using ch dj d m(1) by (simp add: at_def)
qed

definition unlinked :: "'a rb_state_scheme \<Rightarrow> nat list \<Rightarrow> (nat option \<times> nat option \<times> u8 \<times> 'a rb_state_scheme) option \<Rightarrow> bool" where
  "unlinked s ns res \<longleftrightarrow> (\<exists>s' k t c. res = Some (root_ptr t, ctx_parent k, col_val c, s') \<and> same_rest s s'
     \<and> (c = Black \<longrightarrow> short_at s' k ns t) \<and> (c = Red \<longrightarrow> at s' [] (plug k t) \<and> rb_valid (plug k t) \<and> nodes (plug k t) = ns))"

lemma unlinkedI:
  assumes "res = Some (root_ptr t, ctx_parent k, col_val c, s')" "same_rest s s'" "at s' k t" "nodes (plug k t) = ns"
    and "ctx_ok (bh t + (if c = Black then 1 else 0)) k" "inv_c t" "inv_h t" "c = Red \<longrightarrow> col t = Black"
  shows "unlinked s ns res"
proof (cases c)
  case Red
  then have "rb_valid (plug k t)" using assms(5-8) by (intro plug_valid) auto
  then show ?thesis using assms Red at_plug unfolding unlinked_def by blast
next
  case Black
  then have "short_at s' k ns t" using assms by (auto simp: short_at_def intro: blacken_facts(3))
  then show ?thesis using assms(1,2) Black unfolding unlinked_def by blast
qed

lemma unlink_single:
  assumes a: "at s k (Node l c n r)" and v: "rb_valid (plug k (Node l c n r))" and t: "t = l \<and> r = Leaf \<or> t = r \<and> l = Leaf"
    and "res = Some (root_ptr t, ctx_parent k, col_val c, opt_store set_parent (root_ptr t) (ctx_parent k) (replace_child n (root_ptr t) s))"
  shows "unlinked s (ctx_before k @ nodes l @ nodes r @ ctx_after k) res"
proof -
  have ok: "ctx_ok (bh (Node l c n r)) k" "inv_c (Node l c n r)" "inv_h (Node l c n r)" using valid_plug [OF v] by auto
  have "nodes (plug k t) = ctx_before k @ nodes l @ nodes r @ ctx_after k" using t by (auto simp: nodes_plug)
  moreover have "bh t = bh l" using ok(3) t by auto
  ultimately show ?thesis
    using drop_node [OF a t] ok t by (intro unlinkedI [OF assms(4)]) auto
qed

lemma unlink_one:
  assumes a: "at s k (Node l c n r)" and v: "rb_valid (plug k (Node l c n r))" and e: "l = Leaf \<or> r = Leaf"
  shows "unlinked s (ctx_before k @ nodes l @ nodes r @ ctx_after k) (unlink_node n s)"
proof -
  have f: "node_left s n = root_ptr l" "node_right s n = root_ptr r" "node_parent s n = ctx_parent k" "node_color s n = col_val c"
    using a by (simp_all add: at_def)
  show ?thesis
  proof (cases l)
    case Leaf
    then show ?thesis using f by (intro unlink_single [OF a v, where t = r]) (simp_all add: unlink_node_def Let_def)
  next
    case (Node l1 d m l2)
    then show ?thesis using e f
      by (intro unlink_single [OF a v, where t = l]) (simp_all add: unlink_node_def Let_def opt_store_def)
  qed
qed

lemma ctx_col_append: "ctx_col (k @ k') = (if k = [] then ctx_col k' else ctx_col k)"
  by (cases k rule: ctx_col.cases) simp_all

lemma plug_nonempty: "k \<noteq> [] \<Longrightarrow> \<exists>l c a r. plug k t = Node l c a r"
  by (induction k t rule: plug.induct) (auto, (metis plug.simps(1))+)

lemma ctx_nodes_append [simp]: "ctx_nodes (k @ k') = ctx_nodes k @ ctx_nodes k'"
  by (induction k rule: ctx_nodes.induct) simp_all

lemma set_nodes_plug: "set (nodes (plug k t)) = set (nodes t) \<union> set (ctx_nodes k)"
  by (auto simp: nodes_plug ctx_nodes_set)

lemma ctx_ok_rename: "ctx_ok h (k @ RightOf c n l # k') = ctx_ok h (k @ RightOf c y l # k')"
  by (induction h k rule: ctx_ok.induct) (auto simp: ctx_col_append)

lemma ctx_parent_append: "k \<noteq> [] \<Longrightarrow> ctx_parent (k @ k') = ctx_parent k"
  by (cases k rule: ctx_parent.cases) simp_all

text \<open>
  A node with two children: its successor \<open>y\<close>, the first node of the right subtree, is taken out of it
  (unless it is the right child itself) and takes the place of the node.
\<close>

lemma unlink_node_two:
  assumes "node_left s n = Some l" "node_right s n = Some r" "first_loop r s = Some y"
  shows "unlink_node n s = do {
     (x_parent, s') \<leftarrow> pull_up n y s;
     s' \<leftarrow> take_place n y s';
     Some (node_right s y, x_parent, node_color s y, s')
   }"
  using assms by (simp add: unlink_node_def pull_up_def Let_def)

lemma pull_up_run:
  assumes a: "at s (LeftOf cq q rq # k' @ RightOf c n l # k) (Node Leaf cy y ry)" and r': "r' = plug (LeftOf cq q rq # k') ry"
  shows "\<exists>s'. pull_up n y s = Some (Some q, s') \<and> same_rest s s' \<and> ctx_rep s' k (Some n) \<and> node_parent s' n = ctx_parent k
    \<and> node_color s' n = col_val c \<and> node_left s' n = root_ptr l \<and> rep s' (Some n) l \<and> rep s' (Some y) r' \<and> node_right s' y = root_ptr r'
    \<and> distinct (nodes l @ n # y # nodes r' @ ctx_nodes k)"
proof -
  let ?K = "LeftOf cq q rq # k' @ RightOf c n l # k"
  let ?s1 = "opt_store set_parent (root_ptr ry) (Some q) (set_left q (root_ptr ry) s)"
  have y: "node_parent s y = Some q" "node_left s q = Some y" "node_right s y = root_ptr ry" using a by (simp_all add: at_def)
  have dy: "y \<notin> set (nodes ry)" "y \<notin> set (ctx_nodes ?K)" "distinct (nodes ry @ ctx_nodes ?K)" using a by (simp_all add: at_def)
  have "at ?s1 ?K ry" using drop_node [OF a, of ry] y by (simp add: replace_child_def)
  then have a1: "at ?s1 k (Node l c n r')"
    unfolding r' using at_plug [of ?s1 ?K ry] at_plug [of ?s1 k] by (simp add: plug_append)
  have r1: "node_right ?s1 n = root_ptr r'" "node_parent ?s1 n = ctx_parent k" "node_color ?s1 n = col_val c" "node_left ?s1 n = root_ptr l"
      "ctx_rep ?s1 k (Some n)" "rep ?s1 (Some n) l" "rep ?s1 (Some n) r'" and d1: "distinct (nodes l @ n # nodes r' @ ctx_nodes k)"
    using a1 by (simp_all add: at_def)
  have y1: "y \<notin> set (nodes l)" "y \<noteq> n" "y \<notin> set (nodes r')" "y \<notin> set (ctx_nodes k)"
    using dy by (auto simp: r' set_nodes_plug simp del: plug.simps)
  obtain m where m: "root_ptr r' = Some m" using plug_nonempty [of "LeftOf cq q rq # k'" ry] r' by force
  then have "m \<in> set (nodes r')" by (rule root_ptr_nodes)
  have dm: "m \<notin> set (nodes l)" "m \<noteq> n" "m \<notin> set (ctx_nodes k)" "m \<noteq> y" using \<open>m \<in> set (nodes r')\<close> d1 y1 by auto
  let ?s2 = "set_parent m (Some y) (set_right y (root_ptr r') ?s1)"
  have "n \<noteq> q" using a by (auto simp: at_def)
  have py: "node_parent ?s1 y = Some q" using y dy by (simp add: root_ptr_notin)
  have "set_left q (root_ptr ry) (opt_store set_parent (root_ptr ry) (Some q) s) = ?s1"
    by (simp add: opt_store_def set_left_def set_parent_def split: option.split)
  then have "pull_up n y s = Some (Some q, ?s2)"
    using y \<open>n \<noteq> q\<close> py r1(1) m dm dy by (simp add: pull_up_def root_ptr_notin Let_def)
  moreover have "rep (opt_store set_parent (root_ptr r') (Some y) (set_right y (root_ptr r') ?s1)) (Some y) r'"
    using r1(7) d1 y1 by (intro rep_reparent [where par = "Some n"]) simp_all
  then have "rep ?s2 (Some y) r'" by (simp add: m opt_store_def)
  moreover have "same_rest s ?s2" "ctx_rep ?s2 k (Some n)" "node_parent ?s2 n = ctx_parent k" "node_color ?s2 n = col_val c"
      "node_left ?s2 n = root_ptr l" "rep ?s2 (Some n) l" "node_right ?s2 y = root_ptr r'"
    using r1 y1 dm by simp_all
  moreover have "distinct (nodes l @ n # y # nodes r' @ ctx_nodes k)" using d1 y1 by auto
  ultimately show ?thesis by blast
qed

lemma unlink_two:
  assumes a: "at s k (Node l c n r)" and v: "rb_valid (plug k (Node l c n r))" and l: "l \<noteq> Leaf" and r: "r \<noteq> Leaf"
  shows "unlinked s (ctx_before k @ nodes l @ nodes r @ ctx_after k) (unlink_node n s)"
proof -
  have f: "node_left s n = root_ptr l" "node_right s n = root_ptr r" "node_parent s n = ctx_parent k" "node_color s n = col_val c"
      "ctx_rep s k (Some n)" "rep s (Some n) l" "rep s (Some n) r"
    and d: "distinct (nodes l @ n # nodes r @ ctx_nodes k)"
    using a by (simp_all add: at_def)
  obtain lp where lp: "root_ptr l = Some lp" using l by (cases l) auto
  obtain r1 cr m r2 where m: "r = Node r1 cr m r2" using r by (cases r) auto
  obtain kr cy y ry where y: "r = plug kr (Node Leaf cy y ry)" "ctx_before kr = []" "first_loop m s = Some y"
      and kr: "kr = [] \<or> (\<exists>cq q rq k'. kr = LeftOf cq q rq # k')"
    using first_loop_split [OF f(7) [unfolded m]] m by metis
  let ?K = "kr @ RightOf c n l # k" and ?K' = "kr @ RightOf c y l # k"
  have at: "at s ?K (Node Leaf cy y ry)" using a y(1) at_plug [of s ?K] at_plug [of s k] by (simp add: plug_append)
  have fy: "node_color s y = col_val cy" "node_right s y = root_ptr ry" "node_parent s y = ctx_parent ?K" using at by (simp_all add: at_def)
  have "\<exists>s1 s'. pull_up n y s = Some (ctx_parent ?K', s1) \<and> take_place n y s1 = Some s' \<and> same_rest s s' \<and> at s' k (Node l c y (plug kr ry))"
  proof (cases "kr = []")
    case True
    then have "pull_up n y s = Some (Some y, s)" using fy by (simp add: pull_up_def)
    moreover have "\<exists>s'. take_place n y s = Some s' \<and> at s' k (Node l c y ry) \<and> same_rest s s'"
      using f d l y(1) True fy by (intro take_place_run [where c = c]) auto
    ultimately show ?thesis using True by auto
  next
    case False
    then obtain cq q rq k' where q: "kr = LeftOf cq q rq # k'" using kr by blast
    from pull_up_run [OF at [unfolded q append_Cons] refl] obtain s1 where s1: "pull_up n y s = Some (Some q, s1)" "same_rest s s1" and
      h: "ctx_rep s1 k (Some n)" "node_parent s1 n = ctx_parent k" "node_color s1 n = col_val c" "node_left s1 n = root_ptr l" "rep s1 (Some n) l"
        "rep s1 (Some y) (plug kr ry)" "node_right s1 y = root_ptr (plug kr ry)" "distinct (nodes l @ n # y # nodes (plug kr ry) @ ctx_nodes k)"
      unfolding q by blast
    from take_place_run [OF h(1-4) l h(5-8)] s1 q show ?thesis by (auto intro: same_rest_trans)
  qed
  then obtain s1 s' where s': "pull_up n y s = Some (ctx_parent ?K', s1)" "take_place n y s1 = Some s'" "same_rest s s'" "at s' k (Node l c y (plug kr ry))"
    by blast
  have "at s' ?K' ry" using s'(4) at_plug [of s' ?K'] at_plug [of s' k] by (simp add: plug_append)
  moreover have "ctx_ok (bh ry + (if cy = Black then 1 else 0)) ?K'" "inv_c ry" "inv_h ry" "cy = Red \<longrightarrow> col ry = Black"
    using valid_plug [of ?K "Node Leaf cy y ry"] v y(1) ctx_ok_rename [of _ kr c y l k n] by (auto simp: plug_append)
  moreover have "nodes (plug ?K' ry) = ctx_before k @ nodes l @ nodes r @ ctx_after k" using y by (simp add: plug_append nodes_plug)
  moreover have "unlink_node n s = Some (root_ptr ry, ctx_parent ?K', col_val cy, s')"
    using unlink_node_two [of s n lp m y] f lp m y(3) s'(1,2) fy by simp
  ultimately show ?thesis using s'(3) by (intro unlinkedI [where k = ?K' and t = ry and c = cy]) auto
qed

lemma free_node_fields:
  assumes "n < 64"
  shows "m \<noteq> n \<Longrightarrow> node_left (EEVDFFreeRBNode n s) m = node_left s m" "m \<noteq> n \<Longrightarrow> node_right (EEVDFFreeRBNode n s) m = node_right s m"
    "m \<noteq> n \<Longrightarrow> node_parent (EEVDFFreeRBNode n s) m = node_parent s m" "m \<noteq> n \<Longrightarrow> node_color (EEVDFFreeRBNode n s) m = node_color s m"
    "node_slot (EEVDFFreeRBNode n s) = (node_slot s)(n := 0)" "rb_root (EEVDFFreeRBNode n s) = rb_root s"
    "processes (EEVDFFreeRBNode n s) = processes s" "rb_leftmost (EEVDFFreeRBNode n s) = rb_leftmost s"
    "rb_state.more (EEVDFFreeRBNode n s) = rb_state.more s"
    "rb_node_pool_bitmap (EEVDFFreeRBNode n s) =
       (rb_node_pool_bitmap s)[n div 32 := rb_node_pool_bitmap s ! (n div 32) AND NOT (push_bit (n mod 32) 1)]"
  using assms by (simp_all add: EEVDFFreeRBNode_def EEVDF_MAX_PROCESSES_def Let_def set_left_def set_right_def set_parent_def set_color_def)

lemma free_node_pool:
  assumes "pool_ok s ns" "n < 64" "set ns' = set ns - {n}"
    and "rb_node_pool_bitmap s' = (rb_node_pool_bitmap s)[n div 32 := rb_node_pool_bitmap s ! (n div 32) AND NOT (push_bit (n mod 32) 1)]"
  shows "pool_ok s' ns'"
proof -
  have l: "length (rb_node_pool_bitmap s) = 2" using assms(1) by (simp add: pool_ok_def)
  have "node_used s' m \<longleftrightarrow> m \<noteq> n \<and> node_used s m" if "m < 64" for m
  proof (cases "m div 32 = n div 32")
    case True
    then have "m = n \<longleftrightarrow> m mod 32 = n mod 32" by (metis mod_mult_div_eq)
    moreover have "n div 32 < 2" using assms(2) by simp
    ultimately show ?thesis using True l by (auto simp: node_used_def assms(4) bit_simps)
  qed (use l in \<open>auto simp: node_used_def assms(4)\<close>)
  then show ?thesis using assms l by (auto simp: pool_ok_def)
qed

lemma linked_remove:
  assumes "linked s ns" "n \<in> set ns" "node_slot s n = p" "set ns' = set ns - {n}"
    and "node_slot s' = (node_slot s)(n := 0)" "processes s' = (processes s)(p := (processes s p)\<lparr>rb_node := None\<rparr>)"
  shows "linked s' ns'"
proof -
  have rn: "rb_node (processes s p) = Some n" using linkedD(2) [OF assms(1,2)] assms(3) by simp
  have "node_slot s' m < EEVDF_MAX_PROCESSES \<and> rb_node (processes s' (node_slot s' m)) = Some m" if "m \<in> set ns'" for m
  proof -
    have m: "m \<in> set ns" "m \<noteq> n" using that assms(4) by auto
    then have "node_slot s m \<noteq> p" using rn linkedD(2) [OF assms(1) m(1)] by auto
    then show ?thesis using m linkedD(1,2) [OF assms(1) m(1)] assms(5,6) by simp
  qed
  moreover have "m \<in> set ns' \<and> node_slot s' m = i" if "rb_node (processes s' i) = Some m" for i m
  proof -
    have i: "i \<noteq> p" "rb_node (processes s i) = Some m" using that assms(6) by (auto split: if_splits)
    then have "m \<in> set ns" "node_slot s m = i" using linkedD(3,4) [OF assms(1)] by simp_all
    then show ?thesis using i assms(3-5) by auto
  qed
  ultimately show ?thesis unfolding linked_def by blast
qed

text \<open>Deleting a queued process: its node leaves the tree, the others keep their order, and the invariant holds again.\<close>

lemma EEVDFRBDelete_queue:
  assumes q: "queue_ok s t" and n: "rb_node (processes s p) = Some n"
  shows "\<exists>s' t'. EEVDFRBDelete p s = Some s' \<and> queue_ok s' t' \<and> nodes t' = remove1 n (nodes t) \<and> n \<in> set (nodes t) \<and> node_slot s n = p
    \<and> node_slot s' = (node_slot s)(n := 0)
    \<and> processes s' = (processes s)(p := (processes s p)\<lparr>rb_node := None\<rparr>) \<and> rb_state.more s' = rb_state.more s"
proof -
  have at: "at s [] t" and valid: "rb_valid t" and so: "sorted (map (key_of s) (nodes t))" and lm: "rb_leftmost s = first_ptr (nodes t)"
    and pool: "pool_ok s (nodes t)" and lk: "linked s (nodes t)" using q by (auto simp: queue_ok_def)
  have nt: "n \<in> set (nodes t)" "node_slot s n = p" using linkedD(3,4) [OF lk n] by auto
  have n64: "n < 64" using pool nt(1) by (simp add: pool_ok_def)
  obtain k l c r where t: "t = plug k (Node l c n r)" using node_split [OF nt(1), of "[]"] by auto
  have a: "at s k (Node l c n r)" using at at_plug [of s k] t by simp
  let ?ns = "ctx_before k @ nodes l @ nodes r @ ctx_after k"
  have dist: "distinct (nodes t)" using at by (simp add: at_def)
  have rm: "remove1 n (nodes t) = ?ns" using dist by (simp add: t nodes_plug remove1_append)
  let ?s0 = "s\<lparr>rb_leftmost := first_ptr ?ns\<rparr>"
  have up: "update_leftmost n s = Some ?s0" using update_leftmost_run [OF a] lm t by simp
  have a0: "at ?s0 k (Node l c n r)" using a by (subst at_cong [where s = s]) simp_all
  have "unlinked ?s0 ?ns (unlink_node n ?s0)"
    using unlink_one [OF a0] unlink_two [OF a0] valid t by blast
  then obtain s1 k1 t1 c1 where u: "unlink_node n ?s0 = Some (root_ptr t1, ctx_parent k1, col_val c1, s1)" "same_rest ?s0 s1"
      "c1 = Black \<longrightarrow> short_at s1 k1 ?ns t1" "c1 = Red \<longrightarrow> at s1 [] (plug k1 t1) \<and> rb_valid (plug k1 t1) \<and> nodes (plug k1 t1) = ?ns"
    unfolding unlinked_def by blast
  have "\<exists>s2 t2. (if col_val c1 = 0 then EEVDFRBDeleteFixup (root_ptr t1) (ctx_parent k1) s1 else Some s1) = Some s2
      \<and> same_rest ?s0 s2 \<and> at s2 [] t2 \<and> nodes t2 = ?ns \<and> rb_valid t2"
  proof (cases c1)
    case Black
    then show ?thesis using EEVDFRBDeleteFixup_valid u same_rest_trans by fastforce
  qed (use u in auto)
  then obtain s2 t2 where s2: "(if col_val c1 = 0 then EEVDFRBDeleteFixup (root_ptr t1) (ctx_parent k1) s1 else Some s1) = Some s2"
      "same_rest ?s0 s2" "at s2 [] t2" "nodes t2 = ?ns" "rb_valid t2" by blast
  let ?s3 = "upd_proc p (\<lambda>q. q\<lparr>rb_node := None\<rparr>) (EEVDFFreeRBNode n s2)"
  note f2 = same_rest_fields [OF s2(2), simplified]
  have run: "EEVDFRBDelete p s = Some ?s3" using n up u(1) s2(1) by (simp add: EEVDFRBDelete_def Let_def)
  have f3: "node_slot ?s3 = (node_slot s)(n := 0)" "processes ?s3 = (processes s)(p := (processes s p)\<lparr>rb_node := None\<rparr>)"
      "rb_state.more ?s3 = rb_state.more s" "rb_leftmost ?s3 = first_ptr ?ns"
      "rb_node_pool_bitmap ?s3 = (rb_node_pool_bitmap s)[n div 32 := rb_node_pool_bitmap s ! (n div 32) AND NOT (push_bit (n mod 32) 1)]"
    using f2 free_node_fields [OF n64, where s = s2] by simp_all
  have nn: "n \<notin> set (nodes t2)" "set (nodes t2) = set (nodes t) - {n}" using s2(4) rm dist by (metis set_remove1_eq DiffE insertI1)+
  have "m \<noteq> n" if "m \<in> set (nodes t2)" for m using that nn(1) by blast
  then have "at ?s3 [] t2" using s2(3) free_node_fields [OF n64, where s = s2] by (subst at_cong [where s = s2]) simp_all
  moreover have "key_of ?s3 m = key_of s m" if "m \<in> set (nodes t2)" for m
    using that nn(1) unfolding f3(1,2) by (cases "m = n") simp_all
  then have "map (key_of ?s3) (nodes t2) = map (key_of s) (remove1 n (nodes t))" unfolding s2(4) rm by (intro map_cong refl)
  then have "sorted (map (key_of ?s3) (nodes t2))" using so by (simp only: sorted_map_remove1)
  moreover have "pool_ok ?s3 (nodes t2)" by (rule free_node_pool [OF pool n64 nn(2) f3(5)])
  moreover have "linked ?s3 (nodes t2)" by (rule linked_remove [OF lk nt nn(2) f3(1,2)])
  ultimately have "queue_ok ?s3 t2" using s2(4,5) f3(4) by (simp add: queue_ok_def)
  then show ?thesis using run s2(4) rm nt f3(1-3) by auto
qed

section \<open>The run queue as a priority queue\<close>

lemma insert_behind:
  fixes v :: u64
  assumes "sorted (map k ps)"
  shows "filter (\<lambda>q. k q \<le> v) ps @ filter (\<lambda>q. v < k q) ps = ps"
  using assms
proof (induction ps)
  case (Cons p ps)
  show ?case
  proof (cases "k p \<le> v")
    case False
    then have "\<forall>q \<in> set (p # ps). \<not> k q \<le> v" using Cons.prems by auto
    then have "filter (\<lambda>q. k q \<le> v) (p # ps) = []" "filter (\<lambda>q. v < k q) (p # ps) = p # ps"
      by (auto simp: filter_empty_conv not_le intro!: filter_True)
    then show ?thesis by simp
  qed (use Cons in auto)
qed simp

lemma filter_behind:
  fixes v c :: u64
  assumes "sorted (map k ps)" "k p = v"
  shows "filter (\<lambda>q. k q = c) (filter (\<lambda>q. k q \<le> v) ps @ p # filter (\<lambda>q. v < k q) ps) = filter (\<lambda>q. k q = c) (ps @ [p])"
proof -
  have s: "filter (\<lambda>q. k q = c) ps = filter (\<lambda>q. k q = c) (filter (\<lambda>q. k q \<le> v) ps) @ filter (\<lambda>q. k q = c) (filter (\<lambda>q. v < k q) ps)"
    using insert_behind [OF assms(1), of v] by (metis filter_append)
  show ?thesis
  proof (cases "c = v")
    case True
    then have "filter (\<lambda>q. k q = c) (filter (\<lambda>q. v < k q) ps) = []" by (auto simp: filter_empty_conv)
    then show ?thesis using s True assms(2) by simp
  next
    case False
    then show ?thesis using s assms(2) by simp
  qed
qed

text \<open>Filling a queue, and taking the first process until it is empty.\<close>

fun ins_all :: "(nat \<Rightarrow> 's \<Rightarrow> 's option) \<Rightarrow> nat list \<Rightarrow> 's \<Rightarrow> 's option" where
  "ins_all ins [] s = Some s"
| "ins_all ins (p # ps) s = (case ins p s of None \<Rightarrow> None | Some s \<Rightarrow> ins_all ins ps s)"

fun drain :: "('s \<Rightarrow> nat option) \<Rightarrow> (nat \<Rightarrow> 's \<Rightarrow> 's option) \<Rightarrow> nat \<Rightarrow> 's \<Rightarrow> (nat list \<times> 's) option" where
  "drain pick del 0 s = Some ([], s)"
| "drain pick del (Suc n) s =
     (case pick s of
        None \<Rightarrow> Some ([], s)
      | Some p \<Rightarrow> (case del p s of None \<Rightarrow> None | Some s \<Rightarrow> map_option (\<lambda>(ps, s). (p # ps, s)) (drain pick del n s)))"

text \<open>
  The contract the scheduler relies on: the queue stands for a list of processes in order of their keys,
  where a process is inserted behind those with the same key, any process can be taken out, and the first
  is at hand.
\<close>

locale run_queue =
  fixes holds :: "'s \<Rightarrow> nat list \<Rightarrow> bool" and key :: "'s \<Rightarrow> nat \<Rightarrow> u64"
    and ins :: "nat \<Rightarrow> 's \<Rightarrow> 's option" and del :: "nat \<Rightarrow> 's \<Rightarrow> 's option" and pick :: "'s \<Rightarrow> nat option"
  assumes holds_sorted: "holds s ps \<Longrightarrow> sorted (map (key s) ps) \<and> distinct ps"
    and ins_law: "holds s ps \<Longrightarrow> p < 64 \<Longrightarrow> p \<notin> set ps \<Longrightarrow>
      \<exists>s'. ins p s = Some s' \<and> holds s' (filter (\<lambda>q. key s q \<le> key s p) ps @ p # filter (\<lambda>q. key s p < key s q) ps) \<and> key s' = key s"
    and del_law: "holds s ps \<Longrightarrow> p \<in> set ps \<Longrightarrow> \<exists>s'. del p s = Some s' \<and> holds s' (remove1 p ps) \<and> key s' = key s"
    and pick_law: "holds s ps \<Longrightarrow> pick s = (case ps of [] \<Rightarrow> None | p # _ \<Rightarrow> Some p)"
begin

lemma pick_minimal: "holds s ps \<Longrightarrow> pick s = Some p \<Longrightarrow> p \<in> set ps \<and> (\<forall>q \<in> set ps. key s p \<le> key s q)"
  using holds_sorted [of s ps] pick_law [of s ps] by (cases ps) auto

lemma drain_holds:
  "holds s ps \<Longrightarrow> \<exists>s'. drain pick del (length ps) s = Some (ps, s') \<and> holds s' []"
proof (induction ps arbitrary: s)
  case (Cons p ps)
  obtain s1 where s1: "del p s = Some s1" "holds s1 ps" using del_law [OF Cons.prems, of p] by auto
  then show ?case using Cons.IH [OF s1(2)] pick_law [OF Cons.prems] by auto
qed simp

text \<open>Filling the queue sorts the processes by their keys, stably.\<close>

lemma ins_all_holds:
  assumes "holds s qs" "set ps \<subseteq> {..<64}" "distinct (qs @ ps)"
  shows "\<exists>s' rs. ins_all ins ps s = Some s' \<and> holds s' rs \<and> key s' = key s \<and> set rs = set (qs @ ps) \<and> length rs = length (qs @ ps)
    \<and> (\<forall>c. filter (\<lambda>q. key s q = c) rs = filter (\<lambda>q. key s q = c) (qs @ ps))"
  using assms
proof (induction ps arbitrary: s qs)
  case (Cons p ps)
  let ?v = "key s p"
  let ?r = "filter (\<lambda>q. key s q \<le> ?v) qs @ p # filter (\<lambda>q. ?v < key s q) qs"
  have so: "sorted (map (key s) qs)" using holds_sorted [OF Cons.prems(1)] by simp
  obtain s1 where s1: "ins p s = Some s1" "holds s1 ?r" "key s1 = key s"
    using ins_law [OF Cons.prems(1), of p] Cons.prems(2,3) by auto
  have split: "filter (\<lambda>q. key s q \<le> ?v) qs @ filter (\<lambda>q. ?v < key s q) qs = qs" by (rule insert_behind [OF so])
  have sets: "set ?r = insert p (set qs)" using arg_cong [OF split, of set] by auto
  have len: "length ?r = Suc (length qs)" using arg_cong [OF split, of length] by simp
  have "distinct (?r @ ps)" using Cons.prems(3) holds_sorted [OF s1(2)] sets by auto
  from Cons.IH [OF s1(2) _ this] Cons.prems(2) obtain s' rs where r: "ins_all ins ps s1 = Some s'" "holds s' rs" "key s' = key s1"
      "set rs = set (?r @ ps)" "length rs = length (?r @ ps)" "\<And>c. filter (\<lambda>q. key s1 q = c) rs = filter (\<lambda>q. key s1 q = c) (?r @ ps)" by auto
  have "filter (\<lambda>q. key s q = c) rs = filter (\<lambda>q. key s q = c) (qs @ p # ps)" for c
  proof -
    have "filter (\<lambda>q. key s q = c) rs = filter (\<lambda>q. key s q = c) ?r @ filter (\<lambda>q. key s q = c) ps"
      using r(6) [of c] unfolding s1(3) filter_append .
    also have "\<dots> = filter (\<lambda>q. key s q = c) (qs @ [p]) @ filter (\<lambda>q. key s q = c) ps" by (simp only: filter_behind [OF so refl])
    finally show ?thesis by simp
  qed
  moreover have "set rs = set (qs @ p # ps)" unfolding r(4) set_append sets by auto
  moreover have "length rs = length (qs @ p # ps)" using r(5) len by simp
  moreover have "ins_all ins (p # ps) s = Some s'" "key s' = key s" using r(1,3) s1 by simp_all
  ultimately show ?case using r(2) by blast
qed auto

lemma fill_and_drain:
  assumes "holds s []" "set ps \<subseteq> {..<64}" "distinct ps"
  shows "\<exists>s1 s2. ins_all ins ps s = Some s1 \<and> drain pick del (length ps) s1 = Some (sort_key (key s) ps, s2) \<and> holds s2 []"
proof -
  obtain s1 rs where r: "ins_all ins ps s = Some s1" "holds s1 rs" "key s1 = key s" "length rs = length ps"
      "\<And>c. filter (\<lambda>q. key s q = c) rs = filter (\<lambda>q. key s q = c) ps"
    using ins_all_holds [of s "[]" ps] assms by auto
  have "sorted (map (key s) rs)" using holds_sorted [OF r(2)] r(3) by simp
  moreover have "filter (\<lambda>y. key s c = key s y) ps = filter (\<lambda>y. key s c = key s y) rs" for c
    using r(5) [of "key s c"] by (simp add: eq_commute [of "key s c"])
  moreover have "mset rs = mset ps"
  proof (rule multiset_eqI)
    fix x
    have "count (mset (filter (\<lambda>q. key s q = key s x) rs)) x = count (mset (filter (\<lambda>q. key s q = key s x) ps)) x" by (simp only: r(5))
    then show "count (mset rs) x = count (mset ps) x" by simp
  qed
  ultimately have "sort_key (key s) ps = rs" by (intro properties_for_sort_key) simp_all
  then show ?thesis using r(1,4) drain_holds [OF r(2)] by auto
qed

end

text \<open>The red-black tree of the scheduler meets the contract.\<close>

definition rq_holds :: "'a rb_state_scheme \<Rightarrow> nat list \<Rightarrow> bool" where
  "rq_holds s ps \<longleftrightarrow> (\<exists>t. queue_ok s t \<and> ps = map (node_slot s) (nodes t))"

definition rq_key :: "'a rb_state_scheme \<Rightarrow> nat \<Rightarrow> u64" where
  "rq_key s p = vruntime (processes s p)"

lemma rq_holds_sorted:
  assumes "rq_holds s ps"
  shows "sorted (map (rq_key s) ps) \<and> distinct ps"
proof -
  obtain t where t: "queue_ok s t" "ps = map (node_slot s) (nodes t)" using assms unfolding rq_holds_def by blast
  have "distinct (nodes t)" "inj_on (node_slot s) (set (nodes t))" using t(1) linked_inj by (auto simp: queue_ok_def at_def)
  then show ?thesis using t by (simp add: queue_ok_def rq_key_def comp_def distinct_map)
qed

lemma rq_holds_node:
  assumes "rq_holds s ps"
  shows "p \<in> set ps \<longleftrightarrow> rb_node (processes s p) \<noteq> None" "p \<in> set ps \<Longrightarrow> p < 64"
proof -
  obtain t where t: "queue_ok s t" "ps = map (node_slot s) (nodes t)" using assms unfolding rq_holds_def by blast
  have lk: "linked s (nodes t)" using t(1) by (simp add: queue_ok_def)
  show "p \<in> set ps \<longleftrightarrow> rb_node (processes s p) \<noteq> None" using linkedD [OF lk] t(2) by force
  show "p \<in> set ps \<Longrightarrow> p < 64" using linkedD(1) [OF lk] t(2) by (auto simp: EEVDF_MAX_PROCESSES_def)
qed

lemma rq_insert:
  assumes "rq_holds s ps" "p < 64" "p \<notin> set ps"
  shows "\<exists>s' n. EEVDFRBInsert p s = Some s' \<and> rq_holds s' (filter (\<lambda>q. rq_key s q \<le> rq_key s p) ps @ p # filter (\<lambda>q. rq_key s p < rq_key s q) ps)
    \<and> processes s' = (processes s)(p := (processes s p)\<lparr>rb_node := Some n\<rparr>) \<and> rb_state.more s' = rb_state.more s"
proof -
  obtain t where t: "queue_ok s t" "ps = map (node_slot s) (nodes t)" using assms(1) unfolding rq_holds_def by blast
  have "rb_node (processes s p) = None" using assms(3) rq_holds_node(1) [OF assms(1)] by blast
  from EEVDFRBInsert_queue [OF t(1) _ this refl refl refl] assms(2)
  obtain s' t' n where r: "EEVDFRBInsert p s = Some s'" "queue_ok s' t'" "n \<notin> set (nodes t)" "node_slot s' = (node_slot s)(n := p)"
      "processes s' = (processes s)(p := (processes s p)\<lparr>rb_node := Some n\<rparr>)" "rb_state.more s' = rb_state.more s"
      "nodes t' = filter (\<lambda>m. key_of s m \<le> rq_key s p) (nodes t) @ n # filter (\<lambda>m. rq_key s p < key_of s m) (nodes t)"
    by (auto simp: EEVDF_MAX_PROCESSES_def rq_key_def)
  have m: "map (node_slot s') (filter P (nodes t)) = map (node_slot s) (filter P (nodes t))" for P
    using r(3,4) by (intro map_cong) auto
  have "map (node_slot s') (nodes t') = filter (\<lambda>q. rq_key s q \<le> rq_key s p) ps @ p # filter (\<lambda>q. rq_key s p < rq_key s q) ps"
    unfolding r(7) map_append list.map m using r(4) by (simp add: t(2) filter_map comp_def rq_key_def)
  then show ?thesis using r unfolding rq_holds_def by metis
qed

lemma map_remove1_inj_on: "inj_on f (insert n (set xs)) \<Longrightarrow> map f (remove1 n xs) = remove1 (f n) (map f xs)"
  by (induction xs) (auto simp: inj_on_def)

lemma rq_delete:
  assumes "rq_holds s ps" "p \<in> set ps"
  shows "\<exists>s'. EEVDFRBDelete p s = Some s' \<and> rq_holds s' (remove1 p ps)
    \<and> processes s' = (processes s)(p := (processes s p)\<lparr>rb_node := None\<rparr>) \<and> rb_state.more s' = rb_state.more s"
proof -
  obtain t where t: "queue_ok s t" "ps = map (node_slot s) (nodes t)" using assms(1) unfolding rq_holds_def by blast
  have d: "distinct (nodes t)" "inj_on (node_slot s) (set (nodes t))" using t(1) linked_inj by (auto simp: queue_ok_def at_def)
  obtain n where "rb_node (processes s p) = Some n" using assms rq_holds_node(1) by blast
  from EEVDFRBDelete_queue [OF t(1) this]
  obtain s' t' where r: "EEVDFRBDelete p s = Some s'" "queue_ok s' t'" "nodes t' = remove1 n (nodes t)" "n \<in> set (nodes t)" "node_slot s n = p"
      "node_slot s' = (node_slot s)(n := 0)" "processes s' = (processes s)(p := (processes s p)\<lparr>rb_node := None\<rparr>)" "rb_state.more s' = rb_state.more s"
    by blast
  have "map (node_slot s') (nodes t') = map (node_slot s) (remove1 n (nodes t))"
    unfolding r(3,6) using d(1) by (intro map_cong) auto
  also have "\<dots> = remove1 p ps"
  proof -
    have "inj_on (node_slot s) (insert n (set (nodes t)))" using d(2) r(4) by (simp add: insert_absorb)
    then show ?thesis unfolding t(2) r(5) [symmetric] by (rule map_remove1_inj_on)
  qed
  finally show ?thesis using r unfolding rq_holds_def by metis
qed

lemma rq_pick:
  assumes "rq_holds s ps"
  shows "EEVDFPickNext s = (case ps of [] \<Rightarrow> None | p # _ \<Rightarrow> Some p)"
  using assms by (auto simp: rq_holds_def queue_ok_def EEVDFPickNext_def first_ptr_def split: list.split)

interpretation eevdf_rq: run_queue rq_holds rq_key EEVDFRBInsert EEVDFRBDelete EEVDFPickNext
proof
  fix s :: "'a rb_state_scheme" and ps p
  assume h: "rq_holds s ps"
  show "sorted (map (rq_key s) ps) \<and> distinct ps" by (rule rq_holds_sorted [OF h])
  show "EEVDFPickNext s = (case ps of [] \<Rightarrow> None | p # _ \<Rightarrow> Some p)" by (rule rq_pick [OF h])
  show "\<exists>s'. EEVDFRBDelete p s = Some s' \<and> rq_holds s' (remove1 p ps) \<and> rq_key s' = rq_key s" if "p \<in> set ps"
    using rq_delete [OF h that] by (fastforce simp: rq_key_def)
  show "\<exists>s'. EEVDFRBInsert p s = Some s' \<and> rq_holds s' (filter (\<lambda>q. rq_key s q \<le> rq_key s p) ps @ p # filter (\<lambda>q. rq_key s p < rq_key s q) ps)
      \<and> rq_key s' = rq_key s" if "p < 64" "p \<notin> set ps"
    using rq_insert [OF h that] by (fastforce simp: rq_key_def)
qed

text \<open>An empty run queue: no tree, no node in use, no process linked.\<close>

definition rq_empty :: "'a rb_state_scheme \<Rightarrow> bool" where
  "rq_empty s \<longleftrightarrow> rb_root s = None \<and> rb_leftmost s = None \<and> rb_node_pool_bitmap s = [0, 0] \<and> (\<forall>p. rb_node (processes s p) = None)"

lemma rq_empty_holds: "rq_empty s \<Longrightarrow> rq_holds s []"
  unfolding rq_holds_def
  by (intro exI [of _ Leaf]) (auto simp: rq_empty_def queue_ok_def at_def rb_valid_def first_ptr_def pool_ok_def linked_def node_used_def less_Suc_eq numeral_2_eq_2 nth_Cons split: nat.split)

text \<open>
  C7: The red-black tree of the EEVDF run queue is a stable priority queue: inserting any set of processes
  succeeds and taking the leftmost one until the queue is empty returns them sorted by virtual run time,
  processes with the same one in the order of their insertion.
\<close>

theorem run_queue_sorts:
  assumes "rq_empty s" "set ps \<subseteq> {..<64}" "distinct ps"
  shows "\<exists>s1 s2. ins_all EEVDFRBInsert ps s = Some s1
    \<and> drain EEVDFPickNext EEVDFRBDelete (length ps) s1 = Some (sort_key (\<lambda>p. vruntime (processes s p)) ps, s2) \<and> EEVDFPickNext s2 = None"
proof -
  have "rq_key s = (\<lambda>p. vruntime (processes s p))" by (simp add: fun_eq_iff rq_key_def)
  then show ?thesis using eevdf_rq.fill_and_drain [OF rq_empty_holds [OF assms(1)] assms(2,3)] rq_pick [of _ "[]"] by auto
qed

definition sample_queue :: rb_state where
  "sample_queue = \<lparr>processes = (\<lambda>i. zero_pcb\<lparr>vruntime := word_of_nat (10 - i)\<rparr>), node_left = Map.empty, node_right = Map.empty, node_parent = Map.empty,
     node_color = (\<lambda>_. 0), node_slot = (\<lambda>_. 0), rb_node_pool_bitmap = [0, 0], rb_root = None, rb_leftmost = None\<rparr>"

lemma sample_queue_empty: "rq_empty sample_queue"
  by (simp add: rq_empty_def sample_queue_def zero_pcb_def)

theorem run_queue_sorts_witness:
  "\<exists>s1 s2. ins_all EEVDFRBInsert [1, 3, 2] sample_queue = Some s1
    \<and> drain EEVDFPickNext EEVDFRBDelete 3 s1 = Some ([3, 2, 1], s2) \<and> EEVDFPickNext s2 = None"
proof -
  have "sort_key (\<lambda>p. vruntime (processes sample_queue p)) [1, 3, 2] = [3, 2, 1]" by (simp add: sample_queue_def)
  moreover have "length [1, 3, 2 :: nat] = 3" by simp
  moreover have "set [1, 3, 2 :: nat] \<subseteq> {..<64}" "distinct [1, 3, 2 :: nat]" by simp_all
  ultimately show ?thesis using run_queue_sorts [OF sample_queue_empty, of "[1, 3, 2]"] by metis
qed

text \<open>
  C14: In every state of the run queue, with the queued processes \<open>ps\<close> in order, insertion of a further
  process and deletion of a queued one return, and leave a valid red-black tree of exactly the expected
  processes, in order of virtual run time, with the leftmost cached and every process linked to its node.
\<close>

theorem EEVDFRB_operations_correct:
  assumes "rq_holds s ps" "p < 64"
  shows "if p \<in> set ps then \<exists>s'. EEVDFRBDelete p s = Some s' \<and> rq_holds s' (remove1 p ps)
    else \<exists>s'. EEVDFRBInsert p s = Some s'
      \<and> rq_holds s' (filter (\<lambda>q. rq_key s q \<le> rq_key s p) ps @ p # filter (\<lambda>q. rq_key s p < rq_key s q) ps)"
  using eevdf_rq.ins_law [OF assms] eevdf_rq.del_law [OF assms(1), of p] by auto

theorem EEVDFRB_operations_correct_witness: "\<exists>s'. EEVDFRBInsert 5 sample_queue = Some s' \<and> rq_holds s' [5]"
  using EEVDFRB_operations_correct [OF rq_empty_holds [OF sample_queue_empty], of 5] by simp

end
