(* ===== verification/Cerberus.thy ===== *)
theory Cerberus
  imports VF_Prelude "HOL-Library.Multiset"
begin

text \<open>
  The memory monitor (\<open>src/mm/security/Cerberus.c\<close>): the watched regions, the record of each process,
  stack canaries and the checks the scheduler calls.  The two tables are lists of the fixed C lengths; an
  index outside is a fault, the result \<open>None\<close>.  The page tables and the memory the canaries lie in are
  arguments: \<open>phys\<close> is \<open>VMemGetPhysAddr\<close>, \<open>writable\<close> says where a store takes effect.  Messages to the
  console, and \<open>CheckResourceLeaks\<close>, which prints only, are left out.
\<close>

unbundle bit_operations_syntax

section \<open>State\<close>

definition CERBERUS_MAX_WATCH_REGIONS :: nat where "CERBERUS_MAX_WATCH_REGIONS = 64"
definition CERBERUS_MAX_PROCESSES :: nat where "CERBERUS_MAX_PROCESSES = 128"
definition CERBERUS_VIOLATION_THRESHOLD :: u32 where "CERBERUS_VIOLATION_THRESHOLD = 3"
definition CERBERUS_CHECK_INTERVAL :: u64 where "CERBERUS_CHECK_INTERVAL = 50"

datatype MemorySecurityViolation =
    MEM_VIOLATION_NONE | MEM_VIOLATION_BUFFER_OVERFLOW | MEM_VIOLATION_STACK_CORRUPTION | MEM_VIOLATION_USE_AFTER_FREE
  | MEM_VIOLATION_DOUBLE_FREE | MEM_VIOLATION_BOUNDS_CHECK | MEM_VIOLATION_CANARY_CORRUPT | MEM_VIOLATION_HEAP_CORRUPT

record CerberusWatchRegion =
  base_addr :: u64
  region_size :: u64
  region_pid :: u32
  alloc_time :: u64
  is_active :: bool
  is_stack_region :: bool

record CerberusProcessInfo =
  info_pid :: u32
  violation_count :: u32
  last_violation :: u64
  stack_canary_addr :: u64
  is_monitored :: bool
  is_compromised :: bool

record CerberusViolationReport =
  violation_type :: MemorySecurityViolation
  fault_address :: u64
  report_pid :: u32
  report_rip :: u64

record CerberusState =
  watch_regions :: "CerberusWatchRegion list"
  process_info :: "CerberusProcessInfo list"
  active_regions :: u32
  monitored_processes :: u32
  total_violations :: u32
  is_initialized :: bool
  system_ticks :: u64

definition upd_info :: "nat \<Rightarrow> (CerberusProcessInfo \<Rightarrow> CerberusProcessInfo) \<Rightarrow> CerberusState \<Rightarrow> CerberusState" where
  "upd_info i f s = s\<lparr>process_info := (process_info s)[i := f (process_info s ! i)]\<rparr>"

definition upd_region :: "nat \<Rightarrow> (CerberusWatchRegion \<Rightarrow> CerberusWatchRegion) \<Rightarrow> CerberusState \<Rightarrow> CerberusState" where
  "upd_region i f s = s\<lparr>watch_regions := (watch_regions s)[i := f (watch_regions s ! i)]\<rparr>"

section \<open>Operations\<close>

definition CerberusLogViolation :: "CerberusViolationReport option \<Rightarrow> CerberusState \<Rightarrow> CerberusState option" where
  "CerberusLogViolation report s =
     (case report of
        None \<Rightarrow> Some s
      | Some r \<Rightarrow>
          if \<not> is_initialized s then Some s
          else let i = unat (report_pid r); s = s\<lparr>total_violations := total_violations s + 1\<rparr> in
               if i \<ge> CERBERUS_MAX_PROCESSES then None
               else Some (upd_info i (\<lambda>p. p\<lparr>violation_count := violation_count p + 1, last_violation := system_ticks s\<rparr>) s))"

definition CerberusInit :: "bool \<Rightarrow> CerberusState \<Rightarrow> CerberusState" where
  "CerberusInit lock_ok s =
     (if \<not> lock_ok then s
      else s\<lparr>watch_regions := map (\<lambda>r. r\<lparr>is_active := False\<rparr>) (watch_regions s),
             process_info := map (\<lambda>p. p\<lparr>is_monitored := False, is_compromised := False, violation_count := 0\<rparr>) (process_info s),
             active_regions := 0, monitored_processes := 0, total_violations := 0, is_initialized := True\<rparr>)"

definition STACK_CANARY_VALUE :: u64 where "STACK_CANARY_VALUE = 0xDEADBEEFCAFEBABE"

definition CerberusInstallStackCanary ::
  "(u64 \<Rightarrow> u64) \<Rightarrow> (u64 \<Rightarrow> bool) \<Rightarrow> u32 \<Rightarrow> u64 \<Rightarrow> u64 \<Rightarrow> CerberusState \<times> (u64 \<Rightarrow> u64) \<Rightarrow> int \<times> CerberusState \<times> (u64 \<Rightarrow> u64)" where
  "CerberusInstallStackCanary phys writable pid stack_top stack_size sm =
     (let (s, mem) = sm in
      if \<not> is_initialized s \<or> unat pid \<ge> CERBERUS_MAX_PROCESSES then (-1, s, mem)
      else if stack_size < 0x2000 then (-1, s, mem)
      else let canary_addr = stack_top - 0x100 in
           if phys canary_addr = 0 then (-1, s, mem)
           else let store = (\<lambda>v mem. if writable canary_addr then mem(canary_addr := v) else mem);
                    mem = store 0x1234567890ABCDEF mem in
                if mem canary_addr \<noteq> 0x1234567890ABCDEF then (-1, s, mem)
                else (0, upd_info (unat pid) (\<lambda>p. p\<lparr>stack_canary_addr := canary_addr\<rparr>) s, store STACK_CANARY_VALUE mem))"

definition CerberusRegisterProcess ::
  "(u64 \<Rightarrow> u64) \<Rightarrow> (u64 \<Rightarrow> bool) \<Rightarrow> bool \<Rightarrow> u32 \<Rightarrow> u64 \<Rightarrow> u64 \<Rightarrow> CerberusState \<times> (u64 \<Rightarrow> u64) \<Rightarrow> int \<times> CerberusState \<times> (u64 \<Rightarrow> u64)" where
  "CerberusRegisterProcess phys writable stack_protection pid stack_base stack_size sm =
     (let (s, mem) = sm in
      if \<not> is_initialized s \<or> unat pid \<ge> CERBERUS_MAX_PROCESSES then (-1, s, mem)
      else if is_monitored (process_info s ! unat pid) then (0, s, mem)
      else let s = upd_info (unat pid) (\<lambda>p. p\<lparr>info_pid := pid, is_monitored := True, is_compromised := False,
                     violation_count := 0, last_violation := 0\<rparr>) s;
               (s, mem) = (if stack_protection \<and> stack_base \<noteq> 0 \<and> stack_size > 16
                           then snd (CerberusInstallStackCanary phys writable pid stack_base stack_size (s, mem)) else (s, mem))
           in (0, s\<lparr>monitored_processes := monitored_processes s + 1\<rparr>, mem))"

definition drop_region :: "u32 \<Rightarrow> CerberusState \<Rightarrow> nat \<Rightarrow> CerberusState" where
  "drop_region pid s i =
     (let region = watch_regions s ! i in
      if is_active region \<and> region_pid region = pid
      then (upd_region i (\<lambda>r. r\<lparr>is_active := False\<rparr>) s)\<lparr>active_regions := active_regions s - 1\<rparr> else s)"

definition CerberusUnregisterProcess :: "u32 \<Rightarrow> CerberusState \<Rightarrow> CerberusState" where
  "CerberusUnregisterProcess pid s =
     (if \<not> is_initialized s \<or> unat pid \<ge> CERBERUS_MAX_PROCESSES then s
      else if is_monitored (process_info s ! unat pid)
           then foldl (drop_region pid)
                  ((upd_info (unat pid) (\<lambda>p. p\<lparr>is_monitored := False\<rparr>) s)\<lparr>monitored_processes := monitored_processes s - 1\<rparr>)
                  [0..<CERBERUS_MAX_WATCH_REGIONS]
           else s)"

definition CerberusCheckStackCanary :: "(u64 \<Rightarrow> u64) \<Rightarrow> (u64 \<Rightarrow> u64) \<Rightarrow> u32 \<Rightarrow> CerberusState \<Rightarrow> (int \<times> CerberusState) option" where
  "CerberusCheckStackCanary phys mem pid s =
     (if \<not> is_initialized s \<or> unat pid \<ge> CERBERUS_MAX_PROCESSES then Some (-1, s)
      else let p = process_info s ! unat pid; a = stack_canary_addr p in
           if \<not> is_monitored p \<or> a = 0 then Some (0, s)
           else if phys a = 0 then Some (-1, s)
           else if mem a \<noteq> STACK_CANARY_VALUE
                then map_option (\<lambda>s. (1, upd_info (unat pid) (\<lambda>p. p\<lparr>is_compromised := True\<rparr>) s))
                       (CerberusLogViolation (Some \<lparr>violation_type = MEM_VIOLATION_CANARY_CORRUPT, fault_address = a,
                          report_pid = pid, report_rip = 0\<rparr>) s)
                else Some (0, s))"

definition CerberusPreScheduleCheck :: "(u64 \<Rightarrow> u64) \<Rightarrow> (u64 \<Rightarrow> u64) \<Rightarrow> u32 \<Rightarrow> CerberusState \<Rightarrow> CerberusState option" where
  "CerberusPreScheduleCheck phys mem pid s =
     (if \<not> is_initialized s then Some s
      else if unat pid \<ge> CERBERUS_MAX_PROCESSES then None
      else let p = process_info s ! unat pid in
           if \<not> is_monitored p \<or> is_compromised p then Some s
           else map_option snd (CerberusCheckStackCanary phys mem pid s))"

definition CerberusTick :: "CerberusState \<Rightarrow> CerberusState" where
  "CerberusTick s =
     (if \<not> is_initialized s then s
      else let s = s\<lparr>system_ticks := system_ticks s + 1\<rparr> in
           if system_ticks s mod CERBERUS_CHECK_INTERVAL = 0
           then s\<lparr>process_info := map (\<lambda>p. if is_monitored p \<and> violation_count p > CERBERUS_VIOLATION_THRESHOLD \<and> \<not> is_compromised p
                    then p\<lparr>is_compromised := True\<rparr> else p) (process_info s)\<rparr>
           else s)"

definition fault_violation :: "u64 \<Rightarrow> u64 \<Rightarrow> MemorySecurityViolation" where
  "fault_violation fault_addr error_code =
     (if fault_addr = 0 \<or> fault_addr < 0x1000 then MEM_VIOLATION_USE_AFTER_FREE
      else if error_code AND 0x2 \<noteq> 0 \<and> error_code AND 0x1 = 0 then MEM_VIOLATION_BUFFER_OVERFLOW
      else if error_code AND 0x10 \<noteq> 0 then MEM_VIOLATION_STACK_CORRUPTION
      else if fault_addr \<ge> 0xFFFF800000000000 then MEM_VIOLATION_BOUNDS_CHECK
      else MEM_VIOLATION_NONE)"

definition CerberusAnalyzeFault :: "u64 \<Rightarrow> u64 \<Rightarrow> u32 \<Rightarrow> u64 \<Rightarrow> CerberusState \<Rightarrow> (int \<times> CerberusState) option" where
  "CerberusAnalyzeFault fault_addr error_code pid rip s =
     (if \<not> is_initialized s then Some (0, s)
      else let v = fault_violation fault_addr error_code in
           if v \<noteq> MEM_VIOLATION_NONE
           then map_option (Pair 1) (CerberusLogViolation (Some \<lparr>violation_type = v, fault_address = fault_addr,
                  report_pid = pid, report_rip = rip\<rparr>) s)
           else Some (0, s))"

definition CerberusTrackAlloc :: "u64 \<Rightarrow> u64 \<Rightarrow> u32 \<Rightarrow> CerberusState \<Rightarrow> int \<times> CerberusState" where
  "CerberusTrackAlloc addr sz pid s =
     (if \<not> is_initialized s then (-1, s)
      else case List.find (\<lambda>i. \<not> is_active (watch_regions s ! i)) [0..<CERBERUS_MAX_WATCH_REGIONS] of
             None \<Rightarrow> (-1, s)
           | Some i \<Rightarrow>
               (0, (upd_region i (\<lambda>r. r\<lparr>base_addr := addr, region_size := sz, region_pid := pid, alloc_time := system_ticks s,
                       is_active := True, is_stack_region := False\<rparr>) s)\<lparr>active_regions := active_regions s + 1\<rparr>))"

definition CerberusTrackFree :: "u64 \<Rightarrow> u32 \<Rightarrow> CerberusState \<Rightarrow> (int \<times> CerberusState) option" where
  "CerberusTrackFree addr pid s =
     (if \<not> is_initialized s then Some (-1, s)
      else case List.find (\<lambda>i. let r = watch_regions s ! i in is_active r \<and> base_addr r = addr \<and> region_pid r = pid)
                  [0..<CERBERUS_MAX_WATCH_REGIONS] of
             Some i \<Rightarrow> Some (0, (upd_region i (\<lambda>r. r\<lparr>is_active := False\<rparr>) s)\<lparr>active_regions := active_regions s - 1\<rparr>)
           | None \<Rightarrow>
               map_option (Pair 1) (CerberusLogViolation (Some \<lparr>violation_type = MEM_VIOLATION_DOUBLE_FREE, fault_address = addr,
                 report_pid = pid, report_rip = 0\<rparr>) s))"

section \<open>The watched regions as a bag\<close>

text \<open>
  What the table of regions stands for: the bag of the blocks, with their owners, that are allocated.  The
  invariant ties the two counters to the tables.
\<close>

definition tracked :: "CerberusState \<Rightarrow> (u64 \<times> u32) multiset" where
  "tracked s = image_mset (\<lambda>r. (base_addr r, region_pid r)) (filter_mset is_active (mset (watch_regions s)))"

definition monitored :: "CerberusState \<Rightarrow> nat set" where
  "monitored s = {i. i < CERBERUS_MAX_PROCESSES \<and> is_monitored (process_info s ! i)}"

definition cerberus_ok :: "CerberusState \<Rightarrow> bool" where
  "cerberus_ok s \<longleftrightarrow> length (watch_regions s) = CERBERUS_MAX_WATCH_REGIONS \<and> length (process_info s) = CERBERUS_MAX_PROCESSES
     \<and> (is_initialized s \<longrightarrow> unat (active_regions s) = size (tracked s) \<and> unat (monitored_processes s) = card (monitored s))"

lemma tracked_update:
  assumes "i < length (watch_regions s)" "watch_regions s' = (watch_regions s)[i := v]"
  shows "tracked s' = (tracked s - (if is_active (watch_regions s ! i) then {#(base_addr (watch_regions s ! i), region_pid (watch_regions s ! i))#} else {#}))
    + (if is_active v then {#(base_addr v, region_pid v)#} else {#})"
proof -
  have m: "watch_regions s ! i \<in># mset (watch_regions s)" using assms(1) by simp
  then obtain M where M: "mset (watch_regions s) = add_mset (watch_regions s ! i) M" by (meson mset_add)
  have "mset (watch_regions s') = add_mset v M" using assms M by (simp add: mset_update)
  then show ?thesis unfolding tracked_def M by simp
qed

lemma tracked_size_le: "size (tracked s) \<le> length (watch_regions s)"
  by (simp add: tracked_def) (metis size_filter_mset_lesseq size_mset)

lemma tracked_full:
  assumes "\<forall>i < length (watch_regions s). is_active (watch_regions s ! i)"
  shows "size (tracked s) = length (watch_regions s)"
proof -
  have "filter is_active (watch_regions s) = watch_regions s" using assms by (intro filter_True) (auto simp: in_set_conv_nth)
  then have "filter_mset is_active (mset (watch_regions s)) = mset (watch_regions s)" by (metis mset_filter)
  then show ?thesis by (simp add: tracked_def)
qed

lemma find_upt_None: "List.find P [0..<n] = None \<longleftrightarrow> (\<forall>i < n. \<not> P i)"
  by (simp add: find_None_iff)

lemma find_upt_SomeD: "List.find P [0..<n] = Some i \<Longrightarrow> i < n \<and> P i"
  by (auto simp: find_Some_iff)

lemma u32_inc: "unat x < 64 \<Longrightarrow> unat (x + 1 :: u32) = unat x + 1"
  by (simp add: unat_word_ariths)

lemma u32_dec: "0 < unat x \<Longrightarrow> unat (x - 1 :: u32) = unat x - 1"
  by (metis One_nat_def unat_gt_0 unat_minus_one unat_0 not_gr_zero)

text \<open>Giving up a region.\<close>

lemma deactivate_bag:
  assumes ok: "cerberus_ok s" and init: "is_initialized s" and i: "i < length (watch_regions s)" "is_active (watch_regions s ! i)"
    and s': "s' = (s\<lparr>watch_regions := (watch_regions s)[i := (watch_regions s ! i)\<lparr>is_active := False\<rparr>]\<rparr>)\<lparr>active_regions := active_regions s - 1\<rparr>"
  shows "cerberus_ok s' \<and> (base_addr (watch_regions s ! i), region_pid (watch_regions s ! i)) \<in># tracked s
    \<and> tracked s' = tracked s - {#(base_addr (watch_regions s ! i), region_pid (watch_regions s ! i))#}"
proof -
  let ?b = "(base_addr (watch_regions s ! i), region_pid (watch_regions s ! i))"
  have m: "?b \<in># tracked s" using i by (auto simp: tracked_def in_set_conv_nth)
  then have "0 < size (tracked s)" by (metis empty_iff nonempty_has_size set_mset_empty)
  moreover have t: "tracked s' = tracked s - {#?b#}" using tracked_update [OF i(1), of s'] i s' by simp
  moreover have "monitored s' = monitored s" by (simp add: s' monitored_def)
  ultimately have "cerberus_ok s'"
    using ok init m u32_dec [of "active_regions s"] t by (simp add: cerberus_ok_def size_Diff_singleton) (simp add: s')
  then show ?thesis using m t by simp
qed

lemma CerberusTrackAlloc_bag:
  assumes ok: "cerberus_ok s" and init: "is_initialized s"
  shows "if size (tracked s) < 64
    then \<exists>s'. CerberusTrackAlloc addr sz pid s = (0, s') \<and> tracked s' = add_mset (addr, pid) (tracked s) \<and> cerberus_ok s'
       \<and> process_info s' = process_info s
    else CerberusTrackAlloc addr sz pid s = (-1, s)"
proof (cases "List.find (\<lambda>i. \<not> is_active (watch_regions s ! i)) [0..<CERBERUS_MAX_WATCH_REGIONS]")
  case None
  then have "size (tracked s) = 64"
    using tracked_full [of s] ok by (simp add: find_upt_None cerberus_ok_def CERBERUS_MAX_WATCH_REGIONS_def)
  then show ?thesis using None init by (simp add: CerberusTrackAlloc_def)
next
  case (Some i)
  then have i: "i < length (watch_regions s)" "\<not> is_active (watch_regions s ! i)"
    using find_upt_SomeD [OF Some] ok by (simp_all add: cerberus_ok_def)
  let ?r = "(watch_regions s ! i)\<lparr>base_addr := addr, region_size := sz, region_pid := pid, alloc_time := system_ticks s,
    is_active := True, is_stack_region := False\<rparr>"
  let ?s = "(s\<lparr>watch_regions := (watch_regions s)[i := ?r]\<rparr>)\<lparr>active_regions := active_regions s + 1\<rparr>"
  have t: "tracked ?s = add_mset (addr, pid) (tracked s)" using tracked_update [OF i(1), of ?s ?r] i(2) by simp
  have "size (tracked ?s) \<le> 64" using tracked_size_le [of ?s] ok by (simp add: cerberus_ok_def CERBERUS_MAX_WATCH_REGIONS_def)
  then have less: "size (tracked s) < 64" using t by simp
  have "cerberus_ok ?s" using ok init less t by (simp add: cerberus_ok_def u32_inc monitored_def)
  then show ?thesis using less Some init t by (simp add: CerberusTrackAlloc_def upd_region_def)
qed

lemma CerberusTrackFree_bag:
  assumes ok: "cerberus_ok s" and init: "is_initialized s" and pid: "unat pid < 128"
  shows "if (addr, pid) \<in># tracked s
    then \<exists>s'. CerberusTrackFree addr pid s = Some (0, s') \<and> tracked s' = tracked s - {#(addr, pid)#} \<and> cerberus_ok s' \<and> process_info s' = process_info s
    else \<exists>s'. CerberusTrackFree addr pid s = Some (1, s') \<and> tracked s' = tracked s \<and> cerberus_ok s'
       \<and> violation_count (process_info s' ! unat pid) = violation_count (process_info s ! unat pid) + 1"
proof (cases "List.find (\<lambda>i. let r = watch_regions s ! i in is_active r \<and> base_addr r = addr \<and> region_pid r = pid) [0..<CERBERUS_MAX_WATCH_REGIONS]")
  case None
  then have "(addr, pid) \<notin># tracked s"
    using ok by (auto simp: find_upt_None cerberus_ok_def tracked_def Let_def in_set_conv_nth)
  moreover have l: "length (process_info s) = 128" using ok by (simp add: cerberus_ok_def CERBERUS_MAX_PROCESSES_def)
  moreover have "monitored (upd_info j (\<lambda>p. p\<lparr>violation_count := a, last_violation := b\<rparr>) (s\<lparr>total_violations := c\<rparr>)) = monitored s" for j a b c
    using l by (auto simp: monitored_def upd_info_def nth_list_update_if CERBERUS_MAX_PROCESSES_def split: if_splits)
  ultimately show ?thesis
    using None init pid ok
    by (simp add: CerberusTrackFree_def CerberusLogViolation_def Let_def CERBERUS_MAX_PROCESSES_def upd_info_def cerberus_ok_def tracked_def)
next
  case (Some i)
  then have i: "i < length (watch_regions s)" "is_active (watch_regions s ! i)" "base_addr (watch_regions s ! i) = addr" "region_pid (watch_regions s ! i) = pid"
    using find_upt_SomeD [OF Some] ok by (simp_all add: cerberus_ok_def Let_def)
  let ?s = "(s\<lparr>watch_regions := (watch_regions s)[i := (watch_regions s ! i)\<lparr>is_active := False\<rparr>]\<rparr>)\<lparr>active_regions := active_regions s - 1\<rparr>"
  have "cerberus_ok ?s" "(addr, pid) \<in># tracked s" "tracked ?s = tracked s - {#(addr, pid)#}"
    using deactivate_bag [OF ok init i(1,2) refl] i(3,4) by simp_all
  then show ?thesis using Some init by (simp add: CerberusTrackFree_def upd_region_def)
qed

section \<open>Registration\<close>

lemma drop_region_bag:
  assumes ok: "cerberus_ok s" and init: "is_initialized s" and i: "i < CERBERUS_MAX_WATCH_REGIONS"
  shows "cerberus_ok (drop_region pid s i) \<and> is_initialized (drop_region pid s i) \<and> process_info (drop_region pid s i) = process_info s
    \<and> monitored_processes (drop_region pid s i) = monitored_processes s
    \<and> watch_regions (drop_region pid s i) = (watch_regions s)[i := (watch_regions s ! i)\<lparr>is_active :=
         is_active (watch_regions s ! i) \<and> region_pid (watch_regions s ! i) \<noteq> pid\<rparr>]"
proof (cases "is_active (watch_regions s ! i) \<and> region_pid (watch_regions s ! i) = pid")
  case True
  let ?r = "watch_regions s ! i"
  let ?s = "(s\<lparr>watch_regions := (watch_regions s)[i := ?r\<lparr>is_active := False\<rparr>]\<rparr>)\<lparr>active_regions := active_regions s - 1\<rparr>"
  have li: "i < length (watch_regions s)" using ok i by (simp add: cerberus_ok_def)
  then have "cerberus_ok ?s" using deactivate_bag [OF ok init _ _ refl] True by simp
  then show ?thesis using True init by (simp add: drop_region_def upd_region_def)
next
  case False
  then have "drop_region pid s i = s" unfolding drop_region_def Let_def by (rule if_not_P)
  moreover have "(watch_regions s ! i)\<lparr>is_active := is_active (watch_regions s ! i) \<and> region_pid (watch_regions s ! i) \<noteq> pid\<rparr> = watch_regions s ! i"
    using False by (cases "watch_regions s ! i") auto
  ultimately show ?thesis using ok init by simp
qed

lemma drop_regions_bag:
  assumes "cerberus_ok s" "is_initialized s" "n \<le> CERBERUS_MAX_WATCH_REGIONS"
  shows "cerberus_ok (foldl (drop_region pid) s [0..<n]) \<and> is_initialized (foldl (drop_region pid) s [0..<n])
    \<and> process_info (foldl (drop_region pid) s [0..<n]) = process_info s
    \<and> monitored_processes (foldl (drop_region pid) s [0..<n]) = monitored_processes s
    \<and> watch_regions (foldl (drop_region pid) s [0..<n]) =
        map (\<lambda>r. r\<lparr>is_active := is_active r \<and> region_pid r \<noteq> pid\<rparr>) (take n (watch_regions s)) @ drop n (watch_regions s)"
  using assms(3)
proof (induction n)
  case (Suc n)
  let ?s = "foldl (drop_region pid) s [0..<n]"
  have n: "n < CERBERUS_MAX_WATCH_REGIONS" "n < length (watch_regions s)" using Suc.prems assms(1) by (simp_all add: cerberus_ok_def)
  have IH: "cerberus_ok ?s" "is_initialized ?s" "process_info ?s = process_info s" "monitored_processes ?s = monitored_processes s"
    "watch_regions ?s = map (\<lambda>r. r\<lparr>is_active := is_active r \<and> region_pid r \<noteq> pid\<rparr>) (take n (watch_regions s)) @ drop n (watch_regions s)"
    using Suc by simp_all
  have at: "watch_regions ?s ! n = watch_regions s ! n" using n(2) unfolding IH(5) by (simp add: nth_append)
  have "watch_regions (drop_region pid ?s n) =
      map (\<lambda>r. r\<lparr>is_active := is_active r \<and> region_pid r \<noteq> pid\<rparr>) (take (Suc n) (watch_regions s)) @ drop (Suc n) (watch_regions s)"
    using drop_region_bag [OF IH(1,2) n(1), of pid] n(2)
    by (simp add: at) (simp add: IH(5) list_update_append take_Suc_conv_app_nth Cons_nth_drop_Suc [symmetric])
  then show ?case using drop_region_bag [OF IH(1,2) n(1), of pid] IH by simp
qed (use assms in simp)


lemma monitored_upd:
  assumes "length (process_info s) = CERBERUS_MAX_PROCESSES" "i < CERBERUS_MAX_PROCESSES"
    and "process_info s' = (process_info s)[i := v]"
  shows "monitored s' = (if is_monitored v then insert i (monitored s) else monitored s - {i})"
  using assms by (auto simp: monitored_def nth_list_update_if split: if_splits)

lemma finite_monitored: "finite (monitored s)" "card (monitored s) \<le> CERBERUS_MAX_PROCESSES"
proof -
  have sub: "monitored s \<subseteq> {..<CERBERUS_MAX_PROCESSES}" by (auto simp: monitored_def)
  then show "finite (monitored s)" by (rule finite_subset) simp
  show "card (monitored s) \<le> CERBERUS_MAX_PROCESSES" using card_mono [OF _ sub] by simp
qed

lemma tracked_filter:
  "watch_regions s' = map (\<lambda>r. r\<lparr>is_active := is_active r \<and> region_pid r \<noteq> pid\<rparr>) (watch_regions s)
    \<Longrightarrow> tracked s' = filter_mset (\<lambda>b. snd b \<noteq> pid) (tracked s)"
proof -
  have "image_mset (\<lambda>r. (base_addr r, region_pid r)) (filter_mset is_active (mset (map (\<lambda>r. r\<lparr>is_active := is_active r \<and> region_pid r \<noteq> pid\<rparr>) rs)))
      = filter_mset (\<lambda>b. snd b \<noteq> pid) (image_mset (\<lambda>r. (base_addr r, region_pid r)) (filter_mset is_active (mset rs)))" for rs
    by (induction rs) simp_all
  then show "watch_regions s' = map (\<lambda>r. r\<lparr>is_active := is_active r \<and> region_pid r \<noteq> pid\<rparr>) (watch_regions s) \<Longrightarrow> ?thesis"
    by (simp add: tracked_def)
qed

lemma CerberusUnregisterProcess_bag:
  assumes ok: "cerberus_ok s" and init: "is_initialized s" and p: "unat pid \<in> monitored s"
  shows "cerberus_ok (CerberusUnregisterProcess pid s) \<and> monitored (CerberusUnregisterProcess pid s) = monitored s - {unat pid}
    \<and> tracked (CerberusUnregisterProcess pid s) = filter_mset (\<lambda>b. snd b \<noteq> pid) (tracked s) \<and> is_initialized (CerberusUnregisterProcess pid s)"
proof -
  have len: "length (watch_regions s) = CERBERUS_MAX_WATCH_REGIONS" "length (process_info s) = CERBERUS_MAX_PROCESSES"
    using ok by (simp_all add: cerberus_ok_def)
  have p': "unat pid < CERBERUS_MAX_PROCESSES" "is_monitored (process_info s ! unat pid)" using p by (simp_all add: monitored_def)
  let ?s = "(upd_info (unat pid) (\<lambda>p. p\<lparr>is_monitored := False\<rparr>) s)\<lparr>monitored_processes := monitored_processes s - 1\<rparr>"
  have mon: "monitored ?s = monitored s - {unat pid}" using monitored_upd [OF len(2) p'(1), of ?s] by (simp add: upd_info_def)
  have "0 < card (monitored s)" using p finite_monitored(1) card_gt_0_iff by blast
  then have ok1: "cerberus_ok ?s"
    using ok init p mon finite_monitored(1) [of s] u32_dec [of "monitored_processes s"]
    by (simp add: cerberus_ok_def card_Diff_singleton) (simp add: upd_info_def tracked_def)
  let ?t = "foldl (drop_region pid) ?s [0..<CERBERUS_MAX_WATCH_REGIONS]"
  have t: "CerberusUnregisterProcess pid s = ?t" using init p' by (simp add: CerberusUnregisterProcess_def)
  have r: "cerberus_ok ?t" "is_initialized ?t" "process_info ?t = process_info ?s"
      "watch_regions ?t = map (\<lambda>r. r\<lparr>is_active := is_active r \<and> region_pid r \<noteq> pid\<rparr>) (watch_regions s)"
    using drop_regions_bag [OF ok1 _ order_refl, of pid] init len(1) by (simp_all add: upd_info_def)
  then show ?thesis unfolding t using mon tracked_filter [OF r(4)] by (simp add: monitored_def)
qed

lemma u32_inc128: "unat x \<le> 128 \<Longrightarrow> unat (x + 1 :: u32) = unat x + 1"
  by (simp add: unat_word_ariths)

lemma CerberusRegisterProcess_bag:
  assumes ok: "cerberus_ok s" and init: "is_initialized s" and p: "unat pid < 128" "unat pid \<notin> monitored s"
  shows "\<exists>s' mem'. CerberusRegisterProcess phys writable prot pid base sz (s, mem) = (0, s', mem') \<and> cerberus_ok s' \<and> is_initialized s'
    \<and> monitored s' = insert (unat pid) (monitored s) \<and> tracked s' = tracked s \<and> \<not> is_compromised (process_info s' ! unat pid)"
proof -
  have len: "length (watch_regions s) = CERBERUS_MAX_WATCH_REGIONS" "length (process_info s) = CERBERUS_MAX_PROCESSES"
    using ok by (simp_all add: cerberus_ok_def)
  have p': "unat pid < CERBERUS_MAX_PROCESSES" "\<not> is_monitored (process_info s ! unat pid)" using p by (simp_all add: monitored_def CERBERUS_MAX_PROCESSES_def)
  let ?q = "(process_info s ! unat pid)\<lparr>info_pid := pid, is_monitored := True, is_compromised := False, violation_count := 0, last_violation := 0\<rparr>"
  define s1 where "s1 = s\<lparr>process_info := (process_info s)[unat pid := ?q]\<rparr>"
  obtain s2 mem2 where run: "(if prot \<and> base \<noteq> 0 \<and> sz > 16 then snd (CerberusInstallStackCanary phys writable pid base sz (s1, mem)) else (s1, mem)) = (s2, mem2)"
    by (metis surj_pair)
  then have s2: "s2 = s1 \<or> s2 = s1\<lparr>process_info := (process_info s)[unat pid := ?q\<lparr>stack_canary_addr := base - 0x100\<rparr>]\<rparr>"
    using len p'(1) by (auto simp: CerberusInstallStackCanary_def Let_def s1_def upd_info_def split: if_splits)
  let ?s = "s2\<lparr>monitored_processes := monitored_processes s2 + 1\<rparr>"
  have "CerberusRegisterProcess phys writable prot pid base sz (s, mem) = (0, ?s, mem2)"
    using init p' run by (simp add: CerberusRegisterProcess_def upd_info_def Let_def s1_def [symmetric])
  moreover have mon: "monitored ?s = insert (unat pid) (monitored s)"
    using s2 monitored_upd [OF len(2) p'(1), of ?s ?q] monitored_upd [OF len(2) p'(1), of ?s "?q\<lparr>stack_canary_addr := base - 0x100\<rparr>"]
    by (auto simp: s1_def)
  have "unat (monitored_processes s + 1) = unat (monitored_processes s) + 1"
    using ok init finite_monitored(2) [of s] by (intro u32_inc128) (simp add: cerberus_ok_def CERBERUS_MAX_PROCESSES_def)
  then have "cerberus_ok ?s"
    using ok init p(2) finite_monitored(1) [of s] s2 by (auto simp: cerberus_ok_def mon s1_def tracked_def)
  moreover have "tracked ?s = tracked s" "is_initialized ?s" "\<not> is_compromised (process_info ?s ! unat pid)"
    using s2 init len(2) p'(1) by (auto simp: s1_def tracked_def)
  ultimately show ?thesis using mon by blast
qed

section \<open>The monitor as an abstract machine\<close>

text \<open>
  The contract of the monitor: a bag of at most 64 blocks with their owners and a set of processes.  An
  allocation adds a block or is refused when the bag is full; giving back a block that is not in the bag is
  reported; ending a process removes all its blocks.
\<close>

datatype cerb_op = OpAlloc u64 u64 u32 | OpFree u64 u32 | OpRegister u32 u64 u64 | OpUnregister u32

fun spec_op :: "cerb_op \<Rightarrow> (u64 \<times> u32) multiset \<times> nat set \<Rightarrow> int \<times> (u64 \<times> u32) multiset \<times> nat set" where
  "spec_op (OpAlloc addr sz pid) (B, M) = (if size B < 64 then (0, add_mset (addr, pid) B, M) else (-1, B, M))"
| "spec_op (OpFree addr pid) (B, M) = (if (addr, pid) \<in># B then (0, B - {#(addr, pid)#}, M) else (1, B, M))"
| "spec_op (OpRegister pid base sz) (B, M) = (if unat pid < 128 then (0, B, insert (unat pid) M) else (-1, B, M))"
| "spec_op (OpUnregister pid) (B, M) =
     (0, if unat pid \<in> M then (filter_mset (\<lambda>b. snd b \<noteq> pid) B, M - {unat pid}) else (B, M))"

fun exec_op ::
  "(u64 \<Rightarrow> u64) \<Rightarrow> (u64 \<Rightarrow> bool) \<Rightarrow> bool \<Rightarrow> cerb_op \<Rightarrow> CerberusState \<times> (u64 \<Rightarrow> u64) \<Rightarrow> (int \<times> CerberusState \<times> (u64 \<Rightarrow> u64)) option" where
  "exec_op phys writable prot (OpAlloc addr sz pid) (s, mem) = (case CerberusTrackAlloc addr sz pid s of (r, s) \<Rightarrow> Some (r, s, mem))"
| "exec_op phys writable prot (OpFree addr pid) (s, mem) = map_option (\<lambda>(r, s). (r, s, mem)) (CerberusTrackFree addr pid s)"
| "exec_op phys writable prot (OpRegister pid base sz) (s, mem) = Some (CerberusRegisterProcess phys writable prot pid base sz (s, mem))"
| "exec_op phys writable prot (OpUnregister pid) (s, mem) = Some (0, CerberusUnregisterProcess pid s, mem)"

fun exec_ops ::
  "(u64 \<Rightarrow> u64) \<Rightarrow> (u64 \<Rightarrow> bool) \<Rightarrow> bool \<Rightarrow> cerb_op list \<Rightarrow> CerberusState \<times> (u64 \<Rightarrow> u64) \<Rightarrow> (int list \<times> CerberusState \<times> (u64 \<Rightarrow> u64)) option" where
  "exec_ops phys writable prot [] sm = Some ([], sm)"
| "exec_ops phys writable prot (oper # ops) sm =
     (case exec_op phys writable prot oper sm of
        None \<Rightarrow> None
      | Some (r, sm) \<Rightarrow> map_option (\<lambda>(rs, sm). (r # rs, sm)) (exec_ops phys writable prot ops sm))"

fun spec_ops :: "cerb_op list \<Rightarrow> (u64 \<times> u32) multiset \<times> nat set \<Rightarrow> int list \<times> (u64 \<times> u32) multiset \<times> nat set" where
  "spec_ops [] A = ([], A)"
| "spec_ops (oper # ops) A = (case spec_op oper A of (r, A) \<Rightarrow> case spec_ops ops A of (rs, A) \<Rightarrow> (r # rs, A))"

text \<open>A freed block's owner must be a process number of the table: the violation report indexes it.\<close>

fun op_ok :: "cerb_op \<Rightarrow> bool" where
  "op_ok (OpFree addr pid) = (unat pid < 128)"
| "op_ok _ = True"

definition cerb_abs :: "CerberusState \<Rightarrow> (u64 \<times> u32) multiset \<times> nat set" where
  "cerb_abs s = (tracked s, monitored s)"

definition cerb_ready :: "CerberusState \<Rightarrow> bool" where
  "cerb_ready s \<longleftrightarrow> cerberus_ok s \<and> is_initialized s"

lemma monitored_cong: "process_info s' = process_info s \<Longrightarrow> monitored s' = monitored s"
  by (simp add: monitored_def)

lemma alloc_step:
  assumes "cerb_ready s"
  shows "\<exists>s'. CerberusTrackAlloc addr sz pid s = (fst (spec_op (OpAlloc addr sz pid) (cerb_abs s)), s') \<and> cerb_ready s'
    \<and> cerb_abs s' = snd (spec_op (OpAlloc addr sz pid) (cerb_abs s))"
proof -
  have init: "is_initialized s'" if "CerberusTrackAlloc addr sz pid s = (r, s')" for r s'
    using that assms by (auto simp: CerberusTrackAlloc_def cerb_ready_def upd_region_def split: option.splits)
  have ok: "cerberus_ok s" "is_initialized s" using assms by (simp_all add: cerb_ready_def)
  show ?thesis
  proof (cases "size (tracked s) < 64")
    case True
    then obtain s' where "CerberusTrackAlloc addr sz pid s = (0, s')" "tracked s' = add_mset (addr, pid) (tracked s)" "cerberus_ok s'"
        "process_info s' = process_info s"
      using CerberusTrackAlloc_bag [OF ok, of addr sz pid] by auto
    then show ?thesis using True init monitored_cong [of s' s] by (simp add: cerb_ready_def cerb_abs_def)
  next
    case False
    then show ?thesis using CerberusTrackAlloc_bag [OF ok, of addr sz pid] assms by (simp add: cerb_abs_def)
  qed
qed

lemma free_step:
  assumes "cerb_ready s" "unat pid < 128"
  shows "\<exists>s'. CerberusTrackFree addr pid s = Some (fst (spec_op (OpFree addr pid) (cerb_abs s)), s') \<and> cerb_ready s'
    \<and> cerb_abs s' = snd (spec_op (OpFree addr pid) (cerb_abs s))"
proof -
  have len: "length (process_info s) = CERBERUS_MAX_PROCESSES" using assms(1) by (simp add: cerb_ready_def cerberus_ok_def)
  have keep: "is_initialized s' \<and> monitored s' = monitored s" if "CerberusTrackFree addr pid s = Some (r, s')" for r s'
    using that assms len
    by (auto simp: CerberusTrackFree_def CerberusLogViolation_def cerb_ready_def upd_region_def upd_info_def Let_def monitored_def nth_list_update_if
         split: option.splits if_splits)
  have ok: "cerberus_ok s" "is_initialized s" using assms(1) by (simp_all add: cerb_ready_def)
  show ?thesis
  proof (cases "(addr, pid) \<in># tracked s")
    case True
    then obtain s' where "CerberusTrackFree addr pid s = Some (0, s')" "tracked s' = tracked s - {#(addr, pid)#}" "cerberus_ok s'"
      using CerberusTrackFree_bag [OF ok assms(2), of addr] by auto
    then show ?thesis using True keep [of 0 s'] by (simp add: cerb_ready_def cerb_abs_def)
  next
    case False
    then obtain s' where "CerberusTrackFree addr pid s = Some (1, s')" "tracked s' = tracked s" "cerberus_ok s'"
      using CerberusTrackFree_bag [OF ok assms(2), of addr] by auto
    then show ?thesis using False keep [of 1 s'] by (simp add: cerb_ready_def cerb_abs_def)
  qed
qed

lemma register_step:
  assumes "cerb_ready s"
  shows "\<exists>s' mem'. CerberusRegisterProcess phys writable prot pid base sz (s, mem) = (fst (spec_op (OpRegister pid base sz) (cerb_abs s)), s', mem')
    \<and> cerb_ready s' \<and> cerb_abs s' = snd (spec_op (OpRegister pid base sz) (cerb_abs s))"
proof -
  consider "unat pid \<ge> 128" | "unat pid \<in> monitored s" "unat pid < 128" | "unat pid < 128" "unat pid \<notin> monitored s" by linarith
  then show ?thesis
  proof cases
    case 1
    then show ?thesis using assms by (simp add: CerberusRegisterProcess_def CERBERUS_MAX_PROCESSES_def cerb_abs_def)
  next
    case 2
    then show ?thesis using assms
      by (simp add: CerberusRegisterProcess_def CERBERUS_MAX_PROCESSES_def cerb_abs_def cerb_ready_def monitored_def insert_absorb)
  next
    case 3
    then show ?thesis using CerberusRegisterProcess_bag [of s pid phys writable prot base sz mem] assms
      by (auto simp: cerb_ready_def cerb_abs_def)
  qed
qed

lemma unregister_step:
  assumes "cerb_ready s"
  shows "cerb_ready (CerberusUnregisterProcess pid s) \<and> cerb_abs (CerberusUnregisterProcess pid s) = snd (spec_op (OpUnregister pid) (cerb_abs s))"
proof (cases "unat pid \<in> monitored s")
  case True
  then show ?thesis using CerberusUnregisterProcess_bag [of s pid] assms by (simp add: cerb_ready_def cerb_abs_def)
next
  case False
  then have "CerberusUnregisterProcess pid s = s" by (simp add: CerberusUnregisterProcess_def monitored_def)
  then show ?thesis using False assms by (simp add: cerb_abs_def)
qed

lemma exec_op_spec:
  assumes "cerb_ready s" "op_ok oper"
  shows "\<exists>s' mem'. exec_op phys writable prot oper (s, mem) = Some (fst (spec_op oper (cerb_abs s)), s', mem') \<and> cerb_ready s'
    \<and> cerb_abs s' = snd (spec_op oper (cerb_abs s))"
proof (cases oper)
  case (OpAlloc addr sz pid)
  then show ?thesis using alloc_step [OF assms(1), of addr sz pid] by auto
next
  case (OpFree addr pid)
  then show ?thesis using free_step [OF assms(1), of pid addr] assms(2) by auto
next
  case (OpRegister pid base sz)
  then show ?thesis using register_step [OF assms(1), of phys writable prot pid base sz mem] by auto
next
  case (OpUnregister pid)
  then show ?thesis using unregister_step [OF assms(1), of pid] by (simp add: cerb_abs_def)
qed

lemma exec_ops_spec:
  assumes "cerb_ready s" "\<forall>x \<in> set ops. op_ok x"
  shows "\<exists>s' mem'. exec_ops phys writable prot ops (s, mem) = Some (fst (spec_ops ops (cerb_abs s)), s', mem') \<and> cerb_ready s'
    \<and> cerb_abs s' = snd (spec_ops ops (cerb_abs s))"
  using assms
proof (induction ops arbitrary: s mem)
  case (Cons x ops)
  obtain s1 mem1 where s1: "exec_op phys writable prot x (s, mem) = Some (fst (spec_op x (cerb_abs s)), s1, mem1)" "cerb_ready s1"
      "cerb_abs s1 = snd (spec_op x (cerb_abs s))"
    using exec_op_spec [of s x phys writable prot mem] Cons.prems by auto
  then show ?case using Cons.IH [of s1 mem1] Cons.prems(2) by (auto split: prod.split)
qed (simp add: cerb_abs_def)

lemma CerberusInit_ready:
  assumes "length (watch_regions s) = 64" "length (process_info s) = 128"
  shows "cerb_ready (CerberusInit True s) \<and> cerb_abs (CerberusInit True s) = ({#}, {})"
  using assms
  by (auto simp: CerberusInit_def cerb_ready_def cerberus_ok_def cerb_abs_def tracked_def monitored_def CERBERUS_MAX_WATCH_REGIONS_def
      CERBERUS_MAX_PROCESSES_def filter_mset_eq_conv multiset.map_comp)

text \<open>
  C29: From \<open>CerberusInit\<close> on, every sequence of tracked allocations, frees, registrations and ends of
  processes in which the process number of every free is below 128 runs without a fault and returns the
  results of the abstract machine, and the tables then stand for its state: 64 blocks at most, a free of an
  unknown block reported, and no block left of an ended process.  (A free of an unknown block with a larger
  number indexes behind the process table.)
\<close>

theorem Cerberus_refines:
  assumes "length (watch_regions s) = 64" "length (process_info s) = 128" "\<forall>x \<in> set ops. op_ok x"
  shows "\<exists>s' mem'. exec_ops phys writable prot ops (CerberusInit True s, mem) = Some (fst (spec_ops ops ({#}, {})), s', mem')
    \<and> cerb_abs s' = snd (spec_ops ops ({#}, {})) \<and> unat (active_regions s') = size (tracked s')
    \<and> unat (monitored_processes s') = card (monitored s')"
  using exec_ops_spec [of "CerberusInit True s" ops phys writable prot mem] CerberusInit_ready [OF assms(1,2)] assms(3)
  by (auto simp: cerb_ready_def cerberus_ok_def)

definition blank_cerberus :: CerberusState where
  "blank_cerberus =
     \<lparr>watch_regions = replicate 64 \<lparr>base_addr = 0, region_size = 0, region_pid = 0, alloc_time = 0, is_active = False, is_stack_region = False\<rparr>,
      process_info = replicate 128 \<lparr>info_pid = 0, violation_count = 0, last_violation = 0, stack_canary_addr = 0, is_monitored = False, is_compromised = False\<rparr>,
      active_regions = 0, monitored_processes = 0, total_violations = 0, is_initialized = False, system_ticks = 0\<rparr>"

theorem Cerberus_refines_witness:
  "\<exists>s' mem'. exec_ops (\<lambda>a. a) (\<lambda>a. True) False [OpRegister 3 0 0, OpAlloc 0x1000 16 3, OpFree 0x2000 3, OpUnregister 3]
      (CerberusInit True blank_cerberus, \<lambda>a. 0) = Some ([0, 0, 1, 0], s', mem') \<and> cerb_abs s' = ({#}, {})"
  using Cerberus_refines [of blank_cerberus "[OpRegister 3 0 0, OpAlloc 0x1000 16 3, OpFree 0x2000 3, OpUnregister 3]" "\<lambda>a. a" "\<lambda>a. True" False "\<lambda>a. 0"]
  by (auto simp: blank_cerberus_def)

section \<open>Canaries\<close>

text \<open>
  A canary is found intact until the word it lies in changes, and then marks the process; a stack below
  8 KiB gets none.
\<close>

theorem canary_detects:
  assumes ok: "cerb_ready s" and p: "unat pid < 128" "is_monitored (process_info s ! unat pid)"
    and m: "0x2000 \<le> sz" "phys (stk - 0x100) \<noteq> 0" "writable (stk - 0x100)" "stk \<noteq> 0x100"
    and run: "CerberusInstallStackCanary phys writable pid stk sz (s, mem) = (r, s', mem')"
  shows "r = 0" "mem'' (stk - 0x100) = mem' (stk - 0x100) \<Longrightarrow> CerberusCheckStackCanary phys mem'' pid s' = Some (0, s')"
    "mem'' (stk - 0x100) \<noteq> mem' (stk - 0x100) \<Longrightarrow>
      \<exists>s''. CerberusCheckStackCanary phys mem'' pid s' = Some (1, s'') \<and> is_compromised (process_info s'' ! unat pid)"
proof -
  have init: "is_initialized s" "length (process_info s) = 128" using ok by (simp_all add: cerb_ready_def cerberus_ok_def CERBERUS_MAX_PROCESSES_def)
  have sz: "\<not> sz < 0x2000" using m(1) by simp
  have a: "stk - 0x100 \<noteq> 0" using m(4) by simp
  have r: "r = 0" "s' = upd_info (unat pid) (\<lambda>p. p\<lparr>stack_canary_addr := stk - 0x100\<rparr>) s" "mem' (stk - 0x100) = STACK_CANARY_VALUE"
    using run init p(1) m sz by (auto simp: CerberusInstallStackCanary_def CERBERUS_MAX_PROCESSES_def Let_def)
  show "r = 0" by (rule r)
  have c: "stack_canary_addr (process_info s' ! unat pid) = stk - 0x100" "is_monitored (process_info s' ! unat pid)" "is_initialized s'"
      "length (process_info s') = 128"
    using init p r(2) by (simp_all add: upd_info_def)
  show "mem'' (stk - 0x100) = mem' (stk - 0x100) \<Longrightarrow> CerberusCheckStackCanary phys mem'' pid s' = Some (0, s')"
    using c p(1) m a r(3) by (simp add: CerberusCheckStackCanary_def CERBERUS_MAX_PROCESSES_def)
  show "\<exists>s''. CerberusCheckStackCanary phys mem'' pid s' = Some (1, s'') \<and> is_compromised (process_info s'' ! unat pid)"
    if "mem'' (stk - 0x100) \<noteq> mem' (stk - 0x100)"
    using that c p(1) m a r(3)
    by (simp add: CerberusCheckStackCanary_def CERBERUS_MAX_PROCESSES_def CerberusLogViolation_def Let_def upd_info_def)
qed

lemma small_stack_no_canary:
  "sz < 0x2000 \<Longrightarrow> CerberusInstallStackCanary phys writable pid stk sz (s, mem) = (-1, s, mem)"
  by (simp add: CerberusInstallStackCanary_def)

end
