(* ===== verification/Eevdf.thy ===== *)
theory Eevdf
  imports EevdfQueue Cerberus Crypto Format
begin

text \<open>
  The EEVDF scheduler (\<open>src/kernel/sched/EEVDF.c\<close>) over its run queue: the seals of the process control
  blocks, virtual time, creation and termination of processes, the termination queue, and the handler
  \<open>EEVDFSchedule\<close> of the timer interrupt, with the process list of \<open>src/fs/procfs/ProcFS.c\<close>.

  The file-level variables and the scheduler structure are one record, an extension of the state of the run
  queue.  A process is its slot.  The kernel runs on one processor with the operations below as its units,
  so an atomic read-modify-write is an update; the lock of the run queue is kept, since a second
  acquisition by the holder stops the machine.  The other locks are released before any other call and are
  left out.  \<open>None\<close> stands for \<open>PANIC\<close>, a division by zero, and a lock taken twice.

  Arguments of the model: the stack \<open>VMemAllocStack\<close> returns (0 when it fails), whether the allocation of a
  list entry succeeds; fields of the state that no operation changes: the page tables the monitor looks at,
  the address \<open>exit_stub\<close> of \<open>ProcessExitStubEEVDF\<close>, the timer frequency.  Stacks given back are recorded in
  \<open>freed_stacks\<close>.  The time is the field \<open>APICticks\<close>, constant during an operation.
\<close>

unbundle bit_operations_syntax

section \<open>State\<close>

record sched = rb_state +
  min_vruntime :: u64
  rq_clock :: u64
  exec_clock :: u64
  load_weight :: u32
  nr_running :: u32
  current_slot :: nat
  total_processes :: u32
  tick_counter :: u64
  context_switch_overhead :: u32
  switch_count :: u64
  sis_global_nonce :: u64
  sis_boot_entropy :: u64
  sis_process_keys :: "nat \<Rightarrow> u64"
  pid_bitmap :: "u64 list"
  current_process :: nat
  process_count :: u32
  need_schedule :: bool
  security_violation_count :: u32
  active_process_bitmap :: u64
  ready_process_bitmap :: u64
  termination_queue :: "nat list"
  term_queue_head :: nat
  term_queue_tail :: nat
  term_queue_count :: nat
  context_switches :: u64
  scheduler_calls :: u64
  cerberus_tick_counter :: u64
  runqueue_locked :: bool
  cerberus :: CerberusState
  proc_list :: "u32 list"
  freed_stacks :: "u64 list"
  APICticks :: u32
  APIC_HZ :: u32
  cpu_regs :: Registers
  kmem :: "u64 \<Rightarrow> u64"
  page_of :: "u64 \<Rightarrow> u64"
  page_writable :: "u64 \<Rightarrow> bool"
  exit_stub :: u64

definition lock_rq :: "sched \<Rightarrow> sched option" where
  "lock_rq s = (if runqueue_locked s then None else Some (s\<lparr>runqueue_locked := True\<rparr>))"

definition unlock_rq :: "sched \<Rightarrow> sched" where
  "unlock_rq s = s\<lparr>runqueue_locked := False\<rparr>"

text \<open>\<open>AtomicInc\<close> on a 64-bit field increments its lower half.\<close>

definition inc_low :: "u64 \<Rightarrow> u64" where
  "inc_low w = (w AND 0xFFFFFFFF00000000) OR ucast (ucast w + 1 :: u32)"

section \<open>Seals\<close>

definition SIS_MAGIC :: u64 where "SIS_MAGIC = 0x5EC0DE4D41474943"
definition SIS_SALT_BASE :: u64 where "SIS_SALT_BASE = 0xDEADBEEFCAFEBABE"

definition bytes8 :: "u64 \<Rightarrow> u8 list" where
  "bytes8 w = map (\<lambda>i. ucast (drop_bit (8 * i) w)) [0..<8]"

text \<open>The table of \<open>CRC32\<close> is a cache: the value is that of a first call.\<close>

definition SISFastHash :: "u64 \<Rightarrow> u64 \<Rightarrow> u64" where
  "SISFastHash a b = ucast (fst (CRC32 (bytes8 a @ bytes8 b) \<lparr>crc32_table = [], table_generated = False\<rparr>))"

fun state_val :: "ProcessState \<Rightarrow> u64" where
  "state_val PROC_TERMINATED = 0"
| "state_val PROC_READY = 1"
| "state_val PROC_RUNNING = 2"
| "state_val PROC_BLOCKED = 3"
| "state_val PROC_ZOMBIE = 4"
| "state_val PROC_DYING = 5"

definition SISGenerateProcessKey :: "nat \<Rightarrow> u32 \<Rightarrow> sched \<Rightarrow> sched" where
  "SISGenerateProcessKey slot pid s =
     (let s = s\<lparr>sis_global_nonce := sis_global_nonce s + 1\<rparr>;
          key = SISFastHash (SIS_SALT_BASE XOR sis_global_nonce s) (push_bit 32 (ucast pid) OR word_of_nat slot)
      in s\<lparr>sis_process_keys := (sis_process_keys s)(slot := key)\<rparr>)"

definition SISSealPCB :: "EEVDFProcessControlBlock \<Rightarrow> u64 \<Rightarrow> u64" where
  "SISSealPCB pcb key =
     SISFastHash (push_bit 32 (ucast (proc_pid pcb)) OR push_bit 16 (ucast (privilege_level pcb)) OR state_val (proc_state pcb)) key"

definition SISVerifyPCB :: "nat \<Rightarrow> sched \<Rightarrow> bool" where
  "SISVerifyPCB slot s =
     (slot < EEVDF_MAX_PROCESSES \<and> sis_seal (processes s slot) = SISSealPCB (processes s slot) (sis_process_keys s slot))"

definition SISUpdateSeal :: "nat \<Rightarrow> sched \<Rightarrow> sched" where
  "SISUpdateSeal slot s = upd_proc slot (\<lambda>p. p\<lparr>sis_seal := SISSealPCB p (sis_process_keys s slot)\<rparr>) s"

definition SISValidateProcess :: "nat \<Rightarrow> sched \<Rightarrow> bool" where
  "SISValidateProcess slot s =
     (slot < EEVDF_MAX_PROCESSES \<and> tok_magic (token (processes s slot)) = SIS_MAGIC \<and> SISVerifyPCB slot s)"

definition EEVDFCalculateTokenChecksum :: "EEVDFSecurityToken \<Rightarrow> u64" where
  "EEVDFCalculateTokenChecksum t = SISFastHash (tok_magic t) (capabilities t)"

section \<open>Time and weights\<close>

definition GetNS :: "sched \<Rightarrow> u64 option" where
  "GetNS s = (if APIC_HZ s = 0 then None else Some ((ucast (APICticks s) * 1000000000) div ucast (APIC_HZ s)))"

definition eevdf_nice_to_weight :: "u32 list" where
  "eevdf_nice_to_weight =
     [88761, 71755, 56483, 46273, 36291, 29154, 23254, 18705, 14949, 11916,
      9548, 7620, 6100, 4904, 3906, 3121, 2501, 1991, 1586, 1277,
      1024, 820, 655, 526, 423, 335, 272, 215, 172, 137,
      110, 87, 70, 56, 45, 36, 29, 23, 18, 15]"

definition eevdf_nice_to_wmult :: "u32 list" where
  "eevdf_nice_to_wmult =
     [48388, 59856, 76040, 92818, 118348, 147320, 184698, 229616, 287308, 360437,
      449829, 563644, 704093, 875809, 1099582, 1376151, 1717300, 2157191, 2708050, 3363326,
      4194304, 5237765, 6557202, 8165337, 10153587, 12820798, 15790321, 19976592, 24970740, 31350126,
      39045157, 49367440, 61356676, 76695844, 95443717, 119304647, 148102320, 186737708, 238609294, 286331153]"

definition clamp_nice :: "int \<Rightarrow> int" where
  "clamp_nice nice = (let nice = (if nice < -20 then -20 else nice) in if nice > 19 then 19 else nice)"

definition EEVDFNiceToWeight :: "int \<Rightarrow> u32" where
  "EEVDFNiceToWeight nice = eevdf_nice_to_weight ! nat (clamp_nice nice + 20)"

definition EEVDFNiceToWmult :: "int \<Rightarrow> u32" where
  "EEVDFNiceToWmult nice = eevdf_nice_to_wmult ! nat (clamp_nice nice + 20)"

definition EEVDFSetTaskNice :: "nat \<Rightarrow> int \<Rightarrow> sched \<Rightarrow> sched" where
  "EEVDFSetTaskNice p nice s =
     (let nice = clamp_nice nice
      in upd_proc p (\<lambda>q. q\<lparr>nice_level := nice, weight := EEVDFNiceToWeight nice, inv_weight := EEVDFNiceToWmult nice\<rparr>) s)"

definition EEVDFCalcDelta :: "u64 \<Rightarrow> u32 \<Rightarrow> u32 \<Rightarrow> u64" where
  "EEVDFCalcDelta delta_exec wt lw =
     (let lw = (if lw = 0 then 1024 else lw);
          fact' = ucast (push_bit 16 wt div lw) :: u64
      in drop_bit 16 (delta_exec * fact'))"

text \<open>The product of the two 32-bit factors is taken in 32 bits.\<close>

definition EEVDFCalcSlice :: "nat \<Rightarrow> sched \<Rightarrow> u64 option" where
  "EEVDFCalcSlice p s =
     (if nr_running s = 0 then Some 4000000
      else if load_weight s = 0 then None
      else let slice = ucast ((6000000 * weight (processes s p)) div load_weight s) :: u64;
               slice = (if slice < 750000 then 750000 else slice)
           in Some (if slice > 100000000 then 100000000 else slice))"

definition EEVDFUpdateCurr :: "nat \<Rightarrow> sched \<Rightarrow> sched option" where
  "EEVDFUpdateCurr c s = do {
     now \<leftarrow> GetNS s;
     let delta = now - exec_start (processes s c);
     if delta = 0 then Some s
     else do {
       let fair = EEVDFCalcDelta delta 1024 (load_weight s);
       let s = upd_proc c (\<lambda>q. q\<lparr>exec_start := now, sum_exec_runtime := sum_exec_runtime q + delta,
                 cpu_time_accumulated := cpu_time_accumulated q + delta, vruntime := vruntime q + fair\<rparr>) s;
       Some (case rb_leftmost s of
               Some n \<Rightarrow> s\<lparr>min_vruntime := vruntime (processes s (node_slot s n))\<rparr>
             | None \<Rightarrow> s\<lparr>min_vruntime := vruntime (processes s c)\<rparr>)
     }
   }"

section \<open>Queueing\<close>

definition EEVDFEnqueueTask :: "nat \<Rightarrow> sched \<Rightarrow> sched option" where
  "EEVDFEnqueueTask p s =
     (if proc_state (processes s p) \<noteq> PROC_READY then Some s
      else do {
        let s = (if vruntime (processes s p) < min_vruntime s then upd_proc p (\<lambda>q. q\<lparr>vruntime := min_vruntime s\<rparr>) s else s);
        slice \<leftarrow> EEVDFCalcSlice p s;
        let s = upd_proc p (\<lambda>q. q\<lparr>deadline := vruntime q + slice\<rparr>) s;
        let s = s\<lparr>load_weight := load_weight s + weight (processes s p), nr_running := nr_running s + 1\<rparr>;
        EEVDFRBInsert p s
      })"

definition EEVDFDequeueTask :: "nat \<Rightarrow> sched \<Rightarrow> sched option" where
  "EEVDFDequeueTask p s =
     (if rb_node (processes s p) = None then Some s
      else let s = s\<lparr>load_weight := (if load_weight s \<ge> weight (processes s p) then load_weight s - weight (processes s p) else 0)\<rparr>;
               s = (if nr_running s > 0 then s\<lparr>nr_running := nr_running s - 1\<rparr> else s)
           in EEVDFRBDelete p s)"

definition FindFreeSlotFast :: "sched \<Rightarrow> nat option \<times> sched" where
  "FindFreeSlotFast s =
     (let current = active_process_bitmap s; available = NOT current AND NOT 1 in
      if current = NOT 1 then (None, s)
      else if available = 0 then (None, s)
      else let slot = ctz available in (Some slot, s\<lparr>active_process_bitmap := current OR push_bit slot 1\<rparr>))"

definition FreeSlotFast :: "nat \<Rightarrow> sched \<Rightarrow> sched" where
  "FreeSlotFast slot s =
     (if slot > 0 \<and> slot < 64 then s\<lparr>active_process_bitmap := active_process_bitmap s AND NOT (push_bit slot 1)\<rparr> else s)"

definition AddToTerminationQueueAtomic :: "nat \<Rightarrow> sched \<Rightarrow> sched option" where
  "AddToTerminationQueueAtomic slot s =
     (if term_queue_count s \<ge> EEVDF_MAX_PROCESSES then None
      else let tail = term_queue_tail s
           in Some (s\<lparr>termination_queue := (termination_queue s)[tail := slot], term_queue_tail := (tail + 1) mod EEVDF_MAX_PROCESSES,
                      term_queue_count := term_queue_count s + 1\<rparr>))"

definition RemoveFromTerminationQueueAtomic :: "sched \<Rightarrow> nat \<times> sched" where
  "RemoveFromTerminationQueueAtomic s =
     (if term_queue_count s = 0 then (EEVDF_MAX_PROCESSES, s)
      else let head = term_queue_head s
           in (termination_queue s ! head,
               s\<lparr>term_queue_head := (head + 1) mod EEVDF_MAX_PROCESSES, term_queue_count := term_queue_count s - 1\<rparr>))"

section \<open>The process list of ProcFS\<close>

definition ProcFSInit :: "sched \<Rightarrow> sched" where
  "ProcFSInit s = s\<lparr>proc_list := []\<rparr>"

definition ProcFSRegisterProcess :: "bool \<Rightarrow> u32 \<Rightarrow> sched \<Rightarrow> sched" where
  "ProcFSRegisterProcess alloc_ok pid s = (if alloc_ok then s\<lparr>proc_list := pid # proc_list s\<rparr> else s)"

definition ProcFSUnregisterProcess :: "u32 \<Rightarrow> sched \<Rightarrow> sched" where
  "ProcFSUnregisterProcess pid s = s\<lparr>proc_list := remove1 pid (proc_list s)\<rparr>"

section \<open>Looking up processes\<close>

definition EEVDFGetCurrentProcess :: "sched \<Rightarrow> nat option" where
  "EEVDFGetCurrentProcess s = (if current_process s \<ge> EEVDF_MAX_PROCESSES then None else Some (current_process s))"

definition EEVDFGetCurrentProcessByPID :: "u32 \<Rightarrow> sched \<Rightarrow> nat option" where
  "EEVDFGetCurrentProcessByPID pid s =
     List.find (\<lambda>i. proc_pid (processes s i) = pid \<and> proc_state (processes s i) \<noteq> PROC_TERMINATED) [0..<EEVDF_MAX_PROCESSES]"

definition EEVDFYield :: "sched \<Rightarrow> sched" where
  "EEVDFYield s = s\<lparr>need_schedule := True\<rparr>"

section \<open>Termination\<close>

text \<open>The common part: the process becomes a zombie with a new seal.\<close>

definition make_zombie :: "nat \<Rightarrow> TerminationReason \<Rightarrow> u32 \<Rightarrow> sched \<Rightarrow> sched" where
  "make_zombie slot reason code s =
     (let s = upd_proc slot (\<lambda>p. p\<lparr>proc_state := PROC_DYING, term_reason := reason, exit_code := code,
                termination_time := ucast (APICticks s)\<rparr>) s;
          s = s\<lparr>ready_process_bitmap := ready_process_bitmap s AND NOT (push_bit slot 1)\<rparr>;
          s = (if slot = current_slot s then s\<lparr>need_schedule := True\<rparr> else s);
          s = upd_proc slot (\<lambda>p. p\<lparr>proc_state := PROC_ZOMBIE\<rparr>) s
      in SISUpdateSeal slot s)"

definition locked_dequeue :: "nat \<Rightarrow> sched \<Rightarrow> sched option" where
  "locked_dequeue slot s = do {
     s \<leftarrow> lock_rq s;
     s \<leftarrow> EEVDFDequeueTask slot s;
     Some (unlock_rq s)
   }"

definition EEVDFASTerminate :: "u32 \<Rightarrow> sched \<Rightarrow> sched option" where
  "EEVDFASTerminate pid s =
     (case EEVDFGetCurrentProcessByPID pid s of
        None \<Rightarrow> Some s
      | Some slot \<Rightarrow>
          if proc_state (processes s slot) = PROC_TERMINATED then Some s
          else do {
            let s = make_zombie slot TERM_SECURITY 666 s;
            s \<leftarrow> locked_dequeue slot s;
            s \<leftarrow> AddToTerminationQueueAtomic slot s;
            let s = s\<lparr>total_processes := total_processes s - 1\<rparr>;
            let s = ProcFSUnregisterProcess pid s;
            Some (s\<lparr>cerberus := CerberusUnregisterProcess (proc_pid (processes s slot)) (cerberus s)\<rparr>)
          })"

definition EEVDF_CAP_IMMUNE :: u64 where "EEVDF_CAP_IMMUNE = push_bit 12 1"
definition EEVDF_CAP_CRITICAL :: u64 where "EEVDF_CAP_CRITICAL = push_bit 13 1"
definition EEVDF_CAP_SUPERVISOR :: u64 where "EEVDF_CAP_SUPERVISOR = push_bit 14 1"
definition EEVDF_CAP_CORE :: u64 where "EEVDF_CAP_CORE = EEVDF_CAP_IMMUNE OR EEVDF_CAP_SUPERVISOR OR EEVDF_CAP_CRITICAL"

definition may_terminate :: "nat \<Rightarrow> nat \<Rightarrow> sched \<Rightarrow> bool" where
  "may_terminate caller slot s =
     (let c = processes s caller; p = processes s slot in
      (proc_pid c = proc_pid p
       \<or> \<not> (privilege_level p = 0 \<and> privilege_level c \<noteq> 0)
         \<and> capabilities (token p) AND EEVDF_CAP_IMMUNE = 0 \<and> capabilities (token p) AND EEVDF_CAP_CRITICAL = 0)
      \<and> SISValidateProcess caller s)"

definition EEVDFTerminateProcess :: "u32 \<Rightarrow> TerminationReason \<Rightarrow> u32 \<Rightarrow> sched \<Rightarrow> sched option" where
  "EEVDFTerminateProcess pid reason code s =
     (case EEVDFGetCurrentProcessByPID pid s of
        None \<Rightarrow> Some s
      | Some slot \<Rightarrow>
          if proc_state (processes s slot) \<in> {PROC_DYING, PROC_ZOMBIE, PROC_TERMINATED} then Some s
          else do {
            caller \<leftarrow> EEVDFGetCurrentProcess s;
            if reason \<noteq> TERM_SECURITY \<and> \<not> may_terminate caller slot s
            then EEVDFASTerminate (proc_pid (processes s caller)) s
            else do {
              let s = make_zombie slot reason code s;
              s \<leftarrow> locked_dequeue slot s;
              s \<leftarrow> AddToTerminationQueueAtomic slot s;
              let n = unat (proc_pid (processes s slot));
              if n div 64 \<ge> length (pid_bitmap s) then None
              else do {
                let s = s\<lparr>pid_bitmap := (pid_bitmap s)[n div 64 := pid_bitmap s ! (n div 64) AND NOT (push_bit (n mod 64) 1)]\<rparr>;
                let s = s\<lparr>total_processes := total_processes s - 1\<rparr>;
                let s = ProcFSUnregisterProcess pid s;
                Some (s\<lparr>cerberus := CerberusUnregisterProcess (proc_pid (processes s slot)) (cerberus s)\<rparr>)
              }
            }
          })"

definition EEVDFKillProcess :: "u32 \<Rightarrow> sched \<Rightarrow> sched option" where
  "EEVDFKillProcess pid s = EEVDFTerminateProcess pid TERM_KILLED 1 s"

text \<open>The exit stub ends the current process, then halts until the next interrupt.\<close>

definition ProcessExitStubEEVDF :: "sched \<Rightarrow> sched option" where
  "ProcessExitStubEEVDF s = do {
     c \<leftarrow> EEVDFGetCurrentProcess s;
     EEVDFTerminateProcess (proc_pid (processes s c)) TERM_NORMAL 0 s
   }"

definition EEVDFKillCurrentProcess :: "sched \<Rightarrow> sched option" where
  "EEVDFKillCurrentProcess s = do {
     c \<leftarrow> EEVDFGetCurrentProcess s;
     EEVDFASTerminate (proc_pid (processes s c)) s
   }"

fun kill_all :: "nat list \<Rightarrow> sched \<Rightarrow> sched option" where
  "kill_all [] s = Some s"
| "kill_all (i # is) s =
     (if proc_state (processes s i) \<noteq> PROC_TERMINATED \<and> proc_pid (processes s i) \<noteq> 0
      then (case EEVDFASTerminate (proc_pid (processes s i)) s of None \<Rightarrow> None | Some s \<Rightarrow> kill_all is s)
      else kill_all is s)"

definition EEVDFKillAllProcesses :: "sched \<Rightarrow> sched option" where
  "EEVDFKillAllProcesses s = kill_all [0..<EEVDF_MAX_PROCESSES] s"

definition EEVDFSecurityViolationHandler :: "u32 \<Rightarrow> sched \<Rightarrow> sched option" where
  "EEVDFSecurityViolationHandler pid s =
     (let s = s\<lparr>security_violation_count := security_violation_count s + 1\<rparr> in
      if security_violation_count s \<ge> 3 then None else EEVDFASTerminate pid s)"

section \<open>Clean-up\<close>

definition reap :: "nat \<Rightarrow> sched \<Rightarrow> sched" where
  "reap slot s =
     (let s = (if proc_stack (processes s slot) \<noteq> 0 then s\<lparr>freed_stacks := proc_stack (processes s slot) # freed_stacks s\<rparr> else s);
          s = upd_proc slot (\<lambda>_. zero_pcb) s;
          s = FreeSlotFast slot s
      in s\<lparr>process_count := process_count s - 1\<rparr>)"

lemma reap_count [simp]: "term_queue_count (reap slot s) = term_queue_count s"
  by (simp add: reap_def Let_def upd_proc_def FreeSlotFast_def)

lemma remove_count: "0 < term_queue_count s \<Longrightarrow> RemoveFromTerminationQueueAtomic s = (slot, s') \<Longrightarrow> term_queue_count s' < term_queue_count s"
  by (auto simp: RemoveFromTerminationQueueAtomic_def Let_def)

text \<open>\<open>n\<close> is the number of processes this call may still clean up.\<close>

function cleanup_loop :: "nat \<Rightarrow> sched \<Rightarrow> sched" where
  "cleanup_loop n s =
     (if term_queue_count s > 0 \<and> n > 0
      then case RemoveFromTerminationQueueAtomic s of
             (slot, s') \<Rightarrow>
               if slot \<ge> EEVDF_MAX_PROCESSES then s'
               else if proc_state (processes s' slot) \<noteq> PROC_ZOMBIE then cleanup_loop n s'
               else cleanup_loop (n - 1) (reap slot s')
      else s)"
  by pat_completeness auto
termination
  by (relation "measure (\<lambda>(n, s). term_queue_count s)") (auto dest: remove_count [OF _ sym])

declare cleanup_loop.simps [simp del]

definition EEVDFCleanupTerminatedProcess :: "sched \<Rightarrow> sched" where
  "EEVDFCleanupTerminatedProcess s = cleanup_loop 3 s"

section \<open>Checks before and after a time slice\<close>

definition EEVDFPreflightCheck :: "nat \<Rightarrow> sched \<Rightarrow> (bool \<times> sched) option" where
  "EEVDFPreflightCheck slot s =
     (if slot = 0 then Some (True, s)
      else let p = processes s slot in
           if \<not> SISVerifyPCB slot s then map_option (Pair False) (EEVDFASTerminate (proc_pid p) s)
           else if privilege_level p = 0 \<and> capabilities (token p) AND EEVDF_CAP_CORE = 0
                then map_option (Pair False) (EEVDFASTerminate (proc_pid p) s)
           else map_option (\<lambda>c. (True, s\<lparr>cerberus := c\<rparr>)) (CerberusPreScheduleCheck (page_of s) (kmem s) (word_of_nat slot) (cerberus s)))"

definition EEVDFPostflightCheck :: "nat \<Rightarrow> sched \<Rightarrow> (bool \<times> sched) option" where
  "EEVDFPostflightCheck slot s =
     (if slot = 0 then Some (True, s)
      else if \<not> SISVerifyPCB slot s then map_option (Pair False) (EEVDFASTerminate (proc_pid (processes s slot)) s)
      else Some (True, s))"

section \<open>The timer interrupt\<close>

definition cerberus_step :: "sched \<Rightarrow> sched" where
  "cerberus_step s =
     (let s = s\<lparr>cerberus_tick_counter := cerberus_tick_counter s + 1\<rparr>
      in if cerberus_tick_counter s mod 10 = 0 then s\<lparr>cerberus := CerberusTick (cerberus s)\<rparr> else s)"

definition switch_out :: "nat \<Rightarrow> sched \<Rightarrow> sched option" where
  "switch_out old s =
     (if proc_state (processes s old) \<in> {PROC_DYING, PROC_ZOMBIE, PROC_TERMINATED} then Some s
      else do {
        (ok, s) \<leftarrow> EEVDFPostflightCheck old s;
        if \<not> ok then Some s
        else do {
          let s = upd_proc old (\<lambda>p. p\<lparr>proc_context := cpu_regs s\<rparr>) s;
          s \<leftarrow> EEVDFUpdateCurr old s;
          Some (if proc_state (processes s old) = PROC_RUNNING
                then let s = SISUpdateSeal old (upd_proc old (\<lambda>p. p\<lparr>proc_state := PROC_READY\<rparr>) s)
                     in s\<lparr>ready_process_bitmap := ready_process_bitmap s OR push_bit old 1\<rparr>
                else s)
        }
      })"

text \<open>With an interrupted process the lock of the queue is held from here until the next one is chosen.\<close>

definition requeue_prev :: "nat \<Rightarrow> sched \<Rightarrow> sched option" where
  "requeue_prev old s = do {
     s \<leftarrow> switch_out old s;
     s \<leftarrow> lock_rq s;
     if proc_state (processes s old) = PROC_READY then EEVDFEnqueueTask old s else Some s
   }"

text \<open>The process that runs next, 0 for none, taken out of the queue.\<close>

definition take_next :: "nat option \<Rightarrow> sched \<Rightarrow> (nat \<times> sched) option" where
  "take_next next s =
     (case next of
        Some n \<Rightarrow>
          if n < EEVDF_MAX_PROCESSES \<and> proc_state (processes s n) = PROC_READY then map_option (Pair n) (EEVDFDequeueTask n s) else Some (0, s)
      | None \<Rightarrow> Some (0, s))"

definition choose_next :: "sched \<Rightarrow> (nat \<times> sched) option" where
  "choose_next s =
     (case EEVDFPickNext s of
        None \<Rightarrow> Some (0, s)
      | Some next \<Rightarrow> do {
          (ok, s) \<leftarrow> EEVDFPreflightCheck next s;
          if ok then take_next (Some next) s
          else do {
            s \<leftarrow> EEVDFDequeueTask next s;
            take_next (EEVDFPickNext s) s
          }
        })"

definition switch_in :: "nat \<Rightarrow> sched \<Rightarrow> sched option" where
  "switch_in next s =
     (if next = 0 then Some s
      else if proc_stack (processes s next) = 0 \<or> reg_rip (proc_context (processes s next)) = 0 then Some s
      else do {
        let s = SISUpdateSeal next (upd_proc next (\<lambda>p. p\<lparr>proc_state := PROC_RUNNING\<rparr>) s);
        let s = s\<lparr>ready_process_bitmap := ready_process_bitmap s AND NOT (push_bit next 1)\<rparr>;
        now \<leftarrow> GetNS s;
        slice \<leftarrow> EEVDFCalcSlice next s;
        let s = upd_proc next (\<lambda>p. p\<lparr>exec_start := now, slice_ns := slice\<rparr>) s;
        let s = s\<lparr>cpu_regs := proc_context (processes s next)\<rparr>;
        Some (s\<lparr>context_switches := context_switches s + 1, switch_count := inc_low (switch_count s)\<rparr>)
      })"

definition EEVDFSchedule :: "sched \<Rightarrow> sched option" where
  "EEVDFSchedule s = do {
     now \<leftarrow> GetNS s;
     let old = current_slot s;
     let prev = (old \<noteq> 0 \<and> old < EEVDF_MAX_PROCESSES);
     let s = s\<lparr>scheduler_calls := scheduler_calls s + 1, tick_counter := inc_low (tick_counter s)\<rparr>;
     let s = (cerberus_step s)\<lparr>rq_clock := now, exec_clock := now\<rparr>;
     s \<leftarrow> (if prev then requeue_prev old s else Some s);
     (next, s) \<leftarrow> choose_next s;
     let s = (if prev then unlock_rq s else s);
     let s = s\<lparr>current_slot := next, current_process := next\<rparr>;
     s \<leftarrow> switch_in next s;
     Some (if scheduler_calls s mod 100 = 0 then EEVDFCleanupTerminatedProcess s else s)
   }"

text \<open>The timer case of \<open>InterruptHandler\<close>, as far as it concerns the scheduler.\<close>

definition timer_interrupt :: "Registers \<Rightarrow> sched \<Rightarrow> sched option" where
  "timer_interrupt regs s = do {
     s \<leftarrow> EEVDFSchedule (s\<lparr>cpu_regs := regs\<rparr>);
     Some (s\<lparr>APICticks := APICticks s + 1\<rparr>)
   }"

section \<open>Creation\<close>

definition c_text :: "u64 \<Rightarrow> u8 list \<Rightarrow> va_arg list \<Rightarrow> u8 list option" where
  "c_text n fmt args = map_option (\<lambda>(k, out). take k out) (snprintf True n fmt args)"

definition RuntimeProcesses :: "u8 list" where
  "RuntimeProcesses = [0x2f, 0x52, 0x75, 0x6e, 0x74, 0x69, 0x6d, 0x65, 0x2f, 0x50, 0x72, 0x6f, 0x63, 0x65, 0x73, 0x73, 0x65, 0x73]"

definition RuntimeServices :: "u8 list" where
  "RuntimeServices = [0x2f, 0x52, 0x75, 0x6e, 0x74, 0x69, 0x6d, 0x65, 0x2f, 0x53, 0x65, 0x72, 0x76, 0x69, 0x63, 0x65, 0x73]"

definition process_name :: "u8 list option \<Rightarrow> nat \<Rightarrow> u8 list option" where
  "process_name name slot = do {
     n \<leftarrow> (case name of
        Some n \<Rightarrow> Some n
      | None \<Rightarrow> map_option (takeWhile (\<lambda>c. c \<noteq> 0)) (FormatS [0x70, 0x72, 0x6f, 0x63, 0x25, 0x64] [Num (word_of_nat slot)]));
     c_text 64 [0x25, 0x73] [Str (Some n)]
   }"

definition alloc_pid :: "sched \<Rightarrow> (nat \<times> sched) option" where
  "alloc_pid s =
     (case List.find (\<lambda>i. pid_bitmap s ! (i div 64) AND push_bit (i mod 64) 1 = 0) [1..<EEVDF_MAX_PROCESSES] of
        None \<Rightarrow> None
      | Some i \<Rightarrow> Some (i, s\<lparr>pid_bitmap := (pid_bitmap s)[i div 64 := pid_bitmap s ! (i div 64) OR push_bit (i mod 64) 1]\<rparr>))"

definition new_pcb ::
  "u8 list \<Rightarrow> u8 list \<Rightarrow> u32 \<Rightarrow> u64 \<Rightarrow> u64 \<Rightarrow> u8 \<Rightarrow> u64 \<Rightarrow> u32 \<Rightarrow> u64 \<Rightarrow> u64 \<Rightarrow> u64 \<Rightarrow> EEVDFProcessControlBlock" where
  "new_pcb name path pid stack entry priv caps creator ticks vrt now =
     (let t = zero_token\<lparr>tok_magic := SIS_MAGIC, creator_pid := creator, tok_privilege := priv, capabilities := caps, creation_tick := ticks\<rparr>
      in zero_pcb\<lparr>proc_name := name, proc_pid := pid, proc_state := PROC_READY, proc_stack := stack, privilege_level := priv,
           creation_time := ticks, nice_level := 0, weight := EEVDFNiceToWeight 0, inv_weight := EEVDFNiceToWmult 0,
           initial_entry_point := entry, vruntime := vrt, exec_start := now,
           token := t\<lparr>tok_checksum := EEVDFCalculateTokenChecksum t\<rparr>,
           proc_context := zero_registers\<lparr>reg_rsp := (stack AND NOT 0xF) - 8, reg_rip := entry, reg_rflags := 0x202, reg_cs := 0x08, reg_ss := 0x10\<rparr>,
           ProcessRuntimePath := path\<rparr>)"

text \<open>Filling the control block of the new process, its seal, and its registration with the monitor and ProcFS.\<close>

definition init_process ::
  "nat \<Rightarrow> EEVDFProcessControlBlock \<Rightarrow> bool \<Rightarrow> sched \<Rightarrow> sched" where
  "init_process slot pcb alloc_ok s =
     (let s = SISGenerateProcessKey slot (proc_pid pcb) (upd_proc slot (\<lambda>_. pcb) s);
          s = s\<lparr>kmem := (kmem s)(reg_rsp (proc_context pcb) := exit_stub s)\<rparr>;
          s = SISUpdateSeal slot s;
          s = upd_proc slot (\<lambda>p. p\<lparr>token := (token p)\<lparr>pcb_hash := sis_seal p\<rparr>\<rparr>) s;
          (r, c, words) = CerberusRegisterProcess (page_of s) (page_writable s) True (proc_pid pcb) (proc_stack pcb) 4096 (cerberus s, kmem s);
          s = s\<lparr>cerberus := c, kmem := words\<rparr>;
          s = ProcFSRegisterProcess alloc_ok (proc_pid pcb) s
      in s\<lparr>process_count := process_count s + 1, ready_process_bitmap := ready_process_bitmap s OR push_bit slot 1,
           total_processes := total_processes s + 1\<rparr>)"

text \<open>With no free slot, no free number or no stack the machine stops, so what was taken before is not given back here.\<close>

definition EEVDFCreateSecureProcess ::
  "u8 list option \<Rightarrow> u64 \<Rightarrow> u8 \<Rightarrow> u64 \<Rightarrow> u64 \<Rightarrow> bool \<Rightarrow> sched \<Rightarrow> (u32 \<times> sched) option" where
  "EEVDFCreateSecureProcess name entry priv caps stack alloc_ok s =
     (if entry = 0 then None
      else if unat (process_count s) \<ge> EEVDF_MAX_PROCESSES then None
      else case FindFreeSlotFast s of
             (None, s) \<Rightarrow> None
           | (Some slot, s) \<Rightarrow> do {
               (n, s) \<leftarrow> alloc_pid s;
               if stack = 0 then None
               else do {
                 creator \<leftarrow> EEVDFGetCurrentProcess s;
                 nm \<leftarrow> process_name name slot;
                 now \<leftarrow> GetNS s;
                 path \<leftarrow> c_text 256 [0x25, 0x73, 0x2f, 0x25, 0x64] [Str (Some RuntimeProcesses), Num (word_of_nat n)];
                 let pid = word_of_nat n;
                 let creator_pid = (if creator = slot then pid else proc_pid (processes s creator));
                 let pcb = new_pcb nm path pid stack entry priv caps creator_pid (ucast (APICticks s)) (min_vruntime s) now;
                 s \<leftarrow> lock_rq (init_process slot pcb alloc_ok s);
                 s \<leftarrow> EEVDFEnqueueTask slot s;
                 Some (pid, unlock_rq s)
               }
             })"

definition EEVDFCreateProcess :: "u8 list option \<Rightarrow> u64 \<Rightarrow> u64 \<Rightarrow> bool \<Rightarrow> sched \<Rightarrow> (u32 \<times> sched) option" where
  "EEVDFCreateProcess name entry stack alloc_ok s = EEVDFCreateSecureProcess name entry 1 0 stack alloc_ok s"

text \<open>\<open>CreateSecureProcess\<close> of \<open>Scheduler.c\<close>, whose flag is 8 bits wide.\<close>

definition CreateSecureProcess :: "u8 list option \<Rightarrow> u64 \<Rightarrow> u8 \<Rightarrow> u8 \<Rightarrow> u64 \<Rightarrow> bool \<Rightarrow> sched \<Rightarrow> (u32 \<times> sched) option" where
  "CreateSecureProcess name entry priv flag stack alloc_ok s =
     EEVDFCreateSecureProcess name entry priv (ucast flag) stack alloc_ok s"

section \<open>Start\<close>

definition clear_queue :: "sched \<Rightarrow> sched" where
  "clear_queue s =
     s\<lparr>processes := \<lambda>_. zero_pcb, node_left := \<lambda>_. None, node_right := \<lambda>_. None, node_parent := \<lambda>_. None, node_color := \<lambda>_. 0,
       node_slot := \<lambda>_. 0, rb_node_pool_bitmap := [0, 0], rb_root := None, rb_leftmost := None,
       min_vruntime := 0, rq_clock := 0, exec_clock := 0, load_weight := 0, nr_running := 0, current_slot := 0,
       tick_counter := 1, total_processes := 0, context_switch_overhead := 5, switch_count := 0\<rparr>"

definition idle_pcb :: "u8 list \<Rightarrow> u64 \<Rightarrow> u64 \<Rightarrow> EEVDFProcessControlBlock" where
  "idle_pcb path ticks now =
     (let t = zero_token\<lparr>tok_magic := SIS_MAGIC, capabilities := EEVDF_CAP_CORE, creation_tick := ticks\<rparr>
      in zero_pcb\<lparr>proc_name := [0x49, 0x64, 0x6c, 0x65], proc_state := PROC_RUNNING, creation_time := ticks, nice_level := 0,
           weight := EEVDFNiceToWeight 0, inv_weight := EEVDFNiceToWmult 0, exec_start := now,
           token := t\<lparr>tok_checksum := EEVDFCalculateTokenChecksum t\<rparr>, ProcessRuntimePath := path\<rparr>)"

text \<open>
  \<open>locks_ok\<close>: every lock could be allocated; \<open>monitor_ok\<close>: that of the monitor; \<open>idle_addr\<close>: the address of the local
  variable whose bits go into the entropy; the shell's entry point and stack; whether the two list entries
  could be allocated.
\<close>

definition EEVDFSchedInit :: "bool \<Rightarrow> bool \<Rightarrow> u64 \<Rightarrow> u64 \<Rightarrow> u64 \<Rightarrow> bool \<Rightarrow> bool \<Rightarrow> sched \<Rightarrow> sched option" where
  "EEVDFSchedInit locks_ok monitor_ok idle_addr shell stack alloc0 alloc1 s =
     (if \<not> locks_ok then None
      else do {
        let s = clear_queue (s\<lparr>cerberus := CerberusInit monitor_ok (cerberus s)\<rparr>);
        now \<leftarrow> GetNS s;
        path \<leftarrow> c_text 256 [0x25, 0x73, 0x2f, 0x25, 0x64] [Str (Some RuntimeServices), Num 0];
        let s = upd_proc 0 (\<lambda>_. idle_pcb path (ucast (APICticks s)) now) s;
        let s = SISGenerateProcessKey 0 0 (s\<lparr>sis_boot_entropy := now XOR idle_addr\<rparr>);
        let s = ProcFSRegisterProcess alloc0 0 (SISUpdateSeal 0 s);
        let s = s\<lparr>process_count := 1, active_process_bitmap := active_process_bitmap s OR 1\<rparr>;
        (pid, s) \<leftarrow> EEVDFCreateSecureProcess (Some [0x56, 0x46, 0x53, 0x68, 0x65, 0x6c, 0x6c]) shell 0 EEVDF_CAP_CORE stack alloc1 s;
        if pid = 0 then None else Some s
      })"

section \<open>Blocking, waking, yielding and statistics\<close>

definition EEVDFProcessBlocked :: "nat \<Rightarrow> sched \<Rightarrow> sched" where
  "EEVDFProcessBlocked slot s =
     (if slot \<ge> EEVDF_MAX_PROCESSES then s
      else let s = upd_proc slot (\<lambda>p. p\<lparr>io_operations := io_operations p + 1\<rparr>) s
           in if slot = current_slot s then s\<lparr>need_schedule := True\<rparr> else s)"

definition EEVDFWakeupTask :: "nat \<Rightarrow> sched \<Rightarrow> sched option" where
  "EEVDFWakeupTask p s =
     (if proc_state (processes s p) \<noteq> PROC_BLOCKED then Some s
      else do {
        now \<leftarrow> GetNS s;
        EEVDFEnqueueTask p (upd_proc p (\<lambda>q. q\<lparr>proc_state := PROC_READY, last_wakeup := now\<rparr>) s)
      })"

definition EEVDFUpdateClock :: "sched \<Rightarrow> sched option" where
  "EEVDFUpdateClock s = do {
     now \<leftarrow> GetNS s;
     Some (s\<lparr>rq_clock := now, exec_clock := now\<rparr>)
   }"

definition EEVDFGetProcessStats :: "u32 \<Rightarrow> sched \<Rightarrow> u32 \<times> u32 \<times> u32" where
  "EEVDFGetProcessStats pid s =
     (case EEVDFGetCurrentProcessByPID pid s of
        None \<Rightarrow> (0, 0, 0)
      | Some i \<Rightarrow> let p = processes s i in (ucast (cpu_time_accumulated p), ucast (wait_sum p), preemption_count p))"

definition EEVDFCheckPreempt :: "nat \<Rightarrow> sched \<Rightarrow> bool" where
  "EEVDFCheckPreempt p s =
     (let c = processes s (current_slot s); q = processes s p
      in current_slot s = 0 \<or> deadline q < deadline c \<or> vruntime q + 1000000 < vruntime c)"

definition EEVDFYieldTask :: "sched \<Rightarrow> sched option" where
  "EEVDFYieldTask s =
     (if current_slot s = 0 then Some s
      else do {
        let c = current_slot s;
        s \<leftarrow> EEVDFUpdateCurr c s;
        s \<leftarrow> EEVDFEnqueueTask c (upd_proc c (\<lambda>p. p\<lparr>proc_state := PROC_READY\<rparr>) s);
        Some (s\<lparr>need_schedule := True\<rparr>)
      })"

end
