(* ===== verification/EevdfSched.thy ===== *)
theory EevdfSched
  imports Eevdf
begin

text \<open>
  Correctness of the EEVDF scheduler: the invariant of its queue and of the process control blocks, kept by
  every timer interrupt, creation and termination, and what the invariant gives.
\<close>

unbundle bit_operations_syntax

section \<open>Frames\<close>

text \<open>The queue depends on the tree, on who is linked, and on the virtual run times of those in it.\<close>

lemma rq_holds_frame:
  fixes s s' :: sched
  assumes h: "rq_holds s ps"
    and "node_left s' = node_left s" "node_right s' = node_right s" "node_parent s' = node_parent s" "node_color s' = node_color s"
      "node_slot s' = node_slot s" "rb_node_pool_bitmap s' = rb_node_pool_bitmap s" "rb_root s' = rb_root s" "rb_leftmost s' = rb_leftmost s"
    and rb: "\<And>p. rb_node (processes s' p) = rb_node (processes s p)"
    and vt: "\<And>p. p \<in> set ps \<Longrightarrow> vruntime (processes s' p) = vruntime (processes s p)"
  shows "rq_holds s' ps"
proof -
  obtain t where t: "queue_ok s t" "ps = map (node_slot s) (nodes t)" using h unfolding rq_holds_def by blast
  have "at s' [] t = at s [] t" by (rule at_cong) (simp_all add: assms)
  moreover have "sorted (map (key_of s') (nodes t)) = sorted (map (key_of s) (nodes t))"
    using vt t(2) assms(6) by (intro arg_cong [where f = sorted] map_cong) auto
  moreover have "pool_ok s' (nodes t) = pool_ok s (nodes t)" by (simp add: pool_ok_def node_used_def assms)
  moreover have "linked s' (nodes t) = linked s (nodes t)" by (simp add: linked_def assms)
  ultimately have "queue_ok s' t" using t(1) unfolding queue_ok_def by (metis assms(9))
  then show ?thesis unfolding rq_holds_def using t(2) assms(6) by auto
qed

lemma rq_holds_upd:
  fixes s :: sched
  assumes "rq_holds s ps" "rb_node (f (processes s p)) = rb_node (processes s p)"
    "p \<in> set ps \<Longrightarrow> vruntime (f (processes s p)) = vruntime (processes s p)"
  shows "rq_holds (upd_proc p f s) ps"
  by (rule rq_holds_frame [OF assms(1)]) (use assms in \<open>auto simp: upd_proc_def\<close>)

lemma upd_proc_more [simp]: "rb_state.more (upd_proc p f s) = rb_state.more s"
  by (simp add: upd_proc_def)

text \<open>The fields that the operations on the queue leave alone: all but the tree, the processes, the load and the length.\<close>

definition same_time :: "sched \<Rightarrow> sched \<Rightarrow> bool" where
  "same_time s s' \<longleftrightarrow> min_vruntime s' = min_vruntime s \<and> APICticks s' = APICticks s \<and> APIC_HZ s' = APIC_HZ s"

definition same_sched :: "sched \<Rightarrow> sched \<Rightarrow> bool" where
  "same_sched s s' \<longleftrightarrow> rb_state.more (s'\<lparr>load_weight := 0, nr_running := 0\<rparr>) = rb_state.more (s\<lparr>load_weight := 0, nr_running := 0\<rparr>)"

lemma same_sched_refl [simp]: "same_sched s s"
  by (simp add: same_sched_def)

lemma same_sched_trans: "same_sched s s' \<Longrightarrow> same_sched s' s'' \<Longrightarrow> same_sched s s''"
  by (simp add: same_sched_def)

lemma same_more:
  fixes s s' :: sched
  shows "rb_state.more s' = rb_state.more s \<Longrightarrow> same_sched s s'"
  by (cases s; cases s') (simp add: same_sched_def)

lemma same_load:
  fixes s :: sched
  shows "same_sched s (s\<lparr>load_weight := l, nr_running := n\<rparr>)"
  by (cases s) (simp add: same_sched_def)

lemma same_schedD:
  assumes "same_sched s s'"
  shows "min_vruntime s' = min_vruntime s" "rq_clock s' = rq_clock s" "current_slot s' = current_slot s"
    "sis_process_keys s' = sis_process_keys s" "pid_bitmap s' = pid_bitmap s" "current_process s' = current_process s"
    "active_process_bitmap s' = active_process_bitmap s" "runqueue_locked s' = runqueue_locked s" "APICticks s' = APICticks s"
    "APIC_HZ s' = APIC_HZ s" "process_count s' = process_count s" "cpu_regs s' = cpu_regs s" "exit_stub s' = exit_stub s"
    "scheduler_calls s' = scheduler_calls s" "term_queue_count s' = term_queue_count s" "page_of s' = page_of s" "kmem s' = kmem s"
    "cerberus s' = cerberus s"
  using assms by (cases s; cases s'; simp add: same_sched_def)+

lemma more_load:
  fixes s s' :: sched
  assumes "rb_state.more s' = rb_state.more s"
  shows "load_weight s' = load_weight s" "nr_running s' = nr_running s"
  using assms by (cases s; cases s'; simp)+

section \<open>The queue with its load\<close>

definition rq_loaded :: "sched \<Rightarrow> nat list \<Rightarrow> bool" where
  "rq_loaded s ps \<longleftrightarrow> rq_holds s ps \<and> 0 \<notin> set ps \<and> unat (load_weight s) = 1024 * length ps \<and> unat (nr_running s) = length ps"

definition queue_at :: "u64 \<Rightarrow> sched \<Rightarrow> nat \<Rightarrow> nat list \<Rightarrow> nat list" where
  "queue_at v s p ps = filter (\<lambda>q. rq_key s q \<le> v) ps @ p # filter (\<lambda>q. v < rq_key s q) ps"

lemma queue_at_cong:
  assumes "\<And>q. q \<in> set ps \<Longrightarrow> rq_key s' q = rq_key s q"
  shows "queue_at v s' p ps = queue_at v s p ps"
proof -
  have "filter (\<lambda>q. rq_key s' q \<le> v) ps = filter (\<lambda>q. rq_key s q \<le> v) ps" "filter (\<lambda>q. v < rq_key s' q) ps = filter (\<lambda>q. v < rq_key s q) ps"
    using assms by (auto intro!: filter_cong)
  then show ?thesis by (simp add: queue_at_def)
qed

lemma rq_loaded_length:
  assumes "rq_loaded s ps"
  shows "length ps \<le> 63"
proof -
  have h: "rq_holds s ps" "0 \<notin> set ps" using assms by (simp_all add: rq_loaded_def)
  then have "set ps \<subseteq> {1..<64}" using rq_holds_node(2) [OF h(1)] by (auto simp: Suc_le_eq intro: gr0I)
  then have "card (set ps) \<le> card {1..<64 :: nat}" by (intro card_mono) auto
  then show ?thesis using rq_holds_sorted [OF h(1)] by (simp add: distinct_card)
qed

lemma queue_at_split:
  assumes "rq_holds s ps"
  shows "set (queue_at v s p ps) = insert p (set ps)" "length (queue_at v s p ps) = Suc (length ps)"
proof -
  have e: "filter (\<lambda>q. rq_key s q \<le> v) ps @ filter (\<lambda>q. v < rq_key s q) ps = ps"
    using rq_holds_sorted [OF assms] by (intro insert_behind) simp
  show "set (queue_at v s p ps) = insert p (set ps)" using arg_cong [OF e, of set] by (auto simp: queue_at_def)
  show "length (queue_at v s p ps) = Suc (length ps)" using arg_cong [OF e, of length] by (simp add: queue_at_def)
qed

lemma CalcSlice_total:
  assumes "rq_loaded s ps"
  shows "\<exists>sl. EEVDFCalcSlice p s = Some sl"
proof (cases "ps = []")
  case True
  then have "nr_running s = 0" using assms by (simp add: rq_loaded_def unat_eq_zero)
  then show ?thesis by (simp add: EEVDFCalcSlice_def)
next
  case False
  then have "unat (load_weight s) \<noteq> 0" using assms by (simp add: rq_loaded_def)
  then have "load_weight s \<noteq> 0" by auto
  then show ?thesis by (simp add: EEVDFCalcSlice_def Let_def)
qed

lemma CalcSlice_cong:
  "load_weight s' = load_weight s \<Longrightarrow> nr_running s' = nr_running s \<Longrightarrow> weight (processes s' p) = weight (processes s p)
    \<Longrightarrow> EEVDFCalcSlice p s' = EEVDFCalcSlice p s"
  by (simp add: EEVDFCalcSlice_def)

lemma unat_add_1024: "unat (w :: u32) \<le> 1024 * 63 \<Longrightarrow> unat (w + 1024) = unat w + 1024"
  by (subst unat_add_lem [THEN iffD1]) simp_all

lemma unat_inc32: "unat (w :: u32) \<le> 63 \<Longrightarrow> unat (w + 1) = Suc (unat w)"
  by (subst unat_add_lem [THEN iffD1]) simp_all

lemma unat_sub_1024: "1024 \<le> (w :: u32) \<Longrightarrow> unat (w - 1024) = unat w - 1024"
  by (simp add: unat_sub)

lemma unat_dec32: "0 < (w :: u32) \<Longrightarrow> unat (w - 1) = unat w - 1"
  using unat_sub [of 1 w] by (simp add: word_le_nat_alt word_less_nat_alt Suc_le_eq)

lemma enqueue_run:
  assumes l: "rq_loaded s ps" and p: "p < 64" "p \<noteq> 0" "p \<notin> set ps" "proc_state (processes s p) = PROC_READY" "weight (processes s p) = 1024"
    and v: "v = max (vruntime (processes s p)) (min_vruntime s)"
  shows "\<exists>s' n d. EEVDFEnqueueTask p s = Some s' \<and> rq_loaded s' (queue_at v s p ps) \<and> same_sched s s'
    \<and> processes s' = (processes s)(p := (processes s p)\<lparr>vruntime := v, deadline := d, rb_node := Some n\<rparr>)"
proof -
  have h: "rq_holds s ps" and len: "length ps \<le> 63" using l rq_loaded_length by (auto simp: rq_loaded_def)
  obtain sl where sl: "EEVDFCalcSlice p s = Some sl" using CalcSlice_total [OF l] by blast
  define s1 where "s1 = upd_proc p (\<lambda>q. q\<lparr>vruntime := v, deadline := v + sl\<rparr>) s"
  define s2 where "s2 = s1\<lparr>load_weight := load_weight s + 1024, nr_running := nr_running s + 1\<rparr>"
  have run: "EEVDFEnqueueTask p s = EEVDFRBInsert p s2"
  proof (cases "vruntime (processes s p) < min_vruntime s")
    case True
    then have "v = min_vruntime s" using v by simp
    moreover have "EEVDFCalcSlice p (upd_proc p (\<lambda>q. q\<lparr>vruntime := v\<rparr>) s) = Some sl"
      unfolding sl [symmetric] by (rule CalcSlice_cong) (simp_all add: upd_proc_def)
    ultimately show ?thesis using True p(4,5)
      by (simp add: EEVDFEnqueueTask_def Let_def s2_def s1_def upd_proc_def)
  next
    case False
    then have "v = vruntime (processes s p)" using v by simp
    then show ?thesis using False sl p(4,5)
      by (simp add: EEVDFEnqueueTask_def Let_def s2_def s1_def upd_proc_def)
  qed
  have "rq_holds s2 ps" unfolding s2_def s1_def
    by (rule rq_holds_frame [OF h]) (use p(3) in \<open>auto simp: upd_proc_def\<close>)
  from rq_insert [OF this p(1) p(3)] obtain s' n where s': "EEVDFRBInsert p s2 = Some s'"
      "rq_holds s' (filter (\<lambda>q. rq_key s2 q \<le> rq_key s2 p) ps @ p # filter (\<lambda>q. rq_key s2 p < rq_key s2 q) ps)"
      "processes s' = (processes s2)(p := (processes s2 p)\<lparr>rb_node := Some n\<rparr>)" "rb_state.more s' = rb_state.more s2" by blast
  have k: "rq_key s2 p = v" "q \<in> set ps \<Longrightarrow> rq_key s2 q = rq_key s q" for q
    using p(3) by (auto simp: rq_key_def s2_def s1_def upd_proc_def)
  have "filter (\<lambda>q. rq_key s2 q \<le> rq_key s2 p) ps @ p # filter (\<lambda>q. rq_key s2 p < rq_key s2 q) ps = queue_at v s p ps"
    using k by (auto simp: queue_at_def cong: filter_cong)
  moreover have "same_sched s s'"
  proof -
    have "same_sched s s1" by (rule same_more) (simp add: s1_def)
    moreover have "same_sched s1 s2" unfolding s2_def by (rule same_load)
    moreover have "same_sched s2 s'" by (rule same_more [OF s'(4)])
    ultimately show ?thesis by (blast intro: same_sched_trans)
  qed
  moreover have "unat (load_weight s') = 1024 * Suc (length ps)" "unat (nr_running s') = Suc (length ps)"
    using more_load [OF s'(4)] l len by (simp_all add: s2_def rq_loaded_def unat_add_1024 unat_inc32)
  ultimately show ?thesis
    using run s' l p(2) queue_at_split [OF h, of v p]
    by (auto simp: rq_loaded_def s2_def s1_def upd_proc_def intro!: exI [of _ n] exI [of _ "v + sl"])
qed

lemma dequeue_run:
  assumes l: "rq_loaded s ps" and p: "p \<in> set ps" "weight (processes s p) = 1024"
  shows "\<exists>s'. EEVDFDequeueTask p s = Some s' \<and> rq_loaded s' (remove1 p ps) \<and> same_sched s s'
    \<and> processes s' = (processes s)(p := (processes s p)\<lparr>rb_node := None\<rparr>)"
proof -
  have h: "rq_holds s ps" using l by (simp add: rq_loaded_def)
  have ne: "rb_node (processes s p) \<noteq> None" using rq_holds_node(1) [OF h] p(1) by simp
  obtain m where len: "length ps = Suc m" using p(1) by (cases ps) auto
  have ge: "1024 \<le> load_weight s" "0 < nr_running s" using l len by (auto simp: rq_loaded_def word_le_nat_alt word_less_nat_alt)
  define s1 where "s1 = s\<lparr>load_weight := load_weight s - 1024, nr_running := nr_running s - 1\<rparr>"
  have run: "EEVDFDequeueTask p s = EEVDFRBDelete p s1"
    using ne ge p(2) by (auto simp: EEVDFDequeueTask_def Let_def s1_def)
  have "rq_holds s1 ps" unfolding s1_def by (rule rq_holds_frame [OF h]) auto
  from rq_delete [OF this p(1)] obtain s' where s': "EEVDFRBDelete p s1 = Some s'" "rq_holds s' (remove1 p ps)"
      "processes s' = (processes s1)(p := (processes s1 p)\<lparr>rb_node := None\<rparr>)" "rb_state.more s' = rb_state.more s1" by blast
  have "same_sched s s'" using same_sched_trans [OF _ same_more [OF s'(4)]] same_load unfolding s1_def by blast
  moreover have "unat (load_weight s') = 1024 * m" "unat (nr_running s') = m"
    using more_load [OF s'(4)] l len ge
    by (simp_all add: s1_def rq_loaded_def unat_sub_1024 unat_dec32)
  ultimately show ?thesis
    using run s' l p(1) len notin_set_remove1 [of 0 ps p] by (auto simp: rq_loaded_def s1_def length_remove1)
qed

lemma dequeue_absent:
  assumes "rq_loaded s ps" "p \<notin> set ps"
  shows "EEVDFDequeueTask p s = Some s"
  using assms rq_holds_node(1) [of s ps p] by (simp add: EEVDFDequeueTask_def rq_loaded_def)

section \<open>The invariant\<close>

text \<open>A process control block that can be scheduled: intact, of the default weight, with a stack, a place to start and, with system privilege, a core capability.\<close>

definition good_pcb :: "u64 \<Rightarrow> EEVDFProcessControlBlock \<Rightarrow> bool" where
  "good_pcb key p \<longleftrightarrow> sis_seal p = SISSealPCB p key \<and> weight p = 1024 \<and> proc_stack p \<noteq> 0 \<and> reg_rip (proc_context p) \<noteq> 0
     \<and> (privilege_level p = 0 \<longrightarrow> capabilities (token p) AND EEVDF_CAP_CORE \<noteq> 0)"

definition ready_ok :: "sched \<Rightarrow> nat \<Rightarrow> bool" where
  "ready_ok s p \<longleftrightarrow> good_pcb (sis_process_keys s p) (processes s p) \<and> proc_state (processes s p) = PROC_READY \<and> bit (active_process_bitmap s) p"

definition current_ok :: "sched \<Rightarrow> nat \<Rightarrow> bool" where
  "current_ok s c \<longleftrightarrow> bit (active_process_bitmap s) c \<and> rb_node (processes s c) = None
     \<and> (proc_state (processes s c) = PROC_RUNNING \<and> good_pcb (sis_process_keys s c) (processes s c) \<or> proc_state (processes s c) = PROC_ZOMBIE)"

definition queue_good :: "sched \<Rightarrow> nat list \<Rightarrow> bool" where
  "queue_good s ps \<longleftrightarrow> rq_loaded s ps \<and> (\<forall>p \<in> set ps. ready_ok s p)"

definition sched_ok :: "sched \<Rightarrow> nat list \<Rightarrow> bool" where
  "sched_ok s ps \<longleftrightarrow> queue_good s ps \<and> (current_slot s \<noteq> 0 \<longrightarrow> current_ok s (current_slot s)) \<and> current_slot s < 64
     \<and> current_process s = current_slot s \<and> \<not> runqueue_locked s \<and> APIC_HZ s \<noteq> 0 \<and> length (pid_bitmap s) = 2"

lemma queue_good_frame:
  assumes "queue_good s ps"
    and "node_left s' = node_left s" "node_right s' = node_right s" "node_parent s' = node_parent s" "node_color s' = node_color s"
      "node_slot s' = node_slot s" "rb_node_pool_bitmap s' = rb_node_pool_bitmap s" "rb_root s' = rb_root s" "rb_leftmost s' = rb_leftmost s"
      "load_weight s' = load_weight s" "nr_running s' = nr_running s"
    and rb: "\<And>p. rb_node (processes s' p) = rb_node (processes s p)"
    and vt: "\<And>p. p \<in> set ps \<Longrightarrow> vruntime (processes s' p) = vruntime (processes s p)"
    and ok: "\<And>p. p \<in> set ps \<Longrightarrow> ready_ok s p \<Longrightarrow> ready_ok s' p"
  shows "queue_good s' ps"
  using assms(1) rq_holds_frame [of s ps s'] assms(2-11) rb vt ok by (auto simp: queue_good_def rq_loaded_def)

text \<open>Updates of fields the queue does not depend on, with at most one process outside the queue changed.\<close>

lemma queue_good_upd:
  assumes "queue_good s ps" "p \<notin> set ps" "rb_node q = None"
    and "s' = s\<lparr>processes := (processes s)(p := q)\<rparr>"
  shows "queue_good s' ps"
proof -
  have "rb_node (processes s p) = None"
    using assms(1,2) rq_holds_node(1) [of s ps p] by (simp add: queue_good_def rq_loaded_def)
  then show ?thesis
    by (intro queue_good_frame [OF assms(1)]) (use assms(2-4) in \<open>auto simp: ready_ok_def\<close>)
qed

lemma queue_good_same:
  assumes "queue_good s ps" "rb_state.truncate s' = rb_state.truncate s" "load_weight s' = load_weight s" "nr_running s' = nr_running s"
    "sis_process_keys s' = sis_process_keys s" "active_process_bitmap s' = active_process_bitmap s"
  shows "queue_good s' ps"
  by (rule queue_good_frame [OF assms(1)]) (use assms(2-6) in \<open>auto simp: rb_state.truncate_def ready_ok_def\<close>)

lemma sched_ok_same:
  assumes "sched_ok s ps" "rb_state.truncate s' = rb_state.truncate s" "load_weight s' = load_weight s" "nr_running s' = nr_running s"
    "sis_process_keys s' = sis_process_keys s" "active_process_bitmap s' = active_process_bitmap s"
    "current_slot s' = current_slot s" "current_process s' = current_process s" "runqueue_locked s' = runqueue_locked s"
    "APIC_HZ s' = APIC_HZ s" "length (pid_bitmap s') = length (pid_bitmap s)"
  shows "sched_ok s' ps"
proof -
  have "processes s' = processes s" using assms(2) by (simp add: rb_state.truncate_def)
  then show ?thesis using assms queue_good_same [of s ps s'] by (simp add: sched_ok_def current_ok_def)
qed

lemma queue_goodD:
  assumes "queue_good s ps"
  shows "rq_holds s ps" "rq_loaded s ps" "p \<in> set ps \<Longrightarrow> ready_ok s p" "p \<in> set ps \<Longrightarrow> p < 64" "0 \<notin> set ps"
    "p \<in> set ps \<longleftrightarrow> rb_node (processes s p) \<noteq> None"
  using assms rq_holds_node [of s ps p] by (auto simp: queue_good_def rq_loaded_def)

lemma LogViolation_total: "unat pid < 128 \<Longrightarrow> report_pid v = pid \<Longrightarrow> \<exists>c'. CerberusLogViolation (Some v) c = Some c'"
  by (simp add: CerberusLogViolation_def CERBERUS_MAX_PROCESSES_def Let_def)

lemma PreSchedule_total: "unat pid < 64 \<Longrightarrow> \<exists>c'. CerberusPreScheduleCheck phys words pid c = Some c'"
  using LogViolation_total [of pid _ c]
  by (auto simp: CerberusPreScheduleCheck_def CerberusCheckStackCanary_def CERBERUS_MAX_PROCESSES_def Let_def)

section \<open>The timer interrupt, step by step\<close>

lemma cerberus_step_fields [simp]:
  "rb_state.truncate (cerberus_step s) = rb_state.truncate s" "processes (cerberus_step s) = processes s"
  "load_weight (cerberus_step s) = load_weight s" "nr_running (cerberus_step s) = nr_running s"
  "sis_process_keys (cerberus_step s) = sis_process_keys s" "active_process_bitmap (cerberus_step s) = active_process_bitmap s"
  "current_slot (cerberus_step s) = current_slot s" "current_process (cerberus_step s) = current_process s"
  "runqueue_locked (cerberus_step s) = runqueue_locked s" "APIC_HZ (cerberus_step s) = APIC_HZ s" "APICticks (cerberus_step s) = APICticks s"
  "pid_bitmap (cerberus_step s) = pid_bitmap s" "min_vruntime (cerberus_step s) = min_vruntime s" "cpu_regs (cerberus_step s) = cpu_regs s"
  by (simp_all add: cerberus_step_def Let_def rb_state.truncate_def)

lemma Preflight_good:
  assumes "ready_ok s p" "p < 64"
  shows "\<exists>c. EEVDFPreflightCheck p s = Some (True, s\<lparr>cerberus := c\<rparr>)"
proof (cases "p = 0")
  case True
  then show ?thesis by (intro exI [of _ "cerberus s"]) (simp add: EEVDFPreflightCheck_def)
next
  case False
  have "unat (word_of_nat p :: u32) < 64" using assms(2) by (simp add: unsigned_of_nat take_bit_eq_mod)
  from PreSchedule_total [OF this, of "page_of s" "kmem s" "cerberus s"] obtain c where
    "CerberusPreScheduleCheck (page_of s) (kmem s) (word_of_nat p) (cerberus s) = Some c" by blast
  then show ?thesis using assms False
    by (intro exI [of _ c])
      (simp add: EEVDFPreflightCheck_def Let_def SISVerifyPCB_def ready_ok_def good_pcb_def EEVDF_MAX_PROCESSES_def)
qed

text \<open>The head of the queue is taken out of it.\<close>

lemma choose_next_run:
  assumes q: "queue_good s (p # ps)"
  shows "\<exists>s' c. choose_next s = Some (p, s') \<and> queue_good s' ps \<and> same_sched (s\<lparr>cerberus := c\<rparr>) s'
    \<and> processes s' = (processes s)(p := (processes s p)\<lparr>rb_node := None\<rparr>)"
proof -
  note d = queue_goodD [OF q]
  have r: "ready_ok s p" "p < 64" using d(3,4) [of p] by auto
  obtain c where c: "EEVDFPreflightCheck p s = Some (True, s\<lparr>cerberus := c\<rparr>)" using Preflight_good [OF r] by blast
  define s1 where "s1 = s\<lparr>cerberus := c\<rparr>"
  have "queue_good s1 (p # ps)" unfolding s1_def by (rule queue_good_same [OF q]) (simp_all add: rb_state.truncate_def)
  from dequeue_run [OF queue_goodD(2) [OF this], of p] r(1) obtain s' where s': "EEVDFDequeueTask p s1 = Some s'"
      "rq_loaded s' ps" "same_sched s1 s'" "processes s' = (processes s1)(p := (processes s1 p)\<lparr>rb_node := None\<rparr>)"
    by (auto simp: ready_ok_def good_pcb_def s1_def)
  have "p \<notin> set ps" using rq_holds_sorted [OF d(1)] by simp
  then have "ready_ok s' x" if "x \<in> set ps" for x
    using d(3) [of x] that s'(4) same_schedD(4,7) [OF s'(3)] by (auto simp: ready_ok_def s1_def)
  moreover have "choose_next s = Some (p, s')"
    using rq_pick [OF d(1)] c s'(1) r by (simp add: choose_next_def take_next_def s1_def ready_ok_def EEVDF_MAX_PROCESSES_def)
  ultimately show ?thesis using s' unfolding queue_good_def s1_def by auto
qed

lemma choose_next_empty:
  assumes "queue_good s []"
  shows "choose_next s = Some (0, s)"
  using rq_pick [OF queue_goodD(1) [OF assms]] by (simp add: choose_next_def)

definition now_ns :: "sched \<Rightarrow> u64" where
  "now_ns s = (ucast (APICticks s) * 1000000000) div ucast (APIC_HZ s)"

lemma GetNS_now: "APIC_HZ s \<noteq> 0 \<Longrightarrow> GetNS s = Some (now_ns s)"
  by (simp add: GetNS_def now_ns_def)

text \<open>The chosen process runs: it is resealed, its registers are loaded.\<close>

lemma switch_in_run:
  assumes q: "queue_good s ps" and g: "good_pcb (sis_process_keys s n) (processes s n)" and n: "n \<noteq> 0" "n \<notin> set ps" and hz: "APIC_HZ s \<noteq> 0"
    and rb: "rb_node (processes s n) = None"
  shows "\<exists>s' sl. switch_in n s = Some s' \<and> queue_good s' ps \<and> good_pcb (sis_process_keys s' n) (processes s' n)
    \<and> processes s' = (processes s)(n := (processes s n)\<lparr>proc_state := PROC_RUNNING,
        sis_seal := SISSealPCB ((processes s n)\<lparr>proc_state := PROC_RUNNING\<rparr>) (sis_process_keys s n), exec_start := now_ns s, slice_ns := sl\<rparr>)
    \<and> cpu_regs s' = proc_context (processes s n) \<and> sis_process_keys s' = sis_process_keys s
    \<and> active_process_bitmap s' = active_process_bitmap s \<and> current_slot s' = current_slot s \<and> current_process s' = current_process s
    \<and> runqueue_locked s' = runqueue_locked s \<and> APIC_HZ s' = APIC_HZ s \<and> APICticks s' = APICticks s \<and> pid_bitmap s' = pid_bitmap s
    \<and> scheduler_calls s' = scheduler_calls s \<and> min_vruntime s' = min_vruntime s"
proof -
  define s1 where "s1 = SISUpdateSeal n (upd_proc n (\<lambda>p. p\<lparr>proc_state := PROC_RUNNING\<rparr>) s)"
  define s2 where "s2 = s1\<lparr>ready_process_bitmap := ready_process_bitmap s1 AND NOT (push_bit n 1)\<rparr>"
  have cong: "EEVDFCalcSlice n s2 = EEVDFCalcSlice n s"
    by (rule CalcSlice_cong) (simp_all add: s2_def s1_def SISUpdateSeal_def upd_proc_def)
  obtain sl where sl: "EEVDFCalcSlice n s2 = Some sl" using CalcSlice_total [OF queue_goodD(2) [OF q]] cong by metis
  have now: "GetNS s2 = Some (now_ns s)"
    using hz by (simp add: s2_def s1_def SISUpdateSeal_def upd_proc_def GetNS_def now_ns_def)
  define s3 where "s3 = upd_proc n (\<lambda>p. p\<lparr>exec_start := now_ns s, slice_ns := sl\<rparr>) s2"
  define s4 where "s4 = s3\<lparr>cpu_regs := proc_context (processes s3 n)\<rparr>"
  define s5 where "s5 = s4\<lparr>context_switches := context_switches s4 + 1, switch_count := inc_low (switch_count s4)\<rparr>"
  have run: "switch_in n s = Some s5"
    using n(1) g now sl by (simp add: switch_in_def good_pcb_def Let_def s1_def s2_def s3_def s4_def s5_def)
  let ?q = "(processes s n)\<lparr>proc_state := PROC_RUNNING, sis_seal := SISSealPCB ((processes s n)\<lparr>proc_state := PROC_RUNNING\<rparr>) (sis_process_keys s n),
    exec_start := now_ns s, slice_ns := sl\<rparr>"
  have pr: "processes s5 = (processes s)(n := ?q)"
    by (simp add: s5_def s4_def s3_def s2_def s1_def SISUpdateSeal_def upd_proc_def)
  have "queue_good (s\<lparr>processes := (processes s)(n := ?q)\<rparr>) ps" using queue_good_upd [OF q n(2) _ refl, of ?q] rb by simp
  then have "queue_good s5 ps"
    by (rule queue_good_same) (simp_all add: s5_def s4_def s3_def s2_def s1_def SISUpdateSeal_def upd_proc_def rb_state.truncate_def)
  moreover have "good_pcb (sis_process_keys s5 n) (processes s5 n)"
    using g by (simp add: pr good_pcb_def SISSealPCB_def s5_def s4_def s3_def s2_def s1_def SISUpdateSeal_def upd_proc_def)
  ultimately show ?thesis using run pr
    by (intro exI [of _ s5] exI [of _ sl])
      (simp add: s5_def s4_def s3_def s2_def s1_def SISUpdateSeal_def upd_proc_def)
qed

text \<open>What the interrupted process is charged, and the virtual run time it is queued with again.\<close>

definition elapsed :: "sched \<Rightarrow> nat \<Rightarrow> u64" where
  "elapsed s c = now_ns s - exec_start (processes s c)"

definition charged :: "sched \<Rightarrow> nat \<Rightarrow> u64" where
  "charged s c = vruntime (processes s c) + EEVDFCalcDelta (elapsed s c) 1024 (load_weight s)"

definition requeue_min :: "sched \<Rightarrow> nat \<Rightarrow> nat list \<Rightarrow> u64" where
  "requeue_min s c ps =
     (if elapsed s c = 0 then min_vruntime s else case ps of [] \<Rightarrow> charged s c | p # _ \<Rightarrow> rq_key s p)"

definition requeue_key :: "sched \<Rightarrow> nat \<Rightarrow> nat list \<Rightarrow> u64" where
  "requeue_key s c ps = max (charged s c) (requeue_min s c ps)"

lemma CalcDelta_0 [simp]: "EEVDFCalcDelta 0 w l = 0"
  by (simp add: EEVDFCalcDelta_def)

lemma leftmost_key:
  assumes "rq_holds s ps"
  shows "(case rb_leftmost s of Some n \<Rightarrow> x (vruntime (processes s (node_slot s n))) | None \<Rightarrow> y) = (case ps of [] \<Rightarrow> y | p # _ \<Rightarrow> x (rq_key s p))"
proof -
  obtain t where t: "queue_ok s t" "ps = map (node_slot s) (nodes t)" using assms unfolding rq_holds_def by blast
  then have "rb_leftmost s = first_ptr (nodes t)" by (simp add: queue_ok_def)
  then show ?thesis using t(2) by (cases "nodes t") (simp_all add: first_ptr_def rq_key_def)
qed

lemma UpdateCurr_run:
  assumes q: "queue_good s ps" and c: "c \<notin> set ps" and hz: "APIC_HZ s \<noteq> 0"
  shows "EEVDFUpdateCurr c s =
    Some (s\<lparr>processes := (processes s)(c := (processes s c)\<lparr>exec_start := now_ns s, sum_exec_runtime := sum_exec_runtime (processes s c) + elapsed s c,
        cpu_time_accumulated := cpu_time_accumulated (processes s c) + elapsed s c, vruntime := charged s c\<rparr>),
      min_vruntime := requeue_min s c ps\<rparr>)"
proof (cases "elapsed s c = 0")
  case True
  then have "now_ns s = exec_start (processes s c)" by (simp add: elapsed_def)
  then show ?thesis using True hz by (simp add: EEVDFUpdateCurr_def GetNS_now Let_def elapsed_def charged_def requeue_min_def)
next
  case False
  define s1 where "s1 = upd_proc c (\<lambda>q. q\<lparr>exec_start := now_ns s, sum_exec_runtime := sum_exec_runtime q + elapsed s c,
    cpu_time_accumulated := cpu_time_accumulated q + elapsed s c, vruntime := charged s c\<rparr>) s"
  have "rq_holds s1 ps" unfolding s1_def by (rule rq_holds_upd [OF queue_goodD(1) [OF q]]) (use c in auto)
  moreover have k: "vruntime (processes s1 c) = charged s c" "\<And>p. p \<noteq> c \<Longrightarrow> rq_key s1 p = rq_key s p"
    by (simp_all add: s1_def upd_proc_def rq_key_def)
  ultimately have "(case rb_leftmost s1 of Some n \<Rightarrow> s1\<lparr>min_vruntime := vruntime (processes s1 (node_slot s1 n))\<rparr>
      | None \<Rightarrow> s1\<lparr>min_vruntime := charged s c\<rparr>) = (case ps of [] \<Rightarrow> s1\<lparr>min_vruntime := charged s c\<rparr> | p # _ \<Rightarrow> s1\<lparr>min_vruntime := rq_key s1 p\<rparr>)"
    using leftmost_key [of s1 ps, where x = "\<lambda>v. s1\<lparr>min_vruntime := v\<rparr>" and y = "s1\<lparr>min_vruntime := charged s c\<rparr>"] by simp
  then have "(case rb_leftmost s1 of Some n \<Rightarrow> s1\<lparr>min_vruntime := vruntime (processes s1 (node_slot s1 n))\<rparr>
      | None \<Rightarrow> s1\<lparr>min_vruntime := vruntime (processes s1 c)\<rparr>) = s1\<lparr>min_vruntime := requeue_min s c ps\<rparr>"
    unfolding k(1) using False c k(2) by (cases ps) (simp_all add: requeue_min_def)
  moreover have "EEVDFUpdateCurr c s = Some (case rb_leftmost s1 of Some n \<Rightarrow> s1\<lparr>min_vruntime := vruntime (processes s1 (node_slot s1 n))\<rparr>
      | None \<Rightarrow> s1\<lparr>min_vruntime := vruntime (processes s1 c)\<rparr>)"
    using False hz unfolding s1_def charged_def elapsed_def upd_proc_def by (simp add: EEVDFUpdateCurr_def GetNS_now Let_def upd_proc_def)
  ultimately show ?thesis by (simp add: s1_def upd_proc_def)
qed

text \<open>The interrupted process goes back into the queue.\<close>

lemma switch_out_run:
  assumes q: "queue_good s ps" and c: "c \<noteq> 0" "c < 64" "c \<notin> set ps" "proc_state (processes s c) = PROC_RUNNING" "good_pcb (sis_process_keys s c) (processes s c)"
    and rip: "reg_rip (cpu_regs s) \<noteq> 0" and hz: "APIC_HZ s \<noteq> 0" and a: "bit (active_process_bitmap s) c"
  shows "\<exists>s' pc. switch_out c s = Some s' \<and> queue_good s' ps \<and> ready_ok s' c \<and> processes s' = (processes s)(c := pc)
    \<and> proc_context pc = cpu_regs s \<and> proc_pid pc = proc_pid (processes s c) \<and> vruntime pc = charged s c \<and> cpu_time_accumulated pc = cpu_time_accumulated (processes s c) + elapsed s c
    \<and> min_vruntime s' = requeue_min s c ps
    \<and> sis_process_keys s' = sis_process_keys s \<and> active_process_bitmap s' = active_process_bitmap s \<and> current_slot s' = current_slot s
    \<and> runqueue_locked s' = runqueue_locked s \<and> APIC_HZ s' = APIC_HZ s \<and> APICticks s' = APICticks s \<and> pid_bitmap s' = pid_bitmap s"
proof -
  define s1 where "s1 = upd_proc c (\<lambda>p. p\<lparr>proc_context := cpu_regs s\<rparr>) s"
  have rb: "rb_node (processes s c) = None" using queue_goodD(6) [OF q] c(3) by blast
  have q1: "queue_good s1 ps" by (rule queue_good_upd [OF q c(3)]) (simp_all add: s1_def upd_proc_def rb)
  have eq: "elapsed s1 c = elapsed s c" "charged s1 c = charged s c" "requeue_min s1 c ps = requeue_min s c ps" "now_ns s1 = now_ns s" "APIC_HZ s1 \<noteq> 0"
    using c(3) hz by (cases ps; simp add: elapsed_def charged_def requeue_min_def now_ns_def s1_def upd_proc_def rq_key_def)+
  define pc where "pc = (processes s c)\<lparr>proc_context := cpu_regs s, exec_start := now_ns s, sum_exec_runtime := sum_exec_runtime (processes s c) + elapsed s c,
    cpu_time_accumulated := cpu_time_accumulated (processes s c) + elapsed s c, vruntime := charged s c, proc_state := PROC_READY,
    sis_seal := SISSealPCB ((processes s c)\<lparr>proc_state := PROC_READY\<rparr>) (sis_process_keys s c)\<rparr>"
  define s2 where "s2 = s\<lparr>processes := (processes s)(c := pc), min_vruntime := requeue_min s c ps,
    ready_process_bitmap := ready_process_bitmap s OR push_bit c 1\<rparr>"
  have "EEVDFUpdateCurr c s1 = Some (s1\<lparr>processes := (processes s1)(c := (processes s1 c)\<lparr>exec_start := now_ns s,
      sum_exec_runtime := sum_exec_runtime (processes s1 c) + elapsed s c,
      cpu_time_accumulated := cpu_time_accumulated (processes s1 c) + elapsed s c, vruntime := charged s c\<rparr>), min_vruntime := requeue_min s c ps\<rparr>)"
    using UpdateCurr_run [OF q1 c(3)] eq by simp
  moreover have "EEVDFPostflightCheck c s = Some (True, s)"
    using c by (simp add: EEVDFPostflightCheck_def SISVerifyPCB_def good_pcb_def EEVDF_MAX_PROCESSES_def)
  ultimately have "switch_out c s = Some s2"
    using c(4) by (simp add: switch_out_def Let_def s1_def [symmetric])
      (simp add: s1_def s2_def pc_def SISUpdateSeal_def upd_proc_def SISSealPCB_def)
  moreover have "queue_good (s\<lparr>processes := (processes s)(c := pc)\<rparr>) ps"
    by (rule queue_good_upd [OF q c(3) _ refl]) (simp add: pc_def rb)
  then have "queue_good s2 ps" by (rule queue_good_same) (simp_all add: s2_def rb_state.truncate_def)
  moreover have "ready_ok s2 c"
    using c(5) a rip by (simp add: ready_ok_def good_pcb_def s2_def pc_def SISSealPCB_def)
  ultimately show ?thesis by (intro exI [of _ s2] exI [of _ pc]) (simp add: s2_def pc_def)
qed

lemma requeue_run:
  assumes q: "queue_good s ps" and r: "ready_ok s c" "c \<noteq> 0" "c < 64" "c \<notin> set ps" and v: "v = max (vruntime (processes s c)) (min_vruntime s)"
  shows "\<exists>s' n d. EEVDFEnqueueTask c s = Some s' \<and> queue_good s' (queue_at v s c ps) \<and> same_sched s s'
    \<and> processes s' = (processes s)(c := (processes s c)\<lparr>vruntime := v, deadline := d, rb_node := Some n\<rparr>)"
proof -
  have "proc_state (processes s c) = PROC_READY" "weight (processes s c) = 1024" using r(1) by (simp_all add: ready_ok_def good_pcb_def)
  from enqueue_run [OF queue_goodD(2) [OF q] r(3,2,4) this v] obtain s' n d where s': "EEVDFEnqueueTask c s = Some s'"
      "rq_loaded s' (queue_at v s c ps)" "same_sched s s'"
      "processes s' = (processes s)(c := (processes s c)\<lparr>vruntime := v, deadline := d, rb_node := Some n\<rparr>)" by blast
  have "ready_ok s' x" if "x \<in> insert c (set ps)" for x
    using queue_goodD(3) [OF q, of x] r(1) that s'(4) same_schedD(4,7) [OF s'(3)]
    by (auto simp: ready_ok_def good_pcb_def SISSealPCB_def)
  then have "queue_good s' (queue_at v s c ps)"
    using s'(2) queue_at_split(1) [OF queue_goodD(1) [OF q]] by (simp add: queue_good_def)
  then show ?thesis using s' by blast
qed

section \<open>Cleaning up\<close>

lemma bit_clear: "p \<noteq> i \<Longrightarrow> bit (w AND NOT (2 ^ i) :: u64) p = bit w p"
  by (auto simp: bit_and_iff bit_not_iff bit_exp_iff dest: bit_imp_le_length)

definition live_same :: "sched \<Rightarrow> sched \<Rightarrow> bool" where
  "live_same s s' \<longleftrightarrow> (\<forall>p. processes s' p = processes s p \<or> proc_state (processes s p) = PROC_ZOMBIE \<and> processes s' p = zero_pcb) \<and> current_slot s' = current_slot s
     \<and> cpu_regs s' = cpu_regs s \<and> APICticks s' = APICticks s \<and> APIC_HZ s' = APIC_HZ s \<and> min_vruntime s' = min_vruntime s
     \<and> sis_process_keys s' = sis_process_keys s"

lemma reap_ok:
  assumes ok: "sched_ok s ps" and z: "proc_state (processes s i) = PROC_ZOMBIE"
    and c: "current_slot s = 0 \<or> proc_state (processes s (current_slot s)) \<noteq> PROC_ZOMBIE"
  shows "sched_ok (reap i s) ps" "live_same s (reap i s)"
proof -
  have q: "queue_good s ps" using ok by (simp add: sched_ok_def)
  have i: "i \<notin> set ps" using queue_goodD(3) [OF q, of i] z by (auto simp: ready_ok_def)
  have pr: "processes (reap i s) = (processes s)(i := zero_pcb)" by (simp add: reap_def Let_def upd_proc_def FreeSlotFast_def)
  have f: "sis_process_keys (reap i s) = sis_process_keys s" "current_slot (reap i s) = current_slot s" "current_process (reap i s) = current_process s"
      "runqueue_locked (reap i s) = runqueue_locked s" "APIC_HZ (reap i s) = APIC_HZ s" "pid_bitmap (reap i s) = pid_bitmap s" "cpu_regs (reap i s) = cpu_regs s"
      "APICticks (reap i s) = APICticks s" "min_vruntime (reap i s) = min_vruntime s"
    by (simp_all add: reap_def Let_def upd_proc_def FreeSlotFast_def)
  have b: "p \<noteq> i \<Longrightarrow> bit (active_process_bitmap (reap i s)) p = bit (active_process_bitmap s) p" for p
    by (simp add: reap_def Let_def upd_proc_def FreeSlotFast_def bit_clear)
  have rb: "rb_node (processes s i) = None" using queue_goodD(6) [OF q] i by blast
  have "ready_ok (reap i s) p" if "p \<in> set ps" for p
    using queue_goodD(3) [OF q that] that i b [of p] by (auto simp: ready_ok_def pr f)
  then have "queue_good (reap i s) ps"
    by (intro queue_good_frame [OF q])
      (use i rb in \<open>auto simp: pr zero_pcb_def, simp_all add: reap_def Let_def upd_proc_def FreeSlotFast_def\<close>)
  then show "sched_ok (reap i s) ps" using ok c z b by (auto simp: sched_ok_def current_ok_def pr f)
  show "live_same s (reap i s)" using z by (auto simp: live_same_def pr f)
qed

lemma live_sameD:
  assumes "live_same s s'"
  shows "proc_state (processes s p) \<noteq> PROC_ZOMBIE \<Longrightarrow> processes s' p = processes s p" "current_slot s' = current_slot s"
  using assms unfolding live_same_def by metis+

lemma live_same_refl: "live_same s s"
  by (simp add: live_same_def)

lemma live_same_trans: "live_same s s1 \<Longrightarrow> live_same s1 s2 \<Longrightarrow> live_same s s2"
  unfolding live_same_def by metis

lemma remove_ok:
  assumes "RemoveFromTerminationQueueAtomic s = (i, s')" "sched_ok s ps"
  shows "sched_ok s' ps" "live_same s s'" "processes s' = processes s" "current_slot s' = current_slot s"
proof -
  have e: "s' = s \<or> s' = s\<lparr>term_queue_head := (term_queue_head s + 1) mod EEVDF_MAX_PROCESSES, term_queue_count := term_queue_count s - 1\<rparr>"
    using assms(1) by (auto simp: RemoveFromTerminationQueueAtomic_def Let_def split: if_splits)
  then show "processes s' = processes s" "current_slot s' = current_slot s" "live_same s s'" by (auto simp: live_same_def)
  show "sched_ok s' ps" by (rule sched_ok_same [OF assms(2)]) (use e in \<open>auto simp: rb_state.truncate_def\<close>)
qed

lemma cleanup_ok:
  assumes "sched_ok s ps" "current_slot s = 0 \<or> proc_state (processes s (current_slot s)) \<noteq> PROC_ZOMBIE"
  shows "sched_ok (cleanup_loop n s) ps \<and> live_same s (cleanup_loop n s)"
  using assms
proof (induction n s rule: cleanup_loop.induct)
  case (1 n s)
  show ?case
  proof (cases "term_queue_count s > 0 \<and> n > 0")
    case True
    obtain i s1 where r: "RemoveFromTerminationQueueAtomic s = (i, s1)" by fastforce
    note r1 = remove_ok [OF r 1(3)]
    have c1: "current_slot s1 = 0 \<or> proc_state (processes s1 (current_slot s1)) \<noteq> PROC_ZOMBIE" using 1(4) r1(3,4) by simp
    consider "i \<ge> EEVDF_MAX_PROCESSES" | "i < EEVDF_MAX_PROCESSES" "proc_state (processes s1 i) \<noteq> PROC_ZOMBIE"
      | "i < EEVDF_MAX_PROCESSES" "proc_state (processes s1 i) = PROC_ZOMBIE" by linarith
    then show ?thesis
    proof cases
      case 1
      then show ?thesis using True r r1 by (simp add: cleanup_loop.simps [of n s])
    next
      case 2
      then have "cleanup_loop n s = cleanup_loop n s1" using True r by (simp add: cleanup_loop.simps [of n s])
      then show ?thesis using "1.IH"(1) [OF True r [symmetric] _ 2(2) r1(1) c1] 2(1) live_same_trans [OF r1(2)] by simp
    next
      case 3
      have e: "cleanup_loop n s = cleanup_loop (n - 1) (reap i s1)" using 3 True r by (simp add: cleanup_loop.simps [of n s])
      note p = reap_ok [OF r1(1) 3(2) c1]
      have c2: "current_slot (reap i s1) = 0 \<or> proc_state (processes (reap i s1) (current_slot (reap i s1))) \<noteq> PROC_ZOMBIE"
        using c1 live_sameD [OF p(2)] by auto
      have "sched_ok (cleanup_loop (n - 1) (reap i s1)) ps \<and> live_same (reap i s1) (cleanup_loop (n - 1) (reap i s1))"
        using "1.IH"(2) [OF True r [symmetric] _ _ p(1) c2] 3 by simp
      then show ?thesis unfolding e using live_same_trans [OF r1(2) p(2)] live_same_trans by blast
    qed
  next
    case False
    then have "cleanup_loop n s = s" by (auto simp: cleanup_loop.simps [of n s])
    then show ?thesis using 1(3) by (simp add: live_same_refl)
  qed
qed

section \<open>The timer interrupt\<close>

text \<open>The processes that can run: those in the queue, and the interrupted one if it is alive.\<close>

definition ready_queue :: "sched \<Rightarrow> nat list \<Rightarrow> nat list" where
  "ready_queue s ps =
     (let c = current_slot s
      in if c \<noteq> 0 \<and> proc_state (processes s c) = PROC_RUNNING then queue_at (requeue_key s c ps) s c ps else ps)"

lemma requeue_prev_run:
  assumes ok: "sched_ok s ps" and rip: "reg_rip (cpu_regs s) \<noteq> 0" and c: "current_slot s = c" "c \<noteq> 0"
  shows "\<exists>s' pc. requeue_prev c s = Some s' \<and> queue_good s' (ready_queue s ps) \<and> runqueue_locked s'
    \<and> processes s' = (processes s)(c := pc) \<and> (proc_state (processes s c) = PROC_RUNNING \<longrightarrow> proc_context pc = cpu_regs s \<and> vruntime pc = requeue_key s c ps)
    \<and> (proc_state (processes s c) \<noteq> PROC_RUNNING \<longrightarrow> pc = processes s c) \<and> proc_pid pc = proc_pid (processes s c)
    \<and> min_vruntime s' = (if proc_state (processes s c) = PROC_RUNNING then requeue_min s c ps else min_vruntime s)
    \<and> sis_process_keys s' = sis_process_keys s \<and> active_process_bitmap s' = active_process_bitmap s
    \<and> APIC_HZ s' = APIC_HZ s \<and> APICticks s' = APICticks s \<and> pid_bitmap s' = pid_bitmap s"
proof -
  have q: "queue_good s ps" and co: "current_ok s c" and f: "c < 64" "\<not> runqueue_locked s" "APIC_HZ s \<noteq> 0"
    using ok c by (auto simp: sched_ok_def)
  have cp: "c \<notin> set ps" using queue_goodD(6) [OF q] co by (simp add: current_ok_def)
  show ?thesis
  proof (cases "proc_state (processes s c) = PROC_RUNNING")
    case True
    then have g: "good_pcb (sis_process_keys s c) (processes s c)" "bit (active_process_bitmap s) c" using co by (simp_all add: current_ok_def)
    from switch_out_run [OF q c(2) f(1) cp True g(1) rip f(3) g(2)] obtain s1 pc where s1: "switch_out c s = Some s1" "queue_good s1 ps"
        "ready_ok s1 c" "processes s1 = (processes s)(c := pc)" "proc_context pc = cpu_regs s" "vruntime pc = charged s c" "proc_pid pc = proc_pid (processes s c)"
        "min_vruntime s1 = requeue_min s c ps" "sis_process_keys s1 = sis_process_keys s" "active_process_bitmap s1 = active_process_bitmap s"
        "runqueue_locked s1 = runqueue_locked s" "APIC_HZ s1 = APIC_HZ s" "APICticks s1 = APICticks s" "pid_bitmap s1 = pid_bitmap s" by blast
    define s2 where "s2 = s1\<lparr>runqueue_locked := True\<rparr>"
    have q2: "queue_good s2 ps" unfolding s2_def by (rule queue_good_same [OF s1(2)]) (simp_all add: rb_state.truncate_def)
    have v: "requeue_key s c ps = max (vruntime (processes s2 c)) (min_vruntime s2)" by (simp add: s2_def s1 requeue_key_def)
    have "ready_ok s2 c" using s1(3) by (simp add: ready_ok_def s2_def)
    from requeue_run [OF q2 this c(2) f(1) cp v] obtain s3 n d where s3: "EEVDFEnqueueTask c s2 = Some s3"
        "queue_good s3 (queue_at (requeue_key s c ps) s2 c ps)" "same_sched s2 s3"
        "processes s3 = (processes s2)(c := (processes s2 c)\<lparr>vruntime := requeue_key s c ps, deadline := d, rb_node := Some n\<rparr>)" by blast
    have "queue_at (requeue_key s c ps) s2 c ps = queue_at (requeue_key s c ps) s c ps"
      by (rule queue_at_cong) (use cp in \<open>auto simp: rq_key_def s2_def s1(4)\<close>)
    then have "queue_at (requeue_key s c ps) s2 c ps = ready_queue s ps" using True c by (simp add: ready_queue_def)
    moreover have "requeue_prev c s = Some s3"
      using s1(1,3,11) s3(1) f(2) by (simp add: requeue_prev_def lock_rq_def s2_def ready_ok_def)
    ultimately show ?thesis
      using s3 True same_schedD(1,4,5,7,8,9,10) [OF s3(3)]
      by (intro exI [of _ s3] exI [of _ "processes s3 c"]) (simp add: s2_def s1)
  next
    case False
    then have z: "proc_state (processes s c) = PROC_ZOMBIE" using co by (simp add: current_ok_def)
    have "queue_good (s\<lparr>runqueue_locked := True\<rparr>) ps" by (rule queue_good_same [OF q]) (simp_all add: rb_state.truncate_def)
    then show ?thesis using z f(2) c
      by (intro exI [of _ "s\<lparr>runqueue_locked := True\<rparr>"] exI [of _ "processes s c"])
        (simp add: requeue_prev_def switch_out_def lock_rq_def ready_queue_def)
  qed
qed

lemma ready_queue_cong:
  assumes "processes s' = processes s" "current_slot s' = current_slot s" "min_vruntime s' = min_vruntime s" "load_weight s' = load_weight s"
    "APICticks s' = APICticks s" "APIC_HZ s' = APIC_HZ s"
  shows "ready_queue s' ps = ready_queue s ps" "requeue_key s' c ps = requeue_key s c ps" "requeue_min s' c ps = requeue_min s c ps"
proof -
  have k: "rq_key s' = rq_key s" using assms(1) by (simp add: rq_key_def fun_eq_iff)
  have e: "elapsed s' c = elapsed s c" "charged s' c = charged s c" for c
    using assms by (simp_all add: elapsed_def charged_def now_ns_def)
  show m: "requeue_min s' c ps = requeue_min s c ps" for c
    using assms(3) by (cases ps) (simp_all add: requeue_min_def e k)
  show r: "requeue_key s' c ps = requeue_key s c ps" for c by (simp add: requeue_key_def e m)
  show "ready_queue s' ps = ready_queue s ps"
    using assms queue_at_cong [of ps s' s] k r by (simp add: ready_queue_def Let_def)
qed

definition sched_entry :: "sched \<Rightarrow> sched" where
  "sched_entry s =
     (cerberus_step (s\<lparr>scheduler_calls := scheduler_calls s + 1, tick_counter := inc_low (tick_counter s)\<rparr>))\<lparr>rq_clock := now_ns s, exec_clock := now_ns s\<rparr>"

lemma sched_entry_fields [simp]:
  "rb_state.truncate (sched_entry s) = rb_state.truncate s" "processes (sched_entry s) = processes s"
  "load_weight (sched_entry s) = load_weight s" "nr_running (sched_entry s) = nr_running s"
  "sis_process_keys (sched_entry s) = sis_process_keys s" "active_process_bitmap (sched_entry s) = active_process_bitmap s"
  "current_slot (sched_entry s) = current_slot s" "current_process (sched_entry s) = current_process s"
  "runqueue_locked (sched_entry s) = runqueue_locked s" "APIC_HZ (sched_entry s) = APIC_HZ s" "APICticks (sched_entry s) = APICticks s"
  "pid_bitmap (sched_entry s) = pid_bitmap s" "min_vruntime (sched_entry s) = min_vruntime s" "cpu_regs (sched_entry s) = cpu_regs s"
  by (simp_all add: sched_entry_def cerberus_step_def Let_def rb_state.truncate_def)

text \<open>Up to the choice: the queue holds every process that can run.\<close>

definition sched_min :: "sched \<Rightarrow> nat list \<Rightarrow> u64" where
  "sched_min s ps = (let c = current_slot s in if c \<noteq> 0 \<and> proc_state (processes s c) = PROC_RUNNING then requeue_min s c ps else min_vruntime s)"

lemma sched_front:
  assumes ok: "sched_ok s ps" and rip: "reg_rip (cpu_regs s) \<noteq> 0" and c: "c = current_slot s"
  shows "\<exists>s'. (if c \<noteq> 0 \<and> c < EEVDF_MAX_PROCESSES then requeue_prev c (sched_entry s) else Some (sched_entry s)) = Some s'
    \<and> queue_good s' (ready_queue s ps) \<and> runqueue_locked s' = (c \<noteq> 0)
    \<and> (\<forall>p. p \<noteq> c \<longrightarrow> processes s' p = processes s p) \<and> proc_pid (processes s' c) = proc_pid (processes s c)
    \<and> (c = 0 \<longrightarrow> processes s' = processes s) \<and> (c \<noteq> 0 \<and> proc_state (processes s c) = PROC_RUNNING \<longrightarrow> proc_context (processes s' c) = cpu_regs s \<and> vruntime (processes s' c) = requeue_key s c ps)
    \<and> min_vruntime s' = sched_min s ps
    \<and> APIC_HZ s' = APIC_HZ s \<and> APICticks s' = APICticks s \<and> pid_bitmap s' = pid_bitmap s"
proof (cases "c = 0")
  case True
  have "queue_good s ps" using ok by (simp add: sched_ok_def)
  then have "queue_good (sched_entry s) ps" by (rule queue_good_same) simp_all
  then show ?thesis using ok True c by (simp add: ready_queue_def sched_ok_def sched_min_def)
next
  case False
  have e: "sched_ok (sched_entry s) ps" by (rule sched_ok_same [OF ok]) simp_all
  have lt: "c < EEVDF_MAX_PROCESSES" using ok c by (simp add: sched_ok_def EEVDF_MAX_PROCESSES_def)
  have k: "ready_queue (sched_entry s) ps = ready_queue s ps" "requeue_key (sched_entry s) c ps = requeue_key s c ps"
      "requeue_min (sched_entry s) c ps = requeue_min s c ps"
    by (rule ready_queue_cong; simp)+
  obtain s' pc where "requeue_prev c (sched_entry s) = Some s'" "queue_good s' (ready_queue s ps)" "runqueue_locked s'"
      "processes s' = (processes s)(c := pc)" "proc_state (processes s c) = PROC_RUNNING \<longrightarrow> proc_context pc = cpu_regs s \<and> vruntime pc = requeue_key s c ps"
      "min_vruntime s' = (if proc_state (processes s c) = PROC_RUNNING then requeue_min s c ps else min_vruntime s)" "proc_pid pc = proc_pid (processes s c)"
      "APIC_HZ s' = APIC_HZ s" "APICticks s' = APICticks s" "pid_bitmap s' = pid_bitmap s"
    using requeue_prev_run [OF e, of c] rip c False unfolding k sched_entry_fields by blast
  then show ?thesis using lt False c by (intro exI [of _ s']) (simp add: sched_min_def)
qed

definition sched_exit :: "sched \<Rightarrow> sched" where
  "sched_exit s = (if scheduler_calls s mod 100 = 0 then EEVDFCleanupTerminatedProcess s else s)"

lemma sched_exit_ok:
  assumes "sched_ok s ps" "current_slot s = 0 \<or> proc_state (processes s (current_slot s)) = PROC_RUNNING"
  shows "sched_ok (sched_exit s) ps" "live_same s (sched_exit s)"
  using cleanup_ok [of s ps 3] assms by (auto simp: sched_exit_def EEVDFCleanupTerminatedProcess_def live_same_refl)

definition sched_back :: "nat \<Rightarrow> sched \<Rightarrow> sched option" where
  "sched_back c s = do {
     (n, s) \<leftarrow> choose_next s;
     s \<leftarrow> switch_in n ((if c \<noteq> 0 \<and> c < EEVDF_MAX_PROCESSES then unlock_rq s else s)\<lparr>current_slot := n, current_process := n\<rparr>);
     Some (sched_exit s)
   }"

lemma EEVDFSchedule_phases:
  assumes "APIC_HZ s \<noteq> 0" "c = current_slot s"
  shows "EEVDFSchedule s = do {
    s1 \<leftarrow> (if c \<noteq> 0 \<and> c < EEVDF_MAX_PROCESSES then requeue_prev c (sched_entry s) else Some (sched_entry s));
    sched_back c s1
  }"
  using assms by (simp add: EEVDFSchedule_def GetNS_now Let_def sched_entry_def sched_exit_def sched_back_def)

text \<open>Without a process to run the processor idles.\<close>

lemma sched_back_idle:
  assumes q: "queue_good s []" and l: "runqueue_locked s = (c \<noteq> 0)" and f: "APIC_HZ s \<noteq> 0" "length (pid_bitmap s) = 2" "c < EEVDF_MAX_PROCESSES"
  shows "\<exists>s'. sched_back c s = Some s' \<and> sched_ok s' [] \<and> current_slot s' = 0 \<and> APIC_HZ s' = APIC_HZ s \<and> APICticks s' = APICticks s
    \<and> min_vruntime s' = min_vruntime s \<and> (\<forall>p. proc_state (processes s p) \<noteq> PROC_ZOMBIE \<longrightarrow> processes s' p = processes s p)
    \<and> (\<forall>p. proc_state (processes s p) = PROC_ZOMBIE \<longrightarrow> processes s' p = processes s p \<or> processes s' p = zero_pcb)"
proof -
  define s2 where "s2 = (if c \<noteq> 0 \<and> c < EEVDF_MAX_PROCESSES then unlock_rq s else s)\<lparr>current_slot := 0, current_process := 0\<rparr>"
  have "queue_good s2 []" by (rule queue_good_same [OF q]) (simp_all add: s2_def unlock_rq_def rb_state.truncate_def)
  then have ok2: "sched_ok s2 []" using f l by (simp add: sched_ok_def s2_def unlock_rq_def)
  have s2f: "current_slot s2 = 0" "APIC_HZ s2 = APIC_HZ s" "APICticks s2 = APICticks s" "min_vruntime s2 = min_vruntime s"
    by (simp_all add: s2_def unlock_rq_def)
  have "sched_back c s = Some (sched_exit s2)"
    unfolding sched_back_def using choose_next_empty [OF q] by (simp add: switch_in_def s2_def)
  moreover have "sched_ok (sched_exit s2) []" "live_same s2 (sched_exit s2)" using sched_exit_ok [OF ok2] by (simp_all add: s2_def)
  moreover have "processes s2 = processes s" by (simp add: s2_def unlock_rq_def)
  ultimately show ?thesis unfolding live_same_def by (intro exI [of _ "sched_exit s2"]) (metis (no_types, lifting) s2f)
qed

text \<open>Otherwise the head of the queue runs.\<close>

lemma sched_back_run:
  assumes q: "queue_good s (n # r)" and l: "runqueue_locked s = (c \<noteq> 0)" and f: "APIC_HZ s \<noteq> 0" "length (pid_bitmap s) = 2" "c < EEVDF_MAX_PROCESSES"
  shows "\<exists>s'. sched_back c s = Some s' \<and> sched_ok s' r \<and> current_slot s' = n \<and> proc_state (processes s' n) = PROC_RUNNING
    \<and> exec_start (processes s' n) = now_ns s \<and> min_vruntime s' = min_vruntime s \<and> APIC_HZ s' = APIC_HZ s \<and> APICticks s' = APICticks s
    \<and> cpu_regs s' = proc_context (processes s n)
    \<and> (\<forall>p \<in> set (n # r). vruntime (processes s' p) = vruntime (processes s p) \<and> proc_context (processes s' p) = proc_context (processes s p))
    \<and> (\<forall>p. proc_state (processes s p) = PROC_ZOMBIE \<longrightarrow> processes s' p = processes s p \<or> processes s' p = zero_pcb)
    \<and> (\<forall>p. proc_state (processes s p) \<noteq> PROC_ZOMBIE \<longrightarrow> proc_pid (processes s' p) = proc_pid (processes s p))"
proof -
  note d1 = queue_goodD [OF q]
  have n: "n \<noteq> 0" "n < 64" "n \<notin> set r" "ready_ok s n" using d1(3,4) [of n] d1(5) rq_holds_sorted [OF d1(1)] by auto
  obtain s2 cb where s2: "choose_next s = Some (n, s2)" "queue_good s2 r" "same_sched (s\<lparr>cerberus := cb\<rparr>) s2"
      "processes s2 = (processes s)(n := (processes s n)\<lparr>rb_node := None\<rparr>)" using choose_next_run [OF q] by blast
  note d2 = same_schedD [OF s2(3)]
  define s3 where "s3 = (if c \<noteq> 0 \<and> c < EEVDF_MAX_PROCESSES then unlock_rq s2 else s2)\<lparr>current_slot := n, current_process := n\<rparr>"
  have q3: "queue_good s3 r" by (rule queue_good_same [OF s2(2)]) (simp_all add: s3_def unlock_rq_def rb_state.truncate_def)
  have p3: "processes s3 = processes s2" "sis_process_keys s3 = sis_process_keys s" "APIC_HZ s3 = APIC_HZ s" "APICticks s3 = APICticks s"
      "pid_bitmap s3 = pid_bitmap s" "current_slot s3 = n" "current_process s3 = n" "\<not> runqueue_locked s3" "active_process_bitmap s3 = active_process_bitmap s"
      "min_vruntime s3 = min_vruntime s"
    using d2 l f(3) by (simp_all add: s3_def unlock_rq_def)
  have g: "good_pcb (sis_process_keys s3 n) (processes s3 n)" "rb_node (processes s3 n) = None" "bit (active_process_bitmap s3) n"
    using n(4) by (simp_all add: p3 s2(4) ready_ok_def good_pcb_def SISSealPCB_def)
  obtain s4 sl where s4: "switch_in n s3 = Some s4" "queue_good s4 r" "good_pcb (sis_process_keys s4 n) (processes s4 n)"
      "processes s4 = (processes s3)(n := (processes s3 n)\<lparr>proc_state := PROC_RUNNING,
        sis_seal := SISSealPCB ((processes s3 n)\<lparr>proc_state := PROC_RUNNING\<rparr>) (sis_process_keys s3 n), exec_start := now_ns s3, slice_ns := sl\<rparr>)"
      "cpu_regs s4 = proc_context (processes s3 n)" "active_process_bitmap s4 = active_process_bitmap s3" "current_slot s4 = current_slot s3"
      "current_process s4 = current_process s3" "runqueue_locked s4 = runqueue_locked s3" "APIC_HZ s4 = APIC_HZ s3" "APICticks s4 = APICticks s3"
      "pid_bitmap s4 = pid_bitmap s3" "min_vruntime s4 = min_vruntime s3"
    using switch_in_run [OF q3 g(1) n(1,3) _ g(2)] f(1) p3(3) by metis
  have ok4: "sched_ok s4 r" using s4 g p3 n f by (simp add: sched_ok_def current_ok_def)
  have ex: "sched_ok (sched_exit s4) r" "live_same s4 (sched_exit s4)" using sched_exit_ok [OF ok4] s4(4,7) p3(6) by auto
  have run: "sched_back c s = Some (sched_exit s4)" unfolding sched_back_def using s2(1) s4(1) by (simp add: s3_def)
  have live: "processes (sched_exit s4) p = processes s4 p" if "p \<in> set (n # r)" for p
    using that queue_goodD(3) [OF s4(2), of p] s4(4) by (intro live_sameD(1) [OF ex(2)]) (auto simp: ready_ok_def)
  have dead: "processes (sched_exit s4) p = processes s p \<or> processes (sched_exit s4) p = zero_pcb" if "proc_state (processes s p) = PROC_ZOMBIE" for p
  proof -
    have "p \<noteq> n" using that n(4) by (auto simp: ready_ok_def)
    then have "processes s4 p = processes s p" by (simp add: s4(4) p3(1) s2(4))
    then show ?thesis using ex(2) unfolding live_same_def by metis
  qed
  have pids: "proc_pid (processes (sched_exit s4) p) = proc_pid (processes s p)" if "proc_state (processes s p) \<noteq> PROC_ZOMBIE" for p
  proof -
    have "processes (sched_exit s4) p = processes s4 p" using that by (intro live_sameD(1) [OF ex(2)]) (simp add: s4(4) p3(1) s2(4))
    then show ?thesis by (simp add: s4(4) p3(1) s2(4))
  qed
  have now: "now_ns s3 = now_ns s" by (simp add: now_ns_def p3)
  show ?thesis
    using run ex s4 p3 live now dead pids by (intro exI [of _ "sched_exit s4"]) (simp add: live_same_def s2(4))
qed

lemma schedule_idle:
  assumes ok: "sched_ok s ps" and rip: "reg_rip (cpu_regs s) \<noteq> 0" and e: "ready_queue s ps = []"
  shows "\<exists>s'. EEVDFSchedule s = Some s' \<and> sched_ok s' [] \<and> current_slot s' = 0 \<and> APIC_HZ s' = APIC_HZ s \<and> APICticks s' = APICticks s
    \<and> min_vruntime s' = sched_min s ps"
proof -
  define c where "c = current_slot s"
  obtain s1 where s1: "(if c \<noteq> 0 \<and> c < EEVDF_MAX_PROCESSES then requeue_prev c (sched_entry s) else Some (sched_entry s)) = Some s1"
      "queue_good s1 []" "runqueue_locked s1 = (c \<noteq> 0)" "min_vruntime s1 = sched_min s ps" "APIC_HZ s1 = APIC_HZ s" "APICticks s1 = APICticks s"
      "pid_bitmap s1 = pid_bitmap s"
    using sched_front [OF ok rip c_def] unfolding e by blast
  have hz: "APIC_HZ s \<noteq> 0" "length (pid_bitmap s) = 2" "c < EEVDF_MAX_PROCESSES"
    using ok by (simp_all add: sched_ok_def c_def EEVDF_MAX_PROCESSES_def)
  from sched_back_idle [OF s1(2,3) _ _ hz(3)] hz(1,2) show ?thesis
    unfolding EEVDFSchedule_phases [OF hz(1) c_def] s1(1) by (auto simp: s1(4-7))
qed

lemma schedule_run:
  assumes ok: "sched_ok s ps" and rip: "reg_rip (cpu_regs s) \<noteq> 0" and e: "ready_queue s ps = n # r" and c: "c = current_slot s"
  shows "\<exists>s'. EEVDFSchedule s = Some s' \<and> sched_ok s' r \<and> current_slot s' = n \<and> proc_state (processes s' n) = PROC_RUNNING
    \<and> exec_start (processes s' n) = now_ns s \<and> min_vruntime s' = sched_min s ps \<and> APIC_HZ s' = APIC_HZ s \<and> APICticks s' = APICticks s
    \<and> cpu_regs s' = (if n = c then cpu_regs s else proc_context (processes s n))
    \<and> (\<forall>p \<in> set (n # r). vruntime (processes s' p) = (if p = c then requeue_key s c ps else vruntime (processes s p))
        \<and> proc_context (processes s' p) = (if p = c then cpu_regs s else proc_context (processes s p)))
    \<and> (\<forall>p. proc_state (processes s p) \<noteq> PROC_ZOMBIE \<longrightarrow> proc_pid (processes s' p) = proc_pid (processes s p))"
proof -
  obtain s1 where s1: "(if c \<noteq> 0 \<and> c < EEVDF_MAX_PROCESSES then requeue_prev c (sched_entry s) else Some (sched_entry s)) = Some s1"
      "queue_good s1 (n # r)" "runqueue_locked s1 = (c \<noteq> 0)" "\<And>p. p \<noteq> c \<Longrightarrow> processes s1 p = processes s p"
      "c \<noteq> 0 \<and> proc_state (processes s c) = PROC_RUNNING \<Longrightarrow> proc_context (processes s1 c) = cpu_regs s \<and> vruntime (processes s1 c) = requeue_key s c ps"
      "APIC_HZ s1 = APIC_HZ s" "APICticks s1 = APICticks s" "pid_bitmap s1 = pid_bitmap s" "min_vruntime s1 = sched_min s ps"
      "proc_pid (processes s1 c) = proc_pid (processes s c)" "c = 0 \<longrightarrow> processes s1 = processes s"
    using sched_front [OF ok rip c] unfolding e by blast
  have f: "APIC_HZ s \<noteq> 0" "length (pid_bitmap s) = 2" "c < EEVDF_MAX_PROCESSES" and q: "queue_good s ps"
    using ok by (simp_all add: sched_ok_def c EEVDF_MAX_PROCESSES_def)
  have run: "c \<noteq> 0 \<and> proc_state (processes s c) = PROC_RUNNING" if "c \<in> set (n # r)"
  proof (rule ccontr)
    assume a: "\<not> (c \<noteq> 0 \<and> proc_state (processes s c) = PROC_RUNNING)"
    then have "c \<in> set ps" using e that by (auto simp: ready_queue_def c Let_def split: if_splits)
    then show False using queue_goodD(5,6) [OF q] ok c by (auto simp: sched_ok_def current_ok_def)
  qed
  have k: "vruntime (processes s1 p) = (if p = c then requeue_key s c ps else vruntime (processes s p))
      \<and> proc_context (processes s1 p) = (if p = c then cpu_regs s else proc_context (processes s p))" if "p \<in> set (n # r)" for p
    using s1(4,5) run that by (cases "p = c") auto
  have st: "proc_state (processes s1 p) \<noteq> PROC_ZOMBIE \<and> proc_pid (processes s1 p) = proc_pid (processes s p)" if "proc_state (processes s p) \<noteq> PROC_ZOMBIE" for p
  proof (cases "p = c \<and> c \<noteq> 0")
    case True
    then have "proc_state (processes s c) = PROC_RUNNING" using that ok c by (auto simp: sched_ok_def current_ok_def)
    then have "c \<in> set (n # r)" using True c e queue_at_split(1) [OF queue_goodD(1) [OF q]] unfolding ready_queue_def Let_def by (metis insertI1)
    then have "ready_ok s1 c" by (rule queue_goodD(3) [OF s1(2)])
    then show ?thesis using True s1(10) by (simp add: ready_ok_def)
  qed (use that s1(4,11) in auto)
  have now: "now_ns s1 = now_ns s" by (simp add: now_ns_def s1(6,7))
  obtain s' where s': "sched_back c s1 = Some s'" "sched_ok s' r" "current_slot s' = n" "proc_state (processes s' n) = PROC_RUNNING"
      "exec_start (processes s' n) = now_ns s1" "min_vruntime s' = min_vruntime s1" "APIC_HZ s' = APIC_HZ s1" "APICticks s' = APICticks s1"
      "cpu_regs s' = proc_context (processes s1 n)"
      "\<forall>p \<in> set (n # r). vruntime (processes s' p) = vruntime (processes s1 p) \<and> proc_context (processes s' p) = proc_context (processes s1 p)"
      "\<forall>p. proc_state (processes s1 p) \<noteq> PROC_ZOMBIE \<longrightarrow> proc_pid (processes s' p) = proc_pid (processes s1 p)"
    using sched_back_run [OF s1(2,3) _ _ f(3)] f(1,2) s1(6,8) by metis
  have "EEVDFSchedule s = Some s'" unfolding EEVDFSchedule_phases [OF f(1) c] s1(1) using s'(1) by simp
  then show ?thesis using s' k [of n] s1(6,7,9) now k st by (intro exI [of _ s']) auto
qed

section \<open>Termination\<close>

definition zombie_of :: "TerminationReason \<Rightarrow> u32 \<Rightarrow> u64 \<Rightarrow> u64 \<Rightarrow> EEVDFProcessControlBlock \<Rightarrow> EEVDFProcessControlBlock" where
  "zombie_of reason code ticks key p =
     p\<lparr>term_reason := reason, exit_code := code, termination_time := ticks, proc_state := PROC_ZOMBIE,
       sis_seal := SISSealPCB (p\<lparr>proc_state := PROC_ZOMBIE\<rparr>) key\<rparr>"

lemma make_zombie_fields:
  "processes (make_zombie i r code s) = (processes s)(i := zombie_of r code (ucast (APICticks s)) (sis_process_keys s i) (processes s i))"
  "rb_state.truncate ((make_zombie i r code s)\<lparr>processes := f\<rparr>) = rb_state.truncate (s\<lparr>processes := f\<rparr>)"
  "load_weight (make_zombie i r code s) = load_weight s" "nr_running (make_zombie i r code s) = nr_running s"
  "sis_process_keys (make_zombie i r code s) = sis_process_keys s" "active_process_bitmap (make_zombie i r code s) = active_process_bitmap s"
  "current_slot (make_zombie i r code s) = current_slot s" "current_process (make_zombie i r code s) = current_process s"
  "runqueue_locked (make_zombie i r code s) = runqueue_locked s" "APIC_HZ (make_zombie i r code s) = APIC_HZ s"
  "APICticks (make_zombie i r code s) = APICticks s" "pid_bitmap (make_zombie i r code s) = pid_bitmap s"
  "term_queue_count (make_zombie i r code s) = term_queue_count s" "min_vruntime (make_zombie i r code s) = min_vruntime s"
  by (simp_all add: make_zombie_def Let_def upd_proc_def SISUpdateSeal_def zombie_of_def SISSealPCB_def rb_state.truncate_def)

text \<open>The invariant, except that the process to be terminated may be in any state if it is the current one.\<close>

definition sched_but :: "nat \<Rightarrow> sched \<Rightarrow> nat list \<Rightarrow> bool" where
  "sched_but i s ps \<longleftrightarrow> queue_good s ps \<and> (current_slot s \<noteq> 0 \<and> current_slot s \<noteq> i \<longrightarrow> current_ok s (current_slot s))
     \<and> (current_slot s = i \<and> i \<noteq> 0 \<longrightarrow> bit (active_process_bitmap s) i) \<and> current_slot s < 64
     \<and> current_process s = current_slot s \<and> \<not> runqueue_locked s \<and> APIC_HZ s \<noteq> 0 \<and> length (pid_bitmap s) = 2"

lemma sched_ok_but: "sched_ok s ps \<Longrightarrow> sched_but i s ps"
  by (auto simp: sched_ok_def sched_but_def current_ok_def)

lemma kill_run:
  assumes ok: "sched_but i s ps" and i: "i < 64"
  shows "\<exists>s'. locked_dequeue i (make_zombie i r code s) = Some s' \<and> sched_ok s' (remove1 i ps)
    \<and> processes s' = (processes s)(i := (zombie_of r code (ucast (APICticks s)) (sis_process_keys s i) (processes s i))\<lparr>rb_node := None\<rparr>)
    \<and> term_queue_count s' = term_queue_count s \<and> pid_bitmap s' = pid_bitmap s \<and> current_slot s' = current_slot s
    \<and> active_process_bitmap s' = active_process_bitmap s \<and> same_time s s'"
proof -
  define z where "z = zombie_of r code (ucast (APICticks s)) (sis_process_keys s i) (processes s i)"
  define s1 where "s1 = (make_zombie i r code s)\<lparr>runqueue_locked := True\<rparr>"
  have q: "queue_good s ps" and f: "\<not> runqueue_locked s" "current_slot s < 64" "current_process s = current_slot s" "APIC_HZ s \<noteq> 0" "length (pid_bitmap s) = 2"
    "current_slot s \<noteq> 0 \<and> current_slot s \<noteq> i \<longrightarrow> current_ok s (current_slot s)" "current_slot s = i \<and> i \<noteq> 0 \<longrightarrow> bit (active_process_bitmap s) i"
    using ok by (simp_all add: sched_but_def)
  note d = queue_goodD [OF q]
  have zf: "rb_node z = rb_node (processes s i)" "vruntime z = vruntime (processes s i)" "weight z = weight (processes s i)" "proc_state z = PROC_ZOMBIE"
    by (simp_all add: z_def zombie_of_def)
  have p1: "processes s1 = (processes s)(i := z)" by (simp add: s1_def z_def make_zombie_fields)
  have t1: "rb_state.truncate (s1\<lparr>processes := processes s\<rparr>) = rb_state.truncate s"
    using make_zombie_fields(2) [where f = "processes s"] by (simp add: s1_def rb_state.truncate_def)
  have "rq_holds s1 ps" by (rule rq_holds_frame [OF d(1)]) (use t1 zf in \<open>auto simp: p1 rb_state.truncate_def\<close>)
  then have l1: "rq_loaded s1 ps" using d(2) by (simp add: rq_loaded_def s1_def make_zombie_fields)
  have "\<exists>s2. EEVDFDequeueTask i s1 = Some s2 \<and> rq_loaded s2 (remove1 i ps) \<and> same_sched s1 s2 \<and> processes s2 = (processes s)(i := z\<lparr>rb_node := None\<rparr>)"
  proof (cases "i \<in> set ps")
    case True
    have "weight (processes s1 i) = 1024" using d(3) [OF True] by (simp add: p1 zf ready_ok_def good_pcb_def)
    then show ?thesis using dequeue_run [OF l1 True] p1 by auto
  next
    case False
    then have "rb_node z = None" using d(6) zf by simp
    then have "z\<lparr>rb_node := None\<rparr> = z" by simp
    then show ?thesis using dequeue_absent [OF l1 False] l1 p1 remove1_idem [OF False] by simp
  qed
  then obtain s2 where s2: "EEVDFDequeueTask i s1 = Some s2" "rq_loaded s2 (remove1 i ps)" "same_sched s1 s2"
      "processes s2 = (processes s)(i := z\<lparr>rb_node := None\<rparr>)" by blast
  define s3 where "s3 = unlock_rq s2"
  have e3: "processes s3 = (processes s)(i := z\<lparr>rb_node := None\<rparr>)" "sis_process_keys s3 = sis_process_keys s" "active_process_bitmap s3 = active_process_bitmap s"
      "current_slot s3 = current_slot s" "current_process s3 = current_process s" "\<not> runqueue_locked s3" "APIC_HZ s3 = APIC_HZ s"
      "pid_bitmap s3 = pid_bitmap s" "term_queue_count s3 = term_queue_count s" "same_time s s3"
    using same_schedD [OF s2(3)] s2(4) by (simp_all add: s3_def unlock_rq_def s1_def make_zombie_fields same_time_def)
  have "i \<notin> set (remove1 i ps)" using rq_holds_sorted [OF d(1)] by simp
  then have "queue_good s2 (remove1 i ps)"
    using s2(2,4) d(3) same_schedD(4,7) [OF s2(3)]
    by (auto simp: queue_good_def ready_ok_def s1_def make_zombie_fields dest: notin_set_remove1)
  then have "queue_good s3 (remove1 i ps)" by (rule queue_good_same) (simp_all add: s3_def unlock_rq_def rb_state.truncate_def)
  then have "sched_ok s3 (remove1 i ps)" using f e3 zf by (auto simp: sched_ok_def current_ok_def)
  moreover have "locked_dequeue i (make_zombie i r code s) = Some s3"
    using f(1) s2(1) by (simp add: locked_dequeue_def lock_rq_def make_zombie_fields s3_def s1_def [symmetric])
  ultimately show ?thesis using e3 unfolding z_def by blast
qed

lemma find_pid:
  assumes "EEVDFGetCurrentProcessByPID pid s = Some i"
  shows "i < 64" "proc_pid (processes s i) = pid" "proc_state (processes s i) \<noteq> PROC_TERMINATED"
  using assms by (auto simp: EEVDFGetCurrentProcessByPID_def find_Some_iff EEVDF_MAX_PROCESSES_def)

text \<open>Accounting after the process left the queue.\<close>

definition retire :: "u32 \<Rightarrow> nat \<Rightarrow> sched \<Rightarrow> sched" where
  "retire pid i s =
     (let s = ProcFSUnregisterProcess pid (s\<lparr>total_processes := total_processes s - 1\<rparr>)
      in s\<lparr>cerberus := CerberusUnregisterProcess (proc_pid (processes s i)) (cerberus s)\<rparr>)"

lemma retire_fields [simp]:
  "rb_state.truncate (retire pid i s) = rb_state.truncate s" "processes (retire pid i s) = processes s"
  "load_weight (retire pid i s) = load_weight s" "nr_running (retire pid i s) = nr_running s"
  "sis_process_keys (retire pid i s) = sis_process_keys s" "active_process_bitmap (retire pid i s) = active_process_bitmap s"
  "current_slot (retire pid i s) = current_slot s" "current_process (retire pid i s) = current_process s"
  "runqueue_locked (retire pid i s) = runqueue_locked s" "APIC_HZ (retire pid i s) = APIC_HZ s" "APICticks (retire pid i s) = APICticks s"
  "pid_bitmap (retire pid i s) = pid_bitmap s" "term_queue_count (retire pid i s) = term_queue_count s"
  "proc_list (retire pid i s) = remove1 pid (proc_list s)" "min_vruntime (retire pid i s) = min_vruntime s"
  by (simp_all add: retire_def Let_def ProcFSUnregisterProcess_def rb_state.truncate_def)

lemma AddToTerm_ok:
  assumes "sched_ok s ps" "AddToTerminationQueueAtomic i s = Some s'"
  shows "sched_ok s' ps" "processes s' = processes s" "term_queue_count s' = Suc (term_queue_count s)" "pid_bitmap s' = pid_bitmap s"
    "current_slot s' = current_slot s" "active_process_bitmap s' = active_process_bitmap s" "same_time s s'"
proof -
  have e: "s' = s\<lparr>termination_queue := (termination_queue s)[term_queue_tail s := i],
      term_queue_tail := (term_queue_tail s + 1) mod EEVDF_MAX_PROCESSES, term_queue_count := term_queue_count s + 1\<rparr>"
    using assms(2) by (simp add: AddToTerminationQueueAtomic_def Let_def split: if_splits)
  show "sched_ok s' ps" by (rule sched_ok_same [OF assms(1)]) (simp_all add: e rb_state.truncate_def)
  show "processes s' = processes s" "term_queue_count s' = Suc (term_queue_count s)" "pid_bitmap s' = pid_bitmap s"
    "current_slot s' = current_slot s" "active_process_bitmap s' = active_process_bitmap s" "same_time s s'" by (simp_all add: e same_time_def)
qed

definition dead_pcb :: "TerminationReason \<Rightarrow> u32 \<Rightarrow> sched \<Rightarrow> nat \<Rightarrow> EEVDFProcessControlBlock" where
  "dead_pcb r code s i = (zombie_of r code (ucast (APICticks s)) (sis_process_keys s i) (processes s i))\<lparr>rb_node := None\<rparr>"

lemma dead_pcb_fields [simp]:
  "proc_state (dead_pcb r code s i) = PROC_ZOMBIE" "proc_pid (dead_pcb r code s i) = proc_pid (processes s i)"
  "term_reason (dead_pcb r code s i) = r" "exit_code (dead_pcb r code s i) = code"
  by (simp_all add: dead_pcb_def zombie_of_def)

lemma ASTerminate_run:
  assumes ok: "sched_but i s ps" and f: "EEVDFGetCurrentProcessByPID pid s = Some i"
  shows "case EEVDFASTerminate pid s of None \<Rightarrow> term_queue_count s \<ge> 64
    | Some s' \<Rightarrow> sched_ok s' (remove1 i ps) \<and> processes s' = (processes s)(i := dead_pcb TERM_SECURITY 666 s i) \<and> current_slot s' = current_slot s \<and> same_time s s'"
proof -
  note i = find_pid [OF f]
  obtain s1 where s1: "locked_dequeue i (make_zombie i TERM_SECURITY 666 s) = Some s1" "sched_ok s1 (remove1 i ps)"
      "processes s1 = (processes s)(i := dead_pcb TERM_SECURITY 666 s i)" "term_queue_count s1 = term_queue_count s" "current_slot s1 = current_slot s"
      "same_time s s1"
    using kill_run [OF ok i(1)] unfolding dead_pcb_def by blast
  have run: "EEVDFASTerminate pid s = map_option (retire pid i) (AddToTerminationQueueAtomic i s1)"
    using f i(3) s1(1) by (cases "AddToTerminationQueueAtomic i s1") (simp_all add: EEVDFASTerminate_def retire_def Let_def)
  show ?thesis
  proof (cases "AddToTerminationQueueAtomic i s1")
    case None
    then show ?thesis using run s1(4) by (simp add: AddToTerminationQueueAtomic_def Let_def EEVDF_MAX_PROCESSES_def split: if_splits)
  next
    case (Some s2)
    note a = AddToTerm_ok [OF s1(2) Some]
    have "sched_ok (retire pid i s2) (remove1 i ps)" by (rule sched_ok_same [OF a(1)]) simp_all
    then show ?thesis using run Some a s1 by (simp add: same_time_def)
  qed
qed

definition free_pid :: "nat \<Rightarrow> sched \<Rightarrow> sched" where
  "free_pid n s = s\<lparr>pid_bitmap := (pid_bitmap s)[n div 64 := pid_bitmap s ! (n div 64) AND NOT (push_bit (n mod 64) 1)]\<rparr>"

lemma free_pid_truncate: "rb_state.truncate (free_pid n s) = rb_state.truncate s"
  by (simp add: free_pid_def rb_state.truncate_def)

text \<open>A permitted termination, on every process that is still alive.\<close>

lemma TerminateProcess_run:
  assumes ok: "sched_ok s ps" and f: "EEVDFGetCurrentProcessByPID pid s = Some i"
    and alive: "proc_state (processes s i) \<noteq> PROC_DYING" "proc_state (processes s i) \<noteq> PROC_ZOMBIE"
    and may: "r = TERM_SECURITY \<or> may_terminate (current_slot s) i s"
  shows "case EEVDFTerminateProcess pid r code s of None \<Rightarrow> term_queue_count s \<ge> 64 \<or> unat pid \<ge> 128
    | Some s' \<Rightarrow> sched_ok s' (remove1 i ps) \<and> processes s' = (processes s)(i := dead_pcb r code s i) \<and> current_slot s' = current_slot s \<and> same_time s s'
        \<and> \<not> bit (pid_bitmap s' ! (unat pid div 64)) (unat pid mod 64)"
proof -
  note i = find_pid [OF f]
  obtain s1 where s1: "locked_dequeue i (make_zombie i r code s) = Some s1" "sched_ok s1 (remove1 i ps)"
      "processes s1 = (processes s)(i := dead_pcb r code s i)" "term_queue_count s1 = term_queue_count s" "current_slot s1 = current_slot s"
      "same_time s s1"
    using kill_run [OF sched_ok_but [OF ok] i(1)] unfolding dead_pcb_def by blast
  have cur: "EEVDFGetCurrentProcess s = Some (current_slot s)" using ok by (simp add: EEVDFGetCurrentProcess_def sched_ok_def EEVDF_MAX_PROCESSES_def)
  have len: "length (pid_bitmap s1) = 2" using s1(2) by (simp add: sched_ok_def)
  have pid1: "proc_pid (processes s1 i) = pid" using i(2) by (simp add: s1(3))
  have run: "EEVDFTerminateProcess pid r code s = (case AddToTerminationQueueAtomic i s1 of None \<Rightarrow> None
      | Some s2 \<Rightarrow> if unat pid div 64 \<ge> 2 then None else Some (retire pid i (free_pid (unat pid) s2)))"
  proof (cases "AddToTerminationQueueAtomic i s1")
    case (Some s2)
    note a = AddToTerm_ok [OF s1(2) Some]
    show ?thesis using f alive i(3) s1(1) cur may Some a(2,4) pid1 len
      by (auto simp: EEVDFTerminateProcess_def retire_def free_pid_def Let_def)
  qed (use f alive i(3) s1(1) cur may in \<open>auto simp: EEVDFTerminateProcess_def Let_def\<close>)
  show ?thesis
  proof (cases "AddToTerminationQueueAtomic i s1")
    case None
    then show ?thesis using run s1(4) by (simp add: AddToTerminationQueueAtomic_def Let_def EEVDF_MAX_PROCESSES_def split: if_splits)
  next
    case (Some s2)
    note a = AddToTerm_ok [OF s1(2) Some]
    have "sched_ok (retire pid i (free_pid (unat pid) s2)) (remove1 i ps)"
      by (rule sched_ok_same [OF a(1)]) (simp add: free_pid_truncate, simp_all add: free_pid_def)
    moreover have "\<not> bit ((pid_bitmap s2)[k := pid_bitmap s2 ! k AND NOT (push_bit m 1)] ! k) m" if "k < 2" "m < 64" for k m
      using that len a(4) by (simp add: bit_and_iff bit_not_iff bit_exp_iff)
    ultimately show ?thesis using run Some a s1 by (auto simp: free_pid_def same_time_def)
  qed
qed

lemma TerminateProcess_denied:
  assumes ok: "sched_ok s ps" and f: "EEVDFGetCurrentProcessByPID pid s = Some i"
    and alive: "proc_state (processes s i) \<noteq> PROC_DYING" "proc_state (processes s i) \<noteq> PROC_ZOMBIE"
    and no: "r \<noteq> TERM_SECURITY" "\<not> may_terminate (current_slot s) i s"
  shows "EEVDFTerminateProcess pid r code s = EEVDFASTerminate (proc_pid (processes s (current_slot s))) s"
proof -
  have "EEVDFGetCurrentProcess s = Some (current_slot s)" using ok by (simp add: EEVDFGetCurrentProcess_def sched_ok_def EEVDF_MAX_PROCESSES_def)
  then show ?thesis using f alive find_pid(3) [OF f] no by (simp add: EEVDFTerminateProcess_def)
qed

lemma TerminateProcess_dead:
  assumes "EEVDFGetCurrentProcessByPID pid s = None \<or>
    (\<exists>i. EEVDFGetCurrentProcessByPID pid s = Some i \<and> proc_state (processes s i) \<in> {PROC_DYING, PROC_ZOMBIE})"
  shows "EEVDFTerminateProcess pid r code s = Some s"
  using assms by (auto simp: EEVDFTerminateProcess_def)

section \<open>Creation\<close>

lemma c_text_prints:
  assumes "prints (int k) fmt args text" "k < 2 ^ 31 - 1" "n = word_of_nat (k + 1)"
  shows "c_text n fmt args = Some (take k text)"
  using snprintf_prints [OF assms(1,2)] by (simp add: c_text_def assms(3) min_def)

lemma path_text:
  assumes "n < 2 ^ 31"
  shows "c_text 256 [0x25, 0x73, 0x2f, 0x25, 0x64] [Str (Some dir), Num (word_of_nat n)] = Some (take 255 (dir @ 0x2f # decimal n))"
proof (rule c_text_prints)
  show "prints (int 255) [0x25, 0x73, 0x2f, 0x25, 0x64] [Str (Some dir), Num (word_of_nat n)] (dir @ 0x2f # decimal n)"
    using prints_string [OF prints_char [OF prints_int [OF prints_Nil assms]]] by simp
qed simp_all

lemma process_name_total: "i < 64 \<Longrightarrow> \<exists>nm. process_name name i = Some nm"
proof -
  assume i: "i < 64"
  have c: "c_text 64 [0x25, 0x73] [Str (Some n)] = Some (take 63 n)" for n
    using c_text_prints [OF prints_string [OF prints_Nil], where k = 63 and n = 64] by simp
  have "prints (int 1023) [0x70, 0x72, 0x6f, 0x63, 0x25, 0x64] [Num (word_of_nat i)] ([0x70, 0x72, 0x6f, 0x63] @ decimal i)"
    using prints_char [OF prints_char [OF prints_char [OF prints_char [OF prints_int [OF prints_Nil, of i]]]]] i by simp
  from snprintf_prints [OF this]
  have "\<exists>n. FormatS [0x70, 0x72, 0x6f, 0x63, 0x25, 0x64] [Num (word_of_nat i)] = Some n"
    by (simp add: FormatS_def snprintf_def)
  then show ?thesis by (cases name) (auto simp: process_name_def c)
qed

lemma FindFreeSlot_some:
  assumes "FindFreeSlotFast s = (Some i, s')"
  shows "i < 64" "i \<noteq> 0" "\<not> bit (active_process_bitmap s) i" "s' = s\<lparr>active_process_bitmap := active_process_bitmap s OR push_bit i 1\<rparr>"
proof -
  define av where "av = NOT (active_process_bitmap s) AND NOT 1"
  have a: "av \<noteq> 0" "i = ctz av" "s' = s\<lparr>active_process_bitmap := active_process_bitmap s OR push_bit i 1\<rparr>"
    using assms by (auto simp: FindFreeSlotFast_def Let_def av_def split: if_splits)
  then show "i < 64" using ctz_less [OF a(1)] by simp
  have "bit av i" using a bit_ctz by blast
  then show "i \<noteq> 0" "\<not> bit (active_process_bitmap s) i" by (auto simp: av_def bit_and_iff bit_not_iff)
  show "s' = s\<lparr>active_process_bitmap := active_process_bitmap s OR push_bit i 1\<rparr>" by (rule a(3))
qed

lemma alloc_pid_some:
  assumes "alloc_pid s = Some (n, s')"
  shows "0 < n" "n < 64" "\<not> bit (pid_bitmap s ! (n div 64)) (n mod 64)"
    "s' = s\<lparr>pid_bitmap := (pid_bitmap s)[n div 64 := pid_bitmap s ! (n div 64) OR push_bit (n mod 64) 1]\<rparr>"
  using assms by (auto simp: alloc_pid_def find_Some_iff and_exp_eq_0_iff_not_bit EEVDF_MAX_PROCESSES_def split: option.splits)

lemma init_process_fields:
  assumes "s' = init_process i pcb a s"
  shows "\<exists>key. sis_process_keys s' = (sis_process_keys s)(i := key) \<and> processes s' = (processes s)(i := pcb\<lparr>sis_seal := SISSealPCB pcb key,
      token := (token pcb)\<lparr>pcb_hash := SISSealPCB pcb key\<rparr>\<rparr>)"
    "rb_state.truncate (s'\<lparr>processes := f\<rparr>) = rb_state.truncate (s\<lparr>processes := f\<rparr>)"
    "load_weight s' = load_weight s" "nr_running s' = nr_running s" "active_process_bitmap s' = active_process_bitmap s"
    "current_slot s' = current_slot s" "current_process s' = current_process s" "runqueue_locked s' = runqueue_locked s" "APIC_HZ s' = APIC_HZ s"
    "APICticks s' = APICticks s" "pid_bitmap s' = pid_bitmap s" "min_vruntime s' = min_vruntime s" "process_count s' = process_count s + 1"
  unfolding assms
  by (simp_all add: init_process_def Let_def SISGenerateProcessKey_def SISUpdateSeal_def upd_proc_def ProcFSRegisterProcess_def SISSealPCB_def
      rb_state.truncate_def split: prod.split) blast

lemma new_pcb_fields [simp]:
  "proc_state (new_pcb nm path pid stack entry priv caps cr ticks v now) = PROC_READY"
  "proc_pid (new_pcb nm path pid stack entry priv caps cr ticks v now) = pid"
  "vruntime (new_pcb nm path pid stack entry priv caps cr ticks v now) = v"
  "rb_node (new_pcb nm path pid stack entry priv caps cr ticks v now) = None"
  "weight (new_pcb nm path pid stack entry priv caps cr ticks v now) = 1024"
  "proc_stack (new_pcb nm path pid stack entry priv caps cr ticks v now) = stack"
  "privilege_level (new_pcb nm path pid stack entry priv caps cr ticks v now) = priv"
  "capabilities (token (new_pcb nm path pid stack entry priv caps cr ticks v now)) = caps"
  "reg_rip (proc_context (new_pcb nm path pid stack entry priv caps cr ticks v now)) = entry"
  by (simp_all add: new_pcb_def Let_def zero_pcb_def EEVDFNiceToWeight_def clamp_nice_def eevdf_nice_to_weight_def)

lemma CreateSecureProcess_run:
  assumes ok: "sched_ok s ps" and a: "entry \<noteq> 0" "stack \<noteq> 0" "priv = 0 \<longrightarrow> caps AND EEVDF_CAP_CORE \<noteq> 0" "unat (process_count s) < 64"
    and slot: "FindFreeSlotFast s = (Some i, s1)" and pid: "alloc_pid s1 = Some (n, s2)"
  shows "\<exists>s' q. EEVDFCreateSecureProcess name entry priv caps stack al s = Some (word_of_nat n, s')
    \<and> sched_ok s' (queue_at (min_vruntime s) s i ps) \<and> processes s' = (processes s)(i := q)
    \<and> proc_pid q = word_of_nat n \<and> privilege_level q = priv \<and> capabilities (token q) = caps \<and> vruntime q = min_vruntime s
    \<and> current_slot s' = current_slot s \<and> same_time s s'"
proof -
  note f = FindFreeSlot_some [OF slot] and g = alloc_pid_some [OF pid]
  have q: "queue_good s ps" and o: "current_slot s < 64" "current_process s = current_slot s" "\<not> runqueue_locked s" "APIC_HZ s \<noteq> 0"
      "length (pid_bitmap s) = 2" "current_slot s \<noteq> 0 \<longrightarrow> current_ok s (current_slot s)"
    using ok by (simp_all add: sched_ok_def)
  note d = queue_goodD [OF q]
  have i: "i \<notin> set ps" "i \<noteq> current_slot s" using d(3) [of i] f(2,3) o(6) by (auto simp: ready_ok_def current_ok_def)
  obtain nm where nm: "process_name name i = Some nm" using process_name_total [OF f(1)] by blast
  define path where "path = take 255 (RuntimeProcesses @ 0x2f # decimal n)"
  have path: "c_text 256 [0x25, 0x73, 0x2f, 0x25, 0x64] [Str (Some RuntimeProcesses), Num (word_of_nat n)] = Some path"
    unfolding path_def by (rule path_text) (use g(2) in simp)
  define cr where "cr = proc_pid (processes s (current_slot s))"
  define pcb where "pcb = new_pcb nm path (word_of_nat n) stack entry priv caps cr (ucast (APICticks s)) (min_vruntime s) (now_ns s)"
  define s3 where "s3 = init_process i pcb al s2"
  note e = init_process_fields [OF s3_def]
  obtain key where k: "sis_process_keys s3 = (sis_process_keys s)(i := key)"
      "processes s3 = (processes s)(i := pcb\<lparr>sis_seal := SISSealPCB pcb key, token := (token pcb)\<lparr>pcb_hash := SISSealPCB pcb key\<rparr>\<rparr>)"
    using e(1) by (auto simp: f(4) g(4))
  define s4 where "s4 = s3\<lparr>runqueue_locked := True\<rparr>"
  have p4: "processes s4 = processes s3" "sis_process_keys s4 = sis_process_keys s3" "min_vruntime s4 = min_vruntime s"
      "active_process_bitmap s4 = active_process_bitmap s OR push_bit i 1" "current_slot s4 = current_slot s" "current_process s4 = current_process s"
      "APIC_HZ s4 = APIC_HZ s" "length (pid_bitmap s4) = 2" "APICticks s4 = APICticks s"
    using o(5) by (simp_all add: s4_def e f(4) g(4))
  have bits: "bit (active_process_bitmap s4) p \<longleftrightarrow> bit (active_process_bitmap s) p \<or> p = i" if "p < 64" for p
    using that f(1) by (auto simp: p4 bit_or_iff bit_exp_iff)
  have t4: "rb_state.truncate (s4\<lparr>processes := processes s\<rparr>) = rb_state.truncate s"
    using e(2) [where f = "processes s"] by (simp add: s4_def f(4) g(4) rb_state.truncate_def)
  have rb: "rb_node (processes s i) = None" using d(6) i(1) by simp
  have r4: "ready_ok s4 i"
    using a bits [OF f(1)] by (simp add: ready_ok_def good_pcb_def p4 k pcb_def SISSealPCB_def)
  have q4: "queue_good s4 ps"
  proof (rule queue_good_frame [OF q])
    show "ready_ok s4 p" if "p \<in> set ps" "ready_ok s p" for p
      using that i(1) bits [of p] d(4) [of p] by (auto simp: ready_ok_def p4 k)
  qed (use t4 rb i(1) in \<open>auto simp: p4 k pcb_def rb_state.truncate_def s4_def e f(4) g(4)\<close>)
  have v: "min_vruntime s = max (vruntime (processes s4 i)) (min_vruntime s4)" by (simp add: p4 k pcb_def)
  from requeue_run [OF q4 r4 f(2,1) i(1) v] obtain s5 m dl where s5: "EEVDFEnqueueTask i s4 = Some s5"
      "queue_good s5 (queue_at (min_vruntime s) s4 i ps)" "same_sched s4 s5"
      "processes s5 = (processes s4)(i := (processes s4 i)\<lparr>vruntime := min_vruntime s, deadline := dl, rb_node := Some m\<rparr>)" by blast
  note d5 = same_schedD [OF s5(3)]
  have "queue_at (min_vruntime s) s4 i ps = queue_at (min_vruntime s) s i ps"
    by (rule queue_at_cong) (use i(1) in \<open>auto simp: rq_key_def p4 k\<close>)
  moreover have "queue_good (unlock_rq s5) (queue_at (min_vruntime s) s4 i ps)"
    by (rule queue_good_same [OF s5(2)]) (simp_all add: unlock_rq_def rb_state.truncate_def)
  ultimately have "sched_ok (unlock_rq s5) (queue_at (min_vruntime s) s i ps)"
    using o d5 p4 i(2) bits [OF o(1)] by (auto simp: sched_ok_def current_ok_def unlock_rq_def s5(4) k)
  moreover have "EEVDFCreateSecureProcess name entry priv caps stack al s = Some (word_of_nat n, unlock_rq s5)"
  proof -
    have "current_process s2 = current_slot s" "processes s2 = processes s" "APIC_HZ s2 = APIC_HZ s" "APICticks s2 = APICticks s" "min_vruntime s2 = min_vruntime s"
      using o(2) by (simp_all add: f(4) g(4))
    moreover have "GetNS s2 = Some (now_ns s)" using o(4) by (simp add: GetNS_def now_ns_def f(4) g(4))
    moreover have "lock_rq s3 = Some s4" using o(3) by (simp add: lock_rq_def s4_def e f(4) g(4))
    ultimately show ?thesis
      using a slot pid nm path o(1) s5(1) i(2)
      by (simp add: EEVDFCreateSecureProcess_def EEVDFGetCurrentProcess_def EEVDF_MAX_PROCESSES_def Let_def cr_def [symmetric] pcb_def [symmetric] s3_def [symmetric])
  qed
  ultimately show ?thesis
    by (intro exI [of _ "unlock_rq s5"] exI [of _ "processes s5 i"])
      (simp add: unlock_rq_def s5(4) p4 k pcb_def d5 same_time_def)
qed

section \<open>Start\<close>

text \<open>The state at power-on, as far as the start relies on it.\<close>

definition power_on :: "sched \<Rightarrow> bool" where
  "power_on s \<longleftrightarrow> active_process_bitmap s = 0 \<and> pid_bitmap s = [0, 0] \<and> current_process s = 0 \<and> \<not> runqueue_locked s \<and> APIC_HZ s \<noteq> 0"

lemma SchedInit_run:
  assumes on: "power_on s" and a: "locks" "shell \<noteq> 0" "stack \<noteq> 0"
  shows "\<exists>s'. EEVDFSchedInit locks mon addr shell stack al0 al1 s = Some s' \<and> sched_ok s' [1]
    \<and> min_vruntime s' = 0 \<and> vruntime (processes s' 1) = 0 \<and> current_slot s' = 0 \<and> APICticks s' = APICticks s \<and> APIC_HZ s' = APIC_HZ s
    \<and> proc_pid (processes s' 0) = 0 \<and> proc_pid (processes s' 1) = 1 \<and> proc_state (processes s' 0) = PROC_RUNNING"
proof -
  define s0 where "s0 = clear_queue (s\<lparr>cerberus := CerberusInit mon (cerberus s)\<rparr>)"
  define path where "path = take 255 (RuntimeServices @ 0x2f # decimal 0)"
  have path: "c_text 256 [0x25, 0x73, 0x2f, 0x25, 0x64] [Str (Some RuntimeServices), Num 0] = Some path"
    using path_text [of 0 RuntimeServices] by (simp add: path_def)
  define s1 where "s1 = SISUpdateSeal 0 (SISGenerateProcessKey 0 0
    ((upd_proc 0 (\<lambda>_. idle_pcb path (ucast (APICticks s0)) (now_ns s0)) s0)\<lparr>sis_boot_entropy := now_ns s0 XOR addr\<rparr>))"
  define s2 where "s2 = (ProcFSRegisterProcess al0 0 s1)\<lparr>process_count := 1, active_process_bitmap := active_process_bitmap s1 OR 1\<rparr>"
  have f: "current_slot s2 = 0" "current_process s2 = 0" "\<not> runqueue_locked s2" "APIC_HZ s2 \<noteq> 0" "pid_bitmap s2 = [0, 0]" "active_process_bitmap s2 = 1"
      "process_count s2 = 1" "min_vruntime s2 = 0" "load_weight s2 = 0" "nr_running s2 = 0"
    using on by (simp_all add: s2_def s1_def s0_def power_on_def clear_queue_def upd_proc_def SISGenerateProcessKey_def SISUpdateSeal_def ProcFSRegisterProcess_def Let_def)
  have "rq_empty s2"
    by (simp add: rq_empty_def s2_def s1_def s0_def clear_queue_def upd_proc_def SISGenerateProcessKey_def SISUpdateSeal_def ProcFSRegisterProcess_def Let_def idle_pcb_def zero_pcb_def)
  then have ok2: "sched_ok s2 []"
    using f rq_empty_holds [of s2] by (simp add: sched_ok_def queue_good_def rq_loaded_def)
  have "ctz (NOT 1 AND NOT 1 :: u64) = 1" by (simp add: ctz_def upt_conv_Cons)
  then have slot: "FindFreeSlotFast s2 = (Some 1, s2\<lparr>active_process_bitmap := active_process_bitmap s2 OR push_bit 1 1\<rparr>)" (is "_ = (_, ?s3)")
    by (simp add: FindFreeSlotFast_def f Let_def)
  have "List.find (\<lambda>i. pid_bitmap ?s3 ! (i div 64) AND push_bit (i mod 64) 1 = 0) [1..<EEVDF_MAX_PROCESSES] = Some 1"
    by (simp add: f EEVDF_MAX_PROCESSES_def upt_conv_Cons)
  then obtain s4 where pid: "alloc_pid ?s3 = Some (1, s4)" by (simp add: alloc_pid_def)
  have "(0 :: u8) = 0 \<longrightarrow> EEVDF_CAP_CORE AND EEVDF_CAP_CORE \<noteq> 0"
    by (simp add: EEVDF_CAP_CORE_def EEVDF_CAP_IMMUNE_def EEVDF_CAP_CRITICAL_def EEVDF_CAP_SUPERVISOR_def)
  from CreateSecureProcess_run [OF ok2 a(2,3) this _ slot pid, where name = "Some [0x56, 0x46, 0x53, 0x68, 0x65, 0x6c, 0x6c]" and al = al1] f(7)
  obtain s5 where s5: "EEVDFCreateSecureProcess (Some [0x56, 0x46, 0x53, 0x68, 0x65, 0x6c, 0x6c]) shell 0 EEVDF_CAP_CORE stack al1 s2 = Some (1, s5)"
      "sched_ok s5 (queue_at (min_vruntime s2) s2 1 [])" "vruntime (processes s5 1) = 0" "min_vruntime s5 = 0" "current_slot s5 = 0"
      "APICticks s5 = APICticks s2" "APIC_HZ s5 = APIC_HZ s2" "processes s5 0 = processes s2 0" "proc_pid (processes s5 1) = 1"
    by (auto simp: f same_time_def)
  have now: "GetNS s0 = Some (now_ns s0)" using on by (simp add: GetNS_def now_ns_def s0_def clear_queue_def power_on_def)
  have al: "active_process_bitmap (ProcFSRegisterProcess al0 0 s1) = active_process_bitmap s1" by (simp add: ProcFSRegisterProcess_def)
  have "EEVDFSchedInit locks mon addr shell stack al0 al1 s = Some s5"
    using a(1) s5(1) path now
    by (simp add: EEVDFSchedInit_def Let_def s0_def [symmetric] s1_def [symmetric] al s2_def [symmetric])
  moreover have "APICticks s2 = APICticks s" "APIC_HZ s2 = APIC_HZ s" "proc_pid (processes s2 0) = 0" "proc_state (processes s2 0) = PROC_RUNNING"
    by (simp_all add: s2_def s1_def s0_def clear_queue_def upd_proc_def SISGenerateProcessKey_def SISUpdateSeal_def ProcFSRegisterProcess_def Let_def idle_pcb_def zero_pcb_def)
  ultimately show ?thesis using s5 by (simp add: queue_at_def)
qed

end
