(* ===== verification/EevdfRun.thy ===== *)
theory EevdfRun
  imports EevdfSched
begin

text \<open>
  Runs of the EEVDF scheduler: the states it can reach from power-on by timer interrupts, creation and
  termination of processes in any order, what the invariant gives there, and fairness.
\<close>

unbundle bit_operations_syntax

section \<open>Time\<close>

definition ns_at :: "u32 \<Rightarrow> u32 \<Rightarrow> u64" where
  "ns_at t hz = (ucast t * 1000000000) div ucast hz"

lemma unat_32: "unat (w :: u32) < 4294967296"
  using unsigned_less [of w, where 'a = nat] by simp

lemma unat_ucast_32_64: "unat (ucast (w :: u32) :: u64) = unat w"
  using unat_32 [of w] by (simp add: unsigned_ucast_eq take_bit_nat_eq_self)

lemma unat_ns_at: "unat (ns_at t hz) = unat t * 1000000000 div unat hz"
proof -
  have t: "unat (ucast t :: u64) = unat t" "unat (ucast hz :: u64) = unat hz" by (simp_all add: unat_ucast_32_64)
  have "unat t < 2 ^ 32" using unat_32 [of t] by simp
  then have "unat t * 1000000000 < 2 ^ 64" by simp
  then have "unat ((ucast t :: u64) * 1000000000) = unat t * 1000000000"
    using t(1) by (subst unat_mult_lem [THEN iffD1]) simp_all
  then show ?thesis by (simp add: ns_at_def unat_div t(2))
qed

text \<open>One tick in nanoseconds, rounded down.\<close>

definition tick_ns :: "u32 \<Rightarrow> nat" where
  "tick_ns hz = 1000000000 div unat hz"

lemma ns_at_step:
  assumes "unat t' = Suc (unat t)" "hz \<noteq> 0"
  shows "unat (ns_at t hz) + tick_ns hz \<le> unat (ns_at t' hz)" "unat (ns_at t' hz) \<le> unat (ns_at t hz) + 1000000001"
proof -
  have e: "unat (ns_at t' hz) = (unat t * 1000000000 + 1000000000) div unat hz" using assms(1) by (simp add: unat_ns_at add.commute)
  have hz: "0 < unat hz" using assms(2) by (simp add: unat_gt_0)
  show "unat (ns_at t hz) + tick_ns hz \<le> unat (ns_at t' hz)"
    using e unat_ns_at [of t hz] div_add1_eq [of "unat t * 1000000000" 1000000000 "unat hz"] by (simp add: tick_ns_def)
  have "unat t * 1000000000 mod unat hz + 1000000000 mod unat hz < unat hz * 2"
    using mod_less_divisor [OF hz, of "unat t * 1000000000"] mod_less_divisor [OF hz, of 1000000000] by linarith
  then have "(unat t * 1000000000 mod unat hz + 1000000000 mod unat hz) div unat hz \<le> 1" using less_mult_imp_div_less [of "unat t * 1000000000 mod unat hz + 1000000000 mod unat hz" 2 "unat hz"] by (simp add: mult.commute)
  then have "(unat t * 1000000000 + 1000000000) div unat hz \<le> unat t * 1000000000 div unat hz + 1000000000 div unat hz + 1"
    by (subst div_add1_eq) simp
  also have "\<dots> \<le> unat t * 1000000000 div unat hz + 1000000001" using hz by (simp add: div_le_dividend)
  finally show "unat (ns_at t' hz) \<le> unat (ns_at t hz) + 1000000001" using e by (simp add: unat_ns_at)
qed

lemma CalcDelta_bounds:
  assumes "unat delta < 2 ^ 40" "unat l = 1024 * n" "n \<le> 63"
  shows "unat (EEVDFCalcDelta delta 1024 l) \<le> unat delta" "unat delta div 64 \<le> unat (EEVDFCalcDelta delta 1024 l)"
proof -
  define lw where "lw = (if l = 0 then 1024 else l)"
  define m where "m = max 1 n"
  have lw: "unat lw = 1024 * m"
    using assms(2) by (cases "l = 0") (auto simp: lw_def m_def unat_eq_0 [symmetric] max_def)
  define fa where "fa = (ucast ((0x4000000 :: u32) div lw) :: u64)"
  have "unat fa = unat ((0x4000000 :: u32) div lw)" by (simp add: fa_def unat_ucast_32_64)
  also have "\<dots> = 65536 div m" using lw by (simp add: unat_div div_mult2_eq)
  finally have fa: "unat fa = 65536 div m" .
  have m: "1 \<le> m" "m \<le> 63" using assms(3) by (auto simp: m_def)
  have fb: "1024 \<le> unat fa" "unat fa \<le> 65536"
    using m fa by (auto simp: div_le_dividend intro: order_trans [OF _ div_le_mono2 [of m 64 65536]])
  have prod: "unat (delta * fa) = unat delta * unat fa"
  proof (subst unat_mult_lem [THEN iffD1])
    have "unat delta * unat fa \<le> 2 ^ 40 * 65536" using assms(1) fb(2) by (intro mult_le_mono) simp_all
    then show "unat delta * unat fa < 2 ^ LENGTH(64)" by simp
  qed simp
  have r: "unat (EEVDFCalcDelta delta 1024 l) = unat delta * unat fa div 65536"
    by (simp add: EEVDFCalcDelta_def Let_def lw_def [symmetric] fa_def [symmetric] drop_bit_eq_div unat_div prod)
  have "unat delta * unat fa \<le> unat delta * 65536" using fb(2) by simp
  from div_le_mono [OF this, of 65536] show "unat (EEVDFCalcDelta delta 1024 l) \<le> unat delta" unfolding r by simp
  have "unat delta * 1024 \<le> unat delta * unat fa" using fb(1) by simp
  from div_le_mono [OF this, of 65536] have "unat delta * 1024 div 65536 \<le> unat delta * unat fa div 65536" .
  moreover have "unat delta * 1024 div 65536 = unat delta div 64" using div_mult_mult2 [of 1024 "unat delta" 64] by simp
  ultimately show "unat delta div 64 \<le> unat (EEVDFCalcDelta delta 1024 l)" unfolding r by simp
qed

lemma now_ns_at: "now_ns s = ns_at (APICticks s) (APIC_HZ s)"
  by (simp add: now_ns_def ns_at_def)

section \<open>Processes that can run\<close>

definition runnable :: "sched \<Rightarrow> nat set" where
  "runnable s = {p. rb_node (processes s p) \<noteq> None} \<union> {c. c = current_slot s \<and> c \<noteq> 0 \<and> proc_state (processes s c) = PROC_RUNNING}"

lemma runnable_queue:
  assumes "sched_ok s ps"
  shows "set (ready_queue s ps) = runnable s" "p \<in> set ps \<longleftrightarrow> rb_node (processes s p) \<noteq> None"
proof -
  have q: "queue_good s ps" using assms by (simp add: sched_ok_def)
  note d = queue_goodD [OF q]
  show "p \<in> set ps \<longleftrightarrow> rb_node (processes s p) \<noteq> None" by (rule d(6))
  have "set ps = {p. rb_node (processes s p) \<noteq> None}" using d(6) by blast
  then show "set (ready_queue s ps) = runnable s"
    using queue_at_split(1) [OF d(1)] by (auto simp: ready_queue_def runnable_def Let_def)
qed

text \<open>The effect of one timer interrupt.\<close>

definition new_key :: "sched \<Rightarrow> nat list \<Rightarrow> nat \<Rightarrow> u64" where
  "new_key s ps p = (if p = current_slot s then requeue_key s p ps else vruntime (processes s p))"

lemma timer_step:
  assumes ok: "sched_ok s ps" and rip: "reg_rip regs \<noteq> 0"
  shows "\<exists>s'. timer_interrupt regs s = Some s' \<and> APICticks s' = APICticks s + 1 \<and> APIC_HZ s' = APIC_HZ s \<and> min_vruntime s' = sched_min s ps
    \<and> (case ready_queue s ps of [] \<Rightarrow> sched_ok s' [] \<and> current_slot s' = 0
       | n # r \<Rightarrow> sched_ok s' r \<and> current_slot s' = n \<and> proc_state (processes s' n) = PROC_RUNNING \<and> exec_start (processes s' n) = now_ns s
           \<and> cpu_regs s' = (if n = current_slot s then regs else proc_context (processes s n))
           \<and> (\<forall>p \<in> runnable s. vruntime (processes s' p) = new_key s ps p
                \<and> proc_context (processes s' p) = (if p = current_slot s then regs else proc_context (processes s p)))
           \<and> (\<forall>p. proc_state (processes s p) \<noteq> PROC_ZOMBIE \<longrightarrow> proc_pid (processes s' p) = proc_pid (processes s p)))"
proof -
  define t where "t = s\<lparr>cpu_regs := regs\<rparr>"
  have okt: "sched_ok t ps" unfolding t_def by (rule sched_ok_same [OF ok]) (simp_all add: rb_state.truncate_def)
  have f: "processes t = processes s" "current_slot t = current_slot s" "min_vruntime t = min_vruntime s" "load_weight t = load_weight s"
      "APICticks t = APICticks s" "APIC_HZ t = APIC_HZ s" "cpu_regs t = regs" by (simp_all add: t_def)
  note c = ready_queue_cong [OF f(1-6)]
  have e: "ready_queue t ps = ready_queue s ps" "requeue_key t x ps = requeue_key s x ps" "sched_min t ps = sched_min s ps" "now_ns t = now_ns s" for x
    using c f by (simp_all add: sched_min_def now_ns_def Let_def)
  have post: "sched_ok (s1\<lparr>APICticks := x\<rparr>) r" if "sched_ok s1 r" for s1 r x
    by (rule sched_ok_same [OF that]) (simp_all add: rb_state.truncate_def)
  show ?thesis
  proof (cases "ready_queue s ps")
    case Nil
    from schedule_idle [OF okt] obtain s1 where "EEVDFSchedule t = Some s1" "sched_ok s1 []" "current_slot s1 = 0"
        "APIC_HZ s1 = APIC_HZ s" "APICticks s1 = APICticks s" "min_vruntime s1 = sched_min s ps"
      unfolding e f using rip Nil by blast
    then show ?thesis using Nil post by (simp add: timer_interrupt_def t_def [symmetric])
  next
    case (Cons n r)
    from schedule_run [OF okt _ _ refl] obtain s1 where s1: "EEVDFSchedule t = Some s1" "sched_ok s1 r" "current_slot s1 = n"
        "proc_state (processes s1 n) = PROC_RUNNING" "exec_start (processes s1 n) = now_ns s" "min_vruntime s1 = sched_min s ps"
        "APIC_HZ s1 = APIC_HZ s" "APICticks s1 = APICticks s" "cpu_regs s1 = (if n = current_slot s then regs else proc_context (processes s n))"
        "\<forall>p \<in> set (n # r). vruntime (processes s1 p) = (if p = current_slot s then requeue_key s (current_slot s) ps else vruntime (processes s p))
          \<and> proc_context (processes s1 p) = (if p = current_slot s then regs else proc_context (processes s p))"
        "\<forall>p. proc_state (processes s p) \<noteq> PROC_ZOMBIE \<longrightarrow> proc_pid (processes s1 p) = proc_pid (processes s p)"
      unfolding e f using rip Cons by blast
    have "runnable s = set (n # r)" using runnable_queue(1) [OF ok] Cons by simp
    then show ?thesis using Cons post s1 by (simp add: timer_interrupt_def t_def [symmetric] new_key_def)
  qed
qed

text \<open>The interrupt neither loses nor adds a process, and the one it chooses has the least virtual run time.\<close>

lemma sorted_queue_at:
  assumes "rq_holds s ps" "p \<notin> set ps"
  shows "sorted (map ((\<lambda>q. rq_key s q)(p := v)) (queue_at v s p ps))"
proof -
  have so: "sorted (map (rq_key s) ps)" using rq_holds_sorted [OF assms(1)] by simp
  have k: "map ((\<lambda>q. rq_key s q)(p := v)) (filter P ps) = map (rq_key s) (filter P ps)" for P
    using assms(2) by (intro map_cong) auto
  have "sorted (map (rq_key s) (filter P ps))" for P using sorted_filter [OF so] .
  then show ?thesis unfolding queue_at_def map_append list.map k by (auto simp: sorted_append)
qed

lemma ready_queue_sorted:
  assumes "sched_ok s ps"
  shows "sorted (map (new_key s ps) (ready_queue s ps))"
proof -
  define c where "c = current_slot s"
  have q: "queue_good s ps" using assms by (simp add: sched_ok_def)
  note d = queue_goodD [OF q]
  have cp: "c \<notin> set ps" using d(5,6) assms by (auto simp: sched_ok_def current_ok_def c_def)
  show ?thesis
  proof (cases "c \<noteq> 0 \<and> proc_state (processes s c) = PROC_RUNNING")
    case True
    have "new_key s ps = (\<lambda>q. rq_key s q)(c := requeue_key s c ps)" by (auto simp: new_key_def rq_key_def c_def)
    then show ?thesis using sorted_queue_at [OF d(1) cp] True by (simp add: ready_queue_def Let_def c_def)
  next
    case False
    then have "ready_queue s ps = ps" by (auto simp: ready_queue_def c_def)
    moreover have "map (new_key s ps) ps = map (rq_key s) ps" using cp by (auto simp: new_key_def rq_key_def c_def)
    ultimately show ?thesis using rq_holds_sorted [OF d(1)] by metis
  qed
qed

lemma zero_not_runnable: "sched_ok s ps \<Longrightarrow> 0 \<notin> runnable s"
  using queue_goodD(5,6) [of s ps] by (auto simp: runnable_def sched_ok_def)

lemma runnable_timer:
  assumes ok: "sched_ok s ps" and s': "sched_ok s' r" "current_slot s' = n" "proc_state (processes s' n) = PROC_RUNNING"
    and e: "ready_queue s ps = n # r"
  shows "runnable s' = runnable s"
proof -
  have "n \<noteq> 0" using e runnable_queue(1) [OF ok] zero_not_runnable [OF ok] list.set_intros(1) by metis
  moreover have "{p. rb_node (processes s' p) \<noteq> None} = set r" using runnable_queue(2) [OF s'(1)] by blast
  ultimately have "runnable s' = insert n (set r)" unfolding runnable_def s'(2) using s'(3) by auto
  then show ?thesis using runnable_queue(1) [OF ok] e by simp
qed

section \<open>What termination leaves alone\<close>

definition tame :: "sched \<Rightarrow> sched \<Rightarrow> bool" where
  "tame s s' \<longleftrightarrow> same_time s s' \<and> current_slot s' = current_slot s
     \<and> (\<forall>p \<in> runnable s'. p \<in> runnable s \<and> vruntime (processes s' p) = vruntime (processes s p) \<and> exec_start (processes s' p) = exec_start (processes s p)
          \<and> proc_state (processes s' p) = proc_state (processes s p))"

lemma tame_refl: "tame s s"
  by (simp add: tame_def same_time_def)

lemma tame_trans: "tame s s1 \<Longrightarrow> tame s1 s2 \<Longrightarrow> tame s s2"
  by (simp add: tame_def same_time_def)

lemma tame_dead:
  assumes "processes s' = (processes s)(i := q)" "proc_state q = PROC_ZOMBIE" "rb_node q = None" "current_slot s' = current_slot s" "same_time s s'"
  shows "tame s s'"
  using assms unfolding tame_def runnable_def by auto

lemma dead_rb [simp]: "rb_node (dead_pcb r code s i) = None"
  by (simp add: dead_pcb_def)

lemma ASTerminate_ok:
  assumes "sched_ok s ps" "EEVDFASTerminate pid s = Some s'"
  shows "(\<exists>ps'. sched_ok s' ps') \<and> tame s s'"
proof (cases "EEVDFGetCurrentProcessByPID pid s")
  case None
  then show ?thesis using assms by (auto simp: EEVDFASTerminate_def tame_refl)
next
  case (Some i)
  have "sched_ok s' (remove1 i ps)" "processes s' = (processes s)(i := dead_pcb TERM_SECURITY 666 s i)" "current_slot s' = current_slot s" "same_time s s'"
    using ASTerminate_run [OF sched_ok_but [OF assms(1)] Some] assms(2) by simp_all
  then show ?thesis using tame_dead [of s' s i] by auto
qed

lemma TerminateProcess_ok:
  assumes "sched_ok s ps" "EEVDFTerminateProcess pid r code s = Some s'"
  shows "(\<exists>ps'. sched_ok s' ps') \<and> tame s s'"
proof (cases "EEVDFGetCurrentProcessByPID pid s")
  case None
  then show ?thesis using assms by (auto simp: EEVDFTerminateProcess_def tame_refl)
next
  case (Some i)
  consider "proc_state (processes s i) \<in> {PROC_DYING, PROC_ZOMBIE}"
    | "proc_state (processes s i) \<notin> {PROC_DYING, PROC_ZOMBIE}" "r = TERM_SECURITY \<or> may_terminate (current_slot s) i s"
    | "proc_state (processes s i) \<notin> {PROC_DYING, PROC_ZOMBIE}" "r \<noteq> TERM_SECURITY" "\<not> may_terminate (current_slot s) i s" by blast
  then show ?thesis
  proof cases
    case 1
    then show ?thesis using TerminateProcess_dead [of pid s] Some assms by (auto simp: tame_refl)
  next
    case 2
    then have "sched_ok s' (remove1 i ps)" "processes s' = (processes s)(i := dead_pcb r code s i)" "current_slot s' = current_slot s" "same_time s s'"
      using TerminateProcess_run [OF assms(1) Some _ _ 2(2), where code = code] assms(2) by simp_all
    then show ?thesis using tame_dead [of s' s i] by auto
  next
    case 3
    then show ?thesis using TerminateProcess_denied [OF assms(1) Some] ASTerminate_ok [OF assms(1)] assms(2) by auto
  qed
qed

lemma kill_all_ok: "kill_all is s = Some s' \<Longrightarrow> sched_ok s ps \<Longrightarrow> (\<exists>ps'. sched_ok s' ps') \<and> tame s s'"
proof (induction "is" s arbitrary: ps rule: kill_all.induct)
  case (2 i "is" s)
  show ?case
  proof (cases "proc_state (processes s i) \<noteq> PROC_TERMINATED \<and> proc_pid (processes s i) \<noteq> 0")
    case True
    then obtain s1 where s1: "EEVDFASTerminate (proc_pid (processes s i)) s = Some s1" "kill_all is s1 = Some s'"
      using 2(3) by (auto split: option.splits)
    from ASTerminate_ok [OF 2(4) s1(1)] obtain ps1 where "sched_ok s1 ps1" "tame s s1" by blast
    then show ?thesis using "2.IH"(1) [OF True s1(1,2)] tame_trans by blast
  qed (use 2 in auto)
qed (auto simp: tame_refl)

lemma ProcessBlocked_ok:
  assumes "sched_ok s ps"
  shows "sched_ok (EEVDFProcessBlocked i s) ps" "tame s (EEVDFProcessBlocked i s)"
proof -
  define s1 where "s1 = upd_proc i (\<lambda>p. p\<lparr>io_operations := io_operations p + 1\<rparr>) s"
  have q: "queue_good s ps" using assms by (simp add: sched_ok_def)
  have "queue_good s1 ps"
    by (rule queue_good_frame [OF q]) (auto simp: s1_def upd_proc_def ready_ok_def good_pcb_def SISSealPCB_def)
  then have ok1: "sched_ok s1 ps"
    using assms by (auto simp: sched_ok_def current_ok_def s1_def upd_proc_def good_pcb_def SISSealPCB_def)
  have ok2: "sched_ok (s1\<lparr>need_schedule := True\<rparr>) ps" by (rule sched_ok_same [OF ok1]) (simp_all add: rb_state.truncate_def)
  show "sched_ok (EEVDFProcessBlocked i s) ps" using ok1 ok2 assms by (simp add: EEVDFProcessBlocked_def Let_def s1_def [symmetric])
  show "tame s (EEVDFProcessBlocked i s)"
    unfolding tame_def runnable_def by (auto simp: EEVDFProcessBlocked_def Let_def upd_proc_def same_time_def)
qed

lemma Create_ok:
  assumes "sched_ok s ps" "priv = 0 \<longrightarrow> caps AND EEVDF_CAP_CORE \<noteq> 0" "EEVDFCreateSecureProcess name entry priv caps stack al s = Some (pid, s')"
  shows "\<exists>i q. (\<exists>ps'. sched_ok s' ps') \<and> processes s' = (processes s)(i := q) \<and> vruntime q = min_vruntime s \<and> same_time s s'
    \<and> current_slot s' = current_slot s \<and> i \<noteq> current_slot s"
proof -
  obtain i s1 where s1: "FindFreeSlotFast s = (Some i, s1)" "entry \<noteq> 0" "unat (process_count s) < 64"
    using assms(3) by (auto simp: EEVDFCreateSecureProcess_def EEVDF_MAX_PROCESSES_def split: if_splits prod.splits option.splits)
  obtain n s2 where s2: "alloc_pid s1 = Some (n, s2)" "stack \<noteq> 0"
    using assms(3) s1 by (auto simp: EEVDFCreateSecureProcess_def bind_eq_Some_conv split: if_splits)
  have "i \<noteq> current_slot s" using FindFreeSlot_some(2,3) [OF s1(1)] assms(1) by (auto simp: sched_ok_def current_ok_def)
  then show ?thesis using CreateSecureProcess_run [OF assms(1) s1(2) s2(2) assms(2) s1(3,1) s2(1), of name al] assms(3) by auto
qed

section \<open>Virtual time stays behind real time\<close>

definition running :: "sched \<Rightarrow> nat \<Rightarrow> bool" where
  "running s c \<longleftrightarrow> c = current_slot s \<and> c \<noteq> 0 \<and> proc_state (processes s c) = PROC_RUNNING"

definition timely :: "sched \<Rightarrow> bool" where
  "timely s \<longleftrightarrow> (\<forall>p \<in> runnable s. vruntime (processes s p) \<le> now_ns s) \<and> min_vruntime s \<le> now_ns s
     \<and> (\<forall>c. running s c \<longrightarrow> 0 < APICticks s \<and> exec_start (processes s c) = ns_at (APICticks s - 1) (APIC_HZ s)
          \<and> vruntime (processes s c) \<le> exec_start (processes s c))"

lemma timelyD:
  assumes "timely s" "running s c"
  shows "0 < APICticks s" "exec_start (processes s c) = ns_at (APICticks s - 1) (APIC_HZ s)" "vruntime (processes s c) \<le> exec_start (processes s c)"
  using assms unfolding timely_def by blast+

lemma tame_timely:
  assumes t: "tame s s'" "timely s"
  shows "timely s'"
proof -
  have st: "same_time s s'" "current_slot s' = current_slot s" using t(1) by (simp_all add: tame_def)
  have now: "now_ns s' = now_ns s" using st(1) by (simp add: now_ns_def same_time_def)
  have r: "p \<in> runnable s \<and> vruntime (processes s' p) = vruntime (processes s p) \<and> exec_start (processes s' p) = exec_start (processes s p)
      \<and> proc_state (processes s' p) = proc_state (processes s p)" if "p \<in> runnable s'" for p
    using t(1) that by (simp add: tame_def)
  have c: "running s c \<and> c \<in> runnable s'" if "running s' c" for c
    using that r [of c] st(2) by (auto simp: running_def runnable_def)
  show ?thesis unfolding timely_def now
  proof (intro conjI allI impI ballI)
    show "vruntime (processes s' p) \<le> now_ns s" if "p \<in> runnable s'" for p using r [OF that] t(2) by (simp add: timely_def)
    show "min_vruntime s' \<le> now_ns s" using st(1) t(2) by (simp add: same_time_def timely_def)
    fix k assume k: "running s' k"
    show "0 < APICticks s'" "exec_start (processes s' k) = ns_at (APICticks s' - 1) (APIC_HZ s')"
        "vruntime (processes s' k) \<le> exec_start (processes s' k)"
      using timelyD [OF t(2), of k] c [OF k] r [of k] st(1) by (simp_all add: same_time_def)
  qed
qed

lemma create_timely:
  assumes "timely s" "processes s' = (processes s)(i := q)" "vruntime q = min_vruntime s" "same_time s s'"
    "current_slot s' = current_slot s" "i \<noteq> current_slot s"
  shows "timely s'"
proof -
  have now: "now_ns s' = now_ns s" using assms(4) by (simp add: now_ns_def same_time_def)
  have "runnable s' \<subseteq> insert i (runnable s)" using assms(2,5) by (auto simp: runnable_def split: if_splits)
  then have "\<forall>p \<in> runnable s'. vruntime (processes s' p) \<le> now_ns s" using assms(1,2,3) by (auto simp: timely_def)
  moreover have "running s' c \<Longrightarrow> running s c" for c using assms(2,5,6) by (auto simp: running_def)
  ultimately show ?thesis using assms by (auto simp: timely_def now same_time_def running_def)
qed

text \<open>What a process is charged for its tick: at most the time that passed, at least a 64th of it.\<close>

lemma charged_bounds:
  assumes ok: "sched_ok s ps" and t: "timely s" and c: "running s c"
  shows "charged s c \<le> now_ns s" "unat (vruntime (processes s c)) + tick_ns (APIC_HZ s) div 64 \<le> unat (charged s c)"
proof -
  define e where "e = exec_start (processes s c)"
  have tc: "0 < APICticks s" "e = ns_at (APICticks s - 1) (APIC_HZ s)" "vruntime (processes s c) \<le> e" unfolding e_def using timelyD [OF t c] by blast+
  have l: "rq_loaded s ps" "APIC_HZ s \<noteq> 0" using ok by (simp_all add: sched_ok_def queue_good_def)
  have "unat (APICticks s) = Suc (unat (APICticks s - 1))" using tc(1) unat_dec32 [of "APICticks s"] by (simp add: word_less_nat_alt)
  note st = ns_at_step [OF this l(2)]
  have now: "unat e + tick_ns (APIC_HZ s) \<le> unat (now_ns s)" "unat (now_ns s) \<le> unat e + 1000000001" using st by (simp_all add: now_ns_at tc(2))
  have el: "unat (elapsed s c) = unat (now_ns s) - unat e"
    unfolding elapsed_def e_def [symmetric] using now(1) by (intro unat_sub) (simp add: word_le_nat_alt)
  define d where "d = EEVDFCalcDelta (elapsed s c) 1024 (load_weight s)"
  have lo: "unat (elapsed s c) < 2 ^ 40" "unat (load_weight s) = 1024 * length ps" "length ps \<le> 63"
    using now(2) el l(1) rq_loaded_length [OF l(1)] by (simp_all add: rq_loaded_def)
  note b = CalcDelta_bounds [OF lo, folded d_def]
  have v: "unat (vruntime (processes s c)) \<le> unat e" using tc(3) by (simp add: word_le_nat_alt)
  have sum: "unat (vruntime (processes s c)) + unat d \<le> unat (now_ns s)" using v b(1) el now(1) by simp
  have "unat (charged s c) = unat (vruntime (processes s c)) + unat d"
    unfolding charged_def d_def [symmetric] using sum unsigned_less [of "now_ns s", where 'a = nat]
    by (subst unat_add_lem [THEN iffD1]) simp_all
  moreover have "tick_ns (APIC_HZ s) div 64 \<le> unat d" using b(2) el now(1) by (intro order_trans [OF div_le_mono b(2)]) simp
  ultimately show "charged s c \<le> now_ns s" "unat (vruntime (processes s c)) + tick_ns (APIC_HZ s) div 64 \<le> unat (charged s c)"
    using sum by (simp_all add: word_le_nat_alt)
qed

lemma requeue_bounds:
  assumes ok: "sched_ok s ps" and t: "timely s" and c: "running s c"
  shows "requeue_min s c ps \<le> now_ns s" "requeue_key s c ps \<le> now_ns s"
proof -
  note b = charged_bounds [OF assms]
  have "p \<in> set ps \<Longrightarrow> vruntime (processes s p) \<le> now_ns s" for p
    using t runnable_queue(2) [OF ok, of p] by (auto simp: timely_def runnable_def)
  then show m: "requeue_min s c ps \<le> now_ns s" using b(1) t by (cases ps) (simp_all add: requeue_min_def timely_def rq_key_def)
  show "requeue_key s c ps \<le> now_ns s" using m b(1) by (simp add: requeue_key_def)
qed

lemma ns_at_mono: "unat t \<le> unat t' \<Longrightarrow> ns_at t hz \<le> ns_at t' hz"
  by (simp add: word_le_nat_alt unat_ns_at div_le_mono)

lemma unat_next_tick: "(t :: u32) \<noteq> - 1 \<Longrightarrow> unat (t + 1) = Suc (unat t)"
  by (metis unatSuc add.commute add.inverse_inverse add_eq_0_iff)

lemma new_key_bound:
  assumes "sched_ok s ps" "timely s" "p \<in> runnable s"
  shows "new_key s ps p \<le> now_ns s"
proof (cases "p = current_slot s")
  case True
  have "rb_node (processes s p) = None \<or> p = 0" using assms(1) True by (auto simp: sched_ok_def current_ok_def)
  moreover have "rb_node (processes s 0) = None" using assms(1) queue_goodD(5,6) [of s ps] by (auto simp: sched_ok_def)
  ultimately have "running s p" using assms(3) True by (auto simp: runnable_def running_def)
  then show ?thesis using requeue_bounds(2) [OF assms(1,2)] True by (simp add: new_key_def)
qed (use assms in \<open>simp add: new_key_def timely_def\<close>)

lemma timer_timely:
  assumes ok: "sched_ok s ps" and t: "timely s" and nw: "APICticks s \<noteq> - 1" and rip: "reg_rip regs \<noteq> 0"
    and run: "timer_interrupt regs s = Some s'"
  shows "timely s'"
proof -
  have st: "APICticks s' = APICticks s + 1" "APIC_HZ s' = APIC_HZ s" "min_vruntime s' = sched_min s ps"
    and q: "case ready_queue s ps of [] \<Rightarrow> sched_ok s' [] \<and> current_slot s' = 0
       | n # r \<Rightarrow> sched_ok s' r \<and> current_slot s' = n \<and> proc_state (processes s' n) = PROC_RUNNING \<and> exec_start (processes s' n) = now_ns s
           \<and> (\<forall>p \<in> runnable s. vruntime (processes s' p) = new_key s ps p)"
    using timer_step [OF ok rip] run by (auto split: list.splits)
  have le: "now_ns s \<le> now_ns s'" using unat_next_tick [OF nw] by (auto simp: now_ns_at st intro: ns_at_mono)
  have "sched_min s ps \<le> now_ns s"
    using requeue_bounds(1) [OF ok t, of "current_slot s"] t by (auto simp: sched_min_def Let_def running_def timely_def)
  then have m: "min_vruntime s' \<le> now_ns s'" using le st(3) by simp
  have pos: "0 < APICticks s'" using unat_next_tick [OF nw] by (simp add: st(1) word_less_nat_alt)
  show ?thesis
  proof (cases "ready_queue s ps")
    case Nil
    then have "sched_ok s' []" "current_slot s' = 0" using q by simp_all
    then have "runnable s' = {}" "\<not> running s' c" for c
      using runnable_queue(1) [of s' "[]"] by (auto simp: ready_queue_def running_def)
    then show ?thesis using m by (simp add: timely_def)
  next
    case (Cons n r)
    then have s': "sched_ok s' r" "current_slot s' = n" "proc_state (processes s' n) = PROC_RUNNING" "exec_start (processes s' n) = now_ns s"
        "\<And>p. p \<in> runnable s \<Longrightarrow> vruntime (processes s' p) = new_key s ps p" using q by simp_all
    have rs: "runnable s' = runnable s" by (rule runnable_timer [OF ok s'(1-3) Cons])
    have n: "n \<in> runnable s" using runnable_queue(1) [OF ok] Cons by auto
    have v: "p \<in> runnable s \<Longrightarrow> vruntime (processes s' p) \<le> now_ns s" for p using s'(5) new_key_bound [OF ok t] by simp
    show ?thesis unfolding timely_def rs
    proof (intro conjI allI impI ballI)
      show "vruntime (processes s' p) \<le> now_ns s'" if "p \<in> runnable s" for p using v [OF that] le by simp
      fix c assume "running s' c"
      then have c: "c = n" using s'(2) by (simp add: running_def)
      show "exec_start (processes s' c) = ns_at (APICticks s' - 1) (APIC_HZ s')" by (simp add: c s'(4) st now_ns_at)
      show "vruntime (processes s' c) \<le> exec_start (processes s' c)" using v [OF n] by (simp add: c s'(4))
    qed (use m pos in simp_all)
  qed
qed

section \<open>Reachable states\<close>

text \<open>The flag: whether the tick counter has wrapped around.\<close>

inductive sched_reach :: "bool \<Rightarrow> sched \<Rightarrow> bool" where
  boot: "power_on s \<Longrightarrow> shell \<noteq> 0 \<Longrightarrow> stack \<noteq> 0 \<Longrightarrow> EEVDFSchedInit True mon addr shell stack al0 al1 s = Some s' \<Longrightarrow> sched_reach False s'"
| timer: "sched_reach w s \<Longrightarrow> reg_rip regs \<noteq> 0 \<Longrightarrow> timer_interrupt regs s = Some s' \<Longrightarrow> sched_reach (w \<or> APICticks s = - 1) s'"
| create: "sched_reach w s \<Longrightarrow> priv = 0 \<longrightarrow> caps AND EEVDF_CAP_CORE \<noteq> 0 \<Longrightarrow>
    EEVDFCreateSecureProcess name entry priv caps stack al s = Some (pid, s') \<Longrightarrow> sched_reach w s'"
| kill: "sched_reach w s \<Longrightarrow> EEVDFKillProcess pid s = Some s' \<Longrightarrow> sched_reach w s'"
| exits: "sched_reach w s \<Longrightarrow> ProcessExitStubEEVDF s = Some s' \<Longrightarrow> sched_reach w s'"
| kill_current: "sched_reach w s \<Longrightarrow> EEVDFKillCurrentProcess s = Some s' \<Longrightarrow> sched_reach w s'"
| kill_every: "sched_reach w s \<Longrightarrow> EEVDFKillAllProcesses s = Some s' \<Longrightarrow> sched_reach w s'"
| violation: "sched_reach w s \<Longrightarrow> EEVDFSecurityViolationHandler pid s = Some s' \<Longrightarrow> sched_reach w s'"
| blocked: "sched_reach w s \<Longrightarrow> sched_reach w (EEVDFProcessBlocked slot s)"
| yield: "sched_reach w s \<Longrightarrow> sched_reach w (EEVDFYield s)"

definition ok_timely :: "bool \<Rightarrow> sched \<Rightarrow> bool" where
  "ok_timely w s \<longleftrightarrow> (\<exists>ps. sched_ok s ps) \<and> (\<not> w \<longrightarrow> timely s)"

lemma ok_timely_tame: "ok_timely w s \<Longrightarrow> (\<exists>ps. sched_ok s' ps) \<and> tame s s' \<Longrightarrow> ok_timely w s'"
  using tame_timely by (auto simp: ok_timely_def)

lemma boot_ok:
  assumes "power_on s" "shell \<noteq> 0" "stack \<noteq> 0" "EEVDFSchedInit True mon addr shell stack al0 al1 s = Some s'"
  shows "ok_timely False s'"
proof -
  have i: "sched_ok s' [1]" "min_vruntime s' = 0" "vruntime (processes s' 1) = 0" "current_slot s' = 0"
    using SchedInit_run [OF assms(1) _ assms(2,3), of True mon addr al0 al1] assms(4) by auto
  have "runnable s' = {1}" using runnable_queue(1) [OF i(1)] i(4) by (simp add: ready_queue_def)
  then have "timely s'" using i by (simp add: timely_def running_def)
  then show ?thesis using i(1) by (auto simp: ok_timely_def)
qed

lemma sched_reach_ok: "sched_reach w s \<Longrightarrow> ok_timely w s"
proof (induction rule: sched_reach.induct)
  case (boot s shell stack mon addr al0 al1 s')
  then show ?case by (rule boot_ok)
next
  case (timer w s regs s')
  then obtain ps where ok: "sched_ok s ps" by (auto simp: ok_timely_def)
  have "\<exists>ps'. sched_ok s' ps'" using timer_step [OF ok timer(2)] timer(3) by (auto split: list.splits)
  then show ?case using timer_timely [OF ok _ _ timer(2,3)] timer.IH by (auto simp: ok_timely_def)
next
  case (create w s priv caps name entry stack al pid s')
  then obtain ps where ok: "sched_ok s ps" by (auto simp: ok_timely_def)
  then show ?case using Create_ok [OF ok create(2,3)] create_timely [of s s'] create.IH by (auto simp: ok_timely_def)
next
  case (kill w s pid s')
  then show ?case using TerminateProcess_ok ok_timely_tame unfolding EEVDFKillProcess_def ok_timely_def by blast
next
  case (exits w s s')
  then obtain c where "EEVDFTerminateProcess c TERM_NORMAL 0 s = Some s'" by (auto simp: ProcessExitStubEEVDF_def bind_eq_Some_conv)
  then show ?case using exits.IH TerminateProcess_ok ok_timely_tame unfolding ok_timely_def by blast
next
  case (kill_current w s s')
  then obtain c where "EEVDFASTerminate c s = Some s'" by (auto simp: EEVDFKillCurrentProcess_def bind_eq_Some_conv)
  then show ?case using kill_current.IH ASTerminate_ok ok_timely_tame unfolding ok_timely_def by blast
next
  case (kill_every w s s')
  then show ?case using kill_all_ok ok_timely_tame unfolding EEVDFKillAllProcesses_def ok_timely_def by blast
next
  case (violation w s pid s')
  define s1 where "s1 = s\<lparr>security_violation_count := security_violation_count s + 1\<rparr>"
  have "EEVDFASTerminate pid s1 = Some s'"
    using violation(2) by (simp add: EEVDFSecurityViolationHandler_def Let_def s1_def split: if_splits)
  moreover have "tame s s1" by (auto simp: tame_def s1_def same_time_def runnable_def)
  moreover have "sched_ok s ps \<Longrightarrow> sched_ok s1 ps" for ps unfolding s1_def by (rule sched_ok_same) (simp_all add: rb_state.truncate_def)
  ultimately show ?case using violation.IH ASTerminate_ok tame_trans ok_timely_tame unfolding ok_timely_def by meson
next
  case (blocked w s slot)
  then show ?case using ProcessBlocked_ok ok_timely_tame unfolding ok_timely_def by blast
next
  case (yield w s)
  have "sched_ok s ps \<Longrightarrow> sched_ok (EEVDFYield s) ps" for ps unfolding EEVDFYield_def by (rule sched_ok_same) (simp_all add: rb_state.truncate_def)
  moreover have "tame s (EEVDFYield s)" by (auto simp: tame_def EEVDFYield_def same_time_def runnable_def)
  ultimately show ?case using yield.IH ok_timely_tame unfolding ok_timely_def by blast
qed

section \<open>No starvation\<close>

primrec timer_run :: "nat \<Rightarrow> (nat \<Rightarrow> Registers) \<Rightarrow> sched \<Rightarrow> sched option" where
  "timer_run 0 regs s = Some s"
| "timer_run (Suc k) regs s = (case timer_interrupt (regs 0) s of None \<Rightarrow> None | Some s' \<Rightarrow> timer_run k (\<lambda>i. regs (Suc i)) s')"

text \<open>How many turns a process with key \<open>kq\<close> can take, each costing it at least \<open>d\<close>, before one with key \<open>kp\<close> is due.\<close>

definition turns :: "nat \<Rightarrow> nat \<Rightarrow> nat \<Rightarrow> nat" where
  "turns d kp kq = (if kq \<le> kp then (kp - kq) div d + 1 else 0)"

definition key_at :: "sched \<Rightarrow> nat \<Rightarrow> nat" where
  "key_at s p = unat (vruntime (processes s p))"

definition wait_bound :: "sched \<Rightarrow> nat \<Rightarrow> nat" where
  "wait_bound s p = (\<Sum>q \<in> runnable s - {p}. turns (tick_ns (APIC_HZ s) div 64) (key_at s p) (key_at s q))"

lemma turns_less: "0 < d \<Longrightarrow> kq + d \<le> kq' \<Longrightarrow> kq \<le> kp \<Longrightarrow> turns d kp kq' < turns d kp kq"
proof -
  assume a: "0 < d" "kq + d \<le> kq'" "kq \<le> kp"
  show ?thesis
  proof (cases "kq' \<le> kp")
    case True
    then have "(kp - kq') + d \<le> kp - kq" using a(2) by simp
    from div_le_mono [OF this, of d] have "(kp - kq') div d + 1 \<le> (kp - kq) div d" using div_add_self2 [of d "kp - kq'"] a(1) by simp
    then show ?thesis using True a(3) by (simp add: turns_def)
  qed (use a in \<open>simp add: turns_def\<close>)
qed

lemma turns_le: "kq \<le> kq' \<Longrightarrow> turns d kp kq' \<le> turns d kp kq"
  by (auto simp: turns_def intro: div_le_mono)

lemma runnable_finite: "sched_ok s ps \<Longrightarrow> finite (runnable s)"
  using runnable_queue(1) by (metis finite_set)

text \<open>Whether the process that runs now is before \<open>p\<close>: it is, except right after it was killed or put behind.\<close>

definition late :: "sched \<Rightarrow> nat \<Rightarrow> nat" where
  "late s p = (if running s (current_slot s) \<and> key_at s (current_slot s) \<le> key_at s p then 0 else 1)"

lemma wait_decreases:
  assumes ok: "sched_ok s ps" and t: "timely s" and p: "p \<in> set ps" and d: "64 \<le> tick_ns (APIC_HZ s)" and rip: "reg_rip regs \<noteq> 0"
  shows "\<exists>s'. timer_interrupt regs s = Some s' \<and> APICticks s' = APICticks s + 1 \<and> APIC_HZ s' = APIC_HZ s
    \<and> (current_slot s' = p \<or> (\<exists>r. sched_ok s' r \<and> p \<in> set r \<and> wait_bound s' p + late s' p < wait_bound s p + late s p))"
proof -
  define c where "c = current_slot s"
  have pr: "p \<in> runnable s" using runnable_queue(2) [OF ok] p by (simp add: runnable_def)
  then obtain n r where q: "ready_queue s ps = n # r" using runnable_queue(1) [OF ok] by (cases "ready_queue s ps") auto
  obtain s' where s': "timer_interrupt regs s = Some s'" "APICticks s' = APICticks s + 1" "APIC_HZ s' = APIC_HZ s" "sched_ok s' r" "current_slot s' = n"
      "proc_state (processes s' n) = PROC_RUNNING" and nk: "\<And>x. x \<in> runnable s \<Longrightarrow> vruntime (processes s' x) = new_key s ps x"
    using timer_step [OF ok rip] q by auto
  have rs: "runnable s' = runnable s" "set (n # r) = runnable s"
    using runnable_timer [OF ok s'(4-6) q] runnable_queue(1) [OF ok] q by simp_all
  have pc: "p \<noteq> c" using p ok runnable_queue(2) [OF ok, of p] queue_goodD(5) [of s ps] by (auto simp: sched_ok_def current_ok_def c_def)
  have key: "key_at s' x = key_at s x" if "x \<in> runnable s" "x \<noteq> c" for x using nk [OF that(1)] that(2) by (simp add: key_at_def new_key_def c_def)
  have kp: "key_at s' p = key_at s p" by (rule key [OF pr pc])
  have kc: "key_at s c + tick_ns (APIC_HZ s) div 64 \<le> key_at s' c" if "running s c"
  proof -
    have "c \<in> runnable s" using that by (auto simp: running_def runnable_def)
    then have "key_at s' c = unat (requeue_key s c ps)" using nk by (simp add: key_at_def new_key_def c_def)
    also have "\<dots> \<ge> unat (charged s c)" by (simp add: requeue_key_def word_le_nat_alt [symmetric])
    finally show ?thesis using charged_bounds(2) [OF ok t that] by (simp add: key_at_def)
  qed
  have cr: "c \<in> runnable s \<Longrightarrow> running s c"
    using runnable_queue(2) [OF ok, of c] queue_goodD(5) [of s ps] ok by (auto simp: runnable_def running_def c_def sched_ok_def current_ok_def)
  show ?thesis
  proof (cases "n = p")
    case False
    then have pr': "p \<in> set r" using rs(2) pr by auto
    have n0: "n \<noteq> 0" using rs(2) zero_not_runnable [OF ok] list.set_intros(1) by metis
    have nr: "n \<in> runnable s" using rs(2) list.set_intros(1) by metis
    have "new_key s ps n \<le> new_key s ps p" using ready_queue_sorted [OF ok] q pr' by auto
    then have "key_at s' n \<le> key_at s' p" using nk [OF nr] nk [OF pr] by (simp add: key_at_def word_le_nat_alt)
    then have l': "late s' p = 0" using s'(5,6) n0 by (simp add: late_def running_def)
    let ?d = "tick_ns (APIC_HZ s) div 64"
    have le: "turns ?d (key_at s' p) (key_at s' x) \<le> turns ?d (key_at s p) (key_at s x)" if "x \<in> runnable s - {p}" for x
    proof (cases "x = c")
      case True
      then show ?thesis using kc [OF cr] that turns_le kp by auto
    qed (use key that kp in simp)
    have "wait_bound s' p < wait_bound s p + late s p"
    proof (cases "running s c \<and> key_at s c \<le> key_at s p")
      case True
      then have "c \<in> runnable s - {p}" using pc by (auto simp: running_def runnable_def)
      moreover have "turns ?d (key_at s' p) (key_at s' c) < turns ?d (key_at s p) (key_at s c)"
        unfolding kp using True kc d by (intro turns_less) (auto simp: div_greater_zero_iff)
      ultimately have "wait_bound s' p < wait_bound s p"
        unfolding wait_bound_def rs(1) s'(3) using le runnable_finite [OF ok] by (intro sum_strict_mono_ex1) auto
      then show ?thesis by simp
    next
      case False
      then have "late s p = 1" by (simp add: late_def c_def)
      moreover have "wait_bound s' p \<le> wait_bound s p" unfolding wait_bound_def rs(1) s'(3) using le by (rule sum_mono)
      ultimately show ?thesis by simp
    qed
    then show ?thesis using s' pr' l' by (intro exI [of _ s']) auto
  qed (use s' in auto)
qed

lemma scheduled_within:
  assumes "sched_ok s ps" "timely s" "p \<in> set ps" "64 \<le> tick_ns (APIC_HZ s)" "\<And>i. reg_rip (regs i) \<noteq> 0"
    "wait_bound s p + late s p \<le> m" "unat (APICticks s) + m < 2 ^ 32 - 1"
  shows "\<exists>k s'. k \<le> m \<and> timer_run k regs s = Some s' \<and> current_slot s' = p"
  using assms
proof (induction m arbitrary: s ps regs)
  case 0
  have "running s (current_slot s)" "key_at s (current_slot s) \<le> key_at s p" using 0(6) by (auto simp: late_def split: if_splits)
  then have "turns (tick_ns (APIC_HZ s) div 64) (key_at s p) (key_at s (current_slot s)) \<noteq> 0" "current_slot s \<in> runnable s"
    by (auto simp: turns_def running_def runnable_def)
  moreover have "current_slot s \<noteq> p" using 0(1,3) runnable_queue(2) [OF 0(1), of p] queue_goodD(5) [of s ps] by (auto simp: sched_ok_def current_ok_def)
  ultimately have "wait_bound s p \<noteq> 0" unfolding wait_bound_def using runnable_finite [OF 0(1)] by auto
  then show ?case using 0(6) by simp
next
  case (Suc m)
  obtain s' where s': "timer_interrupt (regs 0) s = Some s'" "APICticks s' = APICticks s + 1" "APIC_HZ s' = APIC_HZ s"
      "current_slot s' = p \<or> (\<exists>r. sched_ok s' r \<and> p \<in> set r \<and> wait_bound s' p + late s' p < wait_bound s p + late s p)"
    using wait_decreases [OF Suc.prems(1-4) Suc.prems(5) [of 0]] by blast
  show ?case
  proof (cases "current_slot s' = p")
    case True
    then show ?thesis using s'(1) by (intro exI [of _ 1] exI [of _ s']) simp
  next
    case False
    then obtain r where r: "sched_ok s' r" "p \<in> set r" "wait_bound s' p + late s' p \<le> m" using s'(4) Suc.prems(6) by auto
    have nw: "APICticks s \<noteq> - 1" using Suc.prems(7) by (auto simp: unsigned_minus_1_eq_mask mask_eq_exp_minus_1)
    have "unat (APICticks s') + m < 2 ^ 32 - 1" using Suc.prems(7) unat_next_tick [OF nw] s'(2) by simp
    moreover have "timely s'" by (rule timer_timely [OF Suc.prems(1,2) nw Suc.prems(5) s'(1)])
    ultimately obtain k s2 where "k \<le> m" "timer_run k (\<lambda>i. regs (Suc i)) s' = Some s2" "current_slot s2 = p"
      using Suc.IH [OF r(1) _ r(2) _ _ r(3), of "\<lambda>i. regs (Suc i)"] Suc.prems(4,5) s'(3) by auto
    then show ?thesis using s'(1) by (intro exI [of _ "Suc k"] exI [of _ s2]) simp
  qed
qed

section \<open>Seals\<close>








section \<open>Properties\<close>

text \<open>An image of the state at power-on.\<close>

definition boot_image :: sched where
  "boot_image =
     \<lparr>processes = \<lambda>_. zero_pcb, node_left = \<lambda>_. None, node_right = \<lambda>_. None, node_parent = \<lambda>_. None, node_color = \<lambda>_. 0, node_slot = \<lambda>_. 0,
      rb_node_pool_bitmap = [0, 0], rb_root = None, rb_leftmost = None,
      min_vruntime = 0, rq_clock = 0, exec_clock = 0, load_weight = 0, nr_running = 0, current_slot = 0, total_processes = 0, tick_counter = 0,
      context_switch_overhead = 0, switch_count = 0, sis_global_nonce = 0x1337C0DEDEADBEEF, sis_boot_entropy = 0, sis_process_keys = \<lambda>_. 0,
      pid_bitmap = [0, 0], current_process = 0, process_count = 0, need_schedule = False, security_violation_count = 0,
      active_process_bitmap = 0, ready_process_bitmap = 0, termination_queue = replicate 64 0, term_queue_head = 0, term_queue_tail = 0,
      term_queue_count = 0, context_switches = 0, scheduler_calls = 0, cerberus_tick_counter = 0, runqueue_locked = False,
      cerberus = blank_cerberus,
      proc_list = [], freed_stacks = [], APICticks = 0, APIC_HZ = 1000, cpu_regs = zero_registers, kmem = \<lambda>_. 0, page_of = \<lambda>_. 0,
      page_writable = \<lambda>_. False, exit_stub = 0x2000\<rparr>"

definition sample_regs :: Registers where
  "sample_regs = zero_registers\<lparr>reg_rip := 0x1000\<rparr>"

lemma sample_rip [simp]: "reg_rip sample_regs \<noteq> 0"
  by (simp add: sample_regs_def zero_registers_def)

lemma boot_image_on: "power_on boot_image"
  by (simp add: power_on_def boot_image_def)

lemma boot_reached:
  "\<exists>s. sched_reach False s \<and> sched_ok s [1] \<and> current_slot s = 0 \<and> APICticks s = 0 \<and> APIC_HZ s = 1000 \<and> proc_pid (processes s 0) = 0
    \<and> proc_pid (processes s 1) = 1 \<and> proc_state (processes s 0) = PROC_RUNNING"
proof -
  obtain s where i: "EEVDFSchedInit True True 0 0x1000 0x8000 True True boot_image = Some s" "sched_ok s [1]" "current_slot s = 0"
      "APICticks s = APICticks boot_image" "APIC_HZ s = APIC_HZ boot_image" "proc_pid (processes s 0) = 0" "proc_pid (processes s 1) = 1"
      "proc_state (processes s 0) = PROC_RUNNING"
    using SchedInit_run [OF boot_image_on, of True "0x1000" "0x8000" True 0 True True] by auto
  moreover have "sched_reach False s" by (rule sched_reach.boot [OF boot_image_on _ _ i(1)]) simp_all
  ultimately show ?thesis by (intro exI [of _ s]) (simp add: boot_image_def)
qed

text \<open>
  C1: In every state the scheduler reaches from power-on by timer interrupts, creation and termination of
  processes, in any order, the next timer interrupt returns (no lock is taken twice, no assertion of the
  tree or of the queues stops the machine); it loses no process that can run and adds none; the process
  it switches to has the least virtual run time of all, the processor continues where that process was
  interrupted, and the interrupted process keeps its registers.  Without a process to run it idles.
\<close>

theorem timer_interrupt_schedules:
  assumes "sched_reach w s" "reg_rip regs \<noteq> 0"
  shows "\<exists>s'. timer_interrupt regs s = Some s' \<and> runnable s' = runnable s
    \<and> (if runnable s = {} then current_slot s' = 0
       else current_slot s' \<in> runnable s \<and> proc_state (processes s' (current_slot s')) = PROC_RUNNING
         \<and> (\<forall>p \<in> runnable s. vruntime (processes s' (current_slot s')) \<le> vruntime (processes s' p))
         \<and> cpu_regs s' = (if current_slot s' = current_slot s then regs else proc_context (processes s (current_slot s')))
         \<and> (\<forall>p \<in> runnable s. proc_context (processes s' p) = (if p = current_slot s then regs else proc_context (processes s p))))"
proof -
  obtain ps where ok: "sched_ok s ps" using sched_reach_ok [OF assms(1)] by (auto simp: ok_timely_def)
  note rq = runnable_queue(1) [OF ok]
  show ?thesis
  proof (cases "ready_queue s ps")
    case Nil
    then obtain s' where s': "timer_interrupt regs s = Some s'" "sched_ok s' []" "current_slot s' = 0" using timer_step [OF ok assms(2)] by auto
    then have "runnable s' = {}" using runnable_queue(1) [OF s'(2)] by (simp add: ready_queue_def)
    then show ?thesis using s' rq Nil by (intro exI [of _ s']) simp
  next
    case (Cons n r)
    then obtain s' where s': "timer_interrupt regs s = Some s'" "sched_ok s' r" "current_slot s' = n" "proc_state (processes s' n) = PROC_RUNNING"
        "cpu_regs s' = (if n = current_slot s then regs else proc_context (processes s n))"
        "\<forall>p \<in> runnable s. vruntime (processes s' p) = new_key s ps p
          \<and> proc_context (processes s' p) = (if p = current_slot s then regs else proc_context (processes s p))"
      using timer_step [OF ok assms(2)] by auto
    have n: "n \<in> runnable s" using rq Cons by auto
    have "\<forall>p \<in> runnable s. new_key s ps n \<le> new_key s ps p" using ready_queue_sorted [OF ok] rq Cons by auto
    then show ?thesis using s' n runnable_timer [OF ok s'(2-4) Cons] by (intro exI [of _ s']) auto
  qed
qed

theorem timer_interrupt_schedules_witness:
  "\<exists>s s'. sched_reach False s \<and> timer_interrupt sample_regs s = Some s' \<and> current_slot s = 0 \<and> current_slot s' = 1"
proof -
  obtain s where s: "sched_reach False s" "sched_ok s [1]" "current_slot s = 0" using boot_reached by blast
  have "runnable s = {1}" using runnable_queue(1) [OF s(2)] s(3) by (simp add: ready_queue_def)
  then show ?thesis using timer_interrupt_schedules [OF s(1) sample_rip] s(1,3) by auto
qed

text \<open>
  C6: No process starves.  As long as the tick counter has not wrapped around, a queued process runs after
  a bounded number of timer interrupts, whatever the interrupted code does: the bound counts, for each other
  process that can run, how many 64ths of a tick its virtual run time is behind.
\<close>

theorem no_starvation:
  assumes "sched_reach False s" "rb_node (processes s p) \<noteq> None" "64 \<le> tick_ns (APIC_HZ s)" "\<And>i. reg_rip (regs i) \<noteq> 0"
    "unat (APICticks s) + wait_bound s p + 1 < 2 ^ 32 - 1"
  shows "\<exists>k s'. k \<le> wait_bound s p + 1 \<and> timer_run k regs s = Some s' \<and> current_slot s' = p"
proof -
  obtain ps where ok: "sched_ok s ps" "timely s" using sched_reach_ok [OF assms(1)] by (auto simp: ok_timely_def)
  have "p \<in> set ps" using runnable_queue(2) [OF ok(1)] assms(2) by blast
  moreover have "late s p \<le> 1" by (simp add: late_def)
  ultimately show ?thesis using scheduled_within [OF ok _ assms(3,4), of p "wait_bound s p + 1"] assms(5) by simp
qed

theorem no_starvation_witness:
  "\<exists>s k s'. sched_reach False s \<and> wait_bound s 1 = 0 \<and> k \<le> 1 \<and> timer_run k (\<lambda>_. sample_regs) s = Some s' \<and> current_slot s' = 1"
proof -
  obtain s where s: "sched_reach False s" "sched_ok s [1]" "current_slot s = 0" "APICticks s = 0" "APIC_HZ s = 1000" using boot_reached by blast
  have "runnable s = {1}" using runnable_queue(1) [OF s(2)] s(3) by (simp add: ready_queue_def)
  then have w: "wait_bound s 1 = 0" by (simp add: wait_bound_def)
  have q: "rb_node (processes s 1) \<noteq> None" using runnable_queue(2) [OF s(2), of 1] by simp
  have t: "64 \<le> tick_ns (APIC_HZ s)" by (simp add: s(5) tick_ns_def)
  from no_starvation [OF s(1) q t, of "\<lambda>_. sample_regs"] show ?thesis using w s(1,4) by auto
qed







end
