(* ===== verification/Spec2Isabelle.thy ===== *)
theory Spec2Isabelle
  imports PMemInit Ipc Buddy MemPool StringOps M6502 RwLock McsLock SpinLock Net VFRFS MemOps Crypto Format Devices EevdfRun Cerberus
begin

text \<open>
  A verification development for the VoidFrame kernel.

  \<^bold>\<open>The program.\<close>  VoidFrame is a 64-bit kernel in C, C++, Rust and assembly.  Its parts call each other from the
  bottom up.  The memory and string primitives (\<open>src/mm/MemOps.c\<close>, \<open>src/mm/asm\<close>, \<open>src/kernel/etc/StringOps.c\<close>) are used
  everywhere.  The physical page allocator (\<open>src/mm/PMem.c\<close>) gives frames to the virtual memory manager, which takes
  address ranges from the buddy allocator (\<open>src/mm/dynamic/cpp/BuddyAllocator.cpp\<close>) and serves the block pools
  (\<open>src/mm/MemPool.c\<close>).  The locks (\<open>src/kernel/atomic\<close>) guard the tables of the other parts.  The scheduler
  (\<open>src/kernel/sched/EEVDF.c\<close>) runs from the timer interrupt over a red-black tree of processes, seals its control blocks,
  and calls the memory monitor (\<open>src/mm/security/Cerberus.c\<close>).  Processes exchange messages through the queues in their
  control blocks (\<open>src/kernel/ipc/Ipc.c\<close>).  Above them are the RAM file system (\<open>src/fs/VFRFS.c\<close>), the device layer
  (\<open>src/fs/BlockDevice.c\<close>, \<open>CharDevice.c\<close> and their neighbours), the network stack (\<open>src/drivers/ethernet\<close>), the hashes
  (\<open>src/crypto\<close>), formatted output (\<open>src/kernel/etc/Format.c\<close>) and a 6502 emulator (\<open>src/ports/6502\<close>).

  \<^bold>\<open>Conventions.\<close>  A definition has the name of the function it translates.  The static variables of a file, or a C
  structure, are a record; an array of structures is a list, or one function of the index per field, and a pointer into
  it is the index, with \<open>None\<close> for NULL.  Words are words of their C width, or naturals with the wrap-around written out
  (\<open>wrap64\<close>, \<open>sub64\<close>, \<open>wrap32\<close> of \<open>VF_Prelude\<close>).  The result \<open>None\<close> of an operation is a fault: a NULL or wild access, a panic,
  a lock taken twice, or a loop that does not end.  Code outside the sources, drivers behind function pointers, and parts
  of the kernel that are not modelled are arguments.  Console output is left out.

  \<^bold>\<open>Shared theories.\<close>
  \<^item> \<open>VF_Prelude\<close>: C integer types, wrap-around, compiler built-ins on words, generic lemmas, the collection of wrap-around
    rules.
  \<^item> \<open>Linked\<close>: singly and doubly linked lists in a heap of pointer fields.
  \<^item> \<open>Protocol\<close>: transition systems with an inductive invariant, and the locale \<open>mutual_exclusion\<close>, the contract of a lock.
  \<^item> \<open>Sched_Shared\<close>: the types of \<open>src/kernel/sched/Shared.h\<close>.

  \<^bold>\<open>Memory.\<close>
  \<^item> \<open>PMem\<close> and \<open>PMemInit\<close> (\<open>src/mm/PMem.c\<close>): the bitmap allocator with \<open>AllocPage\<close>, \<open>FreePage\<close>, the huge pages, the
    word-at-a-time range operations and \<open>MemoryInit\<close>.  Shown: allocation takes exactly a fresh page and fails only when
    there is none; the range operations equal a page-by-page reference; the huge-page search ends and is complete for
    counts below \<open>2 ^ 54\<close>; the set of pages used after boot; bitmap and counter agree in every run.  The locale
    \<open>page_allocator\<close> is the contract of the callers.
  \<^item> \<open>Buddy\<close> (\<open>BuddyAllocator.cpp\<close>): free lists, hash chains and the pool of 2048 nodes as pointers, refined to the set of
    free blocks.  Shown: allocation takes a least sufficient block and never overlaps what stays available; freeing merges
    as far as possible; creation keeps the first 2048 blocks of the region; ranges handed out are disjoint (locale
    \<open>range_allocator\<close>).
  \<^item> \<open>MemPool\<close> (\<open>MemPool.c\<close>): the free list in a memory of bytes.  Shown: for blocks of 8 bytes up to a page, every block is
    handed out once, and again after all are returned.
  \<^item> \<open>MemOps\<close> (\<open>MemOps.c\<close>, \<open>memcpy.asm\<close>, \<open>memset.asm\<close>, \<open>memcmp.asm\<close>, \<open>zeropage.asm\<close>): the assembly on a register machine.
    Shown: \<open>FastMemcpy\<close> without AVX2 copies exactly; \<open>FastMemset\<close> fills up to a multiple of the vector width of the machine
    and leaves the rest, which \<open>Crypto\<close> and \<open>VFRFS\<close> take into account where they clear structures.
  \<^item> \<open>Cerberus\<close> (\<open>Cerberus.c\<close>): the monitor refines a bag of blocks and a set of processes, as long as the process number
    of every free is below 128.

  \<^bold>\<open>Locks.\<close>  \<open>RwLock\<close>, \<open>McsLock\<close> and \<open>SpinLock\<close> (\<open>rwlock.rs\<close>, \<open>mcs.rs\<close>, \<open>spinlock.rs\<close>, \<open>Spinlock.cpp\<close>, \<open>ffi.rs\<close>): one step per
  atomic access, steps of all threads interleaved, each an interpretation of \<open>mutual_exclusion\<close>.  Shown: writers exclude
  everybody; the MCS lock is granted in the order of the swaps of \<open>tail\<close>, over the histories of all runs, and is handed on
  in a bounded number of accesses.

  \<^bold>\<open>Processes.\<close>
  \<^item> \<open>EevdfTree\<close> and \<open>EevdfQueue\<close> (\<open>EEVDF.c\<close>, run queue): the red-black tree with parent pointers.  Shown: insertion and
    deletion return and keep a valid, ordered, fully linked tree; the locale \<open>run_queue\<close> and its interpretation make it a
    stable priority queue.
  \<^item> \<open>Eevdf\<close>, \<open>EevdfSched\<close> and \<open>EevdfRun\<close> (\<open>EEVDF.c\<close>, scheduler): the definitions, the invariant with its preservation by
    every operation, and the runs from power-on.  Shown: the timer interrupt returns and switches to a process of least
    virtual run time; termination; no queued process starves; a state changed without a new seal kills the process.
  \<^item> \<open>Ipc\<close> (\<open>Ipc.c\<close>): the ring buffer refined to the list of its messages (locale \<open>mailbox\<close>).  Shown: what sending and
    receiving do on every path; conservation of messages; no lost wake-up in any interleaving of both receive calls.

  \<^bold>\<open>Files, devices, services.\<close>
  \<^item> \<open>VFRFS\<close> (\<open>VFRFS.c\<close>): nodes, handles and the path walk over a tree.  Shown: a write is read back; creation and deletion
    of an entry, and what they do to all paths.
  \<^item> \<open>Devices\<close> (\<open>BlockDevice.c\<close>, \<open>MBR.c\<close>, \<open>DriveNaming.c\<close>, \<open>CharDevice.c\<close>, \<open>DevFS.c\<close>, \<open>Random.c\<close>, \<open>FileSystem.c\<close>): partitions
    read at their offset, requests end, the random device fills its buffer.
  \<^item> \<open>Net\<close> (\<open>Network.c\<close>, \<open>Arp.c\<close>, \<open>Ip.c\<close>, \<open>Icmp.c\<close>): the address cache, and the answer to an echo request.
  \<^item> \<open>Crypto\<close> (\<open>SHA256.c\<close>, \<open>CRC32.c\<close>, \<open>RNG.c\<close>): SHA-256 against FIPS 180-4 with the padding the machine really writes, the
    table-driven CRC against division of polynomials.
  \<^item> \<open>Format\<close> and \<open>StringOps\<close> (\<open>Format.c\<close>, \<open>ctype.c\<close>, \<open>StringOps.c\<close>): output stays in its buffer and ends for formats that
    fit their arguments; numbers are read back; comparison is lexicographic.
  \<^item> \<open>M6502\<close> (\<open>6502.cpp\<close>): the instructions in the state monad; exact addition and subtraction.

  \<^bold>\<open>Bounds and fuel.\<close>  Loops are structural recursions, functions with a termination measure, or partial functions;
  where a theorem says that an operation returns, the result is proved to exist.  The loop of the 6502 may run for ever.  Fuel occurs in the recursive deletion of \<open>VFRFS\<close> only: its calls nest once for every child
  visited and once for every level entered, so twice \<open>MAX_FS_NODES\<close> is enough for a tree of \<open>MAX_FS_NODES\<close> nodes.  The loops of
  the red-black tree, the hash chains and the free lists return because their structures are shown to be finite lists and
  trees.  Limits in the theorems are those of the code: 2048 nodes and orders below 19 in \<open>Buddy\<close>, names of at most 62
  characters in \<open>VFRFS\<close>, 32 messages in \<open>Ipc\<close>, counts below \<open>2 ^ 54\<close> where a product by 512 must not wrap.

  \<^bold>\<open>Not modelled.\<close>  Boot code, descriptor tables and interrupt entry (their effect is on the processor), page tables and page
  faults, the kernel heap, the alternative scheduler \<open>MLFQ.c\<close>, the on-disk file systems, \<open>VFS.c\<close>, the program loaders, the
  hardware drivers, and the console, shell and editor.  The spin locks around the bodies of \<open>PMem\<close>, \<open>Buddy\<close> and \<open>Ipc\<close> are left
  out: the definitions are the critical sections, and the locks themselves are modelled in their own theories.  The
  scheduler runs on one processor.  Outside \<open>MemOps\<close>, \<open>FastMemcpy\<close> and \<open>FastMemcmp\<close> stand for an exact copy and comparison.
\<close>

end
